(* ===== verification/Prelude.thy ===== *)
theory Prelude
  imports Main "HOL-Library.Word"
begin

unbundle bit_operations_syntax

text \<open>
  Shared vocabulary of the development: the machine integer types of the C sources, C
  statements as functions on an explicit state that may also stop early, a weakest
  precondition calculus for them, systems of steps and their invariants, and the list lemmas
  about in-place stores that the components share.
\<close>

section \<open>Types\<close>

type_synonym u8 = "8 word"
type_synonym u16 = "16 word"
type_synonym u32 = "32 word"
type_synonym u64 = "64 word"
type_synonym byte = u8
type_synonym bytes = "byte list"

text \<open>
  A C function body: it starts in a state, and ends in a state either normally with a
  value, or abruptly with an exit of type \<open>'e\<close> (an early \<^verbatim>\<open>return\<close>, a call of
  \<^verbatim>\<open>error()\<close>, a \<^verbatim>\<open>panic\<close>, a fault). The state survives an abrupt end, as memory does.
\<close>

type_synonym ('s, 'e, 'a) sem = "'s \<Rightarrow> ('e + 'a) \<times> 's"

named_theorems wp_simps \<open>weakest preconditions of the statement forms\<close>
named_theorems list_store \<open>reading a buffer after a store into it\<close>

section \<open>Statements\<close>

definition ret :: "'a \<Rightarrow> ('s, 'e, 'a) sem" where
  "ret x = (\<lambda>s. (Inr x, s))"

definition raise :: "'e \<Rightarrow> ('s, 'e, 'a) sem" where
  "raise e = (\<lambda>s. (Inl e, s))"

definition and_then :: "('s, 'e, 'a) sem \<Rightarrow> ('a \<Rightarrow> ('s, 'e, 'b) sem) \<Rightarrow> ('s, 'e, 'b) sem" where
  "and_then m f = (\<lambda>s. case m s of (Inl e, s') \<Rightarrow> (Inl e, s') | (Inr x, s') \<Rightarrow> f x s')"

definition seq :: "('s, 'e, unit) sem \<Rightarrow> ('s, 'e, 'b) sem \<Rightarrow> ('s, 'e, 'b) sem" where
  "seq m n = and_then m (\<lambda>_. n)"

definition fetch :: "('s \<Rightarrow> 'a) \<Rightarrow> ('s, 'e, 'a) sem" where
  "fetch f = (\<lambda>s. (Inr (f s), s))"

definition modify :: "('s \<Rightarrow> 's) \<Rightarrow> ('s, 'e, unit) sem" where
  "modify f = (\<lambda>s. (Inr (), f s))"

text \<open>The kernel's \<^verbatim>\<open>if(waserror()){ h; nexterror(); }\<close>: clean up, then raise again.\<close>

definition on_error :: "('s, 'e, 'a) sem \<Rightarrow> ('e \<Rightarrow> ('s, 'e, unit) sem) \<Rightarrow> ('s, 'e, 'a) sem" where
  "on_error m h = (\<lambda>s. case m s of (Inl e, s') \<Rightarrow> (Inl e, snd (h e s')) | (Inr x, s') \<Rightarrow> (Inr x, s'))"

text \<open>A counted \<^verbatim>\<open>for\<close> loop that stores one result per round.\<close>

fun collect_n :: "nat \<Rightarrow> ('s, 'e, 'a) sem \<Rightarrow> ('s, 'e, 'a list) sem" where
  "collect_n 0 m = ret []"
| "collect_n (Suc n) m = and_then m (\<lambda>x. and_then (collect_n n m) (\<lambda>xs. ret (x # xs)))"

text \<open>A loop over the elements of an array.\<close>

fun for_each :: "('a \<Rightarrow> ('s, 'e, unit) sem) \<Rightarrow> 'a list \<Rightarrow> ('s, 'e, unit) sem" where
  "for_each f [] = ret ()"
| "for_each f (x # xs) = seq (f x) (for_each f xs)"

lemma and_then_fetch: "and_then (fetch f) k s = k (f s) s"
  by (simp add: and_then_def fetch_def)

section \<open>Weakest preconditions\<close>

text \<open>
  \<open>wp m Q E s\<close>: run from \<open>s\<close>, a normal end satisfies \<open>Q\<close> and an abrupt one \<open>E\<close>. With
  \<open>E = (\<lambda>_ _. False)\<close> it says that the code does return normally.
\<close>

definition wp :: "('s, 'e, 'a) sem \<Rightarrow> ('a \<Rightarrow> 's \<Rightarrow> bool) \<Rightarrow> ('e \<Rightarrow> 's \<Rightarrow> bool) \<Rightarrow> 's \<Rightarrow> bool" where
  "wp m Q E s = (case m s of (Inl e, s') \<Rightarrow> E e s' | (Inr x, s') \<Rightarrow> Q x s')"

lemma wp_ret [wp_simps]: "wp (ret x) Q E = Q x"
  by (rule ext) (simp add: wp_def ret_def)

lemma wp_raise [wp_simps]: "wp (raise e) Q E = E e"
  by (rule ext) (simp add: wp_def raise_def)

lemma wp_and_then [wp_simps]: "wp (and_then m f) Q E = wp m (\<lambda>x. wp (f x) Q E) E"
  by (rule ext) (simp add: wp_def and_then_def split: prod.splits sum.splits)

lemma wp_seq [wp_simps]: "wp (seq m n) Q E = wp m (\<lambda>_. wp n Q E) E"
  by (simp add: seq_def wp_and_then)

lemma wp_fetch [wp_simps]: "wp (fetch f) Q E = (\<lambda>s. Q (f s) s)"
  by (rule ext) (simp add: wp_def fetch_def)

lemma wp_modify [wp_simps]: "wp (modify f) Q E = (\<lambda>s. Q () (f s))"
  by (rule ext) (simp add: wp_def modify_def)

lemma wp_if [wp_simps]: "wp (if b then m else n) Q E = (if b then wp m Q E else wp n Q E)"
  by simp

lemmas wp_flow = wp_ret wp_raise wp_and_then wp_seq wp_fetch wp_modify wp_if

lemma wp_conseq:
  assumes "wp m Q E s" and "\<And>x s'. Q x s' \<Longrightarrow> Q' x s'" and "\<And>e s'. E e s' \<Longrightarrow> E' e s'"
  shows "wp m Q' E' s"
  using assms by (auto simp: wp_def split: prod.splits sum.splits)

lemma wpD_Inr: "wp m Q E s \<Longrightarrow> m s = (Inr x, s') \<Longrightarrow> Q x s'"
  by (simp add: wp_def)

lemma wpD_Inl: "wp m Q E s \<Longrightarrow> m s = (Inl e, s') \<Longrightarrow> E e s'"
  by (simp add: wp_def)

text \<open>A normal end as an equation, the form in which properties state it.\<close>

lemma wp_total_iff:
  "wp m Q (\<lambda>_ _. False) s \<longleftrightarrow> (\<exists>x s'. m s = (Inr x, s') \<and> Q x s')"
  by (auto simp: wp_def split: prod.splits sum.splits)

lemma wp_conj: "wp m Q E s \<Longrightarrow> wp m Q' E s \<Longrightarrow> wp m (\<lambda>x s'. Q x s' \<and> Q' x s') E s"
  by (auto simp: wp_def split: prod.splits sum.splits)

section \<open>Reachable states\<close>

inductive reach :: "('s \<Rightarrow> bool) \<Rightarrow> ('s \<Rightarrow> 's \<Rightarrow> bool) \<Rightarrow> 's \<Rightarrow> bool" for init step where
  reach_init: "init s \<Longrightarrow> reach init step s"
| reach_step: "reach init step s \<Longrightarrow> step s s' \<Longrightarrow> reach init step s'"

text \<open>
  A component used by many processes: every state it starts in satisfies the invariant for some abstract value \<open>W\<close>, and every step
  keeps it for some other.
\<close>

locale invariant_system =
  fixes init :: "'s \<Rightarrow> bool" and step :: "'s \<Rightarrow> 's \<Rightarrow> bool" and ok :: "'s \<Rightarrow> 'w \<Rightarrow> bool"
  assumes starts: "init s \<Longrightarrow> \<exists>W. ok s W"
    and keeps: "ok s W \<Longrightarrow> step s s' \<Longrightarrow> \<exists>W'. ok s' W'"
begin

lemma invariant_holds: "reach init step s \<Longrightarrow> \<exists>W. ok s W"
  by (induction rule: reach.induct) (use starts keeps in blast)+

end

section \<open>Stores into a buffer\<close>

text \<open>\<open>overwrite buf p bs\<close>: what \<^verbatim>\<open>memmove(buf + p, bs, n)\<close> leaves in \<open>buf\<close> when it fits.\<close>

definition overwrite :: "'a list \<Rightarrow> nat \<Rightarrow> 'a list \<Rightarrow> 'a list" where
  "overwrite buf p bs = take p buf @ bs @ drop (p + length bs) buf"

lemma length_overwrite [simp, list_store]:
  "p + length bs \<le> length buf \<Longrightarrow> length (overwrite buf p bs) = length buf"
  by (simp add: overwrite_def)

lemma take_overwrite [list_store]:
  "p + length bs \<le> length buf \<Longrightarrow> n \<le> p \<Longrightarrow> take n (overwrite buf p bs) = take n buf"
  by (simp add: overwrite_def min_def)

lemma take_overwrite_end [list_store]:
  "p + length bs \<le> length buf \<Longrightarrow> take (p + length bs) (overwrite buf p bs) = take p buf @ bs"
  by (cases bs) (auto simp: overwrite_def min_def)

lemma drop_overwrite [list_store]:
  "p + length bs \<le> length buf \<Longrightarrow> p + length bs \<le> n \<Longrightarrow> drop n (overwrite buf p bs) = drop n buf"
  by (simp add: overwrite_def min_def drop_append)

lemma drop_overwrite_here [list_store]:
  "p + length bs \<le> length buf \<Longrightarrow> drop p (overwrite buf p bs) = bs @ drop (p + length bs) buf"
  by (simp add: overwrite_def min_def)

lemma overwrite_overwrite:
  assumes "p + length as + length bs \<le> length buf"
  shows "overwrite (overwrite buf p as) (p + length as) bs = overwrite buf p (as @ bs)"
proof -
  have "overwrite (overwrite buf p as) (p + length as) bs =
      take (p + length as) (overwrite buf p as) @ bs @ drop (p + length as + length bs) (overwrite buf p as)"
    by (simp add: overwrite_def [of "overwrite buf p as"])
  also have "\<dots> = take p buf @ as @ bs @ drop (p + length as + length bs) buf"
    using assms by (simp add: take_overwrite_end drop_overwrite)
  finally show ?thesis by (simp add: overwrite_def add.assoc)
qed

lemma drop_append_length:
  "drop p xs = ys @ zs \<Longrightarrow> drop (p + length ys) xs = zs"
  by (metis add.commute append_eq_conv_conj drop_drop)

lemma drop_append_bound:
  "drop p xs = ys @ zs \<Longrightarrow> p \<le> length xs \<Longrightarrow> p + length ys \<le> length xs"
  by (metis add.commute le_add1 le_diff_conv2 length_append length_drop)

lemma drop_of_take: "take n buf = xs @ ys \<Longrightarrow> drop (length xs) buf = ys @ drop n buf"
  by (metis append_assoc append_eq_conv_conj append_take_drop_id)

lemma take_eq_le: "take n xs = take n ys \<Longrightarrow> m \<le> n \<Longrightarrow> take m xs = take m ys"
  by (metis min.absorb1 take_take)

lemma drop_eq_ge: "drop m xs = drop m ys \<Longrightarrow> m \<le> n \<Longrightarrow> drop n xs = drop n ys"
  by (metis drop_drop le_add_diff_inverse add.commute)

lemma takeWhile_zero_end [simp]:
  "takeWhile (\<lambda>b. b \<noteq> 0) (s @ 0 # r) = takeWhile (\<lambda>b. b \<noteq> (0::byte)) s"
  by (induction s) auto

end
