(* ===== verification/Wire.thy ===== *)
theory Wire
  imports Prelude
begin

unbundle bit_operations_syntax

text \<open>
  The wire primitives of the 9P2000 codecs: the \<^verbatim>\<open>GBIT\<close>/\<^verbatim>\<open>PBIT\<close> macros of
  \<^verbatim>\<open>sys/include/9P2000.h\<close>, a cursor into a caller's buffer through which the codecs
  read and write, and the interface \<open>wire_field\<close> that every kind of field satisfies:
  what was put is got back, from the same place, and stays readable there. The codecs of
  whole messages rest on it.
\<close>

section \<open>Byte order macros\<close>

definition PBIT8 :: "u8 \<Rightarrow> bytes" where
  "PBIT8 v = [v]"

definition PBIT16 :: "u16 \<Rightarrow> bytes" where
  "PBIT16 v = [ucast v, ucast (drop_bit 8 v)]"

definition PBIT32 :: "u32 \<Rightarrow> bytes" where
  "PBIT32 v = [ucast v, ucast (drop_bit 8 v), ucast (drop_bit 16 v), ucast (drop_bit 24 v)]"

definition PBIT64 :: "u64 \<Rightarrow> bytes" where
  "PBIT64 v = [ucast v, ucast (drop_bit 8 v), ucast (drop_bit 16 v), ucast (drop_bit 24 v),
     ucast (drop_bit 32 v), ucast (drop_bit 40 v), ucast (drop_bit 48 v), ucast (drop_bit 56 v)]"

definition GBIT8 :: "bytes \<Rightarrow> u8" where
  "GBIT8 p = p ! 0"

definition GBIT16 :: "bytes \<Rightarrow> u16" where
  "GBIT16 p = ucast (p ! 0) OR push_bit 8 (ucast (p ! 1))"

definition GBIT32 :: "bytes \<Rightarrow> u32" where
  "GBIT32 p = ucast (p ! 0) OR push_bit 8 (ucast (p ! 1)) OR push_bit 16 (ucast (p ! 2))
     OR push_bit 24 (ucast (p ! 3))"

definition GBIT64 :: "bytes \<Rightarrow> u64" where
  "GBIT64 p = ucast (GBIT32 p) OR push_bit 32 (ucast (GBIT32 (drop 4 p)))"

lemma GBIT8_PBIT8 [simp]: "GBIT8 (PBIT8 v) = v"
  by (simp add: GBIT8_def PBIT8_def)

lemma GBIT16_PBIT16 [simp]: "GBIT16 (PBIT16 v) = v"
  by (rule bit_word_eqI) (auto simp: GBIT16_def PBIT16_def bit_simps)

lemma byte_position:
  assumes "n < 8 * k"
  obtains i j where "n = 8 * i + j" and "j < (8::nat)" and "i < k"
  using assms by (metis div_less_iff_less_mult mod_less_divisor mult.commute mult_div_mod_eq
      zero_less_numeral)

lemma bit_GBIT32:
  assumes "j < 8" and "i < 4"
  shows "bit (GBIT32 p) (8 * i + j) = bit (p ! i) j"
proof -
  from \<open>i < 4\<close> consider "i = 0" | "i = 1" | "i = 2" | "i = 3" by linarith
  then show ?thesis
    using \<open>j < 8\<close> by cases (auto simp: GBIT32_def bit_simps dest: bit_imp_le_length)
qed

lemma bit_GBIT64:
  assumes "j < 8" and "i < 8" and "8 \<le> length p"
  shows "bit (GBIT64 p) (8 * i + j) = bit (p ! i) j"
proof (cases "i < 4")
  case True
  then show ?thesis
    using assms bit_GBIT32 [of j i p] by (simp add: GBIT64_def bit_simps)
next
  case False
  then obtain k where i: "i = 4 + k" by (metis le_iff_add not_less)
  with assms have "bit (GBIT32 (drop 4 p)) (8 * k + j) = bit (drop 4 p ! k) j"
    by (intro bit_GBIT32) auto
  then show ?thesis
    using assms i by (auto simp: GBIT64_def bit_simps dest: bit_imp_le_length)
qed

lemma GBIT32_PBIT32 [simp]: "GBIT32 (PBIT32 v) = v"
proof (rule bit_word_eqI)
  fix n assume "n < LENGTH(32)"
  then have "n < 8 * 4" by simp
  then obtain i j where n: "n = 8 * i + j" "j < 8" "i < 4" by (rule byte_position)
  from \<open>i < 4\<close> consider "i = 0" | "i = 1" | "i = 2" | "i = 3" by linarith
  then show "bit (GBIT32 (PBIT32 v)) n = bit v n"
    using n bit_GBIT32 [OF n(2,3), of "PBIT32 v"] by cases (auto simp: PBIT32_def bit_simps)
qed

lemma GBIT64_PBIT64 [simp]: "GBIT64 (PBIT64 v) = v"
proof (rule bit_word_eqI)
  fix n assume "n < LENGTH(64)"
  then have "n < 8 * 8" by simp
  then obtain i j where n: "n = 8 * i + j" "j < 8" "i < 8" by (rule byte_position)
  from \<open>i < 8\<close> consider "i = 0" | "i = 1" | "i = 2" | "i = 3" | "i = 4" | "i = 5" | "i = 6" | "i = 7"
    by linarith
  then show "bit (GBIT64 (PBIT64 v)) n = bit v n"
    using n bit_GBIT64 [OF n(2,3), of "PBIT64 v"] by cases (auto simp: PBIT64_def bit_simps)
qed

lemma length_PBIT [simp]:
  "length (PBIT8 v) = 1" "length (PBIT16 w) = 2" "length (PBIT32 x) = 4" "length (PBIT64 y) = 8"
  by (simp_all add: PBIT8_def PBIT16_def PBIT32_def PBIT64_def)

text \<open>Reading is injective on the bytes it reads: the macros lose nothing.\<close>

lemma PBIT8_GBIT8: "length p = 1 \<Longrightarrow> PBIT8 (GBIT8 p) = p"
  by (cases p) (auto simp: PBIT8_def GBIT8_def)

lemma PBIT16_GBIT16:
  assumes "length p = 2"
  shows "PBIT16 (GBIT16 p) = p"
proof -
  from assms obtain a b where p: "p = [a, b]" by (auto simp: numeral_2_eq_2 length_Suc_conv)
  have "ucast (GBIT16 p) = a" "ucast (drop_bit 8 (GBIT16 p)) = b"
    by (rule bit_word_eqI; auto simp: p GBIT16_def bit_simps dest: bit_imp_le_length)+
  then show ?thesis by (simp add: PBIT16_def p)
qed

lemma bytes_of_bits:
  assumes "length p = k" and "length q = k"
    and "\<And>i j. j < 8 \<Longrightarrow> i < k \<Longrightarrow> bit (p ! i) j = bit (q ! i) j"
  shows "p = (q :: bytes)"
proof (rule nth_equalityI)
  show "length p = length q" using assms by simp
next
  fix i assume "i < length p"
  with assms show "p ! i = q ! i" by (intro bit_word_eqI) simp
qed

lemma PBIT32_GBIT32: "length p = 4 \<Longrightarrow> PBIT32 (GBIT32 p) = p"
proof (rule bytes_of_bits [where k = 4])
  fix i j :: nat assume "j < 8" "i < 4"
  from \<open>i < 4\<close> consider "i = 0" | "i = 1" | "i = 2" | "i = 3" by linarith
  then show "bit (PBIT32 (GBIT32 p) ! i) j = bit (p ! i) j"
    using \<open>j < 8\<close> bit_GBIT32 [OF \<open>j < 8\<close> \<open>i < 4\<close>, of p]
    by cases (auto simp: PBIT32_def bit_simps)
qed auto

lemma PBIT64_GBIT64: "length p = 8 \<Longrightarrow> PBIT64 (GBIT64 p) = p"
proof (rule bytes_of_bits [where k = 8])
  fix i j :: nat assume *: "length p = 8" "j < 8" "i < 8"
  from \<open>i < 8\<close> consider "i = 0" | "i = 1" | "i = 2" | "i = 3" | "i = 4" | "i = 5" | "i = 6" | "i = 7"
    by linarith
  then show "bit (PBIT64 (GBIT64 p) ! i) j = bit (p ! i) j"
    using * bit_GBIT64 [OF *(2,3), of p] by cases (auto simp: PBIT64_def bit_simps)
qed auto

section \<open>A cursor into the caller's buffer\<close>

text \<open>
  \<open>cbuf\<close> is the memory the caller passed (\<^verbatim>\<open>ap\<close> with its \<^verbatim>\<open>nap\<close> bytes), \<open>cp\<close> the offset of
  the moving pointer \<^verbatim>\<open>p\<close>, \<^verbatim>\<open>ep\<close> the length of \<open>cbuf\<close>. An access outside is a \<open>Fault\<close>; an
  early \<^verbatim>\<open>return n\<close> is \<open>Return n\<close>.
\<close>

record cursor =
  cbuf :: bytes
  cp :: nat

datatype cexit = Return int | Fault

definition at_start :: "bytes \<Rightarrow> cursor" where
  "at_start b = \<lparr>cbuf = b, cp = 0\<rparr>"

lemma at_start_sel [simp]: "cbuf (at_start b) = b" "cp (at_start b) = 0"
  by (simp_all add: at_start_def)

definition load :: "nat \<Rightarrow> nat \<Rightarrow> (cursor, cexit, bytes) sem" where
  "load p n = (\<lambda>c. if p + n \<le> length (cbuf c) then (Inr (take n (drop p (cbuf c))), c) else (Inl Fault, c))"

definition store :: "nat \<Rightarrow> bytes \<Rightarrow> (cursor, cexit, unit) sem" where
  "store p bs = (\<lambda>c. if p + length bs \<le> length (cbuf c)
     then (Inr (), c\<lparr>cbuf := overwrite (cbuf c) p bs\<rparr>) else (Inl Fault, c))"

definition adv :: "nat \<Rightarrow> (cursor, cexit, unit) sem" where
  "adv n = modify (\<lambda>c. c\<lparr>cp := cp c + n\<rparr>)"

text \<open>\<^verbatim>\<open>if(p+n > ep) return 0;\<close>\<close>

definition need :: "nat \<Rightarrow> (cursor, cexit, unit) sem" where
  "need n = (\<lambda>c. if cp c + n > length (cbuf c) then (Inl (Return 0), c) else (Inr (), c))"

text \<open>\<^verbatim>\<open>v = GBITn(p); p += BITnSZ;\<close> and \<^verbatim>\<open>PBITn(p, v); p += BITnSZ;\<close>\<close>

definition take_in :: "nat \<Rightarrow> (bytes \<Rightarrow> 'a) \<Rightarrow> (cursor, cexit, 'a) sem" where
  "take_in n f = and_then (fetch cp) (\<lambda>p. and_then (load p n) (\<lambda>b. seq (adv n) (ret (f b))))"

definition put_out :: "bytes \<Rightarrow> (cursor, cexit, unit) sem" where
  "put_out bs = and_then (fetch cp) (\<lambda>p. seq (store p bs) (adv (length bs)))"

definition g8 :: "(cursor, cexit, u8) sem" where "g8 = take_in 1 GBIT8"
definition g16 :: "(cursor, cexit, u16) sem" where "g16 = take_in 2 GBIT16"
definition g32 :: "(cursor, cexit, u32) sem" where "g32 = take_in 4 GBIT32"
definition g64 :: "(cursor, cexit, u64) sem" where "g64 = take_in 8 GBIT64"

definition p8 :: "u8 \<Rightarrow> (cursor, cexit, unit) sem" where "p8 v = put_out (PBIT8 v)"
definition p16 :: "u16 \<Rightarrow> (cursor, cexit, unit) sem" where "p16 v = put_out (PBIT16 v)"
definition p32 :: "u32 \<Rightarrow> (cursor, cexit, unit) sem" where "p32 v = put_out (PBIT32 v)"
definition p64 :: "u64 \<Rightarrow> (cursor, cexit, unit) sem" where "p64 v = put_out (PBIT64 v)"

lemma wp_load [wp_simps]:
  "wp (load p n) Q E = (\<lambda>c. if p + n \<le> length (cbuf c) then Q (take n (drop p (cbuf c))) c else E Fault c)"
  by (rule ext) (simp add: wp_def load_def)

lemma wp_store [wp_simps]:
  "wp (store p bs) Q E = (\<lambda>c. if p + length bs \<le> length (cbuf c)
     then Q () (c\<lparr>cbuf := overwrite (cbuf c) p bs\<rparr>) else E Fault c)"
  by (rule ext) (simp add: wp_def store_def)

lemma wp_adv [wp_simps]: "wp (adv n) Q E = (\<lambda>c. Q () (c\<lparr>cp := cp c + n\<rparr>))"
  by (simp add: adv_def wp_simps)

lemma wp_need [wp_simps]:
  "wp (need n) Q E = (\<lambda>c. if cp c + n > length (cbuf c) then E (Return 0) c else Q () c)"
  by (rule ext) (simp add: wp_def need_def)

lemma wp_take_in [wp_simps]:
  "wp (take_in n f) Q E = (\<lambda>c. if cp c + n \<le> length (cbuf c)
     then Q (f (take n (drop (cp c) (cbuf c)))) (c\<lparr>cp := cp c + n\<rparr>) else E Fault c)"
  by (simp add: take_in_def wp_simps)

section \<open>Places, and what stays readable\<close>

definition pending :: "cursor \<Rightarrow> bytes" where
  "pending c = drop (cp c) (cbuf c)"

definition in_range :: "cursor \<Rightarrow> bool" where
  "in_range c \<longleftrightarrow> cp c \<le> length (cbuf c)"

text \<open>
  \<open>keeps c c'\<close>: from \<open>c\<close> to \<open>c'\<close> the pointer moved on, and nothing changed behind the place it
  left or ahead of the place it reached.
\<close>

definition keeps :: "cursor \<Rightarrow> cursor \<Rightarrow> bool" where
  "keeps c c' \<longleftrightarrow> take (cp c) (cbuf c') = take (cp c) (cbuf c) \<and> cp c \<le> cp c'
     \<and> length (cbuf c') = length (cbuf c) \<and> drop (cp c') (cbuf c') = drop (cp c') (cbuf c)"

text \<open>
  \<open>settled view c w v\<close>: the object \<open>w\<close> the code stored (a value, or a pointer into the
  buffer) denotes \<open>v\<close>, and will as long as only what lies ahead of \<open>c\<close> is overwritten.
\<close>

definition settled :: "(bytes \<Rightarrow> 'b \<Rightarrow> 'a) \<Rightarrow> cursor \<Rightarrow> 'b \<Rightarrow> 'a \<Rightarrow> bool" where
  "settled view c w v \<longleftrightarrow> (\<forall>c'. keeps c c' \<longrightarrow> view (cbuf c') w = v)"

definition wrote :: "cursor \<Rightarrow> bytes \<Rightarrow> cursor" where
  "wrote c bs = c\<lparr>cbuf := overwrite (cbuf c) (cp c) bs, cp := cp c + length bs\<rparr>"

definition fits :: "cursor \<Rightarrow> bytes \<Rightarrow> bool" where
  "fits c bs \<longleftrightarrow> cp c + length bs \<le> length (cbuf c)"

lemma keeps_refl [simp, intro]: "keeps c c"
  by (simp add: keeps_def)

lemma keeps_trans [trans]: "keeps c d \<Longrightarrow> keeps d e \<Longrightarrow> keeps c e"
  unfolding keeps_def by (metis order.trans take_eq_le drop_eq_ge)

lemma settled_keeps: "settled view c w v \<Longrightarrow> keeps c c' \<Longrightarrow> settled view c' w v"
  by (auto simp: settled_def intro: keeps_trans)

lemma settled_at: "settled view c w v \<Longrightarrow> keeps c c' \<Longrightarrow> view (cbuf c') w = v"
  by (simp add: settled_def)

lemma settled_id [simp]: "settled (\<lambda>_ x. x) c w v \<longleftrightarrow> w = v"
  by (auto simp: settled_def)

lemma settled_ids [simp]: "settled (\<lambda>_. map (\<lambda>x. x)) c w v \<longleftrightarrow> w = v"
  by (auto simp: settled_def)

lemma need_wp: "in_range c \<Longrightarrow> n \<le> length (pending c) \<Longrightarrow> Q () c \<Longrightarrow> wp (need n) Q E c"
  by (auto simp: wp_simps in_range_def pending_def)

lemma need_wp_dec:
  "in_range c \<Longrightarrow> (n \<le> length (pending c) \<Longrightarrow> Q () c) \<Longrightarrow> E (Return 0) c \<Longrightarrow> wp (need n) Q E c"
  by (auto simp: wp_simps in_range_def pending_def)

lemma wrote_append:
  "fits c (as @ bs) \<Longrightarrow> wrote (wrote c as) bs = wrote c (as @ bs)"
  by (simp add: wrote_def fits_def overwrite_overwrite add.assoc)

lemma fits_append: "fits c (as @ bs) \<Longrightarrow> fits c as \<and> fits (wrote c as) bs"
  by (simp add: fits_def wrote_def)

lemma wrote_Nil [simp]: "wrote c [] = c"
  by (simp add: wrote_def overwrite_def)

lemma put_out_wrote: "fits c bs \<Longrightarrow> put_out bs c = (Inr (), wrote c bs)"
  by (simp add: put_out_def fits_def wrote_def and_then_def seq_def fetch_def store_def adv_def modify_def)

text \<open>\<open>writes m bs\<close>: where \<open>bs\<close> fits, \<open>m\<close> ends normally having written exactly \<open>bs\<close>.\<close>

definition writes :: "(cursor, cexit, unit) sem \<Rightarrow> bytes \<Rightarrow> bool" where
  "writes m bs \<longleftrightarrow> (\<forall>c. fits c bs \<longrightarrow> m c = (Inr (), wrote c bs))"

lemma writesD: "writes m bs \<Longrightarrow> fits c bs \<Longrightarrow> m c = (Inr (), wrote c bs)"
  by (simp add: writes_def)

lemma writes_put_out: "writes (put_out bs) bs"
  by (simp add: writes_def put_out_wrote)

lemma writes_ret: "writes (ret ()) []"
  by (simp add: writes_def ret_def)

lemma writes_seq: "writes m as \<Longrightarrow> writes n bs \<Longrightarrow> writes (seq m n) (as @ bs)"
  unfolding writes_def using fits_append by (fastforce simp: seq_def and_then_def wrote_append)

lemma writes_for_each:
  "(\<And>x. writes (f x) (e x)) \<Longrightarrow> writes (for_each f xs) (concat (map e xs))"
  by (induction xs) (auto intro: writes_ret writes_seq)

lemma seq_writes: "writes m bs \<Longrightarrow> fits c bs \<Longrightarrow> seq m k c = k (wrote c bs)"
  by (simp add: writes_def seq_def and_then_def)

lemma seq_assoc: "seq a (seq b k) = seq (seq a b) k"
  by (rule ext) (simp add: seq_def and_then_def split: prod.splits sum.splits)

lemma wp_put_out [wp_simps]:
  "wp (put_out bs) Q E = (\<lambda>c. if fits c bs then Q () (wrote c bs) else E Fault c)"
  by (rule ext) (auto simp: put_out_def wp_simps fits_def wrote_def)

section \<open>The interface of a field\<close>

text \<open>
  One kind of field: its encoding \<open>enc\<close>, the values \<open>lim\<close> whose length the format can
  express, the writer \<open>pp\<close>, the reader \<open>gg\<close>, what the reader's result denotes (\<open>view\<close>), what
  a C program sees of a value (\<open>cut\<close>), and the number \<open>req\<close> of bytes a caller has to check
  for before it calls the reader. The laws: the writer writes the encoding; the reader
  reads it back; and on any input at all the reader does not fault, and what it reads is
  the encoding of some value.
\<close>

locale wire_field =
  fixes enc :: "'a \<Rightarrow> bytes"
    and lim :: "'a \<Rightarrow> bool"
    and cut :: "'a \<Rightarrow> 'a"
    and pp :: "'a \<Rightarrow> (cursor, cexit, unit) sem"
    and gg :: "(cursor, cexit, 'b) sem"
    and view :: "bytes \<Rightarrow> 'b \<Rightarrow> 'a"
    and req :: nat
  assumes pp_enc: "writes (pp v) (enc v)"
    and gg_enc: "lim v \<Longrightarrow> in_range c \<Longrightarrow> pending c = enc v @ r \<Longrightarrow>
      wp gg (\<lambda>w c'. pending c' = r \<and> in_range c' \<and> keeps c c' \<and> settled view c' w (cut v))
        (\<lambda>_ _. False) c"
    and gg_dec: "in_range c \<Longrightarrow> req \<le> length (pending c) \<Longrightarrow>
      wp gg (\<lambda>w c'. \<exists>v. lim v \<and> pending c = enc v @ pending c' \<and> in_range c' \<and> keeps c c'
        \<and> settled view c' w (cut v)) (\<lambda>e _. e \<noteq> Fault) c"
begin

lemma gg_wp:
  assumes "pending c = enc v @ r" and "in_range c" and "lim v"
    and "\<And>w c'. pending c' = r \<Longrightarrow> in_range c' \<Longrightarrow> keeps c c' \<Longrightarrow> settled view c' w (cut v) \<Longrightarrow> Q w c'"
  shows "wp gg Q (\<lambda>_ _. False) c"
  using assms(4) by (auto intro: wp_conseq [OF gg_enc [OF assms(3,2,1)]])

lemma gg_wp_dec:
  assumes "in_range c" and "req \<le> length (pending c)"
    and "\<And>w c' v. pending c = enc v @ pending c' \<Longrightarrow> lim v \<Longrightarrow> in_range c' \<Longrightarrow> keeps c c' \<Longrightarrow>
      settled view c' w (cut v) \<Longrightarrow> Q w c'"
  shows "wp gg Q (\<lambda>e _. e \<noteq> Fault) c"
  using assms(3) by (auto intro: wp_conseq [OF gg_dec [OF assms(1,2)]])

text \<open>An array of such fields, as the loops of the codecs write and read it.\<close>

lemma for_each_pp: "writes (for_each pp vs) (concat (map enc vs))"
  by (induction vs) (auto intro: writes_ret writes_seq pp_enc)

lemma settled_Cons:
  assumes "settled view c w v" and "keeps c c'" and "settled (\<lambda>b. map (view b)) c' ws vs"
  shows "settled (\<lambda>b. map (view b)) c' (w # ws) (v # vs)"
  using settled_keeps [OF assms(1,2)] assms(3) by (auto simp: settled_def)

lemma collect_gg:
  assumes "list_all lim vs" and "in_range c" and "pending c = concat (map enc vs) @ r"
  shows "wp (collect_n (length vs) gg) (\<lambda>ws c'. pending c' = r \<and> in_range c' \<and> keeps c c'
      \<and> settled (\<lambda>b. map (view b)) c' ws (map cut vs)) (\<lambda>_ _. False) c"
  using assms
proof (induction vs arbitrary: c)
  case Nil
  then show ?case by (simp add: wp_simps settled_def)
next
  case (Cons v vs)
  have rest: "wp (collect_n (length vs) gg) (\<lambda>ws c''. pending c'' = r \<and> in_range c'' \<and> keeps c c''
        \<and> settled (\<lambda>b. map (view b)) c'' (w # ws) (map cut (v # vs))) (\<lambda>_ _. False) c'"
    if "pending c' = concat (map enc vs) @ r" "in_range c'" "keeps c c'" "settled view c' w (cut v)" for w c'
  proof -
    have "list_all lim vs" using Cons.prems(1) by simp
    from Cons.IH [OF this that(2,1)] show ?thesis
      by (rule wp_conseq) (use that in \<open>auto intro: keeps_trans settled_Cons\<close>)
  qed
  from Cons.prems have "lim v" and "pending c = enc v @ (concat (map enc vs) @ r)" by auto
  from gg_wp [OF this(2) Cons.prems(2) this(1) rest] show ?case
    by (simp add: wp_simps)
qed

lemma collect_gg_wp:
  assumes "pending c = concat (map enc vs) @ r" and "in_range c" and "list_all lim vs"
    and "n = length vs"
    and "\<And>ws c'. pending c' = r \<Longrightarrow> in_range c' \<Longrightarrow> keeps c c' \<Longrightarrow>
      settled (\<lambda>b. map (view b)) c' ws (map cut vs) \<Longrightarrow> Q ws c'"
  shows "wp (collect_n n gg) Q (\<lambda>_ _. False) c"
  using assms(4,5) by (auto intro: wp_conseq [OF collect_gg [OF assms(3,2,1)]])

lemma collect_gg_dec:
  assumes "req = 0" and "in_range c"
  shows "wp (collect_n n gg) (\<lambda>ws c'. \<exists>vs. length vs = n \<and> list_all lim vs
      \<and> pending c = concat (map enc vs) @ pending c' \<and> in_range c' \<and> keeps c c'
      \<and> settled (\<lambda>b. map (view b)) c' ws (map cut vs)) (\<lambda>e _. e \<noteq> Fault) c"
  using assms(2)
proof (induction n arbitrary: c)
  case 0
  then show ?case by (simp add: wp_simps settled_def)
next
  case (Suc n)
  have rest: "wp (collect_n n gg) (\<lambda>ws c''. \<exists>vs. length vs = Suc n \<and> list_all lim vs
      \<and> pending c = concat (map enc vs) @ pending c'' \<and> in_range c'' \<and> keeps c c''
      \<and> settled (\<lambda>b. map (view b)) c'' (w # ws) (map cut vs)) (\<lambda>e _. e \<noteq> Fault) c'"
    if "pending c = enc v @ pending c'" "lim v" "in_range c'" "keeps c c'" "settled view c' w (cut v)" for w v c'
  proof (rule wp_conseq [OF Suc.IH [OF that(3)]])
    fix ws c'' assume "\<exists>vs. length vs = n \<and> list_all lim vs \<and> pending c' = concat (map enc vs) @ pending c''
      \<and> in_range c'' \<and> keeps c' c'' \<and> settled (\<lambda>b. map (view b)) c'' ws (map cut vs)"
    then obtain vs where "length vs = n" "list_all lim vs" "pending c' = concat (map enc vs) @ pending c''"
      "in_range c''" "keeps c' c''" "settled (\<lambda>b. map (view b)) c'' ws (map cut vs)" by blast
    then show "\<exists>vs. length vs = Suc n \<and> list_all lim vs \<and> pending c = concat (map enc vs) @ pending c''
      \<and> in_range c'' \<and> keeps c c'' \<and> settled (\<lambda>b. map (view b)) c'' (w # ws) (map cut vs)"
      using that by (intro exI [of _ "v # vs"]) (auto intro: keeps_trans settled_Cons)
  qed simp
  from gg_wp_dec [OF Suc.prems _ rest] show ?case by (simp add: wp_simps assms(1))
qed

lemma collect_gg_wp_dec:
  assumes "in_range c" and "req = 0"
    and "\<And>ws c' vs. pending c = concat (map enc vs) @ pending c' \<Longrightarrow> length vs = n \<Longrightarrow> list_all lim vs \<Longrightarrow>
      in_range c' \<Longrightarrow> keeps c c' \<Longrightarrow> settled (\<lambda>b. map (view b)) c' ws (map cut vs) \<Longrightarrow> Q ws c'"
  shows "wp (collect_n n gg) Q (\<lambda>e _. e \<noteq> Fault) c"
  using assms(3) by (auto intro: wp_conseq [OF collect_gg_dec [OF assms(2,1)]])

end

text \<open>Plain integers: the value read is the value itself.\<close>

lemma take_in_field:
  assumes "\<And>v. f (enc v) = v" and "\<And>v. length (enc v) = n" and "\<And>b. length b = n \<Longrightarrow> enc (f b) = b"
  shows "wire_field enc (\<lambda>_. True) (\<lambda>x. x) (\<lambda>v. put_out (enc v)) (take_in n f) (\<lambda>_ x. x) n"
proof
  fix c v r assume c: "in_range c" and p: "pending c = enc v @ r"
  from p have "take n (drop (cp c) (cbuf c)) = enc v" and "drop n (drop (cp c) (cbuf c)) = r"
    by (simp_all add: pending_def assms)
  moreover from c p have "cp c + n \<le> length (cbuf c)"
    using drop_append_bound [of "cp c" "cbuf c" "enc v" r] by (simp add: in_range_def pending_def assms)
  ultimately show "wp (take_in n f) (\<lambda>w c'. pending c' = r \<and> in_range c' \<and> keeps c c'
      \<and> settled (\<lambda>_ x. x) c' w v) (\<lambda>_ _. False) c"
    by (simp add: wp_simps pending_def in_range_def keeps_def assms add.commute)
next
  fix c assume "in_range c" and "n \<le> length (pending c)"
  then show "wp (take_in n f) (\<lambda>w c'. \<exists>v. True \<and> pending c = enc v @ pending c' \<and> in_range c' \<and> keeps c c'
      \<and> settled (\<lambda>_ x. x) c' w v) (\<lambda>e _. e \<noteq> Fault) c"
    by (auto simp: wp_simps pending_def in_range_def keeps_def assms(3))
      (metis add.commute append_take_drop_id drop_drop)
qed (simp add: writes_put_out)

interpretation w8: wire_field PBIT8 "\<lambda>_. True" "\<lambda>x. x" p8 g8 "\<lambda>_ x. x" 1
  using take_in_field [of GBIT8 PBIT8 1] by (simp add: p8_def [abs_def] g8_def PBIT8_GBIT8)

interpretation w16: wire_field PBIT16 "\<lambda>_. True" "\<lambda>x. x" p16 g16 "\<lambda>_ x. x" 2
  using take_in_field [of GBIT16 PBIT16 2] by (simp add: p16_def [abs_def] g16_def PBIT16_GBIT16)

interpretation w32: wire_field PBIT32 "\<lambda>_. True" "\<lambda>x. x" p32 g32 "\<lambda>_ x. x" 4
  using take_in_field [of GBIT32 PBIT32 4] by (simp add: p32_def [abs_def] g32_def PBIT32_GBIT32)

interpretation w64: wire_field PBIT64 "\<lambda>_. True" "\<lambda>x. x" p64 g64 "\<lambda>_ x. x" 8
  using take_in_field [of GBIT64 PBIT64 8] by (simp add: p64_def [abs_def] g64_def PBIT64_GBIT64)

end
