(* ===== verification/Fcall.thy ===== *)
theory Fcall
  imports Wire
begin

unbundle bit_operations_syntax

text \<open>
  The 9P2000 message codecs of \<^verbatim>\<open>sys/src/lib/9p2000\<close>: the structure \<^verbatim>\<open>Fcall\<close> of
  \<^verbatim>\<open>9P2000.h\<close>, \<^verbatim>\<open>sizeS2M\<close> and \<^verbatim>\<open>convS2M\<close> (structure to message) and \<^verbatim>\<open>convM2S\<close> (message
  to structure). The decoder overwrites the message it decodes: every string is moved
  down by one byte over its own count to make room for a terminating zero, and the
  structure keeps pointers into the buffer. The model keeps both: strings and data of a
  decoded message are offsets into the buffer the decoder leaves behind, and \<open>deref\<close>
  reads them there.
\<close>

section \<open>Qids and strings\<close>

record Qid =
  qpath :: u64
  qvers :: u32
  qtype :: u8

definition pqid :: "Qid \<Rightarrow> (cursor, cexit, unit) sem" where
  "pqid q = seq (p8 (qtype q)) (seq (p32 (qvers q)) (p64 (qpath q)))"

definition gqid :: "(cursor, cexit, Qid) sem" where
  "gqid = seq (need 13) (and_then g8 (\<lambda>t. and_then g32 (\<lambda>v. and_then g64 (\<lambda>p.
     ret \<lparr>qpath = p, qvers = v, qtype = t\<rparr>))))"

text \<open>A C string is its bytes before the terminating zero; a \<^verbatim>\<open>nil\<close> pointer is \<open>None\<close>.\<close>

type_synonym cstr = "bytes option"

definition pstring :: "cstr \<Rightarrow> (cursor, cexit, unit) sem" where
  "pstring s = (case s of
     None \<Rightarrow> put_out (PBIT16 0)
   | Some b \<Rightarrow> and_then (fetch cp) (\<lambda>p.
       seq (store (p + 2) b)
      (seq (store p (PBIT16 (of_nat (length b))))
           (adv (length b + 2)))))"

definition stringsz :: "cstr \<Rightarrow> u32" where
  "stringsz s = (case s of None \<Rightarrow> 2 | Some b \<Rightarrow> 2 + of_nat (length b))"

definition gstring :: "(cursor, cexit, nat) sem" where
  "gstring = seq (need 2) (and_then (fetch cp) (\<lambda>p. and_then (load p 2) (\<lambda>b.
     let n = unat (GBIT16 b); p = p + 1 in
     seq (adv 1)
    (seq (need (n + 1))
    (and_then (load (p + 1) n) (\<lambda>s.
     seq (store p s)
    (seq (store (p + n) [0])
    (seq (adv (n + 1))
    (ret p)))))))))"

text \<open>What a C program sees at a string pointer into \<open>buf\<close>.\<close>

definition cstr_at :: "bytes \<Rightarrow> nat \<Rightarrow> bytes" where
  "cstr_at buf p = takeWhile (\<lambda>b. b \<noteq> 0) (drop p buf)"

definition str_of :: "cstr \<Rightarrow> bytes" where
  "str_of s = (case s of None \<Rightarrow> [] | Some b \<Rightarrow> b)"

definition enc_str :: "bytes \<Rightarrow> bytes" where
  "enc_str b = PBIT16 (of_nat (length b)) @ b"

definition lim_str :: "bytes \<Rightarrow> bool" where
  "lim_str b \<longleftrightarrow> length b < 2 ^ 16"

text \<open>A zero byte inside ends the string for a C program.\<close>

definition cut_str :: "bytes \<Rightarrow> bytes" where
  "cut_str b = takeWhile (\<lambda>b. b \<noteq> 0) b"

lemma cut_str_id: "0 \<notin> set b \<Longrightarrow> cut_str b = b"
  by (auto simp: cut_str_def takeWhile_eq_all_conv)

definition enc_qid :: "Qid \<Rightarrow> bytes" where
  "enc_qid q = PBIT8 (qtype q) @ PBIT32 (qvers q) @ PBIT64 (qpath q)"

lemma length_enc_str [simp]: "length (enc_str b) = 2 + length b"
  by (simp add: enc_str_def)

lemma length_enc_qid [simp]: "length (enc_qid q) = 13"
  by (simp add: enc_qid_def)

lemma overwrite_below:
  assumes "p + length as + length bs \<le> length buf"
  shows "overwrite (overwrite buf (p + length as) bs) p as = overwrite buf p (as @ bs)"
proof -
  have "drop (p + length as) (overwrite buf (p + length as) bs) = bs @ drop (p + length as + length bs) buf"
    using assms by (simp add: drop_overwrite_here)
  moreover have "take p (overwrite buf (p + length as) bs) = take p buf"
    using assms by (simp add: take_overwrite)
  ultimately show ?thesis by (simp add: overwrite_def [of _ p] add.assoc)
qed

lemma writes_pstring: "writes (pstring s) (enc_str (str_of s))"
proof (cases s)
  case None
  then show ?thesis by (simp add: pstring_def str_of_def enc_str_def writes_put_out)
next
  case (Some b)
  have "pstring s c = (Inr (), wrote c (enc_str b))" if "fits c (enc_str b)" for c
    using Some that overwrite_below [of "cp c" "PBIT16 (of_nat (length b))" b "cbuf c"]
    by (simp add: pstring_def enc_str_def fits_def wrote_def and_then_def seq_def fetch_def
        store_def adv_def modify_def)
  with Some show ?thesis by (simp add: writes_def str_of_def)
qed

lemma gstring_enc:
  assumes ok: "lim_str b" and c: "in_range c" and p: "pending c = enc_str b @ r"
  shows "wp gstring (\<lambda>w c'. pending c' = r \<and> in_range c' \<and> keeps c c' \<and> settled cstr_at c' w (cut_str b))
    (\<lambda>_ _. False) c"
proof -
  let ?p = "cp c" and ?buf = "cbuf c" and ?n = "length b"
  have d: "drop ?p ?buf = PBIT16 (of_nat ?n) @ b @ r" using p by (simp add: pending_def enc_str_def)
  have le: "?p + 2 + ?n \<le> length ?buf"
    using drop_append_bound [of ?p ?buf "enc_str b" r] c p by (simp add: pending_def in_range_def)
  have n: "unat (of_nat ?n :: u16) = ?n" using ok by (simp add: lim_str_def unat_of_nat)
  have d2: "drop (?p + 2) ?buf = b @ r" using drop_append_length [OF d] by simp
  have dr: "drop (?p + 2 + ?n) ?buf = r" using drop_append_length [OF d2] by simp
  let ?buf' = "overwrite (overwrite ?buf (?p + 1) b) (?p + 1 + ?n) [0]"
  have buf': "?buf' = overwrite ?buf (?p + 1) (b @ [0])"
    using le overwrite_overwrite [of "?p + 1" b "[0]" ?buf] by (simp add: add.assoc)
  have see: "cstr_at buf (?p + 1) = cut_str b" if "take (?p + 2 + ?n) buf = take (?p + 2 + ?n) ?buf'" for buf
  proof -
    have "take (?p + 2 + ?n) buf = take (?p + 1) ?buf @ b @ [0]"
      using le that [unfolded buf'] take_overwrite_end [of "?p + 1" "b @ [0]" ?buf] by (simp add: add.assoc)
    then have "drop (?p + 1) buf = (b @ [0]) @ drop (?p + 2 + ?n) buf"
      using le drop_of_take [of "?p + 2 + ?n" buf "take (?p + 1) ?buf" "b @ [0]"] by simp
    then show ?thesis by (simp add: cstr_at_def cut_str_def)
  qed
  show ?thesis
    using le d n see d2 dr
    by (auto simp: gstring_def wp_simps Let_def pending_def in_range_def keeps_def settled_def
        drop_overwrite take_overwrite)
qed

lemma gstring_dec:
  assumes c: "in_range c"
  shows "wp gstring (\<lambda>w c'. \<exists>b. lim_str b \<and> pending c = enc_str b @ pending c' \<and> in_range c' \<and> keeps c c'
    \<and> settled cstr_at c' w (cut_str b)) (\<lambda>e _. e \<noteq> Fault) c"
proof -
  let ?n = "unat (GBIT16 (take 2 (pending c)))" and ?r = "drop 2 (pending c)"
  show ?thesis
  proof (cases "2 + ?n \<le> length (pending c)")
    case False
    with c show ?thesis
      by (auto simp: gstring_def wp_simps Let_def in_range_def pending_def)
  next
    case True
    define b where "b = take ?n ?r"
    have "length b = ?n" using True by (simp add: b_def)
    then have "PBIT16 (of_nat (length b)) = take 2 (pending c)"
      using True by (simp add: PBIT16_GBIT16)
    then have p: "pending c = enc_str b @ drop ?n ?r"
      unfolding enc_str_def b_def by (metis append_assoc append_take_drop_id)
    have l: "lim_str b" using \<open>length b = ?n\<close> unsigned_less [of "GBIT16 (take 2 (pending c))"]
      by (simp add: lim_str_def)
    from gstring_enc [OF l c p] show ?thesis
      by (rule wp_conseq) (use p l in auto)
  qed
qed

interpretation wstr: wire_field enc_str lim_str cut_str "\<lambda>b. pstring (Some b)" gstring cstr_at 0
proof
  fix v show "writes (pstring (Some v)) (enc_str v)"
    using writes_pstring [of "Some v"] by (simp add: str_of_def)
qed (rule gstring_enc gstring_dec; assumption)+

lemma writes_pqid: "writes (pqid q) (enc_qid q)"
  unfolding pqid_def enc_qid_def by (intro writes_seq w8.pp_enc w32.pp_enc w64.pp_enc)

lemma gqid_enc:
  assumes c: "in_range c" and p: "pending c = enc_qid q @ r"
  shows "wp gqid (\<lambda>w c'. pending c' = r \<and> in_range c' \<and> keeps c c' \<and> settled (\<lambda>_ x. x) c' w q)
    (\<lambda>_ _. False) c"
proof -
  have "cp c + 13 \<le> length (cbuf c)"
    using drop_append_bound [of "cp c" "cbuf c" "enc_qid q" r] c p by (simp add: pending_def in_range_def)
  then show ?thesis
    using c p unfolding gqid_def
    by (auto simp: wp_simps enc_qid_def settled_def intro!: w8.gg_wp w32.gg_wp w64.gg_wp
        intro: keeps_trans)
qed

lemma gqid_dec:
  assumes c: "in_range c"
  shows "wp gqid (\<lambda>w c'. \<exists>q. True \<and> pending c = enc_qid q @ pending c' \<and> in_range c' \<and> keeps c c'
    \<and> settled (\<lambda>_ x. x) c' w q) (\<lambda>e _. e \<noteq> Fault) c"
  using c unfolding gqid_def
  by (auto simp: wp_flow enc_qid_def intro!: need_wp_dec w8.gg_wp_dec w32.gg_wp_dec w64.gg_wp_dec
      intro: keeps_trans)

interpretation wqid: wire_field enc_qid "\<lambda>_. True" "\<lambda>x. x" pqid gqid "\<lambda>_ x. x" 0
  by unfold_locales (rule writes_pqid gqid_enc gqid_dec; assumption)+

section \<open>Messages\<close>

text \<open>
  The structure \<^verbatim>\<open>Fcall\<close>, one constructor per message type with the members of the union
  that the type uses. \<open>'s\<close> is the type of strings and \<open>'d\<close> that of data areas: C strings
  and byte sequences where the structure is encoded, offsets into the message where it
  was decoded. \<open>Tother\<close> is any \<^verbatim>\<open>type\<close> outside the cases of the switches.
\<close>

datatype ('s, 'd) msg =
    Tversion u32 's                    \<comment> \<open>msize, version\<close>
  | Rversion u32 's
  | Tauth u32 's 's                    \<comment> \<open>afid, uname, aname\<close>
  | Rauth Qid                          \<comment> \<open>aqid\<close>
  | Tattach u32 u32 's 's              \<comment> \<open>fid, afid, uname, aname\<close>
  | Rattach Qid
  | Rerror 's                          \<comment> \<open>ename\<close>
  | Tflush u16                         \<comment> \<open>oldtag\<close>
  | Rflush
  | Twalk u32 u32 u16 "'s list"        \<comment> \<open>fid, newfid, nwname, wname[MAXWELEM]\<close>
  | Rwalk u16 "Qid list"               \<comment> \<open>nwqid, wqid[MAXWELEM]\<close>
  | Topen u32 u8                       \<comment> \<open>fid, mode\<close>
  | Ropen Qid u32                      \<comment> \<open>qid, iounit\<close>
  | Tcreate u32 's u32 u8              \<comment> \<open>fid, name, perm, mode\<close>
  | Rcreate Qid u32
  | Tread u32 u64 u32                  \<comment> \<open>fid, offset, count\<close>
  | Rread u32 'd                       \<comment> \<open>count, data\<close>
  | Twrite u32 u64 u32 'd              \<comment> \<open>fid, offset, count, data\<close>
  | Rwrite u32
  | Tclunk u32
  | Rclunk
  | Tremove u32
  | Rremove
  | Tstat u32
  | Rstat u16 'd                       \<comment> \<open>nstat, stat\<close>
  | Twstat u32 u16 'd                  \<comment> \<open>fid, nstat, stat\<close>
  | Rwstat
  | Tother u8

fun msg_type :: "('s, 'd) msg \<Rightarrow> u8" where
  "msg_type (Tversion _ _) = 100"
| "msg_type (Rversion _ _) = 101"
| "msg_type (Tauth _ _ _) = 102"
| "msg_type (Rauth _) = 103"
| "msg_type (Tattach _ _ _ _) = 104"
| "msg_type (Rattach _) = 105"
| "msg_type (Rerror _) = 107"
| "msg_type (Tflush _) = 108"
| "msg_type Rflush = 109"
| "msg_type (Twalk _ _ _ _) = 110"
| "msg_type (Rwalk _ _) = 111"
| "msg_type (Topen _ _) = 112"
| "msg_type (Ropen _ _) = 113"
| "msg_type (Tcreate _ _ _ _) = 114"
| "msg_type (Rcreate _ _) = 115"
| "msg_type (Tread _ _ _) = 116"
| "msg_type (Rread _ _) = 117"
| "msg_type (Twrite _ _ _ _) = 118"
| "msg_type (Rwrite _) = 119"
| "msg_type (Tclunk _) = 120"
| "msg_type Rclunk = 121"
| "msg_type (Tremove _) = 122"
| "msg_type Rremove = 123"
| "msg_type (Tstat _) = 124"
| "msg_type (Rstat _ _) = 125"
| "msg_type (Twstat _ _ _) = 126"
| "msg_type Rwstat = 127"
| "msg_type (Tother t) = t"

record ('s, 'd) Fcall =
  tag :: u16
  msg :: "('s, 'd) msg"

abbreviation MAXWELEM :: nat where "MAXWELEM \<equiv> 16"

section \<open>From structure to message\<close>

text \<open>
  \<^verbatim>\<open>memmove(p, from, n); p += n;\<close> where \<open>from\<close> points to the bytes \<open>d\<close>: reading past them is
  a fault.
\<close>

definition pdata :: "nat \<Rightarrow> bytes \<Rightarrow> (cursor, cexit, unit) sem" where
  "pdata n d = (if n \<le> length d then put_out (take n d) else raise Fault)"

text \<open>\<^verbatim>\<open>for(i=0; i<n; i++) f(a[i]);\<close> over an array: reading past its end is a fault.\<close>

definition over_array :: "('a \<Rightarrow> (cursor, cexit, unit) sem) \<Rightarrow> nat \<Rightarrow> 'a list \<Rightarrow> (cursor, cexit, unit) sem" where
  "over_array f n a = seq (for_each f (take n a)) (if n \<le> length a then ret () else raise Fault)"

text \<open>
  \<^verbatim>\<open>sizeS2M\<close> computes in \<^verbatim>\<open>uint32_t\<close>. It reads \<^verbatim>\<open>nwname\<close> entries of \<^verbatim>\<open>wname\<close> before anything
  has compared \<^verbatim>\<open>nwname\<close> with the size of that array; \<open>None\<close> is a read past its end.
\<close>

fun sizeS2M_T :: "(cstr, bytes) msg \<Rightarrow> u32 option" where
  "sizeS2M_T (Tversion _ v) = Some (4 + 1 + 2 + 4 + stringsz v)"
| "sizeS2M_T (Tflush _) = Some (4 + 1 + 2 + 2)"
| "sizeS2M_T (Tauth _ u a) = Some (4 + 1 + 2 + 4 + stringsz u + stringsz a)"
| "sizeS2M_T (Tattach _ _ u a) = Some (4 + 1 + 2 + 4 + 4 + stringsz u + stringsz a)"
| "sizeS2M_T (Twalk _ _ n w) =
     (if unat n \<le> length w then Some (4 + 1 + 2 + 4 + 4 + 2 + sum_list (map stringsz (take (unat n) w)))
      else None)"
| "sizeS2M_T (Topen _ _) = Some (4 + 1 + 2 + 4 + 1)"
| "sizeS2M_T (Tcreate _ s _ _) = Some (4 + 1 + 2 + 4 + stringsz s + 4 + 1)"
| "sizeS2M_T (Tread _ _ _) = Some (4 + 1 + 2 + 4 + 8 + 4)"
| "sizeS2M_T (Twrite _ _ count _) = Some (4 + 1 + 2 + 4 + 8 + 4 + count)"
| "sizeS2M_T (Tclunk _) = Some (4 + 1 + 2 + 4)"
| "sizeS2M_T (Tremove _) = Some (4 + 1 + 2 + 4)"
| "sizeS2M_T (Tstat _) = Some (4 + 1 + 2 + 4)"
| "sizeS2M_T (Twstat _ nstat _) = Some (4 + 1 + 2 + 4 + 2 + ucast nstat)"
| "sizeS2M_T _ = Some 0"

fun sizeS2M_R :: "(cstr, bytes) msg \<Rightarrow> u32 option" where
  "sizeS2M_R (Rversion _ v) = Some (4 + 1 + 2 + 4 + stringsz v)"
| "sizeS2M_R (Rerror e) = Some (4 + 1 + 2 + stringsz e)"
| "sizeS2M_R Rflush = Some (4 + 1 + 2)"
| "sizeS2M_R (Rauth _) = Some (4 + 1 + 2 + 13)"
| "sizeS2M_R (Rattach _) = Some (4 + 1 + 2 + 13)"
| "sizeS2M_R (Rwalk n _) = Some (4 + 1 + 2 + 2 + ucast n * 13)"
| "sizeS2M_R (Ropen _ _) = Some (4 + 1 + 2 + 13 + 4)"
| "sizeS2M_R (Rcreate _ _) = Some (4 + 1 + 2 + 13 + 4)"
| "sizeS2M_R (Rread count _) = Some (4 + 1 + 2 + 4 + count)"
| "sizeS2M_R (Rwrite _) = Some (4 + 1 + 2 + 4)"
| "sizeS2M_R Rclunk = Some (4 + 1 + 2)"
| "sizeS2M_R Rremove = Some (4 + 1 + 2)"
| "sizeS2M_R (Rstat nstat _) = Some (4 + 1 + 2 + 2 + ucast nstat)"
| "sizeS2M_R Rwstat = Some (4 + 1 + 2)"
| "sizeS2M_R m = sizeS2M_T m"

definition sizeS2M :: "(cstr, bytes) Fcall \<Rightarrow> u32 option" where
  "sizeS2M f = sizeS2M_R (msg f)"

text \<open>The body of \<^verbatim>\<open>convS2M\<close>'s switch, requests and then replies.\<close>

fun convS2M_T :: "(cstr, bytes) msg \<Rightarrow> (cursor, cexit, unit) sem" where
  "convS2M_T (Tversion msize v) = seq (p32 msize) (pstring v)"
| "convS2M_T (Tflush oldtag) = p16 oldtag"
| "convS2M_T (Tauth afid u a) = seq (p32 afid) (seq (pstring u) (pstring a))"
| "convS2M_T (Tattach fid afid u a) = seq (p32 fid) (seq (p32 afid) (seq (pstring u) (pstring a)))"
| "convS2M_T (Twalk fid newfid nwname w) =
     seq (p32 fid) (seq (p32 newfid) (seq (p16 nwname)
       (if unat nwname > MAXWELEM then raise (Return 0) else over_array pstring (unat nwname) w)))"
| "convS2M_T (Topen fid mode) = seq (p32 fid) (p8 mode)"
| "convS2M_T (Tcreate fid s perm mode) = seq (p32 fid) (seq (pstring s) (seq (p32 perm) (p8 mode)))"
| "convS2M_T (Tread fid off count) = seq (p32 fid) (seq (p64 off) (p32 count))"
| "convS2M_T (Twrite fid off count d) = seq (p32 fid) (seq (p64 off) (seq (p32 count) (pdata (unat count) d)))"
| "convS2M_T (Tclunk fid) = p32 fid"
| "convS2M_T (Tremove fid) = p32 fid"
| "convS2M_T (Tstat fid) = p32 fid"
| "convS2M_T (Twstat fid nstat d) = seq (p32 fid) (seq (p16 nstat) (pdata (unat nstat) d))"
| "convS2M_T _ = raise (Return 0)"

fun convS2M_R :: "(cstr, bytes) msg \<Rightarrow> (cursor, cexit, unit) sem" where
  "convS2M_R (Rversion msize v) = seq (p32 msize) (pstring v)"
| "convS2M_R (Rerror e) = pstring e"
| "convS2M_R Rflush = ret ()"
| "convS2M_R (Rauth q) = pqid q"
| "convS2M_R (Rattach q) = pqid q"
| "convS2M_R (Rwalk nwqid w) =
     seq (p16 nwqid) (if unat nwqid > MAXWELEM then raise (Return 0) else over_array pqid (unat nwqid) w)"
| "convS2M_R (Ropen q iounit) = seq (pqid q) (p32 iounit)"
| "convS2M_R (Rcreate q iounit) = seq (pqid q) (p32 iounit)"
| "convS2M_R (Rread count d) = seq (p32 count) (pdata (unat count) d)"
| "convS2M_R (Rwrite count) = p32 count"
| "convS2M_R Rclunk = ret ()"
| "convS2M_R Rremove = ret ()"
| "convS2M_R (Rstat nstat d) = seq (p16 nstat) (pdata (unat nstat) d)"
| "convS2M_R Rwstat = ret ()"
| "convS2M_R m = convS2M_T m"

text \<open>
  \<^verbatim>\<open>convS2M(f, ap, nap)\<close> started at the beginning of the \<^verbatim>\<open>nap\<close> bytes at \<^verbatim>\<open>ap\<close>. It ends
  normally with the size of the message, with \<open>Return 0\<close>, or with a fault.
\<close>

definition convS2M :: "(cstr, bytes) Fcall \<Rightarrow> (cursor, cexit, u32) sem" where
  "convS2M f = (case sizeS2M f of
     None \<Rightarrow> raise Fault
   | Some sz \<Rightarrow>
       if sz = 0 then raise (Return 0) else
       and_then (fetch (\<lambda>c. length (cbuf c))) (\<lambda>nap.
       if unat sz > nap then raise (Return 0) else
       seq (p32 sz) (seq (p8 (msg_type (msg f))) (seq (p16 (tag f)) (seq (convS2M_R (msg f))
      (and_then (fetch cp) (\<lambda>p.
       if unat sz \<noteq> p then raise (Return 0) else ret sz)))))))"

section \<open>From message to structure\<close>

type_synonym pmsg = "(nat, nat) msg"

text \<open>\<^verbatim>\<open>if(p+n > ep) return 0; f->data = p; p += n;\<close>\<close>

definition gdata :: "nat \<Rightarrow> (cursor, cexit, nat) sem" where
  "gdata n = seq (need n) (and_then (fetch cp) (\<lambda>p. seq (adv n) (ret p)))"

definition convM2S_T :: "u8 \<Rightarrow> (cursor, cexit, pmsg) sem" where
  "convM2S_T t =
    (if t = 100 then
       seq (need 4) (and_then g32 (\<lambda>msize. and_then gstring (\<lambda>v. ret (Tversion msize v))))
     else if t = 108 then
       seq (need 2) (and_then g16 (\<lambda>oldtag. ret (Tflush oldtag)))
     else if t = 102 then
       seq (need 4) (and_then g32 (\<lambda>afid. and_then gstring (\<lambda>u. and_then gstring (\<lambda>a.
         ret (Tauth afid u a)))))
     else if t = 104 then
       seq (need 4) (and_then g32 (\<lambda>fid. seq (need 4) (and_then g32 (\<lambda>afid.
         and_then gstring (\<lambda>u. and_then gstring (\<lambda>a. ret (Tattach fid afid u a)))))))
     else if t = 110 then
       seq (need (4 + 4 + 2)) (and_then g32 (\<lambda>fid. and_then g32 (\<lambda>newfid. and_then g16 (\<lambda>nwname.
         if unat nwname > MAXWELEM then raise (Return 0)
         else and_then (collect_n (unat nwname) gstring) (\<lambda>w. ret (Twalk fid newfid nwname w))))))
     else if t = 112 then
       seq (need (4 + 1)) (and_then g32 (\<lambda>fid. and_then g8 (\<lambda>mode. ret (Topen fid mode))))
     else if t = 114 then
       seq (need 4) (and_then g32 (\<lambda>fid. and_then gstring (\<lambda>s.
         seq (need (4 + 1)) (and_then g32 (\<lambda>perm. and_then g8 (\<lambda>mode. ret (Tcreate fid s perm mode)))))))
     else if t = 116 then
       seq (need (4 + 8 + 4)) (and_then g32 (\<lambda>fid. and_then g64 (\<lambda>off. and_then g32 (\<lambda>count.
         ret (Tread fid off count)))))
     else if t = 118 then
       seq (need (4 + 8 + 4)) (and_then g32 (\<lambda>fid. and_then g64 (\<lambda>off. and_then g32 (\<lambda>count.
         and_then (gdata (unat count)) (\<lambda>d. ret (Twrite fid off count d))))))
     else if t = 120 then seq (need 4) (and_then g32 (\<lambda>fid. ret (Tclunk fid)))
     else if t = 122 then seq (need 4) (and_then g32 (\<lambda>fid. ret (Tremove fid)))
     else if t = 124 then seq (need 4) (and_then g32 (\<lambda>fid. ret (Tstat fid)))
     else if t = 126 then
       seq (need (4 + 2)) (and_then g32 (\<lambda>fid. and_then g16 (\<lambda>nstat.
         and_then (gdata (unat nstat)) (\<lambda>d. ret (Twstat fid nstat d)))))
     else raise (Return 0))"

definition convM2S_R :: "u8 \<Rightarrow> (cursor, cexit, pmsg) sem" where
  "convM2S_R t =
    (if t = 101 then
       seq (need 4) (and_then g32 (\<lambda>msize. and_then gstring (\<lambda>v. ret (Rversion msize v))))
     else if t = 107 then and_then gstring (\<lambda>e. ret (Rerror e))
     else if t = 109 then ret Rflush
     else if t = 103 then and_then gqid (\<lambda>q. ret (Rauth q))
     else if t = 105 then and_then gqid (\<lambda>q. ret (Rattach q))
     else if t = 111 then
       seq (need 2) (and_then g16 (\<lambda>nwqid.
         if unat nwqid > MAXWELEM then raise (Return 0)
         else and_then (collect_n (unat nwqid) gqid) (\<lambda>w. ret (Rwalk nwqid w))))
     else if t = 113 then
       and_then gqid (\<lambda>q. seq (need 4) (and_then g32 (\<lambda>iounit. ret (Ropen q iounit))))
     else if t = 115 then
       and_then gqid (\<lambda>q. seq (need 4) (and_then g32 (\<lambda>iounit. ret (Rcreate q iounit))))
     else if t = 117 then
       seq (need 4) (and_then g32 (\<lambda>count. and_then (gdata (unat count)) (\<lambda>d. ret (Rread count d))))
     else if t = 119 then seq (need 4) (and_then g32 (\<lambda>count. ret (Rwrite count)))
     else if t = 121 then ret Rclunk
     else if t = 123 then ret Rremove
     else if t = 125 then
       seq (need 2) (and_then g16 (\<lambda>nstat. and_then (gdata (unat nstat)) (\<lambda>d. ret (Rstat nstat d))))
     else if t = 127 then ret Rwstat
     else convM2S_T t)"

definition convM2S :: "(cursor, cexit, u32 \<times> (nat, nat) Fcall) sem" where
  "convM2S =
     seq (need (4 + 1 + 2))
    (and_then g32 (\<lambda>size.
     if size < 4 + 1 + 2 then raise (Return 0) else
     and_then g8 (\<lambda>type.
     and_then g16 (\<lambda>t.
     and_then (convM2S_R type) (\<lambda>m.
     and_then (fetch (\<lambda>c. (cp c, length (cbuf c)))) (\<lambda>(p, ep).
     if p > ep then raise (Return 0)
     else if unat size = p then ret (size, \<lparr>tag = t, msg = m\<rparr>)
     else raise (Return 0)))))))"

text \<open>The structure as the caller sees it: pointers read in the buffer left behind.\<close>

definition deref :: "bytes \<Rightarrow> pmsg \<Rightarrow> (bytes, bytes) msg" where
  "deref buf m = (case m of
     Rread n d \<Rightarrow> Rread n (take (unat n) (drop d buf))
   | Twrite fid off n d \<Rightarrow> Twrite fid off n (take (unat n) (drop d buf))
   | Rstat n d \<Rightarrow> Rstat n (take (unat n) (drop d buf))
   | Twstat fid n d \<Rightarrow> Twstat fid n (take (unat n) (drop d buf))
   | m \<Rightarrow> map_msg (cstr_at buf) (\<lambda>_. []) m)"

end
