(* ===== verification/Fcall_Props.thy ===== *)
theory Fcall_Props
  imports Fcall
begin

text \<open>
  What the 9P2000 codecs do: \<open>wire\<close> is the message format itself, as a byte sequence;
  \<^verbatim>\<open>convS2M\<close> writes exactly that sequence or rejects, \<^verbatim>\<open>convM2S\<close> reads it back, stays inside
  its buffer on any input, and accepts nothing but whole messages of the length they claim.
\<close>

section \<open>The message format\<close>

fun body :: "(cstr, bytes) msg \<Rightarrow> bytes" where
  "body (Tversion msize v) = PBIT32 msize @ enc_str (str_of v)"
| "body (Rversion msize v) = PBIT32 msize @ enc_str (str_of v)"
| "body (Tauth afid u a) = PBIT32 afid @ enc_str (str_of u) @ enc_str (str_of a)"
| "body (Rauth q) = enc_qid q"
| "body (Tattach fid afid u a) = PBIT32 fid @ PBIT32 afid @ enc_str (str_of u) @ enc_str (str_of a)"
| "body (Rattach q) = enc_qid q"
| "body (Rerror e) = enc_str (str_of e)"
| "body (Tflush oldtag) = PBIT16 oldtag"
| "body Rflush = []"
| "body (Twalk fid newfid n w) =
     PBIT32 fid @ PBIT32 newfid @ PBIT16 n @ concat (map (enc_str \<circ> str_of) (take (unat n) w))"
| "body (Rwalk n w) = PBIT16 n @ concat (map enc_qid (take (unat n) w))"
| "body (Topen fid mode) = PBIT32 fid @ PBIT8 mode"
| "body (Ropen q iounit) = enc_qid q @ PBIT32 iounit"
| "body (Tcreate fid s perm mode) = PBIT32 fid @ enc_str (str_of s) @ PBIT32 perm @ PBIT8 mode"
| "body (Rcreate q iounit) = enc_qid q @ PBIT32 iounit"
| "body (Tread fid off n) = PBIT32 fid @ PBIT64 off @ PBIT32 n"
| "body (Rread n d) = PBIT32 n @ take (unat n) d"
| "body (Twrite fid off n d) = PBIT32 fid @ PBIT64 off @ PBIT32 n @ take (unat n) d"
| "body (Rwrite n) = PBIT32 n"
| "body (Tclunk fid) = PBIT32 fid"
| "body Rclunk = []"
| "body (Tremove fid) = PBIT32 fid"
| "body Rremove = []"
| "body (Tstat fid) = PBIT32 fid"
| "body (Rstat n d) = PBIT16 n @ take (unat n) d"
| "body (Twstat fid n d) = PBIT32 fid @ PBIT16 n @ take (unat n) d"
| "body Rwstat = []"
| "body (Tother t) = []"

definition wire :: "(cstr, bytes) Fcall \<Rightarrow> bytes" where
  "wire f = PBIT32 (of_nat (7 + length (body (msg f)))) @ PBIT8 (msg_type (msg f)) @ PBIT16 (tag f)
     @ body (msg f)"

text \<open>
  A structure the encoder may be given: a known type, and counts that agree with the
  arrays and data areas they count.
\<close>

fun well_counted :: "(cstr, bytes) msg \<Rightarrow> bool" where
  "well_counted (Twalk _ _ n w) = (unat n \<le> MAXWELEM \<and> unat n \<le> length w)"
| "well_counted (Rwalk n w) = (unat n \<le> MAXWELEM \<and> unat n \<le> length w)"
| "well_counted (Rread n d) = (unat n \<le> length d)"
| "well_counted (Twrite _ _ n d) = (unat n \<le> length d)"
| "well_counted (Rstat n d) = (unat n \<le> length d)"
| "well_counted (Twstat _ n d) = (unat n \<le> length d)"
| "well_counted (Tother _) = False"
| "well_counted _ = True"

text \<open>Strings the format can carry: their length fits the 16-bit count.\<close>

fun short_strings :: "(cstr, bytes) msg \<Rightarrow> bool" where
  "short_strings (Tversion _ v) = lim_str (str_of v)"
| "short_strings (Rversion _ v) = lim_str (str_of v)"
| "short_strings (Tauth _ u a) = (lim_str (str_of u) \<and> lim_str (str_of a))"
| "short_strings (Tattach _ _ u a) = (lim_str (str_of u) \<and> lim_str (str_of a))"
| "short_strings (Rerror e) = lim_str (str_of e)"
| "short_strings (Twalk _ _ n w) = list_all (lim_str \<circ> str_of) (take (unat n) w)"
| "short_strings (Tcreate _ s _ _) = lim_str (str_of s)"
| "short_strings _ = True"

text \<open>
  What of a structure travels: a \<^verbatim>\<open>nil\<close> string as the empty one, of arrays and data the
  counted part, of a string the part before a zero byte.
\<close>

definition seen_str :: "cstr \<Rightarrow> bytes" where
  "seen_str s = cut_str (str_of s)"

fun seen :: "(cstr, bytes) msg \<Rightarrow> (bytes, bytes) msg" where
  "seen (Twalk fid newfid n w) = Twalk fid newfid n (map seen_str (take (unat n) w))"
| "seen (Rwalk n w) = Rwalk n (take (unat n) w)"
| "seen (Rread n d) = Rread n (take (unat n) d)"
| "seen (Twrite fid off n d) = Twrite fid off n (take (unat n) d)"
| "seen (Rstat n d) = Rstat n (take (unat n) d)"
| "seen (Twstat fid n d) = Twstat fid n (take (unat n) d)"
| "seen m = map_msg seen_str id m"

section \<open>The encoder writes the format\<close>

lemma stringsz_length: "stringsz s = of_nat (length (enc_str (str_of s)))"
  by (simp add: stringsz_def str_of_def split: option.splits)

lemma sum_stringsz: "sum_list (map stringsz w) = of_nat (length (concat (map (enc_str \<circ> str_of) w)))"
  by (induction w) (simp_all add: stringsz_length)

lemma length_concat_qids: "length (concat (map enc_qid w)) = 13 * length w"
  by (induction w) simp_all

lemma sizeS2M_body:
  "well_counted m \<Longrightarrow> sizeS2M_R m = Some (of_nat (7 + length (body m)))"
proof (cases m)
  case (Rwalk n w)
  assume "well_counted m"
  with Rwalk have "min (length w) (unat n) = unat n" by simp
  with Rwalk show ?thesis by (simp add: length_concat_qids)
qed (simp_all add: stringsz_length sum_stringsz min_def)

lemma writes_pdata: "n \<le> length d \<Longrightarrow> writes (pdata n d) (take n d)"
  by (simp add: pdata_def writes_put_out)

lemma writes_over_array:
  assumes "\<And>x. writes (f x) (e x)" and "n \<le> length a"
  shows "writes (over_array f n a) (concat (map e (take n a)))"
proof -
  from writes_seq [OF writes_for_each [OF assms(1)] writes_ret] show ?thesis
    by (simp add: over_array_def assms(2))
qed

lemmas writes_rules = writes_seq writes_ret writes_pdata writes_pstring writes_pqid
  w8.pp_enc w16.pp_enc w32.pp_enc w64.pp_enc

lemma writes_convS2M_R: "well_counted m \<Longrightarrow> writes (convS2M_R m) (body m)"
  by (cases m)
    (auto simp: comp_def intro!: writes_rules writes_over_array)

lemma length_wire: "length (wire f) = 7 + length (body (msg f))"
  by (simp add: wire_def)

lemma convS2M_writes:
  assumes w: "well_counted (msg f)" and small: "length (wire f) < 2 ^ 32"
    and room: "length (wire f) \<le> length ap"
  shows "convS2M f (at_start ap) = (Inr (of_nat (length (wire f))), wrote (at_start ap) (wire f))"
proof -
  let ?sz = "of_nat (length (wire f)) :: u32" and ?c = "at_start ap"
  have sz: "sizeS2M f = Some ?sz" using w by (simp add: sizeS2M_def sizeS2M_body length_wire)
  have un: "unat ?sz = length (wire f)" using small by (simp add: unat_of_nat)
  then have nz: "?sz \<noteq> 0" by (metis length_wire unat_0 add_is_0 zero_neq_numeral)
  let ?hdr = "seq (p32 ?sz) (seq (p8 (msg_type (msg f))) (seq (p16 (tag f)) (convS2M_R (msg f))))"
  have wr: "writes ?hdr (wire f)"
    unfolding length_wire unfolding wire_def
    by (intro writes_seq writes_convS2M_R w8.pp_enc w16.pp_enc w32.pp_enc w)
  have fit: "fits ?c (wire f)" using room by (simp add: fits_def at_start_def)
  have "convS2M f ?c = seq ?hdr (and_then (fetch cp) (\<lambda>p.
       if unat ?sz \<noteq> p then raise (Return 0) else ret ?sz)) ?c"
    using room by (simp add: convS2M_def sz nz un and_then_def fetch_def at_start_def seq_assoc)
  also have "\<dots> = (Inr ?sz, wrote ?c (wire f))"
    unfolding seq_writes [OF wr fit] using un
    by (simp add: and_then_def fetch_def ret_def wrote_def at_start_def)
  finally show ?thesis .
qed

section \<open>The decoder reads the format\<close>

lemma gdata_place:
  assumes "in_range c" and "pending c = d @ r" and "length d = n"
  shows "wp (gdata n) (\<lambda>w c'. pending c' = r \<and> in_range c' \<and> keeps c c'
    \<and> settled (\<lambda>b p. take n (drop p b)) c' w d) (\<lambda>_ _. False) c"
proof -
  let ?c = "c\<lparr>cp := cp c + n\<rparr>"
  have le: "cp c + n \<le> length (cbuf c)"
    using assms(1-3) drop_append_bound [of "cp c" "cbuf c" d r] by (simp add: pending_def in_range_def)
  have "take n (drop (cp c) buf) = d" if "take (cp c + n) buf = take (cp c + n) (cbuf c)" for buf
  proof -
    have "take n (drop (cp c) buf) = drop (cp c) (take (cp c + n) buf)" by (simp add: drop_take)
    also have "\<dots> = take n (drop (cp c) (cbuf c))" unfolding that by (simp add: drop_take)
    finally show ?thesis using assms(2,3) by (simp add: pending_def)
  qed
  moreover have "pending ?c = r"
    using assms(2,3) drop_append_length [of "cp c" "cbuf c" d r] by (simp add: pending_def)
  ultimately show ?thesis
    using le by (simp add: gdata_def wp_simps in_range_def settled_def) (simp add: keeps_def)
qed

lemma gdata_wp:
  assumes "pending c = d @ r" and "in_range c" and "length d = n"
    and "\<And>w c'. pending c' = r \<Longrightarrow> in_range c' \<Longrightarrow> keeps c c' \<Longrightarrow>
      settled (\<lambda>b p. take n (drop p b)) c' w d \<Longrightarrow> Q w c'"
  shows "wp (gdata n) Q (\<lambda>_ _. False) c"
  using assms(4) by (auto intro: wp_conseq [OF gdata_place [OF assms(2,1,3)]])

lemma gdata_wp_dec:
  assumes c: "in_range c"
    and Q: "\<And>w c' d. pending c = take n d @ pending c' \<Longrightarrow> n \<le> length d \<Longrightarrow> in_range c' \<Longrightarrow> keeps c c' \<Longrightarrow>
      settled (\<lambda>b p. take n (drop p b)) c' w (take n d) \<Longrightarrow> Q w c'"
  shows "wp (gdata n) Q (\<lambda>e _. e \<noteq> Fault) c"
proof (cases "n \<le> length (pending c)")
  case True
  have "pending c = take n (pending c) @ drop n (pending c)" by simp
  moreover have "length (take n (pending c)) = n" using True by simp
  ultimately show ?thesis
    by (rule wp_conseq [OF gdata_place [OF c]]) (use True in \<open>auto intro!: Q [where d = "pending c"]\<close>)
next
  case False
  with c show ?thesis by (auto simp: gdata_def wp_simps in_range_def pending_def)
qed

lemmas reads_rules = need_wp w8.gg_wp w16.gg_wp w32.gg_wp w64.gg_wp wstr.gg_wp wqid.gg_wp gdata_wp

lemma read_Twalk:
  assumes "unat n \<le> MAXWELEM" and "length vs = unat n" and "list_all lim_str vs" and "in_range c"
    and "pending c = PBIT32 fid @ PBIT32 newfid @ PBIT16 n @ concat (map enc_str vs) @ r"
  shows "wp (convM2S_T 110) (\<lambda>pm c'. pending c' = r \<and> in_range c' \<and> keeps c c'
      \<and> deref (cbuf c') pm = Twalk fid newfid n (map cut_str vs)) (\<lambda>_ _. False) c"
  using assms
  apply (simp add: convM2S_T_def wp_flow)
  apply (rule need_wp, assumption, simp)
  apply (rule w32.gg_wp, assumption, assumption, simp)
  apply (rule w32.gg_wp, assumption, assumption, simp)
  apply (rule w16.gg_wp, assumption, assumption, simp)
  apply (simp add: wp_flow)
  apply (rule wstr.collect_gg_wp, assumption, assumption, assumption, simp)
  apply (auto simp: deref_def intro: keeps_trans elim: settled_at)
  done

lemma read_Rwalk:
  assumes "unat n \<le> MAXWELEM" and "length vs = unat n" and "in_range c"
    and "pending c = PBIT16 n @ concat (map enc_qid vs) @ r"
  shows "wp (convM2S_R 111) (\<lambda>pm c'. pending c' = r \<and> in_range c' \<and> keeps c c'
      \<and> deref (cbuf c') pm = Rwalk n vs) (\<lambda>_ _. False) c"
  using assms
  apply (simp add: convM2S_R_def wp_flow)
  apply (rule need_wp, assumption, simp)
  apply (rule w16.gg_wp, assumption, assumption, simp)
  apply (simp add: wp_flow)
  apply (rule wqid.collect_gg_wp, assumption, assumption, simp add: list_all_iff, simp)
  apply (auto simp: deref_def intro: keeps_trans)
  done

lemma convM2S_R_body:
  assumes "well_counted m" and "short_strings m" and "in_range c" and "pending c = body m @ r"
  shows "wp (convM2S_R (msg_type m)) (\<lambda>pm c'. pending c' = r \<and> in_range c' \<and> keeps c c'
      \<and> deref (cbuf c') pm = seen m) (\<lambda>_ _. False) c"
proof (cases m)
  case (Twalk fid newfid n w)
  have "convM2S_R 110 = convM2S_T 110" by (simp add: convM2S_R_def)
  moreover have "length (map str_of (take (unat n) w)) = unat n"
    and "list_all lim_str (map str_of (take (unat n) w))"
    using assms(1,2) Twalk by (auto simp: list_all_iff)
  ultimately show ?thesis
    using assms Twalk read_Twalk [of n "map str_of (take (unat n) w)" c fid newfid r]
    by (simp add: comp_def seen_str_def [abs_def])
next
  case (Rwalk n w)
  with assms read_Rwalk [of n "take (unat n) w" c r] show ?thesis by simp
qed (use assms in \<open>auto simp: convM2S_R_def convM2S_T_def wp_flow deref_def seen_str_def
      intro!: reads_rules intro: keeps_trans elim: settled_at\<close>)

lemma convM2S_wire:
  assumes w: "well_counted (msg f)" and s: "short_strings (msg f)" and small: "length (wire f) < 2 ^ 32"
  shows "wp convM2S (\<lambda>(sz, pf) c'. unat sz = length (wire f) \<and> tag pf = tag f
      \<and> deref (cbuf c') (msg pf) = seen (msg f)) (\<lambda>_ _. False) (at_start (wire f @ r))"
proof -
  let ?c = "at_start (wire f @ r)"
  let ?sz = "of_nat (length (wire f)) :: u32"
  have un: "unat ?sz = length (wire f)" using small by (simp add: unat_of_nat)
  have ge: "\<not> ?sz < 7" using un by (simp add: word_less_nat_alt length_wire)
  have c: "in_range ?c" and p: "pending ?c = PBIT32 ?sz @ PBIT8 (msg_type (msg f)) @ PBIT16 (tag f)
      @ body (msg f) @ r"
    by (simp_all add: at_start_def in_range_def pending_def length_wire) (simp add: wire_def)
  have body: "wp (convM2S_R (msg_type (msg f))) (\<lambda>pm c'. (\<not> length (cbuf c') < cp c' \<and> unat ?sz = cp c'
      \<and> deref (cbuf c') pm = seen (msg f))) (\<lambda>_ _. False) c3"
    if "pending c3 = body (msg f) @ r" "in_range c3" "keeps ?c c3" for c3
    using convM2S_R_body [OF w s that(2,1)]
  proof (rule wp_conseq)
    fix pm c' assume *: "pending c' = r \<and> in_range c' \<and> keeps c3 c' \<and> deref (cbuf c') pm = seen (msg f)"
    then have k: "keeps ?c c'" using that(3) by (blast intro: keeps_trans)
    from * have "length r = length (cbuf c') - cp c'" by (auto simp: pending_def)
    moreover have "length (cbuf c') = length (wire f) + length r" using k by (simp add: keeps_def at_start_def)
    ultimately show "\<not> length (cbuf c') < cp c' \<and> unat ?sz = cp c' \<and> deref (cbuf c') pm = seen (msg f)"
      using * un by (auto simp: in_range_def)
  qed simp
  show ?thesis
    unfolding convM2S_def
    apply (simp add: wp_flow)
    apply (rule need_wp [OF c], simp add: p)
    apply (rule w32.gg_wp [OF p c], simp)
    apply (simp add: wp_flow ge)
    apply (rule w8.gg_wp, assumption, assumption, simp)
    apply (rule w16.gg_wp, assumption, assumption, simp)
    apply (simp add: wp_flow case_prod_unfold)
    apply (rule wp_conseq [OF body], assumption, assumption)
    using un apply (auto intro: keeps_trans)
    done
qed

section \<open>What the decoder accepts\<close>

text \<open>
  \<open>decodes t c pm c'\<close>: between \<open>c\<close> and \<open>c'\<close> lies the body of a message of type \<open>t\<close>, and \<open>pm\<close>
  denotes it.
\<close>

definition decodes :: "u8 \<Rightarrow> cursor \<Rightarrow> pmsg \<Rightarrow> cursor \<Rightarrow> bool" where
  "decodes t c pm c' \<longleftrightarrow> in_range c' \<and> keeps c c' \<and> (\<exists>m. pending c = body m @ pending c'
     \<and> deref (cbuf c') pm = seen m \<and> msg_type m = t \<and> well_counted m \<and> short_strings m)"

lemmas dec_rules = need_wp_dec w8.gg_wp_dec w16.gg_wp_dec w32.gg_wp_dec w64.gg_wp_dec
  wstr.gg_wp_dec wqid.gg_wp_dec gdata_wp_dec

lemma settled_str: "settled cstr_at c w v \<Longrightarrow> keeps c c' \<Longrightarrow> cstr_at (cbuf c') w = v"
  by (rule settled_at)

lemma settled_here: "settled view c w v \<Longrightarrow> view (cbuf c) w = v"
  by (rule settled_at) auto

abbreviation "no_fault \<equiv> (\<lambda>e _. e \<noteq> Fault)"

lemma dec_Tversion: "in_range c \<Longrightarrow> wp (convM2S_T 100) (decodes 100 c) no_fault c"
  by (auto simp: convM2S_T_def wp_flow decodes_def deref_def seen_str_def str_of_def
      intro!: dec_rules exI [where x = "Tversion a (Some b)" for a b] intro: keeps_trans settled_str dest: settled_here)

lemma dec_Tflush: "in_range c \<Longrightarrow> wp (convM2S_T 108) (decodes 108 c) no_fault c"
  by (auto simp: convM2S_T_def wp_flow decodes_def deref_def seen_str_def str_of_def
      intro!: dec_rules exI [where x = "Tflush a" for a] intro: keeps_trans settled_str dest: settled_here)

lemma dec_Tauth: "in_range c \<Longrightarrow> wp (convM2S_T 102) (decodes 102 c) no_fault c"
  by (auto simp: convM2S_T_def wp_flow decodes_def deref_def seen_str_def str_of_def
      intro!: dec_rules exI [where x = "Tauth a (Some b) (Some d)" for a b d] intro: keeps_trans settled_str dest: settled_here)

lemma dec_Tattach: "in_range c \<Longrightarrow> wp (convM2S_T 104) (decodes 104 c) no_fault c"
  by (auto simp: convM2S_T_def wp_flow decodes_def deref_def seen_str_def str_of_def
      intro!: dec_rules exI [where x = "Tattach a b (Some d) (Some e)" for a b d e] intro: keeps_trans settled_str dest: settled_here)

lemma dec_Topen: "in_range c \<Longrightarrow> wp (convM2S_T 112) (decodes 112 c) no_fault c"
  by (auto simp: convM2S_T_def wp_flow decodes_def deref_def seen_str_def str_of_def
      intro!: dec_rules exI [where x = "Topen a b" for a b] intro: keeps_trans settled_str dest: settled_here)

lemma dec_Tcreate: "in_range c \<Longrightarrow> wp (convM2S_T 114) (decodes 114 c) no_fault c"
  by (auto simp: convM2S_T_def wp_flow decodes_def deref_def seen_str_def str_of_def
      intro!: dec_rules exI [where x = "Tcreate a (Some b) d e" for a b d e] intro: keeps_trans settled_str dest: settled_here)
    (meson keeps_trans settled_str)

lemma dec_Tread: "in_range c \<Longrightarrow> wp (convM2S_T 116) (decodes 116 c) no_fault c"
  by (auto simp: convM2S_T_def wp_flow decodes_def deref_def seen_str_def str_of_def
      intro!: dec_rules exI [where x = "Tread a b d" for a b d] intro: keeps_trans settled_str dest: settled_here)

lemma dec_Twrite: "in_range c \<Longrightarrow> wp (convM2S_T 118) (decodes 118 c) no_fault c"
  by (auto simp: convM2S_T_def wp_flow decodes_def deref_def seen_str_def str_of_def
      intro!: dec_rules exI [where x = "Twrite a b d e" for a b d e] intro: keeps_trans settled_str dest: settled_here)

lemma dec_Tclunk: "in_range c \<Longrightarrow> wp (convM2S_T 120) (decodes 120 c) no_fault c"
  by (auto simp: convM2S_T_def wp_flow decodes_def deref_def seen_str_def str_of_def
      intro!: dec_rules exI [where x = "Tclunk a" for a] intro: keeps_trans settled_str dest: settled_here)

lemma dec_Tremove: "in_range c \<Longrightarrow> wp (convM2S_T 122) (decodes 122 c) no_fault c"
  by (auto simp: convM2S_T_def wp_flow decodes_def deref_def seen_str_def str_of_def
      intro!: dec_rules exI [where x = "Tremove a" for a] intro: keeps_trans settled_str dest: settled_here)

lemma dec_Tstat: "in_range c \<Longrightarrow> wp (convM2S_T 124) (decodes 124 c) no_fault c"
  by (auto simp: convM2S_T_def wp_flow decodes_def deref_def seen_str_def str_of_def
      intro!: dec_rules exI [where x = "Tstat a" for a] intro: keeps_trans settled_str dest: settled_here)

lemma dec_Twstat: "in_range c \<Longrightarrow> wp (convM2S_T 126) (decodes 126 c) no_fault c"
  by (auto simp: convM2S_T_def wp_flow decodes_def deref_def seen_str_def str_of_def
      intro!: dec_rules exI [where x = "Twstat a b d" for a b d] intro: keeps_trans settled_str dest: settled_here)

lemma dec_Rversion: "in_range c \<Longrightarrow> wp (convM2S_R 101) (decodes 101 c) no_fault c"
  by (auto simp: convM2S_R_def wp_flow decodes_def deref_def seen_str_def str_of_def
      intro!: dec_rules exI [where x = "Rversion a (Some b)" for a b] intro: keeps_trans settled_str dest: settled_here)

lemma dec_Rerror: "in_range c \<Longrightarrow> wp (convM2S_R 107) (decodes 107 c) no_fault c"
  by (auto simp: convM2S_R_def wp_flow decodes_def deref_def seen_str_def str_of_def
      intro!: dec_rules exI [where x = "Rerror (Some b)" for b] intro: keeps_trans settled_str dest: settled_here)

lemma dec_Rflush: "in_range c \<Longrightarrow> wp (convM2S_R 109) (decodes 109 c) no_fault c"
  by (auto simp: convM2S_R_def wp_flow decodes_def deref_def seen_str_def str_of_def
      intro!: dec_rules exI [where x = "Rflush"] intro: keeps_trans settled_str dest: settled_here)

lemma dec_Rauth: "in_range c \<Longrightarrow> wp (convM2S_R 103) (decodes 103 c) no_fault c"
  by (auto simp: convM2S_R_def wp_flow decodes_def deref_def seen_str_def str_of_def
      intro!: dec_rules exI [where x = "Rauth a" for a] intro: keeps_trans settled_str dest: settled_here)

lemma dec_Rattach: "in_range c \<Longrightarrow> wp (convM2S_R 105) (decodes 105 c) no_fault c"
  by (auto simp: convM2S_R_def wp_flow decodes_def deref_def seen_str_def str_of_def
      intro!: dec_rules exI [where x = "Rattach a" for a] intro: keeps_trans settled_str dest: settled_here)

lemma dec_Ropen: "in_range c \<Longrightarrow> wp (convM2S_R 113) (decodes 113 c) no_fault c"
  by (auto simp: convM2S_R_def wp_flow decodes_def deref_def seen_str_def str_of_def
      intro!: dec_rules exI [where x = "Ropen a b" for a b] intro: keeps_trans settled_str dest: settled_here)

lemma dec_Rcreate: "in_range c \<Longrightarrow> wp (convM2S_R 115) (decodes 115 c) no_fault c"
  by (auto simp: convM2S_R_def wp_flow decodes_def deref_def seen_str_def str_of_def
      intro!: dec_rules exI [where x = "Rcreate a b" for a b] intro: keeps_trans settled_str dest: settled_here)

lemma dec_Rread: "in_range c \<Longrightarrow> wp (convM2S_R 117) (decodes 117 c) no_fault c"
  by (auto simp: convM2S_R_def wp_flow decodes_def deref_def seen_str_def str_of_def
      intro!: dec_rules exI [where x = "Rread a b" for a b] intro: keeps_trans settled_str dest: settled_here)

lemma dec_Rwrite: "in_range c \<Longrightarrow> wp (convM2S_R 119) (decodes 119 c) no_fault c"
  by (auto simp: convM2S_R_def wp_flow decodes_def deref_def seen_str_def str_of_def
      intro!: dec_rules exI [where x = "Rwrite a" for a] intro: keeps_trans settled_str dest: settled_here)

lemma dec_Rclunk: "in_range c \<Longrightarrow> wp (convM2S_R 121) (decodes 121 c) no_fault c"
  by (auto simp: convM2S_R_def wp_flow decodes_def deref_def seen_str_def str_of_def
      intro!: dec_rules exI [where x = "Rclunk"] intro: keeps_trans settled_str dest: settled_here)

lemma dec_Rremove: "in_range c \<Longrightarrow> wp (convM2S_R 123) (decodes 123 c) no_fault c"
  by (auto simp: convM2S_R_def wp_flow decodes_def deref_def seen_str_def str_of_def
      intro!: dec_rules exI [where x = "Rremove"] intro: keeps_trans settled_str dest: settled_here)

lemma dec_Rstat: "in_range c \<Longrightarrow> wp (convM2S_R 125) (decodes 125 c) no_fault c"
  by (auto simp: convM2S_R_def wp_flow decodes_def deref_def seen_str_def str_of_def
      intro!: dec_rules exI [where x = "Rstat a b" for a b] intro: keeps_trans settled_str dest: settled_here)

lemma dec_Rwstat: "in_range c \<Longrightarrow> wp (convM2S_R 127) (decodes 127 c) no_fault c"
  by (auto simp: convM2S_R_def wp_flow decodes_def deref_def seen_str_def str_of_def
      intro!: dec_rules exI [where x = "Rwstat"] intro: keeps_trans settled_str dest: settled_here)


lemma dec_Twalk: "in_range c \<Longrightarrow> wp (convM2S_T 110) (decodes 110 c) no_fault c"
proof -
  have last: "decodes 110 c (Twalk fid newfid n ws) c'"
    if "pending c = PBIT32 fid @ PBIT32 newfid @ PBIT16 n @ concat (map enc_str vs) @ pending c'"
      and "length vs = unat n" "unat n \<le> MAXWELEM" "list_all lim_str vs"
      and "in_range c'" "keeps c c'" "settled (\<lambda>b. map (cstr_at b)) c' ws (map cut_str vs)"
    for fid newfid n ws vs c'
    using that settled_here [OF that(7)] unfolding decodes_def
    by (intro conjI exI [of _ "Twalk fid newfid n (map Some vs)"])
      (auto simp: deref_def seen_str_def str_of_def comp_def list_all_iff)
  assume "in_range c"
  then show ?thesis
    apply (simp add: convM2S_T_def wp_flow)
    apply (rule need_wp_dec, assumption)
     apply (rule w32.gg_wp_dec, assumption, simp)
     apply (rule w32.gg_wp_dec, assumption, simp)
     apply (rule w16.gg_wp_dec, assumption, simp)
     apply (simp add: wp_flow)
     apply (intro impI)
     apply (rule wstr.collect_gg_wp_dec, assumption, simp)
     apply (rule last, simp)
    by (auto intro: keeps_trans)
qed

lemma dec_Rwalk: "in_range c \<Longrightarrow> wp (convM2S_R 111) (decodes 111 c) no_fault c"
proof -
  have last: "decodes 111 c (Rwalk n vs) c'"
    if "pending c = PBIT16 n @ concat (map enc_qid vs) @ pending c'"
      and "length vs = unat n" "unat n \<le> MAXWELEM" and "in_range c'" "keeps c c'"
    for n vs c'
    using that unfolding decodes_def
    by (intro conjI exI [of _ "Rwalk n vs"]) (auto simp: deref_def)
  assume "in_range c"
  then show ?thesis
    by (auto simp: convM2S_R_def wp_flow intro!: dec_rules wqid.collect_gg_wp_dec last intro: keeps_trans)
qed

lemmas dec_T = dec_Tversion dec_Tflush dec_Tauth dec_Tattach dec_Twalk dec_Topen dec_Tcreate dec_Tread
  dec_Twrite dec_Tclunk dec_Tremove dec_Tstat dec_Twstat

lemmas dec_R = dec_Rversion dec_Rerror dec_Rflush dec_Rauth dec_Rattach dec_Rwalk dec_Ropen dec_Rcreate
  dec_Rread dec_Rwrite dec_Rclunk dec_Rremove dec_Rstat dec_Rwstat

lemma convM2S_T_dec:
  assumes "in_range c"
  shows "wp (convM2S_T t) (decodes t c) no_fault c"
proof (cases "t \<in> {100, 108, 102, 104, 110, 112, 114, 116, 118, 120, 122, 124, 126}")
  case True
  with dec_T [OF assms] show ?thesis by auto
next
  case False
  then show ?thesis by (simp add: convM2S_T_def wp_flow)
qed

lemma convM2S_R_dec:
  assumes "in_range c"
  shows "wp (convM2S_R t) (decodes t c) no_fault c"
proof (cases "t \<in> {101, 107, 109, 103, 105, 111, 113, 115, 117, 119, 121, 123, 125, 127}")
  case True
  with dec_R [OF assms] show ?thesis by auto
next
  case False
  then show ?thesis using convM2S_T_dec [OF assms] by (simp add: convM2S_R_def)
qed

text \<open>
  An accepted buffer \<open>b\<close>: it begins with the wire form of a structure \<open>f\<close>, of the length the
  message claims, and the caller sees \<open>f\<close>.
\<close>

definition accepted :: "bytes \<Rightarrow> u32 \<Rightarrow> (nat, nat) Fcall \<Rightarrow> bytes \<Rightarrow> bool" where
  "accepted b sz pf buf' \<longleftrightarrow> (\<exists>f. well_counted (msg f) \<and> short_strings (msg f) \<and> tag f = tag pf
     \<and> take (unat sz) b = wire f \<and> unat sz \<le> length b \<and> deref buf' (msg pf) = seen (msg f)
     \<and> length buf' = length b \<and> drop (unat sz) buf' = drop (unat sz) b)"

lemma decodes_accepted:
  assumes p: "pending (at_start b) = PBIT32 sz @ PBIT8 ty @ PBIT16 tg @ pending c3"
    and d: "decodes ty c3 pm c'" and k: "keeps (at_start b) c3" and sz: "unat sz = cp c'"
  shows "accepted b sz \<lparr>tag = tg, msg = pm\<rparr> (cbuf c')"
proof -
  from d obtain m where m: "msg_type m = ty" "well_counted m" "short_strings m"
    "pending c3 = body m @ pending c'" "deref (cbuf c') pm = seen m" "keeps c3 c'" and r: "in_range c'"
    by (auto simp: decodes_def)
  let ?f = "\<lparr>tag = tg, msg = m\<rparr>"
  from k m(6) have k': "keeps (at_start b) c'" by (rule keeps_trans)
  then have dr: "drop (unat sz) b = drop (unat sz) (cbuf c')" and lb: "length (cbuf c') = length b"
    and le: "unat sz \<le> length b"
    using r by (auto simp: keeps_def pending_def sz at_start_def in_range_def)
  have b: "b = PBIT32 sz @ PBIT8 ty @ PBIT16 tg @ body m @ drop (unat sz) b"
    using p m(4) dr sz by (simp add: at_start_def pending_def)
  have "length b = 7 + length (body m) + (length b - unat sz)"
    using arg_cong [OF b, of length] by simp
  with le have len: "7 + length (body m) = unat sz" by simp
  then have w: "wire ?f = PBIT32 sz @ PBIT8 ty @ PBIT16 tg @ body m"
    using m(1) by (simp add: wire_def del: of_nat_add)
  then have "take (unat sz) b = wire ?f"
    using b len by (metis (no_types, lifting) append_assoc append_eq_conv_conj length_wire select_convs(2))
  then show ?thesis
    using m w le lb dr unfolding accepted_def by (intro exI [of _ ?f]) simp
qed

lemma convM2S_dec:
  "wp convM2S (\<lambda>(sz, pf) c'. unat sz = cp c' \<and> accepted b sz pf (cbuf c')) no_fault (at_start b)"
proof -
  let ?c = "at_start b"
  have c: "in_range ?c" by (simp add: in_range_def at_start_def)
  have body: "wp (convM2S_R ty) (\<lambda>pm c'. \<not> length (cbuf c') < cp c' \<longrightarrow> unat sz = cp c' \<longrightarrow>
      accepted b sz \<lparr>tag = tg, msg = pm\<rparr> (cbuf c')) no_fault c3"
    if "pending ?c = PBIT32 sz @ PBIT8 ty @ PBIT16 tg @ pending c3" "keeps ?c c3" "in_range c3" for sz ty tg c3
    by (rule wp_conseq [OF convM2S_R_dec [OF that(3)]])
      (use that in \<open>auto intro: decodes_accepted\<close>)
  show ?thesis
    unfolding convM2S_def
    apply (simp add: wp_flow)
    apply (rule need_wp_dec [OF c])
     apply (rule w32.gg_wp_dec [OF c], simp)
     apply (simp add: wp_flow)
     apply (intro impI)
     apply (rule w8.gg_wp_dec, assumption, simp)
     apply (rule w16.gg_wp_dec, assumption, simp)
     apply (simp add: wp_flow)
     apply (rule wp_conseq [OF body])
         apply (auto intro: keeps_trans)
    done
qed


section \<open>Properties\<close>

text \<open>
  C1. Encoding and decoding a message: for every structure with a known type, honest
  counts and strings of less than 64K, and every buffer large enough, \<^verbatim>\<open>convS2M\<close> returns the
  length of the message; \<^verbatim>\<open>convM2S\<close> on that buffer (whatever follows the message in it)
  returns the same length and the same tag, and a structure whose strings and data, read
  in the buffer the decoder has modified, are those that were encoded.
\<close>

theorem fcall_roundtrip:
  assumes "well_counted (msg f)" and "short_strings (msg f)"
    and "length (wire f) < 2 ^ 32" and "length (wire f) \<le> length ap"
  shows "\<exists>c pf c'. convS2M f (at_start ap) = (Inr (of_nat (length (wire f))), c)
    \<and> convM2S (at_start (cbuf c)) = (Inr (of_nat (length (wire f)), pf), c')
    \<and> tag pf = tag f \<and> deref (cbuf c') (msg pf) = seen (msg f)"
proof -
  let ?c = "wrote (at_start ap) (wire f)"
  have "cbuf ?c = wire f @ drop (length (wire f)) ap"
    by (simp add: wrote_def at_start_def overwrite_def)
  with convM2S_wire [OF assms(1-3), of "drop (length (wire f)) ap"] obtain sz pf c' where
    r: "convM2S (at_start (cbuf ?c)) = (Inr (sz, pf), c')" "unat sz = length (wire f)" "tag pf = tag f"
      "deref (cbuf c') (msg pf) = seen (msg f)"
    unfolding wp_total_iff by auto
  moreover have "sz = of_nat (length (wire f))" unfolding r(2) [symmetric] by simp
  ultimately show ?thesis using convS2M_writes [OF assms(1,3,4)] by blast
qed

lemma fcall_roundtrip_witness:
  "\<exists>c pf c'. convS2M \<lparr>tag = 7, msg = Twalk 1 2 2 [Some [117, 115, 114], None, Some [120]]\<rparr>
      (at_start (replicate 64 0)) = (Inr 24, c)
    \<and> convM2S (at_start (cbuf c)) = (Inr (24, pf), c')
    \<and> tag pf = 7 \<and> deref (cbuf c') (msg pf) = Twalk 1 2 2 [[117, 115, 114], []]"
  using fcall_roundtrip [of "\<lparr>tag = 7, msg = Twalk 1 2 2 [Some [117, 115, 114], None, Some [120]]\<rparr>"
      "replicate 64 0"]
  by (simp add: wire_def lim_str_def str_of_def seen_str_def cut_str_def)

text \<open>
  C2. Memory safety of the decoder: on any buffer of any length and any contents, whatever
  counts and sizes a hostile peer put into it, \<^verbatim>\<open>convM2S\<close> neither reads nor writes outside
  the \<^verbatim>\<open>nap\<close> bytes it was given.
\<close>

theorem convM2S_never_faults: "fst (convM2S (at_start b)) \<noteq> Inl Fault"
  using convM2S_dec [of b] by (auto simp: wp_def split: prod.splits sum.splits)

text \<open>
  C3. The decoder accepts nothing but messages: if \<^verbatim>\<open>convM2S\<close> returns a size, then that many
  bytes of the buffer as the caller passed it were exactly the wire form of some structure
  with honest counts, the size is the one the message carries in its first four bytes, the
  returned structure denotes it, and the bytes after the message are as they were.
\<close>

theorem convM2S_accepts_only_messages:
  assumes "convM2S (at_start b) = (Inr (sz, pf), c')"
  shows "(\<exists>f. well_counted (msg f) \<and> short_strings (msg f) \<and> tag f = tag pf
      \<and> take (unat sz) b = wire f \<and> deref (cbuf c') (msg pf) = seen (msg f))
    \<and> unat sz \<le> length b \<and> length (cbuf c') = length b
    \<and> drop (unat sz) (cbuf c') = drop (unat sz) b"
  using wpD_Inr [OF convM2S_dec assms] by (auto simp: accepted_def)

lemma convM2S_accepts_only_messages_witness:
  "(\<exists>f. well_counted (msg f) \<and> short_strings (msg f) \<and> tag f = 3
      \<and> take 9 [9, 0, 0, 0, 108, 3, 0, 5, 0, 77] = wire f \<and> Tflush 5 = seen (msg f))"
proof -
  have "convM2S (at_start [9, 0, 0, 0, 108, 3, 0, 5, 0, 77])
    = (Inr (9, \<lparr>tag = 3, msg = Tflush 5\<rparr>), \<lparr>cbuf = [9, 0, 0, 0, 108, 3, 0, 5, 0, 77], cp = 9\<rparr>)"
    by code_simp
  from convM2S_accepts_only_messages [OF this] show ?thesis by (simp add: deref_def)
qed

text \<open>
  C4. What the encoder writes: \<^verbatim>\<open>convS2M\<close> overwrites the front of the caller's buffer with
  exactly the wire form of the structure and leaves the rest of the buffer alone.
\<close>

theorem convS2M_writes_wire:
  assumes "well_counted (msg f)" and "length (wire f) < 2 ^ 32" and "length (wire f) \<le> length ap"
  shows "convS2M f (at_start ap) = (Inr (of_nat (length (wire f))),
    \<lparr>cbuf = wire f @ drop (length (wire f)) ap, cp = length (wire f)\<rparr>)"
  using convS2M_writes [OF assms] by (simp add: wrote_def at_start_def overwrite_def)

lemma convS2M_writes_wire_witness:
  "convS2M \<lparr>tag = 3, msg = Tflush 5\<rparr> (at_start [1, 1, 1, 1, 1, 1, 1, 1, 1, 77])
    = (Inr 9, \<lparr>cbuf = [9, 0, 0, 0, 108, 3, 0, 5, 0, 77], cp = 9\<rparr>)"
  using convS2M_writes_wire [of "\<lparr>tag = 3, msg = Tflush 5\<rparr>" "[1, 1, 1, 1, 1, 1, 1, 1, 1, 77]"]
  by (simp add: wire_def PBIT32_def PBIT8_def PBIT16_def)

text \<open>
  A buffer that is too small: \<^verbatim>\<open>convS2M\<close> returns 0 and has not touched the buffer.
\<close>

theorem convS2M_too_small:
  assumes "well_counted (msg f)" and "length (wire f) < 2 ^ 32" and "length ap < length (wire f)"
  shows "convS2M f (at_start ap) = (Inl (Return 0), at_start ap)"
proof -
  have "sizeS2M f = Some (of_nat (length (wire f)))"
    using assms(1) by (simp add: sizeS2M_def sizeS2M_body length_wire)
  moreover have "unat (of_nat (length (wire f)) :: u32) = length (wire f)"
    using assms(2) by (simp add: unat_of_nat)
  ultimately show ?thesis
    using assms(3) by (simp add: convS2M_def and_then_def fetch_def raise_def at_start_def)
qed

lemma convS2M_too_small_witness:
  "convS2M \<lparr>tag = 3, msg = Tflush 5\<rparr> (at_start [1, 1]) = (Inl (Return 0), at_start [1, 1])"
  using convS2M_too_small [of "\<lparr>tag = 3, msg = Tflush 5\<rparr>" "[1, 1]"] by (simp add: wire_def)

text \<open>
  C5. The size computation can wrap: \<^verbatim>\<open>sizeS2M\<close> adds \<^verbatim>\<open>count\<close> in 32 bits, so for a write of
  nearly 4 gigabytes it returns a few bytes, \<^verbatim>\<open>convS2M\<close>'s comparison with \<^verbatim>\<open>nap\<close> passes, and
  the copy of the data runs past the end of the buffer.
\<close>

theorem convS2M_size_wraps:
  assumes "2 ^ 32 < 23 + unat n" and "unat n \<le> length d"
    and "length ap < 2 ^ 32" and "23 \<le> length ap"
  shows "fst (convS2M \<lparr>tag = t, msg = Twrite fid off n d\<rparr> (at_start ap)) = Inl Fault"
proof -
  have n: "unat n < 2 ^ 32" using unsigned_less [of n] by simp
  have "unat (23 + n) = (23 + unat n) mod 2 ^ 32" by (simp add: unat_word_ariths)
  also have "\<dots> = 23 + unat n - 2 ^ 32" using assms(1) n by (simp add: mod_if)
  finally have u: "unat (23 + n) = 23 + unat n - 2 ^ 32" .
  have sz: "unat (23 + n) < 23" "23 + n \<noteq> 0"
    using u assms(1) n by (linarith, metis unat_0 zero_less_diff less_numeral_extra(3))
  have size: "sizeS2M \<lparr>tag = t, msg = Twrite fid off n d\<rparr> = Some (23 + n)" by (simp add: sizeS2M_def)
  have "wp (convS2M \<lparr>tag = t, msg = Twrite fid off n d\<rparr>) (\<lambda>_ _. False) (\<lambda>e _. e = Fault) (at_start ap)"
    unfolding convS2M_def size using assms sz
    by (simp add: p8_def p16_def p32_def p64_def pdata_def wp_simps)
      (simp add: fits_def wrote_def at_start_def)
  then show ?thesis by (auto simp: wp_def split: prod.splits sum.splits)
qed

lemma convS2M_size_wraps_witness:
  "fst (convS2M \<lparr>tag = 1, msg = Twrite 1 0 (- 1) (replicate (2 ^ 32) 0)\<rparr> (at_start (replicate 64 0)))
    = Inl Fault"
  by (rule convS2M_size_wraps) (simp_all add: unsigned_minus_1_eq_mask mask_eq_exp_minus_1)

text \<open>
  The walk count is checked too late: \<^verbatim>\<open>sizeS2M\<close> reads \<^verbatim>\<open>nwname\<close> pointers out of the array of
  \<^verbatim>\<open>MAXWELEM\<close> pointers before \<^verbatim>\<open>convS2M\<close> compares \<^verbatim>\<open>nwname\<close> with \<^verbatim>\<open>MAXWELEM\<close>, so the comparison
  never rejects a structure with a larger count: the read past the array comes first.
\<close>

theorem convS2M_walk_overread:
  assumes "length w = MAXWELEM" and "MAXWELEM < unat n"
  shows "convS2M \<lparr>tag = t, msg = Twalk fid newfid n w\<rparr> c = (Inl Fault, c)"
  using assms by (simp add: convS2M_def sizeS2M_def raise_def)

lemma convS2M_walk_overread_witness:
  "convS2M \<lparr>tag = 1, msg = Twalk 1 2 17 (replicate 16 None)\<rparr> (at_start []) = (Inl Fault, at_start [])"
  by (rule convS2M_walk_overread) simp_all

end
