(* ===== verification/Dir.thy ===== *)
theory Dir
  imports Fcall
begin

text \<open>
  Directory entries: the structure \<^verbatim>\<open>Dir\<close> of \<^verbatim>\<open>libc.h\<close>, its machine-independent form, and the
  routines of \<^verbatim>\<open>sys/src/lib/c/9sys/convD2M.c\<close> and \<^verbatim>\<open>convM2D.c\<close> that convert between them and
  check a received one. Unlike \<^verbatim>\<open>convM2S\<close>, \<^verbatim>\<open>convM2D\<close> copies the strings into a second memory
  area \<^verbatim>\<open>strs\<close> of the caller; the model runs on the pair of both memories.
\<close>

section \<open>Two memories\<close>

definition on_fst :: "('s, 'e, 'a) sem \<Rightarrow> ('s \<times> 't, 'e, 'a) sem" where
  "on_fst m = (\<lambda>(s, t). case m s of (r, s') \<Rightarrow> (r, (s', t)))"

definition on_snd :: "('t, 'e, 'a) sem \<Rightarrow> ('s \<times> 't, 'e, 'a) sem" where
  "on_snd m = (\<lambda>(s, t). case m t of (r, t') \<Rightarrow> (r, (s, t')))"

lemma wp_on_fst: "wp (on_fst m) Q E (s, t) = wp m (\<lambda>x s'. Q x (s', t)) (\<lambda>e s'. E e (s', t)) s"
  by (auto simp: wp_def on_fst_def split: prod.splits sum.splits)

lemma wp_on_snd: "wp (on_snd m) Q E (s, t) = wp m (\<lambda>x t'. Q x (s, t')) (\<lambda>e t'. E e (s, t')) t"
  by (auto simp: wp_def on_snd_def split: prod.splits sum.splits)

section \<open>The structure\<close>

record 's Dir =
  dtype :: u16
  ddev :: u32
  dqid :: Qid
  dmode :: u32
  datime :: u32
  dmtime :: u32
  dlength :: u64
  dname :: 's
  duid :: 's
  dgid :: 's
  dmuid :: 's

abbreviation STATFIXLEN :: nat where "STATFIXLEN \<equiv> 49"

text \<open>\<^verbatim>\<open>sv[0..3]\<close>, and \<^verbatim>\<open>strlen\<close> where the pointer is not \<^verbatim>\<open>nil\<close>.\<close>

definition dir_strings :: "'s Dir \<Rightarrow> 's list" where
  "dir_strings d = [dname d, duid d, dgid d, dmuid d]"

definition strlen0 :: "cstr \<Rightarrow> nat" where
  "strlen0 s = (case s of None \<Rightarrow> 0 | Some b \<Rightarrow> length b)"

definition sizeD2M :: "cstr Dir \<Rightarrow> nat" where
  "sizeD2M d = STATFIXLEN + sum_list (map strlen0 (dir_strings d))"

section \<open>From structure to message\<close>

text \<open>One round of the loop over the strings.\<close>

definition convD2M_str :: "cstr \<Rightarrow> (cursor, cexit, unit) sem" where
  "convD2M_str s = (let ns = strlen0 s in
     seq (need (ns + 2))
    (seq (p16 (of_nat ns))
         (if ns \<noteq> 0 then put_out (str_of s) else ret ())))"

definition convD2M_fixed :: "cstr Dir \<Rightarrow> (cursor, cexit, unit) sem" where
  "convD2M_fixed d =
     seq (p16 (dtype d)) (seq (p32 (ddev d))
    (seq (p8 (qtype (dqid d))) (seq (p32 (qvers (dqid d))) (seq (p64 (qpath (dqid d)))
    (seq (p32 (dmode d)) (seq (p32 (datime d)) (seq (p32 (dmtime d)) (p64 (dlength d)))))))))"

definition convD2M :: "cstr Dir \<Rightarrow> (cursor, cexit, nat) sem" where
  "convD2M d =
     and_then (fetch (\<lambda>c. length (cbuf c))) (\<lambda>nbuf.
     if nbuf < 2 then raise (Return 0) else
     let ss = sizeD2M d in
     seq (p16 (of_nat (ss - 2)))
    (if ss > nbuf then raise (Return 2) else
     seq (convD2M_fixed d)
    (seq (for_each convD2M_str (dir_strings d))
    (and_then (fetch cp) (\<lambda>p.
     if ss \<noteq> p then raise (Return 0) else ret p)))))"

section \<open>From message to structure\<close>

text \<open>\<^verbatim>\<open>statcheck\<close> returns 0 (normal end here) or -1. Its pointer may step past the buffer.\<close>

definition statcheck_str :: "(cursor, cexit, unit) sem" where
  "statcheck_str = and_then (fetch (\<lambda>c. (cp c, length (cbuf c)))) (\<lambda>(p, ebuf).
     if p + 2 > ebuf then raise (Return (-1)) else
     and_then (load p 2) (\<lambda>b. adv (2 + unat (GBIT16 b))))"

definition statcheck :: "(cursor, cexit, unit) sem" where
  "statcheck =
     and_then (fetch (\<lambda>c. length (cbuf c))) (\<lambda>nbuf.
     if nbuf < STATFIXLEN then raise (Return (-1)) else
     and_then (load 0 2) (\<lambda>b.
     if nbuf \<noteq> 2 + unat (GBIT16 b) then raise (Return (-1)) else
     seq (adv (STATFIXLEN - 4 * 2))
    (seq (for_each (\<lambda>_. statcheck_str) [0::nat, 1, 2, 3])
    (and_then (fetch cp) (\<lambda>p.
     if p \<noteq> nbuf then raise (Return (-1)) else ret ())))))"

text \<open>
  One round of \<^verbatim>\<open>convM2D\<close>'s loop; the second memory is \<^verbatim>\<open>strs\<close>, absent when the flag is
  false. The result is the pointer \<^verbatim>\<open>sv[i]\<close> into \<^verbatim>\<open>strs\<close>, or \<open>None\<close> for \<^verbatim>\<open>nullstring\<close>.
\<close>

definition convM2D_str :: "bool \<Rightarrow> (cursor \<times> cursor, cexit, nat option) sem" where
  "convM2D_str strs =
     seq (on_fst (need 2))
    (and_then (on_fst g16) (\<lambda>ns.
     seq (on_fst (need (unat ns)))
    (and_then (on_fst (take_in (unat ns) id)) (\<lambda>b.
     if strs then
       and_then (on_snd (fetch cp)) (\<lambda>sv.
       seq (on_snd (put_out b))
      (seq (on_snd (put_out [0]))
           (ret (Some sv))))
     else ret None))))"

definition convM2D_fixed :: "(cursor, cexit, u16 \<times> u32 \<times> Qid \<times> u32 \<times> u32 \<times> u32 \<times> u64) sem" where
  "convM2D_fixed = seq (adv 2)
     (and_then g16 (\<lambda>ty. and_then g32 (\<lambda>dev.
      and_then g8 (\<lambda>qt. and_then g32 (\<lambda>qv. and_then g64 (\<lambda>qp.
      and_then g32 (\<lambda>mode. and_then g32 (\<lambda>atime. and_then g32 (\<lambda>mtime. and_then g64 (\<lambda>len.
      ret (ty, dev, \<lparr>qpath = qp, qvers = qv, qtype = qt\<rparr>, mode, atime, mtime, len)))))))))))"

definition convM2D :: "bool \<Rightarrow> (cursor \<times> cursor, cexit, nat \<times> nat option Dir) sem" where
  "convM2D strs =
     and_then (on_fst (fetch (\<lambda>c. length (cbuf c)))) (\<lambda>nbuf.
     if nbuf < STATFIXLEN then raise (Return 0) else
     and_then (on_fst convM2D_fixed) (\<lambda>(ty, dev, q, mode, atime, mtime, len).
     and_then (convM2D_str strs) (\<lambda>s0. and_then (convM2D_str strs) (\<lambda>s1.
     and_then (convM2D_str strs) (\<lambda>s2. and_then (convM2D_str strs) (\<lambda>s3.
     and_then (on_fst (fetch cp)) (\<lambda>p.
     ret (p, \<lparr>dtype = ty, ddev = dev, dqid = q, dmode = mode, datime = atime, dmtime = mtime,
       dlength = len, dname = s0, duid = s1, dgid = s2, dmuid = s3\<rparr>))))))))"

section \<open>The format\<close>

definition enc_fixed :: "'s Dir \<Rightarrow> bytes" where
  "enc_fixed d = PBIT16 (dtype d) @ PBIT32 (ddev d) @ PBIT8 (qtype (dqid d)) @ PBIT32 (qvers (dqid d))
     @ PBIT64 (qpath (dqid d)) @ PBIT32 (dmode d) @ PBIT32 (datime d) @ PBIT32 (dmtime d)
     @ PBIT64 (dlength d)"

definition dirwire :: "cstr Dir \<Rightarrow> bytes" where
  "dirwire d = PBIT16 (of_nat (sizeD2M d - 2)) @ enc_fixed d @ concat (map (enc_str \<circ> str_of) (dir_strings d))"

text \<open>What a caller sees of a decoded entry in its string memory.\<close>

definition dir_at :: "bytes \<Rightarrow> nat option Dir \<Rightarrow> bytes Dir" where
  "dir_at mem d = \<lparr>dtype = dtype d, ddev = ddev d, dqid = dqid d, dmode = dmode d, datime = datime d,
     dmtime = dmtime d, dlength = dlength d,
     dname = (case dname d of None \<Rightarrow> [] | Some p \<Rightarrow> cstr_at mem p),
     duid = (case duid d of None \<Rightarrow> [] | Some p \<Rightarrow> cstr_at mem p),
     dgid = (case dgid d of None \<Rightarrow> [] | Some p \<Rightarrow> cstr_at mem p),
     dmuid = (case dmuid d of None \<Rightarrow> [] | Some p \<Rightarrow> cstr_at mem p)\<rparr>"

definition dir_seen :: "cstr Dir \<Rightarrow> bytes Dir" where
  "dir_seen d = \<lparr>dtype = dtype d, ddev = ddev d, dqid = dqid d, dmode = dmode d, datime = datime d,
     dmtime = dmtime d, dlength = dlength d,
     dname = cut_str (str_of (dname d)), duid = cut_str (str_of (duid d)),
     dgid = cut_str (str_of (dgid d)), dmuid = cut_str (str_of (dmuid d))\<rparr>"

definition dir_short :: "cstr Dir \<Rightarrow> bool" where
  "dir_short d \<longleftrightarrow> list_all (lim_str \<circ> str_of) (dir_strings d)"

lemma strlen0_str: "strlen0 s = length (str_of s)"
  by (simp add: strlen0_def str_of_def split: option.splits)

lemma length_enc_fixed: "length (enc_fixed d) = 39"
  by (simp add: enc_fixed_def)

lemma length_dirwire: "length (dirwire d) = sizeD2M d"
  by (simp add: dirwire_def length_enc_fixed sizeD2M_def dir_strings_def strlen0_str)

section \<open>Encoding\<close>

lemma writes_convD2M_str: "writes (convD2M_str s) (enc_str (str_of s))"
proof -
  have w: "writes (seq (p16 (of_nat (strlen0 s))) (if strlen0 s \<noteq> 0 then put_out (str_of s) else ret ()))
      (PBIT16 (of_nat (length (str_of s))) @ str_of s)"
    using writes_put_out [of "str_of s"] writes_ret
    by (intro writes_seq) (auto simp: strlen0_str w16.pp_enc)
  have "need (strlen0 s + 2) c = (Inr (), c)" if "fits c (enc_str (str_of s))" for c
    using that by (simp add: need_def fits_def strlen0_str)
  with w show ?thesis
    by (auto simp: writes_def convD2M_str_def Let_def enc_str_def seq_def [of "need _"] and_then_def)
qed

lemma writes_fixed: "writes (convD2M_fixed d) (enc_fixed d)"
  unfolding convD2M_fixed_def enc_fixed_def
  by (intro writes_seq w8.pp_enc w16.pp_enc w32.pp_enc w64.pp_enc)

end
