(* ===== verification/Dir_Props.thy ===== *)
theory Dir_Props
  imports Dir
begin

text \<open>
  Correctness of the directory entry codecs of \<^verbatim>\<open>convD2M.c\<close> and \<^verbatim>\<open>convM2D.c\<close>: the encoder writes
  the entry format or says how much room it needs, \<^verbatim>\<open>statcheck\<close> accepts exactly the entry
  format, and the decoder reads back what the encoder wrote and stays inside its memories.
\<close>

section \<open>Encoder runs and decoder steps\<close>

lemma convD2M_writes:
  assumes "sizeD2M d \<le> length buf"
  shows "convD2M d (at_start buf) = (Inr (sizeD2M d), wrote (at_start buf) (dirwire d))"
proof -
  let ?c = "at_start buf" and ?ss = "sizeD2M d"
  let ?w = "seq (p16 (of_nat (?ss - 2))) (seq (convD2M_fixed d) (for_each convD2M_str (dir_strings d)))"
  have w: "writes ?w (dirwire d)"
    unfolding dirwire_def
    by (intro writes_seq w16.pp_enc writes_fixed writes_for_each) (simp add: writes_convD2M_str)
  have ge: "49 \<le> ?ss" by (simp add: sizeD2M_def)
  have fit: "fits ?c (dirwire d)" using assms by (simp add: fits_def at_start_def length_dirwire)
  have "convD2M d ?c = seq ?w (and_then (fetch cp) (\<lambda>p. if ?ss \<noteq> p then raise (Return 0) else ret p)) ?c"
    using assms ge by (simp add: convD2M_def and_then_fetch at_start_def Let_def seq_assoc)
  also have "\<dots> = (Inr ?ss, wrote ?c (dirwire d))"
    unfolding seq_writes [OF w fit]
    by (simp add: and_then_def fetch_def ret_def wrote_def at_start_def length_dirwire)
  finally show ?thesis .
qed

lemma convD2M_short:
  assumes "2 \<le> length buf" and "length buf < sizeD2M d"
  shows "convD2M d (at_start buf) = (Inl (Return 2), wrote (at_start buf) (PBIT16 (of_nat (sizeD2M d - 2))))"
proof -
  have "fits (at_start buf) (PBIT16 (of_nat (sizeD2M d - 2)))"
    using assms by (simp add: fits_def at_start_def)
  from seq_writes [OF w16.pp_enc this] show ?thesis
    using assms by (simp add: convD2M_def and_then_fetch at_start_def Let_def raise_def)
qed

text \<open>Where the bytes of a string field lie ahead.\<close>

lemma enc_str_ahead:
  assumes "in_range c" and "pending c = enc_str b @ r" and "lim_str b"
  shows "cp c + 2 + length b \<le> length (cbuf c)"
    and "unat (GBIT16 (take 2 (drop (cp c) (cbuf c)))) = length b"
    and "take (length b) (drop (cp c + 2) (cbuf c)) = b"
    and "drop (cp c + 2 + length b) (cbuf c) = r"
proof -
  have d: "drop (cp c) (cbuf c) = PBIT16 (of_nat (length b)) @ b @ r"
    using assms(2) by (simp add: pending_def enc_str_def)
  show "cp c + 2 + length b \<le> length (cbuf c)"
    using drop_append_bound [of "cp c" "cbuf c" "enc_str b" r] assms(1,2)
    by (simp add: pending_def in_range_def)
  show "unat (GBIT16 (take 2 (drop (cp c) (cbuf c)))) = length b"
    using assms(3) by (simp add: d lim_str_def unat_of_nat)
  have d2: "drop (cp c + 2) (cbuf c) = b @ r" using drop_append_length [OF d] by simp
  then show "take (length b) (drop (cp c + 2) (cbuf c)) = b" by simp
  show "drop (cp c + 2 + length b) (cbuf c) = r" using drop_append_length [OF d2] by simp
qed

lemma str_ahead_cases:
  assumes "in_range c"
  obtains (short) "length (cbuf c) < cp c + 2"
  | (long) "cp c + 2 \<le> length (cbuf c)"
      "length (cbuf c) < cp c + 2 + unat (GBIT16 (take 2 (drop (cp c) (cbuf c))))"
  | (str) b where "lim_str b" "pending c = enc_str b @ drop (cp c + 2 + length b) (cbuf c)"
proof -
  let ?n = "unat (GBIT16 (take 2 (drop (cp c) (cbuf c))))"
  show ?thesis
  proof (cases "cp c + 2 + ?n \<le> length (cbuf c)")
    case True
    let ?b = "take ?n (drop (cp c + 2) (cbuf c))"
    have "length ?b = ?n" using True by simp
    then have "PBIT16 (of_nat (length ?b)) = take 2 (drop (cp c) (cbuf c))"
      using True by (simp add: PBIT16_GBIT16)
    then have "pending c = enc_str ?b @ drop (cp c + 2 + length ?b) (cbuf c)"
      unfolding pending_def enc_str_def
      by (metis (no_types, lifting) \<open>length ?b = ?n\<close> add.commute append_assoc append_take_drop_id drop_drop)
    moreover have "lim_str ?b"
      using \<open>length ?b = ?n\<close> unsigned_less [of "GBIT16 (take 2 (drop (cp c) (cbuf c)))"] by (simp add: lim_str_def)
    ultimately show ?thesis using str by blast
  next
    case False
    then show ?thesis using short long by linarith
  qed
qed

lemma convM2D_str_reads:
  assumes "in_range c" and "pending c = enc_str b @ r" and "lim_str b" and "fits o' (b @ [0])"
  shows "convM2D_str True (c, o') = (Inr (Some (cp o')), (c\<lparr>cp := cp c + 2 + length b\<rparr>, wrote o' (b @ [0])))"
proof -
  note a = enc_str_ahead [OF assms(1-3)]
  have f: "fits o' b" "fits (wrote o' b) [0]" using fits_append [OF assms(4)] by auto
  have "wp (convM2D_str True) (\<lambda>w s. w = Some (cp o') \<and> s = (c\<lparr>cp := cp c + 2 + length b\<rparr>, wrote o' (b @ [0])))
      (\<lambda>_ _. False) (c, o')"
    unfolding convM2D_str_def g16_def
    using a f by (simp add: wp_simps wp_on_fst wp_on_snd wrote_append [OF assms(4)])
  then show ?thesis by (auto simp: wp_total_iff)
qed

lemma keeps_wrote: "fits c bs \<Longrightarrow> keeps c (wrote c bs)"
  by (simp add: keeps_def wrote_def fits_def take_overwrite drop_overwrite)

lemma settled_wrote:
  assumes "fits c (b @ [0])"
  shows "settled cstr_at (wrote c (b @ [0])) (cp c) (cut_str b)"
  unfolding settled_def
proof (intro allI impI)
  fix c' assume k: "keeps (wrote c (b @ [0])) c'"
  have le: "cp c + (length b + 1) \<le> length (cbuf c)" using assms by (simp add: fits_def)
  have "take (cp c + (length b + 1)) (cbuf c') = take (cp c) (cbuf c) @ b @ [0]"
    using k le take_overwrite_end [of "cp c" "b @ [0]" "cbuf c"] by (simp add: keeps_def wrote_def)
  from drop_of_take [OF this] have "drop (cp c) (cbuf c') = (b @ [0]) @ drop (cp c + (length b + 1)) (cbuf c')"
    using le by simp
  then show "cstr_at (cbuf c') (cp c) = cut_str b" by (simp add: cstr_at_def cut_str_def)
qed


lemma convM2D_str_wp:
  assumes "pending c = enc_str b @ r" and "in_range c" and "lim_str b" and "fits o' (b @ [0])"
    and "\<And>sv c'. pending c' = r \<Longrightarrow> in_range c' \<Longrightarrow> cp c' = cp c + 2 + length b \<Longrightarrow>
      settled cstr_at (wrote o' (b @ [0])) sv (cut_str b) \<Longrightarrow> Q (Some sv) (c', wrote o' (b @ [0]))"
  shows "wp (convM2D_str True) Q E (c, o')"
proof -
  note a = enc_str_ahead [OF assms(2,1,3)]
  have "Q (Some (cp o')) (c\<lparr>cp := cp c + 2 + length b\<rparr>, wrote o' (b @ [0]))"
    using a settled_wrote [OF assms(4)] by (intro assms(5)) (simp_all add: pending_def in_range_def)
  then show ?thesis by (simp add: wp_def convM2D_str_reads [OF assms(2,1,3,4)])
qed

lemma convM2D_str_wp_dec:
  assumes c: "in_range c" and room: "cp o' + length (pending c) \<le> length (cbuf o')"
    and Q: "\<And>b sv c' o''. pending c = enc_str b @ pending c' \<Longrightarrow> lim_str b \<Longrightarrow> in_range c' \<Longrightarrow>
      cp c' = cp c + 2 + length b \<Longrightarrow> cp o'' + length (pending c') \<le> length (cbuf o'') \<Longrightarrow>
      keeps o' o'' \<Longrightarrow> settled cstr_at o'' sv (cut_str b) \<Longrightarrow> Q (Some sv) (c', o'')"
  shows "wp (convM2D_str True) Q (\<lambda>e _. e \<noteq> Fault) (c, o')"
  using c
proof (cases rule: str_ahead_cases)
  case (str b)
  let ?c = "c\<lparr>cp := cp c + 2 + length b\<rparr>" and ?o = "wrote o' (b @ [0])"
  note a = enc_str_ahead [OF c str(2,1)]
  have p: "pending ?c = drop (cp c + 2 + length b) (cbuf c)" by (simp add: pending_def)
  have f: "fits o' (b @ [0])" using room arg_cong [OF str(2), of length] by (simp add: fits_def)
  have "cp ?o + length (pending ?c) \<le> length (cbuf ?o)"
    using room f arg_cong [OF str(2), of length] by (simp add: wrote_def fits_def pending_def)
  then have "Q (Some (cp o')) (?c, ?o)"
    using a f str p by (intro Q [of b]) (simp_all add: in_range_def keeps_wrote settled_wrote)
  then show ?thesis by (simp add: wp_def convM2D_str_reads [OF c str(2,1) f])
qed (simp_all add: convM2D_str_def g16_def wp_simps wp_on_fst wp_on_snd)

lemma convM2D_str_none_dec:
  assumes c: "in_range c"
    and Q: "\<And>b c'. pending c = enc_str b @ pending c' \<Longrightarrow> lim_str b \<Longrightarrow> in_range c' \<Longrightarrow>
      cp c' = cp c + 2 + length b \<Longrightarrow> Q None (c', o')"
  shows "wp (convM2D_str False) Q (\<lambda>e s. e \<noteq> Fault \<and> snd s = o') (c, o')"
  using c
proof (cases rule: str_ahead_cases)
  case (str b)
  note a = enc_str_ahead [OF c str(2,1)]
  have "Q None (c\<lparr>cp := cp c + 2 + length b\<rparr>, o')"
    using a str by (intro Q [of b]) (simp_all add: in_range_def pending_def)
  then show ?thesis
    using a by (simp add: convM2D_str_def g16_def wp_simps wp_on_fst wp_on_snd)
qed (simp_all add: convM2D_str_def g16_def wp_simps wp_on_fst wp_on_snd)

lemma skip_two:
  assumes "in_range c" and "2 \<le> length (pending c)"
  shows "in_range (c\<lparr>cp := Suc (Suc (cp c))\<rparr>)" and "pending (c\<lparr>cp := Suc (Suc (cp c))\<rparr>) = drop 2 (pending c)"
  using assms by (auto simp: in_range_def pending_def)

lemma keeps_cp:
  assumes "keeps c c'" and "in_range c" and "in_range c'" and "pending c = xs @ pending c'"
  shows "cp c' = cp c + length xs"
proof -
  have "length (pending c) = length xs + length (pending c')" using assms(4) by simp
  then show ?thesis using assms(1-3) by (auto simp: keeps_def in_range_def pending_def)
qed

lemma keeps_adv: "keeps c (c\<lparr>cp := cp c + n\<rparr>)"
  by (simp add: keeps_def)

lemma keeps_skip: "keeps (c\<lparr>cp := Suc (Suc (cp c))\<rparr>) e \<Longrightarrow> keeps c e"
  using keeps_trans [OF keeps_adv [of c 2]] by simp

lemma convM2D_fixed_wp:
  assumes "pending c = PBIT16 sz @ enc_fixed d @ r" and "in_range c"
    and Q: "\<And>c'. pending c' = r \<Longrightarrow> in_range c' \<Longrightarrow> cp c' = cp c + 41 \<Longrightarrow>
      Q (dtype d, ddev d, dqid d, dmode d, datime d, dmtime d, dlength d) c'"
  shows "wp convM2D_fixed Q (\<lambda>_ _. False) c"
proof -
  let ?c = "c\<lparr>cp := cp c + 2\<rparr>"
  have c: "in_range ?c" and p: "pending ?c = enc_fixed d @ r"
    using skip_two [of c] assms(1,2) by simp_all
  have "wp convM2D_fixed (\<lambda>v c'. v = (dtype d, ddev d, dqid d, dmode d, datime d, dmtime d, dlength d)
      \<and> pending c' = r \<and> in_range c' \<and> keeps ?c c') (\<lambda>_ _. False) c"
    using p c unfolding convM2D_fixed_def
    by (auto simp: wp_flow wp_adv enc_fixed_def intro!: w8.gg_wp w16.gg_wp w32.gg_wp w64.gg_wp)
      (meson keeps_trans)
  moreover have "cp c' = cp c + 41" if "keeps ?c c'" "in_range c'" "pending c' = r" for c'
    using keeps_cp [OF keeps_skip, of c c' "PBIT16 sz @ enc_fixed d"] that assms(1,2) by (simp add: length_enc_fixed)
  ultimately show ?thesis
    by (elim wp_conseq) (use Q in auto)
qed

lemma convM2D_fixed_wp_dec:
  assumes "in_range c" and "41 \<le> length (pending c)"
    and Q: "\<And>ty dev q mode at mt len c'. drop 2 (pending c) = enc_fixed \<lparr>dtype = ty, ddev = dev, dqid = q, dmode = mode, datime = at,
       dmtime = mt, dlength = len, dname = (), duid = (), dgid = (), dmuid = ()\<rparr> @ pending c' \<Longrightarrow> in_range c' \<Longrightarrow>
      cp c' = cp c + 41 \<Longrightarrow> Q (ty, dev, q, mode, at, mt, len) c'"
  shows "wp convM2D_fixed Q (\<lambda>e _. e \<noteq> Fault) c"
proof -
  let ?c = "c\<lparr>cp := cp c + 2\<rparr>"
  have c: "in_range ?c" and p: "pending ?c = drop 2 (pending c)" and l: "39 \<le> length (pending ?c)"
    using skip_two [of c] assms(1,2) by simp_all
  have "wp convM2D_fixed (\<lambda>(ty, dev, q, mode, at, mt, len) c'. pending ?c = enc_fixed \<lparr>dtype = ty, ddev = dev, dqid = q, dmode = mode, datime = at,
       dmtime = mt, dlength = len, dname = (), duid = (), dgid = (), dmuid = ()\<rparr> @ pending c'
      \<and> in_range c' \<and> keeps ?c c') (\<lambda>e _. e \<noteq> Fault) c"
    using c l unfolding convM2D_fixed_def
    by (auto simp: wp_flow wp_adv enc_fixed_def intro!: w8.gg_wp_dec w16.gg_wp_dec w32.gg_wp_dec w64.gg_wp_dec)
      (meson keeps_trans)
  moreover have "cp c' = cp c + 41" if "keeps ?c c'" "in_range c'" "pending ?c = enc_fixed d @ pending c'" for c' and d :: "unit Dir"
    using keeps_cp [OF that(1) c that(2,3)] by (simp add: length_enc_fixed)
  ultimately show ?thesis
    unfolding p by (elim wp_conseq) (use Q in auto)
qed


section \<open>Whole entries\<close>

text \<open>The memory that the strings of an entry need: each with its terminating zero.\<close>

definition strs_need :: "cstr Dir \<Rightarrow> nat" where
  "strs_need d = sizeD2M d - 45"

lemma convM2D_dirwire:
  assumes d: "dir_short d" and b: "drop 2 b = drop 2 (dirwire d) @ r" and l: "2 \<le> length b"
    and room: "strs_need d \<le> length mem"
  shows "wp (convM2D True) (\<lambda>(p, pd) (c', m'). p = sizeD2M d \<and> dir_at (cbuf m') pd = dir_seen d)
    (\<lambda>_ _. False) (at_start b, at_start mem)"
proof -
  let ?o = "at_start mem"
  let ?s = "\<lambda>s. str_of s @ [0]"
  have b': "b = PBIT16 (GBIT16 (take 2 b)) @ enc_fixed d @ enc_str (str_of (dname d)) @ enc_str (str_of (duid d))
      @ enc_str (str_of (dgid d)) @ enc_str (str_of (dmuid d)) @ r"
    using l b append_take_drop_id [of 2 b] by (simp add: PBIT16_GBIT16 dirwire_def dir_strings_def)
  have big: "\<not> length b < 49" using arg_cong [OF b', of length] by (simp add: length_enc_fixed)
  have f: "fits ?o (?s (dname d) @ ?s (duid d) @ ?s (dgid d) @ ?s (dmuid d))"
    using room by (simp add: fits_def at_start_def strs_need_def sizeD2M_def dir_strings_def strlen0_str)
  have sh: "lim_str (str_of (dname d))" "lim_str (str_of (duid d))" "lim_str (str_of (dgid d))"
      "lim_str (str_of (dmuid d))"
    using d by (simp_all add: dir_short_def dir_strings_def)
  let ?o1 = "wrote ?o (?s (dname d))" let ?o2 = "wrote ?o1 (?s (duid d))"
  let ?o3 = "wrote ?o2 (?s (dgid d))" let ?o4 = "wrote ?o3 (?s (dmuid d))"
  have fits: "fits ?o (?s (dname d))" "fits ?o1 (?s (duid d))" "fits ?o2 (?s (dgid d))" "fits ?o3 (?s (dmuid d))"
    using f by (auto simp: fits_def wrote_def at_start_def)
  note k = keeps_wrote [OF fits(2)] keeps_wrote [OF fits(3)] keeps_wrote [OF fits(4)]
  have c: "in_range (at_start b)" by (simp add: in_range_def at_start_def)
  have p: "pending (at_start b) = PBIT16 (GBIT16 (take 2 b)) @ enc_fixed d @ enc_str (str_of (dname d)) @ enc_str (str_of (duid d))
      @ enc_str (str_of (dgid d)) @ enc_str (str_of (dmuid d)) @ r"
    using b' by (simp add: pending_def at_start_def)
  show ?thesis
    unfolding convM2D_def
    apply (simp add: wp_flow wp_on_fst big)
    apply (rule convM2D_fixed_wp [OF p c])
    apply (simp add: wp_flow wp_on_fst)
    apply (rule convM2D_str_wp, assumption, assumption, rule sh, rule fits)
    apply (rule convM2D_str_wp, assumption, assumption, rule sh, rule fits)
    apply (rule convM2D_str_wp, assumption, assumption, rule sh, rule fits)
    apply (rule convM2D_str_wp, assumption, assumption, rule sh, rule fits)
    apply (simp add: wp_flow wp_on_fst)
    apply (use k in \<open>auto simp: dir_at_def dir_seen_def sizeD2M_def dir_strings_def strlen0_str
       intro: settled_at keeps_trans\<close>)
    done
qed

section \<open>Checking an entry\<close>

lemma statcheck_str_run:
  "statcheck_str c = (if length (cbuf c) < cp c + 2 then (Inl (Return (-1)), c)
     else (Inr (), c\<lparr>cp := cp c + 2 + unat (GBIT16 (take 2 (drop (cp c) (cbuf c))))\<rparr>))"
  by (simp add: statcheck_str_def and_then_fetch raise_def and_then_def load_def adv_def modify_def fetch_def)

abbreviation statcheck_loop :: "'i list \<Rightarrow> (cursor, cexit, unit) sem" where
  "statcheck_loop \<equiv> for_each (\<lambda>_. statcheck_str)"

lemma statcheck_loop_reads:
  assumes "in_range c" and "pending c = concat (map enc_str bs) @ r" and "list_all lim_str bs"
    and "length xs = length bs"
  shows "statcheck_loop xs c = (Inr (), c\<lparr>cp := cp c + length (concat (map enc_str bs))\<rparr>)"
  using assms
proof (induction bs arbitrary: c xs)
  case (Cons b bs)
  then obtain x xs' where xs: "xs = x # xs'" by (cases xs) auto
  have p: "pending c = enc_str b @ (concat (map enc_str bs) @ r)" and b: "lim_str b" using Cons.prems by simp_all
  note a = enc_str_ahead [OF Cons.prems(1) p b]
  let ?c = "c\<lparr>cp := cp c + 2 + length b\<rparr>"
  have "statcheck_str c = (Inr (), ?c)" using a by (simp add: statcheck_str_run)
  moreover have "statcheck_loop xs' ?c = (Inr (), ?c\<lparr>cp := cp ?c + length (concat (map enc_str bs))\<rparr>)"
    using a Cons.prems xs by (intro Cons.IH) (simp_all add: in_range_def pending_def)
  ultimately show ?case by (simp add: xs seq_def and_then_def add.assoc)
qed (simp add: ret_def)

lemma statcheck_loop_cbuf: "statcheck_loop xs c = (r, c') \<Longrightarrow> cbuf c' = cbuf c"
  by (induction xs arbitrary: c)
    (auto simp: ret_def seq_def and_then_def statcheck_str_run split: if_splits)

lemma statcheck_loop_errs: "statcheck_loop xs c = (Inl e, c') \<Longrightarrow> e = Return (-1)"
  by (induction xs arbitrary: c)
    (auto simp: ret_def seq_def and_then_def statcheck_str_run split: if_splits)

lemma statcheck_loop_accepts:
  assumes "statcheck_loop xs c = (Inr (), c')" and "cp c' \<le> length (cbuf c')"
  shows "cbuf c' = cbuf c \<and> in_range c \<and>
    (\<exists>bs. length bs = length xs \<and> list_all lim_str bs \<and> pending c = concat (map enc_str bs) @ pending c')"
  using assms
proof (induction xs arbitrary: c)
  case (Cons x xs)
  then have long: "cp c + 2 \<le> length (cbuf c)"
    by (auto simp: seq_def and_then_def statcheck_str_run split: if_splits)
  define c1 where "c1 = c\<lparr>cp := cp c + 2 + unat (GBIT16 (take 2 (drop (cp c) (cbuf c))))\<rparr>"
  have "statcheck_loop xs c1 = (Inr (), c')"
    using Cons.prems(1) long by (simp add: seq_def and_then_def statcheck_str_run [of c] c1_def)
  from Cons.IH [OF this Cons.prems(2)] obtain bs where
    bs: "cbuf c' = cbuf c1" "in_range c1" "length bs = length xs" "list_all lim_str bs"
      "pending c1 = concat (map enc_str bs) @ pending c'" by blast
  have c: "in_range c" using long by (simp add: in_range_def)
  then show ?case
  proof (cases rule: str_ahead_cases)
    case (str b)
    note a = enc_str_ahead [OF c str(2,1)]
    have "pending c = concat (map enc_str (b # bs)) @ pending c'"
      using a str bs(5) by (simp add: pending_def c1_def)
    then show ?thesis using bs c str(1) by (intro conjI exI [of _ "b # bs"]) (auto simp: c1_def)
  next
    case long then show ?thesis using bs(2) by (simp add: c1_def in_range_def)
  qed (use long in simp)
qed (simp add: ret_def in_range_def)

lemma statcheck_run:
  "statcheck (at_start b) = (if length b < 49 \<or> length b \<noteq> 2 + unat (GBIT16 (take 2 b))
     then (Inl (Return (-1)), at_start b)
     else case statcheck_loop [0::nat, 1, 2, 3] \<lparr>cbuf = b, cp = 41\<rparr> of
       (Inl e, c) \<Rightarrow> (Inl e, c)
     | (Inr _, c) \<Rightarrow> if cp c = length b then (Inr (), c) else (Inl (Return (-1)), c))"
  by (simp add: statcheck_def and_then_fetch at_start_def load_def and_then_def seq_def adv_def fetch_def
      raise_def modify_def ret_def split: prod.splits sum.splits)

lemma dirwire_parts:
  "dirwire d = PBIT16 (of_nat (sizeD2M d - 2)) @ enc_fixed d @ concat (map enc_str (map str_of (dir_strings d)))"
  by (simp add: dirwire_def comp_def)

lemma statcheck_dirwire:
  assumes "sizeD2M d < 2 ^ 16 + 2"
  shows "statcheck (at_start (dirwire d)) = (Inr (), \<lparr>cbuf = dirwire d, cp = sizeD2M d\<rparr>)"
proof -
  let ?bs = "map str_of (dir_strings d)"
  have l: "41 + length (concat (map enc_str ?bs)) = sizeD2M d"
    using length_dirwire [of d] by (simp add: dirwire_parts length_enc_fixed)
  have "statcheck_loop [0::nat, 1, 2, 3] \<lparr>cbuf = dirwire d, cp = 41\<rparr> =
      (Inr (), \<lparr>cbuf = dirwire d, cp = 41\<rparr>\<lparr>cp := cp \<lparr>cbuf = dirwire d, cp = 41\<rparr> + length (concat (map enc_str ?bs))\<rparr>)"
  proof (rule statcheck_loop_reads [where r = "[]"])
    show "list_all lim_str ?bs"
      using assms by (simp add: lim_str_def sizeD2M_def dir_strings_def strlen0_str)
    show "pending \<lparr>cbuf = dirwire d, cp = 41\<rparr> = concat (map enc_str ?bs) @ []"
      using drop_append_length [of 0 "dirwire d" "PBIT16 (of_nat (sizeD2M d - 2)) @ enc_fixed d" "concat (map enc_str ?bs)"]
      by (simp add: pending_def dirwire_parts length_enc_fixed)
  qed (simp_all add: in_range_def length_dirwire l [symmetric] dir_strings_def)
  moreover have ge: "49 \<le> sizeD2M d" by (simp add: sizeD2M_def)
  moreover have "unat (GBIT16 (take 2 (dirwire d))) = sizeD2M d - 2"
    using assms ge by (simp add: dirwire_parts unat_of_nat del: of_nat_diff)
  ultimately show ?thesis
    using l by (simp add: statcheck_run length_dirwire)
qed

lemma fixed_exists:
  assumes "length b = 39"
  obtains ty dev q mode at mt len where
    "b = enc_fixed \<lparr>dtype = ty, ddev = dev, dqid = q, dmode = mode, datime = at,
       dmtime = mt, dlength = len, dname = (), duid = (), dgid = (), dmuid = ()\<rparr>"
proof -
  let ?P = "\<lambda>(ty, dev, q, mode, at, mt, len). b = enc_fixed \<lparr>dtype = ty, ddev = dev, dqid = q, dmode = mode,
    datime = at, dmtime = mt, dlength = len, dname = (), duid = (), dgid = (), dmuid = ()\<rparr>"
  have part: "drop k b = take n (drop k b) @ drop (k + n) b" for k n
    by (metis add.commute append_take_drop_id drop_drop)
  let ?f = "(GBIT16 (take 2 b), GBIT32 (take 4 (drop 2 b)),
     \<lparr>qpath = GBIT64 (take 8 (drop 11 b)), qvers = GBIT32 (take 4 (drop 7 b)), qtype = GBIT8 (take 1 (drop 6 b))\<rparr>,
     GBIT32 (take 4 (drop 19 b)), GBIT32 (take 4 (drop 23 b)), GBIT32 (take 4 (drop 27 b)), GBIT64 (take 8 (drop 31 b)))"
  have "b = take 2 b @ take 4 (drop 2 b) @ take 1 (drop 6 b) @ take 4 (drop 7 b) @ take 8 (drop 11 b)
     @ take 4 (drop 19 b) @ take 4 (drop 23 b) @ take 4 (drop 27 b) @ take 8 (drop 31 b)"
    using part [of 0 2] part [of 2 4] part [of 6 1] part [of 7 4] part [of 11 8] part [of 19 4] part [of 23 4]
      part [of 27 4] part [of 31 8] assms by simp
  then have "?P ?f"
    using assms by (simp add: enc_fixed_def PBIT8_GBIT8 PBIT16_GBIT16 PBIT32_GBIT32 PBIT64_GBIT64)
  then show ?thesis using that by auto
qed

lemma statcheck_accepts:
  assumes "statcheck (at_start b) = (Inr (), c)"
  shows "\<exists>d. sizeD2M d < 2 ^ 16 + 2 \<and> b = dirwire d"
proof -
  let ?c = "\<lparr>cbuf = b, cp = 41\<rparr>"
  have len: "49 \<le> length b" "length b = 2 + unat (GBIT16 (take 2 b))"
    and loop: "statcheck_loop [0::nat, 1, 2, 3] ?c = (Inr (), c)" "cp c = length b"
    using assms by (auto simp: statcheck_run simp del: for_each.simps split: if_splits prod.splits sum.splits)
  have buf: "cbuf c = b" using statcheck_loop_cbuf [OF loop(1)] by simp
  have "cp c \<le> length (cbuf c)" "pending c = []" using loop(2) buf by (simp_all add: pending_def)
  with statcheck_loop_accepts [OF loop(1)] obtain bs where
    bs: "length bs = Suc (Suc (Suc (Suc 0)))" "list_all lim_str bs" "drop 41 b = concat (map enc_str bs)"
    by (auto simp: pending_def simp del: for_each.simps)
  have "length (take 39 (drop 2 b)) = 39" using len(1) by simp
  then obtain ty dev q mode at mt ln where
    f: "take 39 (drop 2 b) = enc_fixed \<lparr>dtype = ty, ddev = dev, dqid = q, dmode = mode, datime = at,
       dmtime = mt, dlength = ln, dname = (), duid = (), dgid = (), dmuid = ()\<rparr>" by (rule fixed_exists)
  obtain s0 s1 s2 s3 where s: "bs = [s0, s1, s2, s3]"
    using bs(1) by (auto simp: length_Suc_conv)
  let ?d = "\<lparr>dtype = ty, ddev = dev, dqid = q, dmode = mode, datime = at, dmtime = mt, dlength = ln,
     dname = Some s0, duid = Some s1, dgid = Some s2, dmuid = Some s3\<rparr> :: cstr Dir"
  have parts: "take 2 b @ take 39 (drop 2 b) @ drop 41 b = b"
    using append_take_drop_id [of 39 "drop 2 b"] append_take_drop_id [of 2 b] by simp
  have fx: "take 39 (drop 2 b) = enc_fixed ?d" and st: "drop 41 b = concat (map enc_str (map str_of (dir_strings ?d)))"
    using f bs(3) s by (simp_all add: enc_fixed_def dir_strings_def str_of_def)
  have size: "sizeD2M ?d = length b"
    using arg_cong [OF st, of length] len(1) by (simp add: sizeD2M_def dir_strings_def strlen0_str)
  have "take 2 b = PBIT16 (of_nat (sizeD2M ?d - 2))"
    unfolding size using len by (simp add: PBIT16_GBIT16)
  then have "dirwire ?d = b" unfolding dirwire_parts fx [symmetric] st [symmetric] using parts by simp
  moreover have "sizeD2M ?d < 2 ^ 16 + 2"
    unfolding size using len(2) unsigned_less [of "GBIT16 (take 2 b)"] by simp
  ultimately show ?thesis by blast
qed

section \<open>Properties\<close>

text \<open>
  C6. Directory entries survive the wire: \<^verbatim>\<open>convD2M\<close> writes an entry with strings below 64 KB
  into any buffer of at least \<^verbatim>\<open>sizeD2M\<close> bytes, and \<^verbatim>\<open>convM2D\<close> reads from that buffer the same
  number of bytes, the same fields and, in the memory it filled for the strings, the same four
  C strings.
\<close>

theorem dir_roundtrip:
  assumes "dir_short d" and "sizeD2M d \<le> length buf" and "strs_need d \<le> length mem"
  shows "\<exists>c pd c' m. convD2M d (at_start buf) = (Inr (sizeD2M d), c)
    \<and> convM2D True (at_start (cbuf c), at_start mem) = (Inr (sizeD2M d, pd), (c', m))
    \<and> dir_at (cbuf m) pd = dir_seen d"
proof -
  let ?c = "wrote (at_start buf) (dirwire d)"
  have "cbuf ?c = dirwire d @ drop (sizeD2M d) buf"
    using assms(2) by (simp add: wrote_def at_start_def overwrite_def length_dirwire)
  then have "drop 2 (cbuf ?c) = drop 2 (dirwire d) @ drop (sizeD2M d) buf" "2 \<le> length (cbuf ?c)"
    using length_dirwire [of d] by (simp_all add: sizeD2M_def)
  from convM2D_dirwire [OF assms(1) this assms(3)]
  show ?thesis by (auto simp: wp_total_iff convD2M_writes [OF assms(2)])
qed

definition sample_dir :: "cstr Dir" where
  "sample_dir = \<lparr>dtype = 7, ddev = 1, dqid = \<lparr>qpath = 5, qvers = 0, qtype = 0x80\<rparr>, dmode = 0x800001ED,
     datime = 1, dmtime = 2, dlength = 0, dname = Some [0x62, 0x69, 0x6E], duid = Some [0x67],
     dgid = None, dmuid = Some []\<rparr>"

lemma sample_dir_size: "sizeD2M sample_dir = 53" "dir_short sample_dir" "strs_need sample_dir = 8"
  by (simp_all add: sizeD2M_def dir_strings_def strlen0_def sample_dir_def dir_short_def lim_str_def str_of_def
      strs_need_def)

theorem dir_roundtrip_witness:
  "\<exists>c pd c' m. convD2M sample_dir (at_start (replicate 60 9)) = (Inr 53, c)
    \<and> convM2D True (at_start (cbuf c), at_start (replicate 8 9)) = (Inr (53, pd), (c', m))
    \<and> dir_at (cbuf m) pd = dir_seen sample_dir"
  using dir_roundtrip [of sample_dir "replicate 60 9" "replicate 8 9"] by (simp add: sample_dir_size)

text \<open>
  C7. \<^verbatim>\<open>statcheck\<close> decides the entry format: it accepts a buffer exactly when the buffer is the
  encoding of some entry whose size fits the 16-bit count, rejects every other buffer with -1,
  and never reads outside the buffer.
\<close>

theorem statcheck_exact:
  "fst (statcheck (at_start b)) =
     (if \<exists>d. sizeD2M d < 2 ^ 16 + 2 \<and> b = dirwire d then Inr () else Inl (Return (-1)))"
proof (cases "\<exists>d. sizeD2M d < 2 ^ 16 + 2 \<and> b = dirwire d")
  case True
  then obtain d where d: "sizeD2M d < 2 ^ 16 + 2" and b: "b = dirwire d" by blast
  from statcheck_dirwire [OF d] show ?thesis using True unfolding b by simp
next
  case False
  obtain r c where run: "statcheck (at_start b) = (r, c)" by fastforce
  with False have "r \<noteq> Inr ()" using statcheck_accepts by blast
  with run have "fst (statcheck (at_start b)) = Inl (Return (-1))"
    by (auto simp: statcheck_run simp del: for_each.simps dest: statcheck_loop_errs split: prod.splits sum.splits if_splits)
  with False show ?thesis by simp
qed

text \<open>
  What \<^verbatim>\<open>statcheck\<close> accepted, \<^verbatim>\<open>convM2D\<close> decodes completely: with string memory as large as
  the buffer it returns the length of the buffer and the fields and strings of the entry that
  the buffer encodes.
\<close>

theorem statcheck_convM2D:
  assumes "fst (statcheck (at_start b)) = Inr ()" and "length b \<le> length mem"
  shows "\<exists>d pd c m. b = dirwire d \<and> convM2D True (at_start b, at_start mem) = (Inr (length b, pd), (c, m))
    \<and> dir_at (cbuf m) pd = dir_seen d"
proof -
  obtain c where "statcheck (at_start b) = (Inr (), c)" using assms(1) by (metis prod.collapse)
  from statcheck_accepts [OF this] obtain d where d: "sizeD2M d < 2 ^ 16 + 2" "b = dirwire d" by blast
  have "dir_short d"
    using d(1) by (simp add: dir_short_def lim_str_def sizeD2M_def dir_strings_def strlen0_str)
  moreover have "2 \<le> length b" "strs_need d \<le> length mem"
    using assms(2) d(2) by (simp_all add: length_dirwire strs_need_def sizeD2M_def)
  ultimately have "wp (convM2D True) (\<lambda>(p, pd) (c', m'). p = sizeD2M d \<and> dir_at (cbuf m') pd = dir_seen d)
      (\<lambda>_ _. False) (at_start b, at_start mem)"
    by (intro convM2D_dirwire [where r = "[]"]) (simp_all add: d(2))
  then show ?thesis using d(2) by (auto simp: wp_total_iff length_dirwire)
qed

theorem statcheck_convM2D_witness:
  "\<exists>d pd c m. dirwire sample_dir = dirwire d
    \<and> convM2D True (at_start (dirwire sample_dir), at_start (replicate 53 9)) = (Inr (53, pd), (c, m))
    \<and> dir_at (cbuf m) pd = dir_seen d"
  using statcheck_convM2D [of "dirwire sample_dir" "replicate 53 9"]
  by (simp add: statcheck_dirwire sample_dir_size length_dirwire)

text \<open>
  On any bytes at all, checked or not, \<^verbatim>\<open>convM2D\<close> stays inside the buffer and inside a string
  memory as large as the buffer; without a string memory it writes no memory at all.
\<close>

theorem convM2D_never_faults:
  assumes "length b \<le> length mem"
  shows "fst (convM2D True (at_start b, at_start mem)) \<noteq> Inl Fault
    \<and> fst (convM2D False (at_start b, m)) \<noteq> Inl Fault
    \<and> snd (snd (convM2D False (at_start b, m))) = m"
proof (intro conjI)
  have c: "in_range (at_start b)" by (simp add: in_range_def at_start_def)
  have "wp (convM2D True) (\<lambda>_ _. True) (\<lambda>e _. e \<noteq> Fault) (at_start b, at_start mem)"
  proof (cases "length b < 49")
    case False
    have f: "cp (at_start mem) + length (pending c') \<le> length (cbuf (at_start mem))"
      if "drop 2 (pending (at_start b)) = enc_fixed (d :: unit Dir) @ pending c'" for d c'
      using arg_cong [OF that, of length] assms by (simp add: pending_def)
    show ?thesis
      unfolding convM2D_def
      apply (simp add: wp_flow wp_on_fst False)
      apply (rule convM2D_fixed_wp_dec [OF c])
      using False apply (simp add: pending_def at_start_def)
      apply (drule f, simp add: wp_flow)
      apply (rule convM2D_str_wp_dec, assumption, simp)+
      apply (simp add: wp_flow wp_on_fst)
      done
  qed (simp add: convM2D_def wp_flow wp_on_fst)
  then show "fst (convM2D True (at_start b, at_start mem)) \<noteq> Inl Fault"
    by (auto simp: wp_def split: prod.splits)
  have "wp (convM2D False) (\<lambda>_ s. snd s = m) (\<lambda>e s. e \<noteq> Fault \<and> snd s = m) (at_start b, m)"
  proof (cases "length b < 49")
    case False
    show ?thesis
      unfolding convM2D_def
      apply (simp add: wp_flow wp_on_fst False)
      apply (rule convM2D_fixed_wp_dec [OF c])
      using False apply (simp add: pending_def at_start_def)
      apply (simp add: wp_flow)
      apply (rule convM2D_str_none_dec, assumption)+
      apply (simp add: wp_flow wp_on_fst)
      done
  qed (simp add: convM2D_def wp_flow wp_on_fst)
  then show "fst (convM2D False (at_start b, m)) \<noteq> Inl Fault" "snd (snd (convM2D False (at_start b, m))) = m"
    by (auto simp: wp_def split: prod.splits sum.splits)
qed

theorem convM2D_never_faults_witness:
  "fst (convM2D True (at_start (replicate 60 0xFF), at_start (replicate 60 0))) \<noteq> Inl Fault
    \<and> fst (convM2D False (at_start (replicate 60 0xFF), at_start [])) \<noteq> Inl Fault
    \<and> snd (snd (convM2D False (at_start (replicate 60 0xFF), at_start []))) = at_start []"
  using convM2D_never_faults [of "replicate 60 0xFF" "replicate 60 0" "at_start []"] by simp

text \<open>
  When the entry does not fit, \<^verbatim>\<open>convD2M\<close> returns 2 and has written nothing but the count, as
  its comment promises: the count is the size needed, less its own two bytes, modulo 64 KB.
\<close>

theorem convD2M_tells_size:
  assumes "2 \<le> length buf" and "length buf < sizeD2M d"
  shows "\<exists>c. convD2M d (at_start buf) = (Inl (Return 2), c)
    \<and> unat (GBIT16 (take 2 (cbuf c))) = (sizeD2M d - 2) mod 2 ^ 16 \<and> drop 2 (cbuf c) = drop 2 buf"
proof -
  let ?w = "wrote (at_start buf) (PBIT16 (of_nat (sizeD2M d - 2)))"
  have "take 2 (cbuf ?w) = PBIT16 (of_nat (sizeD2M d - 2))" "drop 2 (cbuf ?w) = drop 2 buf"
    by (simp_all add: wrote_def at_start_def overwrite_def numeral_2_eq_2)
  then show ?thesis
    unfolding convD2M_short [OF assms] by (simp add: unat_of_nat del: of_nat_diff)
qed

theorem convD2M_tells_size_witness:
  "\<exists>c. convD2M sample_dir (at_start [0, 0, 7]) = (Inl (Return 2), c)
    \<and> unat (GBIT16 (take 2 (cbuf c))) = 51 \<and> drop 2 (cbuf c) = [7]"
  using convD2M_tells_size [of "[0, 0, 7]" sample_dir] by (simp add: sample_dir_size)

end
