(* ===== verification/Kern.thy ===== *)
theory Kern
  imports Prelude "HOL-Library.Signed_Division"
begin

unbundle bit_operations_syntax

text \<open>
  The kernel state that the block and queue code of \<^verbatim>\<open>sys/src/kern/port\<close> works on, and the
  primitive statements of that code: dereferencing a queue pointer, spin locks and queue locks,
  \<^verbatim>\<open>sleep\<close> and \<^verbatim>\<open>wakeup\<close>, callbacks.

  Blocks are values: a chain \<^verbatim>\<open>bp, bp->next, ...\<close> is a list, and a block belongs to one chain.
  Every block carries an identity \<open>b_id\<close>, given at allocation, and the state keeps the set
  \<open>klive\<close> of identities allocated and not freed, so that a double free and a leak are visible.
  The pointers of a block are offsets from its \<^verbatim>\<open>base\<close>; an access outside \<^verbatim>\<open>base..lim\<close> is a
  \<open>Fault\<close>. C integers are \<open>int\<close>: the lengths of chains and queues are taken to stay below 2 GB.
  The statistics counters and the debugging code under \<^verbatim>\<open>QDEBUG\<close> are left out.
\<close>

section \<open>Data\<close>

record Block =
  b_id :: nat
  b_mem :: bytes
  b_rp :: int
  b_wp :: int
  b_flag :: u16
  b_free :: bool

definition BLEN :: "Block \<Rightarrow> int" where
  "BLEN b = b_wp b - b_rp b"

definition BALLOC :: "Block \<Rightarrow> int" where
  "BALLOC b = int (length (b_mem b))"

definition Qstarve :: nat where "Qstarve = 0"
definition Qmsg :: nat where "Qmsg = 1"
definition Qclosed :: nat where "Qclosed = 2"
definition Qflow :: nat where "Qflow = 3"
definition Qcoalesce :: nat where "Qcoalesce = 4"
definition Qkick :: nat where "Qkick = 5"

text \<open>
  The flags are named by their bit number in \<^verbatim>\<open>state\<close>. \<open>blast\<close> is the identity of the block that
  the pointer \<^verbatim>\<open>blast\<close> points to; \<open>q_kick\<close> and \<open>q_bypass\<close> tell whether the function pointers are set.
\<close>

record Queue =
  bfirst :: "Block list"
  blast :: nat
  q_len :: int
  q_dlen :: int
  q_limit :: int
  q_inilim :: int
  q_state :: u32
  q_noblock :: int
  q_eof :: int
  q_kick :: bool
  q_bypass :: bool
  q_err :: string

datatype kevent = Wakeup_rr nat | Wakeup_wr nat | Kick nat | Bypass nat "nat list" | Driver_free nat

text \<open>
  \<open>kmalloc k n\<close> is the answer of the pool allocator to its \<open>k\<close>th call, for \<open>n\<close> bytes: an address
  and the memory there, as much as \<^verbatim>\<open>msize\<close> reports, or nil. \<open>knerr\<close> is the static counter of
  \<^verbatim>\<open>iallocb\<close>; \<open>kup\<close>, \<open>knlocks\<close> and \<open>kislo\<close> are
  \<^verbatim>\<open>up != nil\<close>, \<^verbatim>\<open>up->nlocks\<close> and \<^verbatim>\<open>islo()\<close>; \<open>kexiting\<close> that \<^verbatim>\<open>up->procctl\<close> asks the process
  to exit; \<open>kilocks\<close> the queues whose spin lock is held,
  \<open>kqlocks\<close> the queue locks held by this process (\<^verbatim>\<open>rlock\<close> is \<open>True\<close>).
\<close>

record kst =
  kmalloc :: "nat \<Rightarrow> nat \<Rightarrow> (int \<times> bytes) option"
  kcalls :: nat
  knerr :: u32
  klive :: "nat set"
  kup :: bool
  knlocks :: nat
  kislo :: bool
  kexiting :: bool
  kilocks :: "nat list"
  kqlocks :: "(nat \<times> bool) list"
  ktrace :: "kevent list"
  kqueues :: "nat \<rightharpoonup> Queue"

text \<open>
  What happens while this process sleeps: the other processes and interrupts change the state
  and wake it up, or it gets a note. The callbacks of a queue are given with the state.
\<close>

datatype 's event = Run "'s \<Rightarrow> 's" | Note

record world = kst +
  kenv :: "kst event list"
  kkick :: "nat \<Rightarrow> kst \<Rightarrow> kst"
  kbypass :: "nat \<Rightarrow> Block list \<Rightarrow> kst \<Rightarrow> kst"

text \<open>\<open>Blocked\<close>: the process sleeps and nothing left in \<open>kenv\<close> wakes it.\<close>

datatype kexc = Error string | Panic | Fault | Blocked

type_synonym 'a kern = "(world, kexc, 'a) sem"

definition Ehungup :: string where "Ehungup = ''i/o on hungup channel''"
definition Eintr :: string where "Eintr = ''interrupted''"
definition Egreg :: string where "Egreg = ''ken has left the building''"

section \<open>Statements\<close>

definition on_kst :: "(kst \<Rightarrow> kst) \<Rightarrow> world \<Rightarrow> world" where
  "on_kst f w = kst.extend (f (kst.truncate w)) (kst.more w)"

definition qf :: "nat \<Rightarrow> (Queue \<Rightarrow> 'a) \<Rightarrow> 'a kern" where
  "qf q f = (\<lambda>w. case kqueues w q of None \<Rightarrow> (Inl Fault, w) | Some r \<Rightarrow> (Inr (f r), w))"

definition qset :: "nat \<Rightarrow> (Queue \<Rightarrow> Queue) \<Rightarrow> unit kern" where
  "qset q f = (\<lambda>w. case kqueues w q of None \<Rightarrow> (Inl Fault, w)
     | Some r \<Rightarrow> (Inr (), w\<lparr>kqueues := (kqueues w)(q \<mapsto> f r)\<rparr>))"

definition q_has :: "nat \<Rightarrow> Queue \<Rightarrow> bool" where
  "q_has fl r = bit (q_state r) fl"

definition q_raise :: "nat \<Rightarrow> Queue \<Rightarrow> Queue" where
  "q_raise fl r = r\<lparr>q_state := set_bit fl (q_state r)\<rparr>"

definition q_clear :: "nat \<Rightarrow> Queue \<Rightarrow> Queue" where
  "q_clear fl r = r\<lparr>q_state := unset_bit fl (q_state r)\<rparr>"

definition emit :: "kevent \<Rightarrow> unit kern" where
  "emit e = modify (\<lambda>w. w\<lparr>ktrace := ktrace w @ [e]\<rparr>)"

definition ilock :: "nat \<Rightarrow> unit kern" where
  "ilock q = and_then (fetch kilocks) (\<lambda>ls. if q \<in> set ls then raise Blocked
     else modify (\<lambda>w. w\<lparr>kilocks := q # ls\<rparr>))"

definition iunlock :: "nat \<Rightarrow> unit kern" where
  "iunlock q = and_then (fetch kilocks) (\<lambda>ls. if q \<in> set ls
     then modify (\<lambda>w. w\<lparr>kilocks := remove1 q ls\<rparr>) else raise Panic)"

definition eqlock :: "nat \<times> bool \<Rightarrow> unit kern" where
  "eqlock l = and_then (fetch kqlocks) (\<lambda>ls. if l \<in> set ls then raise Blocked
     else modify (\<lambda>w. w\<lparr>kqlocks := l # ls\<rparr>))"

definition qunlock :: "nat \<times> bool \<Rightarrow> unit kern" where
  "qunlock l = and_then (fetch kqlocks) (\<lambda>ls. if l \<in> set ls
     then modify (\<lambda>w. w\<lparr>kqlocks := remove1 l ls\<rparr>) else raise Panic)"

text \<open>
  \<open>doze\<close> gives up the processor until the next event; with a spin lock held that is a panic.
  \<^verbatim>\<open>sleep(r, cond, q)\<close> returns at once when the condition holds.
\<close>

definition doze :: "unit kern" where
  "doze = (\<lambda>w. if kilocks w \<noteq> [] then (Inl Panic, w) else case kenv w of
     [] \<Rightarrow> (Inl Blocked, w)
   | Note # es \<Rightarrow> (Inl (Error Eintr), w\<lparr>kenv := es\<rparr>)
   | Run f # es \<Rightarrow> (Inr (), on_kst f (w\<lparr>kenv := es\<rparr>)))"

definition sleep_on :: "nat \<Rightarrow> (Queue \<Rightarrow> bool) \<Rightarrow> unit kern" where
  "sleep_on q cond = and_then (qf q cond) (\<lambda>c. if c then ret () else doze)"

text \<open>
  \<^verbatim>\<open>if(waserror()){ h; nexterror(); }\<close> around \<open>m\<close>: an \<^verbatim>\<open>error()\<close> in \<open>m\<close> runs \<open>h\<close> and is raised again. A
  panic, or a process still asleep, runs no handler.
\<close>

definition on_Error :: "'a kern \<Rightarrow> unit kern \<Rightarrow> 'a kern" where
  "on_Error m h = (\<lambda>w. case m w of
     (Inl (Error e), w') \<Rightarrow> seq h (raise (Error e)) w'
   | r \<Rightarrow> r)"

definition call_kick :: "nat \<Rightarrow> unit kern" where
  "call_kick q = seq (emit (Kick q)) (modify (\<lambda>w. on_kst (kkick w q) w))"

definition call_bypass :: "nat \<Rightarrow> Block list \<Rightarrow> unit kern" where
  "call_bypass q bs = seq (emit (Bypass q (map b_id bs))) (modify (\<lambda>w. on_kst (kbypass w q bs) w))"

definition wakeup_rr :: "nat \<Rightarrow> unit kern" where
  "wakeup_rr q = emit (Wakeup_rr q)"

definition wakeup_wr :: "nat \<Rightarrow> unit kern" where
  "wakeup_wr q = emit (Wakeup_wr q)"

section \<open>Strings\<close>

abbreviation ERRMAX :: nat where "ERRMAX \<equiv> 128"

text \<open>
  \<^verbatim>\<open>kstrcpy\<close>: the C string left in a buffer of \<open>ns\<close> bytes; a long string is cut at the start of a
  UTF-8 sequence and marked with dots.
\<close>

definition continuation :: "char \<Rightarrow> bool" where
  "continuation c \<longleftrightarrow> (of_char c :: u8) AND 0xC0 = 0x80"

fun back_up :: "string \<Rightarrow> nat \<Rightarrow> nat" where
  "back_up s 0 = 0"
| "back_up s (Suc n) = (if continuation (s ! n) then back_up s n else n)"

definition kstrcpy :: "string \<Rightarrow> nat \<Rightarrow> string" where
  "kstrcpy t ns =
     (if length t + 1 \<le> ns then t
      else if ns < 4 then take ns t
      else take (back_up t (ns - 4)) t @ ''...'')"

section \<open>Weakest preconditions\<close>

lemma wp_qf: "wp (qf q f) Q E w = (case kqueues w q of None \<Rightarrow> E Fault w | Some r \<Rightarrow> Q (f r) w)"
  by (simp add: wp_def qf_def split: option.splits)

lemma wp_qset:
  "wp (qset q f) Q E w =
     (case kqueues w q of None \<Rightarrow> E Fault w | Some r \<Rightarrow> Q () (w\<lparr>kqueues := (kqueues w)(q \<mapsto> f r)\<rparr>))"
  by (simp add: wp_def qset_def split: option.splits)

lemma wp_on_Error:
  "wp (on_Error m h) Q E w = wp m Q (\<lambda>e w'. case e of Error s \<Rightarrow> wp h (\<lambda>_. E (Error s)) E w' | _ \<Rightarrow> E e w') w"
  by (auto simp: wp_def on_Error_def seq_def and_then_def raise_def split: prod.splits sum.splits kexc.splits)

lemma wp_emit: "wp (emit e) Q E w = Q () (w\<lparr>ktrace := ktrace w @ [e]\<rparr>)"
  by (simp add: emit_def wp_flow)

lemma wp_ilock: "q \<notin> set (kilocks w) \<Longrightarrow> wp (ilock q) Q E w = Q () (w\<lparr>kilocks := q # kilocks w\<rparr>)"
  by (simp add: ilock_def wp_flow)

lemma wp_iunlock: "kilocks w = q # ls \<Longrightarrow> wp (iunlock q) Q E w = Q () (w\<lparr>kilocks := ls\<rparr>)"
  by (simp add: iunlock_def wp_flow)

lemma wp_eqlock: "l \<notin> set (kqlocks w) \<Longrightarrow> wp (eqlock l) Q E w = Q () (w\<lparr>kqlocks := l # kqlocks w\<rparr>)"
  by (simp add: eqlock_def wp_flow)

lemma wp_qunlock: "kqlocks w = l # ls \<Longrightarrow> wp (qunlock l) Q E w = Q () (w\<lparr>kqlocks := ls\<rparr>)"
  by (simp add: qunlock_def wp_flow)

end
