(* ===== verification/Blocks.thy ===== *)
theory Blocks
  imports Kern
begin

unbundle bit_operations_syntax

text \<open>
  Blocks: the allocator of \<^verbatim>\<open>sys/src/kern/port/allocb.c\<close> and the routines on chains of blocks of
  \<^verbatim>\<open>sys/src/kern/port/qio.c\<close>. A nil block pointer is the empty list, and using it a \<open>Fault\<close>.
\<close>

section \<open>Allocation\<close>

abbreviation Hdrspc :: int where "Hdrspc \<equiv> 64"
abbreviation Tlrspc :: int where "Tlrspc \<equiv> 16"
abbreviation BLOCKALIGN :: int where "BLOCKALIGN \<equiv> 8"
abbreviation sizeof_Block :: int where "sizeof_Block \<equiv> 128"
abbreviation BINTR :: u16 where "BINTR \<equiv> 1"

definition ROUND :: "int \<Rightarrow> int \<Rightarrow> int" where
  "ROUND s sz = (s + (sz - 1)) AND NOT (sz - 1)"

definition malloc :: "int \<Rightarrow> (int \<times> bytes) option kern" where
  "malloc n = and_then (fetch (\<lambda>w. kmalloc w (kcalls w) (nat (n mod 2 ^ 32)))) (\<lambda>a.
     seq (modify (\<lambda>w. w\<lparr>kcalls := kcalls w + 1\<rparr>)) (ret a))"

text \<open>The C \<^verbatim>\<open>int\<close>, with 32 bits.\<close>

definition int32 :: "int \<Rightarrow> int" where
  "int32 x = sint (of_int x :: 32 word)"

text \<open>
  \<^verbatim>\<open>_allocb\<close>; the new block is known by the number of the call that allocated it. Its sizes are 32-bit integers: for the last 23 sizes below
  \<open>2 ^ 31\<close> they wrap, and the block that is made begins behind its memory.
\<close>

definition try_allocb :: "int \<Rightarrow> Block option kern" where
  "try_allocb sz = (let size = int32 (sz + Tlrspc) in
     and_then (fetch kcalls) (\<lambda>k.
     and_then (malloc (sizeof_Block + size + Hdrspc)) (\<lambda>a. case a of
       None \<Rightarrow> ret None
     | Some (addr, mem) \<Rightarrow>
         let base = ROUND (addr + sizeof_Block) BLOCKALIGN;
             lim = (addr + int (length mem)) AND NOT (BLOCKALIGN - 1);
             rp = lim - int32 (ROUND size BLOCKALIGN)
         in seq (modify (\<lambda>w. w\<lparr>klive := insert k (klive w)\<rparr>))
           (if rp < base then raise Panic
            else ret (Some \<lparr>b_id = k, b_mem = take (nat (lim - base)) (drop (nat (base - addr)) mem),
              b_rp = rp - base, b_wp = rp - base, b_flag = 0, b_free = False\<rparr>)))))"

text \<open>
  The loop of \<^verbatim>\<open>allocb\<close> waits for memory, ignoring notes. Each wait uses up an event, so the
  length of \<open>kenv\<close> bounds the rounds.
\<close>

definition resrcwait :: "unit kern" where
  "resrcwait = (\<lambda>w. case doze w of (Inl (Error _), w') \<Rightarrow> (Inr (), w') | r \<Rightarrow> r)"

fun alloc_loop :: "nat \<Rightarrow> int \<Rightarrow> Block kern" where
  "alloc_loop n sz = and_then (try_allocb sz) (\<lambda>b. case b of
     Some b \<Rightarrow> ret b
   | None \<Rightarrow> and_then (fetch (\<lambda>w. knlocks w \<noteq> 0 \<or> kilocks w \<noteq> [] \<or> \<not> kislo w)) (\<lambda>stuck.
       if stuck then raise Panic
       else seq resrcwait (case n of 0 \<Rightarrow> raise Blocked | Suc m \<Rightarrow> alloc_loop m sz)))"

declare alloc_loop.simps [simp del]

definition allocb :: "int \<Rightarrow> Block kern" where
  "allocb sz = and_then (fetch (\<lambda>w. (kup w, length (kenv w)))) (\<lambda>(up, n).
     if \<not> up then raise Panic else alloc_loop n sz)"

definition iallocb :: "int \<Rightarrow> Block option kern" where
  "iallocb sz = and_then (try_allocb sz) (\<lambda>b. case b of
     None \<Rightarrow> and_then (fetch knerr) (\<lambda>nerr.
       seq (modify (\<lambda>w. w\<lparr>knerr := nerr + 1\<rparr>))
       (if nerr mod 10000 = 0 \<and> nerr + 1 > 10000000 then raise Panic else ret None))
   | Some b \<Rightarrow> ret (Some (b\<lparr>b_flag := BINTR\<rparr>)))"

text \<open>
  \<^verbatim>\<open>freeb\<close>: to the driver's own routine or to the pool. Freeing what is not allocated corrupts the
  pool: a \<open>Fault\<close>.
\<close>

definition freeb :: "Block \<Rightarrow> unit kern" where
  "freeb b = and_then (fetch klive) (\<lambda>live.
     if b_id b \<notin> live then raise Fault
     else seq (modify (\<lambda>w. w\<lparr>klive := live - {b_id b}\<rparr>))
       (if b_free b then emit (Driver_free (b_id b)) else ret ()))"

definition checkb :: "Block \<Rightarrow> unit kern" where
  "checkb b = and_then (fetch klive) (\<lambda>live.
     if b_id b \<notin> live then raise Panic
     else if b_rp b < 0 then raise Panic
     else if b_wp b < 0 then raise Panic
     else if b_rp b > BALLOC b then raise Panic
     else if b_wp b > BALLOC b then raise Panic
     else ret ())"

section \<open>Memory of blocks\<close>

text \<open>\<^verbatim>\<open>memmove(nb->wp, src + p, n); nb->wp += n\<close>\<close>

definition bread :: "Block \<Rightarrow> int \<Rightarrow> int \<Rightarrow> bytes kern" where
  "bread b p n = (if 0 \<le> p \<and> 0 \<le> n \<and> p + n \<le> BALLOC b
     then ret (take (nat n) (drop (nat p) (b_mem b))) else raise Fault)"

definition bput :: "Block \<Rightarrow> bytes \<Rightarrow> Block kern" where
  "bput b bs = (if 0 \<le> b_wp b \<and> b_wp b + int (length bs) \<le> BALLOC b
     then ret (b\<lparr>b_mem := overwrite (b_mem b) (nat (b_wp b)) bs, b_wp := b_wp b + int (length bs)\<rparr>)
     else raise Fault)"

definition bmove :: "Block \<Rightarrow> Block \<Rightarrow> int \<Rightarrow> int \<Rightarrow> Block kern" where
  "bmove nb src p n = and_then (bread src p n) (bput nb)"

section \<open>Chains\<close>

definition freeblist :: "Block list \<Rightarrow> unit kern" where
  "freeblist bs = for_each freeb bs"

fun padblock :: "Block list \<Rightarrow> int \<Rightarrow> Block list kern" where
  "padblock [] sz = raise Fault"
| "padblock (bp # nxt) sz =
    (if sz \<ge> 0 then
       if b_rp bp \<ge> sz then ret (bp\<lparr>b_rp := b_rp bp - sz\<rparr> # nxt)
       else let n = BLEN bp in
         and_then (allocb (int32 (sz + n))) (\<lambda>nbp.
         let nbp = nbp\<lparr>b_rp := b_rp nbp + sz, b_wp := b_rp nbp + sz\<rparr> in
         and_then (bmove nbp bp (b_rp bp) n) (\<lambda>nbp.
         seq (freeb bp)
         (ret (nbp\<lparr>b_rp := b_rp nbp - sz\<rparr> # nxt))))
     else
       if BALLOC bp - b_wp bp \<ge> - sz then ret (bp # nxt)
       else let n = BLEN bp in
         and_then (allocb (int32 (n + - sz))) (\<lambda>nbp.
         and_then (bmove nbp bp (b_rp bp) n) (\<lambda>nbp.
         seq (freeb bp)
         (ret (nbp # nxt)))))"

definition blocklen :: "Block list \<Rightarrow> int" where
  "blocklen bs = sum_list (map BLEN bs)"

definition blockalloclen :: "Block list \<Rightarrow> int" where
  "blockalloclen bs = sum_list (map BALLOC bs)"

text \<open>The copying loop of \<^verbatim>\<open>pullupblock\<close>: \<open>n\<close> bytes are still wanted in \<open>bp\<close>.\<close>

fun pull_loop :: "Block \<Rightarrow> int \<Rightarrow> Block list \<Rightarrow> Block list kern" where
  "pull_loop bp n [] = seq (freeb bp) (ret [])"
| "pull_loop bp n (nbp # nxt) = (let i = BLEN nbp in
     if i > n then and_then (bmove bp nbp (b_rp nbp) n) (\<lambda>bp.
       ret (bp # nbp\<lparr>b_rp := b_rp nbp + n\<rparr> # nxt))
     else let i = (if i < 0 then 0 else i) in
       and_then (bmove bp nbp (b_rp nbp) i) (\<lambda>bp.
       seq (freeb nbp)
       (if n - i = 0 then ret (bp # nxt) else pull_loop bp (n - i) nxt)))"

fun pullupblock :: "Block list \<Rightarrow> int \<Rightarrow> Block list kern" where
  "pullupblock [] n = raise Fault"
| "pullupblock (bp # nxt) n =
    (if BLEN bp \<ge> n then ret (bp # nxt)
     else if BALLOC bp - b_rp bp < n then
       and_then (allocb n) (\<lambda>nbp. pull_loop nbp (n - BLEN nbp) (bp # nxt))
     else pull_loop bp (n - BLEN bp) nxt)"

fun concatblock :: "Block list \<Rightarrow> Block list kern" where
  "concatblock [] = raise Fault"
| "concatblock [bp] = ret [bp]"
| "concatblock (bp # nxt) = pullupblock (bp # nxt) (blocklen (bp # nxt))"

text \<open>
  \<^verbatim>\<open>trimblock\<close>: its \<^verbatim>\<open>unsigned int l\<close> makes both loop tests unsigned. The second loop keeps the
  blocks it passes; they are returned in front of the last one.
\<close>

definition u32_less :: "int \<Rightarrow> int \<Rightarrow> bool" where
  "u32_less a b \<longleftrightarrow> (of_int a :: u32) < of_int b"

fun trim_front :: "Block list \<Rightarrow> int \<Rightarrow> (int \<times> Block list) kern" where
  "trim_front [] offset = raise Fault"
| "trim_front (bp # nxt) offset =
    (if u32_less (BLEN bp) offset then seq (freeb bp) (trim_front nxt (offset - BLEN bp))
     else ret (offset, bp # nxt))"

fun trim_back :: "Block list \<Rightarrow> int \<Rightarrow> Block list kern" where
  "trim_back [] len = raise Fault"
| "trim_back (bp # nxt) len =
    (if u32_less (BLEN bp) len then and_then (trim_back nxt (len - BLEN bp)) (\<lambda>r. ret (bp # r))
     else seq (freeblist nxt) (ret [bp\<lparr>b_wp := b_wp bp - (BLEN bp - len)\<rparr>]))"

definition trimblock :: "Block list \<Rightarrow> int \<Rightarrow> int \<Rightarrow> Block list kern" where
  "trimblock bs offset len =
     (if blocklen bs < int32 (offset + len) then seq (freeblist bs) (ret [])
      else and_then (trim_front bs offset) (\<lambda>(offset, bs). case bs of
          [] \<Rightarrow> raise Fault
        | bp # nxt \<Rightarrow> trim_back (bp\<lparr>b_rp := b_rp bp + offset\<rparr> # nxt) len))"

fun copy_loop :: "Block \<Rightarrow> int \<Rightarrow> Block list \<Rightarrow> (int \<times> Block) kern" where
  "copy_loop nbp count [] = ret (count, nbp)"
| "copy_loop nbp count (bp # nxt) =
    (if count > 0 then
       let l = (if BLEN bp > count then count else BLEN bp) in
       and_then (bmove nbp bp (b_rp bp) l) (\<lambda>nbp. copy_loop nbp (count - l) nxt)
     else ret (count, nbp))"

definition copyblock :: "Block list \<Rightarrow> int \<Rightarrow> Block kern" where
  "copyblock bs count =
     and_then (allocb count) (\<lambda>nbp.
     and_then (copy_loop nbp count bs) (\<lambda>(count, nbp).
     if count > 0 then bput nbp (replicate (nat count) 0) else ret nbp))"

text \<open>\<^verbatim>\<open>memset(bp->wp, 0, len-n)\<close> leaves \<open>b_wp\<close> where it is; it is set afterwards.\<close>

fun adjustblock :: "Block list \<Rightarrow> int \<Rightarrow> Block list kern" where
  "adjustblock [] len = raise Fault"
| "adjustblock (bp # nxt) len =
    (if len < 0 then seq (freeb bp) (ret [])
     else if b_rp bp + len > BALLOC bp then
       and_then (copyblock (bp # nxt) len) (\<lambda>nbp.
       seq (freeblist (bp # nxt)) (ret [nbp]))
     else let n = BLEN bp in
       and_then (if len > n then bput bp (replicate (nat (len - n)) 0) else ret bp) (\<lambda>bp.
       ret (bp\<lparr>b_wp := b_rp bp + len\<rparr> # nxt)))"

text \<open>The result is the count of bytes thrown away and what is left in \<^verbatim>\<open>*bph\<close>.\<close>

fun pullblock :: "Block list \<Rightarrow> int \<Rightarrow> (int \<times> Block list) kern" where
  "pullblock [] count = ret (0, [])"
| "pullblock (bp # nxt) count =
    (if count = 0 then ret (0, bp # nxt)
     else let n = (if count < BLEN bp then count else BLEN bp);
              bp = bp\<lparr>b_rp := b_rp bp + n\<rparr>
       in if BLEN bp = 0 then seq (freeb bp) (and_then (pullblock nxt (count - n)) (\<lambda>(m, r). ret (n + m, r)))
          else ret (n, bp # nxt))"

fun packblock :: "Block list \<Rightarrow> Block list kern" where
  "packblock [] = ret []"
| "packblock (nbp # nxt) = (let n = BLEN nbp in
     and_then
      (if n * 4 < BALLOC nbp then
         and_then (allocb n) (\<lambda>l.
         and_then (bmove l nbp (b_rp nbp) n) (\<lambda>l.
         seq (freeb nbp) (ret l)))
       else ret nbp) (\<lambda>l.
     and_then (packblock nxt) (\<lambda>r. ret (l # r))))"

text \<open>
  \<^verbatim>\<open>readblist\<close> copies into the caller's memory; the result is the bytes copied, so \<^verbatim>\<open>r\<close> is their
  number. \<^verbatim>\<open>m\<close>, \<^verbatim>\<open>r\<close> and \<^verbatim>\<open>o\<close> are unsigned.
\<close>

fun readblist :: "Block list \<Rightarrow> int \<Rightarrow> int \<Rightarrow> bytes kern" where
  "readblist [] n off = ret []"
| "readblist (b # nxt) n off =
    (if n > 0 then let m = BLEN b in
       if off \<ge> m then readblist nxt n (off - m)
       else let m = m - off; m = (if n < m then n else m) in
         and_then (bread b (b_rp b + off) m) (\<lambda>x.
         and_then (readblist nxt (n - m) 0) (\<lambda>r. ret (x @ r)))
     else ret [])"

text \<open>\<^verbatim>\<open>splitblock\<close>: the result is what \<^verbatim>\<open>*h\<close> becomes, and the block returned.\<close>

definition splitblock :: "Block \<Rightarrow> int \<Rightarrow> (Block \<times> Block) kern" where
  "splitblock a n = (let m = BLEN a - n in
     if m < n then
       and_then (allocb m) (\<lambda>b.
       and_then (bmove b a (b_rp a) m) (\<lambda>b.
       ret (b, a\<lparr>b_rp := b_rp a + m\<rparr>)))
     else
       and_then (allocb n) (\<lambda>b.
       let a = a\<lparr>b_wp := b_wp a - n\<rparr> in
       and_then (bmove b a (b_wp a) n) (\<lambda>b.
       ret (a, b))))"

end
