(* ===== verification/Queues.thy ===== *)
theory Queues
  imports Blocks
begin

unbundle bit_operations_syntax

text \<open>
  The I/O queues of \<^verbatim>\<open>sys/src/kern/port/qio.c\<close>, in the order of the file. A queue is named by its
  pointer; its record is in \<open>kqueues\<close>. Where the C returns a count and fills the caller's memory,
  the model returns the bytes. The queue pointers are never nil here: \<^verbatim>\<open>qclose\<close>'s test for nil is left out.
\<close>

section \<open>Shared pieces\<close>

text \<open>\<^verbatim>\<open>if((q->state & Qflow) && ...){ q->state &= ~Qflow; dowakeup = 1; } else dowakeup = 0;\<close>\<close>

definition restart_writer :: "nat \<Rightarrow> (Queue \<Rightarrow> bool) \<Rightarrow> bool kern" where
  "restart_writer q below = and_then (qf q (\<lambda>r. q_has Qflow r \<and> below r)) (\<lambda>c.
     if c then seq (qset q (q_clear Qflow)) (ret True) else ret False)"

definition half_empty :: "Queue \<Rightarrow> bool" where
  "half_empty r \<longleftrightarrow> q_len r < q_limit r sdiv 2"

text \<open>\<^verbatim>\<open>if(q->state & Qstarve){ q->state &= ~Qstarve; dowakeup = 1; }\<close>\<close>

definition feed_reader :: "nat \<Rightarrow> bool kern" where
  "feed_reader q = and_then (qf q (q_has Qstarve)) (\<lambda>c.
     if c then seq (qset q (q_clear Qstarve)) (ret True) else ret False)"

definition only_if :: "bool \<Rightarrow> unit kern \<Rightarrow> unit kern" where
  "only_if c m = (if c then m else ret ())"

text \<open>\<^verbatim>\<open>q->bfirst = b->next; q->len -= BALLOC(b); q->dlen -= BLEN(b)\<close>\<close>

definition unlink_first :: "Block \<Rightarrow> Block list \<Rightarrow> Queue \<Rightarrow> Queue" where
  "unlink_first b nxt r = r\<lparr>bfirst := nxt, q_len := q_len r - BALLOC b, q_dlen := q_dlen r - BLEN b\<rparr>"

section \<open>Taking from a queue at interrupt level\<close>

definition pullupqueue :: "nat \<Rightarrow> int \<Rightarrow> Block list kern" where
  "pullupqueue q n = and_then (qf q bfirst) (\<lambda>bs. case bs of
     [] \<Rightarrow> raise Fault
   | b # _ \<Rightarrow>
     if BLEN b \<ge> n then ret bs
     else and_then (pullupblock bs n) (\<lambda>bs.
       seq (qset q (\<lambda>r. r\<lparr>bfirst := bs, blast := (if bs = [] then 0 else b_id (last bs))\<rparr>))
       (ret bs)))"

definition qget :: "nat \<Rightarrow> Block option kern" where
  "qget q = seq (ilock q) (and_then (qf q bfirst) (\<lambda>bs. case bs of
     [] \<Rightarrow> seq (qset q (q_raise Qstarve)) (seq (iunlock q) (ret None))
   | b # nxt \<Rightarrow>
     seq (qset q (unlink_first b nxt))
    (and_then (restart_writer q half_empty) (\<lambda>dowakeup.
     seq (iunlock q)
    (seq (only_if dowakeup (wakeup_wr q))
    (ret (Some b)))))))"

fun discard_loop :: "nat \<Rightarrow> int \<Rightarrow> int \<Rightarrow> Block list \<Rightarrow> Block list \<Rightarrow> (int \<times> Block list) kern" where
  "discard_loop q len sofar [] tofree = ret (sofar, tofree)"
| "discard_loop q len sofar (b # nxt) tofree =
    (if sofar < len then let n = BLEN b in
       if n \<le> len - sofar then
         seq (qset q (unlink_first b nxt)) (discard_loop q len (sofar + n) nxt (b # tofree))
       else let n = len - sofar in
         seq (qset q (\<lambda>r. r\<lparr>bfirst := b\<lparr>b_rp := b_rp b + n\<rparr> # nxt, q_dlen := q_dlen r - n\<rparr>))
         (ret (sofar + n, tofree))
     else ret (sofar, tofree))"

definition qdiscard :: "nat \<Rightarrow> int \<Rightarrow> int kern" where
  "qdiscard q len =
     seq (ilock q)
    (and_then (qf q bfirst) (\<lambda>bs.
     and_then (discard_loop q len 0 bs []) (\<lambda>(sofar, tofree).
     and_then (restart_writer q (\<lambda>r. q_len r < q_limit r)) (\<lambda>dowakeup.
     seq (iunlock q)
    (seq (only_if dowakeup (wakeup_wr q))
    (seq (freeblist tofree)
    (ret sofar)))))))"

text \<open>The \<^verbatim>\<open>for(;;)\<close> of \<^verbatim>\<open>qconsume\<close> takes empty blocks off; the result is the first block with data.\<close>

fun skip_empty :: "nat \<Rightarrow> Block list \<Rightarrow> Block list \<Rightarrow> ((Block \<times> Block list) option \<times> Block list) kern" where
  "skip_empty q [] tofree = seq (qset q (q_raise Qstarve)) (ret (None, tofree))"
| "skip_empty q (b # nxt) tofree =
    (if BLEN b > 0 then ret (Some (b, nxt), tofree)
     else seq (qset q (\<lambda>r. r\<lparr>bfirst := nxt, q_len := q_len r - BALLOC b\<rparr>)) (skip_empty q nxt (b # tofree)))"

text \<open>The result is the return value and the bytes copied to \<^verbatim>\<open>p\<close>.\<close>

definition consume_first :: "nat \<Rightarrow> Block \<Rightarrow> Block list \<Rightarrow> int \<Rightarrow> Block list \<Rightarrow> ((int \<times> bytes) \<times> Block list) kern" where
  "consume_first q b nxt len tofree = (let n = BLEN b; len = (if n < len then n else len) in
     and_then (bread b (b_rp b) len) (\<lambda>x.
     let b = b\<lparr>b_rp := b_rp b + len\<rparr> in
     seq (qset q (\<lambda>r. r\<lparr>bfirst := b # nxt, q_dlen := q_dlen r - len\<rparr>))
    (and_then (qf q (q_has Qmsg)) (\<lambda>msg.
     if msg \<or> len = n then seq (qset q (unlink_first b nxt)) (ret ((len, x), b # tofree))
     else ret ((len, x), tofree)))))"

definition qconsume :: "nat \<Rightarrow> int \<Rightarrow> (int \<times> bytes) kern" where
  "qconsume q len =
     seq (ilock q)
    (and_then (qf q bfirst) (\<lambda>bs.
     and_then (skip_empty q bs []) (\<lambda>(found, tofree).
     and_then (case found of
         None \<Rightarrow> ret ((-1, []), tofree)
       | Some (b, nxt) \<Rightarrow> consume_first q b nxt len tofree) (\<lambda>(res, tofree).
     and_then (restart_writer q half_empty) (\<lambda>dowakeup.
     seq (iunlock q)
    (seq (only_if dowakeup (wakeup_wr q))
    (seq (freeblist tofree)
    (ret res))))))))"

section \<open>Adding to a queue at interrupt level\<close>

text \<open>
  \<^verbatim>\<open>q->blast->next = b\<close>: the chain of \<^verbatim>\<open>bfirst\<close> is followed to the block \<^verbatim>\<open>blast\<close> points to, and whatever
  was behind it is cut off. A \<^verbatim>\<open>blast\<close> outside the chain is a stray pointer.
\<close>

fun link_after :: "nat \<Rightarrow> Block list \<Rightarrow> Block list \<Rightarrow> Block list option" where
  "link_after l [] bs = None"
| "link_after l (b # nxt) bs =
    (if b_id b = l then Some (b # bs) else map_option (Cons b) (link_after l nxt bs))"

definition qaddlist :: "nat \<Rightarrow> Block list \<Rightarrow> int kern" where
  "qaddlist q bs = (if bs = [] then raise Fault else
     and_then (qf q (\<lambda>r. if bfirst r \<noteq> [] then link_after (blast r) (bfirst r) bs else Some bs)) (\<lambda>l. case l of
       None \<Rightarrow> raise Fault
     | Some l \<Rightarrow>
       seq (qset q (\<lambda>r. r\<lparr>bfirst := l, blast := b_id (last bs),
         q_len := q_len r + blockalloclen bs, q_dlen := q_dlen r + blocklen bs\<rparr>))
       (ret (blocklen bs))))"

definition add_flowing :: "nat \<Rightarrow> Block list \<Rightarrow> int kern" where
  "add_flowing q bs =
     and_then (qaddlist q bs) (\<lambda>len.
     seq (qset q (\<lambda>r. if q_len r \<ge> q_limit r sdiv 2 then q_raise Qflow r else r))
    (and_then (feed_reader q) (\<lambda>dowakeup.
     seq (iunlock q)
    (seq (only_if dowakeup (wakeup_rr q))
    (ret len)))))"

definition qpass :: "nat \<Rightarrow> Block list \<Rightarrow> int kern" where
  "qpass q bs =
     seq (ilock q)
    (and_then (qf q (\<lambda>r. q_len r \<ge> q_limit r)) (\<lambda>full.
     if full then seq (iunlock q) (seq (freeblist bs) (ret (-1)))
     else and_then (qf q (q_has Qclosed)) (\<lambda>closed.
     if closed then seq (iunlock q) (seq (freeblist bs) (ret 0))
     else add_flowing q bs)))"

definition qpassnolim :: "nat \<Rightarrow> Block list \<Rightarrow> int kern" where
  "qpassnolim q bs =
     seq (ilock q)
    (and_then (qf q (q_has Qclosed)) (\<lambda>closed.
     if closed then seq (iunlock q) (seq (freeblist bs) (ret 0))
     else add_flowing q bs))"

definition qproduce :: "nat \<Rightarrow> bytes \<Rightarrow> int kern" where
  "qproduce q p = (let len = int (length p) in
     and_then (iallocb len) (\<lambda>b. case b of
       None \<Rightarrow> ret 0
     | Some b \<Rightarrow>
       seq (ilock q)
      (and_then (qf q (\<lambda>r. q_len r \<ge> q_limit r)) (\<lambda>full.
       if full then seq (qset q (q_raise Qflow)) (seq (iunlock q) (ret (-1)))
       else
         and_then (bput b p) (\<lambda>b.
         and_then (qaddlist q [b]) (\<lambda>_.
         and_then (feed_reader q) (\<lambda>dowakeup.
         seq (qset q (\<lambda>r. if q_len r \<ge> q_limit r then q_raise Qflow r else r))
        (seq (iunlock q)
        (seq (only_if dowakeup (wakeup_rr q))
        (ret len))))))))))"

definition qcopy :: "nat \<Rightarrow> int \<Rightarrow> int \<Rightarrow> Block kern" where
  "qcopy q len offset =
     and_then (allocb len) (\<lambda>b.
     seq (ilock q)
    (and_then (qf q bfirst) (\<lambda>bs.
     and_then (readblist bs len offset) (\<lambda>x.
     and_then (bput b x) (\<lambda>b.
     seq (iunlock q)
    (ret b))))))"

section \<open>Creation\<close>

abbreviation sizeof_Queue :: int where "sizeof_Queue \<equiv> 520"

text \<open>\<^verbatim>\<open>malloc\<close> clears the memory. The pointer is the number of the allocation.\<close>

definition blank_queue :: Queue where
  "blank_queue = \<lparr>bfirst = [], blast = 0, q_len = 0, q_dlen = 0, q_limit = 0, q_inilim = 0, q_state = 0,
     q_noblock = 0, q_eof = 0, q_kick = False, q_bypass = False, q_err = []\<rparr>"

definition new_queue :: "Queue \<Rightarrow> nat option kern" where
  "new_queue r = and_then (fetch kcalls) (\<lambda>k.
     and_then (malloc sizeof_Queue) (\<lambda>a. case a of
       None \<Rightarrow> ret None
     | Some _ \<Rightarrow> seq (modify (\<lambda>w. w\<lparr>kqueues := (kqueues w)(k \<mapsto> r)\<rparr>)) (ret (Some k))))"

definition qopen :: "int \<Rightarrow> u32 \<Rightarrow> bool \<Rightarrow> nat option kern" where
  "qopen limit msg kick = new_queue (blank_queue\<lparr>q_limit := limit, q_inilim := limit, q_kick := kick,
     q_state := set_bit Qstarve msg, q_eof := 0, q_noblock := 0\<rparr>)"

definition qbypass :: "nat option kern" where
  "qbypass = new_queue (blank_queue\<lparr>q_limit := 0, q_bypass := True, q_state := 0\<rparr>)"

section \<open>Waiting and reading\<close>

definition notempty :: "Queue \<Rightarrow> bool" where
  "notempty r \<longleftrightarrow> q_has Qclosed r \<or> bfirst r \<noteq> []"

text \<open>
  Each round of \<^verbatim>\<open>qwait\<close>'s loop that does not return sleeps, and a sleep uses up an event: the length
  of \<open>kenv\<close> bounds the rounds.
\<close>

definition closed_wait :: "nat \<Rightarrow> int kern" where
  "closed_wait q =
     seq (qset q (\<lambda>r. r\<lparr>q_eof := q_eof r + 1\<rparr>))
    (qf q (\<lambda>r. if q_eof r > 3 then -1
       else if q_err r \<noteq> [] \<and> q_err r \<noteq> Ehungup then -1
       else 0))"

fun qwait_loop :: "nat \<Rightarrow> nat \<Rightarrow> int kern" where
  "qwait_loop n q =
     and_then (qf q bfirst) (\<lambda>bs. if bs \<noteq> [] then ret 1 else
     and_then (qf q (q_has Qclosed)) (\<lambda>closed. if closed then closed_wait q else
     seq (qset q (q_raise Qstarve))
    (seq (iunlock q)
    (seq (sleep_on q notempty)
    (seq (ilock q)
    (case n of 0 \<Rightarrow> raise Blocked | Suc m \<Rightarrow> qwait_loop m q))))))"

declare qwait_loop.simps [simp del]

definition qwait :: "nat \<Rightarrow> int kern" where
  "qwait q = and_then (fetch (\<lambda>w. length (kenv w))) (\<lambda>n. qwait_loop n q)"

definition qremove :: "nat \<Rightarrow> Block option kern" where
  "qremove q = and_then (qf q bfirst) (\<lambda>bs. case bs of
     [] \<Rightarrow> ret None
   | b # nxt \<Rightarrow> seq (qset q (unlink_first b nxt)) (ret (Some b)))"

definition qputback :: "nat \<Rightarrow> Block \<Rightarrow> unit kern" where
  "qputback q b = qset q (\<lambda>r. r\<lparr>bfirst := b # bfirst r,
     blast := (if bfirst r = [] then b_id b else blast r),
     q_len := q_len r + BALLOC b, q_dlen := q_dlen r + BLEN b\<rparr>)"

definition qwakeup_iunlock :: "nat \<Rightarrow> unit kern" where
  "qwakeup_iunlock q =
     and_then (restart_writer q half_empty) (\<lambda>dowakeup.
     seq (iunlock q)
    (only_if dowakeup
      (and_then (qf q q_kick) (\<lambda>kick.
       seq (only_if kick (call_kick q)) (wakeup_wr q)))))"

definition the_block :: "'a option \<Rightarrow> 'a kern" where
  "the_block x = (case x of None \<Rightarrow> raise Fault | Some b \<Rightarrow> ret b)"

text \<open>
  The two exits of \<^verbatim>\<open>qbread\<close> and \<^verbatim>\<open>qread\<close> on a closed queue; otherwise \<open>m\<close> goes on. The read lock is
  released on every exit, by the handler when there was an error.
\<close>

definition after_wait :: "nat \<Rightarrow> int \<Rightarrow> 'a option kern \<Rightarrow> 'a option kern" where
  "after_wait q c m =
     (if c = 0 then seq (iunlock q) (seq (qunlock (q, True)) (ret None))
      else if c = -1 then seq (iunlock q) (and_then (qf q q_err) (\<lambda>e. raise (Error e)))
      else m)"

definition qbread_locked :: "nat \<Rightarrow> int \<Rightarrow> Block option kern" where
  "qbread_locked q len =
     seq (ilock q)
    (and_then (qwait q) (\<lambda>c. after_wait q c
    (and_then (qremove q) (\<lambda>b.
     and_then (the_block b) (\<lambda>b.
     let n = BLEN b in
     and_then
      (if n > len then let n = n - len in
         and_then (qf q (q_has Qmsg)) (\<lambda>msg.
         if \<not> msg then and_then (splitblock b n) (\<lambda>(h, t). seq (qputback q t) (ret h))
         else ret (b\<lparr>b_wp := b_wp b - n\<rparr>))
       else ret b) (\<lambda>b.
     seq (qwakeup_iunlock q)
    (seq (qunlock (q, True))
    (ret (Some b)))))))))"

definition qbread :: "nat \<Rightarrow> int \<Rightarrow> Block option kern" where
  "qbread q len = seq (eqlock (q, True)) (on_Error (qbread_locked q len) (qunlock (q, True)))"

text \<open>
  The part of \<^verbatim>\<open>qread\<close> from \<^verbatim>\<open>again\<close> on. While the first block is empty and the queue coalesces, it
  is dropped and \<^verbatim>\<open>again\<close> finds the next one without waiting: \<open>drop_empty\<close>. Only when the queue
  has become empty does \<^verbatim>\<open>qwait\<close> wait again, which takes an event each time.
\<close>

fun drop_empty :: "nat \<Rightarrow> Block list \<Rightarrow> bool kern" where
  "drop_empty q [] = ret False"
| "drop_empty q (b # nxt) =
    (if BLEN b \<le> 0 then
       and_then (qremove q) (\<lambda>r. and_then (the_block r) (\<lambda>r. seq (freeb r) (drop_empty q nxt)))
     else ret True)"

fun again :: "nat \<Rightarrow> nat \<Rightarrow> int kern" where
  "again n q = and_then (qwait q) (\<lambda>c. if c = 0 \<or> c = -1 then ret c else
     and_then (qf q (q_has Qcoalesce)) (\<lambda>coalesce. if \<not> coalesce then ret c else
     and_then (qf q bfirst) (\<lambda>bs.
     and_then (drop_empty q bs) (\<lambda>found. if found then ret c else
     case n of 0 \<Rightarrow> raise Blocked | Suc m \<Rightarrow> again m q))))"

declare again.simps [simp del]

text \<open>
  Grabbing blocks: those taken before the last one, and the last one, which \<^verbatim>\<open>last\<close> points to; \<open>n\<close>
  is the number of bytes taken.
\<close>

fun grab :: "nat \<Rightarrow> int \<Rightarrow> int \<Rightarrow> Block list \<Rightarrow> (Block list \<times> Block \<times> int) kern" where
  "grab q len n [] = raise Fault"
| "grab q len n (b # nxt) =
     and_then (qremove q) (\<lambda>r. and_then (the_block r) (\<lambda>r.
     let n = n + BLEN b in
     if n \<ge> len \<or> nxt = [] then ret ([], r, n)
     else and_then (grab q len n nxt) (\<lambda>(pre, l, n). ret (r # pre, l, n))))"

definition take_first :: "nat \<Rightarrow> int \<Rightarrow> (Block list \<times> Block \<times> int) kern" where
  "take_first q len =
     and_then (qf q (q_has Qcoalesce)) (\<lambda>coalesce.
     if coalesce then and_then (qf q bfirst) (grab q len 0)
     else and_then (qremove q) (\<lambda>r. and_then (the_block r) (\<lambda>first. ret ([], first, BLEN first))))"

definition qread_locked :: "nat \<Rightarrow> int \<Rightarrow> Block list option kern" where
  "qread_locked q len =
     seq (ilock q)
    (and_then (and_then (fetch (\<lambda>w. length (kenv w))) (\<lambda>k. again (Suc k) q)) (\<lambda>c. after_wait q c
    (and_then (take_first q len) (\<lambda>(pre, l, n).
     and_then (qf q (q_has Qmsg)) (\<lambda>msg.
     and_then
      (if n > len \<and> \<not> msg then and_then (splitblock l (n - len)) (\<lambda>(h, t). seq (qputback q t) (ret h))
       else ret l) (\<lambda>l.
     seq (qwakeup_iunlock q)
    (seq (qunlock (q, True))
    (ret (Some (pre @ [l]))))))))))"

definition qread :: "nat \<Rightarrow> int \<Rightarrow> bytes kern" where
  "qread q len =
     seq (eqlock (q, True))
    (and_then (on_Error (qread_locked q len) (qunlock (q, True))) (\<lambda>res. case res of
       None \<Rightarrow> ret []
     | Some first \<Rightarrow>
       and_then (on_Error (readblist first len 0) (freeblist first)) (\<lambda>x.
       seq (freeblist first)
      (ret x))))"

section \<open>Flow control and writing\<close>

definition qnotfull :: "Queue \<Rightarrow> bool" where
  "qnotfull r \<longleftrightarrow> q_len r < q_limit r \<or> q_has Qclosed r"

fun qflow_loop :: "nat \<Rightarrow> nat \<Rightarrow> unit kern" where
  "qflow_loop n q =
     and_then (qf q (\<lambda>r. q_noblock r \<noteq> 0 \<or> qnotfull r)) (\<lambda>go. if go then ret () else
     seq (ilock q)
    (seq (qset q (q_raise Qflow))
    (seq (iunlock q)
    (seq (eqlock (q, False))
    (seq (on_Error (sleep_on q qnotfull) (qunlock (q, False)))
    (seq (qunlock (q, False))
    (case n of 0 \<Rightarrow> raise Blocked | Suc m \<Rightarrow> qflow_loop m q)))))))"

declare qflow_loop.simps [simp del]

definition qflow :: "nat \<Rightarrow> unit kern" where
  "qflow q = and_then (fetch (\<lambda>w. length (kenv w))) (\<lambda>n. qflow_loop n q)"

text \<open>
  The locked part of \<^verbatim>\<open>qbwrite\<close>: the count when a full queue drops the blocks, or the count and
  whether the reader is to be woken.
\<close>

definition qbwrite_locked :: "nat \<Rightarrow> Block list \<Rightarrow> (int + int \<times> bool) kern" where
  "qbwrite_locked q bs =
     seq (ilock q)
    (and_then (qf q (q_has Qclosed)) (\<lambda>closed.
     if closed then seq (iunlock q) (and_then (qf q q_err) (\<lambda>e. raise (Error e)))
     else and_then (qf q (\<lambda>r. q_len r \<ge> q_limit r \<and> q_noblock r \<noteq> 0)) (\<lambda>drop.
     if drop then seq (iunlock q) (ret (Inl (blocklen bs)))
     else
       and_then (qaddlist q bs) (\<lambda>len.
       and_then (feed_reader q) (\<lambda>dowakeup.
       seq (iunlock q)
      (ret (Inr (len, dowakeup))))))))"

definition qbwrite :: "nat \<Rightarrow> Block list \<Rightarrow> int kern" where
  "qbwrite q bs =
     and_then (qf q q_bypass) (\<lambda>bypass.
     if bypass then seq (call_bypass q bs) (ret (blocklen bs))
     else
       and_then (on_Error (qbwrite_locked q bs) (freeblist bs)) (\<lambda>res. case res of
         Inl len \<Rightarrow> seq (freeblist bs) (ret len)
       | Inr (len, dowakeup) \<Rightarrow>
         and_then (qf q (\<lambda>r. q_kick r \<and> (dowakeup \<or> q_has Qkick r))) (\<lambda>kick.
         seq (only_if kick (call_kick q))
        (seq (only_if dowakeup (wakeup_rr q))
        (seq (qflow q)
        (ret len))))))"

abbreviation Maxatomic :: nat where "Maxatomic \<equiv> 65536"

text \<open>
  \<^verbatim>\<open>while(waserror()) ...; qflow(q); poperror();\<close>: a note is ignored unless the process is to exit.
  Every note uses up an event.
\<close>

fun patient_qflow :: "nat \<Rightarrow> nat \<Rightarrow> unit kern" where
  "patient_qflow n q = (\<lambda>w. case qflow q w of
     (Inl (Error _), w') \<Rightarrow>
       if kexiting w' then (Inl (Error Egreg), w')
       else (case n of 0 \<Rightarrow> (Inl Blocked, w') | Suc m \<Rightarrow> patient_qflow m q w')
   | r \<Rightarrow> r)"

declare patient_qflow.simps [simp del]

text \<open>
  The \<^verbatim>\<open>do ... while\<close> of \<^verbatim>\<open>qwrite\<close>. A round that writes nothing would not end; the number of bytes
  bounds the others.
\<close>

fun qwrite_loop :: "nat \<Rightarrow> nat \<Rightarrow> bytes \<Rightarrow> int \<Rightarrow> unit kern" where
  "qwrite_loop k q p sofar = (let n = min (int (length p) - sofar) (int Maxatomic) in
     and_then (allocb n) (\<lambda>b.
     and_then (on_Error (bput b (take (nat n) (drop (nat sofar) p))) (freeb b)) (\<lambda>b.
     and_then (qbwrite q [b]) (\<lambda>m.
     and_then (qf q (q_has Qmsg)) (\<lambda>msg.
     if sofar + m < int (length p) \<and> \<not> msg
     then (case k of 0 \<Rightarrow> raise Blocked | Suc k \<Rightarrow> qwrite_loop k q p (sofar + m))
     else ret ())))))"

declare qwrite_loop.simps [simp del]

definition qwrite :: "nat \<Rightarrow> bytes \<Rightarrow> int kern" where
  "qwrite q p =
     and_then (qf q (\<lambda>r. q_len r sdiv 2 \<ge> q_limit r \<and> q_noblock r = 0 \<and> \<not> q_bypass r)) (\<lambda>bloat.
     seq (only_if bloat (and_then (fetch (\<lambda>w. length (kenv w))) (\<lambda>n. patient_qflow n q)))
    (seq (qwrite_loop (length p) q p 0)
    (ret (int (length p)))))"

fun qiwrite_loop :: "nat \<Rightarrow> nat \<Rightarrow> bytes \<Rightarrow> bool \<Rightarrow> int \<Rightarrow> int kern" where
  "qiwrite_loop k q p dowakeup sofar = (let n = min (int (length p) - sofar) (int Maxatomic) in
     and_then (iallocb n) (\<lambda>b. case b of
       None \<Rightarrow> ret sofar
     | Some b \<Rightarrow>
       and_then (bput b (take (nat n) (drop (nat sofar) p))) (\<lambda>b.
       seq (ilock q)
      (and_then (qf q (\<lambda>r. q_has Qclosed r \<or> q_len r sdiv 2 \<ge> q_limit r)) (\<lambda>drop.
       if drop then seq (iunlock q) (seq (freeb b) (ret sofar))
       else
         and_then (qaddlist q [b]) (\<lambda>_.
         and_then (feed_reader q) (\<lambda>fed.
         let dowakeup = (dowakeup \<or> fed) in
         seq (iunlock q)
        (seq (only_if dowakeup (and_then (qf q q_kick) (\<lambda>kick. seq (only_if kick (call_kick q)) (wakeup_rr q))))
        (and_then (qf q (q_has Qmsg)) (\<lambda>msg.
         if sofar + n < int (length p) \<and> \<not> msg
         then (case k of 0 \<Rightarrow> raise Blocked | Suc k \<Rightarrow> qiwrite_loop k q p dowakeup (sofar + n))
         else ret (sofar + n)))))))))))"

declare qiwrite_loop.simps [simp del]

definition qiwrite :: "nat \<Rightarrow> bytes \<Rightarrow> int kern" where
  "qiwrite q p = qiwrite_loop (length p) q p False 0"

section \<open>Closing and status\<close>

definition qclose :: "nat \<Rightarrow> unit kern" where
  "qclose q =
     seq (ilock q)
    (and_then (qf q bfirst) (\<lambda>bs.
     seq (qset q (\<lambda>r. q_clear Qstarve (q_clear Qflow (q_raise Qclosed
       (r\<lparr>q_err := kstrcpy Ehungup ERRMAX, bfirst := [], q_len := 0, q_dlen := 0, q_noblock := 0\<rparr>)))))
    (seq (iunlock q)
    (seq (freeblist bs)
    (seq (wakeup_rr q)
    (wakeup_wr q))))))"

definition qfree :: "nat \<Rightarrow> unit kern" where
  "qfree q = seq (qclose q) (modify (\<lambda>w. w\<lparr>kqueues := (kqueues w)(q := None)\<rparr>))"

definition qhangup :: "nat \<Rightarrow> string \<Rightarrow> unit kern" where
  "qhangup q msg =
     seq (ilock q)
    (seq (qset q (\<lambda>r. q_raise Qclosed (r\<lparr>q_err := kstrcpy (if msg = [] then Ehungup else msg) ERRMAX\<rparr>)))
    (seq (iunlock q)
    (seq (wakeup_rr q)
    (wakeup_wr q))))"

definition qisclosed :: "nat \<Rightarrow> bool kern" where
  "qisclosed q = qf q (q_has Qclosed)"

definition qreopen :: "nat \<Rightarrow> unit kern" where
  "qreopen q =
     seq (ilock q)
    (seq (qset q (\<lambda>r. (q_raise Qstarve (q_clear Qclosed r))\<lparr>q_eof := 0, q_limit := q_inilim r\<rparr>))
    (iunlock q))"

definition qlen :: "nat \<Rightarrow> int kern" where
  "qlen q = qf q q_dlen"

definition qwindow :: "nat \<Rightarrow> int kern" where
  "qwindow q = qf q (\<lambda>r. let l = q_limit r - q_len r in if l < 0 then 0 else l)"

definition qcanread :: "nat \<Rightarrow> bool kern" where
  "qcanread q = qf q (\<lambda>r. bfirst r \<noteq> [])"

definition qsetlimit :: "nat \<Rightarrow> int \<Rightarrow> unit kern" where
  "qsetlimit q limit = qset q (\<lambda>r. r\<lparr>q_limit := limit\<rparr>)"

definition qnoblock :: "nat \<Rightarrow> int \<Rightarrow> unit kern" where
  "qnoblock q onoff = qset q (\<lambda>r. r\<lparr>q_noblock := onoff\<rparr>)"

definition qflush :: "nat \<Rightarrow> unit kern" where
  "qflush q =
     seq (ilock q)
    (and_then (qf q bfirst) (\<lambda>bs.
     seq (qset q (\<lambda>r. r\<lparr>bfirst := [], q_len := 0, q_dlen := 0\<rparr>))
    (seq (iunlock q)
    (seq (freeblist bs)
    (wakeup_wr q)))))"

definition qfull :: "nat \<Rightarrow> bool kern" where
  "qfull q = qf q (q_has Qflow)"

definition qstate :: "nat \<Rightarrow> u32 kern" where
  "qstate q = qf q q_state"

end
