(* ===== verification/Own.thy ===== *)
theory Own
  imports Blocks
begin

unbundle bit_operations_syntax

text \<open>
  The ownership discipline of blocks. Every allocated block is either in exactly one queue or
  held by running code; \<open>kinv s M\<close> says so of the state \<open>s\<close>, \<open>M\<close> being the identities held. A
  leaked block would be in neither, a block used after its release in both or in none. The rules
  for allocation and release, from which the routines on chains and queues are verified, are
  proved here, with the assumption \<open>rely\<close> about the code that runs while this code sleeps.
\<close>

section \<open>Well-formed blocks and queues\<close>

definition wfB :: "Block \<Rightarrow> bool" where
  "wfB b \<longleftrightarrow> 0 \<le> b_rp b \<and> b_rp b \<le> b_wp b \<and> b_wp b \<le> BALLOC b \<and> BLEN b < 2 ^ 31"

definition bytes_of :: "Block \<Rightarrow> bytes" where
  "bytes_of b = take (nat (BLEN b)) (drop (nat (b_rp b)) (b_mem b))"

definition data :: "Block list \<Rightarrow> bytes" where
  "data bs = concat (map bytes_of bs)"

definition ids :: "Block list \<Rightarrow> nat set" where
  "ids bs = b_id ` set bs"

definition chain :: "Block list \<Rightarrow> bool" where
  "chain bs \<longleftrightarrow> list_all wfB bs \<and> distinct (map b_id bs)"

definition qinv :: "Queue \<Rightarrow> bool" where
  "qinv r \<longleftrightarrow> chain (bfirst r) \<and> q_len r = blockalloclen (bfirst r) \<and> q_dlen r = blocklen (bfirst r)
     \<and> (bfirst r \<noteq> [] \<longrightarrow> blast r = b_id (last (bfirst r)))"

definition queued :: "'z kst_scheme \<Rightarrow> nat set" where
  "queued s = (\<Union>r\<in>ran (kqueues s). ids (bfirst r))"

text \<open>What the code relies on of the pool allocator: at least the memory asked for.\<close>

definition good_malloc :: "(nat \<Rightarrow> nat \<Rightarrow> (int \<times> bytes) option) \<Rightarrow> bool" where
  "good_malloc f \<longleftrightarrow> (\<forall>k n a m. f k n = Some (a, m) \<longrightarrow> n \<le> length m)"

definition kinv :: "'z kst_scheme \<Rightarrow> nat set \<Rightarrow> bool" where
  "kinv s M \<longleftrightarrow> good_malloc (kmalloc s) \<and> (\<forall>i\<in>klive s. i < kcalls s)
     \<and> klive s = M \<union> queued s \<and> M \<inter> queued s = {}
     \<and> (\<forall>q r. kqueues s q = Some r \<longrightarrow> qinv r)
     \<and> (\<forall>q q' r r'. kqueues s q = Some r \<longrightarrow> kqueues s q' = Some r' \<longrightarrow> q \<noteq> q'
         \<longrightarrow> ids (bfirst r) \<inter> ids (bfirst r') = {})
     \<and> (\<forall>q\<in>dom (kqueues s). q < kcalls s)"

text \<open>What the code cannot change by allocating and freeing: the allocator, its process, its locks.\<close>

definition ctx :: "'z kst_scheme \<Rightarrow>
    (nat \<Rightarrow> nat \<Rightarrow> (int \<times> bytes) option) \<times> bool \<times> nat \<times> bool \<times> bool \<times> nat list \<times> (nat \<times> bool) list" where
  "ctx s = (kmalloc s, kup s, knlocks s, kislo s, kexiting s, kilocks s, kqlocks s)"

text \<open>A process whose requests for memory are all met.\<close>

definition plenty :: "'z kst_scheme \<Rightarrow> bool" where
  "plenty s \<longleftrightarrow> kup s \<and> (\<forall>k n. n < 2 ^ 32 \<longrightarrow> kmalloc s k n \<noteq> None)"

definition good_step :: "(kst \<Rightarrow> kst) \<Rightarrow> bool" where
  "good_step f \<longleftrightarrow> (\<forall>s M. kinv s M \<longrightarrow> kinv (f s) M \<and> ctx (f s) = ctx s
     \<and> dom (kqueues s) \<subseteq> dom (kqueues (f s)))"

text \<open>A bypass routine takes over the blocks it is given.\<close>

definition good_bypass :: "(Block list \<Rightarrow> kst \<Rightarrow> kst) \<Rightarrow> bool" where
  "good_bypass f \<longleftrightarrow> (\<forall>bs s M. chain bs \<longrightarrow> ids bs \<inter> M = {} \<longrightarrow> kinv s (M \<union> ids bs) \<longrightarrow>
     kinv (f bs s) M \<and> ctx (f bs s) = ctx s \<and> dom (kqueues s) \<subseteq> dom (kqueues (f bs s)))"

definition rely :: "world \<Rightarrow> bool" where
  "rely w \<longleftrightarrow> (\<forall>f. Run f \<in> set (kenv w) \<longrightarrow> good_step f) \<and> (\<forall>q. good_step (kkick w q)) \<and> (\<forall>q. good_bypass (kbypass w q))"

definition ok :: "nat set \<Rightarrow> world \<Rightarrow> bool" where
  "ok M w \<longleftrightarrow> kinv w M \<and> rely w"

text \<open>
  \<open>still w w'\<close>: nothing happened to the queues between \<open>w\<close> and \<open>w'\<close>; \<open>later w w'\<close>: other code may have
  run, unless a spin lock was held or nothing was going to happen.
\<close>

definition still :: "world \<Rightarrow> world \<Rightarrow> bool" where
  "still w w' \<longleftrightarrow> ctx w' = ctx w \<and> kqueues w' = kqueues w \<and> kenv w' = kenv w
     \<and> (\<exists>t. ktrace w' = ktrace w @ t)"

definition later :: "world \<Rightarrow> world \<Rightarrow> bool" where
  "later w w' \<longleftrightarrow> ctx w' = ctx w \<and> dom (kqueues w) \<subseteq> dom (kqueues w') \<and> length (kenv w') \<le> length (kenv w)
     \<and> (kilocks w \<noteq> [] \<or> kenv w = [] \<longrightarrow> still w w')"

section \<open>Lemmas on blocks\<close>

lemma BLEN_nonneg: "wfB b \<Longrightarrow> 0 \<le> BLEN b"
  by (simp add: wfB_def BLEN_def)

lemma BLEN_bound: "wfB b \<Longrightarrow> BLEN b < 2 ^ 31"
  by (simp add: wfB_def)

lemma length_bytes_of [simp]: "wfB b \<Longrightarrow> int (length (bytes_of b)) = BLEN b"
  by (auto simp: bytes_of_def wfB_def BLEN_def BALLOC_def)

lemma data_simps [simp]: "data [] = []" "data (b # bs) = bytes_of b @ data bs" "data (xs @ ys) = data xs @ data ys"
  by (simp_all add: data_def)

lemma ids_simps [simp]: "ids [] = {}" "ids (b # bs) = insert (b_id b) (ids bs)" "ids (xs @ ys) = ids xs \<union> ids ys"
  by (auto simp: ids_def)

lemma finite_ids [simp]: "finite (ids bs)"
  by (simp add: ids_def)

lemma chain_simps [simp]:
  "chain []" "chain (b # bs) \<longleftrightarrow> wfB b \<and> b_id b \<notin> ids bs \<and> chain bs"
  by (auto simp: chain_def ids_def)

lemma chain_append [simp]: "chain (xs @ ys) \<longleftrightarrow> chain xs \<and> chain ys \<and> ids xs \<inter> ids ys = {}"
  by (induction xs) auto

lemma blocklen_simps [simp]: "blocklen [] = 0" "blocklen (b # bs) = BLEN b + blocklen bs"
    "blocklen (xs @ ys) = blocklen xs + blocklen ys"
  by (simp_all add: blocklen_def)

lemma blockalloclen_simps [simp]: "blockalloclen [] = 0" "blockalloclen (b # bs) = BALLOC b + blockalloclen bs"
    "blockalloclen (xs @ ys) = blockalloclen xs + blockalloclen ys"
  by (simp_all add: blockalloclen_def)

lemma length_data [simp]: "chain bs \<Longrightarrow> int (length (data bs)) = blocklen bs"
  by (induction bs) auto

lemma blocklen_nonneg: "chain bs \<Longrightarrow> 0 \<le> blocklen bs"
  by (induction bs) (auto dest: BLEN_nonneg)

text \<open>Reading from and appending to a block.\<close>

lemma wp_bread:
  "wp (bread b p n) Q E w = (if 0 \<le> p \<and> 0 \<le> n \<and> p + n \<le> BALLOC b
     then Q (take (nat n) (drop (nat p) (b_mem b))) w else E Fault w)"
  by (simp add: bread_def wp_flow)

lemma bytes_of_slice:
  assumes "wfB b" and "0 \<le> o'" and "0 \<le> n" and "o' + n \<le> BLEN b"
  shows "take (nat n) (drop (nat (b_rp b + o')) (b_mem b)) = take (nat n) (drop (nat o') (bytes_of b))"
proof -
  have "nat (b_rp b + o') = nat o' + nat (b_rp b)" using assms by (simp add: wfB_def nat_add_distrib)
  moreover have "min (nat n) (nat (BLEN b) - nat o') = nat n" using assms(2-4) by linarith
  ultimately show ?thesis unfolding bytes_of_def drop_take take_take drop_drop by simp
qed

text \<open>What follows a store at \<^verbatim>\<open>wp\<close>.\<close>

definition grown :: "Block \<Rightarrow> bytes \<Rightarrow> Block" where
  "grown b bs = b\<lparr>b_mem := overwrite (b_mem b) (nat (b_wp b)) bs, b_wp := b_wp b + int (length bs)\<rparr>"

lemma grown_sel [simp]: "b_id (grown b bs) = b_id b" "b_rp (grown b bs) = b_rp b" "b_free (grown b bs) = b_free b"
    "b_wp (grown b bs) = b_wp b + int (length bs)"
  by (simp_all add: grown_def)

lemma BLEN_grown [simp]: "BLEN (grown b bs) = BLEN b + int (length bs)"
  by (simp add: BLEN_def)

lemma BALLOC_grown [simp]:
  "wfB b \<Longrightarrow> b_wp b + int (length bs) \<le> BALLOC b \<Longrightarrow> BALLOC (grown b bs) = BALLOC b"
  using length_overwrite [of "nat (b_wp b)" bs "b_mem b"] by (auto simp: grown_def BALLOC_def wfB_def)

lemma grown_wfB [simp]: "wfB b \<Longrightarrow> b_wp b + int (length bs) \<le> BALLOC b \<Longrightarrow> BLEN b + int (length bs) < 2 ^ 31 \<Longrightarrow> wfB (grown b bs)"
  using BALLOC_grown [of b bs] by (simp add: wfB_def)

lemma bytes_of_grown [simp]:
  assumes "wfB b" and "b_wp b + int (length bs) \<le> BALLOC b"
  shows "bytes_of (grown b bs) = bytes_of b @ bs"
proof -
  let ?r = "nat (b_rp b)" and ?p = "nat (b_wp b)" and ?n = "length bs"
  have le: "?r \<le> ?p" "?p + ?n \<le> length (b_mem b)" using assms by (auto simp: wfB_def BALLOC_def)
  have "nat (BLEN (grown b bs)) = (?p + ?n) - ?r" using assms unfolding BLEN_def wfB_def grown_sel by linarith
  then have "bytes_of (grown b bs) = drop ?r (take (?p + ?n) (overwrite (b_mem b) ?p bs))"
    unfolding bytes_of_def drop_take by (simp add: grown_def)
  also have "\<dots> = drop ?r (take ?p (b_mem b)) @ bs" using le by (simp add: take_overwrite_end)
  also have "drop ?r (take ?p (b_mem b)) = bytes_of b"
    using assms(1) by (simp add: bytes_of_def BLEN_def wfB_def drop_take nat_diff_distrib)
  finally show ?thesis .
qed

lemma wp_bput:
  "wfB b \<Longrightarrow> b_wp b + int (length bs) \<le> BALLOC b \<Longrightarrow> wp (bput b bs) Q E w = Q (grown b bs) w"
  by (simp add: bput_def wp_flow wfB_def grown_def)

lemma wp_bmove:
  assumes "wfB nb" "wfB b" "0 \<le> o'" "0 \<le> n" "o' + n \<le> BLEN b" "b_wp nb + n \<le> BALLOC nb"
    and "p = b_rp b + o'"
  shows "wp (bmove nb b p n) Q E w = Q (grown nb (take (nat n) (drop (nat o') (bytes_of b)))) w"
proof -
  let ?x = "take (nat n) (drop (nat o') (bytes_of b))"
  have "int (length ?x) = n" using assms(3-5) length_bytes_of [OF assms(2)] by simp
  moreover have "b_rp b + o' + n \<le> BALLOC b" "0 \<le> b_rp b" using assms by (simp_all add: wfB_def BLEN_def)
  ultimately show ?thesis
    using assms by (simp add: bmove_def wp_flow wp_bread wp_bput bytes_of_slice)
qed

section \<open>Moving blocks\<close>

lemma and_not_7: "(x::int) AND NOT 7 = x - x mod 8"
proof -
  have "x AND NOT (mask 3) = push_bit 3 (drop_bit 3 x)"
    by (auto intro!: bit_eqI simp: bit_simps)
  moreover have "(7::int) = mask 3" by (simp add: mask_eq_exp_minus_1)
  ultimately show ?thesis by (simp add: push_bit_eq_mult drop_bit_eq_div minus_mod_eq_div_mult)
qed

lemma ROUND_8: "ROUND s 8 = s + 7 - (s + 7) mod 8"
  using and_not_7 [of "s + 7"] by (simp add: ROUND_def)

lemma queued_sel [simp]:
  "queued (s\<lparr>klive := x1\<rparr>) = queued s" "queued (s\<lparr>kcalls := x2\<rparr>) = queued s" "queued (s\<lparr>knerr := x3\<rparr>) = queued s"
  "queued (s\<lparr>kilocks := x4\<rparr>) = queued s" "queued (s\<lparr>kqlocks := x5\<rparr>) = queued s" "queued (s\<lparr>ktrace := x6\<rparr>) = queued s"
  by (simp_all add: queued_def)

lemma kinvD:
  assumes "kinv s M"
  shows "good_malloc (kmalloc s)" and "\<And>i. i \<in> klive s \<Longrightarrow> i < kcalls s" and "klive s = M \<union> queued s"
    and "M \<inter> queued s = {}" and "\<And>q r. kqueues s q = Some r \<Longrightarrow> qinv r"
    and "\<And>q r. kqueues s q = Some r \<Longrightarrow> ids (bfirst r) \<subseteq> queued s"
    and "\<And>q q' r r'. kqueues s q = Some r \<Longrightarrow> kqueues s q' = Some r' \<Longrightarrow> q \<noteq> q'
         \<Longrightarrow> ids (bfirst r) \<inter> ids (bfirst r') = {}" and "\<And>q r. kqueues s q = Some r \<Longrightarrow> q < kcalls s"
  using assms unfolding kinv_def by (blast, blast, blast, blast, blast, fastforce simp: queued_def ran_def, blast, blast)

definition qids :: "Queue option \<Rightarrow> nat set" where
  "qids x = (case x of None \<Rightarrow> {} | Some r \<Rightarrow> ids (bfirst r))"

lemma queued_qids: "queued s = (\<Union>p. qids (kqueues s p))"
  unfolding queued_def ran_def qids_def by (auto split: option.splits) (metis option.inject | blast)+

lemma queued_upd:
  assumes "kinv s M" and "kqueues s q = Some r"
  shows "queued (s\<lparr>kqueues := (kqueues s)(q \<mapsto> r')\<rparr>) = (queued s - ids (bfirst r)) \<union> ids (bfirst r')"
proof -
  let ?others = "\<Union>p\<in>-{q}. qids (kqueues s p)"
  have un: "(\<Union>p. f p) = f q \<union> (\<Union>p\<in>-{q}. f p)" for f :: "nat \<Rightarrow> nat set" by blast
  have "queued s = ids (bfirst r) \<union> ?others"
    unfolding queued_qids un using assms(2) by (simp add: qids_def)
  moreover have "queued (s\<lparr>kqueues := (kqueues s)(q \<mapsto> r')\<rparr>) = ids (bfirst r') \<union> ?others"
    unfolding queued_qids un by (simp add: qids_def)
  moreover have "ids (bfirst r) \<inter> qids (kqueues s p) = {}" if "p \<in> -{q}" for p
    using that kinvD(7) [OF assms(1,2), of p] by (auto simp: qids_def split: option.splits)
  then have "ids (bfirst r) \<inter> ?others = {}" by blast
  ultimately show ?thesis by blast
qed

lemma kinv_queued: "kinv s M \<Longrightarrow> kqueues s q = Some r \<Longrightarrow> ids (bfirst r) \<subseteq> klive s - M"
  using kinvD(3,4,6) by fastforce

lemmas kinv_qinv = kinvD(5)

lemma kinv_move:
  assumes inv: "kinv s M" and r: "kqueues s q = Some r" and "qinv r'"
    and dis: "ids (bfirst r') \<inter> M' = {}" and eq: "ids (bfirst r') \<union> M' = ids (bfirst r) \<union> M"
  shows "kinv (s\<lparr>kqueues := (kqueues s)(q \<mapsto> r')\<rparr>) M'"
proof -
  note u = queued_upd [OF inv r, of r'] and d = kinvD [OF inv]
  have sub: "ids (bfirst r) \<subseteq> queued s" using d(6) r .
  have sep: "ids (bfirst r') \<inter> ids (bfirst x) = {}" if "kqueues s p = Some x" "p \<noteq> q" for p x
    using d(7) [OF r that(1)] d(6) [OF that(1)] that(2) d(4) eq by blast
  have "klive s = M' \<union> ((queued s - ids (bfirst r)) \<union> ids (bfirst r'))"
    using d(3) eq sub by blast
  moreover have "M' \<inter> ((queued s - ids (bfirst r)) \<union> ids (bfirst r')) = {}"
    using d(4) eq sub dis by blast
  moreover have "ids (bfirst x) \<inter> ids (bfirst x') = {}"
    if "((kqueues s)(q \<mapsto> r')) p = Some x" "((kqueues s)(q \<mapsto> r')) p' = Some x'" "p \<noteq> p'" for p p' x x'
    using that sep [of p x] sep [of p' x'] d(7) [of p x p' x'] by (auto split: if_splits)
  ultimately show ?thesis
    using d(1,2,5,8) assms(3) r unfolding kinv_def u by auto
qed

lemma kinv_alloc:
  assumes "kinv s M"
  shows "kinv (s\<lparr>klive := insert (kcalls s) (klive s), kcalls := Suc (kcalls s)\<rparr>) (insert (kcalls s) M)"
    and "kcalls s \<notin> M" and "kcalls s \<notin> klive s"
proof -
  note d = kinvD [OF assms]
  show n: "kcalls s \<notin> klive s" using d(2) by blast
  then show "kcalls s \<notin> M" using d(3) by blast
  have "i < Suc (kcalls s)" if "i \<in> insert (kcalls s) (klive s)" for i
    using that d(2) [of i] by auto
  moreover have "insert (kcalls s) (klive s) = insert (kcalls s) M \<union> queued s"
    and "insert (kcalls s) M \<inter> queued s = {}" using d(3,4) n by blast+
  ultimately show "kinv (s\<lparr>klive := insert (kcalls s) (klive s), kcalls := Suc (kcalls s)\<rparr>) (insert (kcalls s) M)"
    using assms d(8) unfolding kinv_def by (auto intro: less_SucI)
qed

lemma kinv_calls: "kinv s M \<Longrightarrow> kinv (s\<lparr>kcalls := Suc (kcalls s)\<rparr>) M"
  unfolding kinv_def by (auto simp: less_SucI)

lemma kinv_free:
  assumes "kinv s M" and "i \<in> M"
  shows "kinv (s\<lparr>klive := klive s - {i}\<rparr>) (M - {i})" and "i \<in> klive s"
proof -
  note d = kinvD [OF assms(1)]
  show "i \<in> klive s" using d(3) assms(2) by blast
  have "klive s - {i} = (M - {i}) \<union> queued s" "(M - {i}) \<inter> queued s = {}" using d(3,4) assms(2) by blast+
  moreover have "\<forall>j\<in>klive s - {i}. j < kcalls s" using d(2) by blast
  ultimately show "kinv (s\<lparr>klive := klive s - {i}\<rparr>) (M - {i})"
    using d(1,5,7,8) unfolding kinv_def by (intro conjI) auto
qed

lemma kinv_more [simp]:
  "kinv (s\<lparr>kilocks := x\<rparr>) M = kinv s M" "kinv (s\<lparr>kqlocks := y\<rparr>) M = kinv s M" "kinv (s\<lparr>ktrace := t\<rparr>) M = kinv s M"
  "kinv (s\<lparr>knerr := n\<rparr>) M = kinv s M"
  by (simp_all add: kinv_def queued_def)

lemma kinv_world [simp]:
  "kinv (w\<lparr>kenv := e\<rparr>) M = kinv w M" "kinv (kst.truncate w) M = kinv w M" "kinv (on_kst f w) M = kinv (f (kst.truncate w)) M"
  by (simp_all add: kinv_def queued_def on_kst_def kst.defs)

lemma on_kst_sel [simp]:
  "kqueues (on_kst f w) = kqueues (f (kst.truncate w))" "ctx (on_kst f w) = ctx (f (kst.truncate w))"
  "kenv (on_kst f w) = kenv w" "kkick (on_kst f w) = kkick w" "kbypass (on_kst f w) = kbypass w"
  "ctx (kst.truncate w) = ctx w" "kqueues (kst.truncate w) = kqueues w"
  by (cases w; simp add: on_kst_def kst.defs ctx_def)+

section \<open>Allocation and release\<close>

text \<open>What \<^verbatim>\<open>_allocb\<close> promises of a new block: empty, with room for the bytes asked for and the trailer,
  and with at least 43 bytes in front for headers, wherever the allocator placed it.\<close>

definition fresh_block :: "Block \<Rightarrow> int \<Rightarrow> bool" where
  "fresh_block b n \<longleftrightarrow> wfB b \<and> b_wp b = b_rp b \<and> b_rp b + n + 16 \<le> BALLOC b \<and> 43 \<le> b_rp b \<and> \<not> b_free b"

lemma int32_id: "- (2 ^ 31) \<le> x \<Longrightarrow> x < 2 ^ 31 \<Longrightarrow> int32 x = x"
  by (simp add: int32_def sint_sbintrunc' signed_take_bit_int_eq_self)

lemma int32_sizes:
  assumes "0 \<le> n" and "n + 23 < 2 ^ 31"
  shows "int32 (n + 16) = n + 16" and "int32 (ROUND (n + 16) 8) = ROUND (n + 16) 8"
proof -
  show "int32 (n + 16) = n + 16" using assms by (intro int32_id) auto
  have "ROUND (n + 16) 8 = n + 16 + 7 - (n + 16 + 7) mod 8" by (rule ROUND_8)
  moreover have "0 \<le> (n + 16 + 7) mod 8" "(n + 16 + 7) mod 8 \<le> 7" by simp_all
  ultimately show "int32 (ROUND (n + 16) 8) = ROUND (n + 16) 8" using assms by (intro int32_id) linarith+
qed

text \<open>A size for which the arithmetic wraps gives a block that begins behind its memory.\<close>

lemma int32_mod: "int32 x = (x + 2 ^ 31) mod 2 ^ 32 - 2 ^ 31"
  by (simp add: int32_def sint_sbintrunc' signed_take_bit_eq_take_bit_shift take_bit_eq_mod)

lemma int32_sizes_wrap:
  assumes "2 ^ 31 \<le> n + 23" and "n < 2 ^ 31"
  shows "int32 (ROUND (int32 (n + 16)) 8) \<le> 0"
proof (cases "n + 16 < 2 ^ 31")
  case True
  then have "int32 (n + 16) = n + 16" using assms by (intro int32_id) auto
  moreover have "(n + 23 - 2 ^ 31) mod 8 = n + 23 - 2 ^ 31" using assms True by (intro mod_pos_pos_trivial) auto
  moreover have "n + 23 = n + 23 - 2 ^ 31 + 8 * 2 ^ 28" by simp
  then have "(n + 23) mod 8 = (n + 23 - 2 ^ 31) mod 8" by (metis mod_mult_self2)
  ultimately have "ROUND (int32 (n + 16)) 8 = 2 ^ 31" by (simp add: ROUND_8 add.commute)
  then show ?thesis by (simp add: int32_mod)
next
  case False
  have "(n + 16 + 2 ^ 31 - 2 ^ 32) mod 2 ^ 32 = n + 16 + 2 ^ 31 - 2 ^ 32" using assms False by (intro mod_pos_pos_trivial) auto
  then have "(n + 16 + 2 ^ 31) mod 2 ^ 32 = n + 16 + 2 ^ 31 - 2 ^ 32" by (metis minus_mod_self2)
  then have s: "int32 (n + 16) = n + 16 - 2 ^ 32" by (simp add: int32_mod)
  define y where "y = ROUND (int32 (n + 16)) 8"
  have y: "y = n + 23 - 2 ^ 32 - (n + 23 - 2 ^ 32) mod 8" by (simp add: y_def s ROUND_8)
  have m: "0 \<le> x mod 8 \<and> x mod 8 \<le> 7" for x :: int by simp
  have n: "n + 16 \<ge> 2 ^ 31" using False by simp
  have "- (2 ^ 31) \<le> y" using y m [of "n + 23 - 2 ^ 32"] n by simp
  moreover have "y \<le> 0" using y m [of "n + 23 - 2 ^ 32"] assms(2) by simp
  ultimately have "int32 y = y" by (intro int32_id) auto
  with \<open>y \<le> 0\<close> show ?thesis by (simp add: y_def)
qed

lemma try_allocb_wraps:
  assumes "2 ^ 31 \<le> n + 23" and "n < 2 ^ 31" and "try_allocb n w = (Inr (Some b), w')"
  shows "BALLOC b \<le> b_wp b"
  using assms(3) int32_sizes_wrap [OF assms(1,2)]
  by (auto simp: try_allocb_def malloc_def and_then_def fetch_def seq_def modify_def ret_def raise_def Let_def BALLOC_def
      split: option.splits prod.splits sum.splits if_splits)

lemma try_allocb_run:
  assumes "kinv w M" and n: "0 \<le> n" "n + 23 < 2 ^ 31"
  shows "(\<exists>b. try_allocb n w = (Inr (Some b), w\<lparr>klive := insert (kcalls w) (klive w), kcalls := Suc (kcalls w)\<rparr>)
      \<and> fresh_block b n \<and> b_id b = kcalls w)
    \<or> try_allocb n w = (Inr None, w\<lparr>kcalls := Suc (kcalls w)\<rparr>)"
proof (cases "kmalloc w (kcalls w) (nat (n + 208))")
  case None
  have "nat ((128 + (n + 16) + 64) mod 2 ^ 32) = nat (n + 208)" using n by (simp add: add_ac)
  then show ?thesis
    using None by (simp add: try_allocb_def int32_sizes [OF n] malloc_def and_then_fetch and_then_def seq_def modify_def ret_def fetch_def)
next
  case (Some am)
  obtain a m where am: "am = (a, m)" by fastforce
  have req: "nat ((128 + (n + 16) + 64) mod 2 ^ 32) = nat (n + 208)" using n by (simp add: add_ac)
  define base where "base = ROUND (a + 128) 8"
  define lim where "lim = (a + int (length m)) AND - 8"
  define rp where "rp = lim - ROUND (n + 16) 8"
  define b where "b = \<lparr>b_id = kcalls w, b_mem = take (nat (lim - base)) (drop (nat (base - a)) m),
    b_rp = rp - base, b_wp = rp - base, b_flag = 0, b_free = False\<rparr>"
  have "nat (n + 208) \<le> length m"
    using kinvD(1) [OF assms(1)] Some unfolding good_malloc_def am by blast
  then have len: "n + 208 \<le> int (length m)" using n by linarith
  have lim: "lim = a + int (length m) - (a + int (length m)) mod 8"
    using and_not_7 [of "a + int (length m)"] by (simp add: lim_def)
  have base: "base = a + 128 + 7 - (a + 128 + 7) mod 8" by (simp add: base_def ROUND_8)
  have rp: "rp = lim - (n + 16 + 7 - (n + 16 + 7) mod 8)" by (simp add: rp_def ROUND_8)
  have mod8: "0 \<le> x mod 8 \<and> x mod 8 \<le> 7" for x :: int by simp
  have bounds: "a + 128 \<le> base" "base + 43 \<le> rp" "lim \<le> a + int (length m)" "rp + n + 16 \<le> lim"
    using len mod8 [of "a + int (length m)"] mod8 [of "a + 128 + 7"] mod8 [of "n + 16 + 7"]
    unfolding base rp lim by linarith+
  have BA: "BALLOC b = lim - base"
    using bounds n by (simp add: BALLOC_def b_def)
  have "fresh_block b n"
    using bounds len n unfolding fresh_block_def wfB_def BA by (simp add: b_def BLEN_def)
  moreover have "try_allocb n w = (Inr (Some b), w\<lparr>klive := insert (kcalls w) (klive w), kcalls := Suc (kcalls w)\<rparr>)"
    using Some bounds req
    by (simp add: am try_allocb_def int32_sizes [OF n] malloc_def and_then_fetch and_then_def seq_def modify_def ret_def fetch_def Let_def
        base_def [symmetric] lim_def [symmetric] rp_def [symmetric] b_def raise_def del: diff_numeral_special)
  ultimately show ?thesis by (auto simp: b_def)
qed

lemma try_allocb_plenty: "plenty w \<Longrightarrow> try_allocb n w \<noteq> (Inr None, w')"
  by (auto simp: plenty_def try_allocb_def malloc_def and_then_def fetch_def seq_def modify_def ret_def raise_def Let_def
      simp del: not_None_eq split: option.splits)

lemma still_refl [simp]: "still w w"
  by (simp add: still_def)

lemma still_trans: "still w w' \<Longrightarrow> still w' w'' \<Longrightarrow> still w w''"
  by (auto simp: still_def)

lemma still_later: "still w w' \<Longrightarrow> later w w'"
  by (simp add: later_def still_def)

lemma later_refl [simp]: "later w w"
  by (simp add: later_def)

lemma later_trans: "later w w' \<Longrightarrow> later w' w'' \<Longrightarrow> later w w''"
  unfolding later_def still_def ctx_def by auto

lemma later_plenty: "later w w' \<Longrightarrow> plenty w' = plenty w"
  by (simp add: later_def plenty_def ctx_def)

lemma later_ctx: "later w w' \<Longrightarrow> ctx w' = ctx w"
  by (simp add: later_def)

lemma later_kilocks: "later w w' \<Longrightarrow> kilocks w' = kilocks w"
  by (simp add: later_def ctx_def)

text \<open>Waiting: what others did keeps the invariant and leaves the blocks held here alone.\<close>

lemma ok_Run:
  assumes "ok M w" and "kenv w = Run f # es" and "kilocks w = []"
  shows "ok M (on_kst f (w\<lparr>kenv := es\<rparr>))" and "later w (on_kst f (w\<lparr>kenv := es\<rparr>))"
proof -
  let ?s = "kst.truncate (w\<lparr>kenv := es\<rparr>)"
  have "good_step f" using assms(1,2) by (simp add: ok_def rely_def)
  moreover have "kinv ?s M" using assms(1) by (simp add: ok_def)
  ultimately have "kinv (f ?s) M" and c: "ctx (f ?s) = ctx ?s" and d: "dom (kqueues ?s) \<subseteq> dom (kqueues (f ?s))"
    unfolding good_step_def by blast+
  then show "ok M (on_kst f (w\<lparr>kenv := es\<rparr>))"
    using assms(1,2) by (auto simp: ok_def rely_def)
  show "later w (on_kst f (w\<lparr>kenv := es\<rparr>))"
    using c d assms(2,3) by (simp add: later_def) (simp add: ctx_def)
qed

lemma ok_Note: "ok M w \<Longrightarrow> kenv w = Note # es \<Longrightarrow> ok M (w\<lparr>kenv := es\<rparr>)"
  by (auto simp: ok_def rely_def)

lemma later_Note: "kilocks w = [] \<Longrightarrow> kenv w = Note # es \<Longrightarrow> later w (w\<lparr>kenv := es\<rparr>)"
  by (simp add: later_def ctx_def)

lemma doze_wp:
  assumes "ok M w" and "kilocks w = []"
    and Q: "\<And>w'. ok M w' \<Longrightarrow> later w w' \<Longrightarrow> length (kenv w') < length (kenv w) \<Longrightarrow> Q () w'"
    and intr: "\<And>w'. ok M w' \<Longrightarrow> later w w' \<Longrightarrow> length (kenv w') < length (kenv w) \<Longrightarrow> E (Error Eintr) w'"
    and blocked: "kenv w = [] \<Longrightarrow> E Blocked w"
  shows "wp doze Q E w"
proof (cases "kenv w")
  case Nil
  then show ?thesis using blocked assms(2) by (simp add: wp_def doze_def)
next
  case (Cons e es)
  show ?thesis
  proof (cases e)
    case (Run f)
    then show ?thesis
      using Q [OF ok_Run [OF assms(1) _ assms(2)]] Cons assms(2) by (simp add: wp_def doze_def)
  next
    case Note
    then show ?thesis
      using intr [OF ok_Note [OF assms(1)] later_Note [OF assms(2)]] Cons assms(2) by (simp add: wp_def doze_def)
  qed
qed

lemma resrcwait_wp:
  assumes "ok M w" and "kilocks w = []"
    and Q: "\<And>w'. ok M w' \<Longrightarrow> later w w' \<Longrightarrow> length (kenv w') < length (kenv w) \<Longrightarrow> Q () w'"
    and blocked: "kenv w = [] \<Longrightarrow> E Blocked w"
  shows "wp resrcwait Q E w"
proof -
  let ?E = "\<lambda>e w'. case e of Error _ \<Rightarrow> Q () w' | _ \<Rightarrow> E e w'"
  have "wp doze Q ?E w" using assms by (intro doze_wp) auto
  then show ?thesis by (auto simp: wp_def resrcwait_def split: prod.splits sum.splits kexc.splits)
qed

lemma rely_upd [simp]:
  "rely (w\<lparr>klive := x1\<rparr>) = rely w" "rely (w\<lparr>kcalls := x2\<rparr>) = rely w" "rely (w\<lparr>kilocks := x3\<rparr>) = rely w"
  "rely (w\<lparr>kqlocks := x4\<rparr>) = rely w" "rely (w\<lparr>ktrace := x5\<rparr>) = rely w" "rely (w\<lparr>kqueues := x6\<rparr>) = rely w"
  "rely (w\<lparr>knerr := x7\<rparr>) = rely w"
  by (simp_all add: rely_def)

lemma still_upd [simp]:
  "still w (w\<lparr>klive := x1, kcalls := x2\<rparr>)" "still w (w\<lparr>kcalls := x2\<rparr>)" "still w (w\<lparr>klive := x1\<rparr>)" "still w (w\<lparr>knerr := x3\<rparr>)"
  by (simp_all add: still_def ctx_def)

lemma still_kenv: "still w w' \<Longrightarrow> kenv w' = kenv w"
  by (simp add: still_def)

lemma try_allocb_wp:
  assumes w: "ok M w" and n: "0 \<le> n" "n + 23 < 2 ^ 31"
    and Q: "\<And>b w'. ok (insert (b_id b) M) w' \<Longrightarrow> b_id b \<notin> M \<Longrightarrow> fresh_block b n \<Longrightarrow> still w w' \<Longrightarrow> Q (Some b) w'"
    and N: "\<And>w'. \<not> plenty w \<Longrightarrow> ok M w' \<Longrightarrow> still w w' \<Longrightarrow> Q None w'"
  shows "wp (try_allocb n) Q E w"
proof -
  let ?w = "w\<lparr>klive := insert (kcalls w) (klive w), kcalls := Suc (kcalls w)\<rparr>"
  have i: "kinv w M" using w by (simp add: ok_def)
  from try_allocb_run [OF i n] show ?thesis
  proof
    assume "\<exists>b. try_allocb n w = (Inr (Some b), ?w) \<and> fresh_block b n \<and> b_id b = kcalls w"
    then obtain b where b: "try_allocb n w = (Inr (Some b), ?w)" "fresh_block b n" "b_id b = kcalls w" by blast
    then have "Q (Some b) ?w"
      using kinv_alloc [OF i] w by (intro Q) (simp_all add: ok_def)
    then show ?thesis by (simp add: wp_def b)
  next
    assume r: "try_allocb n w = (Inr None, w\<lparr>kcalls := Suc (kcalls w)\<rparr>)"
    then have "\<not> plenty w" using try_allocb_plenty by blast
    then have "Q None (w\<lparr>kcalls := Suc (kcalls w)\<rparr>)"
      using w kinv_calls [OF i] by (intro N) (simp_all add: ok_def)
    then show ?thesis by (simp add: wp_def r)
  qed
qed

lemma try_allocb_later:
  assumes "ok M w" and "0 \<le> n" "n + 23 < 2 ^ 31"
    and "\<And>b w'. ok (insert (b_id b) M) w' \<Longrightarrow> b_id b \<notin> M \<Longrightarrow> fresh_block b n \<Longrightarrow> later w w' \<Longrightarrow> Q (Some b) w'"
    and "\<And>w'. \<not> plenty w \<Longrightarrow> ok M w' \<Longrightarrow> later w w' \<Longrightarrow> kenv w' = kenv w \<Longrightarrow> Q None w'"
  shows "wp (try_allocb n) Q E w"
  using assms(4,5) by (intro try_allocb_wp [OF assms(1-3)]) (simp_all add: still_later still_kenv)

lemma alloc_loop_wp:
  assumes "ok M w" and n: "0 \<le> n" "n + 23 < 2 ^ 31" and "length (kenv w) \<le> k"
    and "\<And>b w'. ok (insert (b_id b) M) w' \<Longrightarrow> b_id b \<notin> M \<Longrightarrow> fresh_block b n \<Longrightarrow> later w w' \<Longrightarrow> Q b w'"
    and "\<And>e w'. \<not> plenty w \<Longrightarrow> e = Panic \<or> e = Blocked \<Longrightarrow> ok M w' \<Longrightarrow> later w w' \<Longrightarrow> E e w'"
  shows "wp (alloc_loop k n) Q E w"
  using assms(1,4-)
proof (induction k arbitrary: w)
  case (0 w)
  have "wp resrcwait (\<lambda>_. E Blocked) E w'" if "ok M w'" "kilocks w' = []" "\<not> plenty w" "later w w'" "kenv w' = kenv w" for w'
    using that 0 by (intro resrcwait_wp [of M]) auto
  then show ?case
    using 0 n unfolding alloc_loop.simps [of 0]
    by (auto simp: wp_flow intro!: try_allocb_later [of M])
next
  case (Suc k)
  have rest: "wp (alloc_loop k n) Q E w''" if "ok M w'" "later w w'" "ok M w''" "later w' w''" "length (kenv w'') \<le> k" for w' w''
    using that later_trans [OF that(2,4)] later_plenty [OF later_trans [OF that(2,4)]]
    by (intro Suc.IH Suc.prems) (auto intro: later_trans)
  have "wp resrcwait (\<lambda>_. wp (alloc_loop k n) Q E) E w'"
    if "ok M w'" "kilocks w' = []" "\<not> plenty w" "later w w'" "kenv w' = kenv w" for w'
    using that Suc.prems
    by (intro resrcwait_wp [of M] rest [of w']) auto
  then show ?case
    using Suc.prems n unfolding alloc_loop.simps [of "Suc k"]
    by (auto simp: wp_flow intro!: try_allocb_later [of M])
qed

lemma allocb_wp:
  assumes "ok M w" and n: "0 \<le> n" "n + 23 < 2 ^ 31"
    and "\<And>b w'. ok (insert (b_id b) M) w' \<Longrightarrow> b_id b \<notin> M \<Longrightarrow> fresh_block b n \<Longrightarrow> later w w' \<Longrightarrow> Q b w'"
    and "\<And>e w'. \<not> plenty w \<Longrightarrow> e = Panic \<or> e = Blocked \<Longrightarrow> ok M w' \<Longrightarrow> later w w' \<Longrightarrow> E e w'"
  shows "wp (allocb n) Q E w"
  using assms by (auto simp: allocb_def wp_flow plenty_def intro!: alloc_loop_wp [of M])

lemma freeb_wp:
  assumes "ok M w" and "b_id b \<in> M"
    and "\<And>w'. ok (M - {b_id b}) w' \<Longrightarrow> still w w' \<Longrightarrow> Q () w'"
  shows "wp (freeb b) Q E w"
proof -
  have i: "kinv w M" using assms(1) by (simp add: ok_def)
  note f = kinv_free [OF i assms(2)]
  let ?w = "w\<lparr>klive := klive w - {b_id b}\<rparr>"
  have "ok (M - {b_id b}) ?w" "ok (M - {b_id b}) (?w\<lparr>ktrace := t\<rparr>)" for t using f(1) assms(1) by (simp_all add: ok_def)
  then show ?thesis
    using f(2) by (auto simp: freeb_def wp_flow emit_def ctx_def still_def intro!: assms(3))
qed

lemma freeblist_wp:
  assumes "ok M w" and "ids bs \<subseteq> M" and "distinct (map b_id bs)"
    and "\<And>w'. ok (M - ids bs) w' \<Longrightarrow> still w w' \<Longrightarrow> Q () w'"
  shows "wp (freeblist bs) Q E w"
  using assms
proof (induction bs arbitrary: M w)
  case Nil
  then show ?case by (simp add: freeblist_def wp_flow)
next
  case (Cons b bs)
  have rest: "wp (freeblist bs) Q E w'" if "ok (M - {b_id b}) w'" "still w w'" for w'
  proof (rule Cons.IH [OF that(1)])
    have "b_id b \<notin> ids bs" using Cons.prems(3) by (simp add: ids_def)
    then show "ids bs \<subseteq> M - {b_id b}" using Cons.prems(2) by auto
    show "distinct (map b_id bs)" using Cons.prems(3) by simp
  next
    fix w'' assume w'': "ok (M - {b_id b} - ids bs) w''" "still w' w''"
    have "M - {b_id b} - ids bs = M - ids (b # bs)" by auto
    with w'' show "Q () w''" by (intro Cons.prems(4)) (simp_all only: still_trans [OF that(2)])
  qed
  have "wp (freeb b) (\<lambda>_. wp (freeblist bs) Q E) E w"
    by (rule freeb_wp [OF Cons.prems(1) _ rest]) (use Cons.prems(2) in simp)
  then show ?case by (simp add: freeblist_def wp_flow)
qed

section \<open>Exchanging chains\<close>

text \<open>
  The contract of the routines on chains: the caller gives up the chain \<open>bs\<close> and holds \<open>r\<close>
  instead; blocks not in \<open>bs\<close> are not touched. Their only failures come from lack of memory.
\<close>

definition turns :: "nat set \<Rightarrow> Block list \<Rightarrow> Block list \<Rightarrow> world \<Rightarrow> world \<Rightarrow> bool" where
  "turns M bs r w w' \<longleftrightarrow> ok ((M - ids bs) \<union> ids r) w' \<and> chain r \<and> ids r \<inter> (M - ids bs) = {} \<and> later w w'"

lemma turns_same:
  assumes "ok M w'" and "chain r" and "ids r = ids bs" and "ids bs \<subseteq> M" and "later w w'"
  shows "turns M bs r w w'"
proof -
  have "(M - ids bs) \<union> ids r = M" using assms(3,4) by auto
  then show ?thesis using assms by (auto simp: turns_def)
qed

definition starved :: "world \<Rightarrow> kexc \<Rightarrow> world \<Rightarrow> bool" where
  "starved w e w' \<longleftrightarrow> \<not> plenty w \<and> (e = Panic \<or> e = Blocked)"

lemma allocb_starved:
  assumes "ok M w" and "0 \<le> n" "n + 23 < 2 ^ 31"
    and "\<And>b w'. ok (insert (b_id b) M) w' \<Longrightarrow> b_id b \<notin> M \<Longrightarrow> fresh_block b n \<Longrightarrow> later w w' \<Longrightarrow> Q b w'"
  shows "wp (allocb n) Q (starved w) w"
  using assms by (auto intro!: allocb_wp [of M] simp: starved_def)

end
