(* ===== verification/Blocks_Props.thy ===== *)
theory Blocks_Props
  imports Own
begin

text \<open>
  Correctness of the routines on chains of blocks: which bytes the resulting chain carries, that
  no block is lost or used after its release, that no access leaves a block's memory, and that
  lack of memory is the only way they fail.
\<close>

section \<open>Padding and pulling up\<close>

lemma freshD:
  assumes "fresh_block b n"
  shows "wfB b" "bytes_of b = []" "BLEN b = 0" "b_wp b = b_rp b" "b_wp b + n \<le> BALLOC b"
  using assms by (auto simp: fresh_block_def bytes_of_def BLEN_def)

lemma fresh_room: "fresh_block b n \<Longrightarrow> m \<le> n \<Longrightarrow> b_wp b + m \<le> BALLOC b"
  using freshD(5) [of b n] by simp

lemma whole_slice [simp]: "wfB b \<Longrightarrow> take (nat (BLEN b)) (bytes_of b) = bytes_of b"
  using length_bytes_of [of b] by (intro take_all) linarith

text \<open>Copying a whole block into a block with room.\<close>

lemma bmove_all:
  assumes "wfB nb" "wfB b" "b_wp nb + BLEN b \<le> BALLOC nb"
  shows "wp (bmove nb b (b_rp b) (BLEN b)) Q E w = Q (grown nb (bytes_of b)) w"
  using wp_bmove [OF assms(1,2), of 0 "BLEN b" "b_rp b"] assms BLEN_nonneg [OF assms(2)] by simp

lemma later_still: "later w w' \<Longrightarrow> still w' w'' \<Longrightarrow> later w w''"
  by (blast intro: later_trans still_later)

text \<open>Replacing one block of a chain by a new one that holds the same bytes.\<close>

lemma replace_turns:
  assumes "ok (insert (b_id nb) M) w1" "b_id nb \<notin> M" "b_id b \<in> M" "later w w1" "wfB nb'" "b_id nb' = b_id nb"
    and "chain (b # nxt)" "ids nxt \<subseteq> M"
    and "\<And>w'. turns M (b # nxt) (nb' # nxt) w w' \<Longrightarrow> Q () w'"
  shows "wp (freeb b) Q E w1"
proof (rule freeb_wp [OF assms(1)])
  fix w' assume w': "ok (insert (b_id nb) M - {b_id b}) w'" "still w1 w'"
  have "(M - ids (b # nxt)) \<union> ids (nb' # nxt) = insert (b_id nb) M - {b_id b}"
    using assms(2,3,6-8) by auto
  then have "turns M (b # nxt) (nb' # nxt) w w'"
    unfolding turns_def using w' assms by (auto intro: later_still)
  then show "Q () w'" by (rule assms(9))
qed (use assms(3) in simp)

text \<open>The bytes in front of a block that padding uncovers.\<close>

lemma pad_front:
  assumes "wfB b" and "0 \<le> n" and "n \<le> b_rp b" and "BLEN b + n < 2 ^ 31"
  shows "wfB (b\<lparr>b_rp := b_rp b - n\<rparr>)" and "drop (nat n) (bytes_of (b\<lparr>b_rp := b_rp b - n\<rparr>)) = bytes_of b"
    and "BLEN (b\<lparr>b_rp := b_rp b - n\<rparr>) = BLEN b + n"
    and "length (bytes_of (b\<lparr>b_rp := b_rp b - n\<rparr>)) = nat n + length (bytes_of b)"
proof -
  show f: "wfB (b\<lparr>b_rp := b_rp b - n\<rparr>)" using assms by (simp add: wfB_def BALLOC_def BLEN_def)
  show l: "BLEN (b\<lparr>b_rp := b_rp b - n\<rparr>) = BLEN b + n" by (simp add: BLEN_def)
  have "nat (BLEN b + n) - nat n = nat (BLEN b)" "nat n + nat (b_rp b - n) = nat (b_rp b)"
    using assms by (auto simp: wfB_def BLEN_def)
  then show "drop (nat n) (bytes_of (b\<lparr>b_rp := b_rp b - n\<rparr>)) = bytes_of b"
    unfolding bytes_of_def drop_take drop_drop l by simp
  have "int (length (bytes_of (b\<lparr>b_rp := b_rp b - n\<rparr>))) = int (nat n + length (bytes_of b))"
    using f l assms by simp
  then show "length (bytes_of (b\<lparr>b_rp := b_rp b - n\<rparr>)) = nat n + length (bytes_of b)" by linarith
qed

lemma padblock_front:
  assumes w: "ok M w" and bs: "chain (bp # nxt)" "ids (bp # nxt) \<subseteq> M" and n: "0 \<le> n" "n + BLEN bp + 23 < 2 ^ 31"
  shows "wp (padblock (bp # nxt) n) (\<lambda>r w'. turns M (bp # nxt) r w w'
      \<and> drop (nat n) (data r) = data (bp # nxt) \<and> blocklen r = n + blocklen (bp # nxt)) (starved w) w"
proof (cases "n \<le> b_rp bp")
  case True
  note p = pad_front [OF _ n(1) True]
  show ?thesis
    using True n bs w p by (auto simp: wp_flow intro!: turns_same)
next
  case False
  have bp: "wfB bp" "0 \<le> BLEN bp" using bs(1) BLEN_nonneg by simp_all
  have sz: "int32 (n + BLEN bp) = n + BLEN bp" using n bp by (intro int32_id) auto
  show ?thesis
    using False n
    apply (simp add: wp_flow Let_def sz)
    apply (rule allocb_starved [OF w])
    using n bp apply (simp, simp add: add.commute)
    subgoal for nb w1
    proof -
      assume a: "ok (insert (b_id nb) M) w1" "b_id nb \<notin> M" "fresh_block nb (n + BLEN bp)" "later w w1"
      let ?nb = "nb\<lparr>b_rp := b_rp nb + n, b_wp := b_rp nb + n\<rparr>"
      have nb: "wfB ?nb" "BALLOC ?nb = BALLOC nb" "bytes_of ?nb = []" "BLEN ?nb = 0" "b_rp nb + n + BLEN bp + 16 \<le> BALLOC nb" "43 \<le> b_rp nb"
        using a(3) n bp by (auto simp: fresh_block_def wfB_def bytes_of_def BLEN_def BALLOC_def)
      let ?g = "grown ?nb (bytes_of bp)"
      have g: "wfB ?g" "bytes_of ?g = bytes_of bp" "BLEN ?g = BLEN bp"
        using nb bp BLEN_bound [OF bp(1)] by auto
      note p = pad_front [OF g(1) n(1)]
      show ?thesis
        using nb bp g n
        apply (simp add: bmove_all)
        apply (rule replace_turns [where nb' = "?g\<lparr>b_rp := b_rp ?g - n\<rparr>", OF a(1,2) _ a(4)])
        using bs p apply (simp_all)
        done
    qed
    done
qed


lemma padblock_back:
  assumes w: "ok M w" and bs: "chain (bp # nxt)" "ids (bp # nxt) \<subseteq> M" and n: "n < 0" "BLEN bp - n + 23 < 2 ^ 31"
  shows "wp (padblock (bp # nxt) n) (\<lambda>r w'. turns M (bp # nxt) r w w' \<and> data r = data (bp # nxt)
      \<and> r \<noteq> [] \<and> - n \<le> BALLOC (hd r) - b_wp (hd r)) (starved w) w"
proof (cases "- n \<le> BALLOC bp - b_wp bp")
  case True
  then show ?thesis
    using n bs w by (auto simp: wp_flow intro!: turns_same)
next
  case False
  have bp: "wfB bp" "0 \<le> BLEN bp" using bs(1) BLEN_nonneg by simp_all
  have step: "wp (bmove nb bp (b_rp bp) (BLEN bp)) (\<lambda>nb. wp (freeb bp) (\<lambda>_ w'. turns M (bp # nxt) (nb # nxt) w w'
      \<and> data (nb # nxt) = data (bp # nxt) \<and> - n \<le> BALLOC nb - b_wp nb) (starved w)) (starved w) w1"
    if a: "ok (insert (b_id nb) M) w1" "b_id nb \<notin> M" "fresh_block nb (BLEN bp - n)" "later w w1" for nb w1
  proof -
    have nb: "wfB nb" "bytes_of nb = []" "BLEN nb = 0" "b_wp nb + BLEN bp - n \<le> BALLOC nb" using freshD [OF a(3)] by auto
    then have g: "wfB (grown nb (bytes_of bp))" "BALLOC (grown nb (bytes_of bp)) = BALLOC nb"
      using bp n BLEN_bound [OF bp(1)] by auto
    show ?thesis
      using nb bp g n bs by (auto simp: bmove_all intro!: replace_turns [OF a(1,2) _ a(4) g(1)])
  qed
  have "0 \<le> BLEN bp - n" using n bp(2) by linarith
  moreover from this have sz: "int32 (BLEN bp - n) = BLEN bp - n" using n by (intro int32_id) auto
  ultimately show ?thesis
    using False n bp step by (auto simp: wp_flow Let_def sz intro!: allocb_starved [OF w])
qed

text \<open>Losing the first block of a chain.\<close>

lemma turns_free:
  assumes "turns (M - {b_id b}) xs r w1 w'" and "later w w1" and "ids ys = insert (b_id b) (ids xs)"
  shows "turns M ys r w w'"
proof -
  have "M - {b_id b} - ids xs = M - ids ys" using assms(3) by auto
  then show ?thesis using assms(1,2) unfolding turns_def by (auto intro: later_trans)
qed

lemma skip_front:
  assumes "wfB b" and "0 \<le> n" and "n \<le> BLEN b"
  shows "wfB (b\<lparr>b_rp := b_rp b + n\<rparr>)" and "bytes_of (b\<lparr>b_rp := b_rp b + n\<rparr>) = drop (nat n) (bytes_of b)"
    and "BLEN (b\<lparr>b_rp := b_rp b + n\<rparr>) = BLEN b - n"
proof -
  show "wfB (b\<lparr>b_rp := b_rp b + n\<rparr>)" using assms by (simp add: wfB_def BALLOC_def BLEN_def)
  show l: "BLEN (b\<lparr>b_rp := b_rp b + n\<rparr>) = BLEN b - n" by (simp add: BLEN_def)
  have "nat (BLEN b - n) = nat (BLEN b) - nat n" "nat (b_rp b + n) = nat n + nat (b_rp b)"
    using assms by (auto simp: wfB_def)
  then show "bytes_of (b\<lparr>b_rp := b_rp b + n\<rparr>) = drop (nat n) (bytes_of b)"
    unfolding bytes_of_def drop_take drop_drop l by simp
qed

lemma cut_back:
  assumes "wfB b" and "0 \<le> n" and "n \<le> BLEN b"
  shows "wfB (b\<lparr>b_wp := b_wp b - n\<rparr>)" and "bytes_of (b\<lparr>b_wp := b_wp b - n\<rparr>) = take (nat (BLEN b - n)) (bytes_of b)"
    and "BLEN (b\<lparr>b_wp := b_wp b - n\<rparr>) = BLEN b - n"
proof -
  show "wfB (b\<lparr>b_wp := b_wp b - n\<rparr>)" using assms by (simp add: wfB_def BALLOC_def BLEN_def)
  show l: "BLEN (b\<lparr>b_wp := b_wp b - n\<rparr>) = BLEN b - n" by (simp add: BLEN_def)
  have "min (nat (BLEN b - n)) (nat (BLEN b)) = nat (BLEN b - n)" using assms by simp
  then show "bytes_of (b\<lparr>b_wp := b_wp b - n\<rparr>) = take (nat (BLEN b - n)) (bytes_of b)"
    unfolding bytes_of_def l take_take by simp
qed

text \<open>The copying loop of \<^verbatim>\<open>pullupblock\<close>.\<close>

definition pulled :: "Block \<Rightarrow> int \<Rightarrow> Block list \<Rightarrow> Block list \<Rightarrow> bool" where
  "pulled bp n nxt r \<longleftrightarrow> (if n \<le> blocklen nxt
     then data r = data (bp # nxt) \<and> r \<noteq> [] \<and> BLEN (hd r) = BLEN bp + n else r = [])"

lemma pull_loop_wp:
  assumes "ok M w" and "chain (bp # nxt)" and "ids (bp # nxt) \<subseteq> M" and "0 < n" and "b_wp bp + n \<le> BALLOC bp"
    and "BLEN bp + n < 2 ^ 31"
  shows "wp (pull_loop bp n nxt) (\<lambda>r w'. turns M (bp # nxt) r w w' \<and> pulled bp n nxt r) E w"
  using assms
proof (induction nxt arbitrary: bp n M w)
  case Nil
  then show ?case by (auto simp: wp_flow turns_def pulled_def intro!: freeb_wp [of M] intro: still_later)
next
  case (Cons nb nxt)
  have wf: "wfB bp" "wfB nb" "chain nxt" using Cons.prems(2) by auto
  show ?case
  proof (cases "n < BLEN nb")
    case True
    let ?x = "take (nat n) (bytes_of nb)"
    let ?g = "grown bp ?x" and ?nb = "nb\<lparr>b_rp := b_rp nb + n\<rparr>"
    note s = skip_front [OF wf(2), of n]
    have "int (length (bytes_of nb)) = BLEN nb" using wf by simp
    then have l: "int (length ?x) = n" using True Cons.prems(4) by simp
    then have g: "wfB ?g" "bytes_of ?g = bytes_of bp @ ?x" "BLEN ?g = BLEN bp + n"
      using Cons.prems wf by auto
    have le: "n \<le> BLEN nb + blocklen nxt" using blocklen_nonneg [OF wf(3)] True by linarith
    have "turns M (bp # nb # nxt) (?g # ?nb # nxt) w w \<and> pulled bp n (nb # nxt) (?g # ?nb # nxt)"
      using Cons.prems wf g s True le
      by (auto simp: pulled_def intro!: turns_same)
    then show ?thesis
      using True wf Cons.prems by (simp add: wp_flow Let_def wp_bmove [where o' = 0])
  next
    case False
    let ?g = "grown bp (bytes_of nb)" and ?m = "n - BLEN nb"
    have g: "wfB ?g" "bytes_of ?g = bytes_of bp @ bytes_of nb" "BLEN ?g = BLEN bp + BLEN nb" "BALLOC ?g = BALLOC bp"
        "b_wp ?g = b_wp bp + BLEN nb"
      using Cons.prems wf False by auto
    have sub: "ids (?g # nxt) \<subseteq> M - {b_id nb}" using Cons.prems(2,3) by auto
    have "wp (if ?m = 0 then ret (?g # nxt) else pull_loop ?g ?m nxt)
        (\<lambda>r w'. turns M (bp # nb # nxt) r w w' \<and> pulled bp n (nb # nxt) r) E w1"
      if w1: "ok (M - {b_id nb}) w1" "still w w1" for w1
    proof (cases "?m = 0")
      have tf: "turns M (bp # nb # nxt) r w w'" if "turns (M - {b_id nb}) (?g # nxt) r w1 w'" for r w'
        by (rule turns_free [OF that still_later [OF w1(2)]]) auto
      case True
      then have "turns (M - {b_id nb}) (?g # nxt) (?g # nxt) w1 w1" "pulled bp n (nb # nxt) (?g # nxt)"
        using Cons.prems(2) w1 sub g blocklen_nonneg [OF wf(3)]
        by (auto simp: pulled_def intro!: turns_same)
      then show ?thesis using True tf by (auto simp: wp_flow)
    next
      have tf: "turns M (bp # nb # nxt) r w w'" if "turns (M - {b_id nb}) (?g # nxt) r w1 w'" for r w'
        by (rule turns_free [OF that still_later [OF w1(2)]]) auto
      case False
      have "wp (pull_loop ?g ?m nxt) (\<lambda>r w'. turns (M - {b_id nb}) (?g # nxt) r w1 w' \<and> pulled ?g ?m nxt r) E w1"
        using Cons.prems wf g sub False \<open>\<not> n < BLEN nb\<close> by (intro Cons.IH [OF w1(1)]) auto
      then show ?thesis
        using False tf g
        by (auto simp: pulled_def elim!: wp_conseq)
    qed
    then have "wp (freeb nb) (\<lambda>_. wp (if ?m = 0 then ret (?g # nxt) else pull_loop ?g ?m nxt)
        (\<lambda>r w'. turns M (bp # nb # nxt) r w w' \<and> pulled bp n (nb # nxt) r) E) E w"
      using Cons.prems(1,3) by (intro freeb_wp [of M]) auto
    then show ?thesis
      using False wf Cons.prems BLEN_nonneg [OF wf(2)] by (simp add: wp_flow Let_def bmove_all not_less)
  qed
qed

lemma pullupblock_wp:
  assumes w: "ok M w" and bs: "chain (bp # nxt)" "ids (bp # nxt) \<subseteq> M" and n: "n + 23 < 2 ^ 31"
  shows "wp (pullupblock (bp # nxt) n) (\<lambda>r w'. turns M (bp # nxt) r w w' \<and>
      (if n \<le> blocklen (bp # nxt) then data r = data (bp # nxt) \<and> r \<noteq> [] \<and> n \<le> BLEN (hd r) else r = []))
    (starved w) w"
proof (cases "n \<le> BLEN bp")
  case True
  have "0 \<le> blocklen nxt" using bs blocklen_nonneg by simp
  with True have "n \<le> BLEN bp + blocklen nxt" by linarith
  with True show ?thesis
    using bs w
    by (auto simp: wp_flow intro!: turns_same)
next
  case False
  have wf: "wfB bp" "chain nxt" "0 \<le> BLEN bp" using bs BLEN_nonneg by auto
  show ?thesis
  proof (cases "BALLOC bp - b_rp bp < n")
    case True
    have "wp (pull_loop nb (n - BLEN nb) (bp # nxt)) (\<lambda>r w'. turns M (bp # nxt) r w w' \<and>
      (if n \<le> blocklen (bp # nxt) then data r = data (bp # nxt) \<and> r \<noteq> [] \<and> n \<le> BLEN (hd r) else r = []))
      (starved w) w1" if a: "ok (insert (b_id nb) M) w1" "b_id nb \<notin> M" "fresh_block nb n" "later w w1" for nb w1
    proof -
      note nb = freshD [OF a(3)]
      have "wp (pull_loop nb n (bp # nxt)) (\<lambda>r w'. turns (insert (b_id nb) M) (nb # bp # nxt) r w1 w'
          \<and> pulled nb n (bp # nxt) r) (starved w) w1"
        using a bs nb False wf n by (intro pull_loop_wp) auto
      moreover have "insert (b_id nb) M - ids (nb # bp # nxt) = M - ids (bp # nxt)" using a(2) by auto
      ultimately show ?thesis
        using nb False a(4) by (auto simp: pulled_def turns_def elim!: wp_conseq intro: later_trans)
    qed
    then show ?thesis
      using True False n wf by (auto simp: wp_flow intro!: allocb_starved [OF w])
  next
    case room: False
    have "wp (pull_loop bp (n - BLEN bp) nxt) (\<lambda>r w'. turns M (bp # nxt) r w w' \<and> pulled bp (n - BLEN bp) nxt r) (starved w) w"
      using bs w room False n by (intro pull_loop_wp) (auto simp: BLEN_def)
    then show ?thesis using room False by (auto simp: pulled_def elim!: wp_conseq)
  qed
qed

lemma concatblock_wp:
  assumes w: "ok M w" and bs: "chain bs" "ids bs \<subseteq> M" "bs \<noteq> []" and n: "blocklen bs + 23 < 2 ^ 31"
  shows "wp (concatblock bs) (\<lambda>r w'. turns M bs r w w' \<and> data r = data bs \<and> r \<noteq> [] \<and> BLEN (hd r) = blocklen bs)
    (starved w) w"
proof (cases bs rule: concatblock.cases)
  case (2 bp)
  then show ?thesis using w bs by (auto simp: wp_flow intro!: turns_same)
next
  case (3 bp b nxt)
  have "wp (pullupblock bs (blocklen bs)) (\<lambda>r w'. turns M bs r w w' \<and>
      (if blocklen bs \<le> blocklen bs then data r = data bs \<and> r \<noteq> [] \<and> blocklen bs \<le> BLEN (hd r) else r = []))
    (starved w) w" using pullupblock_wp [OF w, of bp "b # nxt" "blocklen bs"] bs n unfolding 3 by (simp del: pullupblock.simps)
  moreover have "BLEN (hd r) = blocklen bs" if "chain r" "data r = data bs" "r \<noteq> []" "blocklen bs \<le> BLEN (hd r)" for r
  proof -
    have "blocklen r = blocklen bs" using length_data [OF that(1)] length_data [OF bs(1)] that(2) by simp
    moreover have "BLEN (hd r) \<le> blocklen r"
      using that(1,3) blocklen_nonneg [of "tl r"] by (cases r) auto
    ultimately show ?thesis using that(4) by linarith
  qed
  ultimately show ?thesis unfolding 3 concatblock.simps by (elim wp_conseq) (auto simp: turns_def)
qed (use bs in simp)


section \<open>Trimming\<close>

lemma u32_less_iff: "0 \<le> a \<Longrightarrow> a < 2 ^ 32 \<Longrightarrow> 0 \<le> b \<Longrightarrow> b < 2 ^ 32 \<Longrightarrow> u32_less a b \<longleftrightarrow> a < b"
  by (simp add: u32_less_def word_less_def uint_word_of_int)

lemma trim_front_wp:
  assumes "ok M w" and "chain bs" and "ids bs \<subseteq> M" and "0 \<le> off" "off < 2 ^ 31" and "off \<le> blocklen bs" and "bs \<noteq> []"
    and "\<And>o' b nxt w'. ok (M - (ids bs - ids (b # nxt))) w' \<Longrightarrow> still w w' \<Longrightarrow> chain (b # nxt) \<Longrightarrow>
      ids (b # nxt) \<subseteq> ids bs \<Longrightarrow> 0 \<le> o' \<Longrightarrow> o' \<le> BLEN b \<Longrightarrow>
      drop (nat off) (data bs) = drop (nat o') (data (b # nxt)) \<Longrightarrow> Q (o', b # nxt) w'"
  shows "wp (trim_front bs off) Q E w"
  using assms
proof (induction bs arbitrary: M w off)
  case (Cons b nxt)
  have b: "wfB b" "0 \<le> BLEN b" "BLEN b < 2 ^ 31" "chain nxt" "b_id b \<notin> ids nxt"
    using Cons.prems(2) BLEN_nonneg BLEN_bound by auto
  show ?case
  proof (cases "BLEN b < off")
    case False
    then have "Q (off, b # nxt) w" using Cons.prems by (intro Cons.prems(8)) auto
    then show ?thesis using False b Cons.prems(4,5) by (simp add: wp_flow u32_less_iff)
  next
    case True
    have l: "length (bytes_of b) = nat (BLEN b)" using length_bytes_of [OF b(1)] by linarith
    have "wp (trim_front nxt (off - BLEN b)) Q E w1" if w1: "ok (M - {b_id b}) w1" "still w w1" for w1
    proof (rule Cons.IH [OF w1(1) b(4)])
      show "ids nxt \<subseteq> M - {b_id b}" "off - BLEN b \<le> blocklen nxt" "0 \<le> off - BLEN b" "off - BLEN b < 2 ^ 31"
        using Cons.prems b True by auto
      then show "nxt \<noteq> []" using True by auto
    next
      fix o' c nxt' w' assume h: "ok (M - {b_id b} - (ids nxt - ids (c # nxt'))) w'" "still w1 w'" "chain (c # nxt')"
        "ids (c # nxt') \<subseteq> ids nxt" "0 \<le> o'" "o' \<le> BLEN c"
        "drop (nat (off - BLEN b)) (data nxt) = drop (nat o') (data (c # nxt'))"
      have "M - (ids (b # nxt) - ids (c # nxt')) = M - {b_id b} - (ids nxt - ids (c # nxt'))" using h(4) b(5) by auto
      moreover have "drop (nat off) (data (b # nxt)) = drop (nat (off - BLEN b)) (data nxt)"
        using True l b by (simp add: nat_diff_distrib)
      ultimately show "Q (o', c # nxt') w'"
        using h still_trans [OF w1(2) h(2)] by (intro Cons.prems(8)) auto
    qed
    then have "wp (freeb b) (\<lambda>_. wp (trim_front nxt (off - BLEN b)) Q E) E w"
      using Cons.prems(1,3) by (intro freeb_wp [of M]) auto
    then show ?thesis using True b Cons.prems(4,5) by (simp add: wp_flow u32_less_iff)
  qed
qed simp

lemma trim_back_wp:
  assumes "ok M w" and "chain bs" and "ids bs \<subseteq> M" and "0 \<le> len" "len < 2 ^ 31" and "len \<le> blocklen bs" and "bs \<noteq> []"
    and "\<And>r w'. ok (M - (ids bs - ids r)) w' \<Longrightarrow> still w w' \<Longrightarrow> chain r \<Longrightarrow> ids r \<subseteq> ids bs \<Longrightarrow>
      data r = take (nat len) (data bs) \<Longrightarrow> Q r w'"
  shows "wp (trim_back bs len) Q E w"
  using assms
proof (induction bs arbitrary: M w len Q)
  case (Cons b nxt)
  have b: "wfB b" "0 \<le> BLEN b" "BLEN b < 2 ^ 31" "chain nxt" "b_id b \<notin> ids nxt"
    using Cons.prems(2) BLEN_nonneg BLEN_bound by auto
  have l: "length (bytes_of b) = nat (BLEN b)" using length_bytes_of [OF b(1)] by linarith
  show ?case
  proof (cases "BLEN b < len")
    case False
    let ?b = "b\<lparr>b_wp := b_wp b - (BLEN b - len)\<rparr>"
    note c = cut_back [OF b(1), of "BLEN b - len"]
    have "wp (freeblist nxt) (\<lambda>_. Q [?b]) E w"
    proof (rule freeblist_wp [OF Cons.prems(1)])
      fix w' assume "ok (M - ids nxt) w'" "still w w'"
      moreover have "M - ids nxt = M - (ids (b # nxt) - ids [?b])" using b(5) by auto
      ultimately show "Q [?b] w'"
        using c False l Cons.prems(4) by (intro Cons.prems(8)) auto
    qed (use Cons.prems b in \<open>auto simp: chain_def\<close>)
    then show ?thesis using False b Cons.prems(4,5) by (simp add: wp_flow u32_less_iff)
  next
    case True
    have "wp (trim_back nxt (len - BLEN b)) (\<lambda>r. Q (b # r)) E w"
    proof (rule Cons.IH [OF Cons.prems(1) b(4)])
      show "ids nxt \<subseteq> M" "len - BLEN b \<le> blocklen nxt" "0 \<le> len - BLEN b" "len - BLEN b < 2 ^ 31"
        using Cons.prems b True by auto
      then show "nxt \<noteq> []" using True by auto
    next
      fix r w' assume h: "ok (M - (ids nxt - ids r)) w'" "still w w'" "chain r" "ids r \<subseteq> ids nxt"
        "data r = take (nat (len - BLEN b)) (data nxt)"
      have "M - (ids (b # nxt) - ids (b # r)) = M - (ids nxt - ids r)" using b(5) by auto
      moreover have "data (b # r) = take (nat len) (data (b # nxt))"
        using True l b h(5) by (simp add: nat_diff_distrib)
      ultimately show "Q (b # r) w'" using h b by (intro Cons.prems(8)) auto
    qed
    then show ?thesis using True b Cons.prems(4,5) by (simp add: wp_flow u32_less_iff)
  qed
qed simp

lemma trimblock_wp:
  assumes w: "ok M w" and bs: "chain bs" "ids bs \<subseteq> M" "bs \<noteq> []"
    and o: "0 \<le> off" "off < 2 ^ 31" and len: "0 \<le> len" "len < 2 ^ 31" and sm: "off + len < 2 ^ 31"
  shows "wp (trimblock bs off len) (\<lambda>r w'. turns M bs r w w' \<and>
      (if off + len \<le> blocklen bs then data r = take (nat len) (drop (nat off) (data bs)) else r = []))
    (\<lambda>_ _. False) w"
proof (cases "off + len \<le> blocklen bs")
  case False
  then show ?thesis
    using w bs o len int32_id [OF _ sm] by (auto simp: trimblock_def wp_flow turns_def chain_def still_later intro!: freeblist_wp [of M])
next
  case True
  have "wp (trim_back (b\<lparr>b_rp := b_rp b + o'\<rparr> # nxt) len) (\<lambda>r w'. turns M bs r w w' \<and>
      data r = take (nat len) (drop (nat off) (data bs))) (\<lambda>_ _. False) w1"
    if h: "ok (M - (ids bs - ids (b # nxt))) w1" "still w w1" "chain (b # nxt)" "ids (b # nxt) \<subseteq> ids bs"
      "0 \<le> o'" "o' \<le> BLEN b" "drop (nat off) (data bs) = drop (nat o') (data (b # nxt))" for o' b nxt w1
  proof (rule trim_back_wp [OF h(1)])
    let ?b = "b\<lparr>b_rp := b_rp b + o'\<rparr>"
    have wf: "wfB b" using h(3) by simp
    note s = skip_front [OF wf h(5,6)]
    show ch: "chain (?b # nxt)" using h(3) s(1) by simp
    show "ids (?b # nxt) \<subseteq> M - (ids bs - ids (b # nxt))" using h(4) bs(2) by auto
    have l: "length (bytes_of b) = nat (BLEN b)" using length_bytes_of [OF wf] by linarith
    have d: "data (?b # nxt) = drop (nat off) (data bs)" using s(2) h(5-7) l by simp
    have "blocklen (?b # nxt) = blocklen bs - off"
      using length_data [OF ch] length_data [OF bs(1)] True o len unfolding d by simp
    then show "len \<le> blocklen (?b # nxt)" using True by simp
    fix r w' assume r: "ok (M - (ids bs - ids (b # nxt)) - (ids (?b # nxt) - ids r)) w'" "still w1 w'" "chain r"
      "ids r \<subseteq> ids (?b # nxt)" "data r = take (nat len) (data (?b # nxt))"
    have "M - (ids bs - ids (b # nxt)) - (ids (?b # nxt) - ids r) = (M - ids bs) \<union> ids r"
      using r(4) h(4) bs(2) by auto
    then show "turns M bs r w w' \<and> data r = take (nat len) (drop (nat off) (data bs))"
      using r h(4) still_trans [OF h(2) r(2)] unfolding turns_def d by (auto intro: still_later)
  qed (use len in auto)
  then show ?thesis
    using True bs o len int32_id [OF _ sm] by (auto simp: trimblock_def wp_flow intro!: trim_front_wp [OF w])
qed

section \<open>Copying\<close>

lemma length_bytes_nat: "wfB b \<Longrightarrow> length (bytes_of b) = nat (BLEN b)"
  using length_bytes_of [of b] by linarith

lemma copy_loop_wp:
  assumes "wfB nb" and "chain bs" and "0 \<le> n" and "b_wp nb + n \<le> BALLOC nb" and "BLEN nb + n < 2 ^ 31"
    and "\<And>c g. wfB g \<Longrightarrow> b_id g = b_id nb \<Longrightarrow> bytes_of g = bytes_of nb @ take (nat n) (data bs) \<Longrightarrow>
      c = max 0 (n - blocklen bs) \<Longrightarrow> b_wp g + c \<le> BALLOC g \<Longrightarrow> BLEN g + c = BLEN nb + n \<Longrightarrow> Q (c, g) w"
  shows "wp (copy_loop nb n bs) Q E w"
  using assms
proof (induction bs arbitrary: nb n)
  case Nil
  then show ?case by (simp add: wp_flow)
next
  case (Cons b bs)
  have b: "wfB b" "0 \<le> BLEN b" "chain bs" using Cons.prems(2) BLEN_nonneg by auto
  note l = length_bytes_nat [OF b(1)] and nn = blocklen_nonneg [OF b(3)]
  show ?case
  proof (cases "n = 0")
    case True
    have "Q (n, nb) w" using True Cons.prems(1,4) b nn by (intro Cons.prems(6)) auto
    with True show ?thesis by (simp add: wp_flow)
  next
    case False
    define m where "m = (if BLEN b > n then n else BLEN b)"
    let ?g = "grown nb (take (nat m) (bytes_of b))"
    have m: "0 \<le> m" "m \<le> n" "m \<le> BLEN b" using Cons.prems(3) b by (auto simp: m_def)
    have lx: "int (length (take (nat m) (bytes_of b))) = m" using m l by simp
    have g: "wfB ?g" "BALLOC ?g = BALLOC nb" "b_wp ?g = b_wp nb + m"
        "bytes_of ?g = bytes_of nb @ take (nat m) (bytes_of b)" "BLEN ?g = BLEN nb + m"
      using Cons.prems(1,4,5) m lx by auto
    have "wp (copy_loop ?g (n - m) bs) Q E w"
    proof (rule Cons.IH)
      fix c g assume h: "wfB g" "b_id g = b_id ?g" "bytes_of g = bytes_of ?g @ take (nat (n - m)) (data bs)"
        "c = max 0 (n - m - blocklen bs)" "b_wp g + c \<le> BALLOC g" "BLEN g + c = BLEN ?g + (n - m)"
      have "take (nat m) (bytes_of b) @ take (nat (n - m)) (data bs) = take (nat n) (data (b # bs))"
        using m l b by (auto simp: m_def nat_diff_distrib)
      moreover have "c = max 0 (n - blocklen (b # bs))"
        using h(4) nn b by (auto simp: m_def)
      ultimately show "Q (c, g) w" using h g(4,5) by (intro Cons.prems(6)) auto
    qed (use g m b Cons.prems(4,5) in auto)
    then have "wp (bmove nb b (b_rp b) m) (\<lambda>g. wp (copy_loop g (n - m) bs) Q E) E w"
      using wp_bmove [OF Cons.prems(1) b(1), of 0 m "b_rp b"] m Cons.prems(4) by simp
    then show ?thesis using False Cons.prems(3) by (simp add: wp_flow Let_def m_def)
  qed
qed

definition copied :: "Block list \<Rightarrow> int \<Rightarrow> bytes" where
  "copied bs n = take (nat n) (data bs) @ replicate (nat (n - blocklen bs)) 0"

lemma copyblock_wp:
  assumes w: "ok M w" and bs: "chain bs" and n: "0 \<le> n" "n + 23 < 2 ^ 31"
    and Q: "\<And>b w'. ok (insert (b_id b) M) w' \<Longrightarrow> b_id b \<notin> M \<Longrightarrow> wfB b \<Longrightarrow> bytes_of b = copied bs n \<Longrightarrow>
      later w w' \<Longrightarrow> Q b w'"
  shows "wp (copyblock bs n) Q (starved w) w"
proof -
  have "wp (copy_loop nb n bs) (\<lambda>(c, g). wp (if c > 0 then bput g (replicate (nat c) 0) else ret g) Q (starved w)) (starved w) w1"
    if a: "ok (insert (b_id nb) M) w1" "b_id nb \<notin> M" "fresh_block nb n" "later w w1" for nb w1
  proof (rule copy_loop_wp)
    fix c g assume g: "wfB g" "b_id g = b_id nb" "bytes_of g = bytes_of nb @ take (nat n) (data bs)"
      "c = max 0 (n - blocklen bs)" "b_wp g + c \<le> BALLOC g" "BLEN g + c = BLEN nb + n"
    have c: "nat (n - blocklen bs) = nat c" using g(4) by auto
    have "bytes_of g @ replicate (nat c) 0 = copied bs n" using g(3) freshD(2) [OF a(3)] c by (simp add: copied_def)
    moreover have "b_wp g + int (length (replicate (nat c) (0::byte))) \<le> BALLOC g" "0 \<le> c"
      "BLEN g + c < 2 ^ 31" using g(4-6) freshD(3) [OF a(3)] n by auto
    ultimately show "(case (c, g) of (c, g) \<Rightarrow> wp (if c > 0 then bput g (replicate (nat c) 0) else ret g) Q (starved w)) w1"
      using a g(1,2) by (auto simp: wp_flow wp_bput intro!: Q)
  qed (use freshD [OF a(3)] bs n in auto)
  then show ?thesis
    using n by (auto simp: copyblock_def wp_flow split_def intro!: allocb_starved [OF w])
qed

text \<open>
  Adjusting a block to \<open>len\<close> bytes: cut, or filled with zeros. Only when the first block is too
  small do the blocks behind it count.
\<close>

definition adjusted :: "Block \<Rightarrow> Block list \<Rightarrow> int \<Rightarrow> Block list \<Rightarrow> bool" where
  "adjusted bp nxt len r \<longleftrightarrow> (if b_rp bp + len > BALLOC bp then data r = copied (bp # nxt) len \<and> length r = 1
     else \<exists>g. r = g # nxt \<and> bytes_of g = copied [bp] len)"

lemma adjustblock_wp:
  assumes w: "ok M w" and bs: "chain (bp # nxt)" "ids (bp # nxt) \<subseteq> M" and len: "0 \<le> len" "len + 23 < 2 ^ 31"
  shows "wp (adjustblock (bp # nxt) len) (\<lambda>r w'. turns M (bp # nxt) r w w' \<and> adjusted bp nxt len r) (starved w) w"
proof (cases "b_rp bp + len > BALLOC bp")
  case True
  have "wp (freeblist (bp # nxt)) (\<lambda>_ w'. turns M (bp # nxt) [b] w w' \<and> adjusted bp nxt len [b]) (starved w) w1"
    if a: "ok (insert (b_id b) M) w1" "b_id b \<notin> M" "wfB b" "bytes_of b = copied (bp # nxt) len" "later w w1" for b w1
  proof (rule freeblist_wp [OF a(1)])
    fix w' assume w': "ok (insert (b_id b) M - ids (bp # nxt)) w'" "still w1 w'"
    have "(M - ids (bp # nxt)) \<union> ids [b] = insert (b_id b) M - ids (bp # nxt)" using a(2) bs(2) by auto
    then show "turns M (bp # nxt) [b] w w' \<and> adjusted bp nxt len [b]"
      using a w' True by (auto simp: turns_def adjusted_def intro: later_still)
  qed (use bs in \<open>auto simp: chain_def\<close>)
  then show ?thesis using True len by (auto simp: wp_flow intro!: copyblock_wp [OF w bs(1)])
next
  case False
  have b: "wfB bp" "0 \<le> BLEN bp" using bs(1) BLEN_nonneg by auto
  note l = length_bytes_nat [OF b(1)]
  show ?thesis
  proof (cases "len > BLEN bp")
    case True
    let ?z = "replicate (nat (len - BLEN bp)) (0 :: byte)"
    let ?g = "grown bp ?z"
    have r: "b_wp bp + int (length ?z) \<le> BALLOC bp" using False True by (simp add: BLEN_def)
    have "?g\<lparr>b_wp := b_rp ?g + len\<rparr> = ?g" using True by (simp add: grown_def BLEN_def)
    moreover have "bytes_of ?g = copied [bp] len" "wfB ?g" using r b True l len by (simp_all add: copied_def)
    moreover have "turns M (bp # nxt) (?g # nxt) w w" using r b bs w len True by (intro turns_same) auto
    ultimately have "turns M (bp # nxt) (?g\<lparr>b_wp := b_rp ?g + len\<rparr> # nxt) w w
        \<and> adjusted bp nxt len (?g\<lparr>b_wp := b_rp ?g + len\<rparr> # nxt)"
      using False by (simp add: adjusted_def)
    then show ?thesis using True False len b r by (simp add: wp_flow Let_def wp_bput)
  next
    case le: False
    let ?g = "bp\<lparr>b_wp := b_rp bp + len\<rparr>"
    have g: "?g = bp\<lparr>b_wp := b_wp bp - (BLEN bp - len)\<rparr>" by (simp add: BLEN_def)
    note c = cut_back [OF b(1), of "BLEN bp - len", folded g]
    have "turns M (bp # nxt) (?g # nxt) w w" "bytes_of ?g = copied [bp] len"
      using c le bs w len l by (auto simp: copied_def intro!: turns_same)
    then show ?thesis using le False len by (simp add: wp_flow Let_def adjusted_def)
  qed
qed

section \<open>Consuming and repacking\<close>

lemma pullblock_wp:
  assumes "ok M w" and "chain bs" and "ids bs \<subseteq> M" and "0 \<le> n"
  shows "wp (pullblock bs n) (\<lambda>(m, r) w'. turns M bs r w w' \<and> data r = drop (nat n) (data bs)
      \<and> m = min n (blocklen bs)) E w"
  using assms
proof (induction bs arbitrary: M w n)
  case Nil
  then show ?case by (auto simp: wp_flow intro!: turns_same)
next
  case (Cons b bs)
  have b: "wfB b" "0 \<le> BLEN b" "chain bs" "b_id b \<notin> ids bs" using Cons.prems(2) BLEN_nonneg by auto
  note l = length_bytes_nat [OF b(1)] and nn = blocklen_nonneg [OF b(3)]
  show ?case
  proof (cases "n < BLEN b")
    case True
    note s = skip_front [OF b(1) Cons.prems(4)]
    show ?thesis
      using True Cons.prems s b nn l by (auto simp: wp_flow Let_def intro!: turns_same)
  next
    case False
    let ?b = "b\<lparr>b_rp := b_rp b + BLEN b\<rparr>"
    have z: "BLEN ?b = 0" "b_id ?b = b_id b" by (simp_all add: BLEN_def)
    have "wp (pullblock bs (n - BLEN b)) (\<lambda>(m, r) w'. turns M (b # bs) r w w' \<and> data r = drop (nat n) (data (b # bs))
      \<and> BLEN b + m = min n (blocklen (b # bs))) E w1" if w1: "ok (M - {b_id b}) w1" "still w w1" for w1
    proof -
      have "ids bs \<subseteq> M - {b_id b}" "0 \<le> n - BLEN b" using Cons.prems(3) b(4) False by auto
      from Cons.IH [OF w1(1) b(3) this] show ?thesis
      proof (rule wp_conseq, clarify)
        fix m r w' assume h: "turns (M - {b_id b}) bs r w1 w'" "data r = drop (nat (n - BLEN b)) (data bs)"
        have "turns M (b # bs) r w w'" by (rule turns_free [OF h(1) still_later [OF w1(2)]]) simp
        moreover have "nat n - length (bytes_of b) = nat (n - BLEN b)" "nat n \<ge> length (bytes_of b)"
          using False l b by auto
        ultimately show "turns M (b # bs) r w w' \<and> data r = drop (nat n) (data (b # bs))
            \<and> BLEN b + min (n - BLEN b) (blocklen bs) = min n (blocklen (b # bs))"
          using h(2) by auto
      qed simp
    qed
    then have "wp (freeb ?b) (\<lambda>_. wp (pullblock bs (n - BLEN b)) (\<lambda>(m, r) w'. turns M (b # bs) r w w'
        \<and> data r = drop (nat n) (data (b # bs)) \<and> BLEN b + m = min n (blocklen (b # bs))) E) E w"
      using Cons.prems(1,3) z(2) by (intro freeb_wp [of M]) auto
    moreover have "turns M (b # bs) (b # bs) w w" "n = 0 \<Longrightarrow> BLEN b = 0"
      using Cons.prems False b by (auto intro!: turns_same)
    ultimately show ?thesis
      using False z nn b by (auto simp: wp_flow Let_def split_def)
  qed
qed

lemma starved_later: "later w w1 \<Longrightarrow> starved w1 = starved w"
  by (simp add: starved_def fun_eq_iff later_plenty)

lemma turns_Cons:
  assumes "turns ((M - {b_id b}) \<union> {b_id l}) bs r w1 w'" and "later w w1" and "wfB l"
    and "b_id l \<notin> M - {b_id b}" and "ids (b # bs) \<subseteq> M" and "b_id b \<notin> ids bs"
  shows "turns M (b # bs) (l # r) w w'"
proof -
  let ?M = "(M - {b_id b}) \<union> {b_id l}"
  have "b_id l \<notin> ids bs" using assms(4-6) by auto
  then have "(?M - ids bs) \<union> ids r = (M - ids (b # bs)) \<union> ids (l # r)" "b_id l \<in> ?M - ids bs" by auto
  then show ?thesis using assms unfolding turns_def by (auto intro: later_trans)
qed

lemma packblock_wp:
  assumes "ok M w" and "chain bs" and "ids bs \<subseteq> M" and "\<forall>b\<in>set bs. BLEN b + 23 < 2 ^ 31"
  shows "wp (packblock bs) (\<lambda>r w'. turns M bs r w w' \<and> map bytes_of r = map bytes_of bs) (starved w) w"
  using assms
proof (induction bs arbitrary: M w)
  case Nil
  then show ?case by (auto simp: wp_flow intro!: turns_same)
next
  case (Cons b bs)
  have b: "wfB b" "0 \<le> BLEN b" "BLEN b < 2 ^ 31" "chain bs" "b_id b \<notin> ids bs"
    using Cons.prems(2) BLEN_nonneg BLEN_bound by auto
  have rest: "wp (packblock bs) (\<lambda>r w'. turns M (b # bs) (l # r) w w' \<and> map bytes_of (l # r) = map bytes_of (b # bs))
      (starved w) w1" if l: "ok ((M - {b_id b}) \<union> {b_id l}) w1" "later w w1" "wfB l" "bytes_of l = bytes_of b"
      "b_id l \<notin> M - {b_id b}" for l w1
  proof -
    have "ids bs \<subseteq> (M - {b_id b}) \<union> {b_id l}" using Cons.prems(3) b(5) by auto
    moreover have "\<forall>b\<in>set bs. BLEN b + 23 < 2 ^ 31" using Cons.prems(4) by simp
    ultimately have "wp (packblock bs) (\<lambda>r w'. turns ((M - {b_id b}) \<union> {b_id l}) bs r w1 w' \<and> map bytes_of r = map bytes_of bs) (starved w1) w1"
      by (rule Cons.IH [OF l(1) b(4)])
    then show ?thesis
      unfolding starved_later [OF l(2)]
      by (rule wp_conseq) (use l(4) turns_Cons [OF _ l(2,3,5) Cons.prems(3) b(5)] in auto)
  qed
  have same: "(M - {b_id b}) \<union> {b_id b} = M" using Cons.prems(3) by auto
  show ?case
  proof (cases "BLEN b * 4 < BALLOC b")
    case False
    then show ?thesis using rest [of b w] Cons.prems(1) b same by (simp add: wp_flow Let_def)
  next
    case True
    have "wp (bmove nb b (b_rp b) (BLEN b)) (\<lambda>l. wp (freeb b) (\<lambda>_. wp (packblock bs)
        (\<lambda>r w'. turns M (b # bs) (l # r) w w' \<and> map bytes_of (l # r) = map bytes_of (b # bs)) (starved w)) (starved w))
        (starved w) w1" if a: "ok (insert (b_id nb) M) w1" "b_id nb \<notin> M" "fresh_block nb (BLEN b)" "later w w1" for nb w1
    proof -
      note nb = freshD [OF a(3)]
      have "wp (freeb b) (\<lambda>_. wp (packblock bs) (\<lambda>r w'. turns M (b # bs) (grown nb (bytes_of b) # r) w w'
          \<and> map bytes_of (grown nb (bytes_of b) # r) = map bytes_of (b # bs)) (starved w)) (starved w) w1"
      proof (rule freeb_wp [OF a(1)])
        fix w2 assume "ok (insert (b_id nb) M - {b_id b}) w2" "still w1 w2"
        moreover have "insert (b_id nb) M - {b_id b} = (M - {b_id b}) \<union> {b_id nb}" using a(2) Cons.prems(3) by auto
        ultimately show "wp (packblock bs) (\<lambda>r w'. turns M (b # bs) (grown nb (bytes_of b) # r) w w'
          \<and> map bytes_of (grown nb (bytes_of b) # r) = map bytes_of (b # bs)) (starved w) w2"
          using a nb b by (intro rest) (auto intro: later_still)
      qed (use Cons.prems(3) in simp)
      then show ?thesis using nb b by (simp add: bmove_all)
    qed
    then show ?thesis using True b Cons.prems(4) by (auto simp: wp_flow Let_def intro!: allocb_starved [OF Cons.prems(1)])
  qed
qed

lemma splitblock_wp:
  assumes w: "ok M w" and a: "wfB a" "b_id a \<in> M" and n: "0 \<le> n" "n \<le> BLEN a"
    and Q: "\<And>h t w'. turns M [a] [h, t] w w' \<Longrightarrow> bytes_of h = take (nat (BLEN a - n)) (bytes_of a) \<Longrightarrow>
      bytes_of t = drop (nat (BLEN a - n)) (bytes_of a) \<Longrightarrow> Q (h, t) w'"
  shows "wp (splitblock a n) Q (starved w) w"
proof -
  let ?m = "BLEN a - n"
  note l = length_bytes_nat [OF a(1)]
  have bound: "?m < 2 ^ 31" "n < 2 ^ 31" "?m < n \<Longrightarrow> ?m + 23 < 2 ^ 31" "\<not> ?m < n \<Longrightarrow> n + 23 < 2 ^ 31" using BLEN_bound [OF a(1)] n by auto
  have turns: "turns M [a] [h, t] w w1" if "ok (insert (b_id nb) M) w1" "b_id nb \<notin> M" "later w w1" "wfB h" "wfB t"
    "{b_id h, b_id t} = {b_id nb, b_id a}" for h t nb w1
  proof -
    have eq: "(M - ids [a]) \<union> ids [h, t] = insert (b_id nb) M" using that(6) a(2) by auto
    have "b_id h \<noteq> b_id t" using that(2,6) a(2) by (auto simp: doubleton_eq_iff)
    then show ?thesis unfolding turns_def eq using that a(2) by (auto simp: doubleton_eq_iff)
  qed
  show ?thesis
  proof (cases "?m < n")
    case True
    note s = skip_front [OF a(1), of ?m]
    have "wp (bmove b a (b_rp a) ?m) (\<lambda>b. Q (b, a\<lparr>b_rp := b_rp a + ?m\<rparr>)) (starved w) w1"
      if b: "ok (insert (b_id b) M) w1" "b_id b \<notin> M" "fresh_block b ?m" "later w w1" for b w1
    proof -
      note f = freshD [OF b(3)]
      have "Q (grown b (take (nat ?m) (bytes_of a)), a\<lparr>b_rp := b_rp a + ?m\<rparr>) w1"
        using f n s l b bound by (intro Q turns [of b]) auto
      then show ?thesis using wp_bmove [OF f(1) a(1), of 0 ?m "b_rp a"] f n by simp
    qed
    then show ?thesis using True bound n by (auto simp: splitblock_def wp_flow Let_def intro!: allocb_starved [OF w])
  next
    case False
    let ?a = "a\<lparr>b_wp := b_wp a - n\<rparr>"
    note c = cut_back [OF a(1) n]
    have p: "b_wp ?a = b_rp a + ?m" "b_rp ?a = b_rp a" "BALLOC ?a = BALLOC a" by (simp_all add: BLEN_def BALLOC_def)
    have rd: "bread ?a (b_wp ?a) n = bread a (b_rp a + ?m) n" unfolding bread_def p by simp
    have "wp (bmove b ?a (b_wp ?a) n) (\<lambda>b. Q (?a, b)) (starved w) w1"
      if b: "ok (insert (b_id b) M) w1" "b_id b \<notin> M" "fresh_block b n" "later w w1" for b w1
    proof -
      note f = freshD [OF b(3)]
      let ?x = "take (nat n) (drop (nat ?m) (bytes_of a))"
      have x: "?x = drop (nat ?m) (bytes_of a)" using l n by simp
      have "Q (?a, grown b ?x) w1"
        using f n c l b x bound by (intro Q turns [of b]) auto
      then show ?thesis
        using wp_bmove [OF f(1) a(1), of ?m n "b_rp a + ?m"] f n unfolding bmove_def rd by simp
    qed
    then show ?thesis using False bound n by (auto simp: splitblock_def wp_flow Let_def intro!: allocb_starved [OF w])
  qed
qed

lemma readblist_wp:
  assumes "chain bs" and "0 \<le> off"
  shows "wp (readblist bs n off) Q E w = Q (take (nat n) (drop (nat off) (data bs))) w"
  using assms
proof (induction bs arbitrary: n off Q)
  case Nil
  then show ?case by (simp add: wp_flow)
next
  case (Cons b bs)
  have b: "wfB b" "0 \<le> BLEN b" "chain bs" using Cons.prems(1) BLEN_nonneg by auto
  note l = length_bytes_nat [OF b(1)]
  consider "n \<le> 0" | "0 < n" "BLEN b \<le> off" | "0 < n" "off < BLEN b" by linarith
  then show ?case
  proof cases
    case 1
    then show ?thesis by (simp add: wp_flow)
  next
    case 2
    then have "drop (nat off) (data (b # bs)) = drop (nat (off - BLEN b)) (data bs)"
      using l b by (simp add: nat_diff_distrib)
    then show ?thesis using 2 Cons.IH [OF b(3), of "off - BLEN b"] b by (simp add: wp_flow Let_def)
  next
    case 3
    define m where "m = (if n < BLEN b - off then n else BLEN b - off)"
    have m: "0 \<le> m" "off + m \<le> BLEN b" "m \<le> n" using 3 by (auto simp: m_def)
    have rd: "wp (bread b (b_rp b + off) m) Q' E w = Q' (take (nat m) (drop (nat off) (bytes_of b))) w" for Q'
      using bytes_of_slice [OF b(1) Cons.prems(2) m(1,2)] m b Cons.prems(2) by (simp add: wp_bread wfB_def BLEN_def)
    have "take (nat n) (drop (nat off) (data (b # bs))) =
        take (nat m) (drop (nat off) (bytes_of b)) @ take (nat (n - m)) (data bs)"
      using 3 l Cons.prems(2) by (auto simp: m_def nat_diff_distrib)
    then show ?thesis
      using 3 Cons.IH [OF b(3), of 0] rd by (simp add: wp_flow Let_def m_def)
  qed
qed

section \<open>Properties\<close>

text \<open>A normal end as an equation, when memory is available.\<close>

lemma wp_plenty: "wp m Q (starved w) w \<Longrightarrow> plenty w \<Longrightarrow> \<exists>x w'. m w = (Inr x, w') \<and> Q x w'"
  by (auto simp: wp_def starved_def split: prod.splits sum.splits)

lemma wp_fails: "wp m Q (starved w) w \<Longrightarrow> m w = (Inl e, w') \<Longrightarrow> e = Panic \<or> e = Blocked"
  by (auto simp: wp_def starved_def)

text \<open>A state with two blocks held, for the examples.\<close>

definition calm :: "nat \<Rightarrow> nat set \<Rightarrow> (nat \<rightharpoonup> Queue) \<Rightarrow> world" where
  "calm k live qs = \<lparr>kmalloc = (\<lambda>_ n. Some (4100, replicate n 0)), kcalls = k, knerr = 0, klive = live, kup = True,
     knlocks = 0, kislo = True, kexiting = False, kilocks = [], kqlocks = [], ktrace = [], kqueues = qs, kenv = [],
     kkick = (\<lambda>_ s. s), kbypass = (\<lambda>_ bs s. s\<lparr>klive := klive s - ids bs\<rparr>)\<rparr>"

definition blk :: "nat \<Rightarrow> bytes \<Rightarrow> Block" where
  "blk i bs = \<lparr>b_id = i, b_mem = bs @ [0, 0], b_rp = 0, b_wp = int (length bs), b_flag = 0, b_free = False\<rparr>"

lemma blk_simps [simp]: "b_id (blk i bs) = i" "BLEN (blk i bs) = int (length bs)" "bytes_of (blk i bs) = bs"
    "BALLOC (blk i bs) = int (length bs) + 2" "length bs < 2 ^ 31 \<Longrightarrow> wfB (blk i bs)"
  by (simp_all add: blk_def BLEN_def bytes_of_def BALLOC_def wfB_def)

lemma kinv_free_chain:
  assumes "kinv s (M \<union> ids bs)" and "ids bs \<inter> M = {}"
  shows "kinv (s\<lparr>klive := klive s - ids bs\<rparr>) M"
proof -
  note d = kinvD [OF assms(1)]
  have "klive s - ids bs = M \<union> queued s" "M \<inter> queued s = {}" using d(3,4) assms(2) by blast+
  moreover have "\<forall>j\<in>klive s - ids bs. j < kcalls s" using d(2) by blast
  ultimately show ?thesis using d(1,5,7,8) unfolding kinv_def by (intro conjI) auto
qed

lemma calm_plenty [simp]: "plenty (calm k l qs)" "rely (calm k l qs)"
  by (simp_all add: plenty_def calm_def rely_def good_step_def good_bypass_def kinv_free_chain) (simp add: ctx_def)

lemma calm_ok: "(\<And>i. i \<in> l \<Longrightarrow> i < k) \<Longrightarrow> ok l (calm k l Map.empty)"
  using calm_plenty(2) [of k l Map.empty]
  by (auto simp: ok_def kinv_def good_malloc_def calm_def queued_def)

text \<open>
  C8. \<^verbatim>\<open>allocb\<close> gives a process a block that nobody else holds, empty, with room for the bytes asked
  for and the trailer, and at least 43 bytes in front for headers, wherever the pool allocator
  placed the memory: the \<^verbatim>\<open>panic("_allocb")\<close> is never reached. When memory is short, and only
  then, it panics or waits. This is so for every size up to \<open>2 ^ 31 - 24\<close>, the last for which the 32-bit arithmetic of \<^verbatim>\<open>_allocb\<close> does not wrap.
\<close>

theorem allocb_correct:
  assumes "ok M w" and "0 \<le> n" and "n + 23 < 2 ^ 31"
  shows "case allocb n w of
      (Inr b, w') \<Rightarrow> ok (insert (b_id b) M) w' \<and> b_id b \<notin> M \<and> fresh_block b n \<and> later w w'
    | (Inl e, w') \<Rightarrow> ok M w' \<and> \<not> plenty w \<and> (e = Panic \<or> e = Blocked)"
  using allocb_wp [OF assms, where Q = "\<lambda>b w'. ok (insert (b_id b) M) w' \<and> b_id b \<notin> M \<and> fresh_block b n \<and> later w w'"
      and E = "\<lambda>e w'. ok M w' \<and> \<not> plenty w \<and> (e = Panic \<or> e = Blocked)"]
  by (auto simp: wp_def)

theorem allocb_correct_witness:
  "case allocb 10 (calm 2 {0, 1} Map.empty) of
      (Inr b, w') \<Rightarrow> ok {b_id b, 0, 1} w' \<and> b_id b \<notin> {0, 1} \<and> fresh_block b 10 \<and> later (calm 2 {0, 1} Map.empty) w'
    | (Inl e, w') \<Rightarrow> False"
proof -
  have "ok {0, 1} (calm 2 {0, 1} Map.empty)" by (rule calm_ok) auto
  from allocb_correct [OF this, of 10] show ?thesis
    by (auto split: prod.splits sum.splits)
qed

text \<open>
  \<^verbatim>\<open>padblock\<close> with a positive count makes room in front: the chain it returns carries the old
  bytes after \<open>n\<close> new ones, in the old blocks or in a copy whose original is freed, and no other
  block is touched.
\<close>

theorem padblock_correct:
  assumes "ok M w" and "plenty w" and "chain bs" and "ids bs \<subseteq> M" and "bs \<noteq> []"
    and "0 \<le> n" and "n + blocklen bs + 23 < 2 ^ 31"
  shows "\<exists>r w'. padblock bs n w = (Inr r, w') \<and> turns M bs r w w'
    \<and> drop (nat n) (data r) = data bs \<and> blocklen r = n + blocklen bs"
proof -
  obtain bp nxt where bs: "bs = bp # nxt" using assms(5) by (cases bs) auto
  have "n + BLEN bp + 23 < 2 ^ 31" using assms(3,7) blocklen_nonneg [of nxt] by (simp add: bs)
  from wp_plenty [OF padblock_front [OF assms(1) _ _ assms(6) this] assms(2)] assms(3,4)
  show ?thesis unfolding bs by blast
qed

theorem padblock_correct_witness:
  "\<exists>r w'. padblock [blk 0 [7, 8], blk 1 [9]] 5 (calm 2 {0, 1} Map.empty) = (Inr r, w')
    \<and> turns {0, 1} [blk 0 [7, 8], blk 1 [9]] r (calm 2 {0, 1} Map.empty) w'
    \<and> drop 5 (data r) = [7, 8, 9] \<and> blocklen r = 8"
proof -
  have "ok {0, 1} (calm 2 {0, 1} Map.empty)" by (rule calm_ok) auto
  from padblock_correct [OF this, of "[blk 0 [7, 8], blk 1 [9]]" 5] show ?thesis
    by (simp del: padblock.simps)
qed

text \<open>
  \<^verbatim>\<open>pullupblock\<close> brings the first \<open>n\<close> bytes of a chain into its first block without changing the
  bytes of the chain; a chain with fewer bytes is freed entirely and nil returned. It fails only
  for lack of memory.
\<close>

theorem pullupblock_correct:
  assumes "ok M w" and "chain bs" and "ids bs \<subseteq> M" and "bs \<noteq> []" and "n + 23 < 2 ^ 31"
  shows "case pullupblock bs n w of
      (Inr r, w') \<Rightarrow> turns M bs r w w' \<and>
        (if n \<le> blocklen bs then data r = data bs \<and> r \<noteq> [] \<and> n \<le> BLEN (hd r) else r = [])
    | (Inl e, w') \<Rightarrow> \<not> plenty w \<and> (e = Panic \<or> e = Blocked)"
proof -
  obtain bp nxt where bs: "bs = bp # nxt" using assms(4) by (cases bs) auto
  from pullupblock_wp [OF assms(1) _ _ assms(5)] assms(2,3) show ?thesis
    unfolding bs by (simp only: wp_def starved_def)
qed

theorem pullupblock_correct_witness:
  "case pullupblock [blk 0 [7, 8], blk 1 [9, 10]] 3 (calm 2 {0, 1} Map.empty) of
      (Inr r, w') \<Rightarrow> turns {0, 1} [blk 0 [7, 8], blk 1 [9, 10]] r (calm 2 {0, 1} Map.empty) w'
        \<and> data r = [7, 8, 9, 10] \<and> r \<noteq> [] \<and> 3 \<le> BLEN (hd r)
    | (Inl e, w') \<Rightarrow> False"
proof -
  have "ok {0, 1} (calm 2 {0, 1} Map.empty)" by (rule calm_ok) auto
  from pullupblock_correct [OF this, of "[blk 0 [7, 8], blk 1 [9, 10]]" 3] show ?thesis
    by (simp del: pullupblock.simps add: split_def split: sum.splits)
qed

text \<open>
  \<^verbatim>\<open>trimblock\<close> always returns, and what it returns is exactly the \<open>len\<close> bytes at \<open>offset\<close>, in blocks of
  the chain, with every other block of the chain freed; a chain too short for that is freed and
  nil returned.
\<close>

theorem trimblock_correct:
  assumes "ok M w" and "chain bs" and "ids bs \<subseteq> M" and "bs \<noteq> []"
    and "0 \<le> off" "off < 2 ^ 31" and "0 \<le> len" "len < 2 ^ 31" and "off + len < 2 ^ 31"
  shows "\<exists>r w'. trimblock bs off len w = (Inr r, w') \<and> turns M bs r w w' \<and>
      (if off + len \<le> blocklen bs then data r = take (nat len) (drop (nat off) (data bs)) else r = [])"
  using trimblock_wp [OF assms] by (simp only: wp_total_iff)

theorem trimblock_correct_witness:
  "\<exists>r w'. trimblock [blk 0 [7, 8], blk 1 [9, 10]] 1 2 (calm 2 {0, 1} Map.empty) = (Inr r, w')
    \<and> turns {0, 1} [blk 0 [7, 8], blk 1 [9, 10]] r (calm 2 {0, 1} Map.empty) w' \<and> data r = [8, 9]"
proof -
  have "ok {0, 1} (calm 2 {0, 1} Map.empty)" by (rule calm_ok) auto
  from trimblock_correct [OF this, of "[blk 0 [7, 8], blk 1 [9, 10]]" 1 2] show ?thesis by simp
qed

text \<open>
  \<^verbatim>\<open>packblock\<close> replaces blocks that are mostly empty by smaller ones: the chain keeps its
  blocks' contents one by one, and every block replaced is freed.
\<close>

theorem packblock_correct:
  assumes "ok M w" and "plenty w" and "chain bs" and "ids bs \<subseteq> M" and "\<forall>b\<in>set bs. BLEN b + 23 < 2 ^ 31"
  shows "\<exists>r w'. packblock bs w = (Inr r, w') \<and> turns M bs r w w' \<and> map bytes_of r = map bytes_of bs"
  using wp_plenty [OF packblock_wp [OF assms(1,3,4,5)] assms(2)] .

theorem packblock_correct_witness:
  "\<exists>r w'. packblock [blk 0 [], blk 1 [9, 10]] (calm 2 {0, 1} Map.empty) = (Inr r, w')
    \<and> turns {0, 1} [blk 0 [], blk 1 [9, 10]] r (calm 2 {0, 1} Map.empty) w' \<and> map bytes_of r = [[], [9, 10]]"
proof -
  have "ok {0, 1} (calm 2 {0, 1} Map.empty)" by (rule calm_ok) auto
  from packblock_correct [OF this, of "[blk 0 [], blk 1 [9, 10]]"] show ?thesis
    by (simp del: packblock.simps)
qed

end
