(* ===== verification/Queue_Rules.thy ===== *)
theory Queue_Rules
  imports Queues Blocks_Props
begin

unbundle bit_operations_syntax

text \<open>
  Weakest-precondition rules for the queue operations that do not sleep: taking from and adding to
  a queue at interrupt level, closing, flushing, reopening and creating queues. Each rule says what
  the operation leaves in its queue and which blocks the caller holds afterwards.
\<close>

section \<open>Effects on one queue\<close>

text \<open>
  \<open>changed M q r' w w'\<close>: the queue \<open>q\<close> has become \<open>r'\<close>, blocks held are now \<open>M\<close>, and nothing else that
  later code depends on is different. \<open>alike r r'\<close>: only the blocks, the counts and the two flow
  control flags may differ.
\<close>

definition changed :: "nat set \<Rightarrow> nat \<Rightarrow> Queue \<Rightarrow> world \<Rightarrow> world \<Rightarrow> bool" where
  "changed M q r' w w' \<longleftrightarrow> ok M w' \<and> ctx w' = ctx w \<and> kenv w' = kenv w \<and> kqueues w' = (kqueues w)(q \<mapsto> r')
     \<and> (\<exists>t. ktrace w' = ktrace w @ t)"

definition alike :: "Queue \<Rightarrow> Queue \<Rightarrow> bool" where
  "alike r r' \<longleftrightarrow> q_limit r' = q_limit r \<and> q_inilim r' = q_inilim r \<and> q_noblock r' = q_noblock r \<and> q_eof r' = q_eof r
     \<and> q_kick r' = q_kick r \<and> q_bypass r' = q_bypass r \<and> q_err r' = q_err r
     \<and> (\<forall>fl. fl \<noteq> Qstarve \<longrightarrow> fl \<noteq> Qflow \<longrightarrow> q_has fl r' = q_has fl r)"

lemma alike_refl [simp]: "alike r r"
  by (simp add: alike_def)

lemma alike_trans: "alike r r' \<Longrightarrow> alike r' r'' \<Longrightarrow> alike r r''"
  by (auto simp: alike_def)

lemma q_flag_sel [simp]:
  "bfirst (q_raise fl r) = bfirst r" "blast (q_raise fl r) = blast r" "q_len (q_raise fl r) = q_len r"
  "q_dlen (q_raise fl r) = q_dlen r" "q_limit (q_raise fl r) = q_limit r" "q_inilim (q_raise fl r) = q_inilim r"
  "q_noblock (q_raise fl r) = q_noblock r" "q_eof (q_raise fl r) = q_eof r" "q_kick (q_raise fl r) = q_kick r"
  "q_bypass (q_raise fl r) = q_bypass r" "q_err (q_raise fl r) = q_err r"
  "bfirst (q_clear fl r) = bfirst r" "blast (q_clear fl r) = blast r" "q_len (q_clear fl r) = q_len r"
  "q_dlen (q_clear fl r) = q_dlen r" "q_limit (q_clear fl r) = q_limit r" "q_inilim (q_clear fl r) = q_inilim r"
  "q_noblock (q_clear fl r) = q_noblock r" "q_eof (q_clear fl r) = q_eof r" "q_kick (q_clear fl r) = q_kick r"
  "q_bypass (q_clear fl r) = q_bypass r" "q_err (q_clear fl r) = q_err r"
  by (simp_all add: q_raise_def q_clear_def)

lemma qinv_flag [simp]: "qinv (q_raise fl r) = qinv r" "qinv (q_clear fl r) = qinv r"
  by (simp_all add: qinv_def)

lemma q_has_raise [simp]: "fl < 32 \<Longrightarrow> q_has fl (q_raise fl' r) = (fl = fl' \<or> q_has fl r)"
  by (auto simp: q_has_def q_raise_def bit_set_bit_iff)

lemma q_has_clear [simp]: "q_has fl (q_clear fl' r) = (fl \<noteq> fl' \<and> q_has fl r)"
  by (auto simp: q_has_def q_clear_def bit_unset_bit_iff)

lemmas flag_numbers = Qstarve_def Qmsg_def Qclosed_def Qflow_def Qcoalesce_def Qkick_def

lemma flag_small [simp]: "Qstarve < 32" "Qmsg < 32" "Qclosed < 32" "Qflow < 32" "Qcoalesce < 32" "Qkick < 32"
  by (simp_all add: flag_numbers)

lemma q_has_other [simp]: "q_has fl (r\<lparr>bfirst := x1\<rparr>) = q_has fl r" "q_has fl (r\<lparr>blast := x2\<rparr>) = q_has fl r"
  "q_has fl (r\<lparr>q_len := x3\<rparr>) = q_has fl r" "q_has fl (r\<lparr>q_dlen := x4\<rparr>) = q_has fl r" "q_has fl (r\<lparr>q_limit := x5\<rparr>) = q_has fl r"
  "q_has fl (r\<lparr>q_noblock := x6\<rparr>) = q_has fl r" "q_has fl (r\<lparr>q_eof := x7\<rparr>) = q_has fl r" "q_has fl (r\<lparr>q_err := x8\<rparr>) = q_has fl r"
  by (simp_all add: q_has_def)

lemma alike_flag [simp]: "alike r (q_raise Qstarve x) = alike r x" "alike r (q_raise Qflow x) = alike r x"
    "alike r (q_clear Qstarve x) = alike r x" "alike r (q_clear Qflow x) = alike r x"
  by (auto simp: alike_def q_has_def q_raise_def q_clear_def bit_simps)

lemma alike_more [simp]: "alike r (x\<lparr>bfirst := x1\<rparr>) = alike r x" "alike r (x\<lparr>blast := x2\<rparr>) = alike r x"
    "alike r (x\<lparr>q_len := x3\<rparr>) = alike r x" "alike r (x\<lparr>q_dlen := x4\<rparr>) = alike r x"
  by (simp_all add: alike_def)

lemma alike_unlink [simp]: "alike r (unlink_first b nxt x) = alike r x" "bfirst (unlink_first b nxt r) = nxt"
  by (simp_all add: unlink_first_def)

lemma ok_more [simp]:
  "ok M (w\<lparr>kilocks := x\<rparr>) = ok M w" "ok M (w\<lparr>kqlocks := y\<rparr>) = ok M w" "ok M (w\<lparr>ktrace := t\<rparr>) = ok M w"
  by (simp_all add: ok_def)

lemma ok_under [simp]:
  "ok M (w\<lparr>kilocks := x, kqueues := qs\<rparr>) = ok M (w\<lparr>kqueues := qs\<rparr>)"
  "ok M (w\<lparr>kqlocks := y, kqueues := qs\<rparr>) = ok M (w\<lparr>kqueues := qs\<rparr>)"
  "ok M (w\<lparr>ktrace := t, kqueues := qs\<rparr>) = ok M (w\<lparr>kqueues := qs\<rparr>)"
  by (simp_all add: ok_def kinv_def queued_def)

lemma ok_move:
  assumes "ok M w" and "kqueues w q = Some r" and "qinv r'" and "ids (bfirst r') \<inter> M' = {}"
    and "ids (bfirst r') \<union> M' = ids (bfirst r) \<union> M"
  shows "ok M' (w\<lparr>kqueues := (kqueues w)(q \<mapsto> r')\<rparr>)"
  using kinv_move [OF _ assms(2-5)] assms(1) by (simp add: ok_def)

lemma ok_qinv: "ok M w \<Longrightarrow> kqueues w q = Some r \<Longrightarrow> qinv r"
  by (auto simp: ok_def dest: kinv_qinv)

lemma ok_apart: "ok M w \<Longrightarrow> kqueues w q = Some r \<Longrightarrow> ids (bfirst r) \<inter> M = {}"
  using kinv_queued [of w M q r] by (auto simp: ok_def)

lemma ok_flag:
  assumes "ok M w" and "kqueues w q = Some r" and "qinv r'" and "bfirst r' = bfirst r"
  shows "ok M (w\<lparr>kqueues := (kqueues w)(q \<mapsto> r')\<rparr>)"
  using assms ok_apart [OF assms(1,2)] by (intro ok_move [OF assms(1-3)]) auto

text \<open>Queues without their first block, and with one more.\<close>

lemma qinv_unlink:
  assumes "qinv r" and "bfirst r = b # nxt"
  shows "qinv (unlink_first b nxt r)" and "wfB b" and "b_id b \<notin> ids nxt" and "chain nxt"
  using assms by (auto simp: qinv_def unlink_first_def)

lemma ok_unlink:
  assumes "ok M w" and "kqueues w q = Some r" and "bfirst r = b # nxt"
  shows "ok (insert (b_id b) M) (w\<lparr>kqueues := (kqueues w)(q \<mapsto> unlink_first b nxt r)\<rparr>)"
    and "b_id b \<notin> M" and "wfB b"
  using qinv_unlink [OF ok_qinv [OF assms(1,2)] assms(3)] ok_apart [OF assms(1,2)] assms(3)
  by (auto intro!: ok_move [OF assms(1,2)])

text \<open>Only the flow control flags differ.\<close>

definition flagged :: "Queue \<Rightarrow> Queue \<Rightarrow> bool" where
  "flagged r r' \<longleftrightarrow> alike r r' \<and> bfirst r' = bfirst r \<and> blast r' = blast r \<and> q_len r' = q_len r \<and> q_dlen r' = q_dlen r"

lemma flagged_qinv: "flagged r r' \<Longrightarrow> qinv r' = qinv r"
  by (simp add: flagged_def qinv_def)

lemma flagged_simps [simp]: "flagged r r" "flagged r (q_raise Qstarve r)" "flagged r (q_raise Qflow r)"
    "flagged r (q_clear Qstarve r)" "flagged r (q_clear Qflow r)"
  by (simp_all add: flagged_def)

lemma ok_flagged:
  assumes "ok M w" and "kqueues w q = Some r" and "flagged r r'"
  shows "ok M (w\<lparr>kqueues := (kqueues w)(q \<mapsto> r')\<rparr>)"
  using assms flagged_qinv [OF assms(3)] ok_qinv [OF assms(1,2)] by (intro ok_flag) (auto simp: flagged_def)

lemma restart_wp:
  assumes "kqueues w q = Some r" and "\<And>r' c. flagged r r' \<Longrightarrow> Q c (w\<lparr>kqueues := (kqueues w)(q \<mapsto> r')\<rparr>)"
  shows "wp (restart_writer q below) Q E w"
  using assms(1) assms(2) [of r False] assms(2) [of "q_clear Qflow r" True]
  by (simp add: restart_writer_def wp_flow wp_qf wp_qset map_upd_triv)

lemma feed_wp:
  assumes "kqueues w q = Some r" and "\<And>r' c. flagged r r' \<Longrightarrow> Q c (w\<lparr>kqueues := (kqueues w)(q \<mapsto> r')\<rparr>)"
  shows "wp (feed_reader q) Q E w"
  using assms(1) assms(2) [of r False] assms(2) [of "q_clear Qstarve r" True]
  by (simp add: feed_reader_def wp_flow wp_qf wp_qset map_upd_triv)

lemma wp_only_if: "wp (only_if c m) Q E w = (if c then wp m Q E w else Q () w)"
  by (simp add: only_if_def wp_flow)

lemmas wp_kern = wp_flow wp_qf wp_qset wp_emit wp_ilock wp_iunlock wp_eqlock wp_qunlock wp_only_if wp_on_Error
  wakeup_rr_def wakeup_wr_def

lemma changedI:
  assumes "ok M w'" and "ctx w' = ctx w" and "kenv w' = kenv w" and "kqueues w' = (kqueues w)(q \<mapsto> r')"
    and "ktrace w' = ktrace w @ t"
  shows "changed M q r' w w'"
  using assms by (auto simp: changed_def)

lemma changed_upd [simp]:
  "changed M q r' w (w\<lparr>kqueues := (kqueues w)(q \<mapsto> r')\<rparr>) = ok M (w\<lparr>kqueues := (kqueues w)(q \<mapsto> r')\<rparr>)"
  "changed M q r' w (w\<lparr>kqueues := (kqueues w)(q \<mapsto> r'), ktrace := ktrace w @ t\<rparr>) =
     ok M (w\<lparr>kqueues := (kqueues w)(q \<mapsto> r')\<rparr>)"
  "changed M q r' w (w\<lparr>ktrace := ktrace w @ t, kqueues := (kqueues w)(q \<mapsto> r')\<rparr>) =
     ok M (w\<lparr>kqueues := (kqueues w)(q \<mapsto> r')\<rparr>)"
  by (auto simp: changed_def ctx_def)

lemma flagged_unlink:
  assumes "flagged (unlink_first b nxt r) r'"
  shows "alike r r'" and "bfirst r' = nxt"
  using assms by (auto simp: flagged_def alike_def unlink_first_def q_has_def)

lemma changed_still: "changed M q r' w w' \<Longrightarrow> ok M' w'' \<Longrightarrow> still w' w'' \<Longrightarrow> changed M' q r' w w''"
  by (auto simp: changed_def still_def)

lemma qget_wp:
  assumes w: "ok M w" and r: "kqueues w q = Some r" and l: "q \<notin> set (kilocks w)"
    and N: "\<And>w'. bfirst r = [] \<Longrightarrow> changed M q (q_raise Qstarve r) w w' \<Longrightarrow> Q None w'"
    and S: "\<And>b r' w'. bfirst r = b # bfirst r' \<Longrightarrow> changed (insert (b_id b) M) q r' w w' \<Longrightarrow> alike r r' \<Longrightarrow>
      b_id b \<notin> M \<Longrightarrow> wfB b \<Longrightarrow> Q (Some b) w'"
  shows "wp (qget q) Q E w"
proof (cases "bfirst r")
  case Nil
  have "ok M (w\<lparr>kqueues := (kqueues w)(q \<mapsto> q_raise Qstarve r)\<rparr>)" using w r ok_flagged by simp
  with Nil show ?thesis
    using r l by (auto simp: qget_def wp_kern ctx_def changed_def intro!: N)
next
  case (Cons b nxt)
  note u = ok_unlink [OF w r Cons]
  have S': "Q (Some b) w'" if "flagged (unlink_first b nxt r) r'" "changed (insert (b_id b) M) q r' w w'" for r' w'
    using that(2) u(2,3) Cons flagged_unlink [OF that(1)] by (intro S [of b r']) simp_all
  have "ok (insert (b_id b) M) (w\<lparr>kqueues := (kqueues w)(q \<mapsto> r')\<rparr>)" if "flagged (unlink_first b nxt r) r'" for r'
    using ok_flagged [OF u(1) _ that, of q] by simp
  then show ?thesis
    using r l Cons by (auto simp: qget_def wp_kern intro!: restart_wp) (rule S', assumption, simp)+
qed

lemma changed_trans: "changed M q r1 w w1 \<Longrightarrow> changed M' q r2 w1 w2 \<Longrightarrow> changed M' q r2 w w2"
  by (auto simp: changed_def)

lemma changed_at: "changed M q r' w w' \<Longrightarrow> kqueues w' q = Some r'"
  by (simp add: changed_def)

lemma changed_ok: "changed M q r' w w' \<Longrightarrow> ok M w'"
  by (simp add: changed_def)

lemma changed_locks: "changed M q r' w w' \<Longrightarrow> kilocks w' = kilocks w \<and> kqlocks w' = kqlocks w"
  by (simp add: changed_def ctx_def)

text \<open>Working on a queue between \<^verbatim>\<open>ilock\<close> and \<^verbatim>\<open>iunlock\<close>.\<close>

lemma ilock_wp:
  assumes "ok M w" and "q \<notin> set (kilocks w)"
    and "\<And>w1. ok M w1 \<Longrightarrow> kqueues w1 = kqueues w \<Longrightarrow> w1 = w\<lparr>kilocks := q # kilocks w\<rparr> \<Longrightarrow> Q () w1"
  shows "wp (ilock q) Q E w"
  using assms by (auto simp: wp_ilock)

lemma iunlock_wp:
  assumes "changed M q r' (w\<lparr>kilocks := q # kilocks w\<rparr>) w1"
    and "\<And>w'. changed M q r' w w' \<Longrightarrow> Q () w'"
  shows "wp (iunlock q) Q E w1"
proof -
  have l: "kilocks w1 = q # kilocks w" using changed_locks [OF assms(1)] by simp
  have "changed M q r' w (w1\<lparr>kilocks := kilocks w\<rparr>)"
    using assms(1) by (auto simp: changed_def ctx_def)
  then show ?thesis using assms(2) by (simp add: wp_iunlock [OF l])
qed

lemma changed_emit: "changed M q r w w' \<Longrightarrow> changed M q r w (w'\<lparr>ktrace := ktrace w' @ t\<rparr>)"
  by (auto simp: changed_def ctx_def)

lemma changed_flagged:
  assumes "changed M q r w w'" and "flagged r r'"
  shows "changed M q r' w (w'\<lparr>kqueues := (kqueues w')(q \<mapsto> r')\<rparr>)"
  using ok_flagged [OF changed_ok [OF assms(1)] changed_at [OF assms(1)] assms(2)] assms(1)
  by (auto simp: changed_def ctx_def)

lemma changed_move:
  assumes "changed M q r w w'" and "qinv r'" and "ids (bfirst r') \<inter> M' = {}"
    and "ids (bfirst r') \<union> M' = ids (bfirst r) \<union> M"
  shows "changed M' q r' w (w'\<lparr>kqueues := (kqueues w')(q \<mapsto> r')\<rparr>)"
  using ok_move [OF changed_ok [OF assms(1)] changed_at [OF assms(1)] assms(2-4)] assms(1)
  by (auto simp: changed_def ctx_def)

lemma changed_self: "ok M w \<Longrightarrow> kqueues w q = Some r \<Longrightarrow> changed M q r w w"
  by (simp add: changed_def map_upd_triv)

text \<open>The common ends of the queue operations.\<close>

lemma restart_unlock_wp:
  assumes "changed M q r (w\<lparr>kilocks := q # kilocks w\<rparr>) w1"
    and "\<And>r' w'. flagged r r' \<Longrightarrow> changed M q r' w w' \<Longrightarrow> wp m Q E w'"
  shows "wp (and_then (restart_writer q below) (\<lambda>dowakeup. seq (iunlock q) (seq (only_if dowakeup (wakeup_wr q)) m))) Q E w1"
proof -
  have "wp (iunlock q) (\<lambda>_. wp (only_if c (wakeup_wr q)) (\<lambda>_. wp m Q E) E) E (w1\<lparr>kqueues := (kqueues w1)(q \<mapsto> r')\<rparr>)"
    if f: "flagged r r'" for r' c
    using changed_flagged [OF assms(1) f]
    by (rule iunlock_wp) (auto simp: wp_kern intro: assms(2) [OF f] changed_emit)
  then show ?thesis by (auto simp: wp_kern intro!: restart_wp [OF changed_at [OF assms(1)]])
qed

lemma feed_unlock_wp:
  assumes "changed M q r (w\<lparr>kilocks := q # kilocks w\<rparr>) w1"
    and "\<And>r' w'. flagged r r' \<Longrightarrow> changed M q r' w w' \<Longrightarrow> wp m Q E w'"
  shows "wp (and_then (feed_reader q) (\<lambda>dowakeup. seq (iunlock q) (seq (only_if dowakeup (wakeup_rr q)) m))) Q E w1"
proof -
  have "wp (iunlock q) (\<lambda>_. wp (only_if c (wakeup_rr q)) (\<lambda>_. wp m Q E) E) E (w1\<lparr>kqueues := (kqueues w1)(q \<mapsto> r')\<rparr>)"
    if f: "flagged r r'" for r' c
    using changed_flagged [OF assms(1) f]
    by (rule iunlock_wp) (auto simp: wp_kern intro: assms(2) [OF f] changed_emit)
  then show ?thesis by (auto simp: wp_kern intro!: feed_wp [OF changed_at [OF assms(1)]])
qed

lemma changed_free_wp:
  assumes "changed (M \<union> ids bs) q r w w1" and "chain bs" and "ids bs \<inter> M = {}"
    and "\<And>w'. changed M q r w w' \<Longrightarrow> Q () w'"
  shows "wp (freeblist bs) Q E w1"
proof (rule freeblist_wp [OF changed_ok [OF assms(1)]])
  fix w' assume w': "ok (M \<union> ids bs - ids bs) w'" "still w1 w'"
  have "M \<union> ids bs - ids bs = M" using assms(3) by auto
  then show "Q () w'" using changed_still [OF assms(1) _ w'(2)] w'(1) by (intro assms(4)) simp
qed (use assms(2) in \<open>auto simp: chain_def\<close>)

lemma flagged_alike: "alike r x \<Longrightarrow> flagged x r' \<Longrightarrow> alike r r' \<and> bfirst r' = bfirst x"
  by (auto simp: flagged_def intro: alike_trans)

section \<open>Discarding and consuming\<close>

lemma discard_loop_wp:
  assumes "changed (M \<union> ids tofree) q r w0 w" and "bfirst r = bs" and "qinv r" and "chain tofree" and "ids tofree \<inter> M = {}"
    and "sofar \<le> len"
    and "\<And>s' tf r' w'. changed (M \<union> ids tf) q r' w0 w' \<Longrightarrow> alike r r' \<Longrightarrow> chain tf \<Longrightarrow> ids tf \<inter> M = {} \<Longrightarrow>
      s' = min len (sofar + blocklen bs) \<Longrightarrow> data (bfirst r') = drop (nat (s' - sofar)) (data bs) \<Longrightarrow> Q (s', tf) w'"
  shows "wp (discard_loop q len sofar bs tofree) Q E w"
  using assms
proof (induction bs arbitrary: r w tofree sofar)
  case Nil
  then show ?case by (auto simp: wp_kern intro!: Nil.prems(7))
next
  case (Cons b nxt)
  note u = qinv_unlink [OF Cons.prems(3,2)]
  have apart: "ids (bfirst r) \<inter> (M \<union> ids tofree) = {}"
    using ok_apart [OF changed_ok [OF Cons.prems(1)] changed_at [OF Cons.prems(1)]] .
  have nn: "0 \<le> blocklen nxt" "0 \<le> BLEN b" using u blocklen_nonneg BLEN_nonneg by auto
  note l = length_bytes_nat [OF u(2)] and at = changed_at [OF Cons.prems(1)]
  consider "sofar = len" | "sofar < len" "BLEN b \<le> len - sofar" | "sofar < len" "len - sofar < BLEN b"
    using Cons.prems(6) by linarith
  then show ?case
  proof cases
    case 1
    then have "Q (sofar, tofree) w" using Cons.prems nn by (intro Cons.prems(7) [of tofree r]) auto
    with 1 show ?thesis by (simp add: wp_kern)
  next
    case 2
    let ?w = "w\<lparr>kqueues := (kqueues w)(q \<mapsto> unlink_first b nxt r)\<rparr>"
    have ch: "changed (M \<union> ids (b # tofree)) q (unlink_first b nxt r) w0 ?w"
      using u apart Cons.prems(2) by (intro changed_move [OF Cons.prems(1)]) auto
    have "wp (discard_loop q len (sofar + BLEN b) nxt (b # tofree)) Q E ?w"
    proof (rule Cons.IH [OF ch])
      fix s' tf r' w'
      assume h: "changed (M \<union> ids tf) q r' w0 w'" "alike (unlink_first b nxt r) r'" "chain tf" "ids tf \<inter> M = {}"
        "s' = min len (sofar + BLEN b + blocklen nxt)" "data (bfirst r') = drop (nat (s' - (sofar + BLEN b))) (data nxt)"
      have "alike r r'" using h(2) alike_trans [of r "unlink_first b nxt r" r'] by simp
      moreover have "nat (s' - sofar) - length (bytes_of b) = nat (s' - (sofar + BLEN b))"
        "length (bytes_of b) \<le> nat (s' - sofar)" using h(5) 2 l nn by linarith+
      then have "data (bfirst r') = drop (nat (s' - sofar)) (data (b # nxt))" using h(6) by simp
      ultimately show "Q (s', tf) w'" using h by (intro Cons.prems(7) [of tf r']) auto
    qed (use u 2 Cons.prems(2,4,5) apart in auto)
    with 2 show ?thesis using at by (simp add: wp_kern Let_def)
  next
    case 3
    let ?n = "len - sofar"
    let ?b = "b\<lparr>b_rp := b_rp b + ?n\<rparr>"
    let ?r = "r\<lparr>bfirst := ?b # nxt, q_dlen := q_dlen r - ?n\<rparr>"
    note s = skip_front [OF u(2), of ?n]
    have BA: "BALLOC ?b = BALLOC b" by (simp add: BALLOC_def)
    have "qinv ?r" using Cons.prems(2,3) s 3 BA by (auto simp: qinv_def split: if_splits)
    then have "changed (M \<union> ids tofree) q ?r w0 (w\<lparr>kqueues := (kqueues w)(q \<mapsto> ?r)\<rparr>)"
      using apart Cons.prems(2) by (intro changed_move [OF Cons.prems(1)]) auto
    then have "Q (sofar + ?n, tofree) (w\<lparr>kqueues := (kqueues w)(q \<mapsto> ?r)\<rparr>)"
      using Cons.prems(4,5) nn s 3 l by (intro Cons.prems(7) [of tofree ?r]) auto
    with 3 show ?thesis using at by (simp add: wp_kern Let_def)
  qed
qed

lemma qdiscard_wp:
  assumes w: "ok M w" and r: "kqueues w q = Some r" and l: "q \<notin> set (kilocks w)" and len: "0 \<le> len"
    and Q: "\<And>n r' w'. changed M q r' w w' \<Longrightarrow> alike r r' \<Longrightarrow> n = min len (blocklen (bfirst r)) \<Longrightarrow>
      data (bfirst r') = drop (nat n) (data (bfirst r)) \<Longrightarrow> Q n w'"
  shows "wp (qdiscard q len) Q E w"
proof -
  let ?w = "w\<lparr>kilocks := q # kilocks w\<rparr>"
  have start: "changed (M \<union> ids []) q r ?w ?w" using w r by (intro changed_self) auto
  have "wp (discard_loop q len 0 (bfirst r) []) (\<lambda>(sofar, tofree). wp (and_then (restart_writer q (\<lambda>r. q_len r < q_limit r))
     (\<lambda>dowakeup. seq (iunlock q) (seq (only_if dowakeup (wakeup_wr q)) (seq (freeblist tofree) (ret sofar))))) Q E) E ?w"
  proof (rule discard_loop_wp [OF start])
    fix s' tf r' w'
    assume h: "changed (M \<union> ids tf) q r' ?w w'" "alike r r'" "chain tf" "ids tf \<inter> M = {}"
      "s' = min len (0 + blocklen (bfirst r))" "data (bfirst r') = drop (nat (s' - 0)) (data (bfirst r))"
    have "wp (seq (freeblist tf) (ret s')) Q E w2" if f: "flagged r' r2" "changed (M \<union> ids tf) q r2 w w2" for r2 w2
      using h flagged_alike [OF h(2) f(1)]
      by (auto simp: wp_flow intro!: changed_free_wp [OF f(2)] Q [of r2])
    from restart_unlock_wp [OF h(1) this]
    show "(case (s', tf) of (sofar, tofree) \<Rightarrow> wp (and_then (restart_writer q (\<lambda>r. q_len r < q_limit r))
       (\<lambda>dowakeup. seq (iunlock q) (seq (only_if dowakeup (wakeup_wr q)) (seq (freeblist tofree) (ret sofar))))) Q E) w'"
      by simp
  qed (use ok_qinv [OF w r] len in auto)
  then show ?thesis using r l by (simp add: qdiscard_def wp_kern split_def)
qed


lemma skip_empty_wp:
  assumes "changed (M \<union> ids tofree) q r w0 w" and "bfirst r = bs" and "qinv r" and "chain tofree" and "ids tofree \<inter> M = {}"
    and N: "\<And>tf r' w'. changed (M \<union> ids tf) q r' w0 w' \<Longrightarrow> alike r r' \<Longrightarrow> chain tf \<Longrightarrow> ids tf \<inter> M = {} \<Longrightarrow>
      bfirst r' = [] \<Longrightarrow> data bs = [] \<Longrightarrow> q_has Qstarve r' \<Longrightarrow> Q (None, tf) w'"
    and S: "\<And>b nxt tf r' w'. changed (M \<union> ids tf) q r' w0 w' \<Longrightarrow> alike r r' \<Longrightarrow> chain tf \<Longrightarrow> ids tf \<inter> M = {} \<Longrightarrow>
      bfirst r' = b # nxt \<Longrightarrow> data bs = data (b # nxt) \<Longrightarrow> 0 < BLEN b \<Longrightarrow> Q (Some (b, nxt), tf) w'"
  shows "wp (skip_empty q bs tofree) Q E w"
  using assms
proof (induction bs arbitrary: r w tofree)
  case Nil
  have "changed (M \<union> ids tofree) q (q_raise Qstarve r) w0 (w\<lparr>kqueues := (kqueues w)(q \<mapsto> q_raise Qstarve r)\<rparr>)"
    by (rule changed_flagged [OF Nil.prems(1)]) simp
  then show ?case
    using Nil.prems changed_at [OF Nil.prems(1)]
    by (auto simp: wp_kern intro!: Nil.prems(6) [of tofree "q_raise Qstarve r"])
next
  case (Cons b nxt)
  note u = qinv_unlink [OF Cons.prems(3,2)]
  have apart: "ids (bfirst r) \<inter> (M \<union> ids tofree) = {}"
    using ok_apart [OF changed_ok [OF Cons.prems(1)] changed_at [OF Cons.prems(1)]] .
  note at = changed_at [OF Cons.prems(1)]
  show ?case
  proof (cases "0 < BLEN b")
    case True
    then have "Q (Some (b, nxt), tofree) w" using Cons.prems by (intro Cons.prems(7) [of tofree r]) auto
    with True show ?thesis by (simp add: wp_kern)
  next
    case False
    then have z: "BLEN b = 0" using BLEN_nonneg [OF u(2)] by simp
    let ?r = "r\<lparr>bfirst := nxt, q_len := q_len r - BALLOC b\<rparr>"
    have e: "?r = unlink_first b nxt r" by (simp add: unlink_first_def z)
    let ?w = "w\<lparr>kqueues := (kqueues w)(q \<mapsto> ?r)\<rparr>"
    have ch: "changed (M \<union> ids (b # tofree)) q ?r w0 ?w"
      unfolding e using u apart Cons.prems(2) by (intro changed_move [OF Cons.prems(1)]) auto
    have d: "data (b # nxt) = data nxt" using length_bytes_nat [OF u(2)] z by simp
    have "wp (skip_empty q nxt (b # tofree)) Q E ?w"
    proof (rule Cons.IH [OF ch])
      fix tf r' w'
      assume "changed (M \<union> ids tf) q r' w0 w'" "alike ?r r'" "chain tf" "ids tf \<inter> M = {}" "bfirst r' = []"
        "data nxt = []" "q_has Qstarve r'"
      then show "Q (None, tf) w'"
        using d alike_trans [of r ?r r'] by (intro Cons.prems(6) [of tf r']) auto
    next
      fix b' nxt' tf r' w'
      assume "changed (M \<union> ids tf) q r' w0 w'" "alike ?r r'" "chain tf" "ids tf \<inter> M = {}" "bfirst r' = b' # nxt'"
        "data nxt = data (b' # nxt')" "0 < BLEN b'"
      then show "Q (Some (b', nxt'), tf) w'"
        using d alike_trans [of r ?r r'] by (intro Cons.prems(7) [of tf r']) auto
    qed (use u Cons.prems(2,4,5) apart e in auto)
    with False show ?thesis using at by (simp add: wp_kern)
  qed
qed

lemma consume_first_wp:
  assumes ch: "changed (M \<union> ids tofree) q r w0 w" and r: "bfirst r = b # nxt" "qinv r"
    and tf: "chain tofree" "ids tofree \<inter> M = {}" and len: "0 \<le> len"
    and Q: "\<And>tf r' w'. changed (M \<union> ids tf) q r' w0 w' \<Longrightarrow> alike r r' \<Longrightarrow> chain tf \<Longrightarrow> ids tf \<inter> M = {} \<Longrightarrow>
      data (bfirst r') = (if q_has Qmsg r then data nxt else drop (nat len) (bytes_of b) @ data nxt) \<Longrightarrow>
      Q ((min len (BLEN b), take (nat len) (bytes_of b)), tf) w'"
  shows "wp (consume_first q b nxt len tofree) Q E w"
proof -
  define m where "m = (if BLEN b < len then BLEN b else len)"
  note u = qinv_unlink [OF r(2,1)] and at = changed_at [OF ch]
  have m: "0 \<le> m" "m \<le> BLEN b" "m = min len (BLEN b)" using len BLEN_nonneg [OF u(2)] by (auto simp: m_def)
  have l: "length (bytes_of b) = nat (BLEN b)" using length_bytes_nat [OF u(2)] .
  have x: "take (nat m) (bytes_of b) = take (nat len) (bytes_of b)" using l m len by (auto simp: min_def)
  let ?b = "b\<lparr>b_rp := b_rp b + m\<rparr>" let ?r = "r\<lparr>bfirst := ?b # nxt, q_dlen := q_dlen r - m\<rparr>"
  let ?w = "w\<lparr>kqueues := (kqueues w)(q \<mapsto> ?r)\<rparr>"
  note s = skip_front [OF u(2) m(1,2)]
  have BA: "BALLOC ?b = BALLOC b" by (simp add: BALLOC_def)
  have apart: "ids (bfirst r) \<inter> (M \<union> ids tofree) = {}" using ok_apart [OF changed_ok [OF ch] at] .
  have inv: "qinv ?r" using r s BA by (auto simp: qinv_def split: if_splits)
  have c1: "changed (M \<union> ids tofree) q ?r w0 ?w"
    using apart r(1) inv by (intro changed_move [OF ch]) auto
  let ?r2 = "unlink_first ?b nxt ?r"
  have c2: "changed (M \<union> ids (?b # tofree)) q ?r2 w0 (?w\<lparr>kqueues := (kqueues ?w)(q \<mapsto> ?r2)\<rparr>)"
    using apart r(1) qinv_unlink [OF inv] u(3) by (intro changed_move [OF c1]) auto
  have rd: "wp (bread b (b_rp b) m) Q' E w = Q' (take (nat len) (bytes_of b)) w" for Q'
  proof -
    have "b_rp b + m \<le> BALLOC b" "0 \<le> b_rp b" using m(2) u(2) by (auto simp: wfB_def BLEN_def)
    then show ?thesis using bytes_of_slice [OF u(2) order_refl m(1)] m(1,2) x by (simp add: wp_bread)
  qed
  note Qm = Q [folded m(3)]
  have q1: "Q ((m, take (nat len) (bytes_of b)), tofree) ?w" if "\<not> q_has Qmsg r" "m \<noteq> BLEN b"
  proof -
    have "m = len" using that(2) by (auto simp: m_def split: if_splits)
    then show ?thesis using that(1) c1 tf s(2) by (intro Qm [of tofree ?r]) simp_all
  qed
  have q2: "Q ((m, take (nat len) (bytes_of b)), ?b # tofree) (?w\<lparr>kqueues := (kqueues ?w)(q \<mapsto> ?r2)\<rparr>)"
    if "q_has Qmsg r \<or> m = BLEN b"
  proof -
    have "drop (nat len) (bytes_of b) = []" if "m = BLEN b" using that l m by (auto simp: min_def split: if_splits)
    then show ?thesis
      using that c2 tf s u apart r(1) by (intro Qm [of "?b # tofree" ?r2]) auto
  qed
  show ?thesis
    using at q1 q2 by (auto simp: consume_first_def Let_def wp_kern rd m_def [symmetric])
qed

text \<open>
  \<^verbatim>\<open>qconsume\<close>: -1 when there are no data; otherwise the first bytes of the first block that has
  any. A message queue then loses the rest of that block.
\<close>

lemma qconsume_wp:
  assumes w: "ok M w" and r: "kqueues w q = Some r" and l: "q \<notin> set (kilocks w)" and len: "0 \<le> len"
    and N: "\<And>r' w'. changed M q r' w w' \<Longrightarrow> alike r r' \<Longrightarrow> data (bfirst r) = [] \<Longrightarrow> bfirst r' = [] \<Longrightarrow> Q (-1, []) w'"
    and S: "\<And>b nxt r' w'. changed M q r' w w' \<Longrightarrow> alike r r' \<Longrightarrow> data (bfirst r) = data (b # nxt) \<Longrightarrow> 0 < BLEN b \<Longrightarrow> wfB b \<Longrightarrow>
      data (bfirst r') = (if q_has Qmsg r then data nxt else drop (nat len) (bytes_of b) @ data nxt) \<Longrightarrow>
      Q (min len (BLEN b), take (nat len) (bytes_of b)) w'"
  shows "wp (qconsume q len) Q E w"
proof -
  let ?w = "w\<lparr>kilocks := q # kilocks w\<rparr>"
  have start: "changed (M \<union> ids []) q r ?w ?w" using w r by (intro changed_self) auto
  let ?rest = "\<lambda>res tofree. and_then (restart_writer q half_empty) (\<lambda>dowakeup. seq (iunlock q) (seq (only_if dowakeup (wakeup_wr q))
    (seq (freeblist tofree) (ret res))))"
  have rest: "wp (?rest res tf) Q E w1"
    if "changed (M \<union> ids tf) q r' ?w w1" "chain tf" "ids tf \<inter> M = {}"
      and fin: "\<And>r2 w2. flagged r' r2 \<Longrightarrow> changed M q r2 w w2 \<Longrightarrow> Q res w2" for res tf r' w1
  proof (rule restart_unlock_wp [OF that(1)])
    fix r2 w2 assume f: "flagged r' r2" "changed (M \<union> ids tf) q r2 w w2"
    show "wp (seq (freeblist tf) (ret res)) Q E w2"
      using that(2,3) by (auto simp: wp_flow intro!: changed_free_wp [OF f(2)] fin [OF f(1)])
  qed
  have "wp (skip_empty q (bfirst r) []) (\<lambda>(found, tofree). wp (case found of None \<Rightarrow> ret ((-1, []), tofree)
       | Some (b, nxt) \<Rightarrow> consume_first q b nxt len tofree) (\<lambda>(res, tofree). wp (?rest res tofree) Q E) E) E ?w"
  proof (rule skip_empty_wp [OF start])
    fix tf r' w' assume h: "changed (M \<union> ids tf) q r' ?w w'" "alike r r'" "chain tf" "ids tf \<inter> M = {}" "bfirst r' = []"
      "data (bfirst r) = []"
    have "Q (-1, []) w2" if f: "flagged r' r2" "changed M q r2 w w2" for r2 w2
      using N [OF f(2)] flagged_alike [OF h(2) f(1)] h(5,6) by simp
    from rest [OF h(1,3,4) this] show "(case (None, tf) of (found, tofree) \<Rightarrow> wp (case found of None \<Rightarrow> ret ((-1, []), tofree)
       | Some (b, nxt) \<Rightarrow> consume_first q b nxt len tofree) (\<lambda>(res, tofree). wp (?rest res tofree) Q E) E) w'"
      by (simp add: wp_ret)
  next
    fix b nxt tf r' w' assume h: "changed (M \<union> ids tf) q r' ?w w'" "alike r r'" "chain tf" "ids tf \<inter> M = {}"
      "bfirst r' = b # nxt" "data (bfirst r) = data (b # nxt)" "0 < BLEN b"
    have inv: "qinv r'" using ok_qinv [OF changed_ok [OF h(1)] changed_at [OF h(1)]] .
    have "wp (consume_first q b nxt len tf) (\<lambda>(res, tofree). wp (?rest res tofree) Q E) E w'"
    proof (rule consume_first_wp [OF h(1,5) inv h(3,4) len])
      fix tf' r2 w2 assume g: "changed (M \<union> ids tf') q r2 ?w w2" "alike r' r2" "chain tf'" "ids tf' \<inter> M = {}"
        "data (bfirst r2) = (if q_has Qmsg r' then data nxt else drop (nat len) (bytes_of b) @ data nxt)"
      have m: "q_has Qmsg r' = q_has Qmsg r" using h(2) by (simp add: alike_def flag_numbers)
      have "Q (min len (BLEN b), take (nat len) (bytes_of b)) w3" if f: "flagged r2 r3" "changed M q r3 w w3" for r3 w3
      proof (rule S [OF f(2) _ h(6,7)])
        show "alike r r3" "data (bfirst r3) = (if q_has Qmsg r then data nxt else drop (nat len) (bytes_of b) @ data nxt)"
          using f(1) h(2) g(2,5) m by (auto simp: flagged_def intro: alike_trans)
        show "wfB b" using inv h(5) by (simp add: qinv_def)
      qed
      from rest [OF g(1,3,4) this]
      show "(case ((min len (BLEN b), take (nat len) (bytes_of b)), tf') of (res, tofree) \<Rightarrow> wp (?rest res tofree) Q E) w2"
        by simp
    qed
    then show "(case (Some (b, nxt), tf) of (found, tofree) \<Rightarrow> wp (case found of None \<Rightarrow> ret ((-1, []), tofree)
       | Some (b, nxt) \<Rightarrow> consume_first q b nxt len tofree) (\<lambda>(res, tofree). wp (?rest res tofree) Q E) E) w'"
      by simp
  qed (use ok_qinv [OF w r] in auto)
  then show ?thesis using r l by (simp add: qconsume_def wp_kern split_def)
qed

section \<open>Adding\<close>

lemma link_after_last: "chain f \<Longrightarrow> f \<noteq> [] \<Longrightarrow> link_after (b_id (last f)) f bs = Some (f @ bs)"
proof (induction f)
  case (Cons b f)
  show ?case
  proof (cases f)
    case Nil
    then show ?thesis by simp
  next
    case (Cons c g)
    then have "b_id (last f) \<in> ids f" by (simp add: ids_def)
    then show ?thesis using Cons.IH Cons.prems(1) Cons by auto
  qed
qed simp

lemma qaddlist_wp:
  assumes ch: "changed (M \<union> ids bs) q r w0 w" and bs: "chain bs" "bs \<noteq> []" "ids bs \<inter> M = {}"
    and Q: "\<And>r' w'. changed M q r' w0 w' \<Longrightarrow> alike r r' \<Longrightarrow> q_state r' = q_state r \<Longrightarrow> bfirst r' = bfirst r @ bs \<Longrightarrow> Q (blocklen bs) w'"
  shows "wp (qaddlist q bs) Q E w"
proof -
  have inv: "qinv r" using ok_qinv [OF changed_ok [OF ch] changed_at [OF ch]] .
  have apart: "ids (bfirst r) \<inter> (M \<union> ids bs) = {}" using ok_apart [OF changed_ok [OF ch] changed_at [OF ch]] .
  let ?r = "r\<lparr>bfirst := bfirst r @ bs, blast := b_id (last bs), q_len := q_len r + blockalloclen bs,
    q_dlen := q_dlen r + blocklen bs\<rparr>"
  have link: "(if bfirst r \<noteq> [] then link_after (blast r) (bfirst r) bs else Some bs) = Some (bfirst r @ bs)"
    using inv link_after_last [of "bfirst r" bs] by (auto simp: qinv_def)
  have "qinv ?r" using inv bs apart by (auto simp: qinv_def)
  then have "changed M q ?r w0 (w\<lparr>kqueues := (kqueues w)(q \<mapsto> ?r)\<rparr>)"
    using apart bs by (intro changed_move [OF ch]) auto
  then have "Q (blocklen bs) (w\<lparr>kqueues := (kqueues w)(q \<mapsto> ?r)\<rparr>)" by (intro Q [of ?r]) auto
  then show ?thesis using bs(2) changed_at [OF ch] link by (simp add: qaddlist_def wp_kern)
qed

text \<open>Where a producer gives its blocks to the queue.\<close>

lemma add_flowing_wp:
  assumes ch: "changed (M \<union> ids bs) q r (w\<lparr>kilocks := q # kilocks w\<rparr>) w1"
    and bs: "chain bs" "bs \<noteq> []" "ids bs \<inter> M = {}"
    and Q: "\<And>r' w'. changed M q r' w w' \<Longrightarrow> alike r r' \<Longrightarrow> bfirst r' = bfirst r @ bs \<Longrightarrow> Q (blocklen bs) w'"
  shows "wp (add_flowing q bs) Q E w1"
proof -
  let ?w = "w\<lparr>kilocks := q # kilocks w\<rparr>"
  let ?f = "\<lambda>r. if q_len r \<ge> q_limit r sdiv 2 then q_raise Qflow r else r"
  have "wp (and_then (feed_reader q) (\<lambda>dowakeup. seq (iunlock q) (seq (only_if dowakeup (wakeup_rr q)) (ret (blocklen bs))))) Q E
      (w2\<lparr>kqueues := (kqueues w2)(q \<mapsto> ?f r2)\<rparr>)"
    if c: "changed M q r2 ?w w2" "alike r r2" "bfirst r2 = bfirst r @ bs" for r2 w2
  proof (rule feed_unlock_wp)
    show "changed M q (?f r2) ?w (w2\<lparr>kqueues := (kqueues w2)(q \<mapsto> ?f r2)\<rparr>)"
      using c(1) by (intro changed_flagged) auto
    fix r3 w3 assume "flagged (?f r2) r3" "changed M q r3 w w3"
    then show "wp (ret (blocklen bs)) Q E w3"
      using c flagged_alike [of r "?f r2" r3] by (auto simp: wp_flow split: if_splits intro!: Q [of r3])
  qed
  then show ?thesis
    unfolding add_flowing_def by (auto simp: wp_kern changed_at intro!: qaddlist_wp [OF ch bs])
qed

lemma unlock_free_wp:
  assumes ch: "changed (M \<union> ids bs) q r (w\<lparr>kilocks := q # kilocks w\<rparr>) w1" and bs: "chain bs" "ids bs \<inter> M = {}"
    and Q: "\<And>w'. changed M q r w w' \<Longrightarrow> Q n w'"
  shows "wp (seq (iunlock q) (seq (freeblist bs) (ret n))) Q E w1"
  using Q by (auto simp: wp_flow intro!: iunlock_wp [OF ch] changed_free_wp [of M bs q r w] bs)

text \<open>
  \<^verbatim>\<open>qpass\<close>: the blocks are queued, or freed when the queue is full (-1) or closed (0).
\<close>

lemma qpass_wp:
  assumes w: "ok (M \<union> ids bs) w" and r: "kqueues w q = Some r" and l: "q \<notin> set (kilocks w)"
    and bs: "chain bs" "bs \<noteq> []" "ids bs \<inter> M = {}"
    and F: "\<And>w'. q_limit r \<le> q_len r \<Longrightarrow> changed M q r w w' \<Longrightarrow> Q (-1) w'"
    and C: "\<And>w'. q_len r < q_limit r \<Longrightarrow> q_has Qclosed r \<Longrightarrow> changed M q r w w' \<Longrightarrow> Q 0 w'"
    and S: "\<And>r' w'. q_len r < q_limit r \<Longrightarrow> \<not> q_has Qclosed r \<Longrightarrow> changed M q r' w w' \<Longrightarrow> alike r r' \<Longrightarrow>
      bfirst r' = bfirst r @ bs \<Longrightarrow> Q (blocklen bs) w'"
  shows "wp (qpass q bs) Q E w"
proof -
  have "changed (M \<union> ids bs) q r (w\<lparr>kilocks := q # kilocks w\<rparr>) (w\<lparr>kilocks := q # kilocks w\<rparr>)"
    using w r by (intro changed_self) auto
  note go = unlock_free_wp [OF this bs(1,3)] add_flowing_wp [OF this bs]
  show ?thesis
    using r l F C S by (auto simp: qpass_def wp_ilock wp_qf wp_if wp_seq [of "ilock _"] wp_and_then intro!: go)
qed

lemma qpassnolim_wp:
  assumes w: "ok (M \<union> ids bs) w" and r: "kqueues w q = Some r" and l: "q \<notin> set (kilocks w)"
    and bs: "chain bs" "bs \<noteq> []" "ids bs \<inter> M = {}"
    and C: "\<And>w'. q_has Qclosed r \<Longrightarrow> changed M q r w w' \<Longrightarrow> Q 0 w'"
    and S: "\<And>r' w'. \<not> q_has Qclosed r \<Longrightarrow> changed M q r' w w' \<Longrightarrow> alike r r' \<Longrightarrow>
      bfirst r' = bfirst r @ bs \<Longrightarrow> Q (blocklen bs) w'"
  shows "wp (qpassnolim q bs) Q E w"
proof -
  have "changed (M \<union> ids bs) q r (w\<lparr>kilocks := q # kilocks w\<rparr>) (w\<lparr>kilocks := q # kilocks w\<rparr>)"
    using w r by (intro changed_self) auto
  note go = unlock_free_wp [OF this bs(1,3)] add_flowing_wp [OF this bs]
  show ?thesis
    using r l C S by (auto simp: qpassnolim_def wp_ilock wp_qf wp_if wp_seq [of "ilock _"] wp_and_then intro!: go)
qed

lemma still_changed: "still w w1 \<Longrightarrow> changed M q r' w1 w' \<Longrightarrow> changed M q r' w w'"
  by (auto simp: changed_def still_def)

lemma still_locks: "still w w' \<Longrightarrow> kilocks w' = kilocks w \<and> kqlocks w' = kqlocks w"
  by (simp add: still_def ctx_def)

lemma iallocb_wp:
  assumes w: "ok M w" and n: "0 \<le> n" "n + 23 < 2 ^ 31"
    and Q: "\<And>b w'. ok (insert (b_id b) M) w' \<Longrightarrow> b_id b \<notin> M \<Longrightarrow> fresh_block b n \<Longrightarrow> still w w' \<Longrightarrow> Q (Some b) w'"
    and N: "\<And>w'. \<not> plenty w \<Longrightarrow> ok M w' \<Longrightarrow> still w w' \<Longrightarrow> Q None w'"
    and P: "\<And>w'. \<not> plenty w \<Longrightarrow> E Panic w'"
  shows "wp (iallocb n) Q E w"
proof -
  have fl: "fresh_block (b\<lparr>b_flag := 1\<rparr>) n = fresh_block b n" "b_id (b\<lparr>b_flag := 1\<rparr>) = b_id b" for b
    by (simp_all add: fresh_block_def wfB_def BALLOC_def BLEN_def)
  have s: "ok (insert (b_id b) M) w' \<Longrightarrow> b_id b \<notin> M \<Longrightarrow> fresh_block b n \<Longrightarrow> still w w' \<Longrightarrow> Q (Some (b\<lparr>b_flag := 1\<rparr>)) w'" for b w'
    using Q [of "b\<lparr>b_flag := 1\<rparr>" w'] fl by simp
  have nn: "Q None (w'\<lparr>knerr := x\<rparr>)" if "\<not> plenty w" "ok M w'" "still w w'" for w' x
    using that N [of "w'\<lparr>knerr := x\<rparr>"] by (auto simp: ok_def still_def ctx_def)
  show ?thesis
    using s nn P n by (auto simp: iallocb_def wp_flow intro!: try_allocb_wp [OF w])
qed

lemma fresh_put:
  assumes "fresh_block b (int (length p))" and "length p < 2 ^ 31"
  shows "wp (bput b p) Q E w = Q (grown b p) w" and "wfB (grown b p)" and "bytes_of (grown b p) = p"
  using freshD [OF assms(1)] assms(2) by (auto simp: wp_bput)

lemma flagged_trans: "flagged r r' \<Longrightarrow> flagged r' r'' \<Longrightarrow> flagged r r''"
  by (auto simp: flagged_def intro: alike_trans)

lemma feed_flow_unlock_wp:
  assumes ch: "changed M q r (w\<lparr>kilocks := q # kilocks w\<rparr>) w1" and f: "\<And>x. flagged x (f x)"
    and Q: "\<And>r' w'. flagged r r' \<Longrightarrow> changed M q r' w w' \<Longrightarrow> Q n w'"
  shows "wp (and_then (feed_reader q) (\<lambda>d. seq (qset q f) (seq (iunlock q) (seq (only_if d (wakeup_rr q)) (ret n))))) Q E w1"
  unfolding wp_and_then
proof (rule feed_wp [OF changed_at [OF ch]])
  fix r2 d assume r2: "flagged r r2"
  let ?w2 = "w1\<lparr>kqueues := (kqueues w1)(q \<mapsto> r2)\<rparr>"
  have "changed M q (f r2) (w\<lparr>kilocks := q # kilocks w\<rparr>) (?w2\<lparr>kqueues := (kqueues ?w2)(q \<mapsto> f r2)\<rparr>)"
    by (rule changed_flagged [OF changed_flagged [OF ch r2] f])
  then have "wp (iunlock q) (\<lambda>_. wp (only_if d (wakeup_rr q)) (\<lambda>_. Q n) E) E (?w2\<lparr>kqueues := (kqueues ?w2)(q \<mapsto> f r2)\<rparr>)"
    by (rule iunlock_wp) (use Q [OF flagged_trans [OF r2 f]] changed_emit in \<open>auto simp: wp_kern\<close>)
  then show "wp (seq (qset q f) (seq (iunlock q) (seq (only_if d (wakeup_rr q)) (ret n)))) Q E ?w2"
    by (simp add: wp_flow wp_qset)
qed

lemma qproduce_wp:
  assumes w: "ok M w" and r: "kqueues w q = Some r" and l: "q \<notin> set (kilocks w)" and p: "length p + 23 < 2 ^ 31"
    and Z: "\<And>w'. \<not> plenty w \<Longrightarrow> ok M w' \<Longrightarrow> still w w' \<Longrightarrow> Q 0 w'"
    and F: "\<And>i w'. q_limit r \<le> q_len r \<Longrightarrow> i \<notin> M \<Longrightarrow> changed (insert i M) q (q_raise Qflow r) w w' \<Longrightarrow> Q (-1) w'"
    and S: "\<And>b r' w'. q_len r < q_limit r \<Longrightarrow> changed M q r' w w' \<Longrightarrow> alike r r' \<Longrightarrow> bfirst r' = bfirst r @ [b] \<Longrightarrow>
      bytes_of b = p \<Longrightarrow> wfB b \<Longrightarrow> Q (int (length p)) w'"
    and P: "\<And>w'. \<not> plenty w \<Longrightarrow> E Panic w'"
  shows "wp (qproduce q p) Q E w"
proof -
  let ?n = "int (length p)"
  let ?full = "seq (qset q (q_raise Qflow)) (seq (iunlock q) (ret (-1)))"
  let ?f = "\<lambda>r. if q_len r \<ge> q_limit r then q_raise Qflow r else r"
  let ?add = "\<lambda>b. and_then (qaddlist q [b]) (\<lambda>_. and_then (feed_reader q) (\<lambda>dowakeup.
         seq (qset q ?f) (seq (iunlock q) (seq (only_if dowakeup (wakeup_rr q)) (ret ?n)))))"
  have main: "wp (seq (ilock q) (and_then (qf q (\<lambda>r. q_len r \<ge> q_limit r)) (\<lambda>full.
       if full then ?full else and_then (bput b p) ?add))) Q E w1"
    if a: "ok (insert (b_id b) M) w1" "b_id b \<notin> M" "fresh_block b ?n" "still w w1" for b w1
  proof -
    let ?w = "w1\<lparr>kilocks := q # kilocks w1\<rparr>"
    have r1: "kqueues w1 q = Some r" and l1: "q \<notin> set (kilocks w1)"
      using r l a(4) still_locks [OF a(4)] by (auto simp: still_def)
    have c: "changed (M \<union> ids [grown b p]) q r ?w ?w" using a(1) r1 by (intro changed_self) auto
    have "length p < 2 ^ 31" using p by simp
    note b = fresh_put [OF a(3) this]
    have "changed (insert (b_id b) M) q (q_raise Qflow r) ?w (?w\<lparr>kqueues := (kqueues ?w)(q \<mapsto> q_raise Qflow r)\<rparr>)"
      using changed_flagged [OF c, of "q_raise Qflow r"] by simp
    from iunlock_wp [OF this, of "\<lambda>_. Q (-1)" E] have full: "wp ?full Q E ?w" if "q_limit r \<le> q_len r"
      using that a(2) F still_changed [OF a(4)] r1 by (auto simp: wp_flow wp_qset)
    have "wp (?add (grown b p)) Q E ?w" if lim: "q_len r < q_limit r"
      unfolding wp_and_then [of "qaddlist _ _"]
    proof (rule qaddlist_wp [OF c])
      fix r2 w2 assume c2: "changed M q r2 ?w w2" "alike r r2" "bfirst r2 = bfirst r @ [grown b p]"
      have "Q ?n w3" if "flagged r2 r3" "changed M q r3 w1 w3" for r3 w3
        using S [OF lim still_changed [OF a(4) that(2)] _ _ b(3,2)] flagged_alike [OF c2(2) that(1)] c2(3) by simp
      from feed_flow_unlock_wp [where Q = Q and n = ?n and f = ?f, OF c2(1) _ this]
      show "wp (and_then (feed_reader q) (\<lambda>dowakeup.
         seq (qset q ?f) (seq (iunlock q) (seq (only_if dowakeup (wakeup_rr q)) (ret ?n))))) Q E w2" by simp
    qed (use a(2) b(2) in auto)
    then show ?thesis
      using full r1 l1 b(1) by (auto simp: wp_flow wp_ilock wp_qf)
  qed
  show ?thesis
    unfolding qproduce_def Let_def wp_and_then [of "iallocb _"]
    by (rule iallocb_wp [OF w]) (use p Z P main in \<open>auto simp: wp_flow\<close>)
qed

section \<open>Closing, flushing, opening\<close>

lemma locked_set_wp:
  assumes "ok M w" and "kqueues w q = Some r" and "q \<notin> set (kilocks w)" and "qinv (f r)" and "bfirst (f r) = bfirst r"
    and "\<And>w'. changed M q (f r) w w' \<Longrightarrow> wp m Q E w'"
  shows "wp (seq (ilock q) (seq (qset q f) (seq (iunlock q) m))) Q E w"
proof -
  let ?w = "w\<lparr>kilocks := q # kilocks w\<rparr>"
  have "changed M q r ?w ?w" using assms(1,2) by (intro changed_self) auto
  then have "changed M q (f r) ?w (?w\<lparr>kqueues := (kqueues ?w)(q \<mapsto> f r)\<rparr>)"
    using assms(4,5) ok_apart [OF assms(1,2)] by (intro changed_move) auto
  from iunlock_wp [OF this, of "\<lambda>_. wp m Q E" E] show ?thesis
    using assms(2,3,6) by (simp add: wp_flow wp_ilock wp_qset)
qed

text \<open>The same, when the queue gives up its blocks.\<close>

lemma locked_drain_wp:
  assumes w: "ok M w" and r: "kqueues w q = Some r" and l: "q \<notin> set (kilocks w)" and f: "qinv (f r)" "bfirst (f r) = []"
    and m: "\<And>w'. changed M q (f r) w w' \<Longrightarrow> wp m Q E w'"
  shows "wp (seq (ilock q) (and_then (qf q bfirst) (\<lambda>bs. seq (qset q f) (seq (iunlock q) (seq (freeblist bs) m))))) Q E w"
proof -
  let ?w = "w\<lparr>kilocks := q # kilocks w\<rparr>"
  have apart: "ids (bfirst r) \<inter> M = {}" using ok_apart [OF w r] .
  have "changed M q r ?w ?w" using w r by (intro changed_self) auto
  then have "changed (M \<union> ids (bfirst r)) q (f r) ?w (?w\<lparr>kqueues := (kqueues ?w)(q \<mapsto> f r)\<rparr>)"
    using f by (intro changed_move) auto
  moreover have "chain (bfirst r)" using ok_qinv [OF w r] by (simp add: qinv_def)
  ultimately show ?thesis
    using r l m apart by (auto simp: wp_flow wp_ilock wp_qset wp_qf intro!: iunlock_wp changed_free_wp [of M _ q "f r" w])
qed

lemma kstrcpy_Ehungup [simp]: "kstrcpy Ehungup ERRMAX = Ehungup"
  by (simp add: kstrcpy_def Ehungup_def)

definition closed_queue :: "Queue \<Rightarrow> Queue" where
  "closed_queue r = q_clear Qstarve (q_clear Qflow (q_raise Qclosed
       (r\<lparr>q_err := Ehungup, bfirst := [], q_len := 0, q_dlen := 0, q_noblock := 0\<rparr>)))"

lemma qclose_wp:
  assumes "ok M w" and "kqueues w q = Some r" and "q \<notin> set (kilocks w)"
    and "\<And>w'. changed M q (closed_queue r) w w' \<Longrightarrow> Q () w'"
  shows "wp (qclose q) Q E w"
proof -
  let ?f = "\<lambda>r. q_clear Qstarve (q_clear Qflow (q_raise Qclosed
       (r\<lparr>q_err := kstrcpy Ehungup ERRMAX, bfirst := [], q_len := 0, q_dlen := 0, q_noblock := 0\<rparr>)))"
  have f: "?f r = closed_queue r" by (simp add: closed_queue_def)
  show ?thesis
    unfolding qclose_def
    by (rule locked_drain_wp [OF assms(1-3), where f = ?f])
      (use assms(4) changed_emit in \<open>auto simp: f wp_kern\<close>, simp_all add: closed_queue_def qinv_def)
qed

definition flushed_queue :: "Queue \<Rightarrow> Queue" where
  "flushed_queue r = r\<lparr>bfirst := [], q_len := 0, q_dlen := 0\<rparr>"

lemma qflush_wp:
  assumes "ok M w" and "kqueues w q = Some r" and "q \<notin> set (kilocks w)"
    and "\<And>w'. changed M q (flushed_queue r) w w' \<Longrightarrow> Q () w'"
  shows "wp (qflush q) Q E w"
  unfolding qflush_def flushed_queue_def [symmetric]
  by (rule locked_drain_wp [OF assms(1-3), where f = flushed_queue])
    (use assms(4) changed_emit in \<open>auto simp: wp_kern\<close>, simp_all add: flushed_queue_def qinv_def)

definition hungup_queue :: "string \<Rightarrow> Queue \<Rightarrow> Queue" where
  "hungup_queue msg r = q_raise Qclosed (r\<lparr>q_err := kstrcpy (if msg = [] then Ehungup else msg) ERRMAX\<rparr>)"

lemma qhangup_wp:
  assumes "ok M w" and "kqueues w q = Some r" and "q \<notin> set (kilocks w)"
    and "\<And>w'. changed M q (hungup_queue msg r) w w' \<Longrightarrow> Q () w'"
  shows "wp (qhangup q msg) Q E w"
  unfolding qhangup_def hungup_queue_def [symmetric]
  by (rule locked_set_wp [OF assms(1-3), where f = "hungup_queue msg"])
    (use assms(4) changed_emit ok_qinv [OF assms(1,2)] in \<open>auto simp: wp_kern\<close>, simp_all add: hungup_queue_def qinv_def)

definition reopened_queue :: "Queue \<Rightarrow> Queue" where
  "reopened_queue r = (q_raise Qstarve (q_clear Qclosed r))\<lparr>q_eof := 0, q_limit := q_inilim r\<rparr>"

lemma qreopen_wp:
  assumes "ok M w" and "kqueues w q = Some r" and "q \<notin> set (kilocks w)"
    and "\<And>w'. changed M q (reopened_queue r) w w' \<Longrightarrow> Q () w'"
  shows "wp (qreopen q) Q E w"
proof -
  have "wp (seq (ilock q) (seq (qset q reopened_queue) (seq (iunlock q) (ret ())))) Q E w"
    by (rule locked_set_wp [OF assms(1-3)])
      (use assms(4) ok_qinv [OF assms(1,2)] in \<open>auto simp: wp_kern reopened_queue_def qinv_def\<close>)
  then show ?thesis by (simp add: qreopen_def reopened_queue_def [symmetric] wp_flow)
qed

lemma qset_wp:
  assumes "ok M w" and "kqueues w q = Some r" and "qinv (f r)" and "bfirst (f r) = bfirst r"
    and "\<And>w'. changed M q (f r) w w' \<Longrightarrow> Q () w'"
  shows "wp (qset q f) Q E w"
  using assms(2,5) ok_flag [OF assms(1-4)] by (simp add: wp_qset)

lemma free_slot: "ok M w \<Longrightarrow> kqueues w (kcalls w) = None"
  using kinvD(8) [of w M "kcalls w"] by (cases "kqueues w (kcalls w)") (auto simp: ok_def)

lemma kinvI:
  assumes "good_malloc (kmalloc s)" and "\<And>i. i \<in> klive s \<Longrightarrow> i < kcalls s" and "klive s = M \<union> queued s"
    and "M \<inter> queued s = {}" and "\<And>q r. kqueues s q = Some r \<Longrightarrow> qinv r"
    and "\<And>q q' r r'. kqueues s q = Some r \<Longrightarrow> kqueues s q' = Some r' \<Longrightarrow> q \<noteq> q' \<Longrightarrow> ids (bfirst r) \<inter> ids (bfirst r') = {}"
    and "\<And>q r. kqueues s q = Some r \<Longrightarrow> q < kcalls s"
  shows "kinv s M"
  unfolding kinv_def using assms by blast

lemma ok_new_queue:
  assumes w: "ok M w" and r: "bfirst r = []" "qinv r"
  shows "ok M (w\<lparr>kcalls := Suc (kcalls w), kqueues := (kqueues w)(kcalls w \<mapsto> r)\<rparr>)"
proof -
  let ?w = "w\<lparr>kcalls := Suc (kcalls w), kqueues := (kqueues w)(kcalls w \<mapsto> r)\<rparr>"
  have i: "kinv w M" using w by (simp add: ok_def)
  note d = kinvD [OF i]
  have "qids (kqueues ?w p) = qids (kqueues w p)" for p using free_slot [OF w] r(1) by (simp add: qids_def)
  then have q: "queued ?w = queued w" unfolding queued_qids by simp
  have "ids (bfirst x) \<inter> ids (bfirst x') = {}" if "kqueues ?w p = Some x" "kqueues ?w p' = Some x'" "p \<noteq> p'" for p p' x x'
    using that r(1) d(7) [of p x p' x'] by (auto split: if_splits)
  moreover have "qinv x" if "kqueues ?w p = Some x" for p x using that r(2) d(5) [of p x] by (auto split: if_splits)
  moreover have "p < Suc (kcalls w)" if "kqueues ?w p = Some x" for p x using that d(8) [of p x] by (auto split: if_splits)
  moreover have "j < Suc (kcalls w)" if "j \<in> klive w" for j using d(2) [OF that] by simp
  ultimately have "kinv ?w M" using d(1,3,4) by (intro kinvI) (simp_all add: q)
  then show ?thesis using w by (simp add: ok_def)
qed

lemma not_plenty: "kmalloc w k n = None \<Longrightarrow> n < 2 ^ 32 \<Longrightarrow> \<not> plenty w"
  unfolding plenty_def by blast

lemma new_queue_wp:
  assumes w: "ok M w" and r: "bfirst r = []" "qinv r"
    and S: "\<And>w'. ok M w' \<Longrightarrow> kqueues w' = (kqueues w)(kcalls w \<mapsto> r) \<Longrightarrow> kqueues w (kcalls w) = None \<Longrightarrow> ctx w' = ctx w \<Longrightarrow>
      kenv w' = kenv w \<Longrightarrow> Q (Some (kcalls w)) w'"
    and N: "\<And>w'. \<not> plenty w \<Longrightarrow> ok M w' \<Longrightarrow> still w w' \<Longrightarrow> Q None w'"
  shows "wp (new_queue r) Q E w"
proof -
  have n: "Q None (w\<lparr>kcalls := Suc (kcalls w)\<rparr>)" if "kmalloc w (kcalls w) 520 = None"
    using not_plenty [OF that] w kinv_calls [of w M] by (intro N) (auto simp: ok_def)
  have s: "Q (Some (kcalls w)) (w\<lparr>kcalls := Suc (kcalls w), kqueues := (kqueues w)(kcalls w \<mapsto> r)\<rparr>)"
    using ok_new_queue [OF w r] free_slot [OF w] by (intro S) (auto simp: ctx_def)
  show ?thesis
    using n s by (auto simp: new_queue_def malloc_def wp_flow split: option.splits)
qed

end
