(* ===== verification/Queue_Sleep.thy ===== *)
theory Queue_Sleep
  imports Queue_Rules
begin

text \<open>
  Rules for the queue operations that wait for data: \<^verbatim>\<open>qwait\<close>, \<^verbatim>\<open>qbread\<close> and \<^verbatim>\<open>qread\<close>. While a
  process sleeps, anything that keeps the invariant may happen to the queue.
\<close>

section \<open>Waiting for data\<close>

text \<open>
  \<open>after w w'\<close>: other code may have run between; it left this process, its locks and the existing
  queues alone.
\<close>

definition after :: "world \<Rightarrow> world \<Rightarrow> bool" where
  "after w w' \<longleftrightarrow> ctx w' = ctx w \<and> dom (kqueues w) \<subseteq> dom (kqueues w') \<and> length (kenv w') \<le> length (kenv w)"

lemma after_refl [simp]: "after w w"
  by (simp add: after_def)

lemma after_trans: "after w w' \<Longrightarrow> after w' w'' \<Longrightarrow> after w w''"
  by (auto simp: after_def)

lemma changed_after: "changed M q r' w w' \<Longrightarrow> after w w'"
  by (auto simp: changed_def after_def)

lemma still_after: "still w w' \<Longrightarrow> after w w'"
  by (auto simp: still_def after_def)

lemma after_locks: "after w w' \<Longrightarrow> kilocks w' = kilocks w \<and> kqlocks w' = kqlocks w"
  by (simp add: after_def ctx_def)

lemma after_at: "after w w' \<Longrightarrow> kqueues w q = Some r \<Longrightarrow> \<exists>r'. kqueues w' q = Some r'"
  by (auto simp: after_def)

lemma after_lock: "after w w' \<Longrightarrow> after (w\<lparr>kilocks := x\<rparr>) (w'\<lparr>kilocks := x\<rparr>)"
  by (simp add: after_def ctx_def)

lemma after_unlock: "after (w\<lparr>kilocks := x\<rparr>) w' \<Longrightarrow> kilocks w = y \<Longrightarrow> after w (w'\<lparr>kilocks := y\<rparr>)"
  by (simp add: after_def ctx_def)

lemma call_kick_wp:
  assumes "ok M w" and "\<And>w'. ok M w' \<Longrightarrow> after w w' \<Longrightarrow> kenv w' = kenv w \<Longrightarrow> Q () w'"
  shows "wp (call_kick q) Q E w"
proof -
  let ?w = "w\<lparr>ktrace := ktrace w @ [Kick q]\<rparr>"
  let ?s = "kst.truncate ?w"
  have "good_step (kkick w q)" using assms(1) by (simp add: ok_def rely_def)
  moreover have "kinv ?s M" using assms(1) by (simp add: ok_def)
  ultimately have k: "kinv (kkick w q ?s) M" "ctx (kkick w q ?s) = ctx ?s" "dom (kqueues ?s) \<subseteq> dom (kqueues (kkick w q ?s))"
    unfolding good_step_def by blast+
  have "ok M (on_kst (kkick w q) ?w)" using k(1) assms(1) by (simp add: ok_def rely_def)
  moreover have "after w (on_kst (kkick w q) ?w)"
    using k(2,3) by (simp add: after_def) (simp add: ctx_def)
  ultimately show ?thesis using assms(2) by (simp add: call_kick_def wp_flow wp_emit)
qed

definition eof_answer :: "Queue \<Rightarrow> int" where
  "eof_answer r = (if q_eof r > 3 \<or> (q_err r \<noteq> [] \<and> q_err r \<noteq> Ehungup) then -1 else 0)"

definition eof_read :: "Queue \<Rightarrow> Queue" where
  "eof_read r = r\<lparr>q_eof := q_eof r + 1\<rparr>"

lemma eof_read_simps [simp]: "bfirst (eof_read r) = bfirst r" "q_has fl (eof_read r) = q_has fl r" "qinv (eof_read r) = qinv r"
    "q_eof (eof_read r) = q_eof r + 1" "q_err (eof_read r) = q_err r"
  by (simp_all add: eof_read_def qinv_def)

lemma closed_wait_wp:
  assumes "ok M w" and "kqueues w q = Some r"
    and "\<And>w'. changed M q (eof_read r) w w' \<Longrightarrow> Q (eof_answer (eof_read r)) w'"
  shows "wp (closed_wait q) Q E w"
  unfolding closed_wait_def wp_seq eof_read_def [symmetric]
  by (rule qset_wp [OF assms(1,2)])
    (use assms(3) ok_qinv [OF assms(1,2)] in \<open>auto simp: wp_qf changed_at eof_answer_def\<close>)

text \<open>
  What \<^verbatim>\<open>qwait\<close> comes back with. Either there are blocks (1), or the queue is closed and empty; if it
  did not have to wait the state is the one it started in. Asleep, the queue asks to be fed.
\<close>

lemma later_after: "later w w' \<Longrightarrow> after w w'"
  by (simp add: later_def after_def)

text \<open>\<open>sleep\<close> with no spin lock held: it comes back at once, or later, or not at all.\<close>

lemma sleep_on_wp:
  assumes w: "ok M w" "kilocks w = []" and r: "kqueues w q = Some r"
    and Y: "cond r \<Longrightarrow> Q () w"
    and S: "\<And>w'. \<not> cond r \<Longrightarrow> kenv w \<noteq> [] \<Longrightarrow> ok M w' \<Longrightarrow> after w w' \<Longrightarrow> length (kenv w') < length (kenv w) \<Longrightarrow> Q () w'"
    and I: "\<And>w'. \<not> cond r \<Longrightarrow> kenv w \<noteq> [] \<Longrightarrow> ok M w' \<Longrightarrow> after w w' \<Longrightarrow> length (kenv w') < length (kenv w) \<Longrightarrow> E (Error Eintr) w'"
    and B: "\<not> cond r \<Longrightarrow> kenv w = [] \<Longrightarrow> E Blocked w"
  shows "wp (sleep_on q cond) Q E w"
proof (cases "cond r")
  case True
  then show ?thesis using Y r by (simp add: sleep_on_def wp_flow wp_qf)
next
  case False
  have "wp doze Q E w"
  proof (rule doze_wp [OF w])
    fix w' assume w': "ok M w'" "later w w'" "length (kenv w') < length (kenv w)"
    then have "after w w'" "kenv w \<noteq> []" using later_after [OF w'(2)] by auto
    then show "Q () w'" "E (Error Eintr) w'" using S I False w' by blast+
  qed (use B False in blast)
  then show ?thesis using False r by (simp add: sleep_on_def wp_flow wp_qf)
qed

lemma unlocked_wp:
  assumes "ok M w" and "after (w0\<lparr>kilocks := [q]\<rparr>) w" and "kilocks w0 = []"
    and "\<And>w1. ok M w1 \<Longrightarrow> after w0 w1 \<Longrightarrow> kqueues w1 = kqueues w \<Longrightarrow> kenv w1 = kenv w \<Longrightarrow> kilocks w1 = [] \<Longrightarrow> Q () w1"
  shows "wp (iunlock q) Q E w"
proof -
  have "kilocks w = [q]" using after_locks [OF assms(2)] by simp
  moreover have "Q () (w\<lparr>kilocks := []\<rparr>)"
    using after_unlock [OF assms(2,3)] assms(1) by (intro assms(4)) auto
  ultimately show ?thesis by (simp add: wp_iunlock)
qed

lemma relocked_wp:
  assumes "ok M w" and "after w0 w" and "kilocks w0 = []"
    and "\<And>w1. ok M w1 \<Longrightarrow> after (w0\<lparr>kilocks := [q]\<rparr>) w1 \<Longrightarrow> kqueues w1 = kqueues w \<Longrightarrow> kenv w1 = kenv w \<Longrightarrow> Q () w1"
  shows "wp (ilock q) Q E w"
proof -
  have "kilocks w = []" using after_locks [OF assms(2)] assms(3) by simp
  then show ?thesis using assms(4) [of "w\<lparr>kilocks := [q]\<rparr>"] assms(1) after_lock [OF assms(2)] by (simp add: wp_ilock)
qed

text \<open>
  What \<^verbatim>\<open>qwait\<close> comes back with. Either there are blocks (1), or the queue is closed and empty. Unless it
  slept (\<open>slept\<close>), this is the state it started in. Asleep, it has asked to be woken.
\<close>

definition slept :: "Queue \<Rightarrow> world \<Rightarrow> world \<Rightarrow> bool" where
  "slept r w w' \<longleftrightarrow> bfirst r = [] \<and> \<not> q_has Qclosed r \<and> length (kenv w') < length (kenv w)"

lemma qwait_loop_wp:
  assumes "ok M w" and "after (w0\<lparr>kilocks := [q]\<rparr>) w" and "kqueues w q = Some r" and k: "kilocks w0 = []" "q \<in> dom (kqueues w0)" and "length (kenv w) \<le> n"
    and "\<And>w' r'. ok M w' \<Longrightarrow> after (w0\<lparr>kilocks := [q]\<rparr>) w' \<Longrightarrow> kqueues w' q = Some r' \<Longrightarrow> bfirst r' \<noteq> [] \<Longrightarrow>
      w' = w \<or> slept r w w' \<Longrightarrow> Q 1 w'"
    and "\<And>w' r'. ok M w' \<Longrightarrow> after (w0\<lparr>kilocks := [q]\<rparr>) w' \<Longrightarrow> kqueues w' q = Some r' \<Longrightarrow> bfirst r' = [] \<Longrightarrow>
      q_has Qclosed r' \<Longrightarrow> bfirst r = [] \<Longrightarrow> r' = eof_read r \<and> changed M q r' w w' \<or> slept r w w' \<Longrightarrow> Q (eof_answer r') w'"
    and "\<And>w'. ok M w' \<Longrightarrow> after w0 w' \<Longrightarrow> slept r w w' \<Longrightarrow> E (Error Eintr) w'"
    and "\<And>w' r'. ok M w' \<Longrightarrow> after w0 w' \<Longrightarrow> kqueues w' q = Some r' \<Longrightarrow> bfirst r' = [] \<Longrightarrow> q_has Qstarve r' \<Longrightarrow>
      \<not> q_has Qclosed r' \<Longrightarrow> bfirst r = [] \<Longrightarrow> \<not> q_has Qclosed r \<Longrightarrow> kenv w' = [] \<Longrightarrow> E Blocked w'"
  shows "wp (qwait_loop n q) Q E w"
  using assms(1-3,6-)
proof (induction n arbitrary: w r rule: less_induct)
  case (less n w r)
  show ?case
  proof (cases "bfirst r = [] \<and> \<not> q_has Qclosed r")
    case False
    have "Q 1 w" if "bfirst r \<noteq> []" by (rule less.prems(5)) (use less.prems(1-3) that in auto)
    moreover have "wp (closed_wait q) Q E w" if e: "bfirst r = []" "q_has Qclosed r"
    proof (rule closed_wait_wp [OF less.prems(1,3)])
      fix w' assume ch: "changed M q (eof_read r) w w'"
      show "Q (eof_answer (eof_read r)) w'"
        by (rule less.prems(6)) (use ch e changed_ok [OF ch] changed_at [OF ch] after_trans [OF less.prems(2) changed_after [OF ch]] in auto)
    qed
    ultimately show ?thesis using False less.prems(3) by (subst qwait_loop.simps) (auto simp: wp_flow wp_qf)
  next
    case True
    let ?r = "q_raise Qstarve r"
    let ?next = "case n of 0 \<Rightarrow> raise Blocked | Suc m \<Rightarrow> qwait_loop m q"
    have next_ok: "wp (ilock q) (\<lambda>_. wp ?next Q E) E w2" if a: "ok M w2" "after w0 w2" "length (kenv w2) < length (kenv w)" for w2
    proof -
      from a(3) less.prems(4) obtain m where m: "n = Suc m" by (cases n) auto
      obtain r2 where r2: "kqueues w2 q = Some r2"
        using a(2) k(2) by (auto simp: after_def)
      have "wp (qwait_loop m q) Q E w3" if b: "ok M w3" "after (w0\<lparr>kilocks := [q]\<rparr>) w3" "kqueues w3 = kqueues w2" "kenv w3 = kenv w2" for w3
      proof (rule less.IH)
        have sl: "slept r w w'" if "length (kenv w') \<le> length (kenv w3)" for w'
          using True a(3) b(4) that by (simp add: slept_def)
        show "kqueues w3 q = Some r2" using b(3) r2 by simp
        show "m < n" "length (kenv w3) \<le> m" using m a(3) b(4) less.prems(4) by auto
        show "Q 1 w'" if "ok M w'" "after (w0\<lparr>kilocks := [q]\<rparr>) w'" "kqueues w' q = Some r'" "bfirst r' \<noteq> []"
          "w' = w3 \<or> slept r2 w3 w'" for w' r'
          using that sl [of w'] by (intro less.prems(5) [of w' r']) (auto simp: slept_def)
        show "Q (eof_answer r') w'" if "ok M w'" "after (w0\<lparr>kilocks := [q]\<rparr>) w'" "kqueues w' q = Some r'" "bfirst r' = []"
          "q_has Qclosed r'" "r' = eof_read r2 \<and> changed M q r' w3 w' \<or> slept r2 w3 w'" for w' r'
          using that sl [of w'] True by (intro less.prems(6) [of w' r']) (auto simp: slept_def changed_def)
        show "E (Error Eintr) w'" if "ok M w'" "after w0 w'" "slept r2 w3 w'" for w'
          using that sl [of w'] by (intro less.prems(7)) (auto simp: slept_def)
      qed (use b less.prems(8) True in auto)
      then show ?thesis unfolding m by (auto intro!: relocked_wp [OF a(1,2) k(1)])
    qed
    have "wp (qset q (q_raise Qstarve)) (\<lambda>_. wp (iunlock q) (\<lambda>_. wp (sleep_on q notempty) (\<lambda>_. wp (ilock q) (\<lambda>_. wp ?next Q E) E) E) E) E w"
    proof (rule qset_wp [OF less.prems(1,3)])
      fix w1 assume ch: "changed M q ?r w w1"
      note w1 = changed_ok [OF ch] after_trans [OF less.prems(2) changed_after [OF ch]] changed_at [OF ch]
      have e1: "kenv w1 = kenv w" using ch by (simp add: changed_def)
      show "wp (iunlock q) (\<lambda>_. wp (sleep_on q notempty) (\<lambda>_. wp (ilock q) (\<lambda>_. wp ?next Q E) E) E) E w1"
      proof (rule unlocked_wp [OF w1(1,2) k(1)])
        fix w2 assume a: "ok M w2" "after w0 w2" "kqueues w2 = kqueues w1" "kenv w2 = kenv w1" "kilocks w2 = []"
        have r2: "kqueues w2 q = Some ?r" using a(3) w1(3) by simp
        have empty: "\<not> notempty ?r" using True by (simp add: notempty_def flag_numbers)
        show "wp (sleep_on q notempty) (\<lambda>_. wp (ilock q) (\<lambda>_. wp ?next Q E) E) E w2"
        proof (rule sleep_on_wp [OF a(1,5) r2])
          fix w' assume w': "ok M w'" "after w2 w'" "length (kenv w') < length (kenv w2)" "kenv w2 \<noteq> []"
          have af: "after w0 w'" using after_trans [OF a(2) w'(2)] .
          show "wp (ilock q) (\<lambda>_. wp ?next Q E) E w'" using next_ok [OF w'(1) af] w'(3) a(4) e1 by simp
          show "E (Error Eintr) w'" using w'(1,3) af True a(4) e1 by (intro less.prems(7)) (auto simp: slept_def)
        next
          assume "kenv w2 = []"
          then show "E Blocked w2" using a r2 True by (intro less.prems(8) [of w2 ?r]) (auto simp: flag_numbers)
        qed (use empty in simp)
      qed
    qed (use ok_qinv [OF less.prems(1,3)] in auto)
    then show ?thesis using True less.prems(3) by (subst qwait_loop.simps) (simp add: wp_flow wp_qf)
  qed
qed

lemma qwait_wp:
  assumes "ok M w" and "after (w0\<lparr>kilocks := [q]\<rparr>) w" and "kqueues w q = Some r" and "kilocks w0 = []" "q \<in> dom (kqueues w0)"
    and "\<And>w' r'. ok M w' \<Longrightarrow> after (w0\<lparr>kilocks := [q]\<rparr>) w' \<Longrightarrow> kqueues w' q = Some r' \<Longrightarrow> bfirst r' \<noteq> [] \<Longrightarrow>
      w' = w \<or> slept r w w' \<Longrightarrow> Q 1 w'"
    and "\<And>w' r'. ok M w' \<Longrightarrow> after (w0\<lparr>kilocks := [q]\<rparr>) w' \<Longrightarrow> kqueues w' q = Some r' \<Longrightarrow> bfirst r' = [] \<Longrightarrow>
      q_has Qclosed r' \<Longrightarrow> bfirst r = [] \<Longrightarrow> r' = eof_read r \<and> changed M q r' w w' \<or> slept r w w' \<Longrightarrow> Q (eof_answer r') w'"
    and "\<And>w'. ok M w' \<Longrightarrow> after w0 w' \<Longrightarrow> slept r w w' \<Longrightarrow> E (Error Eintr) w'"
    and "\<And>w' r'. ok M w' \<Longrightarrow> after w0 w' \<Longrightarrow> kqueues w' q = Some r' \<Longrightarrow> bfirst r' = [] \<Longrightarrow> q_has Qstarve r' \<Longrightarrow>
      \<not> q_has Qclosed r' \<Longrightarrow> bfirst r = [] \<Longrightarrow> \<not> q_has Qclosed r \<Longrightarrow> kenv w' = [] \<Longrightarrow> E Blocked w'"
  shows "wp (qwait q) Q E w"
  unfolding qwait_def wp_and_then wp_fetch
  by (rule qwait_loop_wp [OF assms(1-5)]) (use assms(6-) in blast)+

section \<open>Taking blocks out\<close>

lemma changed_after_trans: "after w0 w \<Longrightarrow> changed M q r w w' \<Longrightarrow> after w0 w'"
  by (blast intro: after_trans changed_after)

lemma qremove_wp:
  assumes "changed M q r w0 w" and "bfirst r = b # nxt"
    and "\<And>w'. changed (insert (b_id b) M) q (unlink_first b nxt r) w0 w' \<Longrightarrow> b_id b \<notin> M \<Longrightarrow> wfB b \<Longrightarrow> Q (Some b) w'"
  shows "wp (qremove q) Q E w"
proof -
  note u = ok_unlink [OF changed_ok [OF assms(1)] changed_at [OF assms(1)] assms(2)]
  let ?r = "unlink_first b nxt r"
  have "changed (insert (b_id b) M) q ?r w0 (w\<lparr>kqueues := (kqueues w)(q \<mapsto> ?r)\<rparr>)"
    using u(1) by (intro changed_trans [OF assms(1)]) simp
  then show ?thesis using assms(2,3) u(2,3) changed_at [OF assms(1)] by (simp add: qremove_def wp_flow wp_qf wp_qset)
qed

lemma qputback_wp:
  assumes ch: "changed (insert (b_id b) M) q r w0 w" and b: "wfB b" "b_id b \<notin> M"
    and "\<And>r' w'. changed M q r' w0 w' \<Longrightarrow> alike r r' \<Longrightarrow> q_state r' = q_state r \<Longrightarrow> bfirst r' = b # bfirst r \<Longrightarrow> Q () w'"
  shows "wp (qputback q b) Q E w"
proof -
  let ?f = "\<lambda>r. r\<lparr>bfirst := b # bfirst r, blast := (if bfirst r = [] then b_id b else blast r),
     q_len := q_len r + BALLOC b, q_dlen := q_dlen r + BLEN b\<rparr>"
  have inv: "qinv r" using ok_qinv [OF changed_ok [OF ch] changed_at [OF ch]] .
  have apart: "ids (bfirst r) \<inter> insert (b_id b) M = {}" using ok_apart [OF changed_ok [OF ch] changed_at [OF ch]] .
  have "qinv (?f r)" using inv b apart by (auto simp: qinv_def)
  then have "changed M q (?f r) w0 (w\<lparr>kqueues := (kqueues w)(q \<mapsto> ?f r)\<rparr>)"
    using apart b by (intro changed_move [OF ch]) auto
  then show ?thesis using assms(4) [of "?f r"] changed_at [OF ch] by (simp add: qputback_def wp_qset)
qed

text \<open>
  The blocks a coalescing read takes: from the front, until they hold \<open>len\<close> bytes or no more are left.
\<close>

fun taken :: "int \<Rightarrow> Block list \<Rightarrow> Block list" where
  "taken len [] = []"
| "taken len (b # nxt) = b # (if len \<le> BLEN b then [] else taken (len - BLEN b) nxt)"

lemma taken_prefix: "taken len bs @ drop (length (taken len bs)) bs = bs"
  by (induction len bs rule: taken.induct) auto

lemma take_taken: "chain bs \<Longrightarrow> take (nat len) (data (taken len bs)) = take (nat len) (data bs)"
proof (induction len bs rule: taken.induct)
  case (2 len b nxt)
  then show ?case using length_bytes_nat [of b] BLEN_nonneg [of b] by (auto simp: nat_diff_distrib)
qed simp

lemma grab_wp:
  assumes "changed M q r w0 w" and "bfirst r = bs" and "bs \<noteq> []"
    and "\<And>pre l n' r' w'. pre @ [l] = taken (len - n) bs \<Longrightarrow> n' = n + blocklen (pre @ [l]) \<Longrightarrow>
      changed (M \<union> ids (pre @ [l])) q r' w0 w' \<Longrightarrow> alike r r' \<Longrightarrow> q_state r' = q_state r \<Longrightarrow>
      bfirst r' = drop (length (pre @ [l])) bs \<Longrightarrow> Q (pre, l, n') w'"
  shows "wp (grab q len n bs) Q E w"
  using assms
proof (induction bs arbitrary: M r w n Q)
  case (Cons b nxt)
  let ?r = "unlink_first b nxt r"
  let ?rest = "if n + BLEN b \<ge> len \<or> nxt = [] then ret ([], b, n + BLEN b)
     else and_then (grab q len (n + BLEN b) nxt) (\<lambda>(pre, l, n). ret (b # pre, l, n))"
  have al: "alike r ?r" "q_state ?r = q_state r" by (simp_all add: unlink_first_def)
  have "wp ?rest Q E w'" if ch: "changed (insert (b_id b) M) q ?r w0 w'" for w'
  proof (cases "n + BLEN b \<ge> len \<or> nxt = []")
    case True
    then have "[] @ [b] = taken (len - n) (b # nxt)" by auto
    then show ?thesis using True ch al by (auto simp: wp_flow intro!: Cons.prems(4) [of "[]" b _ ?r])
  next
    case False
    have "wp (grab q len (n + BLEN b) nxt) (\<lambda>(pre, l, n). Q (b # pre, l, n)) E w'"
    proof (rule Cons.IH [OF ch])
      fix pre l n' r' w''
      assume h: "pre @ [l] = taken (len - (n + BLEN b)) nxt" "n' = n + BLEN b + blocklen (pre @ [l])"
        "changed (insert (b_id b) M \<union> ids (pre @ [l])) q r' w0 w''" "alike ?r r'" "q_state r' = q_state ?r"
        "bfirst r' = drop (length (pre @ [l])) nxt"
      have "changed (M \<union> ids ((b # pre) @ [l])) q r' w0 w''" using h(3) by (simp add: insert_commute)
      moreover have "alike r r'" using al(1) h(4) by (rule alike_trans)
      ultimately show "(case (pre, l, n') of (pre, l, n) \<Rightarrow> Q (b # pre, l, n)) w''"
        using h al(2) False by (auto intro!: Cons.prems(4) [of "b # pre" l _ r'] simp: algebra_simps)
    qed (use False in simp_all)
    then show ?thesis using False by (simp add: wp_flow split_def)
  qed
  then show ?case
    by (auto simp: wp_flow the_block_def Let_def intro!: qremove_wp [OF Cons.prems(1,2)])
qed simp

definition cut :: "int \<Rightarrow> Queue \<Rightarrow> Block list" where
  "cut len r = (if q_has Qcoalesce r then taken len (bfirst r) else take 1 (bfirst r))"

lemma cut_prefix: "cut len r @ drop (length (cut len r)) (bfirst r) = bfirst r"
  using taken_prefix [of len "bfirst r"] append_take_drop_id [of 1 "bfirst r"] by (cases "bfirst r") (auto simp: cut_def)

lemma take_first_wp:
  assumes ch: "changed M q r w0 w" and ne: "bfirst r \<noteq> []"
    and Q: "\<And>pre l r' w'. pre @ [l] = cut len r \<Longrightarrow>
      changed (M \<union> ids (pre @ [l])) q r' w0 w' \<Longrightarrow> alike r r' \<Longrightarrow> q_state r' = q_state r \<Longrightarrow>
      bfirst r' = drop (length (pre @ [l])) (bfirst r) \<Longrightarrow> Q (pre, l, blocklen (pre @ [l])) w'"
  shows "wp (take_first q len) Q E w"
proof (cases "q_has Qcoalesce r")
  case True
  have "wp (grab q len 0 (bfirst r)) Q E w"
    by (rule grab_wp [OF ch refl ne]) (use Q True in \<open>auto simp: cut_def\<close>)
  then show ?thesis using True changed_at [OF ch] by (simp add: take_first_def wp_flow wp_qf)
next
  case False
  obtain b nxt where b: "bfirst r = b # nxt" using ne by (cases "bfirst r") auto
  have "Q ([], b, BLEN b) w'" if "changed (insert (b_id b) M) q (unlink_first b nxt r) w0 w'" for w'
    using Q [of "[]" b "unlink_first b nxt r" w'] that b False by (simp add: cut_def unlink_first_def)
  then show ?thesis
    using False changed_at [OF ch] by (auto simp: take_first_def wp_flow wp_qf the_block_def intro!: qremove_wp [OF ch b])
qed


lemma plenty_ctx: "ctx w' = ctx w \<Longrightarrow> plenty w' = plenty w"
  by (simp add: plenty_def ctx_def)

lemma starvedD: "starved w e w' \<Longrightarrow> \<not> plenty w \<and> (e = Panic \<or> e = Blocked)"
  by (simp add: starved_def)

text \<open>Cutting the tail off a block just taken, and putting it back at the front of the queue.\<close>

lemma splitback_wp:
  assumes ch: "changed (insert (b_id l) M) q r w0 w" and lk: "kilocks w0 \<noteq> []" and l: "wfB l" "b_id l \<notin> M" and n: "0 \<le> n" "n \<le> BLEN l"
    and Q: "\<And>h t r' w'. changed (insert (b_id h) M) q r' w0 w' \<Longrightarrow> b_id h \<notin> M \<Longrightarrow> wfB h \<Longrightarrow>
      bytes_of h = take (nat (BLEN l - n)) (bytes_of l) \<Longrightarrow> bytes_of t = drop (nat (BLEN l - n)) (bytes_of l) \<Longrightarrow>
      alike r r' \<Longrightarrow> q_state r' = q_state r \<Longrightarrow> bfirst r' = t # bfirst r \<Longrightarrow> Q h w'"
    and X: "\<And>e w'. \<not> plenty w0 \<Longrightarrow> e = Panic \<or> e = Blocked \<Longrightarrow> E e w'"
  shows "wp (and_then (splitblock l n) (\<lambda>(h, t). seq (qputback q t) (ret h))) Q E w"
proof -
  have "wp (splitblock l n) (\<lambda>(h, t). wp (qputback q t) (\<lambda>_. Q h) E) (starved w) w"
  proof (rule splitblock_wp [OF changed_ok [OF ch]])
    fix h t w' assume h: "turns (insert (b_id l) M) [l] [h, t] w w'" "bytes_of h = take (nat (BLEN l - n)) (bytes_of l)"
      "bytes_of t = drop (nat (BLEN l - n)) (bytes_of l)"
    have eq: "(insert (b_id l) M - ids [l]) \<union> ids [h, t] = insert (b_id t) (insert (b_id h) M)" using l(2) by auto
    have g: "ok (insert (b_id t) (insert (b_id h) M)) w'" "wfB h" "wfB t" "b_id h \<noteq> b_id t" "b_id h \<notin> M" "b_id t \<notin> M" "still w w'"
      using h(1) l(2) lk changed_locks [OF ch] unfolding turns_def eq by (auto simp: later_def)
    have "changed (insert (b_id t) (insert (b_id h) M)) q r w0 w'" using changed_still [OF ch g(1,7)] .
    then have "wp (qputback q t) (\<lambda>_. Q h) E w'"
      using g h by (auto intro!: qputback_wp [of t "insert (b_id h) M" q r w0] Q [of h _ _ t])
    then show "(case (h, t) of (h, t) \<Rightarrow> wp (qputback q t) (\<lambda>_. Q h) E) w'" by simp
  qed (use l n in auto)
  then have "wp (splitblock l n) (\<lambda>(h, t). wp (qputback q t) (\<lambda>_. Q h) E) E w"
  proof (rule wp_conseq)
    fix e w' assume "starved w e w'"
    moreover have "plenty w = plenty w0" using ch by (intro plenty_ctx) (simp add: changed_def)
    ultimately show "E e w'" using X by (auto dest!: starvedD)
  qed
  then show ?thesis by (simp add: wp_flow split_def)
qed

text \<open>The end of a read: the writer is restarted, through the kick routine where there is one.\<close>

definition settled :: "nat \<Rightarrow> Queue \<Rightarrow> world \<Rightarrow> world \<Rightarrow> bool" where
  "settled q r w w' \<longleftrightarrow> (\<not> q_kick r \<longrightarrow> kenv w' = kenv w \<and> (\<exists>r'. flagged r r' \<and> kqueues w' = (kqueues w)(q \<mapsto> r')))"

lemma qwakeup_iunlock_wp:
  assumes w: "ok M w" "after (w0\<lparr>kilocks := [q]\<rparr>) w" and r: "kqueues w q = Some r" and k: "kilocks w0 = []"
    and Q: "\<And>w'. ok M w' \<Longrightarrow> after w0 w' \<Longrightarrow> settled q r w w' \<Longrightarrow> Q () w'"
  shows "wp (qwakeup_iunlock q) Q E w"
proof -
  have "wp (iunlock q) (\<lambda>_. wp (only_if c (and_then (qf q q_kick) (\<lambda>kick. seq (only_if kick (call_kick q)) (wakeup_wr q)))) Q E) E
     (w\<lparr>kqueues := (kqueues w)(q \<mapsto> r')\<rparr>)" if f: "flagged r r'" for r' c
  proof (rule unlocked_wp [OF _ _ k])
    show "ok M (w\<lparr>kqueues := (kqueues w)(q \<mapsto> r')\<rparr>)" by (rule ok_flagged [OF w(1) r f])
    show "after (w0\<lparr>kilocks := [q]\<rparr>) (w\<lparr>kqueues := (kqueues w)(q \<mapsto> r')\<rparr>)"
      using w(2) by (auto simp: after_def ctx_def)
    fix w1 assume h: "ok M w1" "after w0 w1" "kqueues w1 = kqueues (w\<lparr>kqueues := (kqueues w)(q \<mapsto> r')\<rparr>)"
      "kenv w1 = kenv (w\<lparr>kqueues := (kqueues w)(q \<mapsto> r')\<rparr>)" "kilocks w1 = []"
    have at: "kqueues w1 q = Some r'" "q_kick r' = q_kick r" using h(3) f by (auto simp: flagged_def alike_def)
    have fin: "Q () (w2\<lparr>ktrace := t\<rparr>)" if "ok M w2" "after w0 w2" "settled q r w w2" for w2 t
      using that by (intro Q) (auto simp: after_def ctx_def settled_def)
    have s1: "settled q r w w1" using h(3,4) f by (auto simp: settled_def)
    have "wp (call_kick q) (\<lambda>_. wp (wakeup_wr q) Q E) E w1" if "q_kick r"
      by (rule call_kick_wp [OF h(1)])
        (use that after_trans [OF h(2)] fin in \<open>auto simp: settled_def wakeup_wr_def wp_emit\<close>)
    then show "wp (only_if c (and_then (qf q q_kick) (\<lambda>kick. seq (only_if kick (call_kick q)) (wakeup_wr q)))) Q E w1"
      using at h s1 fin [of w1] Q by (auto simp: wp_only_if wp_flow wp_qf wakeup_wr_def wp_emit)
  qed
  then show ?thesis unfolding qwakeup_iunlock_def by (auto simp: wp_flow intro!: restart_wp [OF r])
qed

section \<open>Reading\<close>

lemma drop_empty_wp:
  assumes "changed M q r w0 w" and "bfirst r = bs"
    and "\<And>r' w'. changed M q r' w0 w' \<Longrightarrow> alike r r' \<Longrightarrow> q_state r' = q_state r \<Longrightarrow> bfirst r' \<noteq> [] \<Longrightarrow>
      data (bfirst r') = data bs \<Longrightarrow> data bs \<noteq> [] \<Longrightarrow> Q True w'"
    and "\<And>r' w'. changed M q r' w0 w' \<Longrightarrow> alike r r' \<Longrightarrow> q_state r' = q_state r \<Longrightarrow> bfirst r' = [] \<Longrightarrow> data bs = [] \<Longrightarrow> Q False w'"
  shows "wp (drop_empty q bs) Q E w"
  using assms
proof (induction bs arbitrary: r w)
  case Nil
  then show ?case by (auto simp: wp_flow intro!: Nil.prems(4) [of r])
next
  case (Cons b nxt)
  have wf: "wfB b" using ok_qinv [OF changed_ok [OF Cons.prems(1)] changed_at [OF Cons.prems(1)]] Cons.prems(2) by (simp add: qinv_def)
  note l = length_bytes_nat [OF wf]
  show ?case
  proof (cases "BLEN b \<le> 0")
    case False
    then have "bytes_of b \<noteq> []" using l by auto
    then show ?thesis using False Cons.prems by (auto simp: wp_flow intro!: Cons.prems(3) [of r])
  next
    case True
    let ?r = "unlink_first b nxt r"
    have e: "bytes_of b = []" using True l by simp
    have al: "alike r ?r" "q_state ?r = q_state r" by (simp_all add: unlink_first_def)
    have "wp (freeb b) (\<lambda>_. wp (drop_empty q nxt) Q E) E w'" if ch: "changed (insert (b_id b) M) q ?r w0 w'" "b_id b \<notin> M" for w'
    proof (rule freeb_wp [OF changed_ok [OF ch(1)]])
      fix w2 assume w2: "ok (insert (b_id b) M - {b_id b}) w2" "still w' w2"
      have ch2: "changed M q ?r w0 w2" using changed_still [OF ch(1) _ w2(2)] w2(1) ch(2) by simp
      show "wp (drop_empty q nxt) Q E w2"
        by (rule Cons.IH [OF ch2]) (use Cons.prems(3,4) e al alike_trans [OF al(1)] in auto)
    qed simp
    then show ?thesis
      using True by (auto simp: wp_flow the_block_def intro!: qremove_wp [OF Cons.prems(1,2)])
  qed
qed

text \<open>A read from \<open>r\<close> need not wait.\<close>

definition ready :: "Queue \<Rightarrow> bool" where
  "ready r \<longleftrightarrow> (if q_has Qcoalesce r then data (bfirst r) \<noteq> [] else bfirst r \<noteq> [])"

text \<open>
  What a reader finds, \<open>r'\<close>, when it need not wait: the queue as it was, less the empty blocks in
  front of a coalescing one.
\<close>

definition found :: "nat set \<Rightarrow> nat \<Rightarrow> Queue \<Rightarrow> Queue \<Rightarrow> world \<Rightarrow> world \<Rightarrow> bool" where
  "found M q r r' w w' \<longleftrightarrow> changed M q r' w w' \<and> alike r r' \<and> q_state r' = q_state r \<and> data (bfirst r') = data (bfirst r)
     \<and> (\<not> q_has Qcoalesce r \<longrightarrow> bfirst r' = bfirst r)"

lemma found_refl: "ok M w \<Longrightarrow> kqueues w q = Some r \<Longrightarrow> found M q r r w w"
  by (simp add: found_def changed_self)

lemma found_after: "found M q r r' w w' \<Longrightarrow> after w w'"
  by (auto simp: found_def intro: changed_after)

text \<open>Nothing happens to the queue while a reader waits for it: it need not wait, or nothing is left to happen.\<close>

definition prompt :: "Queue \<Rightarrow> world \<Rightarrow> bool" where
  "prompt r w \<longleftrightarrow> ready r \<or> q_has Qclosed r \<or> kenv w = []"

lemma slept_prompt: "slept r w w' \<Longrightarrow> \<not> ready r \<and> \<not> prompt r w"
  by (auto simp: slept_def prompt_def ready_def)

lemma eof_answer_cases: "eof_answer r = 0 \<or> eof_answer r = -1"
  by (simp add: eof_answer_def)

text \<open>The four ways out of waiting, from \<open>w\<close> with the queue \<open>r\<close>; \<open>w0\<close> is the state before the lock was taken.\<close>

definition has_data :: "nat set \<Rightarrow> nat \<Rightarrow> Queue \<Rightarrow> world \<Rightarrow> world \<Rightarrow> Queue \<Rightarrow> world \<Rightarrow> bool" where
  "has_data M q r w w0 r' w' \<longleftrightarrow> ok M w' \<and> after (w0\<lparr>kilocks := [q]\<rparr>) w' \<and> kqueues w' q = Some r' \<and> ready r'
     \<and> (prompt r w \<longrightarrow> ready r \<and> found M q r r' w w')"

definition at_end :: "nat set \<Rightarrow> nat \<Rightarrow> Queue \<Rightarrow> world \<Rightarrow> world \<Rightarrow> Queue \<Rightarrow> world \<Rightarrow> bool" where
  "at_end M q r w w0 r' w' \<longleftrightarrow> ok M w' \<and> after (w0\<lparr>kilocks := [q]\<rparr>) w' \<and> kqueues w' q = Some r' \<and> bfirst r' = []
     \<and> q_has Qclosed r' \<and> \<not> ready r
     \<and> (prompt r w \<longrightarrow> q_has Qclosed r \<and> (\<exists>r1. alike r r1 \<and> r' = eof_read r1 \<and> changed M q r' w w'))"

definition interrupted :: "nat set \<Rightarrow> Queue \<Rightarrow> world \<Rightarrow> world \<Rightarrow> world \<Rightarrow> bool" where
  "interrupted M r w w0 w' \<longleftrightarrow> ok M w' \<and> after w0 w' \<and> \<not> prompt r w"

definition hungry :: "nat set \<Rightarrow> nat \<Rightarrow> Queue \<Rightarrow> world \<Rightarrow> world \<Rightarrow> bool" where
  "hungry M q r w0 w' \<longleftrightarrow> ok M w' \<and> after w0 w' \<and> \<not> ready r \<and> \<not> q_has Qclosed r \<and> kenv w' = []
     \<and> (\<exists>r'. kqueues w' q = Some r' \<and> bfirst r' = [] \<and> q_has Qstarve r' \<and> \<not> q_has Qclosed r')"

lemmas waiting_defs = has_data_def at_end_def interrupted_def hungry_def

lemma alike_has: "alike r r' \<Longrightarrow> q_has Qclosed r' = q_has Qclosed r" "alike r r' \<Longrightarrow> q_has Qmsg r' = q_has Qmsg r"
    "alike r r' \<Longrightarrow> q_has Qcoalesce r' = q_has Qcoalesce r" "alike r r' \<Longrightarrow> q_has Qkick r' = q_has Qkick r"
  by (simp_all add: alike_def flag_numbers)

lemma emptied:
  assumes "changed M q r2 w' w2" "alike r1 r2" "q_state r2 = q_state r1" "bfirst r2 = []" "data (bfirst r1) = []" "q_has Qcoalesce r1"
    and "w' = w \<and> r1 = r \<or> slept r w w'"
  shows "\<not> ready r" and "prompt r w \<Longrightarrow> prompt r2 w2 \<and> w' = w \<and> alike r r2" and "\<not> ready r2"
  using assms slept_prompt [of r w w'] by (auto simp: ready_def prompt_def changed_def q_has_def)

lemma again_wp:
  assumes "ok M w" and "after (w0\<lparr>kilocks := [q]\<rparr>) w" and "kqueues w q = Some r" and k: "kilocks w0 = []" "q \<in> dom (kqueues w0)"
    and "length (kenv w) + (if bfirst r = [] then 0 else 1) \<le> n"
    and "\<And>w' r'. has_data M q r w w0 r' w' \<Longrightarrow> Q 1 w'"
    and "\<And>w' r'. at_end M q r w w0 r' w' \<Longrightarrow> Q (eof_answer r') w'"
    and "\<And>w'. interrupted M r w w0 w' \<Longrightarrow> E (Error Eintr) w'"
    and "\<And>w'. hungry M q r w0 w' \<Longrightarrow> E Blocked w'"
  shows "wp (again n q) Q E w"
  using assms(1-3,6-)
proof (induction n arbitrary: w r rule: less_induct)
  case (less n w r)
  let ?next = "case n of 0 \<Rightarrow> raise Blocked | Suc m \<Rightarrow> again m q"
  let ?rest = "\<lambda>c. if c = 0 \<or> c = -1 then ret c else and_then (qf q (q_has Qcoalesce)) (\<lambda>coalesce. if \<not> coalesce then ret c else
     and_then (qf q bfirst) (\<lambda>bs. and_then (drop_empty q bs) (\<lambda>found. if found then ret c else ?next)))"
  have "wp (qwait q) (\<lambda>c. wp (?rest c) Q E) E w"
  proof (rule qwait_wp [OF less.prems(1-3) k])
    fix w' r' assume a: "ok M w'" "after (w0\<lparr>kilocks := [q]\<rparr>) w'" "kqueues w' q = Some r'" "bfirst r' \<noteq> []" "w' = w \<or> slept r w w'"
    have same: "w' = w \<and> r' = r \<or> slept r w w'" using a(3,5) less.prems(3) by auto
    have "Q 1 w'" if "\<not> q_has Qcoalesce r'"
      using a that same found_refl [OF a(1,3)] slept_prompt [of r w w'] by (intro less.prems(5) [of r']) (auto simp: has_data_def ready_def)
    moreover have "wp (drop_empty q (bfirst r')) (\<lambda>f. wp (if f then ret 1 else ?next) Q E) E w'" if co: "q_has Qcoalesce r'"
    proof (rule drop_empty_wp [OF changed_self [OF a(1,3)] refl])
      fix r2 w2 assume h: "changed M q r2 w' w2" "alike r' r2" "q_state r2 = q_state r'" "bfirst r2 \<noteq> []"
        "data (bfirst r2) = data (bfirst r')" "data (bfirst r') \<noteq> []"
      have "has_data M q r w w0 r2 w2"
        using h co same changed_ok [OF h(1)] changed_at [OF h(1)] changed_after_trans [OF a(2) h(1)] slept_prompt [of r w w']
        by (auto simp: has_data_def ready_def found_def q_has_def)
      then show "wp (if True then ret 1 else ?next) Q E w2" using less.prems(5) by (simp add: wp_flow)
    next
      fix r2 w2 assume h: "changed M q r2 w' w2" "alike r' r2" "q_state r2 = q_state r'" "bfirst r2 = []" "data (bfirst r') = []"
      note em = emptied [OF h co same]
      have af: "after (w0\<lparr>kilocks := [q]\<rparr>) w2" using changed_after_trans [OF a(2) h(1)] .
      have le: "length (kenv w2) < n"
        using same less.prems(4) a(4) h(1) by (auto simp: slept_def changed_def split: if_splits)
      then obtain m where m: "n = Suc m" by (cases n) auto
      have "wp (again m q) Q E w2"
      proof (rule less.IH [OF _ changed_ok [OF h(1)] af changed_at [OF h(1)]])
        show "length (kenv w2) + (if bfirst r2 = [] then 0 else 1) \<le> m" using le m h(4) by simp
        show "Q 1 w3" if "has_data M q r2 w2 w0 r3 w3" for w3 r3
          using that em by (intro less.prems(5) [of r3]) (auto simp: has_data_def)
        show "Q (eof_answer r3) w3" if "at_end M q r2 w2 w0 r3 w3" for w3 r3
        proof (rule less.prems(6))
          have "changed M q r3 w w3" if "prompt r w" "changed M q r3 w2 w3" using that em(2) changed_trans [OF h(1)] by blast
          then show "at_end M q r w w0 r3 w3" using that em alike_has(1) [of r r2] alike_trans [of r r2]
            by (auto simp: at_end_def)
        qed
        show "E (Error Eintr) w3" if "interrupted M r2 w2 w0 w3" for w3
          using that em by (intro less.prems(7)) (auto simp: interrupted_def)
        show "E Blocked w3" if "hungry M q r2 w0 w3" for w3
          using that em same alike_has(1) [OF h(2)] by (intro less.prems(8)) (auto simp: hungry_def slept_def)
      qed (simp add: m)
      then show "wp (if False then ret 1 else ?next) Q E w2" by (simp add: m)
    qed
    ultimately show "wp (?rest 1) Q E w'" using a(3) by (simp add: wp_flow wp_qf)
  next
    fix w' r' assume a: "ok M w'" "after (w0\<lparr>kilocks := [q]\<rparr>) w'" "kqueues w' q = Some r'" "bfirst r' = []" "q_has Qclosed r'"
      "bfirst r = []" "r' = eof_read r \<and> changed M q r' w w' \<or> slept r w w'"
    have "at_end M q r w w0 r' w'" using a slept_prompt [of r w w'] by (auto simp: at_end_def ready_def intro!: exI [of _ r])
    then show "wp (?rest (eof_answer r')) Q E w'" using less.prems(6) eof_answer_cases [of r'] by (auto simp: wp_flow)
  next
    fix w' assume "ok M w'" "after w0 w'" "slept r w w'"
    then show "E (Error Eintr) w'" using slept_prompt [of r w w'] by (intro less.prems(7)) (simp add: interrupted_def)
  next
    fix w' r' assume "ok M w'" "after w0 w'" "kqueues w' q = Some r'" "bfirst r' = []" "q_has Qstarve r'" "\<not> q_has Qclosed r'"
      "bfirst r = []" "\<not> q_has Qclosed r" "kenv w' = []"
    then show "E Blocked w'" by (intro less.prems(8)) (auto simp: hungry_def ready_def)
  qed
  then show ?case by (subst again.simps) (simp add: wp_flow)
qed


text \<open>
  What a read of \<open>len\<close> bytes from the queue \<open>r\<close> takes, \<open>x\<close>, and what it leaves. Beyond \<open>len\<close> bytes a
  message queue drops the rest of what was taken; other queues keep it.
\<close>

definition reads :: "int \<Rightarrow> Queue \<Rightarrow> bytes \<Rightarrow> Queue \<Rightarrow> bool" where
  "reads len r x r' \<longleftrightarrow> alike r r' \<and> x = take (nat len) (data (cut len r)) \<and>
     data (bfirst r') = (if q_has Qmsg r then [] else drop (nat len) (data (cut len r))) @ data (drop (length (cut len r)) (bfirst r)) \<and>
     (bfirst r' = drop (length (cut len r)) (bfirst r) \<or>
       nat len < length (data (cut len r)) \<and> (\<exists>t. bfirst r' = t # drop (length (cut len r)) (bfirst r)))"

lemma taken_but_last: "pre @ [l] = taken len bs \<Longrightarrow> chain bs \<Longrightarrow> 0 \<le> len \<Longrightarrow> blocklen pre \<le> len"
proof (induction len bs arbitrary: pre rule: taken.induct)
  case (2 len b nxt)
  show ?case
  proof (cases pre)
    case (Cons c pre')
    then have p: "\<not> len \<le> BLEN b" "c = b" "pre' @ [l] = taken (len - BLEN b) nxt" using 2(2) by (auto split: if_splits)
    have "blocklen pre' \<le> len - BLEN b" by (rule 2(1) [OF p(1,3)]) (use 2(3) p(1) in auto)
    then show ?thesis using Cons p(2) by simp
  qed (use 2 in simp)
qed simp

lemma cut_but_last: "pre @ [l] = cut len r \<Longrightarrow> chain (bfirst r) \<Longrightarrow> 0 \<le> len \<Longrightarrow> blocklen pre \<le> len"
  using taken_but_last [of pre l len "bfirst r"] by (cases "bfirst r") (auto simp: cut_def split: if_splits)

lemma cut_chain:
  assumes "chain (bfirst r)"
  shows "chain (cut len r)" and "ids (cut len r) \<subseteq> ids (bfirst r)"
proof -
  have "chain (cut len r @ drop (length (cut len r)) (bfirst r))" unfolding cut_prefix by (fact assms)
  then show "chain (cut len r)" by simp
  have "ids (cut len r @ drop (length (cut len r)) (bfirst r)) = ids (bfirst r)" unfolding cut_prefix ..
  then show "ids (cut len r) \<subseteq> ids (bfirst r)" by auto
qed

lemma fetch_wp:
  assumes ch: "changed M q r w0 w" and lk: "kilocks w0 \<noteq> []" and ne: "bfirst r \<noteq> []" and len: "0 \<le> len"
    and Q: "\<And>pre l r' w'. changed (M \<union> ids (pre @ [l])) q r' w0 w' \<Longrightarrow> chain (pre @ [l]) \<Longrightarrow> ids (pre @ [l]) \<inter> M = {} \<Longrightarrow>
      reads len r (take (nat len) (data (pre @ [l]))) r' \<Longrightarrow> wp (m pre l) Q E w'"
    and X: "\<And>e w'. \<not> plenty w0 \<Longrightarrow> e = Panic \<or> e = Blocked \<Longrightarrow> E e w'"
  shows "wp (and_then (take_first q len) (\<lambda>(pre, l, n). and_then (qf q (q_has Qmsg)) (\<lambda>msg.
     and_then (if n > len \<and> \<not> msg then and_then (splitblock l (n - len)) (\<lambda>(h, t). seq (qputback q t) (ret h)) else ret l)
      (m pre)))) Q E w"
proof -
  have inv: "chain (bfirst r)" using ok_qinv [OF changed_ok [OF ch] changed_at [OF ch]] by (simp add: qinv_def)
  have apart: "ids (bfirst r) \<inter> M = {}" using ok_apart [OF changed_ok [OF ch] changed_at [OF ch]] .
  have "wp (and_then (qf q (q_has Qmsg)) (\<lambda>msg.
     and_then (if n > len \<and> \<not> msg then and_then (splitblock l (n - len)) (\<lambda>(h, t). seq (qputback q t) (ret h)) else ret l) (m pre))) Q E w1"
    if a: "pre @ [l] = cut len r" "changed (M \<union> ids (pre @ [l])) q r1 w0 w1" "alike r r1" "q_state r1 = q_state r"
      "bfirst r1 = drop (length (pre @ [l])) (bfirst r)" and n: "n = blocklen (pre @ [l])" for pre l r1 w1 n
  proof -
    have c: "chain (pre @ [l])" "ids (pre @ [l]) \<inter> M = {}" using cut_chain [OF inv, of len] apart a(1) by auto
    have msg: "q_has Qmsg r1 = q_has Qmsg r" using a(4) by (simp add: q_has_def)
    let ?x = "data (pre @ [l])" let ?cut = "cut len r"
    show ?thesis
    proof (cases "n > len \<and> \<not> q_has Qmsg r")
      case False
      have "drop (nat len) ?x = []" if "\<not> q_has Qmsg r" using False that length_data [OF c(1)] n by simp
      then have "reads len r (take (nat len) ?x) r1" using a(3,5) by (auto simp: reads_def a(1) [symmetric])
      then show ?thesis using Q [OF a(2) c] False changed_at [OF a(2)] msg by (auto simp: wp_flow wp_qf)
    next
      case True
      note b = cut_but_last [OF a(1) inv len]
      have l: "wfB l" "b_id l \<notin> M \<union> ids pre" using c by auto
      have n': "0 \<le> n - len" "n - len \<le> BLEN l" "BLEN l - (n - len) = len - blocklen pre" using True b n by auto
      have ch1: "changed (insert (b_id l) (M \<union> ids pre)) q r1 w0 w1" using a(2) by simp
      have lp: "int (length (data pre)) = blocklen pre" using c(1) by (intro length_data) simp
      have ln: "nat (len - blocklen pre) = nat len - length (data pre)" "length (data pre) \<le> nat len" using lp b by linarith+
      have "wp (m pre h) Q E w2" if s: "changed (insert (b_id h) (M \<union> ids pre)) q r2 w0 w2" "b_id h \<notin> M \<union> ids pre" "wfB h"
        "bytes_of h = take (nat (len - blocklen pre)) (bytes_of l)" "bytes_of t = drop (nat (len - blocklen pre)) (bytes_of l)"
        "alike r1 r2" "q_state r2 = q_state r1" "bfirst r2 = t # bfirst r1" for h t r2 w2
      proof (rule Q)
        show "changed (M \<union> ids (pre @ [h])) q r2 w0 w2" using s(1) by simp
        show "chain (pre @ [h])" "ids (pre @ [h]) \<inter> M = {}" using c s(2,3) by auto
        have "take (nat len) (data (pre @ [h])) = take (nat len) (data (cut len r))" using ln s(4) by (simp add: a(1) [symmetric])
        moreover have "data (bfirst r2) = drop (nat len) (data (cut len r)) @ data (drop (length (cut len r)) (bfirst r))"
          using ln s(5,8) a(5) by (simp add: a(1) [symmetric])
        moreover have "nat len < length (data (cut len r))" using True len n length_data [OF c(1)] unfolding a(1) by linarith
        moreover have "bfirst r2 = t # drop (length (cut len r)) (bfirst r)" using s(8) a(5) by (simp add: a(1))
        ultimately show "reads len r (take (nat len) (data (pre @ [h]))) r2"
          using True alike_trans [OF a(3) s(6)] by (simp add: reads_def)
      qed
      then have "wp (and_then (splitblock l (n - len)) (\<lambda>(h, t). seq (qputback q t) (ret h))) (\<lambda>l. wp (m pre l) Q E) E w1"
        by (intro splitback_wp [OF ch1 lk l n'(1,2)]) (use X n'(3) in auto)
      then show ?thesis using True changed_at [OF a(2)] msg by (simp add: wp_flow wp_qf)
    qed
  qed
  then show ?thesis
    unfolding wp_and_then [of "take_first q len"] by (auto intro!: take_first_wp [OF ch ne])
qed


text \<open>
  The frame of a reader: it holds the read lock, and the handler gives it back after an error.
\<close>

abbreviation locking :: "nat \<times> bool \<Rightarrow> world \<Rightarrow> world" where
  "locking l w \<equiv> w\<lparr>kqlocks := l # kqlocks w\<rparr>"

abbreviation releasing :: "nat \<times> bool \<Rightarrow> (kexc \<Rightarrow> world \<Rightarrow> bool) \<Rightarrow> kexc \<Rightarrow> world \<Rightarrow> bool" where
  "releasing l E \<equiv> \<lambda>e w'. case e of Error s \<Rightarrow> wp (qunlock l) (\<lambda>_. E (Error s)) E w' | _ \<Rightarrow> E e w'"

lemma release_wp:
  assumes "ok M w'" and "after (locking l w) w'"
    and "\<And>w''. ok M w'' \<Longrightarrow> after w w'' \<Longrightarrow> kqueues w'' = kqueues w' \<Longrightarrow> kenv w'' = kenv w' \<Longrightarrow> Q () w''"
  shows "wp (qunlock l) Q E w'"
proof -
  have "kqlocks w' = l # kqlocks w" using after_locks [OF assms(2)] by simp
  moreover have "Q () (w'\<lparr>kqlocks := kqlocks w\<rparr>)"
    using assms(1,2) by (intro assms(3)) (auto simp: after_def ctx_def)
  ultimately show ?thesis by (simp add: wp_qunlock)
qed

lemma ended_wp:
  assumes w1: "ok M w1" "after ((locking (q, True) w)\<lparr>kilocks := [q]\<rparr>) w1" "kqueues w1 q = Some r1" and k: "kilocks w = []"
    and N: "\<And>w'. eof_answer r1 = 0 \<Longrightarrow> ok M w' \<Longrightarrow> after w w' \<Longrightarrow> kqueues w' = kqueues w1 \<Longrightarrow> Q None w'"
    and R: "\<And>w'. eof_answer r1 = -1 \<Longrightarrow> ok M w' \<Longrightarrow> after w w' \<Longrightarrow> kqueues w' = kqueues w1 \<Longrightarrow> E (Error (q_err r1)) w'"
  shows "wp (after_wait q (eof_answer r1) m) Q (releasing (q, True) E) w1"
proof -
  have k': "kilocks (locking (q, True) w) = []" using k by simp
  have "wp (iunlock q) (\<lambda>_. wp (qunlock (q, True)) (\<lambda>_. Q None) (releasing (q, True) E)) (releasing (q, True) E) w1" if "eof_answer r1 = 0"
    by (rule unlocked_wp [OF w1(1,2) k'], rule release_wp, assumption+) (use N that in auto)
  moreover have "wp (iunlock q) (\<lambda>_. wp (qf q q_err) (\<lambda>e. releasing (q, True) E (Error e)) (releasing (q, True) E)) (releasing (q, True) E) w1"
    if "eof_answer r1 = -1"
  proof (rule unlocked_wp [OF w1(1,2) k'])
    fix w2 assume a: "ok M w2" "after (locking (q, True) w) w2" "kqueues w2 = kqueues w1"
    have "wp (qunlock (q, True)) (\<lambda>_. E (Error (q_err r1))) E w2"
      by (rule release_wp [OF a(1,2)]) (use R that a(3) in auto)
    then show "wp (qf q q_err) (\<lambda>e. releasing (q, True) E (Error e)) (releasing (q, True) E) w2"
      using a(3) w1(3) by (simp add: wp_qf)
  qed
  ultimately show ?thesis using eof_answer_cases [of r1] by (auto simp: after_wait_def wp_flow)
qed

text \<open>The results of a read from \<open>w\<close>, where the queue was \<open>r\<close>.\<close>

definition same :: "Queue \<Rightarrow> Queue \<Rightarrow> bool" where
  "same r r1 \<longleftrightarrow> alike r r1 \<and> data (bfirst r1) = data (bfirst r) \<and> (\<not> q_has Qcoalesce r \<longrightarrow> bfirst r1 = bfirst r)"

definition got :: "nat set \<Rightarrow> nat \<Rightarrow> int \<Rightarrow> Queue \<Rightarrow> world \<Rightarrow> bytes \<Rightarrow> world \<Rightarrow> bool" where
  "got M q len r w x w' \<longleftrightarrow> ok M w' \<and> after w w' \<and> (\<exists>r1 r2. ready r1 \<and> chain (bfirst r1) \<and> reads len r1 x r2 \<and>
     (\<not> q_kick r1 \<longrightarrow> kqueues w' q = Some r2) \<and>
     (prompt r w \<longrightarrow> ready r \<and> same r r1 \<and> (\<not> q_kick r \<longrightarrow> kqueues w' = (kqueues w)(q \<mapsto> r2) \<and> kenv w' = kenv w)))"

definition eof_seen :: "nat set \<Rightarrow> nat \<Rightarrow> Queue \<Rightarrow> world \<Rightarrow> int \<Rightarrow> string \<Rightarrow> world \<Rightarrow> bool" where
  "eof_seen M q r w c e w' \<longleftrightarrow> ok M w' \<and> after w w' \<and> \<not> ready r \<and> (\<exists>r'. kqueues w' q = Some r' \<and> q_has Qclosed r' \<and> bfirst r' = []
     \<and> e = q_err r' \<and> c = eof_answer r' \<and>
     (prompt r w \<longrightarrow> q_has Qclosed r \<and> (\<exists>r1. alike r r1 \<and> r' = eof_read r1) \<and> kqueues w' = (kqueues w)(q \<mapsto> r')))"

lemma at_end_seen:
  assumes "at_end M q r wl w0 r1 w1" and "kqueues wl = kqueues w" "kenv wl = kenv w"
    and "ok M w'" "after w w'" "kqueues w' = kqueues w1"
  shows "eof_seen M q r w (eof_answer r1) (q_err r1) w'"
  using assms by (auto simp: at_end_def eof_seen_def prompt_def changed_def)

lemma got_intro:
  assumes hd: "has_data M q r wl w0 r1 w1" and wl: "kqueues wl = kqueues w" "kenv wl = kenv w"
    and ch: "changed M' q r2 w1 w2" and rd: "reads len r1 x r2"
    and st: "settled q r2 w2 w3" and w': "ok M w'" "after w w'" "kqueues w' = kqueues w3" "kenv w' = kenv w3"
  shows "got M q len r w x w'"
proof -
  have k: "q_kick r2 = q_kick r1" using rd by (simp add: reads_def alike_def)
  have "\<exists>r3. (\<not> q_kick r1 \<longrightarrow> kqueues w3 = (kqueues w2)(q \<mapsto> r3) \<and> kenv w3 = kenv w2) \<and> reads len r1 x r3"
  proof (cases "q_kick r1")
    case False
    then obtain r3 where r3: "flagged r2 r3" "kqueues w3 = (kqueues w2)(q \<mapsto> r3)" "kenv w3 = kenv w2" using st k by (auto simp: settled_def)
    moreover have "reads len r1 x r3" using rd flagged_alike [OF _ r3(1), of r1] by (auto simp: reads_def)
    ultimately show ?thesis by blast
  qed (use rd in blast)
  then obtain r3 where r3: "\<not> q_kick r1 \<Longrightarrow> kqueues w3 = (kqueues w2)(q \<mapsto> r3) \<and> kenv w3 = kenv w2" "reads len r1 x r3" by blast
  have pr: "ready r \<and> same r r1 \<and> (\<not> q_kick r \<longrightarrow> kqueues w' = (kqueues w)(q \<mapsto> r3) \<and> kenv w' = kenv w)" if "prompt r w"
  proof -
    have "ready r" and f: "found M q r r1 wl w1" using hd that wl by (auto simp: has_data_def prompt_def)
    moreover have "q_kick r1 = q_kick r" using f by (simp add: found_def alike_def)
    ultimately show ?thesis using ch w' wl r3(1) by (auto simp: found_def same_def changed_def)
  qed
  have "ready r1" "chain (bfirst r1)" using hd ok_qinv [of M w1 q r1] by (auto simp: has_data_def qinv_def)
  then show ?thesis unfolding got_def using w' r3 pr by (intro conjI exI [of _ r1] exI [of _ r3]) auto
qed


lemma plenty_after: "after w w' \<Longrightarrow> plenty w' = plenty w"
  by (rule plenty_ctx) (simp add: after_def)

lemma plenty_upd [simp]: "plenty (w\<lparr>kilocks := x\<rparr>) = plenty w" "plenty (w\<lparr>kqlocks := y\<rparr>) = plenty w"
    "plenty (w\<lparr>kqlocks := y, kilocks := x\<rparr>) = plenty w"
  by (simp_all add: plenty_def)

lemma qread_locked_wp:
  assumes w: "ok M w" and r: "kqueues w q = Some r" and k: "kilocks w = []" and len: "0 \<le> len"
    and D: "\<And>bs w' w3 w2 r2 r1 w1. has_data M q r ((locking (q, True) w)\<lparr>kilocks := [q]\<rparr>) (locking (q, True) w) r1 w1 \<Longrightarrow>
      changed (M \<union> ids bs) q r2 w1 w2 \<Longrightarrow> reads len r1 (take (nat len) (data bs)) r2 \<Longrightarrow> settled q r2 w2 w3 \<Longrightarrow>
      ok (M \<union> ids bs) w' \<Longrightarrow> after w w' \<Longrightarrow> kqueues w' = kqueues w3 \<Longrightarrow> kenv w' = kenv w3 \<Longrightarrow> chain bs \<Longrightarrow> ids bs \<inter> M = {} \<Longrightarrow> Q (Some bs) w'"
    and N: "\<And>e w'. eof_seen M q r w 0 e w' \<Longrightarrow> Q None w'"
    and R: "\<And>e w'. eof_seen M q r w (-1) e w' \<Longrightarrow> E (Error e) w'"
    and I: "\<And>w'. interrupted M r w w w' \<Longrightarrow> E (Error Eintr) w'"
    and B: "\<And>w'. hungry M q r (locking (q, True) w) w' \<Longrightarrow> E Blocked w'"
    and X: "\<And>e w'. \<not> plenty w \<Longrightarrow> e = Panic \<or> e = Blocked \<Longrightarrow> E e w'"
  shows "wp (qread_locked q len) Q (releasing (q, True) E) (locking (q, True) w)"
proof -
  let ?w0 = "locking (q, True) w"
  let ?wl = "?w0\<lparr>kilocks := [q]\<rparr>" and ?E = "releasing (q, True) E"
  let ?fin = "\<lambda>pre l. seq (qwakeup_iunlock q) (seq (qunlock (q, True)) (ret (Some (pre @ [l]))))"
  have wl: "ok M ?wl" "kqueues ?wl q = Some r" "kqueues ?wl = kqueues w" "kenv ?wl = kenv w" using w r by auto
  have k0: "kilocks ?w0 = []" using k by simp
  have "wp (again (Suc (length (kenv ?wl))) q) (\<lambda>c. wp (after_wait q c (and_then (take_first q len) (\<lambda>(pre, l, n).
     and_then (qf q (q_has Qmsg)) (\<lambda>msg. and_then (if n > len \<and> \<not> msg
         then and_then (splitblock l (n - len)) (\<lambda>(h, t). seq (qputback q t) (ret h)) else ret l) (?fin pre))))) Q ?E) ?E ?wl"
  proof (rule again_wp [OF wl(1) after_refl wl(2) k0])
    fix w1 r1 assume hd: "has_data M q r ?wl ?w0 r1 w1"
    then have w1: "ok M w1" "after ?wl w1" "kqueues w1 q = Some r1" "bfirst r1 \<noteq> []"
      by (auto simp: has_data_def ready_def split: if_splits)
    have lk: "kilocks w1 \<noteq> []" using after_locks [OF w1(2)] by simp
    have fin: "wp (?fin pre l) Q ?E w2" if a: "changed (M \<union> ids (pre @ [l])) q r2 w1 w2" "chain (pre @ [l])" "ids (pre @ [l]) \<inter> M = {}"
      "reads len r1 (take (nat len) (data (pre @ [l]))) r2" for pre l r2 w2
    proof -
      have "wp (qwakeup_iunlock q) (\<lambda>_. wp (qunlock (q, True)) (\<lambda>_. Q (Some (pre @ [l]))) ?E) ?E w2"
        by (rule qwakeup_iunlock_wp [OF changed_ok [OF a(1)] changed_after_trans [OF w1(2) a(1)] changed_at [OF a(1)] k0],
            rule release_wp, assumption+) (rule D [OF hd a(1,4)], use a(2,3) in auto)
      then show ?thesis by (simp add: wp_flow)
    qed
    have X': "?E e w'" if "\<not> plenty w1" "e = Panic \<or> e = Blocked" for e w'
      using that X [of e w'] plenty_after [OF w1(2)] by auto
    show "wp (after_wait q 1 (and_then (take_first q len) (\<lambda>(pre, l, n).
     and_then (qf q (q_has Qmsg)) (\<lambda>msg. and_then (if n > len \<and> \<not> msg
         then and_then (splitblock l (n - len)) (\<lambda>(h, t). seq (qputback q t) (ret h)) else ret l) (?fin pre))))) Q ?E w1"
      unfolding after_wait_def using fetch_wp [OF changed_self [OF w1(1,3)] lk w1(4) len, where m = ?fin, OF fin X'] by simp
  next
    fix w1 r1 assume e: "at_end M q r ?wl ?w0 r1 w1"
    then have w1: "ok M w1" "after ?wl w1" "kqueues w1 q = Some r1" by (auto simp: at_end_def)
    show "wp (after_wait q (eof_answer r1) (and_then (take_first q len) (\<lambda>(pre, l, n).
     and_then (qf q (q_has Qmsg)) (\<lambda>msg. and_then (if n > len \<and> \<not> msg
         then and_then (splitblock l (n - len)) (\<lambda>(h, t). seq (qputback q t) (ret h)) else ret l) (?fin pre))))) Q ?E w1"
      by (rule ended_wp [OF w1 k]) (use at_end_seen [OF e wl(3,4)] N R in force)+
  next
    fix w' assume i: "interrupted M r ?wl ?w0 w'"
    then show "?E (Error Eintr) w'"
      using wl(4) I by (auto simp: interrupted_def prompt_def intro!: release_wp [of M w' "(q, True)" w])
  next
    fix w' assume "hungry M q r ?w0 w'"
    then show "?E Blocked w'" using B by simp
  qed (use r in auto)
  then show ?thesis
    using k by (simp add: qread_locked_def wp_flow wp_ilock)
qed

lemma qread_wp:
  assumes w: "ok M w" and r: "kqueues w q = Some r" and k: "kilocks w = []" "(q, True) \<notin> set (kqlocks w)" and len: "0 \<le> len"
    and D: "\<And>x w'. got M q len r w x w' \<Longrightarrow> Q x w'"
    and N: "\<And>e w'. eof_seen M q r w 0 e w' \<Longrightarrow> Q [] w'"
    and R: "\<And>e w'. eof_seen M q r w (-1) e w' \<Longrightarrow> E (Error e) w'"
    and I: "\<And>w'. interrupted M r w w w' \<Longrightarrow> E (Error Eintr) w'"
    and B: "\<And>w'. hungry M q r (locking (q, True) w) w' \<Longrightarrow> E Blocked w'"
    and X: "\<And>e w'. \<not> plenty w \<Longrightarrow> e = Panic \<or> e = Blocked \<Longrightarrow> E e w'"
  shows "wp (qread q len) Q E w"
proof -
  let ?rest = "\<lambda>res. case res of None \<Rightarrow> ret [] | Some first \<Rightarrow>
       and_then (on_Error (readblist first len 0) (freeblist first)) (\<lambda>x. seq (freeblist first) (ret x))"
  have "wp (qread_locked q len) (\<lambda>res. wp (?rest res) Q E) (releasing (q, True) E) (locking (q, True) w)"
  proof (rule qread_locked_wp [OF w r k(1) len])
    fix bs w' w3 w2 r2 r1 w1
    assume a: "has_data M q r ((locking (q, True) w)\<lparr>kilocks := [q]\<rparr>) (locking (q, True) w) r1 w1"
      "changed (M \<union> ids bs) q r2 w1 w2" "reads len r1 (take (nat len) (data bs)) r2" "settled q r2 w2 w3"
      "ok (M \<union> ids bs) w'" "after w w'" "kqueues w' = kqueues w3" "kenv w' = kenv w3" "chain bs" "ids bs \<inter> M = {}"
    have "wp (freeblist bs) (\<lambda>_. Q (take (nat len) (data bs))) E w'"
    proof (rule freeblist_wp [OF a(5)])
      fix w4 assume b: "ok (M \<union> ids bs - ids bs) w4" "still w' w4"
      have "M \<union> ids bs - ids bs = M" using a(10) by auto
      then have "got M q len r w (take (nat len) (data bs)) w4"
        using b after_trans [OF a(6) still_after [OF b(2)]] a(7,8) by (intro got_intro [OF a(1) _ _ a(2,3,4)]) (auto simp: still_def)
      then show "Q (take (nat len) (data bs)) w4" by (rule D)
    qed (use a(9) in \<open>auto simp: chain_def\<close>)
    then show "wp (?rest (Some bs)) Q E w'" using a(9) by (simp add: wp_flow wp_on_Error readblist_wp)
  next
    fix e w' assume "eof_seen M q r w 0 e w'"
    then show "wp (?rest None) Q E w'" using N by (simp add: wp_flow)
  qed (use R I B X in auto)
  then show ?thesis using k(2) by (simp add: qread_def wp_flow wp_eqlock wp_on_Error)
qed

text \<open>\<^verbatim>\<open>qbread\<close> takes one block, of at most \<open>len\<close> bytes.\<close>

definition breads :: "int \<Rightarrow> Queue \<Rightarrow> Block \<Rightarrow> Queue \<Rightarrow> bool" where
  "breads len r b r' \<longleftrightarrow> alike r r' \<and> (\<exists>b1 nxt. bfirst r = b1 # nxt \<and> bytes_of b = take (nat len) (bytes_of b1) \<and>
     data (bfirst r') = (if q_has Qmsg r then [] else drop (nat len) (bytes_of b1)) @ data nxt)"

definition bgot :: "nat set \<Rightarrow> nat \<Rightarrow> int \<Rightarrow> Queue \<Rightarrow> world \<Rightarrow> Block \<Rightarrow> world \<Rightarrow> bool" where
  "bgot M q len r w b w' \<longleftrightarrow> ok (insert (b_id b) M) w' \<and> b_id b \<notin> M \<and> wfB b \<and> after w w' \<and> (\<exists>r1 r2. breads len r1 b r2 \<and>
     (\<not> q_kick r1 \<longrightarrow> kqueues w' q = Some r2) \<and>
     (bfirst r \<noteq> [] \<or> kenv w = [] \<longrightarrow> r1 = r \<and> (\<not> q_kick r \<longrightarrow> kqueues w' = (kqueues w)(q \<mapsto> r2) \<and> kenv w' = kenv w)))"

lemma bgot_intro:
  assumes w1: "kqueues w1 q = Some r1" "w1 = wl \<or> slept r wl w1" and wl: "kqueues wl = kqueues w" "kenv wl = kenv w" "kqueues wl q = Some r"
    and ch: "changed M' q r2 w1 w2" and rd: "breads len r1 b r2"
    and st: "settled q r2 w2 w3" and w': "ok (insert (b_id b) M) w'" "after w w'" "kqueues w' = kqueues w3" "kenv w' = kenv w3"
    and b: "b_id b \<notin> M" "wfB b"
  shows "bgot M q len r w b w'"
proof -
  have k: "q_kick r2 = q_kick r1" using rd by (auto simp: breads_def alike_def)
  have "\<exists>r3. (\<not> q_kick r1 \<longrightarrow> kqueues w3 = (kqueues w2)(q \<mapsto> r3) \<and> kenv w3 = kenv w2) \<and> breads len r1 b r3"
  proof (cases "q_kick r1")
    case False
    then obtain r3 where r3: "flagged r2 r3" "kqueues w3 = (kqueues w2)(q \<mapsto> r3)" "kenv w3 = kenv w2" using st k by (auto simp: settled_def)
    moreover have "breads len r1 b r3" using rd flagged_alike [OF _ r3(1), of r1] by (auto simp: breads_def)
    ultimately show ?thesis by blast
  qed (use rd in blast)
  then obtain r3 where r3: "\<not> q_kick r1 \<Longrightarrow> kqueues w3 = (kqueues w2)(q \<mapsto> r3) \<and> kenv w3 = kenv w2" "breads len r1 b r3" by blast
  have "r1 = r \<and> (\<not> q_kick r \<longrightarrow> kqueues w' = (kqueues w)(q \<mapsto> r3) \<and> kenv w' = kenv w)" if "bfirst r \<noteq> [] \<or> kenv w = []"
    using that w1 wl w' ch r3(1) by (auto simp: slept_def changed_def)
  then show ?thesis unfolding bgot_def using w' b r3 by (intro conjI exI [of _ r1] exI [of _ r3]) auto
qed

lemma bshorten:
  assumes "wfB b" and "0 \<le> n" "n \<le> BLEN b"
  shows "wfB (b\<lparr>b_wp := b_wp b - n\<rparr>)" and "bytes_of (b\<lparr>b_wp := b_wp b - n\<rparr>) = take (nat (BLEN b - n)) (bytes_of b)"
  using assms by (auto simp: wfB_def bytes_of_def BLEN_def BALLOC_def min_def diff_right_commute)

text \<open>The block is cut to size: the rest goes back, or is lost on a message queue.\<close>

lemma bfetch_wp:
  assumes ch: "changed M q r w0 w" and lk: "kilocks w0 \<noteq> []" and ne: "bfirst r \<noteq> []" and len: "0 \<le> len"
    and Q: "\<And>b r' w'. changed (insert (b_id b) M) q r' w0 w' \<Longrightarrow> b_id b \<notin> M \<Longrightarrow> wfB b \<Longrightarrow> breads len r b r' \<Longrightarrow> wp (m b) Q E w'"
    and X: "\<And>e w'. \<not> plenty w0 \<Longrightarrow> e = Panic \<or> e = Blocked \<Longrightarrow> E e w'"
  shows "wp (and_then (qremove q) (\<lambda>b. and_then (the_block b) (\<lambda>b. let n = BLEN b in and_then
      (if n > len then let n = n - len in and_then (qf q (q_has Qmsg)) (\<lambda>msg.
         if \<not> msg then and_then (splitblock b n) (\<lambda>(h, t). seq (qputback q t) (ret h)) else ret (b\<lparr>b_wp := b_wp b - n\<rparr>))
       else ret b) m))) Q E w"
proof -
  obtain b nxt where b: "bfirst r = b # nxt" using ne by (cases "bfirst r") auto
  let ?r = "unlink_first b nxt r" let ?n = "BLEN b - len"
  let ?cut = "and_then (qf q (q_has Qmsg)) (\<lambda>msg.
         if \<not> msg then and_then (splitblock b ?n) (\<lambda>(h, t). seq (qputback q t) (ret h)) else ret (b\<lparr>b_wp := b_wp b - ?n\<rparr>))"
  have al: "alike r ?r" "q_state ?r = q_state r" by (simp_all add: unlink_first_def)
  have "wp (if BLEN b > len then ?cut else ret b) (\<lambda>b. wp (m b) Q E) E w1"
    if a: "changed (insert (b_id b) M) q ?r w0 w1" "b_id b \<notin> M" "wfB b" for w1
  proof (cases "BLEN b > len")
    case False
    then have "breads len r b ?r" using b al length_bytes_nat [OF a(3)] by (auto simp: breads_def)
    then show ?thesis using False Q [OF a] by (simp add: wp_flow)
  next
    case True
    then have n: "0 \<le> ?n" "?n \<le> BLEN b" "BLEN b - ?n = len" using len by auto
    have "wp (m (b\<lparr>b_wp := b_wp b - ?n\<rparr>)) Q E w1" if "q_has Qmsg r"
      using bshorten [OF a(3) n(1,2)] n(3) that b al a by (intro Q [of _ ?r]) (auto simp: breads_def)
    moreover have "wp (and_then (splitblock b ?n) (\<lambda>(h, t). seq (qputback q t) (ret h))) (\<lambda>b. wp (m b) Q E) E w1" if "\<not> q_has Qmsg r"
    proof (rule splitback_wp [OF a(1) lk a(3,2) n(1,2)])
      fix h t r' w' assume h: "changed (insert (b_id h) M) q r' w0 w'" "b_id h \<notin> M" "wfB h" "bytes_of h = take (nat (BLEN b - ?n)) (bytes_of b)"
        "bytes_of t = drop (nat (BLEN b - ?n)) (bytes_of b)" "alike ?r r'" "bfirst r' = t # bfirst ?r"
      have "alike r r'" using alike_trans [OF al(1) h(6)] .
      then show "wp (m h) Q E w'" using h n(3) that b by (intro Q [OF h(1-3)]) (auto simp: breads_def)
    qed (use X in auto)
    moreover have "q_has Qmsg ?r = q_has Qmsg r" using al(2) by (simp add: q_has_def)
    ultimately show ?thesis using True changed_at [OF a(1)] by (auto simp: wp_flow wp_qf)
  qed
  then show ?thesis by (auto simp: wp_and_then the_block_def wp_ret Let_def intro!: qremove_wp [OF ch b])
qed

lemma qbread_wp:
  assumes w: "ok M w" and r: "kqueues w q = Some r" and k: "kilocks w = []" "(q, True) \<notin> set (kqlocks w)" and len: "0 \<le> len"
    and D: "\<And>b w'. bgot M q len r w b w' \<Longrightarrow> Q (Some b) w'"
    and N: "\<And>e w'. eof_seen M q r w 0 e w' \<Longrightarrow> Q None w'"
    and R: "\<And>e w'. eof_seen M q r w (-1) e w' \<Longrightarrow> E (Error e) w'"
    and I: "\<And>w'. interrupted M r w w w' \<Longrightarrow> E (Error Eintr) w'"
    and B: "\<And>w'. hungry M q r (locking (q, True) w) w' \<Longrightarrow> E Blocked w'"
    and X: "\<And>e w'. \<not> plenty w \<Longrightarrow> e = Panic \<or> e = Blocked \<Longrightarrow> E e w'"
  shows "wp (qbread q len) Q E w"
proof -
  let ?w0 = "locking (q, True) w"
  let ?wl = "?w0\<lparr>kilocks := [q]\<rparr>" and ?E = "releasing (q, True) E"
  let ?fin = "\<lambda>b. seq (qwakeup_iunlock q) (seq (qunlock (q, True)) (ret (Some b)))"
  let ?m = "and_then (qremove q) (\<lambda>b. and_then (the_block b) (\<lambda>b. let n = BLEN b in and_then
      (if n > len then let n = n - len in and_then (qf q (q_has Qmsg)) (\<lambda>msg.
         if \<not> msg then and_then (splitblock b n) (\<lambda>(h, t). seq (qputback q t) (ret h)) else ret (b\<lparr>b_wp := b_wp b - n\<rparr>))
       else ret b) ?fin))"
  have wl: "ok M ?wl" "kqueues ?wl q = Some r" "kqueues ?wl = kqueues w" "kenv ?wl = kenv w" using w r by auto
  have k0: "kilocks ?w0 = []" using k by simp
  have "wp (qwait q) (\<lambda>c. wp (after_wait q c ?m) Q ?E) ?E ?wl"
  proof (rule qwait_wp [OF wl(1) after_refl wl(2) k0])
    fix w1 r1 assume w1: "ok M w1" "after ?wl w1" "kqueues w1 q = Some r1" "bfirst r1 \<noteq> []" "w1 = ?wl \<or> slept r ?wl w1"
    have lk: "kilocks w1 \<noteq> []" using after_locks [OF w1(2)] by simp
    have fin: "wp (?fin b) Q ?E w2" if a: "changed (insert (b_id b) M) q r2 w1 w2" "b_id b \<notin> M" "wfB b" "breads len r1 b r2" for b r2 w2
    proof -
      have "wp (qwakeup_iunlock q) (\<lambda>_. wp (qunlock (q, True)) (\<lambda>_. Q (Some b)) ?E) ?E w2"
        by (rule qwakeup_iunlock_wp [OF changed_ok [OF a(1)] changed_after_trans [OF w1(2) a(1)] changed_at [OF a(1)] k0],
            rule release_wp, assumption+) (rule D, rule bgot_intro [OF w1(3,5) wl(3,4,2) a(1,4) _ _ _ _ _ a(2,3)], auto)
      then show ?thesis by (simp add: wp_flow)
    qed
    have X': "?E e w'" if "\<not> plenty w1" "e = Panic \<or> e = Blocked" for e w'
      using that X [of e w'] plenty_after [OF w1(2)] by auto
    show "wp (after_wait q 1 ?m) Q ?E w1"
      unfolding after_wait_def using bfetch_wp [OF changed_self [OF w1(1,3)] lk w1(4) len, where m = ?fin, OF fin X'] by simp
  next
    fix w1 r1 assume e: "ok M w1" "after ?wl w1" "kqueues w1 q = Some r1" "bfirst r1 = []" "q_has Qclosed r1" "bfirst r = []"
      "r1 = eof_read r \<and> changed M q r1 ?wl w1 \<or> slept r ?wl w1"
    have "at_end M q r ?wl ?w0 r1 w1" using e slept_prompt [of r ?wl w1] by (auto simp: at_end_def ready_def intro!: exI [of _ r])
    note at = at_end_seen [OF this wl(3,4)]
    show "wp (after_wait q (eof_answer r1) ?m) Q ?E w1"
      by (rule ended_wp [OF e(1-3) k(1)]) (use at N R in force)+
  next
    fix w' assume i: "ok M w'" "after ?w0 w'" "slept r ?wl w'"
    then show "?E (Error Eintr) w'"
      using wl(4) I slept_prompt [OF i(3)] by (auto simp: interrupted_def prompt_def intro!: release_wp [of M w' "(q, True)" w])
  next
    fix w' r' assume "ok M w'" "after ?w0 w'" "kqueues w' q = Some r'" "bfirst r' = []" "q_has Qstarve r'" "\<not> q_has Qclosed r'"
      "bfirst r = []" "\<not> q_has Qclosed r" "kenv w' = []"
    then have "hungry M q r ?w0 w'" by (auto simp: hungry_def ready_def)
    then show "?E Blocked w'" using B by simp
  qed (use r in auto)
  then show ?thesis
    using k by (simp add: qbread_def qbread_locked_def wp_flow wp_ilock wp_eqlock wp_on_Error)
qed

end
