(* ===== verification/Queue_Write.thy ===== *)
theory Queue_Write
  imports Queue_Sleep
begin

text \<open>
  Rules for flow control and writing: \<^verbatim>\<open>qflow\<close>, \<^verbatim>\<open>qbwrite\<close>, \<^verbatim>\<open>qwrite\<close> and \<^verbatim>\<open>qiwrite\<close>. The blocks of a
  write are in the queue before the writer can go to sleep.
\<close>

section \<open>Flow control\<close>

lemma after_qset:
  assumes "after w0 w" and "kqueues w q = Some r"
  shows "after w0 (w\<lparr>kqueues := (kqueues w)(q \<mapsto> r')\<rparr>)"
  using assms by (auto simp: after_def ctx_def)

lemma after_locking: "after w w' \<Longrightarrow> after (locking l w) (locking l w')"
  by (simp add: after_def ctx_def)

lemma after_unqset: "after (w\<lparr>kqueues := (kqueues w)(q \<mapsto> r')\<rparr>) w' \<Longrightarrow> after w w'"
  by (auto simp: after_def ctx_def)

lemma sleep_locked_wp:
  assumes w: "ok M w" "kilocks w = []" and r: "kqueues w q = Some r" "\<not> cond r" and l: "l \<notin> set (kqlocks w)"
    and S: "\<And>w'. kenv w \<noteq> [] \<Longrightarrow> ok M w' \<Longrightarrow> after w w' \<Longrightarrow> length (kenv w') < length (kenv w) \<Longrightarrow> Q () w'"
    and I: "\<And>w'. kenv w \<noteq> [] \<Longrightarrow> ok M w' \<Longrightarrow> after w w' \<Longrightarrow> length (kenv w') < length (kenv w) \<Longrightarrow> E (Error Eintr) w'"
    and B: "kenv w = [] \<Longrightarrow> E Blocked (locking l w)"
  shows "wp (seq (eqlock l) (seq (on_Error (sleep_on q cond) (qunlock l)) (qunlock l))) Q E w"
proof -
  have "wp (sleep_on q cond) (\<lambda>_. wp (qunlock l) Q E) (releasing l E) (locking l w)"
  proof (rule sleep_on_wp [of M])
    fix w' assume a: "kenv (locking l w) \<noteq> []" "ok M w'" "after (locking l w) w'" "length (kenv w') < length (kenv (locking l w))"
    show "wp (qunlock l) Q E w'" by (rule release_wp [OF a(2,3)], rule S) (use a in auto)
    show "releasing l E (Error Eintr) w'"
      using a I by (auto intro!: release_wp [OF a(2,3)])
  qed (use w r B in auto)
  then show ?thesis using l by (simp add: wp_flow wp_eqlock wp_on_Error)
qed

definition unthrottled :: "Queue \<Rightarrow> bool" where
  "unthrottled r \<longleftrightarrow> q_noblock r \<noteq> 0 \<or> qnotfull r"

text \<open>A writer asleep for lack of room: its queue is full and flow controlled.\<close>

definition throttled :: "nat set \<Rightarrow> nat \<Rightarrow> Queue \<Rightarrow> world \<Rightarrow> world \<Rightarrow> bool" where
  "throttled M q r w w' \<longleftrightarrow> ok M w' \<and> after (locking (q, False) w) w' \<and> kenv w' = []
     \<and> (\<exists>r'. kqueues w' q = Some r' \<and> q_has Qflow r' \<and> q_limit r' \<le> q_len r' \<and> \<not> q_has Qclosed r')
     \<and> (kenv w = [] \<longrightarrow> \<not> unthrottled r \<and> kqueues w' = (kqueues w)(q \<mapsto> q_raise Qflow r) \<and> ktrace w' = ktrace w)"

lemma qflow_loop_wp:
  assumes "ok M w" and "after w0 w" and "kqueues w q = Some r" and k: "kilocks w0 = []" "(q, False) \<notin> set (kqlocks w0)" "q \<in> dom (kqueues w0)"
    and "length (kenv w) \<le> n"
    and "\<And>w'. ok M w' \<Longrightarrow> after w0 w' \<Longrightarrow> w' = w \<and> unthrottled r \<or> \<not> unthrottled r \<and> length (kenv w') < length (kenv w) \<Longrightarrow> Q () w'"
    and "\<And>w'. ok M w' \<Longrightarrow> after w0 w' \<Longrightarrow> \<not> unthrottled r \<Longrightarrow> length (kenv w') < length (kenv w) \<Longrightarrow> E (Error Eintr) w'"
    and "\<And>w'. throttled M q r w w' \<Longrightarrow> \<not> unthrottled r \<Longrightarrow> E Blocked w'"
  shows "wp (qflow_loop n q) Q E w"
  using assms(1-3,7-)
proof (induction n arbitrary: w r rule: less_induct)
  case (less n w r)
  show ?case
  proof (cases "unthrottled r")
    case True
    have "Q () w" by (rule less.prems(5)) (use less.prems(1,2) True in auto)
    then show ?thesis using True less.prems(3) by (subst qflow_loop.simps) (simp add: wp_flow wp_qf unthrottled_def)
  next
    case False
    let ?r = "q_raise Qflow r"
    let ?w = "w\<lparr>kqueues := (kqueues w)(q \<mapsto> ?r)\<rparr>"
    let ?next = "case n of 0 \<Rightarrow> raise Blocked | Suc m \<Rightarrow> qflow_loop m q"
    have lk: "kilocks w = []" "kqlocks w = kqlocks w0" using after_locks [OF less.prems(2)] k by auto
    have ok1: "ok M ?w" using ok_flagged [OF less.prems(1,3)] by simp
    have af1: "after w0 ?w" using after_qset [OF less.prems(2,3)] .
    have same: "?w\<lparr>kilocks := []\<rparr> = ?w" using lk(1) by (cases w) simp
    have main: "wp (seq (eqlock (q, False)) (seq (on_Error (sleep_on q qnotfull) (qunlock (q, False))) (qunlock (q, False))))
       (\<lambda>_. wp ?next Q E) E ?w"
    proof (rule sleep_locked_wp [OF ok1])
      show "\<not> qnotfull ?r" using False by (simp add: unthrottled_def qnotfull_def flag_numbers)
      show "(q, False) \<notin> set (kqlocks ?w)" using lk k by simp
    next
      fix w' assume a: "kenv ?w \<noteq> []" "ok M w'" "after ?w w'" "length (kenv w') < length (kenv ?w)"
      have af: "after w0 w'" using after_trans [OF af1 a(3)] .
      show "E (Error Eintr) w'" using a(2,4) af False by (intro less.prems(6)) auto
      obtain m where m: "n = Suc m" using a(4) less.prems(4) by (cases n) auto
      obtain r' where r': "kqueues w' q = Some r'" using after_at [OF a(3), of q ?r] by auto
      have shorter: "length (kenv w') < length (kenv w)" using a(4) by simp
      have "wp (qflow_loop m q) Q E w'"
      proof (rule less.IH [OF _ a(2) af r'])
        show "m < n" "length (kenv w') \<le> m" using m a(4) less.prems(4) by auto
        show "Q () w2" if "ok M w2" "after w0 w2" "w2 = w' \<and> unthrottled r' \<or> \<not> unthrottled r' \<and> length (kenv w2) < length (kenv w')" for w2
          by (rule less.prems(5)) (use that False shorter in auto)
        show "E (Error Eintr) w2" if "ok M w2" "after w0 w2" "\<not> unthrottled r'" "length (kenv w2) < length (kenv w')" for w2
          by (rule less.prems(6)) (use that False shorter in auto)
        show "E Blocked w2" if t: "throttled M q r' w' w2" for w2
        proof (rule less.prems(7))
          have "after (locking (q, False) w) w2"
            using t after_trans [OF after_locking [OF after_unqset [OF a(3)]]] by (simp add: throttled_def)
          then show "throttled M q r w w2" using t shorter by (auto simp: throttled_def)
        qed (rule False)
      qed
      then show "wp ?next Q E w'" by (simp add: m)
    next
      assume "kenv ?w = []"
      then show "E Blocked (locking (q, False) ?w)"
        using ok1 False less.prems(3)
        by (intro less.prems(7)) (auto simp: throttled_def after_def ctx_def unthrottled_def qnotfull_def flag_numbers)
    qed (use lk in auto)
    have "wp (seq (eqlock (q, False)) (seq (on_Error (sleep_on q qnotfull) (qunlock (q, False))) (qunlock (q, False))))
       (\<lambda>_. wp ?next Q E) E (?w\<lparr>kilocks := []\<rparr>)" unfolding same by (rule main)
    then show ?thesis
      using False less.prems(3) lk(1) by (subst qflow_loop.simps) (simp add: wp_flow wp_qf wp_qset wp_ilock wp_iunlock unthrottled_def)
  qed
qed

lemma qflow_wp:
  assumes "ok M w" and "kqueues w q = Some r" and "kilocks w = []" "(q, False) \<notin> set (kqlocks w)"
    and "\<And>w'. ok M w' \<Longrightarrow> after w w' \<Longrightarrow> w' = w \<and> unthrottled r \<or> \<not> unthrottled r \<and> length (kenv w') < length (kenv w) \<Longrightarrow> Q () w'"
    and "\<And>w'. ok M w' \<Longrightarrow> after w w' \<Longrightarrow> \<not> unthrottled r \<Longrightarrow> length (kenv w') < length (kenv w) \<Longrightarrow> E (Error Eintr) w'"
    and "\<And>w'. throttled M q r w w' \<Longrightarrow> \<not> unthrottled r \<Longrightarrow> E Blocked w'"
  shows "wp (qflow q) Q E w"
  unfolding qflow_def wp_and_then wp_fetch
  by (rule qflow_loop_wp [OF assms(1) after_refl assms(2-4)]) (use assms(2,5-) in auto)


section \<open>Writing\<close>

lemma call_bypass_wp:
  assumes w: "ok (M \<union> ids bs) w" and bs: "chain bs" "ids bs \<inter> M = {}"
    and Q: "\<And>w'. ok M w' \<Longrightarrow> after w w' \<Longrightarrow> kenv w' = kenv w \<Longrightarrow> Q () w'"
  shows "wp (call_bypass q bs) Q E w"
proof -
  let ?w = "w\<lparr>ktrace := ktrace w @ [Bypass q (map b_id bs)]\<rparr>"
  let ?s = "kst.truncate ?w"
  have "good_bypass (kbypass w q)" using w by (simp add: ok_def rely_def)
  moreover have "kinv ?s (M \<union> ids bs)" using w by (simp add: ok_def)
  ultimately have k: "kinv (kbypass w q bs ?s) M" "ctx (kbypass w q bs ?s) = ctx ?s"
    "dom (kqueues ?s) \<subseteq> dom (kqueues (kbypass w q bs ?s))"
    using bs unfolding good_bypass_def by blast+
  have "ok M (on_kst (kbypass w q bs) ?w)" using k(1) w by (simp add: ok_def rely_def)
  moreover have "after w (on_kst (kbypass w q bs) ?w)"
    using k(2,3) by (simp add: after_def) (simp add: ctx_def)
  ultimately show ?thesis using Q by (simp add: call_bypass_def wp_flow wp_emit)
qed

text \<open>
  The blocks have been put behind what was queued, and a reader that had gone to sleep is to be woken.
\<close>

definition extended :: "Block list \<Rightarrow> Queue \<Rightarrow> Queue \<Rightarrow> bool" where
  "extended bs r r' \<longleftrightarrow> alike r r' \<and> bfirst r' = bfirst r @ bs \<and> \<not> q_has Qstarve r'"

lemma qbwrite_locked_wp:
  assumes w: "ok (M \<union> ids bs) w" and r: "kqueues w q = Some r" and l: "kilocks w = []" and bs: "chain bs" "bs \<noteq> []" "ids bs \<inter> M = {}"
    and C: "\<And>w'. q_has Qclosed r \<Longrightarrow> changed (M \<union> ids bs) q r w w' \<Longrightarrow> E (Error (q_err r)) w'"
    and D: "\<And>w'. \<not> q_has Qclosed r \<Longrightarrow> q_limit r \<le> q_len r \<Longrightarrow> q_noblock r \<noteq> 0 \<Longrightarrow> changed (M \<union> ids bs) q r w w' \<Longrightarrow>
      Q (Inl (blocklen bs)) w'"
    and S: "\<And>r' w'. \<not> q_has Qclosed r \<Longrightarrow> q_len r < q_limit r \<or> q_noblock r = 0 \<Longrightarrow> changed M q r' w w' \<Longrightarrow> extended bs r r' \<Longrightarrow>
      Q (Inr (blocklen bs, q_has Qstarve r)) w'"
  shows "wp (qbwrite_locked q bs) Q E w"
proof -
  let ?w = "w\<lparr>kilocks := q # kilocks w\<rparr>"
  have ch: "changed (M \<union> ids bs) q r ?w ?w" using w r by (intro changed_self) auto
  have closed: "wp (iunlock q) (\<lambda>_. wp (and_then (qf q q_err) (\<lambda>e. raise (Error e))) Q E) E ?w" if "q_has Qclosed r"
    by (rule iunlock_wp [OF ch]) (use C [OF that] in \<open>auto simp: wp_flow wp_qf changed_at\<close>)
  have drop: "wp (iunlock q) (\<lambda>_. Q (Inl (blocklen bs))) E ?w" if "\<not> q_has Qclosed r" "q_limit r \<le> q_len r" "q_noblock r \<noteq> 0"
    by (rule iunlock_wp [OF ch]) (use D [OF that] in auto)
  have add: "wp (qaddlist q bs) (\<lambda>len. wp (and_then (feed_reader q) (\<lambda>d. seq (iunlock q) (ret (Inr (len, d))))) Q E) E ?w"
    if c: "\<not> q_has Qclosed r" "q_len r < q_limit r \<or> q_noblock r = 0"
  proof (rule qaddlist_wp [OF ch bs])
    fix r1 w1 assume a: "changed M q r1 ?w w1" "alike r r1" "q_state r1 = q_state r" "bfirst r1 = bfirst r @ bs"
    let ?r = "if q_has Qstarve r then q_clear Qstarve r1 else r1"
    have ex: "extended bs r ?r" using a(2-4) by (simp add: extended_def) (simp add: q_has_def)
    have fl: "flagged r1 ?r" by simp
    have "wp (iunlock q) (\<lambda>_. Q (Inr (blocklen bs, q_has Qstarve r))) E (w1\<lparr>kqueues := (kqueues w1)(q \<mapsto> ?r)\<rparr>)"
      by (rule iunlock_wp [OF changed_flagged [OF a(1) fl]]) (use S [OF c _ ex] in auto)
    then show "wp (and_then (feed_reader q) (\<lambda>d. seq (iunlock q) (ret (Inr (blocklen bs, d))))) Q E w1"
      using changed_at [OF a(1)] a(3) by (auto simp: feed_reader_def wp_flow wp_qf wp_qset q_has_def map_upd_triv split: if_splits)
  qed
  show ?thesis
    using r l closed drop add by (auto simp: qbwrite_locked_def wp_flow wp_ilock wp_qf)
qed

text \<open>
  A write of \<open>bs\<close> to the queue \<open>r\<close> in \<open>w\<close> got as far as queueing them; \<open>l\<close> is \<open>w\<close>, or \<open>w\<close> with the lock
  that the sleeping writer holds.
\<close>

definition woken :: "nat \<Rightarrow> world \<Rightarrow> world \<Rightarrow> bool" where
  "woken q w w' \<longleftrightarrow> (\<exists>t1 t2. ktrace w' = ktrace w @ t1 @ Wakeup_rr q # t2)"

definition sent :: "nat set \<Rightarrow> nat \<Rightarrow> Block list \<Rightarrow> Queue \<Rightarrow> world \<Rightarrow> world \<Rightarrow> world \<Rightarrow> bool" where
  "sent M q bs r w l w' \<longleftrightarrow> ok M w' \<and> after l w' \<and> \<not> q_has Qclosed r
     \<and> (kenv w = [] \<and> \<not> q_kick r \<longrightarrow> kenv w' = [] \<and> (\<exists>r'. extended bs r r' \<and> kqueues w' = (kqueues w)(q \<mapsto> r'))
         \<and> (q_has Qstarve r \<longrightarrow> woken q w w'))"

lemma woken_emit: "\<exists>t. ktrace w2 = ktrace w @ t \<Longrightarrow> woken q w (w2\<lparr>ktrace := ktrace w2 @ [Wakeup_rr q]\<rparr>)"
  unfolding woken_def by (elim exE) (rule exI, rule exI [of _ "[]"], simp)

lemma flag_distinct: "Qstarve \<noteq> Qflow" "Qclosed \<noteq> Qflow" "Qclosed \<noteq> Qstarve" "Qmsg \<noteq> Qflow" "Qmsg \<noteq> Qstarve"
  by (simp_all add: flag_numbers)

lemma extended_flow: "extended bs r r' \<Longrightarrow> extended bs r (q_raise Qflow r')"
  using flag_distinct by (auto simp: extended_def)

lemma qbwrite_wp:
  assumes w: "ok (M \<union> ids bs) w" and r: "kqueues w q = Some r" and l: "kilocks w = []" "(q, False) \<notin> set (kqlocks w)"
    and bs: "chain bs" "bs \<noteq> []" "ids bs \<inter> M = {}"
    and BY: "\<And>w'. q_bypass r \<Longrightarrow> ok M w' \<Longrightarrow> after w w' \<Longrightarrow> Q (blocklen bs) w'"
    and C: "\<And>w'. \<not> q_bypass r \<Longrightarrow> q_has Qclosed r \<Longrightarrow> changed M q r w w' \<Longrightarrow> E (Error (q_err r)) w'"
    and D: "\<And>w'. \<not> q_bypass r \<Longrightarrow> \<not> q_has Qclosed r \<Longrightarrow> q_limit r \<le> q_len r \<Longrightarrow> q_noblock r \<noteq> 0 \<Longrightarrow> changed M q r w w' \<Longrightarrow>
      Q (blocklen bs) w'"
    and S: "\<And>w'. \<not> q_bypass r \<Longrightarrow> q_len r < q_limit r \<or> q_noblock r = 0 \<Longrightarrow> sent M q bs r w w w' \<Longrightarrow> Q (blocklen bs) w'"
    and I: "\<And>w'. \<not> q_bypass r \<Longrightarrow> sent M q bs r w w w' \<Longrightarrow> kenv w \<noteq> [] \<Longrightarrow> E (Error Eintr) w'"
    and B: "\<And>w'. \<not> q_bypass r \<Longrightarrow> sent M q bs r w (locking (q, False) w) w' \<Longrightarrow> kenv w' = [] \<Longrightarrow> q_has Qflow (the (kqueues w' q)) \<Longrightarrow>
      q_limit (the (kqueues w' q)) \<le> q_len (the (kqueues w' q)) \<Longrightarrow> E Blocked w'"
  shows "wp (qbwrite q bs) Q E w"
proof (cases "q_bypass r")
  case True
  have "wp (call_bypass q bs) (\<lambda>_. Q (blocklen bs)) E w"
    by (rule call_bypass_wp [OF w bs(1,3)]) (use BY True in auto)
  then show ?thesis using True r by (simp add: qbwrite_def wp_flow wp_qf)
next
  case False
  let ?rest = "\<lambda>res. case res of Inl len \<Rightarrow> seq (freeblist bs) (ret len)
       | Inr (len, dowakeup) \<Rightarrow>
         and_then (qf q (\<lambda>r. q_kick r \<and> (dowakeup \<or> q_has Qkick r))) (\<lambda>kick.
         seq (only_if kick (call_kick q)) (seq (only_if dowakeup (wakeup_rr q)) (seq (qflow q) (ret len))))"
  let ?E = "\<lambda>e w'. case e of Error s \<Rightarrow> wp (freeblist bs) (\<lambda>_. E (Error s)) E w' | _ \<Rightarrow> E e w'"
  have "wp (qbwrite_locked q bs) (\<lambda>res. wp (?rest res) Q E) ?E w"
  proof (rule qbwrite_locked_wp [OF w r l(1) bs])
    fix w1 assume "q_has Qclosed r" "changed (M \<union> ids bs) q r w w1"
    then show "?E (Error (q_err r)) w1" using C False by (auto intro!: changed_free_wp [of M bs q r w] bs)
  next
    fix w1 assume a: "\<not> q_has Qclosed r" "q_limit r \<le> q_len r" "q_noblock r \<noteq> 0" "changed (M \<union> ids bs) q r w w1"
    then show "wp (?rest (Inl (blocklen bs))) Q E w1"
      using D [OF False a(1-3)] by (auto simp: wp_flow intro!: changed_free_wp [of M bs q r w] bs)
  next
    fix r1 w1 assume a: "\<not> q_has Qclosed r" "q_len r < q_limit r \<or> q_noblock r = 0" "changed M q r1 w w1" "extended bs r r1"
    let ?d = "q_has Qstarve r"
    have flow: "wp (qflow q) (\<lambda>_. Q (blocklen bs)) E w2"
      if b: "ok M w2" "after w w2" "kenv w2 = kenv w" "\<not> q_kick r \<Longrightarrow> kqueues w2 q = Some r1" "\<not> q_kick r \<Longrightarrow> kqueues w2 = (kqueues w)(q \<mapsto> r1)"
        "?d \<Longrightarrow> \<not> q_kick r \<Longrightarrow> woken q w w2" for w2
    proof -
      obtain r2 where r2: "kqueues w2 q = Some r2" using after_at [OF b(2) r] by auto
      have k2: "\<not> q_kick r \<Longrightarrow> r2 = r1" using r2 b(4) by simp
      have lk: "kilocks w2 = []" "(q, False) \<notin> set (kqlocks w2)" using after_locks [OF b(2)] l by auto
      show ?thesis
      proof (rule qflow_wp [OF b(1) r2 lk])
        fix w3 assume c: "ok M w3" "after w2 w3" "w3 = w2 \<and> unthrottled r2 \<or> \<not> unthrottled r2 \<and> length (kenv w3) < length (kenv w2)"
        have "sent M q bs r w w w3" using c a after_trans [OF b(2) c(2)] b(3,5,6) by (auto simp: sent_def)
        then show "Q (blocklen bs) w3" using S False a(2) by blast
      next
        fix w3 assume c: "ok M w3" "after w2 w3" "length (kenv w3) < length (kenv w2)"
        have "sent M q bs r w w w3" "kenv w \<noteq> []" using c a after_trans [OF b(2) c(2)] b(3) by (auto simp: sent_def)
        then show "E (Error Eintr) w3" using I False by blast
      next
        fix w3 assume t: "throttled M q r2 w2 w3"
        have af: "after (locking (q, False) w) w3" using t after_trans [OF after_locking [OF b(2)]] by (auto simp: throttled_def)
        have "sent M q bs r w (locking (q, False) w) w3"
          using t af a extended_flow [OF a(4)] b(3,5,6) k2 by (auto simp: sent_def throttled_def woken_def)
        then show "E Blocked w3" using t False by (auto intro!: B simp: throttled_def)
      qed
    qed
    have at: "kqueues w1 q = Some r1" "q_kick r1 = q_kick r" using changed_at [OF a(3)] a(4) by (auto simp: extended_def alike_def)
    have wake: "wp (only_if ?d (wakeup_rr q)) (\<lambda>_. wp (qflow q) (\<lambda>_. Q (blocklen bs)) E) E w2"
      if b: "ok M w2" "after w w2" "kenv w2 = kenv w" "\<not> q_kick r \<Longrightarrow> kqueues w2 = (kqueues w)(q \<mapsto> r1)"
        "\<not> q_kick r \<Longrightarrow> \<exists>t. ktrace w2 = ktrace w @ t" for w2
      using b by (auto simp: wp_only_if wakeup_rr_def wp_emit after_def ctx_def intro!: flow woken_emit)
    have w1: "ok M w1" "after w w1" "kenv w1 = kenv w" "kqueues w1 = (kqueues w)(q \<mapsto> r1)" "\<exists>t. ktrace w1 = ktrace w @ t"
      using changed_after [OF a(3)] a(3) by (auto simp: changed_def)
    have "wp (call_kick q) (\<lambda>_. wp (only_if ?d (wakeup_rr q)) (\<lambda>_. wp (qflow q) (\<lambda>_. Q (blocklen bs)) E) E) E w1" if "q_kick r"
      by (rule call_kick_wp [OF w1(1)]) (use that w1 after_trans [OF w1(2)] in \<open>auto intro!: wake\<close>)
    then show "wp (?rest (Inr (blocklen bs, ?d))) Q E w1"
      using wake [OF w1] at by (auto simp: wp_flow wp_qf wp_only_if)
  qed
  then show ?thesis using False r by (simp add: qbwrite_def wp_flow wp_qf wp_on_Error)
qed

text \<open>
  What a write of the bytes \<open>p\<close> has queued when \<open>s\<close> of them have gone; the same for a sleeping writer.
\<close>

definition quiet :: "Queue \<Rightarrow> world \<Rightarrow> bool" where
  "quiet r w \<longleftrightarrow> kenv w = [] \<and> \<not> q_kick r \<and> \<not> q_bypass r \<and> q_noblock r = 0"

definition wrote :: "nat set \<Rightarrow> nat \<Rightarrow> bytes \<Rightarrow> Queue \<Rightarrow> world \<Rightarrow> world \<Rightarrow> world \<Rightarrow> bool" where
  "wrote M q x r w l w' \<longleftrightarrow> ok M w' \<and> after l w' \<and> (quiet r w \<longrightarrow> kenv w' = [] \<and>
     (\<exists>r'. alike r r' \<and> data (bfirst r') = data (bfirst r) @ x \<and> kqueues w' = (kqueues w)(q \<mapsto> r')))"

lemma wrote_refl: "ok M w \<Longrightarrow> kqueues w q = Some r \<Longrightarrow> wrote M q [] r w w w"
  by (auto simp: wrote_def quiet_def map_upd_triv intro!: exI [of _ r])

lemma sent_wrote: "sent M q [b] r w l w' \<Longrightarrow> wrote M q (bytes_of b) r w l w'"
  by (auto simp: sent_def wrote_def quiet_def extended_def)

lemma later_queues: "later w w' \<Longrightarrow> kenv w = [] \<Longrightarrow> kqueues w' = kqueues w \<and> kenv w' = []"
  by (simp add: later_def still_def)

text \<open>Following a piece of a write by another.\<close>

lemma wrote_trans:
  assumes "wrote M q x r w w w1" and "kqueues w1 q = Some r1" and "wrote M q y r1 w1 l1 w2" and "after l l1"
  shows "wrote M q (x @ y) r w l w2"
proof -
  have "after l w2" using assms(3,4) by (auto simp: wrote_def intro: after_trans)
  moreover have "kenv w2 = [] \<and> (\<exists>r'. alike r r' \<and> data (bfirst r') = data (bfirst r) @ x @ y \<and> kqueues w2 = (kqueues w)(q \<mapsto> r'))" if "quiet r w"
  proof -
    have a: "kenv w1 = []" "alike r r1" "data (bfirst r1) = data (bfirst r) @ x" "kqueues w1 = (kqueues w)(q \<mapsto> r1)"
      using assms(1,2) that by (auto simp: wrote_def)
    then have "quiet r1 w1" using that by (auto simp: quiet_def alike_def)
    then obtain r2 where "kenv w2 = []" "alike r1 r2" "data (bfirst r2) = data (bfirst r1) @ y" "kqueues w2 = (kqueues w1)(q \<mapsto> r2)"
      using assms(3) by (auto simp: wrote_def)
    then show ?thesis using a by (auto intro!: exI [of _ r2] intro: alike_trans)
  qed
  ultimately show ?thesis using assms(3) by (simp add: wrote_def)
qed


definition full_flow :: "nat \<Rightarrow> world \<Rightarrow> bool" where
  "full_flow q w \<longleftrightarrow> (\<exists>r. kqueues w q = Some r \<and> q_has Qflow r \<and> q_limit r \<le> q_len r)"

definition refused :: "nat set \<Rightarrow> nat \<Rightarrow> string \<Rightarrow> Queue \<Rightarrow> world \<Rightarrow> world \<Rightarrow> bool" where
  "refused M q e r w w' \<longleftrightarrow> ok M w' \<and> after w w' \<and> (quiet r w \<longrightarrow> q_has Qclosed r \<and> e = q_err r \<and> kqueues w' = kqueues w)"

text \<open>One round of \<^verbatim>\<open>qwrite\<close>: a block is allocated, filled and queued.\<close>

lemma chunk_wp:
  assumes w: "ok M w" and r: "kqueues w q = Some r" and l: "kilocks w = []" "(q, False) \<notin> set (kqlocks w)" and x: "length x \<le> Maxatomic"
    and S: "\<And>w'. wrote M q x r w w w' \<Longrightarrow> (quiet r w \<Longrightarrow> \<not> q_has Qclosed r) \<Longrightarrow> Q (int (length x)) w'"
    and R: "\<And>e w'. refused M q e r w w' \<Longrightarrow> E (Error e) w'"
    and B: "\<And>w'. wrote M q x r w (locking (q, False) w) w' \<Longrightarrow> full_flow q w' \<Longrightarrow> E Blocked w'"
    and X: "\<And>e w'. \<not> plenty w \<Longrightarrow> e = Panic \<or> e = Blocked \<Longrightarrow> E e w'"
  shows "wp (and_then (allocb (int (length x))) (\<lambda>b. and_then (on_Error (bput b x) (freeb b)) (\<lambda>b. qbwrite q [b]))) Q E w"
proof -
  have "wp (qbwrite q [grown b x]) Q E w1" if a: "ok (insert (b_id b) M) w1" "b_id b \<notin> M" "fresh_block b (int (length x))" "later w w1" for b w1
  proof -
    have af: "after w w1" using later_after [OF a(4)] .
    obtain r1 where r1: "kqueues w1 q = Some r1" using after_at [OF af r] by auto
    have q: "r1 = r \<and> kqueues w1 = kqueues w \<and> kenv w1 = []" if "quiet r w"
      using that later_queues [OF a(4)] r r1 by (auto simp: quiet_def)
    have lk: "kilocks w1 = []" "(q, False) \<notin> set (kqlocks w1)" using after_locks [OF af] l by auto
    have g: "wfB (grown b x)" "bytes_of (grown b x) = x" using fresh_put [OF a(3)] x by auto
    have bl: "blocklen [grown b x] = int (length x)" using length_bytes_of [OF g(1)] g(2) by simp
    have tr: "wrote M q x r w (l' w) w'" if "wrote M q x r1 w1 (l' w1) w'" "after (l' w) (l' w1)" for l' w'
      using that q by (auto simp: wrote_def quiet_def intro: after_trans)
    show ?thesis
    proof (rule qbwrite_wp [where M = M, OF _ r1 lk])
      show "ok (M \<union> ids [grown b x]) w1" "ids [grown b x] \<inter> M = {}" using a by auto
      show "chain [grown b x]" "[grown b x] \<noteq> []" using g by auto
    next
      fix w' assume "q_bypass r1" "ok M w'" "after w1 w'"
      then show "Q (blocklen [grown b x]) w'"
        using q after_trans [OF af] unfolding bl by (intro S) (auto simp: wrote_def quiet_def)
    next
      fix w' assume c: "q_has Qclosed r1" "changed M q r1 w1 w'"
      then show "E (Error (q_err r1)) w'"
        using q after_trans [OF af changed_after [OF c(2)]] r r1 by (intro R) (auto simp: refused_def changed_def map_upd_triv)
    next
      fix w' assume c: "q_noblock r1 \<noteq> 0" "changed M q r1 w1 w'"
      then show "Q (blocklen [grown b x]) w'"
        using q after_trans [OF af changed_after [OF c(2)]] changed_ok [OF c(2)] unfolding bl by (intro S) (auto simp: wrote_def quiet_def)
    next
      fix w' assume c: "sent M q [grown b x] r1 w1 w1 w'"
      then show "Q (blocklen [grown b x]) w'"
        using tr [of "\<lambda>w. w"] sent_wrote [OF c] g(2) af q unfolding bl by (intro S) (auto simp: sent_def)
    next
      fix w' assume c: "sent M q [grown b x] r1 w1 w1 w'" "kenv w1 \<noteq> []"
      then show "E (Error Eintr) w'" using q after_trans [OF af] by (intro R) (auto simp: refused_def sent_def)
    next
      fix w' assume c: "sent M q [grown b x] r1 w1 (locking (q, False) w1) w'" "q_has Qflow (the (kqueues w' q))"
        "q_limit (the (kqueues w' q)) \<le> q_len (the (kqueues w' q))"
      have "q \<in> dom (kqueues w')" using c(1) r1 by (auto simp: sent_def after_def)
      then have "full_flow q w'" using c(2,3) by (auto simp: full_flow_def)
      then show "E Blocked w'"
        using tr [of "locking (q, False)"] sent_wrote [OF c(1)] g(2) after_locking [OF af] by (intro B) auto
    qed
  qed
  then show ?thesis
    using X x by (auto simp: wp_flow wp_on_Error fresh_put intro!: allocb_wp [OF w])
qed


lemma wp_patient_qflow:
  "wp (patient_qflow n q) Q E w = wp (qflow q) Q (\<lambda>e w'. case e of
     Error _ \<Rightarrow> if kexiting w' then E (Error Egreg) w' else (case n of 0 \<Rightarrow> E Blocked w' | Suc m \<Rightarrow> wp (patient_qflow m q) Q E w')
   | _ \<Rightarrow> E e w') w"
  by (simp add: wp_def patient_qflow.simps [of n] split: prod.splits sum.splits kexc.splits nat.splits)

lemma patient_qflow_wp:
  assumes "ok M w" and "after w0 w" and "kqueues w q = Some r" and k: "kilocks w0 = []" "(q, False) \<notin> set (kqlocks w0)"
    and "length (kenv w) \<le> n"
    and "\<And>w'. ok M w' \<Longrightarrow> after w0 w' \<Longrightarrow> w' = w \<and> unthrottled r \<or> kenv w \<noteq> [] \<Longrightarrow> Q () w'"
    and "\<And>w'. ok M w' \<Longrightarrow> after w0 w' \<Longrightarrow> kenv w \<noteq> [] \<Longrightarrow> E (Error Egreg) w'"
    and "\<And>w'. ok M w' \<Longrightarrow> after (locking (q, False) w0) w' \<Longrightarrow> full_flow q w' \<Longrightarrow>
      (kenv w = [] \<Longrightarrow> kenv w' = [] \<and> kqueues w' = (kqueues w)(q \<mapsto> q_raise Qflow r)) \<Longrightarrow> E Blocked w'"
  shows "wp (patient_qflow n q) Q E w"
  using assms(1-3,6-)
proof (induction n arbitrary: w r rule: less_induct)
  case (less n w r)
  have lk: "kilocks w = []" "(q, False) \<notin> set (kqlocks w)" using after_locks [OF less.prems(2)] k by auto
  show ?case
  proof (subst wp_patient_qflow, rule qflow_wp [OF less.prems(1,3) lk])
    fix w' assume a: "ok M w'" "after w w'" "w' = w \<and> unthrottled r \<or> \<not> unthrottled r \<and> length (kenv w') < length (kenv w)"
    then show "Q () w'" using after_trans [OF less.prems(2) a(2)] by (intro less.prems(5)) auto
  next
    fix w' assume a: "ok M w'" "after w w'" "length (kenv w') < length (kenv w)"
    have af: "after w0 w'" using after_trans [OF less.prems(2) a(2)] .
    have ne: "kenv w \<noteq> []" using a(3) by auto
    obtain m where m: "n = Suc m" using a(3) less.prems(4) by (cases n) auto
    obtain r' where r': "kqueues w' q = Some r'" using after_at [OF a(2) less.prems(3)] by auto
    have "wp (patient_qflow m q) Q E w'"
    proof (rule less.IH [OF _ a(1) af r'])
      show "m < n" "length (kenv w') \<le> m" using m a(3) less.prems(4) by auto
      show "Q () w2" if "ok M w2" "after w0 w2" for w2 using that ne by (intro less.prems(5)) auto
      show "E (Error Egreg) w2" if "ok M w2" "after w0 w2" for w2 using that ne by (intro less.prems(6)) auto
      show "E Blocked w2" if "ok M w2" "after (locking (q, False) w0) w2" "full_flow q w2" for w2
        using that ne by (intro less.prems(7)) auto
    qed
    moreover have "E (Error Egreg) w'" using a(1) af ne by (rule less.prems(6))
    ultimately show "case Error Eintr of Error _ \<Rightarrow> if kexiting w' then E (Error Egreg) w' else
        (case n of 0 \<Rightarrow> E Blocked w' | Suc m \<Rightarrow> wp (patient_qflow m q) Q E w') | _ \<Rightarrow> E (Error Eintr) w'"
      by (simp add: m)
  next
    fix w' assume t: "throttled M q r w w'"
    then have "E Blocked w'"
      using after_trans [OF after_locking [OF less.prems(2)]]
      by (intro less.prems(7)) (auto simp: throttled_def full_flow_def)
    then show "case Blocked of Error _ \<Rightarrow> if kexiting w' then E (Error Egreg) w' else
        (case n of 0 \<Rightarrow> E Blocked w' | Suc m \<Rightarrow> wp (patient_qflow m q) Q E w') | _ \<Rightarrow> E Blocked w'" by simp
  qed
qed

lemma refused_trans:
  assumes "wrote M q x r w w w1" and "kqueues w1 q = Some r1" and "refused M q e r1 w1 w2" and "quiet r w \<Longrightarrow> x = [] \<and> kqueues w1 = kqueues w \<or> \<not> q_has Qclosed r"
  shows "refused M q e r w w2"
proof -
  have "after w w2" using assms(1,3) by (auto simp: wrote_def refused_def intro: after_trans)
  moreover have "q_has Qclosed r \<and> e = q_err r \<and> kqueues w2 = kqueues w" if "quiet r w"
  proof -
    have a: "kenv w1 = []" "alike r r1" using assms(1,2) that by (auto simp: wrote_def)
    then have "quiet r1 w1" using that by (auto simp: quiet_def alike_def)
    then show ?thesis using assms(3) assms(4) [OF that] a(2) alike_has(1) [OF a(2)] by (auto simp: refused_def alike_def)
  qed
  ultimately show ?thesis using assms(3) by (simp add: refused_def)
qed

text \<open>
  The whole of a write. How far it got, when it returned and when it is still asleep; a message
  queue is given only the first 64 kilobytes.
\<close>

definition whole :: "bytes \<Rightarrow> Queue \<Rightarrow> nat" where
  "whole p r = (if q_has Qmsg r then min (length p) Maxatomic else length p)"

lemma qwrite_loop_wp:
  assumes "wrote M q (take s p) r w w w1" and "kqueues w1 q = Some r1" and "s \<le> length p"
    and "quiet r w \<Longrightarrow> s = 0 \<and> kqueues w1 = kqueues w \<or> \<not> q_has Qmsg r \<and> \<not> q_has Qclosed r"
    and "length p - s \<le> k"
    and l: "kilocks w = []" "(q, False) \<notin> set (kqlocks w)"
    and S: "\<And>s w'. wrote M q (take s p) r w w w' \<Longrightarrow> (quiet r w \<Longrightarrow> s = whole p r \<and> \<not> q_has Qclosed r) \<Longrightarrow> Q () w'"
    and R: "\<And>e w'. refused M q e r w w' \<Longrightarrow> E (Error e) w'"
    and B: "\<And>s w'. wrote M q (take s p) r w (locking (q, False) w) w' \<Longrightarrow> full_flow q w' \<Longrightarrow> (length p \<le> Maxatomic \<Longrightarrow> s = length p) \<Longrightarrow> E Blocked w'"
    and X: "\<And>e w'. \<not> plenty w \<Longrightarrow> e = Panic \<or> e = Blocked \<Longrightarrow> E e w'"
  shows "wp (qwrite_loop k q p (int s)) Q E w1"
  using assms(1-5)
proof (induction k arbitrary: s w1 r1 rule: less_induct)
  case (less k s w1 r1)
  have w1: "ok M w1" "after w w1" using less.prems(1) by (auto simp: wrote_def)
  have lk: "kilocks w1 = []" "(q, False) \<notin> set (kqlocks w1)" using after_locks [OF w1(2)] l by auto
  define n where "n = min (length p - s) Maxatomic"
  define x where "x = take n (drop s p)"
  have x: "length x = n" "length x \<le> Maxatomic" "take s p @ x = take (s + n) p" "s + n \<le> length p"
    using less.prems(3) by (auto simp: x_def n_def take_add min_def)
  have n: "min (int (length p) - int s) (int Maxatomic) = int n" using less.prems(3) by (simp add: n_def of_nat_diff)
  have fits: "s + n = length p" if "length p \<le> Maxatomic" using that less.prems(3) by (simp add: n_def)
  let ?next = "if int s + int n < int (length p) then case k of 0 \<Rightarrow> raise Blocked | Suc k \<Rightarrow> qwrite_loop k q p (int s + int n) else ret ()"
  let ?rest = "and_then (qf q (q_has Qmsg)) (\<lambda>msg. if int s + int n < int (length p) \<and> \<not> msg
     then (case k of 0 \<Rightarrow> raise Blocked | Suc k \<Rightarrow> qwrite_loop k q p (int s + int n)) else ret ())"
  have "wp (and_then (allocb (int (length x))) (\<lambda>b. and_then (on_Error (bput b x) (freeb b)) (\<lambda>b. qbwrite q [b])))
     (\<lambda>m. wp (and_then (qf q (q_has Qmsg)) (\<lambda>msg. if int s + m < int (length p) \<and> \<not> msg
     then (case k of 0 \<Rightarrow> raise Blocked | Suc k \<Rightarrow> qwrite_loop k q p (int s + m)) else ret ())) Q E) E w1"
  proof (rule chunk_wp [OF w1(1) less.prems(2) lk x(2)])
    fix w' assume a: "wrote M q x r1 w1 w1 w'" "quiet r1 w1 \<Longrightarrow> \<not> q_has Qclosed r1"
    have wr: "wrote M q (take (s + n) p) r w w w'"
      using wrote_trans [OF less.prems(1,2) a(1) w1(2)] x(3) by simp
    obtain r2 where r2: "kqueues w' q = Some r2" using a(1) less.prems(2) after_at [of w1 w' q r1] by (auto simp: wrote_def)
    have q: "\<not> q_has Qclosed r" "alike r r2" if "quiet r w"
    proof -
      have "alike r r1" "kenv w1 = []" using less.prems(1,2) that by (auto simp: wrote_def)
      moreover from this have "quiet r1 w1" using that by (auto simp: quiet_def alike_def)
      ultimately show "\<not> q_has Qclosed r" using a(2) alike_has(1) by auto
      show "alike r r2" using wr r2 that by (auto simp: wrote_def)
    qed
    show "wp (and_then (qf q (q_has Qmsg)) (\<lambda>msg. if int s + int (length x) < int (length p) \<and> \<not> msg
     then (case k of 0 \<Rightarrow> raise Blocked | Suc k \<Rightarrow> qwrite_loop k q p (int s + int (length x))) else ret ())) Q E w'"
    proof (cases "s + n < length p \<and> \<not> q_has Qmsg r2")
      case False
      have "s + n = whole p r" if "quiet r w"
        using False less.prems(4) [OF that] q [OF that] alike_has(2) [of r r2] x(4) by (auto simp: whole_def n_def)
      then have "Q () w'" using q by (intro S [OF wr]) auto
      then show ?thesis using False r2 by (auto simp: wp_flow wp_qf x(1))
    next
      case True
      then have "0 < n" using less.prems(3) by (simp add: n_def)
      then obtain k' where k': "k = Suc k'" using less.prems(5) True by (cases k) auto
      have "wp (qwrite_loop k' q p (int (s + n))) Q E w'"
        by (rule less.IH [OF _ wr r2]) (use k' x(4) q True alike_has(2) [of r r2] less.prems(5) \<open>0 < n\<close> in auto)
      then show ?thesis using True r2 k' by (simp add: wp_flow wp_qf x(1))
    qed
  next
    fix e w' assume "refused M q e r1 w1 w'"
    then show "E (Error e) w'"
      using less.prems(4) by (intro R refused_trans [OF less.prems(1,2)]) auto
  next
    fix w' assume a: "wrote M q x r1 w1 (locking (q, False) w1) w'" "full_flow q w'"
    show "E Blocked w'"
      by (rule B [of "s + n", OF _ a(2) fits]) (use wrote_trans [OF less.prems(1,2) a(1) after_locking [OF w1(2)]] x(3) in auto)
  next
    fix e w' assume "\<not> plenty w1" "e = Panic \<or> e = Blocked"
    then show "E e w'" using X plenty_after [OF w1(2)] by auto
  qed
  then show ?case
    by (subst qwrite_loop.simps) (simp add: wp_flow n [simplified] Let_def x(1) x_def [symmetric])
qed


lemma qwrite_wp:
  assumes w: "ok M w" and r: "kqueues w q = Some r" and l: "kilocks w = []" "(q, False) \<notin> set (kqlocks w)"
    and S: "\<And>s w'. wrote M q (take s p) r w w w' \<Longrightarrow> (quiet r w \<Longrightarrow> s = whole p r \<and> \<not> q_has Qclosed r) \<Longrightarrow> Q (int (length p)) w'"
    and R: "\<And>e w'. refused M q e r w w' \<Longrightarrow> E (Error e) w'"
    and B: "\<And>s w'. wrote M q (take s p) r w (locking (q, False) w) w' \<Longrightarrow> full_flow q w' \<Longrightarrow>
      (length p \<le> Maxatomic \<Longrightarrow> s = length p \<or> s = 0 \<and> q_limit r \<le> q_len r sdiv 2) \<Longrightarrow> E Blocked w'"
    and X: "\<And>e w'. \<not> plenty w \<Longrightarrow> e = Panic \<or> e = Blocked \<Longrightarrow> E e w'"
  shows "wp (qwrite q p) Q E w"
proof -
  have main: "wp (qwrite_loop (length p) q p 0) (\<lambda>_. Q (int (length p))) E w1"
    if a: "ok M w1" "after w w1" "w1 = w \<or> kenv w \<noteq> []" for w1
  proof -
    obtain r1 where r1: "kqueues w1 q = Some r1" using after_at [OF a(2) r] by auto
    have "wrote M q (take 0 p) r w w w1" using a wrote_refl [OF w r] by (auto simp: wrote_def quiet_def)
    from qwrite_loop_wp [OF this r1 _ _ _ l, where k = "length p" and Q = "\<lambda>_. Q (int (length p))" and E = E, OF _ _ _ S R _ X]
    show ?thesis using a(3) B by (auto simp: quiet_def)
  qed
  have "wp (patient_qflow (length (kenv w)) q) (\<lambda>_. wp (qwrite_loop (length p) q p 0) (\<lambda>_. Q (int (length p))) E) E w"
    if bloat: "q_limit r \<le> q_len r sdiv 2"
  proof (rule patient_qflow_wp [OF w after_refl r l])
    fix w' assume "ok M w'" "after w w'" "kenv w \<noteq> []"
    then show "E (Error Egreg) w'" by (intro R) (auto simp: refused_def quiet_def)
  next
    fix w' assume a: "ok M w'" "after (locking (q, False) w) w'" "full_flow q w'"
      "kenv w = [] \<Longrightarrow> kenv w' = [] \<and> kqueues w' = (kqueues w)(q \<mapsto> q_raise Qflow r)"
    have "wrote M q (take 0 p) r w (locking (q, False) w) w'"
      using a by (auto simp: wrote_def quiet_def intro!: exI [of _ "q_raise Qflow r"])
    then show "E Blocked w'" using a(3) bloat by (intro B [of 0]) auto
  qed (use main in auto)
  then show ?thesis
    using main [OF w after_refl] r by (auto simp: qwrite_def wp_flow wp_qf wp_only_if)
qed

text \<open>\<^verbatim>\<open>qiwrite\<close> never sleeps: what does not fit is dropped, and the count says how much went in.\<close>

definition kick_wake :: "nat \<Rightarrow> bool \<Rightarrow> unit kern" where
  "kick_wake q d = only_if d (and_then (qf q q_kick) (\<lambda>kick. seq (only_if kick (call_kick q)) (wakeup_rr q)))"

lemma kick_wake_wp:
  assumes w: "ok M w" and r: "kqueues w q = Some r"
    and Q: "\<And>w'. ok M w' \<Longrightarrow> after w w' \<Longrightarrow> kenv w' = kenv w \<Longrightarrow> (\<not> q_kick r \<Longrightarrow> kqueues w' = kqueues w) \<Longrightarrow> Q () w'"
  shows "wp (kick_wake q d) Q E w"
proof -
  have t: "Q () (w2\<lparr>ktrace := t\<rparr>)" if "ok M w2" "after w w2" "kenv w2 = kenv w" "\<not> q_kick r \<Longrightarrow> kqueues w2 = kqueues w" for w2 t
    using that by (intro Q) (auto simp: after_def ctx_def)
  have "wp (call_kick q) (\<lambda>_. wp (wakeup_rr q) Q E) E w" if "q_kick r"
    by (rule call_kick_wp [OF w]) (use that t in \<open>auto simp: wakeup_rr_def wp_emit\<close>)
  then show ?thesis using r w Q t by (auto simp: kick_wake_def wp_only_if wp_flow wp_qf wakeup_rr_def wp_emit)
qed

definition iwrote :: "nat set \<Rightarrow> nat \<Rightarrow> bytes \<Rightarrow> Queue \<Rightarrow> world \<Rightarrow> world \<Rightarrow> bool" where
  "iwrote M q x r w w' \<longleftrightarrow> ok M w' \<and> after w w' \<and> kenv w' = kenv w \<and> (\<not> q_kick r \<longrightarrow>
     (\<exists>r'. alike r r' \<and> data (bfirst r') = data (bfirst r) @ x \<and> kqueues w' = (kqueues w)(q \<mapsto> r')))"

lemma iwrote_refl: "ok M w \<Longrightarrow> kqueues w q = Some r \<Longrightarrow> iwrote M q [] r w w"
  by (auto simp: iwrote_def map_upd_triv intro!: exI [of _ r])

lemma iwrote_trans:
  assumes "iwrote M q x r w w1" and "kqueues w1 q = Some r1" and "iwrote M q y r1 w1 w2"
  shows "iwrote M q (x @ y) r w w2"
proof -
  have "\<exists>r'. alike r r' \<and> data (bfirst r') = data (bfirst r) @ x @ y \<and> kqueues w2 = (kqueues w)(q \<mapsto> r')" if "\<not> q_kick r"
  proof -
    have a: "alike r r1" "data (bfirst r1) = data (bfirst r) @ x" "kqueues w1 = (kqueues w)(q \<mapsto> r1)"
      using assms(1,2) that by (auto simp: iwrote_def)
    then have "\<not> q_kick r1" using that by (auto simp: alike_def)
    then obtain r2 where "alike r1 r2" "data (bfirst r2) = data (bfirst r1) @ y" "kqueues w2 = (kqueues w1)(q \<mapsto> r2)"
      using assms(3) by (auto simp: iwrote_def)
    then show ?thesis using a by (auto intro!: exI [of _ r2] intro: alike_trans)
  qed
  then show ?thesis using assms by (auto simp: iwrote_def intro: after_trans)
qed


lemma qiwrite_add_wp:
  assumes w: "ok (insert (b_id b) M) w" and r: "kqueues w q = Some r" and l: "q \<notin> set (kilocks w)" and b: "wfB b" "b_id b \<notin> M"
    and D: "\<And>w'. q_has Qclosed r \<or> q_limit r \<le> q_len r sdiv 2 \<Longrightarrow> changed M q r w w' \<Longrightarrow> Q sofar w'"
    and S: "\<And>d w'. \<not> (q_has Qclosed r \<or> q_limit r \<le> q_len r sdiv 2) \<Longrightarrow> iwrote M q (bytes_of b) r w w' \<Longrightarrow> wp (m d) Q E w'"
  shows "wp (seq (ilock q) (and_then (qf q (\<lambda>r. q_has Qclosed r \<or> q_len r sdiv 2 \<ge> q_limit r)) (\<lambda>drop.
       if drop then seq (iunlock q) (seq (freeb b) (ret sofar))
       else and_then (qaddlist q [b]) (\<lambda>_. and_then (feed_reader q) (\<lambda>fed. let dowakeup = (d0 \<or> fed) in
         seq (iunlock q) (seq (kick_wake q dowakeup) (m dowakeup))))))) Q E w"
proof -
  let ?w = "w\<lparr>kilocks := q # kilocks w\<rparr>"
  have ch: "changed (M \<union> ids [b]) q r ?w ?w" using w r by (intro changed_self) auto
  have "wp (freeb b) (\<lambda>_. Q sofar) E w1" if a: "changed (M \<union> ids [b]) q r w w1" "q_has Qclosed r \<or> q_limit r \<le> q_len r sdiv 2" for w1
  proof (rule freeb_wp [OF changed_ok [OF a(1)]])
    fix w2 assume "ok (M \<union> ids [b] - {b_id b}) w2" "still w1 w2"
    moreover have "M \<union> ids [b] - {b_id b} = M" using b by auto
    ultimately show "Q sofar w2" using changed_still [OF a(1)] by (intro D [OF a(2)]) auto
  qed simp
  then have drop: "wp (iunlock q) (\<lambda>_. wp (freeb b) (\<lambda>_. Q sofar) E) E ?w" if "q_has Qclosed r \<or> q_limit r \<le> q_len r sdiv 2"
    using that by (intro iunlock_wp [OF ch]) auto
  have add: "wp (qaddlist q [b]) (\<lambda>_. wp (feed_reader q) (\<lambda>fed. wp (iunlock q)
     (\<lambda>_. wp (kick_wake q (d0 \<or> fed)) (\<lambda>_. wp (m (d0 \<or> fed)) Q E) E) E) E) E ?w"
    if c: "\<not> (q_has Qclosed r \<or> q_limit r \<le> q_len r sdiv 2)"
  proof (rule qaddlist_wp [OF ch])
    fix r1 w1 assume a: "changed M q r1 ?w w1" "alike r r1" "bfirst r1 = bfirst r @ [b]"
    show "wp (feed_reader q) (\<lambda>fed. wp (iunlock q) (\<lambda>_. wp (kick_wake q (d0 \<or> fed)) (\<lambda>_. wp (m (d0 \<or> fed)) Q E) E) E) E w1"
    proof (rule feed_wp [OF changed_at [OF a(1)]])
      fix r2 fed assume f: "flagged r1 r2"
      show "wp (iunlock q) (\<lambda>_. wp (kick_wake q (d0 \<or> fed)) (\<lambda>_. wp (m (d0 \<or> fed)) Q E) E) E (w1\<lparr>kqueues := (kqueues w1)(q \<mapsto> r2)\<rparr>)"
      proof (rule iunlock_wp [OF changed_flagged [OF a(1) f]])
        fix w2 assume c2: "changed M q r2 w w2"
        have al: "alike r r2" "bfirst r2 = bfirst r @ [b]" "q_kick r2 = q_kick r" using flagged_alike [OF a(2) f] a(3) by (auto simp: alike_def)
        show "wp (kick_wake q (d0 \<or> fed)) (\<lambda>_. wp (m (d0 \<or> fed)) Q E) E w2"
          by (rule kick_wake_wp [OF changed_ok [OF c2] changed_at [OF c2]], rule S [OF c])
            (use c2 al after_trans [OF changed_after [OF c2]] in \<open>auto simp: iwrote_def changed_def\<close>)
      qed
    qed
  qed (use b in auto)
  show ?thesis using r l drop add by (auto simp: wp_flow wp_ilock wp_qf Let_def)
qed

lemma iwrote_noop: "changed M q r w w' \<Longrightarrow> kqueues w q = Some r \<Longrightarrow> iwrote M q [] r w w'"
  using changed_after [of M q r w w'] by (auto simp: iwrote_def changed_def map_upd_triv intro!: exI [of _ r])

lemma qiwrite_loop_wp:
  assumes "iwrote M q (take s p) r w w1" and "kqueues w1 q = Some r1" and "s \<le> length p" and "length p - s \<le> k" and "length p \<le> Maxatomic \<Longrightarrow> r1 = r"
    and l: "q \<notin> set (kilocks w)" "q \<in> dom (kqueues w)"
    and S: "\<And>s w'. iwrote M q (take s p) r w w' \<Longrightarrow> s \<le> length p \<Longrightarrow>
      (plenty w \<Longrightarrow> \<not> q_has Qclosed r \<Longrightarrow> q_len r sdiv 2 < q_limit r \<Longrightarrow> length p \<le> Maxatomic \<Longrightarrow> s = length p) \<Longrightarrow> Q (int s) w'"
    and X: "\<And>w'. \<not> plenty w \<Longrightarrow> E Panic w'"
  shows "wp (qiwrite_loop k q p d (int s)) Q E w1"
  using assms(1-5)
proof (induction k arbitrary: s w1 r1 d rule: less_induct)
  case (less k s w1 r1 d)
  have w1: "ok M w1" "after w w1" using less.prems(1) by (auto simp: iwrote_def)
  have lk: "q \<notin> set (kilocks w1)" using after_locks [OF w1(2)] l(1) by auto
  define n where "n = min (length p - s) Maxatomic"
  define x where "x = take n (drop s p)"
  have x: "length x = n" "n \<le> Maxatomic" "take s p @ x = take (s + n) p" "s + n \<le> length p"
    using less.prems(3) by (auto simp: x_def n_def take_add min_def)
  have n: "min (int (length p) - int s) (int Maxatomic) = int n" using less.prems(3) by (simp add: n_def of_nat_diff)
  have fits: "s + n = length p" if "length p \<le> Maxatomic" using that less.prems(3) by (simp add: n_def)
  let ?m = "\<lambda>d. and_then (qf q (q_has Qmsg)) (\<lambda>msg.
         if int s + int n < int (length p) \<and> \<not> msg
         then (case k of 0 \<Rightarrow> raise Blocked | Suc k \<Rightarrow> qiwrite_loop k q p d (int s + int n)) else ret (int s + int n))"
  have fin: "wp (?m d) Q E w'" if wr: "iwrote M q (take (s + n) p) r w w'" for d w'
  proof -
    obtain r2 where r2: "kqueues w' q = Some r2"
      using wr l(2) by (auto simp: iwrote_def after_def)
    show ?thesis
    proof (cases "s + n < length p \<and> \<not> q_has Qmsg r2")
      case False
      have "Q (int (s + n)) w'" using wr x(4) fits by (intro S) auto
      then show ?thesis using False r2 by (auto simp: wp_flow wp_qf)
    next
      case True
      then have "0 < n" using less.prems(3) by (simp add: n_def)
      then obtain k' where k': "k = Suc k'" using less.prems(4) True by (cases k) auto
      have "wp (qiwrite_loop k' q p d (int (s + n))) Q E w'"
        by (rule less.IH [OF _ wr r2]) (use k' x(4) less.prems(4) \<open>0 < n\<close> True fits in auto)
      then show ?thesis using True r2 k' by (simp add: wp_flow wp_qf)
    qed
  qed
  have done0: "Q (int s) w'" if "iwrote M q [] r1 w1 w'" "\<not> plenty w \<or> q_has Qclosed r1 \<or> q_limit r1 \<le> q_len r1 sdiv 2" for w'
    using iwrote_trans [OF less.prems(1,2) that(1)] that(2) less.prems(3,5) fits
    by (intro S) (auto simp: n_def)
  have "wp (iallocb (int n)) (\<lambda>b. wp (case b of None \<Rightarrow> ret (int s) | Some b \<Rightarrow> and_then (bput b x) (\<lambda>b.
       seq (ilock q) (and_then (qf q (\<lambda>r. q_has Qclosed r \<or> q_len r sdiv 2 \<ge> q_limit r)) (\<lambda>drop.
       if drop then seq (iunlock q) (seq (freeb b) (ret (int s)))
       else and_then (qaddlist q [b]) (\<lambda>_. and_then (feed_reader q) (\<lambda>fed. let dowakeup = (d \<or> fed) in
         seq (iunlock q) (seq (kick_wake q dowakeup) (?m dowakeup)))))))) Q E) E w1"
  proof (rule iallocb_wp [OF w1(1)])
    fix b w2 assume a: "ok (insert (b_id b) M) w2" "b_id b \<notin> M" "fresh_block b (int n)" "still w1 w2"
    have g: "wp (bput b x) Q' E' w2 = Q' (grown b x) w2" "wfB (grown b x)" "bytes_of (grown b x) = x" for Q' E'
      using fresh_put [of b x] a(3) x(1,2) by auto
    have r2: "kqueues w2 q = Some r1" and l2: "q \<notin> set (kilocks w2)" using a(4) less.prems(2) lk still_locks [OF a(4)] by (auto simp: still_def)
    have st: "iwrote M q y r1 w1 w'" if "iwrote M q y r1 w2 w'" for y w'
      using that a(4) after_trans [OF still_after [OF a(4)]] by (auto simp: iwrote_def still_def)
    have "wp (seq (ilock q) (and_then (qf q (\<lambda>r. q_has Qclosed r \<or> q_len r sdiv 2 \<ge> q_limit r)) (\<lambda>drop.
       if drop then seq (iunlock q) (seq (freeb (grown b x)) (ret (int s)))
       else and_then (qaddlist q [grown b x]) (\<lambda>_. and_then (feed_reader q) (\<lambda>fed. let dowakeup = (d \<or> fed) in
         seq (iunlock q) (seq (kick_wake q dowakeup) (?m dowakeup))))))) Q E w2"
    proof (rule qiwrite_add_wp [OF _ r2 l2 g(2)])
      show "ok (insert (b_id (grown b x)) M) w2" "b_id (grown b x) \<notin> M" using a by auto
      show "Q (int s) w'" if "q_has Qclosed r1 \<or> q_limit r1 \<le> q_len r1 sdiv 2" "changed M q r1 w2 w'" for w'
        using done0 st iwrote_noop [OF that(2) r2] that(1) by blast
      show "wp (?m d') Q E w'" if "iwrote M q (bytes_of (grown b x)) r1 w2 w'" for d' w'
        by (rule fin) (use iwrote_trans [OF less.prems(1,2) st [OF that]] x(3) g(3) in simp)
    qed
    then show "wp (case Some b of None \<Rightarrow> ret (int s) | Some b \<Rightarrow> and_then (bput b x) (\<lambda>b.
       seq (ilock q) (and_then (qf q (\<lambda>r. q_has Qclosed r \<or> q_len r sdiv 2 \<ge> q_limit r)) (\<lambda>drop.
       if drop then seq (iunlock q) (seq (freeb b) (ret (int s)))
       else and_then (qaddlist q [b]) (\<lambda>_. and_then (feed_reader q) (\<lambda>fed. let dowakeup = (d \<or> fed) in
         seq (iunlock q) (seq (kick_wake q dowakeup) (?m dowakeup)))))))) Q E w2"
      using g(1) by (simp only: option.case wp_and_then)
  next
    fix w2 assume a: "\<not> plenty w1" "ok M w2" "still w1 w2"
    have "iwrote M q [] r1 w1 w2"
      using a(2,3) still_after [OF a(3)] less.prems(2) by (auto simp: iwrote_def still_def map_upd_triv intro!: exI [of _ r1])
    then show "wp (case None of None \<Rightarrow> ret (int s) | Some b \<Rightarrow> and_then (bput b x) (\<lambda>b.
       seq (ilock q) (and_then (qf q (\<lambda>r. q_has Qclosed r \<or> q_len r sdiv 2 \<ge> q_limit r)) (\<lambda>drop.
       if drop then seq (iunlock q) (seq (freeb b) (ret (int s)))
       else and_then (qaddlist q [b]) (\<lambda>_. and_then (feed_reader q) (\<lambda>fed. let dowakeup = (d \<or> fed) in
         seq (iunlock q) (seq (kick_wake q dowakeup) (?m dowakeup)))))))) Q E w2"
      using done0 a(1) plenty_after [OF w1(2)] by (simp add: wp_flow)
  qed (use x(2) X plenty_after [OF w1(2)] in auto)
  then show ?case
    unfolding qiwrite_loop.simps [of k] n Let_def kick_wake_def wp_and_then [of "iallocb _"] by (simp only: nat_int x_def)
qed

lemma qiwrite_wp:
  assumes "ok M w" and "kqueues w q = Some r" and "q \<notin> set (kilocks w)"
    and "\<And>s w'. iwrote M q (take s p) r w w' \<Longrightarrow> s \<le> length p \<Longrightarrow>
      (plenty w \<Longrightarrow> \<not> q_has Qclosed r \<Longrightarrow> q_len r sdiv 2 < q_limit r \<Longrightarrow> length p \<le> Maxatomic \<Longrightarrow> s = length p) \<Longrightarrow> Q (int s) w'"
    and "\<And>w'. \<not> plenty w \<Longrightarrow> E Panic w'"
  shows "wp (qiwrite q p) Q E w"
  using qiwrite_loop_wp [of M q 0 p r w w r "length p" Q E False] iwrote_refl [OF assms(1,2)] assms(2-)
  by (auto simp: qiwrite_def)

text \<open>\<^verbatim>\<open>qcopy\<close> leaves the queue as it is.\<close>

lemma qcopy_wp:
  assumes w: "ok M w" and r: "kqueues w q = Some r" and l: "kilocks w = []" and len: "0 \<le> len" "len + 23 < 2 ^ 31" and off: "0 \<le> off"
    and S: "\<And>b r1 w'. ok (insert (b_id b) M) w' \<Longrightarrow> b_id b \<notin> M \<Longrightarrow> wfB b \<Longrightarrow> later w w' \<Longrightarrow> kqueues w' q = Some r1 \<Longrightarrow>
      bytes_of b = take (nat len) (drop (nat off) (data (bfirst r1))) \<Longrightarrow> Q b w'"
    and X: "\<And>e w'. \<not> plenty w \<Longrightarrow> e = Panic \<or> e = Blocked \<Longrightarrow> ok M w' \<Longrightarrow> later w w' \<Longrightarrow> E e w'"
  shows "wp (qcopy q len off) Q E w"
  unfolding qcopy_def wp_and_then [of "allocb _"]
proof (rule allocb_wp [OF w len])
  fix b w1 assume a: "ok (insert (b_id b) M) w1" "b_id b \<notin> M" "fresh_block b len" "later w w1"
  obtain r1 where r1: "kqueues w1 q = Some r1" using after_at [OF later_after [OF a(4)] r] by auto
  have l1: "kilocks w1 = []" using later_kilocks [OF a(4)] l by simp
  have c: "chain (bfirst r1)" using ok_qinv [OF a(1) r1] by (simp add: qinv_def)
  define x where "x = take (nat len) (drop (nat off) (data (bfirst r1)))"
  have x: "int (length x) \<le> len" using len by (simp add: x_def)
  have f: "wfB b" "b_wp b + int (length x) \<le> BALLOC b" "BLEN b = 0"
    using a(3) x by (auto simp: fresh_block_def BLEN_def)
  have e: "bytes_of b = []" using f(1,3) length_bytes_nat [of b] by simp
  have "Q (grown b x) (w1\<lparr>kilocks := []\<rparr>)"
  proof (rule S)
    have "w1\<lparr>kilocks := []\<rparr> = w1" using l1 by (cases w1) simp
    then show "later w (w1\<lparr>kilocks := []\<rparr>)" using a(4) by simp
    show "wfB (grown b x)" using f x len(2) by (intro grown_wfB) auto
    show "bytes_of (grown b x) = take (nat len) (drop (nat off) (data (bfirst r1)))" using f(1,2) e by (simp add: x_def [symmetric])
  qed (use a r1 in auto)
  then show "wp (seq (ilock q) (and_then (qf q bfirst) (\<lambda>bs. and_then (readblist bs len off) (\<lambda>x. and_then (bput b x) (\<lambda>b.
     seq (iunlock q) (ret b)))))) Q E w1"
    using r1 l1 f(1,2) by (simp add: wp_flow wp_ilock wp_qf readblist_wp [OF c off] x_def [symmetric] wp_bput wp_iunlock)
qed (use X in auto)

end
