(* ===== verification/Queues_Props.thy ===== *)
theory Queues_Props
  imports Queue_Write
begin

text \<open>
  The properties of the queues of \<^verbatim>\<open>qio.c\<close>. The contract of a byte queue is a locale; the kernel's
  queues interpret it, whatever the mix of operations that put and get bytes.
\<close>

section \<open>Byte queues\<close>

text \<open>
  The contract of a byte queue: what is put comes out again, once, in order. \<open>history\<close> interleaves
  puts and gets in any way.
\<close>

inductive history :: "(bytes \<Rightarrow> 's \<Rightarrow> 's \<Rightarrow> bool) \<Rightarrow> (bytes \<Rightarrow> 's \<Rightarrow> 's \<Rightarrow> bool) \<Rightarrow> 's \<Rightarrow> bytes \<Rightarrow> bytes \<Rightarrow> 's \<Rightarrow> bool"
  for put get where
  history_start: "history put get s [] [] s"
| history_put: "history put get s ins outs s1 \<Longrightarrow> put x s1 s2 \<Longrightarrow> history put get s (ins @ x) outs s2"
| history_get: "history put get s ins outs s1 \<Longrightarrow> get x s1 s2 \<Longrightarrow> history put get s ins (outs @ x) s2"

locale byte_queue =
  fixes inv :: "'s \<Rightarrow> bool" and contents :: "'s \<Rightarrow> bytes"
    and put :: "bytes \<Rightarrow> 's \<Rightarrow> 's \<Rightarrow> bool" and get :: "bytes \<Rightarrow> 's \<Rightarrow> 's \<Rightarrow> bool"
  assumes put_inv: "inv s \<Longrightarrow> put x s s' \<Longrightarrow> inv s'"
    and put_contents: "inv s \<Longrightarrow> put x s s' \<Longrightarrow> contents s' = contents s @ x"
    and get_inv: "inv s \<Longrightarrow> get x s s' \<Longrightarrow> inv s'"
    and get_contents: "inv s \<Longrightarrow> get x s s' \<Longrightarrow> contents s = x @ contents s'"
begin

lemma fifo:
  assumes "history put get s ins outs s'" and "inv s"
  shows "inv s' \<and> contents s @ ins = outs @ contents s'"
  using assms
proof (induction rule: history.induct)
  case (history_put s ins outs s1 x s2)
  then show ?case using put_inv [of s1 x s2] put_contents [of s1 x s2] by auto
next
  case (history_get s ins outs s1 x s2)
  then show ?case using get_inv [of s1 x s2] get_contents [of s1 x s2] by auto
qed simp

lemma fifo_from_empty:
  assumes "history put get s ins outs s'" and "inv s" and "contents s = []"
  shows "\<exists>rest. ins = outs @ rest"
  using fifo [OF assms(1,2)] assms(3) by auto

end

text \<open>
  The queue operations as puts and gets. A writer that has gone to sleep in \<^verbatim>\<open>qflow\<close> has queued its
  bytes: the others carry on, without the lock it holds.
\<close>

inductive enq :: "nat \<Rightarrow> bytes \<Rightarrow> nat set \<times> world \<Rightarrow> nat set \<times> world \<Rightarrow> bool" for q where
  enq_qwrite: "qwrite q p w = (Inr n, w') \<Longrightarrow> enq q p (M, w) (M, w')"
| enq_qwrite_asleep: "qwrite q p w = (Inl Blocked, w') \<Longrightarrow> length p \<le> Maxatomic \<Longrightarrow> kqueues w q = Some r \<Longrightarrow> q_len r sdiv 2 < q_limit r \<Longrightarrow>
    enq q p (M, w) (M, w'\<lparr>kqlocks := kqlocks w\<rparr>)"
| enq_qbwrite: "qbwrite q bs w = (Inr n, w') \<Longrightarrow> chain bs \<Longrightarrow> bs \<noteq> [] \<Longrightarrow> ids bs \<subseteq> M \<Longrightarrow> enq q (data bs) (M, w) (M - ids bs, w')"
| enq_qbwrite_asleep: "qbwrite q bs w = (Inl Blocked, w') \<Longrightarrow> chain bs \<Longrightarrow> bs \<noteq> [] \<Longrightarrow> ids bs \<subseteq> M \<Longrightarrow>
    enq q (data bs) (M, w) (M - ids bs, w'\<lparr>kqlocks := kqlocks w\<rparr>)"
| enq_qiwrite: "qiwrite q p w = (Inr n, w') \<Longrightarrow> enq q (take (nat n) p) (M, w) (M, w')"
| enq_qpass: "qpass q bs w = (Inr n, w') \<Longrightarrow> chain bs \<Longrightarrow> bs \<noteq> [] \<Longrightarrow> ids bs \<subseteq> M \<Longrightarrow>
    enq q (if n = -1 then [] else data bs) (M, w) (M - ids bs, w')"
| enq_qpassnolim: "qpassnolim q bs w = (Inr n, w') \<Longrightarrow> chain bs \<Longrightarrow> bs \<noteq> [] \<Longrightarrow> ids bs \<subseteq> M \<Longrightarrow> enq q (data bs) (M, w) (M - ids bs, w')"
| enq_qproduce: "qproduce q p w = (Inr n, w') \<Longrightarrow> n \<noteq> -1 \<Longrightarrow> length p < 2 ^ 31 \<Longrightarrow> enq q p (M, w) (M, w')"

inductive deq :: "nat \<Rightarrow> bytes \<Rightarrow> nat set \<times> world \<Rightarrow> nat set \<times> world \<Rightarrow> bool" for q where
  deq_qread: "qread q len w = (Inr x, w') \<Longrightarrow> 0 \<le> len \<Longrightarrow> deq q x (M, w) (M, w')"
| deq_qbread: "qbread q len w = (Inr (Some b), w') \<Longrightarrow> 0 \<le> len \<Longrightarrow> deq q (bytes_of b) (M, w) (insert (b_id b) M, w')"
| deq_qget: "qget q w = (Inr (Some b), w') \<Longrightarrow> deq q (bytes_of b) (M, w) (insert (b_id b) M, w')"
| deq_qconsume: "qconsume q len w = (Inr (n, x), w') \<Longrightarrow> 0 \<le> len \<Longrightarrow> deq q x (M, w) (M, w')"
| deq_qdiscard: "qdiscard q len w = (Inr n, w') \<Longrightarrow> 0 \<le> len \<Longrightarrow> kqueues w q = Some r \<Longrightarrow> deq q (take (nat n) (data (bfirst r))) (M, w) (M, w')"

definition contents :: "nat \<Rightarrow> nat set \<times> world \<Rightarrow> bytes" where
  "contents q s = (case kqueues (snd s) q of None \<Rightarrow> [] | Some r \<Rightarrow> data (bfirst r))"

text \<open>An open queue that is not a message queue and has no callbacks; nothing else goes on in the kernel.\<close>

definition stream_queue :: "nat \<Rightarrow> nat set \<times> world \<Rightarrow> bool" where
  "stream_queue q s \<longleftrightarrow> ok (fst s) (snd s) \<and> plenty (snd s) \<and> kilocks (snd s) = [] \<and> (\<forall>b. (q, b) \<notin> set (kqlocks (snd s)))
     \<and> (\<exists>r. kqueues (snd s) q = Some r \<and> quiet r (snd s) \<and> \<not> q_has Qmsg r \<and> \<not> q_has Qclosed r)"

lemma stream_queueD:
  assumes "stream_queue q (M, w)"
  obtains r where "ok M w" "plenty w" "kilocks w = []" "(q, True) \<notin> set (kqlocks w)" "(q, False) \<notin> set (kqlocks w)"
    "kqueues w q = Some r" "quiet r w" "\<not> q_has Qmsg r" "\<not> q_has Qclosed r" "contents q (M, w) = data (bfirst r)"
  using assms by (auto simp: stream_queue_def contents_def)

text \<open>An operation that leaves the queue alike leaves it a stream.\<close>

definition streams :: "nat \<Rightarrow> nat set \<Rightarrow> world \<Rightarrow> Queue \<Rightarrow> bytes \<Rightarrow> world \<Rightarrow> bool" where
  "streams q M w r d w' \<longleftrightarrow> ok M w' \<and> ctx (w'\<lparr>kqlocks := kqlocks w\<rparr>) = ctx w \<and> kenv w' = []
     \<and> (\<exists>r'. kqueues w' q = Some r' \<and> alike r r' \<and> data (bfirst r') = d)"

lemma streamsD:
  assumes "streams q M' w r d w'" and "stream_queue q (M, w)" and "kqueues w q = Some r"
  shows "stream_queue q (M', w'\<lparr>kqlocks := kqlocks w\<rparr>) \<and> contents q (M', w'\<lparr>kqlocks := kqlocks w\<rparr>) = d"
proof -
  obtain r' where r': "kqueues w' q = Some r'" "alike r r'" "data (bfirst r') = d" using assms(1) by (auto simp: streams_def)
  have c: "ctx (w'\<lparr>kqlocks := kqlocks w\<rparr>) = ctx w" and e: "kenv w' = []" "ok M' w'" using assms(1) by (auto simp: streams_def)
  have "plenty (w'\<lparr>kqlocks := kqlocks w\<rparr>) = plenty w" by (rule plenty_ctx [OF c])
  then show ?thesis
    using assms(2,3) r' c e alike_has [OF r'(2)]
    by (auto simp: stream_queue_def contents_def quiet_def ctx_def alike_def)
qed

lemma streams_same:
  assumes "streams q M' w r d w'" and "kqlocks w' = kqlocks w" and "stream_queue q (M, w)" and "kqueues w q = Some r"
  shows "stream_queue q (M', w') \<and> contents q (M', w') = d"
proof -
  have "w'\<lparr>kqlocks := kqlocks w\<rparr> = w'" using assms(2) by (cases w') simp
  then show ?thesis using streamsD [OF assms(1,3,4)] by simp
qed


lemma after_ctx: "after w w' \<Longrightarrow> ctx (w'\<lparr>kqlocks := kqlocks w\<rparr>) = ctx w" "after (locking l w) w' \<Longrightarrow> ctx (w'\<lparr>kqlocks := kqlocks w\<rparr>) = ctx w"
  by (auto simp: after_def ctx_def)

text \<open>The effects of the operations on a stream, \<open>d\<close> being its bytes afterwards.\<close>

definition becomes :: "nat \<Rightarrow> bytes \<Rightarrow> nat set \<times> world \<Rightarrow> bool" where
  "becomes q d s \<longleftrightarrow> stream_queue q s \<and> contents q s = d"

lemma becomes_streams:
  assumes "stream_queue q (M, w)" and "kqueues w q = Some r" and "streams q M' w r d w'"
  shows "becomes q d (M', w'\<lparr>kqlocks := kqlocks w\<rparr>)" and "kqlocks w' = kqlocks w \<Longrightarrow> becomes q d (M', w')"
  using streamsD [OF assms(3,1,2)] streams_same [OF assms(3) _ assms(1,2)] by (auto simp: becomes_def)

lemma stream_use:
  assumes "stream_queue q (M, w)" and "kqueues w q = Some r"
  shows "ok M w" "plenty w" "kilocks w = []" "(q, True) \<notin> set (kqlocks w)" "(q, False) \<notin> set (kqlocks w)" "quiet r w" "\<not> q_has Qmsg r"
    "\<not> q_has Qclosed r" "contents q (M, w) = data (bfirst r)" "q \<notin> set (kilocks w)" "kenv w = []" "\<not> q_kick r" "\<not> q_bypass r" "q_noblock r = 0"
  using assms by (auto simp: stream_queue_def contents_def quiet_def)

lemma wrote_becomes:
  assumes s: "stream_queue q (M, w)" "kqueues w q = Some r"
  shows "wrote M' q x r w w w' \<Longrightarrow> becomes q (data (bfirst r) @ x) (M', w')"
    and "wrote M' q x r w (locking (q, False) w) w' \<Longrightarrow> becomes q (data (bfirst r) @ x) (M', w'\<lparr>kqlocks := kqlocks w\<rparr>)"
proof -
  have st: "streams q M' w r (data (bfirst r) @ x) w'" if "wrote M' q x r w l w'" "l = w \<or> l = locking (q, False) w" for l
    using that stream_use(6) [OF s] after_ctx by (auto simp: wrote_def streams_def)
  show "becomes q (data (bfirst r) @ x) (M', w')" if "wrote M' q x r w w w'"
    using becomes_streams(2) [OF s st [OF that]] after_locks [of w w'] that by (simp add: wrote_def)
  show "becomes q (data (bfirst r) @ x) (M', w'\<lparr>kqlocks := kqlocks w\<rparr>)" if "wrote M' q x r w (locking (q, False) w) w'"
    using becomes_streams(1) [OF s st [OF that]] by simp
qed

lemma sent_becomes:
  assumes s: "stream_queue q (M, w)" "kqueues w q = Some r"
  shows "sent M' q bs r w w w' \<Longrightarrow> becomes q (data (bfirst r) @ data bs) (M', w')"
    and "sent M' q bs r w (locking (q, False) w) w' \<Longrightarrow> becomes q (data (bfirst r) @ data bs) (M', w'\<lparr>kqlocks := kqlocks w\<rparr>)"
proof -
  have st: "streams q M' w r (data (bfirst r) @ data bs) w'" if "sent M' q bs r w l w'" "l = w \<or> l = locking (q, False) w" for l
    using that stream_use(6) [OF s] after_ctx by (auto simp: sent_def streams_def extended_def quiet_def)
  show "becomes q (data (bfirst r) @ data bs) (M', w')" if "sent M' q bs r w w w'"
    using becomes_streams(2) [OF s st [OF that]] after_locks [of w w'] that by (simp add: sent_def)
  show "becomes q (data (bfirst r) @ data bs) (M', w'\<lparr>kqlocks := kqlocks w\<rparr>)" if "sent M' q bs r w (locking (q, False) w) w'"
    using becomes_streams(1) [OF s st [OF that]] by simp
qed

lemma changed_becomes:
  assumes s: "stream_queue q (M, w)" "kqueues w q = Some r" and c: "changed M' q r' w w'" "alike r r'"
  shows "becomes q (data (bfirst r')) (M', w')"
proof -
  have "streams q M' w r (data (bfirst r')) w'"
    using c stream_use(11) [OF s] changed_at [OF c(1)] by (auto simp: streams_def changed_def ctx_def)
  then show ?thesis using becomes_streams(2) [OF s] changed_locks [OF c(1)] by simp
qed

lemma iwrote_becomes:
  assumes s: "stream_queue q (M, w)" "kqueues w q = Some r" and i: "iwrote M' q x r w w'"
  shows "becomes q (data (bfirst r) @ x) (M', w')"
proof -
  have "streams q M' w r (data (bfirst r) @ x) w'"
    using i stream_use(11,12) [OF s] after_ctx by (auto simp: streams_def iwrote_def)
  then show ?thesis using becomes_streams(2) [OF s] after_locks [of w w'] i by (simp add: iwrote_def)
qed

lemma qwrite_becomes:
  assumes s: "stream_queue q (M, w)" "kqueues w q = Some r"
  shows "wp (qwrite q p) (\<lambda>n w'. n = int (length p) \<and> becomes q (data (bfirst r) @ p) (M, w'))
     (\<lambda>e w'. e = Blocked \<and> (length p \<le> Maxatomic \<longrightarrow> q_len r sdiv 2 < q_limit r \<longrightarrow> full_flow q w'
       \<and> becomes q (data (bfirst r) @ p) (M, w'\<lparr>kqlocks := kqlocks w\<rparr>))) w"
proof -
  note u = stream_use [OF s]
  show ?thesis
  proof (rule qwrite_wp [OF u(1) s(2) u(3,5)])
    fix k w' assume a: "wrote M q (take k p) r w w w'" "quiet r w \<Longrightarrow> k = whole p r \<and> \<not> q_has Qclosed r"
    then have "k = length p" using u(6,7) by (simp add: whole_def)
    then show "int (length p) = int (length p) \<and> becomes q (data (bfirst r) @ p) (M, w')" using wrote_becomes(1) [OF s a(1)] by simp
  next
    fix e w' assume "refused M q e r w w'"
    then show "Error e = Blocked \<and> (length p \<le> Maxatomic \<longrightarrow> q_len r sdiv 2 < q_limit r \<longrightarrow> full_flow q w'
       \<and> becomes q (data (bfirst r) @ p) (M, w'\<lparr>kqlocks := kqlocks w\<rparr>))" using u(6,8) by (simp add: refused_def)
  next
    fix k w' assume a: "wrote M q (take k p) r w (locking (q, False) w) w'" "full_flow q w'"
      "length p \<le> Maxatomic \<Longrightarrow> k = length p \<or> k = 0 \<and> q_limit r \<le> q_len r sdiv 2"
    show "Blocked = Blocked \<and> (length p \<le> Maxatomic \<longrightarrow> q_len r sdiv 2 < q_limit r \<longrightarrow> full_flow q w'
       \<and> becomes q (data (bfirst r) @ p) (M, w'\<lparr>kqlocks := kqlocks w\<rparr>))"
      using wrote_becomes(2) [OF s a(1)] a(2,3) by auto
  qed (use u(2) in simp)
qed

text \<open>A \<^verbatim>\<open>qwrite\<close> that finds the queue twice over its limit sleeps before it queues anything.\<close>

lemma qwrite_bloated:
  assumes s: "stream_queue q (M, w)" "kqueues w q = Some r" and bloat: "q_limit r \<le> q_len r sdiv 2"
  shows "wp (qwrite q p) (\<lambda>_ _. False)
     (\<lambda>e w'. e = Blocked \<and> full_flow q w' \<and> becomes q (data (bfirst r)) (M, w'\<lparr>kqlocks := kqlocks w\<rparr>)) w"
proof -
  note u = stream_use [OF s]
  have "0 \<le> q_len r" using ok_qinv [OF u(1) s(2)]
    by (auto simp: qinv_def blockalloclen_def BALLOC_def intro!: sum_list_nonneg)
  then have "q_len r sdiv 2 \<le> q_len r" by (cases "q_len r = 0") (auto simp: signed_divide_int_def)
  then have full: "\<not> unthrottled r" using bloat u(8,14) by (simp add: unthrottled_def qnotfull_def)
  have "wp (patient_qflow (length (kenv w)) q) (\<lambda>_. wp (qwrite_loop (length p) q p 0) (\<lambda>_ _. False)
     (\<lambda>e w'. e = Blocked \<and> full_flow q w' \<and> becomes q (data (bfirst r)) (M, w'\<lparr>kqlocks := kqlocks w\<rparr>)))
     (\<lambda>e w'. e = Blocked \<and> full_flow q w' \<and> becomes q (data (bfirst r)) (M, w'\<lparr>kqlocks := kqlocks w\<rparr>)) w"
  proof (rule patient_qflow_wp [OF u(1) after_refl s(2) u(3,5) order_refl])
    fix w' assume a: "ok M w'" "after (locking (q, False) w) w'" "full_flow q w'"
      "kenv w = [] \<Longrightarrow> kenv w' = [] \<and> kqueues w' = (kqueues w)(q \<mapsto> q_raise Qflow r)"
    then have "wrote M q [] r w (locking (q, False) w) w'"
      using u(11) by (auto simp: wrote_def intro!: exI [of _ "q_raise Qflow r"])
    then show "Blocked = Blocked \<and> full_flow q w' \<and> becomes q (data (bfirst r)) (M, w'\<lparr>kqlocks := kqlocks w\<rparr>)"
      using wrote_becomes(2) [OF s, of M "[]"] a(3) by simp
  qed (use u(11) full in auto)
  then show ?thesis using s(2) bloat u(13,14) by (auto simp: qwrite_def wp_flow wp_qf wp_only_if)
qed

lemma qbwrite_becomes:
  assumes s: "stream_queue q (M, w)" "kqueues w q = Some r" and bs: "chain bs" "bs \<noteq> []" "ids bs \<subseteq> M"
  shows "wp (qbwrite q bs) (\<lambda>n w'. n = blocklen bs \<and> becomes q (data (bfirst r) @ data bs) (M - ids bs, w'))
     (\<lambda>e w'. e = Blocked \<and> becomes q (data (bfirst r) @ data bs) (M - ids bs, w'\<lparr>kqlocks := kqlocks w\<rparr>)) w"
proof -
  note u = stream_use [OF s]
  have M: "ok (M - ids bs \<union> ids bs) w" "ids bs \<inter> (M - ids bs) = {}" using bs(3) u(1) by (auto simp: Un_absorb2)
  show ?thesis
    by (rule qbwrite_wp [OF M(1) s(2) u(3,5) bs(1,2) M(2)]) (use u(8,11,13,14) sent_becomes [OF s] in auto)
qed

lemma qpass_becomes:
  assumes s: "stream_queue q (M, w)" "kqueues w q = Some r" and bs: "chain bs" "bs \<noteq> []" "ids bs \<subseteq> M"
  shows "wp (qpass q bs) (\<lambda>n w'. becomes q (data (bfirst r) @ (if n = -1 then [] else data bs)) (M - ids bs, w')) (\<lambda>_ _. False) w"
    and "wp (qpassnolim q bs) (\<lambda>n w'. becomes q (data (bfirst r) @ data bs) (M - ids bs, w')) (\<lambda>_ _. False) w"
proof -
  note u = stream_use [OF s]
  have M: "ok (M - ids bs \<union> ids bs) w" "ids bs \<inter> (M - ids bs) = {}" using bs(3) u(1) by (auto simp: Un_absorb2)
  have nn: "blocklen bs \<noteq> -1" using blocklen_nonneg [OF bs(1)] by simp
  show "wp (qpass q bs) (\<lambda>n w'. becomes q (data (bfirst r) @ (if n = -1 then [] else data bs)) (M - ids bs, w')) (\<lambda>_ _. False) w"
    by (rule qpass_wp [OF M(1) s(2) u(10) bs(1,2) M(2)])
      (use u(8) changed_becomes [OF s, of "M - ids bs" r] changed_becomes [OF s] nn in auto, metis data_simps(3))
  show "wp (qpassnolim q bs) (\<lambda>n w'. becomes q (data (bfirst r) @ data bs) (M - ids bs, w')) (\<lambda>_ _. False) w"
    by (rule qpassnolim_wp [OF M(1) s(2) u(10) bs(1,2) M(2)])
      (use u(8) changed_becomes [OF s] in auto, metis data_simps(3))
qed

lemma qproduce_becomes:
  assumes s: "stream_queue q (M, w)" "kqueues w q = Some r" and "length p + 23 < 2 ^ 31"
  shows "wp (qproduce q p) (\<lambda>n w'. n \<noteq> -1 \<longrightarrow> becomes q (data (bfirst r) @ p) (M, w')) (\<lambda>_ _. False) w"
proof -
  note u = stream_use [OF s]
  show ?thesis
    by (rule qproduce_wp [OF u(1) s(2) u(10) assms(3)])
      (use u(2) changed_becomes [OF s, of M] in auto, metis append.right_neutral data_simps(1,2,3))
qed

text \<open>A size that wraps in \<^verbatim>\<open>_allocb\<close> gives a block the bytes do not fit in: \<^verbatim>\<open>qproduce\<close> queues nothing.\<close>

lemma qproduce_wraps:
  assumes "plenty w" and "length p < 2 ^ 31" and "qproduce q p w = (Inr n, w')" and "n \<noteq> -1"
  shows "length p + 23 < 2 ^ 31"
proof (rule ccontr)
  assume "\<not> ?thesis"
  then have sz: "2 ^ 31 \<le> int (length p) + 23" "int (length p) < 2 ^ 31" "0 < length p" using assms(2) by auto
  obtain b w1 where b: "iallocb (int (length p)) w = (Inr (Some b), w1)" "BALLOC b \<le> b_wp b"
    using assms(3) try_allocb_plenty [OF assms(1)] try_allocb_wraps [OF sz(1,2), of w]
    by (auto simp: qproduce_def Let_def iallocb_def and_then_def ret_def BALLOC_def split: prod.splits sum.splits option.splits)
  then have "\<not> b_wp b + int (length p) \<le> BALLOC b" using sz(3) by linarith
  then have f: "bput b p = raise Fault" by (simp add: bput_def)
  show False
    using assms(3,4) b(1) by (auto simp: qproduce_def Let_def and_then_def seq_def f ret_def raise_def split: prod.splits sum.splits if_splits)
qed

lemma reads_split:
  assumes "reads len r x r'" and "\<not> q_has Qmsg r"
  shows "data (bfirst r) = x @ data (bfirst r')"
proof -
  have "data (bfirst r) = data (cut len r) @ data (drop (length (cut len r)) (bfirst r))"
    using cut_prefix [of len r] by (metis data_simps(3))
  then show ?thesis using assms by (simp add: reads_def)
qed

lemma qread_becomes:
  assumes s: "stream_queue q (M, w)" "kqueues w q = Some r" and "0 \<le> len"
  shows "wp (qread q len) (\<lambda>x w'. \<exists>d. data (bfirst r) = x @ d \<and> becomes q d (M, w')) (\<lambda>e w'. e = Blocked \<and> hungry M q r (locking (q, True) w) w') w"
proof -
  note u = stream_use [OF s]
  have p: "prompt r w" using u(11) by (simp add: prompt_def)
  show ?thesis
  proof (rule qread_wp [OF u(1) s(2) u(3,4) assms(3)])
    fix x w' assume "got M q len r w x w'"
    then obtain r1 r2 where g: "ok M w'" "after w w'" "reads len r1 x r2" "same r r1" "kqueues w' = (kqueues w)(q \<mapsto> r2)" "kenv w' = kenv w"
      using p u(12) by (auto simp: got_def)
    have m: "\<not> q_has Qmsg r1" "alike r r2" using g(3,4) u(7) alike_has(2) [of r r1] alike_trans [of r r1 r2] by (auto simp: same_def reads_def)
    have "streams q M w r (data (bfirst r2)) w'" using g m u(11) after_ctx(1) by (auto simp: streams_def)
    then have "becomes q (data (bfirst r2)) (M, w')" using becomes_streams(2) [OF s] after_locks [OF g(2)] by simp
    moreover have "data (bfirst r) = x @ data (bfirst r2)" using reads_split [OF g(3) m(1)] g(4) by (simp add: same_def)
    ultimately show "\<exists>d. data (bfirst r) = x @ d \<and> becomes q d (M, w')" by blast
  qed (use p u(2,8) in \<open>auto simp: eof_seen_def interrupted_def\<close>)
qed

lemma qbread_becomes:
  assumes s: "stream_queue q (M, w)" "kqueues w q = Some r" and "0 \<le> len"
  shows "wp (qbread q len) (\<lambda>b w'. \<exists>b' d. b = Some b' \<and> data (bfirst r) = bytes_of b' @ d \<and> becomes q d (insert (b_id b') M, w'))
    (\<lambda>e w'. e = Blocked \<and> hungry M q r (locking (q, True) w) w') w"
proof -
  note u = stream_use [OF s]
  have p: "prompt r w" using u(11) by (simp add: prompt_def)
  show ?thesis
  proof (rule qbread_wp [OF u(1) s(2) u(3,4) assms(3)])
    fix b w' assume "bgot M q len r w b w'"
    then obtain r2 where g: "ok (insert (b_id b) M) w'" "after w w'" "breads len r b r2" "kqueues w' = (kqueues w)(q \<mapsto> r2)" "kenv w' = kenv w"
      using u(11,12) by (auto simp: bgot_def)
    have "streams q (insert (b_id b) M) w r (data (bfirst r2)) w'" using g u(11) after_ctx(1) by (auto simp: streams_def breads_def)
    then have "becomes q (data (bfirst r2)) (insert (b_id b) M, w')" using becomes_streams(2) [OF s] after_locks [OF g(2)] by simp
    moreover have "data (bfirst r) = bytes_of b @ data (bfirst r2)" using g(3) u(7) by (auto simp: breads_def)
    ultimately show "\<exists>b' d. Some b = Some b' \<and> data (bfirst r) = bytes_of b' @ d \<and> becomes q d (insert (b_id b') M, w')" by blast
  qed (use p u(2,8) in \<open>auto simp: eof_seen_def interrupted_def\<close>)
qed

lemma qget_becomes:
  assumes s: "stream_queue q (M, w)" "kqueues w q = Some r"
  shows "wp (qget q) (\<lambda>b w'. \<forall>b'. b = Some b' \<longrightarrow> (\<exists>d. data (bfirst r) = bytes_of b' @ d \<and> becomes q d (insert (b_id b') M, w'))) (\<lambda>_ _. False) w"
proof -
  note u = stream_use [OF s]
  show ?thesis
    by (rule qget_wp [OF u(1) s(2) u(10)]) (use changed_becomes [OF s] in auto)
qed

lemma qconsume_becomes:
  assumes s: "stream_queue q (M, w)" "kqueues w q = Some r" and "0 \<le> len"
  shows "wp (qconsume q len) (\<lambda>(n, x) w'. \<exists>d. data (bfirst r) = x @ d \<and> becomes q d (M, w')) (\<lambda>_ _. False) w"
proof -
  note u = stream_use [OF s]
  show ?thesis
  proof (rule qconsume_wp [OF u(1) s(2) u(10) assms(3)])
    fix r' w' assume "changed M q r' w w'" "alike r r'" "data (bfirst r) = []" "bfirst r' = []"
    then show "(case (-1, []) of (n, x) \<Rightarrow> \<lambda>w'. \<exists>d. data (bfirst r) = x @ d \<and> becomes q d (M, w')) w'"
      using changed_becomes [OF s, of M r' w'] by simp
  next
    fix b nxt r' w' assume a: "changed M q r' w w'" "alike r r'" "data (bfirst r) = data (b # nxt)"
      "data (bfirst r') = (if q_has Qmsg r then data nxt else drop (nat len) (bytes_of b) @ data nxt)"
    then show "(case (min len (BLEN b), take (nat len) (bytes_of b)) of (n, x) \<Rightarrow> \<lambda>w'. \<exists>d. data (bfirst r) = x @ d \<and> becomes q d (M, w')) w'"
      using changed_becomes [OF s a(1,2)] u(7) by (auto intro!: exI [of _ "data (bfirst r')"])
  qed
qed

lemma qdiscard_becomes:
  assumes s: "stream_queue q (M, w)" "kqueues w q = Some r" and "0 \<le> len"
  shows "wp (qdiscard q len) (\<lambda>n w'. \<exists>d. data (bfirst r) = take (nat n) (data (bfirst r)) @ d \<and> becomes q d (M, w')) (\<lambda>_ _. False) w"
proof -
  note u = stream_use [OF s]
  show ?thesis
  proof (rule qdiscard_wp [OF u(1) s(2) u(10) assms(3)])
    fix n r' w' assume a: "changed M q r' w w'" "alike r r'" "data (bfirst r') = drop (nat n) (data (bfirst r))"
    then show "\<exists>d. data (bfirst r) = take (nat n) (data (bfirst r)) @ d \<and> becomes q d (M, w')"
      using changed_becomes [OF s a(1,2)] by (intro exI [of _ "data (bfirst r')"]) simp
  qed
qed

text \<open>The laws of a byte queue.\<close>

lemma wp_run: "wp m Q E w \<Longrightarrow> m w = (Inr x, w') \<Longrightarrow> Q x w'" "wp m Q E w \<Longrightarrow> m w = (Inl e, w') \<Longrightarrow> E e w'"
  by (auto simp: wp_def)

lemma iwrite_becomes:
  assumes s: "stream_queue q (M, w)" "kqueues w q = Some r"
  shows "wp (qiwrite q p) (\<lambda>n w'. becomes q (data (bfirst r) @ take (nat n) p) (M, w')) (\<lambda>_ _. False) w"
proof -
  note u = stream_use [OF s]
  show ?thesis by (rule qiwrite_wp [OF u(1) s(2) u(10)]) (use iwrote_becomes [OF s] u(2) in auto)
qed

lemma enq_law:
  assumes "enq q x s s'" and "stream_queue q s"
  shows "becomes q (contents q s @ x) s'"
proof -
  obtain M w where sw: "s = (M, w)" by (cases s)
  have s: "stream_queue q (M, w)" using assms(2) sw by simp
  obtain r where r: "kqueues w q = Some r" using s by (auto simp: stream_queue_def)
  have cs: "contents q s = data (bfirst r)" using stream_use(9) [OF s r] sw by simp
  show ?thesis
    using assms(1) [unfolded sw]
  proof cases
    case (enq_qwrite n w')
    then show ?thesis using wp_run(1) [OF qwrite_becomes [OF s r]] cs by simp
  next
    case (enq_qwrite_asleep w' r')
    then show ?thesis using wp_run(2) [OF qwrite_becomes [OF s r]] cs r by simp
  next
    case (enq_qbwrite bs n w')
    then show ?thesis using wp_run(1) [OF qbwrite_becomes [OF s r]] cs by simp
  next
    case (enq_qbwrite_asleep bs w')
    then show ?thesis using wp_run(2) [OF qbwrite_becomes [OF s r]] cs by simp
  next
    case (enq_qiwrite p n w')
    then show ?thesis using wp_run(1) [OF iwrite_becomes [OF s r]] cs by simp
  next
    case (enq_qpass bs n w')
    then show ?thesis using wp_run(1) [OF qpass_becomes(1) [OF s r]] cs by simp
  next
    case (enq_qpassnolim bs n w')
    then show ?thesis using wp_run(1) [OF qpass_becomes(2) [OF s r]] cs by simp
  next
    case (enq_qproduce n w')
    from qproduce_wraps [OF _ enq_qproduce(4,2,3)] stream_use(2) [OF s r] have "length x + 23 < 2 ^ 31" by blast
    then show ?thesis using enq_qproduce wp_run(1) [OF qproduce_becomes [OF s r]] cs by simp
  qed
qed

lemma deq_law:
  assumes "deq q x s s'" and "stream_queue q s"
  shows "\<exists>d. contents q s = x @ d \<and> becomes q d s'"
proof -
  obtain M w where sw: "s = (M, w)" by (cases s)
  have s: "stream_queue q (M, w)" using assms(2) sw by simp
  obtain r where r: "kqueues w q = Some r" using s by (auto simp: stream_queue_def)
  have cs: "contents q s = data (bfirst r)" using stream_use(9) [OF s r] sw by simp
  show ?thesis
    using assms(1) [unfolded sw]
  proof cases
    case (deq_qread len w')
    then show ?thesis using wp_run(1) [OF qread_becomes [OF s r]] cs by simp
  next
    case (deq_qbread len b w')
    then show ?thesis using wp_run(1) [OF qbread_becomes [OF s r] deq_qbread(3)] cs by auto
  next
    case (deq_qget b w')
    then show ?thesis using wp_run(1) [OF qget_becomes [OF s r] deq_qget(3)] cs by auto
  next
    case (deq_qconsume len n w')
    then show ?thesis using wp_run(1) [OF qconsume_becomes [OF s r] deq_qconsume(2)] cs by auto
  next
    case (deq_qdiscard len n w' r')
    then show ?thesis using wp_run(1) [OF qdiscard_becomes [OF s r]] cs r by simp
  qed
qed

interpretation kqueue: byte_queue "stream_queue q" "contents q" "enq q" "deq q" for q
proof
  fix s s' x assume "stream_queue q s" "enq q x s s'"
  then show "stream_queue q s'" "contents q s' = contents q s @ x" using enq_law by (auto simp: becomes_def)
next
  fix s s' x assume "stream_queue q s" "deq q x s s'"
  then show "stream_queue q s'" "contents q s = x @ contents q s'" using deq_law by (fastforce simp: becomes_def)+
qed

section \<open>Properties\<close>

text \<open>A state with one queue, for the examples.\<close>

definition sample_queue :: "u32 \<Rightarrow> int \<Rightarrow> Block list \<Rightarrow> Queue" where
  "sample_queue fl lim bs = \<lparr>bfirst = bs, blast = (if bs = [] then 0 else b_id (last bs)), q_len = blockalloclen bs,
     q_dlen = blocklen bs, q_limit = lim, q_inilim = lim, q_state = fl, q_noblock = 0, q_eof = 0, q_kick = False, q_bypass = False, q_err = []\<rparr>"

definition sample :: "u32 \<Rightarrow> int \<Rightarrow> Block list \<Rightarrow> world" where
  "sample fl lim bs = calm 100 (ids bs) [50 \<mapsto> sample_queue fl lim bs]"

lemma sample_ok:
  assumes "chain bs" and "\<And>i. i \<in> ids bs \<Longrightarrow> i < 100"
  shows "ok {} (sample fl lim bs)"
proof -
  have "qinv (sample_queue fl lim bs)" using assms(1) by (simp add: qinv_def sample_queue_def)
  moreover have "queued (sample fl lim bs) = ids bs" by (simp add: queued_def sample_def calm_def sample_queue_def)
  ultimately have "kinv (sample fl lim bs) {}"
    using assms(2) by (intro kinvI) (auto simp: sample_def calm_def good_malloc_def split: if_splits)
  then show ?thesis by (simp add: ok_def sample_def)
qed

lemma sample_simps [simp]: "kqueues (sample fl lim bs) = [50 \<mapsto> sample_queue fl lim bs]" "kilocks (sample fl lim bs) = []"
  "kqlocks (sample fl lim bs) = []" "kenv (sample fl lim bs) = []" "plenty (sample fl lim bs)" "ktrace (sample fl lim bs) = []"
  "kcalls (sample fl lim bs) = 100"
  by (simp_all add: sample_def plenty_def) (simp_all add: calm_def)

lemma sample_queue_simps [simp]: "bfirst (sample_queue fl lim bs) = bs" "q_kick (sample_queue fl lim bs) = False"
  "q_bypass (sample_queue fl lim bs) = False" "q_noblock (sample_queue fl lim bs) = 0" "q_has f (sample_queue fl lim bs) = bit fl f"
  "q_len (sample_queue fl lim bs) = blockalloclen bs" "q_limit (sample_queue fl lim bs) = lim" "q_eof (sample_queue fl lim bs) = 0"
  "q_err (sample_queue fl lim bs) = []"
  by (simp_all add: sample_queue_def q_has_def)

text \<open>
  C9. The queues are first in, first out, and lose nothing: whatever mix of \<^verbatim>\<open>qwrite\<close>, \<^verbatim>\<open>qbwrite\<close>,
  \<^verbatim>\<open>qiwrite\<close>, \<^verbatim>\<open>qpass\<close>, \<^verbatim>\<open>qpassnolim\<close> and \<^verbatim>\<open>qproduce\<close> puts bytes into an open queue without message
  boundaries and of \<^verbatim>\<open>qread\<close>, \<^verbatim>\<open>qbread\<close>, \<^verbatim>\<open>qget\<close>, \<^verbatim>\<open>qconsume\<close> and \<^verbatim>\<open>qdiscard\<close> takes them out, with writers
  asleep in flow control or not, what was there and what was put is what was taken followed by what
  is still there; and the queue, its counters and the ownership of all blocks stay well-formed.
\<close>

theorem kqueue_fifo:
  assumes "history (enq q) (deq q) s ins outs s'" and "stream_queue q s"
  shows "stream_queue q s' \<and> contents q s @ ins = outs @ contents q s'"
  using kqueue.fifo [OF assms] .

lemma stream_sample:
  assumes "chain bs" and "\<And>i. i \<in> ids bs \<Longrightarrow> i < 100"
  shows "stream_queue 50 ({}, sample 0 1000 bs)"
  using sample_ok [OF assms, of 0 1000] by (auto simp: stream_queue_def quiet_def flag_numbers)

lemma write_goes:
  assumes s: "stream_queue q (M, w)" "kqueues w q = Some r" and "length p \<le> Maxatomic" "q_len r sdiv 2 < q_limit r"
  shows "\<exists>s'. enq q p (M, w) s'"
proof -
  obtain res w' where run: "qwrite q p w = (res, w')" by (cases "qwrite q p w")
  show ?thesis
  proof (cases res)
    case (Inl e)
    then have "e = Blocked" using wp_run(2) [OF qwrite_becomes [OF s]] run by simp
    then show ?thesis using enq_qwrite_asleep [OF _ assms(3) s(2) assms(4)] run Inl by blast
  next
    case (Inr n)
    then show ?thesis using enq_qwrite run by blast
  qed
qed

theorem kqueue_fifo_witness:
  "\<exists>s'. history (enq 50) (deq 50) ({}, sample 0 1000 [blk 1 [1, 2]]) [3] [1] s' \<and> contents 50 s' = [2, 3]"
proof -
  let ?s = "({}, sample 0 1000 [blk 1 [1, 2]])"
  have s: "stream_queue 50 ?s" by (rule stream_sample) simp_all
  have c: "contents 50 ?s = [1, 2]" by (simp add: contents_def)
  have "q_len (sample_queue 0 1000 [blk 1 [1, 2]]) sdiv 2 < q_limit (sample_queue 0 1000 [blk 1 [1, 2]])"
    by (simp add: signed_divide_int_def)
  then obtain M w where e: "enq 50 [3] ?s (M, w)" using write_goes [OF s, of "sample_queue 0 1000 [blk 1 [1, 2]]" "[3]"] by auto
  then have s1: "stream_queue 50 (M, w)" and c1: "contents 50 (M, w) = [1, 2, 3]"
    using enq_law [OF e s] c by (simp_all add: becomes_def)
  obtain r where r: "kqueues w 50 = Some r" using s1 by (auto simp: stream_queue_def)
  note u = stream_use [OF s1 r]
  have c2: "chain (bfirst r)" "data (bfirst r) = [1, 2, 3]" using ok_qinv [OF u(1) r] c1 u(9) by (auto simp: qinv_def)
  have "blocklen (bfirst r) = 3" using length_data [OF c2(1), unfolded c2(2)] by simp
  then have "wp (qdiscard 50 1) (\<lambda>n w'. n = 1) (\<lambda>_ _. False) w"
    using u by (intro qdiscard_wp [OF u(1) r u(10)]) auto
  then obtain w' where w': "qdiscard 50 1 w = (Inr 1, w')" by (auto simp: wp_total_iff)
  have d: "deq 50 [1] (M, w) (M, w')" using deq_qdiscard [OF w' _ r, of M] c1 u(9) by simp
  have h: "history (enq 50) (deq 50) ?s [3] [1] (M, w')"
    using history_get [OF history_put [OF history_start [of "enq 50" "deq 50" ?s] e], of "[1]" "(M, w')"] d by simp
  then have "contents 50 (M, w') = [2, 3]" using kqueue_fifo [OF h s] c by simp
  then show ?thesis using h by blast
qed

text \<open>
  C10. \<^verbatim>\<open>qread\<close> on a coalescing queue that holds data does not sleep: it returns the first \<open>len\<close> bytes, across
  block boundaries, leaves exactly the rest, frees the blocks it emptied and gives back its locks.
\<close>

theorem qread_stream:
  assumes "ok M w" and "kqueues w q = Some r" and "kilocks w = []" and "(q, True) \<notin> set (kqlocks w)" and "0 \<le> len"
    and "plenty w" and "\<not> q_kick r" and "q_has Qcoalesce r" and "\<not> q_has Qmsg r" and "data (bfirst r) \<noteq> []"
  shows "\<exists>w' r'. qread q len w = (Inr (take (nat len) (data (bfirst r))), w') \<and> kqueues w' = (kqueues w)(q \<mapsto> r')
    \<and> data (bfirst r') = drop (nat len) (data (bfirst r)) \<and> alike r r' \<and> ok M w' \<and> ctx w' = ctx w"
proof -
  have rd: "ready r" "prompt r w" using assms(8,10) by (auto simp: ready_def prompt_def)
  have "wp (qread q len) (\<lambda>x w'. got M q len r w x w') (\<lambda>_ _. False) w"
    by (rule qread_wp [OF assms(1-5)]) (use rd assms(6) in \<open>auto simp: eof_seen_def interrupted_def hungry_def\<close>)
  then obtain x w' where run: "qread q len w = (Inr x, w')" and g: "got M q len r w x w'" by (auto simp: wp_total_iff)
  from g rd(2) assms(7) obtain r1 r2 where r: "chain (bfirst r1)" "reads len r1 x r2" "same r r1" "kqueues w' = (kqueues w)(q \<mapsto> r2)"
    "ok M w'" "after w w'" by (auto simp: got_def)
  have fl: "q_has Qcoalesce r1" "\<not> q_has Qmsg r1" "data (bfirst r1) = data (bfirst r)" "alike r r2"
    using r(2,3) assms(8,9) alike_has [of r r1] alike_trans [of r r1 r2] by (auto simp: same_def reads_def)
  have x: "x = take (nat len) (data (bfirst r))" using r(2) fl take_taken [OF r(1), of len] by (simp add: reads_def cut_def)
  have "data (bfirst r) = x @ data (bfirst r2)" using reads_split [OF r(2) fl(2)] fl(3) by simp
  moreover have "length x = min (nat len) (length (data (bfirst r)))" using x by simp
  ultimately have "data (bfirst r2) = drop (nat len) (data (bfirst r))"
    using x by (metis append_take_drop_id same_append_eq)
  then show ?thesis using run r(4-6) fl(4) x by (auto simp: after_def)
qed

theorem qread_stream_witness:
  "\<exists>w' r'. qread 50 3 (sample 16 1000 [blk 1 [1, 2], blk 2 [3, 4]]) = (Inr [1, 2, 3], w')
    \<and> kqueues w' 50 = Some r' \<and> data (bfirst r') = [4] \<and> ok {} w'"
proof -
  let ?bs = "[blk 1 [1, 2], blk 2 [3, 4]]"
  have "ok {} (sample 16 1000 ?bs)" by (rule sample_ok) auto
  moreover have "q_has Qcoalesce (sample_queue 16 1000 ?bs)" "\<not> q_has Qmsg (sample_queue 16 1000 ?bs)" by (simp_all add: flag_numbers)
  ultimately show ?thesis using qread_stream [of "{}" "sample 16 1000 ?bs" 50 "sample_queue 16 1000 ?bs" 3] by force
qed

text \<open>
  On a message queue \<^verbatim>\<open>qread\<close> keeps to message boundaries: it returns the first \<open>len\<close> bytes of the first
  block only, what does not fit is thrown away, and the messages behind it are untouched.
\<close>

theorem qread_message:
  assumes "ok M w" and "kqueues w q = Some r" and "kilocks w = []" and "(q, True) \<notin> set (kqlocks w)" and "0 \<le> len"
    and "plenty w" and "\<not> q_kick r" and "q_has Qmsg r" and "\<not> q_has Qcoalesce r" and "bfirst r = b # nxt"
  shows "\<exists>w' r'. qread q len w = (Inr (take (nat len) (bytes_of b)), w') \<and> kqueues w' = (kqueues w)(q \<mapsto> r')
    \<and> data (bfirst r') = data nxt \<and> alike r r' \<and> ok M w' \<and> ctx w' = ctx w"
proof -
  have rd: "ready r" "prompt r w" using assms(9,10) by (auto simp: ready_def prompt_def)
  have "wp (qread q len) (\<lambda>x w'. got M q len r w x w') (\<lambda>_ _. False) w"
    by (rule qread_wp [OF assms(1-5)]) (use rd assms(6) in \<open>auto simp: eof_seen_def interrupted_def hungry_def\<close>)
  then obtain x w' where run: "qread q len w = (Inr x, w')" and g: "got M q len r w x w'" by (auto simp: wp_total_iff)
  from g rd(2) assms(7) obtain r1 r2 where r: "reads len r1 x r2" "same r r1" "kqueues w' = (kqueues w)(q \<mapsto> r2)" "ok M w'" "after w w'"
    by (auto simp: got_def)
  have fl: "\<not> q_has Qcoalesce r1" "q_has Qmsg r1" "bfirst r1 = b # nxt" "alike r r2"
    using r(1,2) assms(8-10) alike_has [of r r1] alike_trans [of r r1 r2] by (auto simp: same_def reads_def)
  have "x = take (nat len) (bytes_of b)" "data (bfirst r2) = data nxt" using r(1) fl by (auto simp: reads_def cut_def)
  then show ?thesis using run r(3-5) fl(4) by (auto simp: after_def)
qed

theorem qread_message_witness:
  "\<exists>w' r'. qread 50 2 (sample 2 1000 [blk 1 [1, 2, 3], blk 2 [4, 5]]) = (Inr [1, 2], w')
    \<and> kqueues w' 50 = Some r' \<and> data (bfirst r') = [4, 5] \<and> ok {} w'"
proof -
  let ?bs = "[blk 1 [1, 2, 3], blk 2 [4, 5]]"
  have "ok {} (sample 2 1000 ?bs)" by (rule sample_ok) auto
  moreover have "q_has Qmsg (sample_queue 2 1000 ?bs)" "\<not> q_has Qcoalesce (sample_queue 2 1000 ?bs)" by (simp_all add: flag_numbers)
  ultimately show ?thesis
    using qread_message [of "{}" "sample 2 1000 ?bs" 50 "sample_queue 2 1000 ?bs" 2 "blk 1 [1, 2, 3]" "[blk 2 [4, 5]]"] by force
qed


text \<open>
  C11. \<^verbatim>\<open>qread\<close> in any surroundings: while it sleeps, other processes, interrupts and callbacks may do
  anything that keeps the kernel's invariant. Given memory it never faults or panics; when it
  returns, or raises an error because it was interrupted or the queue was hung up, it holds no block and
  no lock it did not hold before; and if it never wakes up, its queue is empty and open, and says so.
\<close>

theorem qread_safe:
  assumes "ok M w" and "q \<in> dom (kqueues w)" and "kilocks w = []" and "(q, True) \<notin> set (kqlocks w)" and "0 \<le> len" and "plenty w"
  shows "case qread q len w of
      (Inr x, w') \<Rightarrow> ok M w' \<and> ctx w' = ctx w \<and> int (length x) \<le> len
    | (Inl (Error e), w') \<Rightarrow> ok M w' \<and> ctx w' = ctx w
        \<and> (e = Eintr \<or> (\<exists>r'. kqueues w' q = Some r' \<and> q_has Qclosed r' \<and> bfirst r' = [] \<and> e = q_err r'))
    | (Inl Blocked, w') \<Rightarrow> ok M w' \<and> ctx w' = ctx (w\<lparr>kqlocks := (q, True) # kqlocks w\<rparr>) \<and> kenv w' = []
        \<and> (\<exists>r'. kqueues w' q = Some r' \<and> bfirst r' = [] \<and> \<not> q_has Qclosed r' \<and> q_has Qstarve r')
    | (Inl _, w') \<Rightarrow> False"
proof -
  obtain r where r: "kqueues w q = Some r" using assms(2) by auto
  let ?E = "\<lambda>e w'. case e of Error e \<Rightarrow> ok M w' \<and> ctx w' = ctx w \<and> (e = Eintr \<or>
       (\<exists>r'. kqueues w' q = Some r' \<and> q_has Qclosed r' \<and> bfirst r' = [] \<and> e = q_err r'))
    | Blocked \<Rightarrow> ok M w' \<and> ctx w' = ctx (w\<lparr>kqlocks := (q, True) # kqlocks w\<rparr>) \<and> kenv w' = []
        \<and> (\<exists>r'. kqueues w' q = Some r' \<and> bfirst r' = [] \<and> \<not> q_has Qclosed r' \<and> q_has Qstarve r') | _ \<Rightarrow> False"
  have "wp (qread q len) (\<lambda>x w'. ok M w' \<and> ctx w' = ctx w \<and> int (length x) \<le> len) ?E w"
    by (rule qread_wp [OF assms(1) r assms(3-5)])
      (use assms(5,6) in \<open>auto simp: got_def reads_def eof_seen_def interrupted_def hungry_def after_def\<close>)
  then show ?thesis by (auto simp: wp_def split: prod.splits sum.splits kexc.splits)
qed

theorem qread_safe_witness:
  "\<exists>w'. qread 50 4 (sample 0 1000 []) = (Inl Blocked, w') \<and> q_has Qstarve (the (kqueues w' 50))"
proof -
  have ok: "ok {} (sample 0 1000 [])" by (rule sample_ok) auto
  have *: "qread 50 4 (sample 0 1000 []) = (Inl Blocked, snd (qread 50 4 (sample 0 1000 [])))"
    by (simp add: qread_def qread_locked_def again.simps [of "Suc _"] qwait_def qwait_loop.simps [of 0] and_then_def seq_def fetch_def
        eqlock_def ilock_def on_Error_def modify_def qf_def qset_def iunlock_def sleep_on_def doze_def notempty_def q_raise_def q_has_def
        sample_def calm_def sample_queue_def flag_numbers)
  with qread_safe [OF ok, of 50 4] show ?thesis by (auto split: prod.splits)
qed

text \<open>
  C12. \<^verbatim>\<open>qwrite\<close> to an open queue in a quiet kernel queues the bytes behind those already there, and answers their
  number. A queue that is twice over its limit already makes the writer sleep before anything is queued. Otherwise,
  when the queue is full afterwards the writer sleeps, but only once all of a write of up to
  64 kilobytes is queued. Whenever it sleeps the queue is marked so that a reader will restart it.
\<close>

theorem qwrite_appends:
  assumes "stream_queue q (M, w)" and "kqueues w q = Some r" and "length p \<le> Maxatomic"
  shows "case qwrite q p w of
      (Inr n, w') \<Rightarrow> q_len r sdiv 2 < q_limit r \<and> n = int (length p) \<and> stream_queue q (M, w')
        \<and> contents q (M, w') = contents q (M, w) @ p
    | (Inl Blocked, w') \<Rightarrow> (let w'' = w'\<lparr>kqlocks := kqlocks w\<rparr> in stream_queue q (M, w'')
        \<and> contents q (M, w'') = (if q_len r sdiv 2 < q_limit r then contents q (M, w) @ p else contents q (M, w))) \<and> full_flow q w'
    | (Inl _, w') \<Rightarrow> False"
proof (cases "q_len r sdiv 2 < q_limit r")
  case True
  then show ?thesis
    using qwrite_becomes [OF assms(1,2), of p] assms(3) stream_use(9) [OF assms(1,2)]
    by (auto simp: wp_def becomes_def Let_def split: prod.splits sum.splits kexc.splits)
next
  case False
  then show ?thesis
    using qwrite_bloated [OF assms(1,2), of p] stream_use(9) [OF assms(1,2)]
    by (auto simp: wp_def becomes_def Let_def split: prod.splits sum.splits kexc.splits)
qed

theorem qwrite_appends_witness:
  "(case qwrite 50 [7, 8] (sample 0 1000 [blk 1 [1, 2]]) of
      (Inr n, w') \<Rightarrow> n = 2 \<and> contents 50 ({}, w') = [1, 2, 7, 8]
    | (Inl Blocked, w') \<Rightarrow> contents 50 ({}, w'\<lparr>kqlocks := []\<rparr>) = [1, 2, 7, 8]
    | (Inl _, w') \<Rightarrow> False)
   \<and> (case qwrite 50 [7, 8] (sample 0 1000 [blk 1 (replicate 3000 5)]) of
      (Inl Blocked, w') \<Rightarrow> contents 50 ({}, w'\<lparr>kqlocks := []\<rparr>) = replicate 3000 5
    | _ \<Rightarrow> False)"
proof
  have s: "stream_queue 50 ({}, sample 0 1000 [blk 1 [1, 2]])" by (rule stream_sample) simp_all
  have "contents 50 ({}, sample 0 1000 [blk 1 [1, 2]]) = [1, 2]" by (simp add: contents_def)
  then show "case qwrite 50 [7, 8] (sample 0 1000 [blk 1 [1, 2]]) of
      (Inr n, w') \<Rightarrow> n = 2 \<and> contents 50 ({}, w') = [1, 2, 7, 8]
    | (Inl Blocked, w') \<Rightarrow> contents 50 ({}, w'\<lparr>kqlocks := []\<rparr>) = [1, 2, 7, 8]
    | (Inl _, w') \<Rightarrow> False"
    using qwrite_appends [OF s, of "sample_queue 0 1000 [blk 1 [1, 2]]" "[7, 8]"]
    by (auto simp: signed_divide_int_def Let_def split: prod.splits sum.splits kexc.splits)
next
  let ?bs = "[blk 1 (replicate 3000 5)]"
  have s: "stream_queue 50 ({}, sample 0 1000 ?bs)" by (rule stream_sample) simp_all
  have "contents 50 ({}, sample 0 1000 ?bs) = replicate 3000 5" by (simp add: contents_def)
  then show "case qwrite 50 [7, 8] (sample 0 1000 ?bs) of
      (Inl Blocked, w') \<Rightarrow> contents 50 ({}, w'\<lparr>kqlocks := []\<rparr>) = replicate 3000 5 | _ \<Rightarrow> False"
    using qwrite_appends [OF s, of "sample_queue 0 1000 ?bs" "[7, 8]"]
    by (auto simp: signed_divide_int_def Let_def split: prod.splits sum.splits kexc.splits)
qed

text \<open>
  C13. No lost wakeup. When a reader has gone to sleep on the queue for good as far as the rest of the
  kernel is concerned, the next \<^verbatim>\<open>qbwrite\<close> by any other process wakes it, and what that process wrote is in the queue.
\<close>

theorem no_lost_wakeup:
  assumes "ok M w" and "q \<in> dom (kqueues w)" and "kilocks w = []" and "(q, True) \<notin> set (kqlocks w)" and "0 \<le> len" and "plenty w"
    and asleep: "qread q len w = (Inl Blocked, w')"
    and other: "kqueues w' q = Some r'" "\<not> q_kick r'" "\<not> q_bypass r'" "q_noblock r' = 0" "(q, False) \<notin> set ls"
    and bs: "chain bs" "bs \<noteq> []" "ids bs \<subseteq> M"
  shows "\<exists>res w'' r''. qbwrite q bs (w'\<lparr>kqlocks := ls\<rparr>) = (res, w'') \<and> (\<exists>t1 t2. ktrace w'' = ktrace w' @ t1 @ Wakeup_rr q # t2)
    \<and> kqueues w'' q = Some r'' \<and> bfirst r'' = bs \<and> \<not> q_has Qstarve r'' \<and> ok (M - ids bs) w''"
proof -
  obtain r where r: "kqueues w q = Some r" using assms(2) by auto
  have "wp (qread q len) (\<lambda>_ _. True) (\<lambda>e w'. e = Blocked \<longrightarrow> hungry M q r (locking (q, True) w) w') w"
    by (rule qread_wp [OF assms(1) r assms(3-5)]) (use assms(6) in auto)
  then have h: "hungry M q r (locking (q, True) w) w'" using asleep by (simp add: wp_def)
  let ?w = "w'\<lparr>kqlocks := ls\<rparr>"
  have M: "M - ids bs \<union> ids bs = M" using bs(3) by auto
  have w': "ok (M - ids bs \<union> ids bs) ?w" "kilocks ?w = []" "kenv ?w = []" "bfirst r' = []" "q_has Qstarve r'" "\<not> q_has Qclosed r'"
    using h assms(3) other(1) unfolding M by (auto simp: hungry_def after_def ctx_def)
  have ri: "kqueues ?w q = Some r'" "(q, False) \<notin> set (kqlocks ?w)" "ids bs \<inter> (M - ids bs) = {}" using other(1,5) by auto
  let ?P = "\<lambda>w''. \<exists>r''. (\<exists>t1 t2. ktrace w'' = ktrace w' @ t1 @ Wakeup_rr q # t2)
    \<and> kqueues w'' q = Some r'' \<and> bfirst r'' = bs \<and> \<not> q_has Qstarve r'' \<and> ok (M - ids bs) w''"
  have "?P w''" if "sent (M - ids bs) q bs r' ?w l w''" for l w''
    using that w'(3-5) other(2) by (auto simp: sent_def woken_def extended_def)
  then have "wp (qbwrite q bs) (\<lambda>_. ?P) (\<lambda>_. ?P) ?w"
    using other(3,4) w'(3,6) by (intro qbwrite_wp [OF w'(1) ri(1) w'(2) ri(2) bs(1,2) ri(3)]) auto
  then show ?thesis by (cases "qbwrite q bs ?w") (auto simp: wp_def split: sum.splits)
qed

theorem no_lost_wakeup_witness:
  "\<exists>w' res w''. qread 50 4 (calm 100 {1} [50 \<mapsto> sample_queue 0 1000 []]) = (Inl Blocked, w')
    \<and> qbwrite 50 [blk 1 [7]] (w'\<lparr>kqlocks := []\<rparr>) = (res, w'') \<and> Wakeup_rr 50 \<in> set (ktrace w'')"
proof -
  let ?w = "calm 100 {1} [50 \<mapsto> sample_queue 0 1000 []]"
  have "queued ?w = {}" by (simp add: queued_def calm_def)
  then have "kinv ?w {1}" by (intro kinvI) (auto simp: calm_def good_malloc_def qinv_def sample_queue_def split: if_splits)
  then have ok: "ok {1} ?w" by (simp add: ok_def)
  define w' where "w' = snd (qread 50 4 ?w)"
  have run: "qread 50 4 ?w = (Inl Blocked, w')" and w': "\<exists>r'. kqueues w' 50 = Some r' \<and> \<not> q_kick r' \<and> \<not> q_bypass r' \<and> q_noblock r' = 0"
    by (simp_all add: w'_def qread_def qread_locked_def again.simps [of "Suc _"] qwait_def qwait_loop.simps [of 0] and_then_def seq_def fetch_def
        eqlock_def ilock_def on_Error_def modify_def qf_def qset_def iunlock_def sleep_on_def doze_def notempty_def q_raise_def q_has_def
        calm_def sample_queue_def flag_numbers)
  obtain r' where r': "kqueues w' 50 = Some r'" "\<not> q_kick r'" "\<not> q_bypass r'" "q_noblock r' = 0" using w' by blast
  have "\<exists>res w''. qbwrite 50 [blk 1 [7]] (w'\<lparr>kqlocks := []\<rparr>) = (res, w'') \<and> Wakeup_rr 50 \<in> set (ktrace w'')"
    using no_lost_wakeup [OF ok _ _ _ _ _ run r', of "[]" "[blk 1 [7]]"] by (force simp: calm_def plenty_def)
  then show ?thesis using run by blast
qed

lemma qread_closed:
  assumes w: "ok M w" "kqueues w q = Some r" "kilocks w = []" "(q, True) \<notin> set (kqlocks w)" and len: "0 \<le> len"
    and r: "q_has Qclosed r" "bfirst r = []" "q_err r = Ehungup" and m: "plenty w"
  shows "\<exists>w' r'. qread q len w = (if q_eof r < 3 then Inr [] else Inl (Error Ehungup), w') \<and> kqueues w' q = Some r' \<and> q_eof r' = q_eof r + 1
    \<and> q_has Qclosed r' \<and> bfirst r' = [] \<and> q_err r' = Ehungup \<and> ok M w' \<and> ctx w' = ctx w"
proof -
  have p: "prompt r w" "\<not> ready r" using r by (auto simp: prompt_def ready_def)
  let ?P = "\<lambda>w'. \<exists>r'. kqueues w' q = Some r' \<and> q_eof r' = q_eof r + 1 \<and> q_has Qclosed r' \<and> bfirst r' = [] \<and> q_err r' = Ehungup \<and> ok M w' \<and> ctx w' = ctx w"
  have seen: "?P w' \<and> (c = 0 \<longleftrightarrow> q_eof r < 3) \<and> (c = -1 \<longleftrightarrow> \<not> q_eof r < 3) \<and> e = Ehungup" if "eof_seen M q r w c e w'" for c e w'
    using that p r(3) by (auto simp: eof_seen_def after_def alike_def eof_answer_def split: if_splits)
  have "wp (qread q len) (\<lambda>x w'. q_eof r < 3 \<and> x = [] \<and> ?P w') (\<lambda>e w'. \<not> q_eof r < 3 \<and> e = Error Ehungup \<and> ?P w') w"
  proof (rule qread_wp [OF w len])
    fix e w' assume s: "eof_seen M q r w 0 e w'"
    show "q_eof r < 3 \<and> [] = [] \<and> ?P w'" using seen [OF s] by simp
  next
    fix e w' assume s: "eof_seen M q r w (-1) e w'"
    show "\<not> q_eof r < 3 \<and> Error e = Error Ehungup \<and> ?P w'" using seen [OF s] by simp
  qed (use p r(1) m in \<open>auto simp: got_def interrupted_def hungry_def\<close>)
  then show ?thesis by (cases "qread q len w") (auto simp: wp_def split: sum.splits)
qed


text \<open>
  A closed queue. \<^verbatim>\<open>qclose\<close> frees what was queued; the next three reads answer end of file and
  every later one raises \<^verbatim>\<open>i/o on hungup channel\<close>, without sleeping, leaking or keeping a lock.
\<close>

theorem qclose_then_read:
  assumes "ok M w" and "kqueues w q = Some r" and "kilocks w = []" and "(q, True) \<notin> set (kqlocks w)" and "0 \<le> len" and "plenty w"
    and "q_eof r = 0"
  shows "\<exists>w1 w2 w3 w4 w5. qclose q w = (Inr (), w1) \<and> klive w1 = klive w - ids (bfirst r)
    \<and> qread q len w1 = (Inr [], w2) \<and> qread q len w2 = (Inr [], w3) \<and> qread q len w3 = (Inr [], w4)
    \<and> qread q len w4 = (Inl (Error Ehungup), w5) \<and> ok M w5 \<and> ctx w5 = ctx w"
proof -
  let ?c = "closed_queue r"
  have "wp (qclose q) (\<lambda>_ w'. changed M q ?c w w') (\<lambda>_ _. False) w"
    by (rule qclose_wp [OF assms(1,2)]) (use assms(3) in auto)
  then obtain w1 where w1: "qclose q w = (Inr (), w1)" and ch: "changed M q ?c w w1" by (auto simp: wp_total_iff)
  have r1: "q_has Qclosed ?c" "bfirst ?c = []" "q_err ?c = Ehungup" "q_eof ?c = 0" using assms(7) flag_distinct by (auto simp: closed_queue_def)
  have frame: "kilocks w' = []" "(q, True) \<notin> set (kqlocks w')" "plenty w'" if "ctx w' = ctx w" for w'
    using that assms(3,4,6) plenty_ctx [OF that] by (auto simp: ctx_def)
  have c1: "ctx w1 = ctx w" using ch by (simp add: changed_def)
  have "klive w1 = klive w - ids (bfirst r)"
  proof -
    have k: "kinv w M" "kinv w1 M" using assms(1) changed_ok [OF ch] by (auto simp: ok_def)
    have "queued w1 = queued w - ids (bfirst r)"
      using queued_upd [OF k(1) assms(2), of ?c] ch r1(2) by (simp add: changed_def queued_def)
    then show ?thesis using kinvD(3,4) [OF k(1)] kinvD(3,4) [OF k(2)] kinvD(6) [OF k(1) assms(2)] by auto
  qed
  moreover obtain w2 r2 where 2: "qread q len w1 = (Inr [], w2)" "kqueues w2 q = Some r2" "q_eof r2 = 1" "q_has Qclosed r2" "bfirst r2 = []"
    "q_err r2 = Ehungup" "ok M w2" "ctx w2 = ctx w"
    using qread_closed [OF changed_ok [OF ch] changed_at [OF ch] frame(1,2) [OF c1] assms(5) r1(1-3) frame(3) [OF c1]] r1(4) c1 by auto
  moreover obtain w3 r3 where 3: "qread q len w2 = (Inr [], w3)" "kqueues w3 q = Some r3" "q_eof r3 = 2" "q_has Qclosed r3" "bfirst r3 = []"
    "q_err r3 = Ehungup" "ok M w3" "ctx w3 = ctx w"
    using qread_closed [OF 2(7,2) frame(1,2) [OF 2(8)] assms(5) 2(4-6) frame(3) [OF 2(8)]] 2(3,8) by auto
  moreover obtain w4 r4 where 4: "qread q len w3 = (Inr [], w4)" "kqueues w4 q = Some r4" "q_eof r4 = 3" "q_has Qclosed r4" "bfirst r4 = []"
    "q_err r4 = Ehungup" "ok M w4" "ctx w4 = ctx w"
    using qread_closed [OF 3(7,2) frame(1,2) [OF 3(8)] assms(5) 3(4-6) frame(3) [OF 3(8)]] 3(3,8) by auto
  moreover obtain w5 where 5: "qread q len w4 = (Inl (Error Ehungup), w5)" "ok M w5" "ctx w5 = ctx w"
    using qread_closed [OF 4(7,2) frame(1,2) [OF 4(8)] assms(5) 4(4-6) frame(3) [OF 4(8)]] 4(3,8) by auto
  ultimately show ?thesis using w1 by blast
qed

theorem qclose_then_read_witness:
  "\<exists>w1 w2. qclose 50 (sample 0 1000 [blk 1 [1, 2]]) = (Inr (), w1) \<and> klive w1 = {} \<and> qread 50 9 w1 = (Inr [], w2)"
proof -
  have ok: "ok {} (sample 0 1000 [blk 1 [1, 2]])" by (rule sample_ok) simp_all
  have "klive (sample 0 1000 [blk 1 [1, 2]]) = {1}" by (simp add: sample_def calm_def)
  then show ?thesis using qclose_then_read [OF ok, of 50 "sample_queue 0 1000 [blk 1 [1, 2]]" 9] by auto
qed

text \<open>
  A write to a closed queue is refused: \<^verbatim>\<open>qbwrite\<close> raises the queue's error, has freed the blocks it was given
  and changed nothing in any queue.
\<close>

theorem qbwrite_closed:
  assumes "ok M w" and "kqueues w q = Some r" and "kilocks w = []" and "(q, False) \<notin> set (kqlocks w)"
    and "chain bs" and "bs \<noteq> []" and "ids bs \<subseteq> M" and "q_has Qclosed r" and "\<not> q_bypass r"
  shows "\<exists>w'. qbwrite q bs w = (Inl (Error (q_err r)), w') \<and> ok (M - ids bs) w' \<and> kqueues w' = kqueues w \<and> ctx w' = ctx w
    \<and> klive w' = klive w - ids bs"
proof -
  have M: "ok (M - ids bs \<union> ids bs) w" "ids bs \<inter> (M - ids bs) = {}" using assms(1,7) by (auto simp: Un_absorb2)
  have "wp (qbwrite q bs) (\<lambda>_ _. False) (\<lambda>e w'. e = Error (q_err r) \<and> changed (M - ids bs) q r w w') w"
    by (rule qbwrite_wp [OF M(1) assms(2-6) M(2)]) (use assms(8,9) in \<open>auto simp: sent_def\<close>)
  then obtain w' where w': "qbwrite q bs w = (Inl (Error (q_err r)), w')" "changed (M - ids bs) q r w w'"
    by (cases "qbwrite q bs w") (auto simp: wp_def split: sum.splits)
  have eq: "kqueues w' = kqueues w" "ok (M - ids bs) w'" "ctx w' = ctx w" using w'(2) assms(2) by (auto simp: changed_def map_upd_triv)
  then have "queued w' = queued w" by (simp add: queued_def)
  then have "klive w' = klive w - ids bs"
    using kinvD(3,4) [of w M] kinvD(3) [of w' "M - ids bs"] eq(2) assms(1,7) by (auto simp: ok_def)
  then show ?thesis using w'(1) eq by blast
qed

theorem qbwrite_closed_witness:
  "\<exists>w'. qbwrite 50 [blk 1 [7]] (calm 100 {1} [50 \<mapsto> sample_queue 4 1000 []]) = (Inl (Error []), w') \<and> klive w' = {}"
proof -
  let ?w = "calm 100 {1} [50 \<mapsto> sample_queue 4 1000 []]"
  have "queued ?w = {}" by (simp add: queued_def calm_def)
  then have "kinv ?w {1}" by (intro kinvI) (auto simp: calm_def good_malloc_def qinv_def sample_queue_def split: if_splits)
  then have ok: "ok {1} ?w" by (simp add: ok_def)
  have "q_has Qclosed (sample_queue 4 1000 [])" by (simp add: flag_numbers)
  then show ?thesis
    using qbwrite_closed [OF ok, of 50 "sample_queue 4 1000 []" "[blk 1 [7]]"] by (force simp: calm_def)
qed

text \<open>
  \<^verbatim>\<open>qproduce\<close> on a full queue returns -1 without the block it has allocated: the block stays allocated, and
  is neither in a queue nor held by anyone.
\<close>

theorem qproduce_leaks:
  assumes "ok M w" and "kqueues w q = Some r" and "q \<notin> set (kilocks w)" and "plenty w" and "length p + 23 < 2 ^ 31" and "q_limit r \<le> q_len r"
  shows "\<exists>i w'. qproduce q p w = (Inr (-1), w') \<and> i \<notin> klive w \<and> klive w' = insert i (klive w) \<and> i \<notin> queued w' \<and> \<not> ok M w'"
proof -
  have "wp (qproduce q p) (\<lambda>n w'. n = -1 \<and> (\<exists>i. i \<notin> M \<and> changed (insert i M) q (q_raise Qflow r) w w')) (\<lambda>_ _. False) w"
    by (rule qproduce_wp [OF assms(1-3,5)]) (use assms(4,6) in auto)
  then obtain i w' where a: "qproduce q p w = (Inr (-1), w')" "i \<notin> M" "changed (insert i M) q (q_raise Qflow r) w w'" by (auto simp: wp_total_iff)
  have k: "kinv w M" "kinv w' (insert i M)" using assms(1) changed_ok [OF a(3)] by (auto simp: ok_def)
  have "queued w' = queued w"
    using queued_upd [OF k(1) assms(2), of "q_raise Qflow r"] a(3) kinvD(6) [OF k(1) assms(2)] by (auto simp: changed_def queued_def)
  then have "i \<notin> klive w" "klive w' = insert i (klive w)" "i \<notin> queued w'"
    using kinvD(3,4) [OF k(1)] kinvD(3,4) [OF k(2)] a(2) by auto
  moreover from this have "\<not> ok M w'" using kinvD(3) [of w' M] a(2) by (auto simp: ok_def)
  ultimately show ?thesis using a(1) by blast
qed

theorem qproduce_leaks_witness:
  "\<exists>i w'. qproduce 50 [9] (sample 0 2 [blk 1 [1, 2]]) = (Inr (-1), w') \<and> i \<noteq> 1 \<and> klive w' = {i, 1} \<and> i \<notin> queued w'"
proof -
  have ok: "ok {} (sample 0 2 [blk 1 [1, 2]])" by (rule sample_ok) simp_all
  have "klive (sample 0 2 [blk 1 [1, 2]]) = {1}" by (simp add: sample_def calm_def)
  then show ?thesis using qproduce_leaks [OF ok, of 50 "sample_queue 0 2 [blk 1 [1, 2]]" "[9]"] by auto
qed

text \<open>
  \<^verbatim>\<open>qwrite\<close> to a message queue takes only the first 64 kilobytes of a longer write and yet reports that it wrote
  all of it, unless it is left sleeping on a full queue.
\<close>

theorem qwrite_msg_truncates:
  assumes "ok M w" and "kqueues w q = Some r" and "kilocks w = []" and "(q, False) \<notin> set (kqlocks w)" and "plenty w"
    and "quiet r w" and "q_has Qmsg r" and "\<not> q_has Qclosed r" and "Maxatomic < length p"
  shows "case qwrite q p w of
      (Inr n, w') \<Rightarrow> n = int (length p) \<and> contents q (M, w') = contents q (M, w) @ take Maxatomic p
    | (Inl Blocked, w') \<Rightarrow> full_flow q w'
    | (Inl _, w') \<Rightarrow> False"
proof -
  let ?E = "\<lambda>e w'. case e of Blocked \<Rightarrow> full_flow q w' | _ \<Rightarrow> False"
  have "wp (qwrite q p) (\<lambda>n w'. n = int (length p) \<and> contents q (M, w') = contents q (M, w) @ take Maxatomic p) ?E w"
  proof (rule qwrite_wp [OF assms(1-4)])
    fix s w' assume a: "wrote M q (take s p) r w w w'" "quiet r w \<Longrightarrow> s = whole p r \<and> \<not> q_has Qclosed r"
    have "s = Maxatomic" using a(2) [OF assms(6)] assms(7,9) by (simp add: whole_def)
    then show "int (length p) = int (length p) \<and> contents q (M, w') = contents q (M, w) @ take Maxatomic p"
      using a(1) assms(2,6) by (auto simp: wrote_def contents_def)
  next
    fix e w' assume "refused M q e r w w'"
    then show "?E (Error e) w'" using assms(6,8) by (simp add: refused_def)
  qed (use assms(5) in auto)
  then show ?thesis by (auto simp: wp_def split: prod.splits sum.splits kexc.splits)
qed

theorem qwrite_msg_truncates_witness:
  "case qwrite 50 (replicate 65537 7) (sample 2 1000 []) of
      (Inr n, w') \<Rightarrow> n = 65537 \<and> contents 50 ({}, w') = replicate 65536 7
    | (Inl Blocked, w') \<Rightarrow> full_flow 50 w'
    | (Inl _, w') \<Rightarrow> False"
proof -
  have ok: "ok {} (sample 2 1000 [])" by (rule sample_ok) auto
  have q: "quiet (sample_queue 2 1000 []) (sample 2 1000 [])" "q_has Qmsg (sample_queue 2 1000 [])" "\<not> q_has Qclosed (sample_queue 2 1000 [])"
    by (simp_all add: quiet_def flag_numbers)
  have c: "contents 50 ({}, sample 2 1000 []) = []" by (simp add: contents_def)
  define p :: bytes where "p = replicate 65537 7"
  have p: "Maxatomic < length p" "int (length p) = 65537" "take Maxatomic p = replicate 65536 7" by (simp_all add: p_def)
  show ?thesis
    using qwrite_msg_truncates [OF ok _ _ _ _ q p(1), of 50] c p(2,3) unfolding p_def [symmetric]
    by (auto split: prod.splits sum.splits kexc.splits)
qed


text \<open>
  \<^verbatim>\<open>pullupqueue\<close> gathers bytes in the first block and frees the blocks it empties, but leaves \<^verbatim>\<open>q->len\<close> as it was:
  on a queue of two blocks the count afterwards is that of a block which is gone, and once the queue is empty \<^verbatim>\<open>q->len\<close> is
  not zero, so that flow control takes an empty queue for a fuller one.
\<close>

theorem pullupqueue_stale_len:
  "\<exists>bs w'. pullupqueue 50 3 (sample 0 1000 [blk 1 [1], blk 2 [2, 3]]) = (Inr bs, w') \<and> data bs = [1, 2, 3]
    \<and> (\<exists>r b w'' r''. kqueues w' 50 = Some r \<and> bfirst r = bs \<and> q_len r = 7 \<and> blockalloclen bs = 3
       \<and> qget 50 w' = (Inr (Some b), w'') \<and> kqueues w'' 50 = Some r'' \<and> bfirst r'' = [] \<and> q_len r'' = 4)"
  by (simp add: pullupqueue_def qget_def restart_writer_def only_if_def half_empty_def unlink_first_def bmove_def bread_def bput_def freeb_def
      and_then_def seq_def fetch_def ret_def modify_def ilock_def iunlock_def qf_def qset_def overwrite_def bytes_of_def BLEN_def BALLOC_def q_has_def
      sample_def calm_def sample_queue_def blk_def flag_numbers)

end
