(* ===== verification/Utf.thy ===== *)
theory Utf
  imports Prelude
begin

unbundle bit_operations_syntax

text \<open>
  This theory models UTF-8, from \<^verbatim>\<open>sys/src/lib/c/port/rune.c\<close> and the string routines that rest on it. A string is the
  memory from the pointer on, as far as it may be read; a read past its end is \<open>None\<close>.
\<close>

section \<open>Runes and their encoding\<close>

type_synonym Rune = u32

abbreviation UTFmax :: nat where "UTFmax \<equiv> 4"
abbreviation Runesync :: Rune where "Runesync \<equiv> 0x80"
abbreviation Runeself :: Rune where "Runeself \<equiv> 0x80"
abbreviation Runeerror :: Rune where "Runeerror \<equiv> 0xFFFD"
abbreviation Runemax :: Rune where "Runemax \<equiv> 0x10FFFF"
abbreviation Bitx :: nat where "Bitx \<equiv> 6"
abbreviation Tx :: u32 where "Tx \<equiv> 0x80"
abbreviation Rune1 :: Rune where "Rune1 \<equiv> 0x7F"
abbreviation Maskx :: u32 where "Maskx \<equiv> 0x3F"
abbreviation Testx :: u32 where "Testx \<equiv> 0xC0"
abbreviation SurrogateMin :: Rune where "SurrogateMin \<equiv> 0xD800"
abbreviation SurrogateMax :: Rune where "SurrogateMax \<equiv> 0xDFFF"

definition T :: "nat \<Rightarrow> u32" where
  "T i = (push_bit (7 - i + 1) 1 - 1) XOR 0xFF"

definition RuneX :: "nat \<Rightarrow> Rune" where
  "RuneX i = push_bit (7 - i + (i - 1) * Bitx) 1 - 1"

definition at :: "bytes \<Rightarrow> nat \<Rightarrow> u32 option" where
  "at s i = (if i < length s then Some (ucast (s ! i)) else None)"

text \<open>The loop of \<^verbatim>\<open>chartorune\<close>; the result is the rune and the number of bytes it took.\<close>

function chartorune_loop :: "bytes \<Rightarrow> u32 \<Rightarrow> nat \<Rightarrow> Rune \<Rightarrow> (Rune \<times> nat) option" where
  "chartorune_loop str c0 i l =
    (if i < UTFmax then case at str i of None \<Rightarrow> None | Some ci \<Rightarrow>
       let ci = ci XOR Tx in
       if ci AND Testx \<noteq> 0 then Some (Runeerror, 1)
       else let l = push_bit Bitx l OR ci in
         if c0 < T (i + 2) then
           let l = l AND RuneX (i + 1) in
           if (if i = 1 then c0 < T 2 \<or> l \<le> Rune1 else l \<le> RuneX i \<or> l > Runemax) then Some (Runeerror, 1)
           else if i = 2 \<and> SurrogateMin \<le> l \<and> l \<le> SurrogateMax then Some (Runeerror, 1)
           else Some (l, i + 1)
         else chartorune_loop str c0 (i + 1) l
     else Some (Runeerror, 1))"
  by pat_completeness auto
termination by (relation "measure (\<lambda>(_, _, i, _). UTFmax - i)") auto

declare chartorune_loop.simps [simp del]

definition chartorune :: "bytes \<Rightarrow> (Rune \<times> nat) option" where
  "chartorune str = (case at str 0 of None \<Rightarrow> None | Some c0 \<Rightarrow>
     if c0 < Tx then Some (c0, 1) else chartorune_loop str c0 1 c0)"

text \<open>The loop of \<^verbatim>\<open>runetochar\<close>: the bytes it stores.\<close>

function runetochar_loop :: "Rune \<Rightarrow> nat \<Rightarrow> bytes" where
  "runetochar_loop c i =
    (if i < UTFmax + 1 then
       let c = (if i = 3 then
                  let c = (if c > Runemax then Runeerror else c) in
                  (if SurrogateMin \<le> c \<and> c \<le> SurrogateMax then Runeerror else c)
                else c) in
       if c \<le> RuneX i \<or> i = UTFmax
       then ucast (T i OR drop_bit ((i - 1) * Bitx) c)
         # map (\<lambda>j. ucast (Tx OR (drop_bit ((i - j - 1) * Bitx) c AND Maskx))) [1..<i]
       else runetochar_loop c (i + 1)
     else [])"
  by pat_completeness auto
termination by (relation "measure (\<lambda>(_, i). UTFmax + 1 - i)") auto

declare runetochar_loop.simps [simp del]

definition runetochar :: "Rune \<Rightarrow> bytes" where
  "runetochar c = (if c \<le> Rune1 then [ucast c] else runetochar_loop c 2)"

definition runelen :: "Rune \<Rightarrow> nat" where
  "runelen c = length (runetochar c)"

function runenlen_one :: "Rune \<Rightarrow> nat \<Rightarrow> nat" where
  "runenlen_one c i = (if i < UTFmax + 1 then if c \<le> RuneX i \<or> i = UTFmax then i else runenlen_one c (i + 1) else 0)"
  by pat_completeness auto
termination by (relation "measure (\<lambda>(_, i). UTFmax + 1 - i)") auto

declare runenlen_one.simps [simp del]

fun runenlen :: "Rune list \<Rightarrow> nat" where
  "runenlen [] = 0"
| "runenlen (c # r) = (if c \<le> Rune1 then 1 else runenlen_one c 2) + runenlen r"

definition fullrune :: "bytes \<Rightarrow> int \<Rightarrow> bool option" where
  "fullrune str n = (if n \<le> 0 then Some False else case at str 0 of None \<Rightarrow> None | Some c \<Rightarrow>
     if c < Tx then Some True
     else if c < T 3 then Some (n \<ge> 3 - 1)
     else if c < T 4 then Some (n \<ge> 4 - 1)
     else Some (n \<ge> int UTFmax))"

text \<open>An iteration stops with a result that depends on the byte read, or goes on.\<close>

lemma loop_either:
  assumes "i < 4"
  obtains (stop) r n where "\<And>s. at s i = Some w \<Longrightarrow> chartorune_loop s c0 i l = Some (r, n)" and "0 < n" and "n \<le> i + 1"
    | (more) l' where "\<And>s. at s i = Some w \<Longrightarrow> chartorune_loop s c0 i l = chartorune_loop s c0 (i + 1) l'"
        and "(w XOR Tx) AND Testx = 0"
proof (cases "(w XOR Tx) AND Testx = 0 \<and> \<not> c0 < T (i + 2)")
  case True
  then show ?thesis
    using assms by (intro more [of "push_bit Bitx l OR (w XOR Tx)"]) (subst chartorune_loop.simps, simp_all add: Let_def)
next
  case False
  define x where "x = (push_bit Bitx l OR (w XOR Tx)) AND RuneX (i + 1)"
  show ?thesis
  proof (cases "(w XOR Tx) AND Testx \<noteq> 0 \<or> (if i = 1 then c0 < T 2 \<or> x \<le> Rune1 else x \<le> RuneX i \<or> x > Runemax) \<or>
      (i = 2 \<and> SurrogateMin \<le> x \<and> x \<le> SurrogateMax)")
    case True
    then show ?thesis
      using assms False by (intro stop [of Runeerror 1]) (subst chartorune_loop.simps, auto simp: Let_def x_def split: if_splits)
  next
    case ok: False
    then show ?thesis
      using assms False by (intro stop [of x "i + 1"]) (subst chartorune_loop.simps, auto simp: Let_def x_def split: if_splits)
  qed
qed

lemma loop_over: "\<not> i < 4 \<Longrightarrow> chartorune_loop s c0 i l = Some (Runeerror, 1)"
  by (subst chartorune_loop.simps) simp

lemma loop_none: "i < 4 \<Longrightarrow> at s i = None \<Longrightarrow> chartorune_loop s c0 i l = None"
  by (subst chartorune_loop.simps) simp

lemma loop_progress: "chartorune_loop s c0 i l = Some (r, n) \<Longrightarrow> s \<noteq> [] \<Longrightarrow> 0 < n \<and> n \<le> length s"
proof (induction "4 - i" arbitrary: i l)
  case 0
  then show ?case by (cases s) (simp_all add: loop_over)
next
  case (Suc k)
  then have i: "i < 4" by simp
  obtain w where w: "at s i = Some w" using Suc.prems(1) loop_none [OF i] by (cases "at s i") auto
  then have len: "i < length s" by (simp add: at_def split: if_splits)
  show ?case by (rule loop_either [OF i, where w = w and ?c0.0 = c0 and l = l]) (use Suc w len Suc.hyps(1) [of "i + 1"] in auto)
qed

lemma chartorune_progress: "chartorune s = Some (r, n) \<Longrightarrow> 0 < n \<and> n \<le> length s"
  using loop_progress [of s _ 1 _ r n] by (cases s) (auto simp: chartorune_def at_def Suc_le_eq split: if_splits option.splits)

lemma chartorune_advances: "chartorune str = Some (r, n) \<Longrightarrow> length str - n < length str"
  using chartorune_progress [of str r n] by (cases str) (auto simp: diff_less)

section \<open>Strings\<close>

text \<open>
  A pointer into a string is an offset from its start. The outer \<open>None\<close> of a result is a read past the memory that
  may be read, an inner \<open>None\<close> the null pointer.
\<close>

fun strend :: "bytes \<Rightarrow> nat \<Rightarrow> nat option" where
  "strend [] k = None"
| "strend (b # s) k = (if b \<noteq> 0 then strend s (k + 1) else Some k)"

fun strchr_loop :: "bytes \<Rightarrow> byte \<Rightarrow> nat \<Rightarrow> nat option option" where
  "strchr_loop [] c0 k = None"
| "strchr_loop (c1 # s) c0 k =
    (if c1 \<noteq> 0 then if c1 = c0 then Some (Some k) else strchr_loop s c0 (k + 1) else Some None)"

definition strchr :: "bytes \<Rightarrow> u32 \<Rightarrow> nat option option" where
  "strchr s c = (if c = 0 then map_option Some (strend s 0) else strchr_loop s (ucast c) 0)"

lemma strchr_loop_bounds: "strchr_loop s c k = Some (Some j) \<Longrightarrow> k \<le> j \<and> j < k + length s"
  by (induction s c k rule: strchr_loop.induct) (auto split: if_splits)

function strrchr_loop :: "bytes \<Rightarrow> u32 \<Rightarrow> nat \<Rightarrow> nat option \<Rightarrow> nat option option" where
  "strrchr_loop s c k r = (case strchr s c of
     None \<Rightarrow> None
   | Some None \<Rightarrow> Some r
   | Some (Some j) \<Rightarrow> if c = 0 then None else strrchr_loop (drop (j + 1) s) c (k + j + 1) (Some (k + j)))"
  by pat_completeness auto
termination
  by (relation "measure (\<lambda>(s, _). length s)") (auto simp: strchr_def dest: strchr_loop_bounds)

declare strrchr_loop.simps [simp del]

definition strrchr :: "bytes \<Rightarrow> u32 \<Rightarrow> nat option option" where
  "strrchr s c = (if c = 0 then strchr s 0 else strrchr_loop s c 0 None)"

function utflen_loop :: "bytes \<Rightarrow> nat \<Rightarrow> nat option" where
  "utflen_loop s n = (case at s 0 of None \<Rightarrow> None | Some c \<Rightarrow>
     if c < Runeself then if c = 0 then Some n else utflen_loop (drop 1 s) (n + 1)
     else case chartorune s of None \<Rightarrow> None | Some (rune, k) \<Rightarrow> utflen_loop (drop k s) (n + 1))"
  by pat_completeness auto
termination
  by (relation "measure (\<lambda>(s, _). length s)") (auto simp: at_def chartorune_advances split: if_splits)

declare utflen_loop.simps [simp del]

definition utflen :: "bytes \<Rightarrow> nat option" where
  "utflen s = utflen_loop s 0"

text \<open>The loop of \<^verbatim>\<open>utfnlen\<close>; \<open>m\<close> is \<open>es - s\<close>.\<close>

function utfnlen_loop :: "bytes \<Rightarrow> int \<Rightarrow> nat \<Rightarrow> nat option" where
  "utfnlen_loop s m n = (if 0 < m then case at s 0 of None \<Rightarrow> None | Some c \<Rightarrow>
     if c < Runeself then if c = 0 then Some n else utfnlen_loop (drop 1 s) (m - 1) (n + 1)
     else case fullrune s m of None \<Rightarrow> None | Some full \<Rightarrow>
       if \<not> full then Some n
       else (case chartorune s of None \<Rightarrow> None | Some (rune, k) \<Rightarrow> utfnlen_loop (drop k s) (m - int k) (n + 1))
     else Some n)"
  by pat_completeness auto
termination
  by (relation "measure (\<lambda>(s, _). length s)") (auto simp: at_def chartorune_advances split: if_splits)

declare utfnlen_loop.simps [simp del]

definition utfnlen :: "bytes \<Rightarrow> int \<Rightarrow> nat option" where
  "utfnlen s m = utfnlen_loop s m 0"

function utfrune_loop :: "bytes \<Rightarrow> Rune \<Rightarrow> nat \<Rightarrow> nat option option" where
  "utfrune_loop s c k = (case at s 0 of None \<Rightarrow> None | Some c1 \<Rightarrow>
     if c1 < Runeself then
       if c1 = 0 then Some None else if c1 = c then Some (Some k) else utfrune_loop (drop 1 s) c (k + 1)
     else case chartorune s of None \<Rightarrow> None | Some (r, n) \<Rightarrow>
       if r = c then Some (Some k) else utfrune_loop (drop n s) c (k + n))"
  by pat_completeness auto
termination
  by (relation "measure (\<lambda>(s, _). length s)") (auto simp: at_def chartorune_advances split: if_splits)

declare utfrune_loop.simps [simp del]

definition utfrune :: "bytes \<Rightarrow> Rune \<Rightarrow> nat option option" where
  "utfrune s c = (if c < Runesync then strchr s c else utfrune_loop s c 0)"

function utfrrune_loop :: "bytes \<Rightarrow> Rune \<Rightarrow> nat \<Rightarrow> nat option \<Rightarrow> nat option option" where
  "utfrrune_loop s c k s1 = (case at s 0 of None \<Rightarrow> None | Some c1 \<Rightarrow>
     if c1 < Runeself then
       if c1 = 0 then Some s1 else utfrrune_loop (drop 1 s) c (k + 1) (if c1 = c then Some k else s1)
     else case chartorune s of None \<Rightarrow> None | Some (r, n) \<Rightarrow>
       utfrrune_loop (drop n s) c (k + n) (if r = c then Some k else s1))"
  by pat_completeness auto
termination
  by (relation "measure (\<lambda>(s, _). length s)") (auto simp: at_def chartorune_advances split: if_splits)

declare utfrrune_loop.simps [simp del]

definition utfrrune :: "bytes \<Rightarrow> Rune \<Rightarrow> nat option option" where
  "utfrrune s c = (if c < Runesync then strrchr s c else utfrrune_loop s c 0 None)"

text \<open>
  \<^verbatim>\<open>memccpy\<close> into the buffer \<open>s1\<close>: the bytes it stores over the start of the buffer, and whether the last one is the
  byte looked for (otherwise it returns the null pointer).
\<close>

fun memccpy :: "bytes \<Rightarrow> byte \<Rightarrow> nat \<Rightarrow> (bytes \<times> bool) option" where
  "memccpy s2 c 0 = Some ([], False)"
| "memccpy [] c (Suc n) = None"
| "memccpy (b # s2) c (Suc n) =
    (if b = c then Some ([b], True) else map_option (\<lambda>(copied, found). (b # copied, found)) (memccpy s2 c n))"

fun seek_start :: "bytes \<Rightarrow> nat \<Rightarrow> nat" where
  "seek_start buf 0 = 0"
| "seek_start buf (Suc k) = (if buf ! k AND 0xC0 = 0x80 then seek_start buf k else k)"

text \<open>\<^verbatim>\<open>utfecpy\<close> on the buffer from \<^verbatim>\<open>to\<close> up to \<^verbatim>\<open>e\<close>: the new contents and the offset returned.\<close>

definition utfecpy :: "bytes \<Rightarrow> bytes \<Rightarrow> (bytes \<times> nat) option" where
  "utfecpy buf from = (if buf = [] then Some (buf, 0) else
     case memccpy from 0 (length buf) of None \<Rightarrow> None | Some (copied, found) \<Rightarrow>
       let buf = copied @ drop (length copied) buf in
       if \<not> found then let k = seek_start buf (length buf) in Some (buf[k := 0], k)
       else Some (buf, length copied - 1))"

end
