(* ===== verification/Utf_Props.thy ===== *)
theory Utf_Props
  imports Utf "HOL-Library.Sublist"
begin

unbundle bit_operations_syntax

text \<open>
  The correctness of the UTF-8 routines of \<^verbatim>\<open>sys/src/lib/c/port\<close>: the codec in both directions, the string routines on
  encoded text, and copying within bounds.
\<close>

section \<open>The codec\<close>

lemma T_values: "T 2 = 0xC0" "T 3 = 0xE0" "T 4 = 0xF0" "T 5 = 0xF8" "T (Suc (Suc (Suc 0))) = 0xE0" "T (Suc (Suc 0)) = 0xC0"
  by (simp_all add: T_def push_bit_eq_mult)

lemma RuneX_values: "RuneX 2 = 0x7FF" "RuneX 3 = 0xFFFF" "RuneX 4 = 0x1FFFFF" "RuneX (Suc (Suc 0)) = 0x7FF"
  by (simp_all add: RuneX_def push_bit_eq_mult)

lemma upt_values: "[Suc 0..<2] = [1]" "[Suc 0..<3] = [1, 2]" "[Suc 0..<4] = [1, 2, 3]"
  by (simp_all add: upt_rec)

definition valid_rune :: "Rune \<Rightarrow> bool" where
  "valid_rune c \<longleftrightarrow> c \<le> Runemax \<and> \<not> (SurrogateMin \<le> c \<and> c \<le> SurrogateMax)"

lemma above: "\<not> c \<le> 0x7FF \<Longrightarrow> \<not> c \<le> (0x7F :: u32)" "\<not> c \<le> 0xFFFF \<Longrightarrow> \<not> c \<le> (0x7FF :: u32)"
  by (auto dest: order_trans [of c "0x7F" "0x7FF"] order_trans [of c "0x7FF" "0xFFFF"])

lemma runetochar_2: "\<not> c \<le> 0x7F \<Longrightarrow> c \<le> 0x7FF \<Longrightarrow> runetochar c = [ucast (0xC0 OR drop_bit 6 c), ucast (0x80 OR (c AND 0x3F))]"
  unfolding runetochar_def by (subst runetochar_loop.simps) (simp add: Let_def RuneX_values T_values upt_values)

lemma runetochar_3: "\<not> c \<le> 0x7FF \<Longrightarrow> c \<le> 0xFFFF \<Longrightarrow> valid_rune c \<Longrightarrow>
    runetochar c = [ucast (0xE0 OR drop_bit 12 c), ucast (0x80 OR (drop_bit 6 c AND 0x3F)), ucast (0x80 OR (c AND 0x3F))]"
  using above(1) [of c] unfolding runetochar_def
  by (subst runetochar_loop.simps, subst runetochar_loop.simps)
    (auto simp: Let_def RuneX_values T_values upt_values valid_rune_def not_le)

lemma runetochar_4: "\<not> c \<le> 0xFFFF \<Longrightarrow> valid_rune c \<Longrightarrow>
    runetochar c = [ucast (0xF0 OR drop_bit 18 c), ucast (0x80 OR (drop_bit 12 c AND 0x3F)), ucast (0x80 OR (drop_bit 6 c AND 0x3F)),
      ucast (0x80 OR (c AND 0x3F))]"
  using above [of c] unfolding runetochar_def
  by (subst runetochar_loop.simps, subst runetochar_loop.simps, subst runetochar_loop.simps)
    (auto simp: Let_def RuneX_values T_values upt_values valid_rune_def not_le)

lemma runetochar_bad:
  assumes "\<not> valid_rune c"
  shows "runetochar c = runetochar Runeerror"
proof -
  have c: "\<not> c \<le> 0x7FF"
    using assms order_trans [of c "0x7FF" Runemax] order_trans [of SurrogateMin c "0x7FF"] by (auto simp: valid_rune_def)
  have "runetochar c = runetochar_loop c 3"
    using c above(1) [OF c] unfolding runetochar_def by (subst runetochar_loop.simps) (simp add: RuneX_values)
  also have "\<dots> = runetochar_loop Runeerror 3"
    using assms by (subst (1 2) runetochar_loop.simps) (auto simp: valid_rune_def Let_def not_le)
  also have "\<dots> = runetochar Runeerror"
    unfolding runetochar_def by (subst (2) runetochar_loop.simps) (simp add: RuneX_values)
  finally show ?thesis .
qed

text \<open>Arithmetic of the six-bit groups.\<close>

lemma and_low: "c AND 0x3F = c mod (64::u32)"
  using take_bit_eq_mask [of 6 c] by (simp add: take_bit_eq_mod mask_eq_exp_minus_1)

lemma drop_div: "drop_bit n c = c div (2 ^ n :: u32)"
  by (simp add: drop_bit_eq_div)

lemma or_disjoint:
  fixes a x :: u32
  assumes "x < 2 ^ k" and "a AND mask k = 0"
  shows "a OR x = a + x" and "a AND x = 0"
proof -
  have x: "x AND mask k = x" using assms(1) less_mask_eq [of x k] by simp
  have "a AND (x AND mask k) = (a AND mask k) AND x" by (simp add: ac_simps)
  then show "a AND x = 0" unfolding x assms(2) by simp
  then show "a OR x = a + x" by (simp add: disjunctive_add_eq_or)
qed

lemma group_add: "x < 64 \<Longrightarrow> push_bit 6 l OR x = l * 64 + (x::u32)"
proof -
  assume "x < 64"
  moreover have "push_bit 6 l AND mask 6 = 0" by (rule bit_word_eqI) (auto simp: bit_simps)
  ultimately show ?thesis using or_disjoint(1) [of x 6 "push_bit 6 l"] by (simp add: push_bit_eq_mult mult.commute)
qed

lemma tail_byte:
  assumes "x < (64::u32)"
  shows "0x80 OR x = 0x80 + x" and "(0x80 + x) XOR 0x80 = x" and "x AND 0xC0 = 0"
proof -
  note d = or_disjoint [of x 6]
  show a: "0x80 OR x = 0x80 + x" using d(1) [of "0x80"] assms by (simp add: mask_eq_exp_minus_1)
  have "(0x80 OR x) XOR 0x80 = x"
    using d(2) [of "0x80"] assms by (simp add: mask_eq_exp_minus_1 disjunctive_xor_eq_or [symmetric] xor.commute xor.left_commute)
  then show "(0x80 + x) XOR 0x80 = x" unfolding a .
  show "x AND 0xC0 = 0" using d(2) [of "0xC0"] assms by (simp add: mask_eq_exp_minus_1 and.commute)
qed

text \<open>A byte that is no continuation fails the test of the loop.\<close>

lemma tail_test:
  fixes b :: byte
  shows "(ucast b XOR 0x80 :: u32) AND 0xC0 = 0 \<longleftrightarrow> 0x80 \<le> b \<and> b < 0xC0"
proof -
  have all: "\<forall>n\<in>set [0..<256]. ((ucast (of_nat n :: byte) XOR 0x80 :: u32) AND 0xC0 = 0) = (0x80 \<le> (of_nat n :: byte) \<and> (of_nat n :: byte) < 0xC0)"
    by code_simp
  have "unat b \<in> set [0..<256]" using unsigned_less [of b, where ?'a = nat] by simp
  from bspec [OF all this] show ?thesis by simp
qed


lemma at_Cons [simp]: "at (b # s) 0 = Some (ucast b)" "at (b # s) (Suc i) = at s i" "at [] i = None"
  by (simp_all add: at_def)

lemma loop_step:
  assumes "i < 4" and "at str i = Some (0x80 + x)" and "x < 64"
  shows "chartorune_loop str c0 i l =
     (if c0 < T (i + 2) then
        let l = (l * 64 + x) AND RuneX (i + 1) in
        if (if i = 1 then c0 < T 2 \<or> l \<le> Rune1 else l \<le> RuneX i \<or> l > Runemax) then Some (Runeerror, 1)
        else if i = 2 \<and> SurrogateMin \<le> l \<and> l \<le> SurrogateMax then Some (Runeerror, 1)
        else Some (l, i + 1)
      else chartorune_loop str c0 (i + 1) (l * 64 + x))"
  using assms tail_byte [OF assms(3)] group_add [OF assms(3), of l] by (subst chartorune_loop.simps) (simp add: Let_def)

text \<open>The bytes that \<^verbatim>\<open>runetochar\<close> stores, read back as integers.\<close>

lemma ucast_back: "x < 256 \<Longrightarrow> ucast (ucast x :: byte) = (x :: u32)"
  using less_mask_eq [of x 8] by (simp add: unsigned_ucast_eq take_bit_eq_mask)

lemma mod64: "(c::u32) mod 64 < 64"
  by (simp add: word_less_nat_alt unat_mod)

lemma lead_byte:
  assumes "a < (2 ^ k :: u32)" and "h AND mask k = 0" and "h + a < 256"
  shows "ucast (ucast (h OR a) :: byte) = h + a"
  using or_disjoint(1) [OF assms(1,2)] ucast_back [OF assms(3)] by simp


lemma drop_less: "unat c < 2 ^ (n + k) \<Longrightarrow> unat (drop_bit n c) < 2 ^ k" for c :: u32
  unfolding unat_drop_bit_eq by (simp add: drop_bit_eq_div power_add less_mult_imp_div_less mult.commute)

lemma mask_add: "h AND mask k = 0 \<Longrightarrow> c < (2 ^ k :: u32) \<Longrightarrow> (h + c) AND mask k = c"
proof -
  assume a: "h AND mask k = 0" "c < 2 ^ k"
  have "(h OR c) AND mask k = (h AND mask k) OR (c AND mask k)" by (rule bit_word_eqI) (auto simp: bit_simps)
  then show ?thesis using a less_mask_eq [of c k] or_disjoint(1) [OF a(2,1)] by simp
qed

lemma regroup: "drop_bit 6 c * 64 + c mod 64 = (c :: u32)"
  using div_mult_mod_eq [of c 64] by (simp add: drop_div)

lemma tail_back: "ucast (ucast (0x80 OR (c AND 0x3F)) :: byte) = 0x80 + (c mod 64 :: u32)"
proof -
  have "0x80 + (c mod 64 :: u32) < 256" using mod64 [of c] by (simp add: word_less_nat_alt unat_word_ariths)
  then show ?thesis using tail_byte(1) [OF mod64 [of c]] ucast_back by (simp add: and_low)
qed

text \<open>The three ways in which the loop of \<^verbatim>\<open>chartorune\<close> succeeds.\<close>

lemma loop_more:
  assumes "at str i = Some (0x80 + x)" "x < 64" "i < 4" "\<not> c0 < T (i + 2)"
  shows "chartorune_loop str c0 i l = chartorune_loop str c0 (i + 1) (l * 64 + x)"
  using loop_step [OF assms(3,1,2), of c0 l] assms(4) by simp

lemma loop_stop:
  assumes "at str i = Some (0x80 + x)" "x < 64" "i < 4" "c0 < T (i + 2)" "1 < i"
    and "(l * 64 + x) AND RuneX (i + 1) = c" "\<not> c \<le> RuneX i" "valid_rune c"
  shows "chartorune_loop str c0 i l = Some (c, i + 1)"
  using assms(4-) unfolding loop_step [OF assms(3,1,2), of c0 l] Let_def assms(6) valid_rune_def by auto

lemma loop_2:
  assumes "at str 1 = Some (0x80 + x)" "x < 64" "\<not> c0 < 0xC0" "c0 < 0xE0" "(c0 * 64 + x) AND 0x7FF = c" "\<not> c \<le> 0x7F"
  shows "chartorune_loop str c0 1 c0 = Some (c, 2)"
  using loop_step [of 1 str x c0 c0] assms by (simp add: Let_def T_values RuneX_values)

lemma loop_3:
  assumes "at str 1 = Some (0x80 + x)" "x < 64" "at str 2 = Some (0x80 + y)" "y < 64" "\<not> c0 < 0xE0" "c0 < 0xF0"
    and "((c0 * 64 + x) * 64 + y) AND 0xFFFF = c" "\<not> c \<le> 0x7FF" "valid_rune c"
  shows "chartorune_loop str c0 1 c0 = Some (c, 3)"
proof -
  have "chartorune_loop str c0 1 c0 = chartorune_loop str c0 2 (c0 * 64 + x)"
    using loop_more [OF assms(1,2), of c0 c0] assms(5) by (simp add: T_values numeral_2_eq_2)
  also have "\<dots> = Some (c, 3)"
    using loop_stop [OF assms(3,4), of c0 "c0 * 64 + x" c] assms(6-) unfolding numeral_2_eq_2 [symmetric]
    by (simp add: T_values RuneX_values del: distrib_right_numeral mult.assoc)
  finally show ?thesis .
qed

lemma loop_4:
  assumes "at str 1 = Some (0x80 + x)" "x < 64" "at str 2 = Some (0x80 + y)" "y < 64" "at str 3 = Some (0x80 + z)" "z < 64"
    and "\<not> c0 < 0xF0" "c0 < 0xF8" "(((c0 * 64 + x) * 64 + y) * 64 + z) AND 0x1FFFFF = c" "\<not> c \<le> 0xFFFF" "valid_rune c"
  shows "chartorune_loop str c0 1 c0 = Some (c, 4)"
proof -
  have e: "\<not> c0 < 0xE0" using assms(7) less_trans [of c0 "0xE0" "0xF0"] by auto
  have "chartorune_loop str c0 1 c0 = chartorune_loop str c0 2 (c0 * 64 + x)"
    using loop_more [OF assms(1,2), of c0 c0] e by (simp add: T_values numeral_2_eq_2)
  also have "\<dots> = chartorune_loop str c0 3 ((c0 * 64 + x) * 64 + y)"
    using loop_more [OF assms(3,4), of c0 "c0 * 64 + x"] assms(7) by (simp add: T_values del: distrib_right_numeral mult.assoc)
  also have "\<dots> = Some (c, 4)"
    using loop_stop [OF assms(5,6), of c0 "(c0 * 64 + x) * 64 + y" c] assms(8-)
    by (simp add: T_values RuneX_values del: distrib_right_numeral mult.assoc)
  finally show ?thesis .
qed

text \<open>What \<^verbatim>\<open>runetochar\<close> writes for a rune is read back by \<^verbatim>\<open>chartorune\<close>, by the length of the sequence.\<close>

lemma at_values: "at (a # b # s) 1 = Some (ucast b)" "at (a # b # d # s) 2 = Some (ucast d)" "at (a # b # d # e # s) 3 = Some (ucast e)"
  by (simp_all add: at_def numeral_2_eq_2 numeral_3_eq_3)

lemma scale: "(h + a) * 64 + x = h * 64 + (a * 64 + x)" for h a x :: u32
  by (simp add: algebra_simps)

lemma back_2:
  assumes "\<not> c \<le> 0x7F" "c \<le> (0x7FF :: u32)"
  shows "chartorune (runetochar c @ rest) = Some (c, 2)"
proof -
  have c: "unat c < 2 ^ 11" using assms(2) by (simp add: word_le_nat_alt)
  define c0 where "c0 = 0xC0 + drop_bit 6 c"
  have "unat (drop_bit 6 c) < 2 ^ 5" using drop_less [of c 6 5] c by simp
  then have a: "drop_bit 6 c < 2 ^ 5" "c0 < 256" "c0 < 0xE0" "\<not> c0 < 0xC0" "\<not> c0 < 0x80"
    by (simp_all add: c0_def word_less_nat_alt unat_word_ariths)
  have b0: "ucast (ucast (0xC0 OR drop_bit 6 c) :: byte) = c0"
    unfolding c0_def by (rule lead_byte [OF a(1) _ a(2) [unfolded c0_def]]) (simp add: mask_eq_exp_minus_1)
  have "c0 * 64 + c mod 64 = 0x3000 + c" unfolding c0_def scale regroup by simp
  then have m: "(c0 * 64 + c mod 64) AND 0x7FF = c"
    using mask_add [of "0x3000" 11 c] c by (simp add: mask_eq_exp_minus_1 word_less_nat_alt)
  show ?thesis
    using loop_2 [OF _ mod64 a(4,3) m assms(1)] a(5) by (simp add: runetochar_2 [OF assms] chartorune_def tail_back b0)
qed

lemma back_3:
  assumes "\<not> c \<le> 0x7FF" "c \<le> (0xFFFF :: u32)" "valid_rune c"
  shows "chartorune (runetochar c @ rest) = Some (c, 3)"
proof -
  have c: "unat c < 2 ^ 16" using assms(2) by (simp add: word_le_nat_alt)
  define c0 where "c0 = 0xE0 + drop_bit 12 c"
  have "unat (drop_bit 12 c) < 2 ^ 4" using drop_less [of c 12 4] c by simp
  then have a: "drop_bit 12 c < 2 ^ 4" "c0 < 256" "c0 < 0xF0" "\<not> c0 < 0xE0" "\<not> c0 < 0x80"
    by (simp_all add: c0_def word_less_nat_alt unat_word_ariths)
  have b0: "ucast (ucast (0xE0 OR drop_bit 12 c) :: byte) = c0"
    unfolding c0_def by (rule lead_byte [OF a(1) _ a(2) [unfolded c0_def]]) (simp add: mask_eq_exp_minus_1)
  have d: "drop_bit 12 c * 64 + drop_bit 6 c mod 64 = drop_bit 6 c" using regroup [of "drop_bit 6 c"] by (simp add: drop_bit_drop_bit)
  have "(c0 * 64 + drop_bit 6 c mod 64) * 64 + c mod 64 = 0xE0000 + c" unfolding c0_def scale d regroup by simp
  then have m: "((c0 * 64 + drop_bit 6 c mod 64) * 64 + c mod 64) AND 0xFFFF = c"
    using mask_add [of "0xE0000" 16 c] c by (simp add: mask_eq_exp_minus_1 word_less_nat_alt)
  show ?thesis
    unfolding runetochar_3 [OF assms] chartorune_def append_Cons at_Cons option.case b0
    using a(5) loop_3 [OF _ mod64 _ mod64 a(4,3) m assms(1,3)] by (simp add: at_values tail_back)
qed

lemma back_4:
  assumes "\<not> c \<le> 0xFFFF" "valid_rune c"
  shows "chartorune (runetochar c @ rest) = Some (c, 4)"
proof -
  have c: "unat c < 2 ^ 21" using assms(2) by (simp add: word_le_nat_alt valid_rune_def)
  define c0 where "c0 = 0xF0 + drop_bit 18 c"
  have "unat (drop_bit 18 c) < 2 ^ 3" using drop_less [of c 18 3] c by simp
  then have a: "drop_bit 18 c < 2 ^ 3" "c0 < 256" "c0 < 0xF8" "\<not> c0 < 0xF0" "\<not> c0 < 0x80"
    by (simp_all add: c0_def word_less_nat_alt unat_word_ariths)
  have b0: "ucast (ucast (0xF0 OR drop_bit 18 c) :: byte) = c0"
    unfolding c0_def by (rule lead_byte [OF a(1) _ a(2) [unfolded c0_def]]) (simp add: mask_eq_exp_minus_1)
  have d: "drop_bit 12 c * 64 + drop_bit 6 c mod 64 = drop_bit 6 c" "drop_bit 18 c * 64 + drop_bit 12 c mod 64 = drop_bit 12 c"
    using regroup [of "drop_bit 6 c"] regroup [of "drop_bit 12 c"] by (simp_all add: drop_bit_drop_bit)
  have "((c0 * 64 + drop_bit 12 c mod 64) * 64 + drop_bit 6 c mod 64) * 64 + c mod 64 = 0x3C00000 + c"
    unfolding c0_def scale d regroup by simp
  then have m: "(((c0 * 64 + drop_bit 12 c mod 64) * 64 + drop_bit 6 c mod 64) * 64 + c mod 64) AND 0x1FFFFF = c"
    using mask_add [of "0x3C00000" 21 c] c by (simp add: mask_eq_exp_minus_1 word_less_nat_alt)
  show ?thesis
    unfolding runetochar_4 [OF assms] chartorune_def append_Cons at_Cons option.case b0
    using a(5) loop_4 [OF _ mod64 _ mod64 _ mod64 a(4,3) m assms(1,2)] by (simp add: at_values tail_back)
qed

lemma runetochar_1: "c \<le> 0x7F \<Longrightarrow> runetochar c = [ucast c]"
  by (simp add: runetochar_def)

lemma chartorune_back:
  assumes "valid_rune c"
  shows "chartorune (runetochar c @ rest) = Some (c, length (runetochar c))"
proof -
  consider "c \<le> 0x7F" | "\<not> c \<le> 0x7F" "c \<le> 0x7FF" | "\<not> c \<le> 0x7FF" "c \<le> 0xFFFF" | "\<not> c \<le> 0xFFFF" by blast
  then show ?thesis
  proof cases
    case 1
    then have "unat c < 128" by (simp add: word_le_nat_alt)
    then have "c < 128" "ucast (ucast c :: byte) = c" using ucast_back [of c] by (simp_all add: word_less_nat_alt)
    then show ?thesis by (simp add: runetochar_1 [OF 1] chartorune_def)
  next
    case 2 then show ?thesis using back_2 by (simp add: runetochar_2)
  next
    case 3 then show ?thesis using back_3 assms by (simp add: runetochar_3)
  next
    case 4 then show ?thesis using back_4 assms by (simp add: runetochar_4)
  qed
qed

text \<open>The other way round: the bytes of an accepted sequence are those of its rune.\<close>

lemma unat_byte: "unat (ucast b :: u32) = unat (b :: byte)"
  using unsigned_less [of b, where ?'a = nat] by (simp add: unsigned_ucast_eq take_bit_eq_mod)

lemma tail_cases:
  assumes "at str i = Some w" and "(w XOR 0x80) AND 0xC0 = 0"
  obtains x where "x < 64" and "w = 0x80 + x"
proof -
  obtain b :: byte where w: "w = ucast b" using assms(1) by (auto simp: at_def split: if_splits)
  then have "0x80 \<le> b \<and> b < 0xC0" using assms(2) tail_test [of b] by simp
  then have n: "0x80 \<le> unat w" "unat w < 0xC0" by (auto simp: w word_le_nat_alt word_less_nat_alt unat_byte)
  have "unat (w - 0x80) = unat w - 0x80" using n(1) by (simp add: unat_sub word_le_nat_alt)
  then have "w - 0x80 < 64" using n by (simp add: word_less_nat_alt)
  then show ?thesis using that [of "w - 0x80"] by simp
qed

lemma loop_cases:
  assumes "chartorune_loop str c0 i l = Some res" and "i < 4" and "res \<noteq> (Runeerror, 1)"
  obtains x where "x < 64" and "at str i = Some (0x80 + x)"
    and "if c0 < T (i + 2)
      then res = ((l * 64 + x) AND RuneX (i + 1), i + 1) \<and>
        (if i = 1 then \<not> c0 < T 2 \<and> \<not> fst res \<le> Rune1 else \<not> fst res \<le> RuneX i \<and> \<not> fst res > Runemax) \<and>
        \<not> (i = 2 \<and> SurrogateMin \<le> fst res \<and> fst res \<le> SurrogateMax)
      else chartorune_loop str c0 (i + 1) (l * 64 + x) = Some res"
proof -
  obtain w where w: "at str i = Some w" "(w XOR 0x80) AND 0xC0 = 0"
    using assms by (subst (asm) chartorune_loop.simps) (auto simp: Let_def split: option.splits if_splits)
  obtain x where x: "x < 64" "w = 0x80 + x" by (rule tail_cases [OF w])
  have a: "at str i = Some (0x80 + x)" using w(1) x(2) by simp
  show ?thesis
    using assms(1,3) by (intro that [OF x(1) a]) (auto simp: loop_step [OF assms(2) a x(1)] Let_def split: if_splits)
qed

lemma split_group:
  assumes "x < 64" and "unat a < 2 ^ 26"
  shows "drop_bit 6 (a * 64 + x) = a" and "(a * 64 + x) AND 0x3F = (x :: u32)" and "unat (a * 64 + x) = unat a * 64 + unat x"
proof -
  have x: "unat x < 64" using assms(1) by (simp add: word_less_nat_alt)
  show u: "unat (a * 64 + x) = unat a * 64 + unat x" using x assms(2) by (simp add: unat_word_ariths)
  show "drop_bit 6 (a * 64 + x) = a"
    by (rule word_unat_eq_iff [THEN iffD2]) (use x u in \<open>simp add: drop_div unat_div\<close>)
  show "(a * 64 + x) AND 0x3F = x"
    by (rule word_unat_eq_iff [THEN iffD2]) (use x u in \<open>simp add: and_low unat_mod\<close>)
qed

lemma high_byte:
  fixes c0 :: u32
  assumes "\<not> c0 < h" and "c0 < h + 2 ^ k" and "unat h + 2 ^ k \<le> 256" and "h AND mask k = 0" and p: "unat (2 ^ k :: u32) = 2 ^ k"
  obtains a where "c0 = h + a" and "unat a < 2 ^ k" and "h OR a = c0"
proof -
  have "unat (h + 2 ^ k) = unat h + 2 ^ k" using assms(3) p by (simp add: unat_word_ariths)
  then have n: "unat h \<le> unat c0" "unat c0 < unat h + 2 ^ k" using assms(1,2) by (simp_all add: word_less_nat_alt)
  have "unat (c0 - h) = unat c0 - unat h" using n(1) by (simp add: unat_sub word_le_nat_alt)
  then have a: "unat (c0 - h) < 2 ^ k" using n by simp
  then have "c0 - h < 2 ^ k" by (simp add: word_less_nat_alt p)
  then show ?thesis using that [of "c0 - h"] a or_disjoint(1) [OF _ assms(4)] by simp
qed

lemma byte_up [simp]: "ucast (ucast b :: u32) = (b :: byte)"
  by (rule bit_word_eqI) (simp add: bit_simps)

lemma take_at:
  "at str 0 = Some w \<Longrightarrow> take 1 str = [ucast w]"
  "at str 0 = Some w \<Longrightarrow> at str 1 = Some x \<Longrightarrow> take 2 str = [ucast w, ucast x]"
  "at str 0 = Some w \<Longrightarrow> at str 1 = Some x \<Longrightarrow> at str 2 = Some y \<Longrightarrow> take 3 str = [ucast w, ucast x, ucast y]"
  "at str 0 = Some w \<Longrightarrow> at str 1 = Some x \<Longrightarrow> at str 2 = Some y \<Longrightarrow> at str 3 = Some z \<Longrightarrow>
     take 4 str = [ucast w, ucast x, ucast y, ucast z]"
  by (auto simp: at_def take_Suc_conv_app_nth numeral_eq_Suc split: if_splits)

lemma accepted_2:
  assumes "at str 0 = Some c0" "at str 1 = Some (0x80 + x)" "x < 64" "\<not> c0 < 0xC0" "c0 < 0xE0"
    and "(c0 * 64 + x) AND 0x7FF = c" "\<not> c \<le> 0x7F"
  shows "valid_rune c \<and> runetochar c = take 2 str"
proof -
  obtain a where a: "c0 = 0xC0 + a" "unat a < 2 ^ 5" "0xC0 OR a = c0"
    by (rule high_byte [OF assms(4), of 5]) (use assms(5) in \<open>auto simp: mask_eq_exp_minus_1\<close>)
  have g: "drop_bit 6 (a * 64 + x) = a" "(a * 64 + x) AND 0x3F = x" "unat (a * 64 + x) = unat a * 64 + unat x"
    using split_group [OF assms(3), of a] a(2) by simp_all
  have x: "unat x < 64" using assms(3) by (simp add: word_less_nat_alt)
  have b: "unat (a * 64 + x) < 2 ^ 11" unfolding g(3) using a(2) x by simp
  have c: "c = a * 64 + x"
    using mask_add [of "0x3000" 11 "a * 64 + x"] b assms(6) by (simp add: a(1) scale add.assoc mask_eq_exp_minus_1 word_less_nat_alt)
  have le: "c \<le> 0x7FF" using b unfolding c by (simp add: word_le_nat_alt)
  have "runetochar c = take 2 str"
    using runetochar_2 [OF assms(7) le] unfolding take_at(2) [OF assms(1,2)] c g a(3) tail_byte(1) [OF assms(3)] by simp
  then show ?thesis using order_trans [OF le, of Runemax] order_trans [of SurrogateMin, OF _ le] by (auto simp: valid_rune_def)
qed

lemma accepted_3:
  assumes "at str 0 = Some c0" "at str 1 = Some (0x80 + x)" "x < 64" "at str 2 = Some (0x80 + y)" "y < 64" "\<not> c0 < 0xE0" "c0 < 0xF0"
    and "((c0 * 64 + x) * 64 + y) AND 0xFFFF = c" "\<not> c \<le> 0x7FF" "valid_rune c"
  shows "runetochar c = take 3 str"
proof -
  obtain a where a: "c0 = 0xE0 + a" "unat a < 2 ^ 4" "0xE0 OR a = c0"
    by (rule high_byte [OF assms(6), of 4]) (use assms(7) in \<open>auto simp: mask_eq_exp_minus_1\<close>)
  define d where "d = a * 64 + x"
  have g: "drop_bit 6 d = a" "d AND 0x3F = x" "unat d = unat a * 64 + unat x"
    unfolding d_def using split_group [OF assms(3), of a] a(2) by simp_all
  have x: "unat x < 64" "unat y < 64" using assms(3,5) by (simp_all add: word_less_nat_alt)
  have g': "drop_bit 6 (d * 64 + y) = d" "(d * 64 + y) AND 0x3F = y" "unat (d * 64 + y) = unat d * 64 + unat y"
    using split_group [OF assms(5), of d] a(2) x(1) unfolding g(3) by simp_all
  have b: "unat (d * 64 + y) < 2 ^ 16" unfolding g'(3) g(3) using a(2) x by simp
  have e: "(c0 * 64 + x) * 64 + y = 0xE0000 + (d * 64 + y)" unfolding a(1) scale d_def [symmetric] by simp
  have c: "c = d * 64 + y"
    using mask_add [of "0xE0000" 16 "d * 64 + y"] b assms(8) unfolding e by (simp add: mask_eq_exp_minus_1 word_less_nat_alt)
  have le: "c \<le> 0xFFFF" using b unfolding c by (simp add: word_le_nat_alt)
  have "drop_bit 12 c = drop_bit 6 (drop_bit 6 c)" by (simp add: drop_bit_drop_bit)
  then show ?thesis
    using runetochar_3 [OF assms(9) le assms(10)]
    unfolding take_at(3) [OF assms(1,2,4)] c g g' a(3) tail_byte(1) [OF assms(3)] tail_byte(1) [OF assms(5)] by (simp add: a(3) g)
qed

lemma accepted_4:
  assumes "at str 0 = Some c0" "at str 1 = Some (0x80 + x)" "x < 64" "at str 2 = Some (0x80 + y)" "y < 64"
    and "at str 3 = Some (0x80 + z)" "z < 64" "\<not> c0 < 0xF0" "c0 < 0xF8"
    and "(((c0 * 64 + x) * 64 + y) * 64 + z) AND 0x1FFFFF = c" "\<not> c \<le> 0xFFFF" "valid_rune c"
  shows "runetochar c = take 4 str"
proof -
  obtain a where a: "c0 = 0xF0 + a" "unat a < 2 ^ 3" "0xF0 OR a = c0"
    by (rule high_byte [OF assms(8), of 3]) (use assms(9) in \<open>auto simp: mask_eq_exp_minus_1\<close>)
  define d where "d = a * 64 + x"
  define f where "f = d * 64 + y"
  have x: "unat x < 64" "unat y < 64" "unat z < 64" using assms(3,5,7) by (simp_all add: word_less_nat_alt)
  have g: "drop_bit 6 d = a" "d AND 0x3F = x" "unat d = unat a * 64 + unat x"
    unfolding d_def using split_group [OF assms(3), of a] a(2) by simp_all
  have g': "drop_bit 6 f = d" "f AND 0x3F = y" "unat f = unat d * 64 + unat y"
    unfolding f_def using split_group [OF assms(5), of d] a(2) x(1) unfolding g(3) by simp_all
  have g'': "drop_bit 6 (f * 64 + z) = f" "(f * 64 + z) AND 0x3F = z" "unat (f * 64 + z) = unat f * 64 + unat z"
    using split_group [OF assms(7), of f] a(2) x unfolding g'(3) g(3) by simp_all
  have b: "unat (f * 64 + z) < 2 ^ 21" unfolding g''(3) g'(3) g(3) using a(2) x by simp
  have e: "((c0 * 64 + x) * 64 + y) * 64 + z = 0x3C00000 + (f * 64 + z)" unfolding a(1) scale d_def [symmetric] f_def [symmetric] by simp
  have c: "c = f * 64 + z"
    using mask_add [of "0x3C00000" 21 "f * 64 + z"] b assms(10) unfolding e by (simp add: mask_eq_exp_minus_1 word_less_nat_alt)
  have "drop_bit 12 c = drop_bit 6 (drop_bit 6 c)" "drop_bit 18 c = drop_bit 6 (drop_bit 6 (drop_bit 6 c))"
    by (simp_all add: drop_bit_drop_bit)
  then show ?thesis
    using runetochar_4 [OF assms(11,12)]
    unfolding take_at(4) [OF assms(1,2,4,6)] c g g' g'' a(3) tail_byte(1) [OF assms(3)] tail_byte(1) [OF assms(5)] tail_byte(1) [OF assms(7)]
    by (simp add: a(3) g tail_byte(1) [OF assms(3)])
qed

text \<open>The last iterations first.\<close>

lemma accepted_loop_3:
  assumes "at str 0 = Some c0" "at str 1 = Some (0x80 + x)" "x < 64" "at str 2 = Some (0x80 + y)" "y < 64" "\<not> c0 < 0xF0"
    and l: "chartorune_loop str c0 3 ((c0 * 64 + x) * 64 + y) = Some (c, n)" and ok: "(c, n) \<noteq> (Runeerror, 1)"
  shows "valid_rune c \<and> runetochar c = take n str"
proof -
  obtain z where z: "z < 64" "at str 3 = Some (0x80 + z)" and
    three: "if c0 < 0xF8 then (((c0 * 64 + x) * 64 + y) * 64 + z) AND 0x1FFFFF = c \<and> n = 4 \<and> \<not> c \<le> 0xFFFF \<and> \<not> c > Runemax
          else chartorune_loop str c0 4 (((c0 * 64 + x) * 64 + y) * 64 + z) = Some (c, n)"
    by (rule loop_cases [OF l _ ok])
      (auto simp: T_values RuneX_values simp del: distrib_right_numeral mult.assoc split: if_splits)
  have "c0 < 0xF8" using three ok by (subst (asm) chartorune_loop.simps) (auto split: if_splits)
  moreover have "\<not> c \<le> 0xFFFF \<Longrightarrow> \<not> c > Runemax \<Longrightarrow> valid_rune c"
    using order_trans [of c SurrogateMax "0xFFFF"] by (auto simp: valid_rune_def)
  ultimately show ?thesis using three accepted_4 [OF assms(1-5) z(2,1) assms(6), of c] by simp
qed

lemma accepted_loop_2:
  assumes "at str 0 = Some c0" "at str 1 = Some (0x80 + x)" "x < 64" "\<not> c0 < 0xE0"
    and l: "chartorune_loop str c0 2 (c0 * 64 + x) = Some (c, n)" and ok: "(c, n) \<noteq> (Runeerror, 1)"
  shows "valid_rune c \<and> runetochar c = take n str"
proof -
  obtain y where y: "y < 64" "at str 2 = Some (0x80 + y)" and
    two: "if c0 < 0xF0 then ((c0 * 64 + x) * 64 + y) AND 0xFFFF = c \<and> n = 3 \<and> \<not> c \<le> 0x7FF \<and> valid_rune c
          else chartorune_loop str c0 3 ((c0 * 64 + x) * 64 + y) = Some (c, n)"
    by (rule loop_cases [OF l _ ok])
      (auto simp: T_values RuneX_values valid_rune_def not_less simp del: distrib_right_numeral mult.assoc split: if_splits)
  show ?thesis
    using two accepted_3 [OF assms(1-3) y(2,1) assms(4), of c] accepted_loop_3 [OF assms(1-3) y(2,1) _ _ ok] by (cases "c0 < 0xF0") auto
qed

lemma chartorune_accepted:
  assumes "chartorune str = Some (c, n)" and ok: "(c, n) \<noteq> (Runeerror, 1)"
  shows "valid_rune c \<and> runetochar c = take n str"
proof -
  obtain c0 where c0: "at str 0 = Some c0" using assms(1) by (auto simp: chartorune_def split: option.splits)
  show ?thesis
  proof (cases "c0 < 0x80")
    case True
    then have n: "c = c0" "n = 1" using assms(1) c0 by (simp_all add: chartorune_def)
    have "c0 \<le> 0x7F" using True by (simp add: word_le_nat_alt word_less_nat_alt)
    then show ?thesis
      using take_at(1) [OF c0] order_trans [of c0 "0x7F" Runemax] order_trans [of SurrogateMin c0 "0x7F"]
      by (auto simp: n runetochar_1 valid_rune_def)
  next
    case False
    then have l: "chartorune_loop str c0 1 c0 = Some (c, n)" using assms(1) c0 by (simp add: chartorune_def)
    obtain x where x: "x < 64" "at str 1 = Some (0x80 + x)" and
      one: "if c0 < 0xE0 then c = (c0 * 64 + x) AND 0x7FF \<and> n = 2 \<and> \<not> c0 < 0xC0 \<and> \<not> c \<le> 0x7F
            else chartorune_loop str c0 2 (c0 * 64 + x) = Some (c, n)"
      by (rule loop_cases [OF l _ ok]) (auto simp: T_values RuneX_values numeral_2_eq_2 split: if_splits)
    show ?thesis
      using one accepted_2 [OF c0 x(2,1), of c] accepted_loop_2 [OF c0 x(2,1) _ _ ok] by (cases "c0 < 0xE0") auto
  qed
qed

text \<open>More memory behind the string changes nothing, and the NUL of a string is never passed.\<close>

lemma at_append: "at s i = Some w \<Longrightarrow> at (s @ t) i = Some w"
  by (auto simp: at_def nth_append split: if_splits)

lemma loop_mono: "chartorune_loop s c0 i l = Some r \<Longrightarrow> chartorune_loop (s @ t) c0 i l = Some r"
proof (induction "4 - i" arbitrary: i l)
  case 0
  then show ?case by (simp add: loop_over)
next
  case (Suc k)
  then have i: "i < 4" by simp
  obtain w where w: "at s i = Some w" using Suc.prems(1) loop_none [OF i] by (cases "at s i") auto
  show ?case by (rule loop_either [OF i, where w = w and ?c0.0 = c0 and l = l]) (use Suc w at_append [OF w] in auto)
qed

lemma chartorune_mono:
  assumes "chartorune s = Some r"
  shows "chartorune (s @ t) = Some r"
proof -
  obtain c0 where c0: "at s 0 = Some c0" using assms by (auto simp: chartorune_def split: option.splits)
  then show ?thesis
    using assms loop_mono [of s c0 1 c0 r t] at_append [OF c0, of t] by (auto simp: chartorune_def split: if_splits)
qed

lemma loop_stops: "i \<le> k \<Longrightarrow> at s k = Some 0 \<Longrightarrow> chartorune_loop s c0 i l \<noteq> None"
proof (induction "4 - i" arbitrary: i l)
  case 0
  then show ?case by (simp add: loop_over)
next
  case (Suc j)
  then have i: "i < 4" by simp
  obtain w where w: "at s i = Some w" using Suc.prems by (auto simp: at_def split: if_splits)
  show ?case
  proof (rule loop_either [OF i, where w = w and ?c0.0 = c0 and l = l])
    fix l'
    assume a: "\<And>s. at s i = Some w \<Longrightarrow> chartorune_loop s c0 i l = chartorune_loop s c0 (i + 1) l'" "(w XOR 0x80) AND 0xC0 = 0"
    have "i \<noteq> k" using w Suc.prems(2) a(2) by auto
    then have "i + 1 \<le> k" using Suc.prems(1) by simp
    then show ?thesis using a(1) [OF w] Suc by auto
  qed (use w in auto)
qed

lemma chartorune_total:
  assumes "0 \<in> set s"
  shows "chartorune s \<noteq> None"
proof -
  obtain k where k: "k < length s" "s ! k = 0" using assms by (auto simp: in_set_conv_nth)
  then have z: "at s k = Some 0" by (simp add: at_def)
  show ?thesis
  proof (cases k)
    case 0 then show ?thesis using z by (simp add: chartorune_def)
  next
    case (Suc j)
    then have "at s 0 \<noteq> None" using k(1) by (auto simp: at_def)
    then show ?thesis using loop_stops [OF _ z, of 1] Suc by (auto simp: chartorune_def split: option.splits)
  qed
qed

text \<open>The shape of an encoded rune: one byte of its own, or a leading byte and continuation bytes.\<close>

lemma tail_range: "0x80 \<le> (ucast (0x80 OR (c AND 0x3F) :: u32) :: byte) \<and> (ucast (0x80 OR (c AND 0x3F) :: u32) :: byte) < 0xC0"
proof -
  have "unat (ucast (0x80 OR (c AND 0x3F) :: u32) :: byte) = unat (0x80 + c mod 64)"
    using tail_back [of c] unat_byte by metis
  then show ?thesis by (simp add: word_le_nat_alt word_less_nat_alt unat_word_ariths)
qed

lemma lead_range: "h AND 0xC0 = 0xC0 \<Longrightarrow> (0xC0 :: byte) \<le> ucast (h OR a :: u32)"
proof -
  assume "h AND 0xC0 = 0xC0"
  then have "ucast (h AND 0xC0) = (0xC0 :: byte)" by simp
  then have "ucast h AND (0xC0 :: byte) = 0xC0" by (simp add: unsigned_and_eq)
  then have "(0xC0 :: byte) \<le> ucast h" using word_and_le2 [of "ucast h" "0xC0 :: byte"] by simp
  also have "(ucast h :: byte) \<le> ucast (h OR a)" using le_word_or2 by (simp add: unsigned_or_eq)
  finally show ?thesis .
qed

lemma runetochar_shape:
  assumes "valid_rune c" and "\<not> c \<le> 0x7F"
  obtains b bs where "runetochar c = b # bs" and "0xC0 \<le> b" and "\<forall>x\<in>set bs. 0x80 \<le> x \<and> x < 0xC0" and "bs \<noteq> []"
proof -
  consider "c \<le> 0x7FF" | "\<not> c \<le> 0x7FF" "c \<le> 0xFFFF" | "\<not> c \<le> 0xFFFF" by blast
  then show ?thesis
  proof cases
    case 1 then show ?thesis by (intro that [OF runetochar_2]) (auto simp: assms lead_range tail_range)
  next
    case 2 then show ?thesis by (intro that [OF runetochar_3]) (auto simp: assms lead_range tail_range)
  next
    case 3 then show ?thesis by (intro that [OF runetochar_4]) (auto simp: assms lead_range tail_range)
  qed
qed

section \<open>Encoded text\<close>

definition encode :: "Rune list \<Rightarrow> bytes" where
  "encode rs = concat (map runetochar rs)"

lemma encode_simps [simp]: "encode [] = []" "encode (r # rs) = runetochar r @ encode rs" "encode (rs @ rs') = encode rs @ encode rs'"
  by (simp_all add: encode_def)

text \<open>Text: valid runes other than NUL.\<close>

definition plain :: "Rune list \<Rightarrow> bool" where
  "plain rs \<longleftrightarrow> (\<forall>r\<in>set rs. valid_rune r \<and> r \<noteq> 0)"

lemma plain_simps [simp]: "plain []" "plain (r # rs) \<longleftrightarrow> valid_rune r \<and> r \<noteq> 0 \<and> plain rs" "plain (rs @ rs') \<longleftrightarrow> plain rs \<and> plain rs'"
  by (auto simp: plain_def)

text \<open>How the string routines see the next rune of a text.\<close>

lemma self_rune: "r \<le> 0x7F \<longleftrightarrow> r < (0x80 :: u32)"
  by (simp add: word_le_nat_alt word_less_nat_alt) linarith

lemma next_rune:
  assumes "valid_rune r"
  obtains (self) "r < 0x80" and "runetochar r = [ucast r]" and "ucast (ucast r :: byte) = r"
    | (sequence) b bs where "runetochar r = b # bs" and "0xC0 \<le> b" and "\<forall>x\<in>set bs. 0x80 \<le> x \<and> x < 0xC0"
        and "\<not> r < 0x80" and "\<not> (ucast b :: u32) < 0x80" and "bs \<noteq> []"
proof (cases "r < 0x80")
  case True
  then have "ucast (ucast r :: byte) = r" using ucast_back [of r] by (simp add: word_less_nat_alt)
  then show ?thesis using self True by (simp add: runetochar_1 self_rune)
next
  case False
  obtain b bs where b: "runetochar r = b # bs" "0xC0 \<le> b" "\<forall>x\<in>set bs. 0x80 \<le> x \<and> x < 0xC0" "bs \<noteq> []"
    by (rule runetochar_shape [OF assms]) (use False in \<open>auto simp: self_rune\<close>)
  moreover have "\<not> (ucast b :: u32) < 0x80" using b(2) by (simp add: word_le_nat_alt word_less_nat_alt unat_byte)
  ultimately show ?thesis using sequence False by blast
qed

lemma back_rest: "valid_rune r \<Longrightarrow> chartorune (runetochar r @ t) = Some (r, length (runetochar r))"
  by (rule chartorune_back)

lemma utflen_text: "plain rs \<Longrightarrow> utflen_loop (encode rs @ 0 # t) n = Some (n + length rs)"
proof (induction rs arbitrary: n)
  case Nil
  then show ?case by (subst utflen_loop.simps) simp
next
  case (Cons r rs)
  then have "valid_rune r" by simp
  then show ?case
  proof (cases rule: next_rune)
    case self
    then show ?thesis using Cons by (subst utflen_loop.simps) auto
  next
    case (sequence b bs)
    then show ?thesis using Cons back_rest [of r "encode rs @ 0 # t"] by (subst utflen_loop.simps) auto
  qed
qed

lemma utfrune_loop_text:
  "plain rs \<Longrightarrow> utfrune_loop (encode rs @ u) c k =
     (if c \<in> set rs then Some (Some (k + length (encode (takeWhile (\<lambda>r. r \<noteq> c) rs)))) else utfrune_loop u c (k + length (encode rs)))"
proof (induction rs arbitrary: k)
  case (Cons r rs)
  then have "valid_rune r" by simp
  then show ?case
  proof (cases rule: next_rune)
    case self
    then show ?thesis using Cons by (subst utfrune_loop.simps) auto
  next
    case (sequence b bs)
    then show ?thesis using Cons back_rest [of r "encode rs @ u"] by (subst utfrune_loop.simps) (auto simp: ac_simps)
  qed
qed simp

text \<open>The last occurrence of a rune, as an offset.\<close>

fun latest :: "Rune \<Rightarrow> Rune list \<Rightarrow> nat \<Rightarrow> nat option \<Rightarrow> nat option" where
  "latest c [] k p = p"
| "latest c (r # rs) k p = latest c rs (k + length (runetochar r)) (if r = c then Some k else p)"

lemma latest_skip: "c \<notin> set rs \<Longrightarrow> latest c (rs @ rs') k p = latest c rs' (k + length (encode rs)) p"
  by (induction rs arbitrary: k) (auto simp: ac_simps)

lemma latest_append: "latest c (rs @ rs') k p = latest c rs' (k + length (encode rs)) (latest c rs k p)"
  by (induction rs arbitrary: k p) (auto simp: ac_simps)

lemma latest_rev:
  "latest c rs k p = (if c \<in> set rs then Some (k + length (encode (rev (tl (dropWhile (\<lambda>r. r \<noteq> c) (rev rs)))))) else p)"
proof (induction rs rule: rev_induct)
  case (snoc r rs)
  then show ?case by (auto simp: latest_append)
qed simp

lemma utfrrune_loop_text: "plain rs \<Longrightarrow> utfrrune_loop (encode rs @ 0 # t) c k p = Some (latest c rs k p)"
proof (induction rs arbitrary: k p)
  case Nil
  then show ?case by (subst utfrrune_loop.simps) simp
next
  case (Cons r rs)
  then have "valid_rune r" by simp
  then show ?case
  proof (cases rule: next_rune)
    case self
    then show ?thesis using Cons by (subst utfrrune_loop.simps) auto
  next
    case (sequence b bs)
    then show ?thesis using Cons back_rest [of r "encode rs @ 0 # t"] by (subst utfrrune_loop.simps) auto
  qed
qed

text \<open>For a rune of one byte the routines search bytes.\<close>

lemma strchr_skip: "\<forall>x\<in>set p. x \<noteq> 0 \<and> x \<noteq> c \<Longrightarrow> strchr_loop (p @ u) c k = strchr_loop u c (k + length p)"
  by (induction p arbitrary: k) auto

lemma rune_bytes:
  assumes "valid_rune r" and "r \<noteq> 0" and "c < 0x80" and "r \<noteq> c" and "x \<in> set (runetochar r)"
  shows "x \<noteq> 0 \<and> x \<noteq> ucast c"
  using assms(1)
proof (cases rule: next_rune)
  case self
  have "ucast (ucast c :: byte) = c" using assms(3) ucast_back [of c] by (simp add: word_less_nat_alt)
  then show ?thesis using self assms by (metis empty_iff insert_iff list.set unsigned_0)
next
  case (sequence b bs)
  then have "\<not> x < 0x80" using assms(5) by (auto simp: word_le_nat_alt word_less_nat_alt)
  moreover have "(ucast c :: byte) < 0x80"
    using assms(3) ucast_back [of c] unat_byte [of "ucast c"] by (simp add: word_less_nat_alt)
  ultimately show ?thesis by auto
qed

lemma encode_bytes:
  assumes "plain rs" and "c < 0x80" and "c \<notin> set rs" and "x \<in> set (encode rs)"
  shows "x \<noteq> 0 \<and> x \<noteq> ucast c"
proof -
  obtain r where "r \<in> set rs" "x \<in> set (runetochar r)" using assms(4) by (auto simp: encode_def)
  then show ?thesis using rune_bytes [OF _ _ assms(2), of r x] assms(1,3) by (auto simp: plain_def)
qed

lemma takeWhile_first: "c \<notin> set a \<Longrightarrow> takeWhile (\<lambda>r. r \<noteq> c) (a @ c # b) = a"
  by (induction a) auto

lemma strchr_text:
  assumes "plain rs" and "c < 0x80" and "c \<noteq> 0"
  shows "strchr (encode rs @ 0 # t) c = Some (if c \<in> set rs then Some (length (encode (takeWhile (\<lambda>r. r \<noteq> c) rs))) else None)"
proof (cases "c \<in> set rs")
  case True
  then obtain a b where rs: "rs = a @ c # b" "c \<notin> set a" by (metis split_list_first)
  then have a: "plain a" "takeWhile (\<lambda>r. r \<noteq> c) rs = a" using assms(1) by (auto simp: takeWhile_first)
  have "(ucast c :: byte) \<noteq> 0" using assms ucast_back [of c] by (auto simp: word_less_nat_alt)
  then show ?thesis
    using strchr_skip [of "encode a" "ucast c"] encode_bytes [OF a(1) assms(2) rs(2)] assms(2,3)
    by (simp add: strchr_def a(2)) (simp add: rs(1) runetochar_1 self_rune)
next
  case False
  then show ?thesis
    using strchr_skip [of "encode rs" "ucast c"] encode_bytes [OF assms(1,2) False] assms(3) by (simp add: strchr_def)
qed

lemma strrchr_loop_text:
  assumes "c < 0x80" and "c \<noteq> 0"
  shows "plain rs \<Longrightarrow> strrchr_loop (encode rs @ 0 # t) c k p = Some (latest c rs k p)"
proof (induction rs arbitrary: k p rule: length_induct)
  case (1 rs)
  show ?case
  proof (cases "c \<in> set rs")
    case True
    then obtain a b where rs: "rs = a @ c # b" "c \<notin> set a" by (metis split_list_first)
    then have a: "takeWhile (\<lambda>r. r \<noteq> c) rs = a" "plain b" "length b < length rs" using 1(2) by (auto simp: takeWhile_first)
    have "strchr (encode rs @ 0 # t) c = Some (Some (length (encode a)))" using strchr_text [OF 1(2) assms] True a(1) by simp
    moreover have "drop (length (encode a) + 1) (encode rs @ 0 # t) = encode b @ 0 # t"
      using assms(1) by (simp add: rs(1) runetochar_1 self_rune)
    ultimately show ?thesis
      using 1(1) a(2,3) assms by (subst strrchr_loop.simps) (simp add: rs latest_skip runetochar_1 self_rune)
  next
    case False
    then show ?thesis
      using latest_skip [OF False, of "[]" k p] by (subst strrchr_loop.simps) (simp add: strchr_text [OF 1(2) assms])
  qed
qed

text \<open>The first byte of a sequence gives its length, which is what \<^verbatim>\<open>fullrune\<close> tests.\<close>

lemma loop_length:
  "chartorune_loop s c0 i l = Some (r, n) \<Longrightarrow> (r, n) \<noteq> (Runeerror, 1) \<Longrightarrow>
    i < n \<and> n \<le> 4 \<and> c0 < T (n + 1) \<and> (\<forall>j. i \<le> j \<and> j + 1 < n \<longrightarrow> \<not> c0 < T (j + 2))"
proof (induction "4 - i" arbitrary: i l)
  case 0
  then show ?case by (simp add: loop_over)
next
  case (Suc k)
  then have i: "i < 4" by simp
  from loop_cases [OF Suc.prems(1) i Suc.prems(2)]
  obtain x where x: "if c0 < T (i + 2) then n = i + 1 else chartorune_loop s c0 (i + 1) (l * 64 + x) = Some (r, n)"
    by (metis snd_conv)
  show ?case
  proof (cases "c0 < T (i + 2)")
    case True
    then show ?thesis using x i by auto
  next
    case False
    then have *: "i + 1 < n \<and> n \<le> 4 \<and> c0 < T (n + 1) \<and> (\<forall>j. i + 1 \<le> j \<and> j + 1 < n \<longrightarrow> \<not> c0 < T (j + 2))"
      using Suc(1) [of "i + 1"] Suc.hyps(2) Suc.prems(2) x by simp
    have "\<not> c0 < T (j + 2)" if "i \<le> j" "j + 1 < n" for j
      using * False that by (cases "j = i") auto
    then show ?thesis using * by simp
  qed
qed

lemma fullrune_text:
  assumes "valid_rune r" and "0 < m"
  shows "fullrune (runetochar r @ u) m = Some (int (length (runetochar r)) \<le> m)"
  using assms(1)
proof (cases rule: next_rune)
  case self
  then show ?thesis using assms(2) by (simp add: fullrune_def)
next
  case (sequence b bs)
  define c0 :: u32 where "c0 = ucast b"
  define n where "n = length (runetochar r)"
  have "chartorune_loop (runetochar r @ u) c0 1 c0 = Some (r, n)"
    using back_rest [OF assms(1), of u] sequence(5) by (simp add: chartorune_def n_def c0_def sequence(1))
  moreover have "n \<noteq> 1" using sequence(1,6) by (simp add: n_def)
  ultimately have n: "1 < n" "n \<le> 4" "c0 < T (n + 1)" "\<forall>j. 1 \<le> j \<and> j + 1 < n \<longrightarrow> \<not> c0 < T (j + 2)"
    using loop_length [of "runetochar r @ u" c0 1 c0 r n] by auto
  have "n = 2 \<or> n = 3 \<or> n = 4" using n(1,2) by auto
  then consider "n = 2" "c0 < 0xE0" | "n = 3" "c0 < 0xF0" "\<not> c0 < 0xE0" | "n = 4" "\<not> c0 < 0xE0" "\<not> c0 < 0xF0"
    using n(3) n(4) [rule_format, of 1] n(4) [rule_format, of 2] by (auto simp: T_values)
  then show ?thesis
    using assms(2) sequence(5) n_def by cases (auto simp: fullrune_def T_values c0_def [symmetric] sequence(1))
qed

text \<open>The runes of a text that lie within its first \<open>m\<close> bytes.\<close>

fun fitting :: "Rune list \<Rightarrow> int \<Rightarrow> Rune list" where
  "fitting [] m = []"
| "fitting (r # rs) m = (if int (length (runetochar r)) \<le> m then r # fitting rs (m - int (length (runetochar r))) else [])"

lemma utfnlen_text: "plain rs \<Longrightarrow> utfnlen_loop (encode rs @ 0 # t) m n = Some (n + length (fitting rs m))"
proof (induction rs arbitrary: m n)
  case Nil
  then show ?case by (subst utfnlen_loop.simps) simp
next
  case (Cons r rs)
  then have r: "valid_rune r" by simp
  then show ?case
  proof (cases rule: next_rune)
    case self
    then show ?thesis using Cons by (subst utfnlen_loop.simps) auto
  next
    case (sequence b bs)
    then show ?thesis
      using Cons back_rest [OF r, of "encode rs @ 0 # t"] fullrune_text [OF r, of m "encode rs @ 0 # t"]
      by (subst utfnlen_loop.simps) auto
  qed
qed

text \<open>A fitting prefix is the longest one.\<close>

lemma fitting_take: "take (length (fitting rs m)) rs = fitting rs m"
  by (induction rs m rule: fitting.induct) auto

lemma fitting_le: "0 \<le> m \<Longrightarrow> int (length (encode (fitting rs m))) \<le> m"
  by (induction rs m rule: fitting.induct) auto

lemma fitting_longest: "k \<le> length rs \<Longrightarrow> int (length (encode (take k rs))) \<le> m \<Longrightarrow> k \<le> length (fitting rs m)"
proof (induction rs m arbitrary: k rule: fitting.induct)
  case (2 r rs m)
  then show ?case by (cases k) auto
qed simp

lemma fitting_all: "int (length (encode rs)) \<le> m \<Longrightarrow> fitting rs m = rs"
  by (induction rs m rule: fitting.induct) auto

lemma memccpy_text:
  "0 \<notin> set p \<Longrightarrow> memccpy (p @ 0 # t) 0 n = Some (if length p < n then (p @ [0], True) else (take n p, False))"
proof (induction p arbitrary: n)
  case Nil
  then show ?case by (cases n) auto
next
  case (Cons b p)
  then show ?case by (cases n) auto
qed

lemma continuation: "(b :: byte) AND 0xC0 = 0x80 \<longleftrightarrow> 0x80 \<le> b \<and> b < 0xC0"
proof -
  have all: "\<forall>n\<in>set [0..<256]. ((of_nat n :: byte) AND 0xC0 = 0x80) = (0x80 \<le> (of_nat n :: byte) \<and> (of_nat n :: byte) < 0xC0)"
    by code_simp
  have "unat b \<in> set [0..<256]" using unsigned_less [of b, where ?'a = nat] by simp
  from bspec [OF all this] show ?thesis by simp
qed

lemma seek_start_tail:
  "\<forall>x\<in>set bs. 0x80 \<le> x \<and> x < 0xC0 \<Longrightarrow> \<not> (0x80 \<le> b \<and> b < 0xC0) \<Longrightarrow>
    seek_start (p @ b # bs @ u) (length p + 1 + length bs) = length p"
proof (induction bs arbitrary: u rule: rev_induct)
  case Nil
  then show ?case by (auto simp: continuation)
next
  case (snoc x bs)
  have "(p @ b # (bs @ [x]) @ u) ! (length p + 1 + length bs) = x" by (simp add: nth_append)
  then show ?case using snoc by (simp add: continuation)
qed

lemma runenlen_one_eq:
  assumes "\<not> c \<le> 0x7F"
  shows "runenlen_one c 2 = length (runetochar c) + (if c > Runemax then 1 else 0)"
proof -
  have one: "runenlen_one c 2 = (if c \<le> 0x7FF then 2 else if c \<le> 0xFFFF then 3 else 4)"
    by (subst runenlen_one.simps, subst runenlen_one.simps, subst runenlen_one.simps) (simp add: RuneX_values)
  consider "c \<le> 0x7FF" | "\<not> c \<le> 0x7FF" "c \<le> 0xFFFF" "valid_rune c" | "\<not> c \<le> 0x7FF" "c \<le> 0xFFFF" "\<not> valid_rune c"
    | "\<not> c \<le> 0xFFFF" "valid_rune c" | "\<not> c \<le> 0xFFFF" "\<not> valid_rune c" by blast
  then show ?thesis
  proof cases
    case 1
    then show ?thesis using order_trans [of c "0x7FF" Runemax] by (auto simp: one runetochar_2 [OF assms])
  next
    case 2
    then show ?thesis by (auto simp: one runetochar_3 valid_rune_def)
  next
    case 3
    then show ?thesis using order_trans [of c "0xFFFF" Runemax] runetochar_3 [of Runeerror]
      by (auto simp: one runetochar_bad valid_rune_def)
  next
    case 4
    then show ?thesis using above(2) [of c] by (auto simp: one runetochar_4 valid_rune_def)
  next
    case 5
    then have "c > Runemax" using order_trans [of c SurrogateMax "0xFFFF"] by (auto simp: valid_rune_def)
    then show ?thesis using 5 above(2) [of c] runetochar_3 [of Runeerror] by (auto simp: one runetochar_bad valid_rune_def)
  qed
qed

text \<open>What is cut out of an encoded text by \<^verbatim>\<open>utfecpy\<close> when it does not fit.\<close>

lemma utfecpy_short:
  assumes "plain rs" and "0 < n" and "n \<le> length (encode rs)"
  shows "seek_start (take n (encode rs)) n = length (encode (fitting rs (int n - 1)))"
proof -
  define fit where "fit = fitting rs (int n - 1)"
  have fit: "take (length fit) rs = fit" "length (encode fit) < n"
    using fitting_take [of rs "int n - 1"] fitting_le [of "int n - 1" rs] assms(2) by (simp_all add: fit_def)
  have lt: "length fit < length rs"
    using fit assms(3) by (metis leD linorder_neqE_nat take_all_iff not_less)
  define r where "r = rs ! length fit"
  have rs: "rs = fit @ r # drop (Suc (length fit)) rs"
    using lt fit(1) by (metis append_take_drop_id r_def Cons_nth_drop_Suc)
  have big: "n \<le> length (encode fit) + length (runetochar r)"
  proof (rule ccontr)
    assume "\<not> ?thesis"
    then have "Suc (length fit) \<le> length fit"
      using fitting_longest [of "Suc (length fit)" rs "int n - 1"] lt fit(1)
      by (simp add: fit_def [symmetric] take_Suc_conv_app_nth r_def [symmetric])
    then show False by simp
  qed
  have r: "valid_rune r" using assms(1) unfolding plain_def by (metis r_def lt nth_mem)
  obtain b bs where b: "runetochar r = b # bs" "\<not> (0x80 \<le> b \<and> b < 0xC0)" "\<forall>x\<in>set bs. 0x80 \<le> x \<and> x < 0xC0"
    using r unat_byte [of "ucast r"] by (cases rule: next_rune) (auto simp: not_less word_less_nat_alt word_le_nat_alt)
  define j where "j = n - 1 - length (encode fit)"
  have n: "n = length (encode fit) + 1 + j" "j \<le> length bs" using fit(2) big b(1) by (auto simp: j_def)
  have "take n (encode rs) = encode fit @ b # take j bs @ []"
    using n(2) by (subst rs) (simp add: n(1) b(1))
  moreover have "\<forall>x\<in>set (take j bs). 0x80 \<le> x \<and> x < 0xC0" using b(3) by (auto dest: in_set_takeD)
  ultimately show ?thesis
    using seek_start_tail [of "take j bs" b "encode fit" "[]"] b(2) n(2) unfolding fit_def [symmetric]
    by (simp only: n(1) length_take min_absorb2 not_False_eq_True simp_thms)
qed

section \<open>Properties\<close>

lemma valid_error: "valid_rune Runeerror"
  by (simp add: valid_rune_def)

text \<open>
  C14. What \<^verbatim>\<open>runetochar\<close> writes is what \<^verbatim>\<open>chartorune\<close> reads, over the whole of a rune's width: a valid rune comes
  back as itself, a surrogate half or a number above \<^verbatim>\<open>Runemax\<close> as the error rune, and the length is the number of
  bytes written, whatever lies behind them.
\<close>

theorem chartorune_runetochar:
  "chartorune (runetochar c @ rest) = Some (if valid_rune c then c else Runeerror, length (runetochar c))"
  using chartorune_back [of c rest] chartorune_back [OF valid_error, of rest] runetochar_bad [of c] by auto

text \<open>
  C15. \<^verbatim>\<open>chartorune\<close> accepts exactly the canonical encodings. On any string with a NUL it returns, without reading
  past the NUL; the result is either a valid rune whose encoding by \<^verbatim>\<open>runetochar\<close> the string starts with, or the error
  rune and length 1 when the string starts with no encoding of a valid rune: overlong forms, surrogates,
  numbers above \<^verbatim>\<open>Runemax\<close>, stray continuation bytes and sequences cut short by the NUL.
\<close>

theorem chartorune_canonical:
  assumes "0 \<in> set s"
  shows "\<exists>c n. chartorune (takeWhile (\<lambda>b. b \<noteq> 0) s @ [0]) = Some (c, n) \<and> chartorune s = Some (c, n) \<and>
    (valid_rune c \<and> prefix (runetochar c) s \<and> n = length (runetochar c) \<or>
     c = Runeerror \<and> n = 1 \<and> \<not> (\<exists>c'. valid_rune c' \<and> prefix (runetochar c') s))"
proof -
  obtain t where s: "s = (takeWhile (\<lambda>b. b \<noteq> 0) s @ [0]) @ t"
    using assms by (metis append.assoc append_Cons append_Nil split_list_first takeWhile_first)
  obtain c n where r: "chartorune (takeWhile (\<lambda>b. b \<noteq> 0) s @ [0]) = Some (c, n)"
    using chartorune_total [of "takeWhile (\<lambda>b. b \<noteq> 0) s @ [0]"] by auto
  have s': "chartorune s = Some (c, n)" using chartorune_mono [OF r, of t] s by simp
  have enc: "chartorune s = Some (c', length (runetochar c'))" if "valid_rune c'" "prefix (runetochar c') s" for c'
    using that chartorune_back by (auto simp: prefix_def)
  show ?thesis
  proof (cases "(c, n) = (Runeerror, 1)")
    case True
    have "length (runetochar Runeerror) = 3" using runetochar_3 [of Runeerror] by (simp add: valid_rune_def)
    then have "\<not> (\<exists>c'. valid_rune c' \<and> prefix (runetochar c') s)" using enc s' True by force
    then show ?thesis using r s' True by blast
  next
    case False
    from chartorune_accepted [OF s' this] have v: "valid_rune c" "runetochar c = take n s" by auto
    moreover have "n \<le> length s" using chartorune_progress [OF s'] by simp
    ultimately show ?thesis using r s' by (auto simp: take_is_prefix)
  qed
qed

theorem chartorune_canonical_witness:
  "chartorune [0xC0, 0x80, 0] = Some (Runeerror, 1) \<and> chartorune [0xE2, 0x82, 0xAC, 0] = Some (0x20AC, 3) \<and>
   chartorune [0xE2, 0x82, 0] = Some (Runeerror, 1) \<and> \<not> (\<exists>c. valid_rune c \<and> prefix (runetochar c) [0xE2, 0x82, 0])"
proof -
  have a: "chartorune [0xC0, 0x80, 0] = Some (Runeerror, 1)" by code_simp
  have b: "chartorune [0xE2, 0x82, 0xAC, 0] = Some (0x20AC, 3)" by code_simp
  have c: "chartorune [0xE2, 0x82, 0] = Some (Runeerror, 1)" by code_simp
  have "length (runetochar Runeerror) = 3" by code_simp
  then show ?thesis using a b c chartorune_canonical [of "[0xE2, 0x82, 0]"] by auto
qed

text \<open>
  The string routines on an encoded text and its NUL. \<^verbatim>\<open>utflen\<close> counts its runes, \<^verbatim>\<open>utfnlen\<close> those that lie
  wholly within its first \<open>m\<close> bytes, \<^verbatim>\<open>utfrune\<close> finds the first and \<^verbatim>\<open>utfrrune\<close> the last occurrence of a rune, by
  bytes for a rune below \<^verbatim>\<open>Runesync\<close> and by sequences otherwise.
\<close>

theorem utf_strings:
  assumes "plain rs" and "c \<noteq> 0"
  shows "utflen (encode rs @ 0 # t) = Some (length rs) \<and>
    utfnlen (encode rs @ 0 # t) m = Some (length (fitting rs m)) \<and>
    utfrune (encode rs @ 0 # t) c =
      Some (if c \<in> set rs then Some (length (encode (takeWhile (\<lambda>r. r \<noteq> c) rs))) else None) \<and>
    utfrrune (encode rs @ 0 # t) c =
      Some (if c \<in> set rs then Some (length (encode (rev (tl (dropWhile (\<lambda>r. r \<noteq> c) (rev rs)))))) else None)"
proof -
  have "utfrune_loop (0 # t) c k = Some None" for k by (subst utfrune_loop.simps) simp
  then have 1: "utfrune (encode rs @ 0 # t) c =
      Some (if c \<in> set rs then Some (length (encode (takeWhile (\<lambda>r. r \<noteq> c) rs))) else None)"
    using strchr_text [OF assms(1) _ assms(2)] utfrune_loop_text [OF assms(1)] by (simp add: utfrune_def)
  have "utfrrune (encode rs @ 0 # t) c = Some (latest c rs 0 None)"
    using strrchr_loop_text [OF _ assms(2) assms(1)] utfrrune_loop_text [OF assms(1)] assms(2) by (simp add: utfrrune_def strrchr_def)
  then show ?thesis
    using 1 utflen_text [OF assms(1), of t 0] utfnlen_text [OF assms(1), of t m 0]
    by (simp add: utflen_def utfnlen_def latest_rev)
qed

theorem utf_strings_witness:
  "utflen (encode [0x61, 0x20AC, 0x62] @ [0]) = Some 3 \<and> utfnlen (encode [0x61, 0x20AC, 0x62] @ [0]) 3 = Some 1 \<and>
   utfrune (encode [0x61, 0x20AC, 0x62] @ [0]) 0x62 = Some (Some 4)"
proof -
  have p: "plain [0x61, 0x20AC, 0x62]" by code_simp
  have "length (fitting [0x61, 0x20AC, 0x62] 3) = 1" "length (encode (takeWhile (\<lambda>r. r \<noteq> 0x62) [0x61, 0x20AC, 0x62])) = 4"
    by code_simp+
  then show ?thesis using utf_strings [OF p, of "0x62" "[]" 3] by simp
qed

text \<open>
  C16. \<^verbatim>\<open>utfecpy\<close> copies the longest run of whole runes that leaves room for the NUL. The buffer keeps its length, the
  copy ends in a NUL at the offset returned, and no longer prefix of the text would have fitted.
\<close>

theorem utfecpy_longest:
  assumes "plain rs" and "buf \<noteq> []"
  shows "\<exists>buf' k. utfecpy buf (encode rs @ 0 # t) = Some (buf', length (encode (take k rs))) \<and> k \<le> length rs \<and>
    length buf' = length buf \<and> prefix (encode (take k rs) @ [0]) buf' \<and>
    (\<forall>j\<le>length rs. length (encode (take j rs)) + 1 \<le> length buf \<longrightarrow> j \<le> k)"
proof -
  define n where "n = length buf"
  define fit where "fit = fitting rs (int n - 1)"
  define k where "k = length fit"
  have n: "0 < n" using assms(2) by (simp add: n_def)
  have k: "take k rs = fit" "k \<le> length rs" using fitting_take [of rs "int n - 1"] length_take [of k rs] by (simp_all add: k_def fit_def)
  have max: "\<forall>j\<le>length rs. length (encode (take j rs)) + 1 \<le> length buf \<longrightarrow> j \<le> k"
    using fitting_longest [of _ rs "int n - 1"] by (auto simp: k_def fit_def n_def)
  have z: "0 \<notin> set (encode rs)" using assms(1) rune_bytes [of _ 0] by (auto simp: encode_def plain_def)
  note m = memccpy_text [OF z, of t n]
  show ?thesis
  proof (cases "length (encode rs) < n")
    case True
    then have "fit = rs" using fitting_all [of rs "int n - 1"] by (simp add: fit_def)
    then show ?thesis
      using k max m True assms(2) by (intro exI [of _ "encode rs @ [0] @ drop (length (encode rs) + 1) buf"] exI [of _ k])
        (auto simp: utfecpy_def n_def Let_def)
  next
    case False
    have b: "seek_start (take n (encode rs)) n = length (encode fit)" using utfecpy_short [OF assms(1) n] False by (simp add: fit_def)
    have lt: "length (encode fit) < n" using fitting_le [of "int n - 1" rs] n by (simp add: fit_def)
    have enc: "prefix (encode fit) (encode rs)" using k(1) by (metis append_take_drop_id encode_simps(3) prefixI)
    obtain zs where zs: "encode rs = encode fit @ zs" using enc by (auto simp: prefix_def)
    then obtain x zs' where "zs = x # zs'" using lt False by (cases zs) auto
    then have "take n (encode rs) = encode fit @ x # take (n - length (encode fit) - 1) zs'"
      using lt zs by (simp add: take_Cons')
    then have "prefix (encode fit @ [0]) ((take n (encode rs))[length (encode fit) := 0])" by simp
    then show ?thesis
      using k max m False assms(2) b lt
      by (intro exI [of _ "(take n (encode rs))[length (encode fit) := 0]"] exI [of _ k]) (auto simp: utfecpy_def n_def Let_def)
  qed
qed

theorem utfecpy_longest_witness:
  "utfecpy [1, 2, 3, 4] (encode [0x61, 0x20AC, 0x62] @ [0]) = Some ([0x61, 0, 0x82, 0xAC], 1)"
proof -
  have p: "plain [0x61, 0x20AC, 0x62]" by code_simp
  have "utfecpy [1, 2, 3, 4] (encode [0x61, 0x20AC, 0x62] @ [0]) = Some ([0x61, 0, 0x82, 0xAC], 1)" by code_simp
  then show ?thesis using utfecpy_longest [OF p, of "[1, 2, 3, 4]" "[]"] by blast
qed

text \<open>
  \<^verbatim>\<open>runenlen\<close> says how many bytes a string of runes needs; it is what \<^verbatim>\<open>runetochar\<close> then writes, except that it
  counts four bytes for a number above \<^verbatim>\<open>Runemax\<close>, of which \<^verbatim>\<open>runetochar\<close> writes the three bytes of the error rune. So
  it never says too little.
\<close>

theorem runenlen_encode:
  "runenlen rs = length (encode rs) + length (filter (\<lambda>c. c > Runemax) rs)"
proof (induction rs)
  case (Cons c rs)
  then show ?case
    using runenlen_one_eq [of c] runetochar_1 [of c] order_trans [of c "0x7F" Runemax] by (auto simp: not_le [symmetric])
qed simp

end
