(* ===== verification/Avl.thy ===== *)
theory Avl
  imports Prelude "HOL-Library.Monad_Syntax"
begin

text \<open>
  The balanced trees of \<^verbatim>\<open>sys/src/lib/avl/avl.c\<close>. The nodes lie in a heap, with the parent pointers and balance
  factors of the source; an argument of type \<^verbatim>\<open>Avl **\<close> is a \<open>slot\<close>, the root pointer of the tree or a child
  pointer of a node, that is read and written in place. \<open>None\<close> is a null or dangling pointer, a failed \<^verbatim>\<open>assert\<close>, an
  \<^verbatim>\<open>abort\<close>, or a walk longer than the fuel of the loops and recursions.

  The client's structures start with their \<^verbatim>\<open>Avl\<close> and are compared by the client's \<^verbatim>\<open>cmp\<close>, here a
  function of their addresses.
\<close>

section \<open>Data\<close>

type_synonym addr = nat

record Avl =
  av_p :: "addr option"
  av_n0 :: "addr option"
  av_n1 :: "addr option"
  av_bal :: int

record Avlwalk =
  w_started :: bool
  w_moved :: bool
  w_node :: "addr option"

text \<open>The tree with the memory of the nodes; \<^verbatim>\<open>walks\<close> is the list of walks, each with its address.\<close>

record Avltree =
  t_root :: "addr option"
  t_cmp :: "addr \<Rightarrow> addr \<Rightarrow> int"
  t_walks :: "(addr \<times> Avlwalk) list"
  t_heap :: "addr \<Rightarrow> Avl option"

datatype slot = Root | Kid addr nat

section \<open>Memory\<close>

definition kid :: "nat \<Rightarrow> Avl \<Rightarrow> addr option" where
  "kid k a = (if k = 0 then av_n0 a else av_n1 a)"

definition set_kid :: "nat \<Rightarrow> addr option \<Rightarrow> Avl \<Rightarrow> Avl" where
  "set_kid k v a = (if k = 0 then a\<lparr>av_n0 := v\<rparr> else a\<lparr>av_n1 := v\<rparr>)"

definition update_node :: "addr \<Rightarrow> (Avl \<Rightarrow> Avl) \<Rightarrow> Avltree \<Rightarrow> Avltree option" where
  "update_node a f t = (case t_heap t a of None \<Rightarrow> None | Some n \<Rightarrow> Some (t\<lparr>t_heap := (t_heap t)(a \<mapsto> f n)\<rparr>))"

fun read_slot :: "slot \<Rightarrow> Avltree \<Rightarrow> addr option option" where
  "read_slot Root t = Some (t_root t)"
| "read_slot (Kid a k) t = map_option (kid k) (t_heap t a)"

fun write_slot :: "slot \<Rightarrow> addr option \<Rightarrow> Avltree \<Rightarrow> Avltree option" where
  "write_slot Root v t = Some (t\<lparr>t_root := v\<rparr>)"
| "write_slot (Kid a k) v t = update_node a (set_kid k v) t"

text \<open>\<^verbatim>\<open>if(q != nil) q->p = v\<close>\<close>

definition set_parent :: "addr option \<Rightarrow> addr option \<Rightarrow> Avltree \<Rightarrow> Avltree option" where
  "set_parent q v t = (case q of None \<Rightarrow> Some t | Some x \<Rightarrow> update_node x (\<lambda>n. n\<lparr>av_p := v\<rparr>) t)"

section \<open>Rotations\<close>

definition singleleft :: "slot \<Rightarrow> addr option \<Rightarrow> Avltree \<Rightarrow> Avltree option" where
  "singleleft tp p t = do {
     v \<leftarrow> read_slot tp t;
     a \<leftarrow> v;
     na \<leftarrow> t_heap t a;
     c \<leftarrow> kid 1 na;
     nc \<leftarrow> t_heap t c;
     let r2 = av_bal nc;
     let l = (if r2 > 0 then r2 else 0) + 1 - av_bal na;
     t \<leftarrow> update_node a (set_kid 1 (kid 0 nc)) t;
     t \<leftarrow> set_parent (kid 0 nc) (Some a) t;
     t \<leftarrow> update_node c (set_kid 0 (Some a)) t;
     t \<leftarrow> set_parent (Some a) (Some c) t;
     t \<leftarrow> write_slot tp (Some c) t;
     t \<leftarrow> set_parent (Some c) p t;
     t \<leftarrow> update_node a (\<lambda>n. n\<lparr>av_bal := - l\<rparr>) t;
     update_node c (\<lambda>n. n\<lparr>av_bal := r2 - ((if l > 0 then l else 0) + 1)\<rparr>) t
   }"

definition singleright :: "slot \<Rightarrow> addr option \<Rightarrow> Avltree \<Rightarrow> Avltree option" where
  "singleright tp p t = do {
     v \<leftarrow> read_slot tp t;
     a \<leftarrow> v;
     na \<leftarrow> t_heap t a;
     c \<leftarrow> kid 0 na;
     nc \<leftarrow> t_heap t c;
     let l2 = - av_bal nc;
     let r = av_bal na + ((if l2 > 0 then l2 else 0) + 1);
     t \<leftarrow> update_node a (set_kid 0 (kid 1 nc)) t;
     t \<leftarrow> set_parent (kid 1 nc) (Some a) t;
     t \<leftarrow> update_node c (set_kid 1 (Some a)) t;
     t \<leftarrow> set_parent (Some a) (Some c) t;
     t \<leftarrow> write_slot tp (Some c) t;
     t \<leftarrow> set_parent (Some c) p t;
     t \<leftarrow> update_node a (\<lambda>n. n\<lparr>av_bal := r\<rparr>) t;
     update_node c (\<lambda>n. n\<lparr>av_bal := ((if r > 0 then r else 0) + 1) - l2\<rparr>) t
   }"

definition doublerightleft :: "slot \<Rightarrow> addr option \<Rightarrow> Avltree \<Rightarrow> Avltree option" where
  "doublerightleft tp p t = do {
     v \<leftarrow> read_slot tp t;
     a \<leftarrow> v;
     t \<leftarrow> singleright (Kid a 1) (Some a) t;
     singleleft tp p t
   }"

definition doubleleftright :: "slot \<Rightarrow> addr option \<Rightarrow> Avltree \<Rightarrow> Avltree option" where
  "doubleleftright tp p t = do {
     v \<leftarrow> read_slot tp t;
     a \<leftarrow> v;
     t \<leftarrow> singleleft (Kid a 0) (Some a) t;
     singleright tp p t
   }"

text \<open>The node that a pointer points to, and the balance factor of the node that a slot points to.\<close>

definition deref :: "addr option \<Rightarrow> Avltree \<Rightarrow> Avl option" where
  "deref q t = (case q of None \<Rightarrow> None | Some a \<Rightarrow> t_heap t a)"

definition bal_at :: "slot \<Rightarrow> Avltree \<Rightarrow> int option" where
  "bal_at tp t = do { v \<leftarrow> read_slot tp t; n \<leftarrow> deref v t; Some (av_bal n) }"

definition balance :: "slot \<Rightarrow> addr option \<Rightarrow> Avltree \<Rightarrow> Avltree option" where
  "balance tp p t = do {
     v \<leftarrow> read_slot tp t;
     n \<leftarrow> deref v t;
     if av_bal n = - 2 then do {
       m \<leftarrow> deref (kid 0 n) t;
       if av_bal m \<le> 0 then singleright tp p t
       else if av_bal m = 1 then doubleleftright tp p t
       else None }
     else if av_bal n = 2 then do {
       m \<leftarrow> deref (kid 1 n) t;
       if av_bal m \<ge> 0 then singleleft tp p t
       else if av_bal m = - 1 then doublerightleft tp p t
       else None }
     else Some t
   }"

definition canoncmp :: "int \<Rightarrow> int" where
  "canoncmp cmp = (if cmp < 0 then - 1 else if cmp > 0 then 1 else 0)"

abbreviation side :: "int \<Rightarrow> nat" where
  "side i \<equiv> nat ((i + 1) div 2)"

section \<open>Insertion and deletion\<close>

text \<open>The result is the value returned, what \<^verbatim>\<open>*rfree\<close> then holds, and the tree.\<close>

fun insert_node :: "nat \<Rightarrow> slot \<Rightarrow> addr option \<Rightarrow> addr \<Rightarrow> addr option \<Rightarrow> Avltree \<Rightarrow> (int \<times> addr option \<times> Avltree) option" where
  "insert_node 0 tp p r rfree t = None"
| "insert_node (Suc fuel) tp p r rfree t = do {
     v \<leftarrow> read_slot tp t;
     case v of
       None \<Rightarrow> do {
         t \<leftarrow> update_node r (\<lambda>n. n\<lparr>av_bal := 0, av_n0 := None, av_n1 := None, av_p := p\<rparr>) t;
         t \<leftarrow> write_slot tp (Some r) t;
         Some (1, rfree, t) }
     | Some a \<Rightarrow> do {
         ob \<leftarrow> bal_at tp t;
         let i = canoncmp (t_cmp t r a);
         if i \<noteq> 0 then do {
           (d, rfree, t) \<leftarrow> insert_node fuel (Kid a (side i)) (Some a) r rfree t;
           t \<leftarrow> update_node a (\<lambda>n. n\<lparr>av_bal := av_bal n + i * d\<rparr>) t;
           t \<leftarrow> balance tp p t;
           nb \<leftarrow> bal_at tp t;
           Some (if ob = 0 \<and> nb \<noteq> 0 then 1 else 0, rfree, t) }
         else do {
           t \<leftarrow> write_slot tp (Some r) t;
           n \<leftarrow> t_heap t a;
           t \<leftarrow> update_node r (\<lambda>_. n) t;
           t \<leftarrow> set_parent (av_n0 n) (Some r) t;
           t \<leftarrow> set_parent (av_n1 n) (Some r) t;
           Some (0, Some a, t) } } }"

fun successor :: "nat \<Rightarrow> slot \<Rightarrow> addr option \<Rightarrow> Avltree \<Rightarrow> (int \<times> addr \<times> Avltree) option" where
  "successor 0 tp p t = None"
| "successor (Suc fuel) tp p t = do {
     v \<leftarrow> read_slot tp t;
     a \<leftarrow> v;
     n \<leftarrow> t_heap t a;
     if av_n0 n = None then do {
       t \<leftarrow> write_slot tp (av_n1 n) t;
       t \<leftarrow> set_parent (av_n1 n) p t;
       Some (- 1, a, t) }
     else do {
       let ob = av_bal n;
       (d, r, t) \<leftarrow> successor fuel (Kid a 0) (Some a) t;
       t \<leftarrow> update_node a (\<lambda>n. n\<lparr>av_bal := av_bal n - d\<rparr>) t;
       t \<leftarrow> balance tp p t;
       nb \<leftarrow> bal_at tp t;
       Some (- (if ob \<noteq> 0 \<and> nb = 0 then 1 else 0), r, t) } }"

text \<open>Neighbours of a node: down the other side, or up until the node is entered from the side looked for.\<close>

fun descend :: "nat \<Rightarrow> nat \<Rightarrow> addr \<Rightarrow> Avltree \<Rightarrow> addr option" where
  "descend k 0 a t = None"
| "descend k (Suc fuel) a t = do {
     n \<leftarrow> t_heap t a;
     case kid k n of None \<Rightarrow> Some a | Some b \<Rightarrow> descend k fuel b t }"

fun ascend :: "nat \<Rightarrow> nat \<Rightarrow> addr \<Rightarrow> Avltree \<Rightarrow> addr option option" where
  "ascend k 0 a t = None"
| "ascend k (Suc fuel) a t = do {
     n \<leftarrow> t_heap t a;
     case av_p n of
       None \<Rightarrow> Some None
     | Some b \<Rightarrow> do { m \<leftarrow> t_heap t b; if kid k m = Some a then ascend k fuel b t else Some (Some b) } }"

definition findpredecessor :: "nat \<Rightarrow> addr option \<Rightarrow> Avltree \<Rightarrow> addr option option" where
  "findpredecessor fuel q t = (case q of None \<Rightarrow> Some None | Some a \<Rightarrow> do {
     n \<leftarrow> t_heap t a;
     case av_n0 n of
       Some b \<Rightarrow> map_option Some (descend 1 fuel b t)
     | None \<Rightarrow> ascend 0 fuel a t })"

definition findsuccessor :: "nat \<Rightarrow> addr option \<Rightarrow> Avltree \<Rightarrow> addr option option" where
  "findsuccessor fuel q t = (case q of None \<Rightarrow> Some None | Some a \<Rightarrow> do {
     n \<leftarrow> t_heap t a;
     case av_n1 n of
       Some b \<Rightarrow> map_option Some (descend 0 fuel b t)
     | None \<Rightarrow> ascend 1 fuel a t })"

text \<open>The loop over the walks: those at \<open>a\<close> go back to its predecessor \<open>p\<close>.\<close>

definition moved_back :: "addr \<Rightarrow> addr option \<Rightarrow> (addr \<times> Avlwalk) list \<Rightarrow> (addr \<times> Avlwalk) list" where
  "moved_back a p ws = map (\<lambda>(i, w). (i,
     if w_node w = Some a
     then w\<lparr>w_moved := True, w_node := p, w_started := (if p = None then False else w_started w)\<rparr>
     else w)) ws"

definition walkdel :: "nat \<Rightarrow> addr \<Rightarrow> Avltree \<Rightarrow> Avltree option" where
  "walkdel fuel a t = do {
     p \<leftarrow> findpredecessor fuel (Some a) t;
     Some (t\<lparr>t_walks := moved_back a p (t_walks t)\<rparr>) }"

text \<open>
  \<^verbatim>\<open>_deleteavl\<close> with \<^verbatim>\<open>walkdel\<close> as \<^verbatim>\<open>predel\<close>, the only function that it is called with; \<open>deep\<close> is the fuel of the
  climb from the deleted node to its predecessor.
\<close>

fun delete_node :: "nat \<Rightarrow> nat \<Rightarrow> slot \<Rightarrow> addr option \<Rightarrow> addr \<Rightarrow> addr option \<Rightarrow> Avltree \<Rightarrow> (int \<times> addr option \<times> Avltree) option" where
  "delete_node deep 0 tp p rx del t = None"
| "delete_node deep (Suc fuel) tp p rx del t = do {
     v \<leftarrow> read_slot tp t;
     case v of
       None \<Rightarrow> Some (0, del, t)
     | Some a \<Rightarrow> do {
         ob \<leftarrow> bal_at tp t;
         let i = canoncmp (t_cmp t rx a);
         if i \<noteq> 0 then do {
           (d, del, t) \<leftarrow> delete_node deep fuel (Kid a (side i)) (Some a) rx del t;
           t \<leftarrow> update_node a (\<lambda>n. n\<lparr>av_bal := av_bal n + i * d\<rparr>) t;
           t \<leftarrow> balance tp p t;
           nb \<leftarrow> bal_at tp t;
           Some (- (if ob \<noteq> 0 \<and> nb = 0 then 1 else 0), del, t) }
         else do {
           t \<leftarrow> walkdel deep a t;
           n \<leftarrow> t_heap t a;
           if av_n0 n = None then do {
             t \<leftarrow> write_slot tp (av_n1 n) t;
             t \<leftarrow> set_parent (av_n1 n) p t;
             Some (- 1, Some a, t) }
           else if av_n1 n = None then do {
             t \<leftarrow> write_slot tp (av_n0 n) t;
             t \<leftarrow> set_parent (av_n0 n) p t;
             Some (- 1, Some a, t) }
           else do {
             (d, r, t) \<leftarrow> successor fuel (Kid a 1) (Some a) t;
             t \<leftarrow> update_node a (\<lambda>n. n\<lparr>av_bal := av_bal n + d\<rparr>) t;
             n \<leftarrow> t_heap t a;
             t \<leftarrow> update_node r (\<lambda>m. m\<lparr>av_bal := av_bal n, av_n0 := av_n0 n, av_n1 := av_n1 n\<rparr>) t;
             t \<leftarrow> write_slot tp (Some r) t;
             t \<leftarrow> set_parent (Some r) p t;
             t \<leftarrow> set_parent (av_n0 n) (Some r) t;
             t \<leftarrow> set_parent (av_n1 n) (Some r) t;
             t \<leftarrow> balance tp p t;
             nb \<leftarrow> bal_at tp t;
             Some (- (if ob \<noteq> 0 \<and> nb = 0 then 1 else 0), Some a, t) } } } }"

section \<open>The interface\<close>

text \<open>\<open>mem\<close> tells whether \<^verbatim>\<open>malloc\<close> has memory, \<open>w\<close> is the address it returns.\<close>

definition mkavltree :: "bool \<Rightarrow> (addr \<Rightarrow> addr \<Rightarrow> int) \<Rightarrow> (addr \<Rightarrow> Avl option) \<Rightarrow> Avltree option" where
  "mkavltree mem cmp h = (if mem then Some \<lparr>t_root = None, t_cmp = cmp, t_walks = [], t_heap = h\<rparr> else None)"

definition insertavl :: "nat \<Rightarrow> addr \<Rightarrow> Avltree \<Rightarrow> (addr option \<times> Avltree) option" where
  "insertavl fuel new t = map_option (\<lambda>(d, oldp, t). (oldp, t)) (insert_node fuel Root None new None t)"

definition deleteavl :: "nat \<Rightarrow> addr \<Rightarrow> Avltree \<Rightarrow> (addr option \<times> Avltree) option" where
  "deleteavl fuel key t = map_option (\<lambda>(d, oldp, t). (oldp, t)) (delete_node fuel fuel Root None key None t)"

text \<open>The loop of \<^verbatim>\<open>_lookupavl\<close>: the node found, or where and on which side the search ended.\<close>

fun lookup_loop :: "nat \<Rightarrow> addr \<Rightarrow> addr option \<Rightarrow> addr \<Rightarrow> Avltree \<Rightarrow> (addr + (addr \<times> int)) option" where
  "lookup_loop 0 a p r t = None"
| "lookup_loop (Suc fuel) a p r t = do {
     n \<leftarrow> t_heap t a;
     if av_p n \<noteq> p then None
     else let i = canoncmp (t_cmp t r a) in
       if i = 0 then Some (Inl a)
       else case kid (side i) n of None \<Rightarrow> Some (Inr (a, i)) | Some b \<Rightarrow> lookup_loop fuel b (Some a) r t }"

definition search_from :: "nat \<Rightarrow> addr option \<Rightarrow> addr \<Rightarrow> int \<Rightarrow> Avltree \<Rightarrow> addr option option" where
  "search_from fuel q r neighbor t = (case q of None \<Rightarrow> Some None | Some a \<Rightarrow> do {
     res \<leftarrow> lookup_loop fuel a None r t;
     case res of
       Inl b \<Rightarrow> Some (Some b)
     | Inr (p, i) \<Rightarrow>
         if neighbor = 0 then Some None
         else if neighbor < 0 then (if i > 0 then Some (Some p) else findpredecessor fuel (Some p) t)
         else (if i < 0 then Some (Some p) else findsuccessor fuel (Some p) t) })"

definition searchavl :: "nat \<Rightarrow> addr \<Rightarrow> int \<Rightarrow> Avltree \<Rightarrow> addr option option" where
  "searchavl fuel key neighbor t = search_from fuel (t_root t) key neighbor t"

definition lookupavl :: "nat \<Rightarrow> addr \<Rightarrow> Avltree \<Rightarrow> addr option option" where
  "lookupavl fuel key t = search_from fuel (t_root t) key 0 t"

definition avlwalk :: "bool \<Rightarrow> addr \<Rightarrow> Avltree \<Rightarrow> addr option \<times> Avltree" where
  "avlwalk mem w t = (if mem
     then (Some w, t\<lparr>t_walks := (w, \<lparr>w_started = False, w_moved = False, w_node = None\<rparr>) # t_walks t\<rparr>)
     else (None, t))"

definition set_walk :: "addr \<Rightarrow> Avlwalk \<Rightarrow> Avltree \<Rightarrow> Avltree" where
  "set_walk i w t = t\<lparr>t_walks := map (\<lambda>(j, v). (j, if j = i then w else v)) (t_walks t)\<rparr>"

text \<open>The first or last node of the tree, and the step of a walk to the neighbour.\<close>

definition start_walk :: "nat \<Rightarrow> nat \<Rightarrow> addr \<Rightarrow> Avlwalk \<Rightarrow> Avltree \<Rightarrow> (addr option \<times> Avltree) option" where
  "start_walk k fuel i w t = do {
     a \<leftarrow> (case t_root t of None \<Rightarrow> Some None | Some a \<Rightarrow> map_option Some (descend k fuel a t));
     Some (a, set_walk i (w\<lparr>w_node := a, w_started := True\<rparr>) t) }"

definition step_walk :: "addr \<Rightarrow> Avlwalk \<Rightarrow> addr option \<Rightarrow> Avltree \<Rightarrow> (addr option \<times> Avltree) option" where
  "step_walk i w a t = (if a = w_node w then None else Some (a, set_walk i (w\<lparr>w_node := a\<rparr>) t))"

definition avlnext :: "nat \<Rightarrow> addr \<Rightarrow> Avltree \<Rightarrow> (addr option \<times> Avltree) option" where
  "avlnext fuel i t = do {
     w \<leftarrow> map_of (t_walks t) i;
     if \<not> w_started w then start_walk 0 fuel i w t
     else do { a \<leftarrow> findsuccessor fuel (w_node w) t; step_walk i w a t } }"

definition avlprev :: "nat \<Rightarrow> addr \<Rightarrow> Avltree \<Rightarrow> (addr option \<times> Avltree) option" where
  "avlprev fuel i t = do {
     w \<leftarrow> map_of (t_walks t) i;
     if \<not> w_started w then start_walk 1 fuel i w t
     else if w_moved w then Some (w_node w, set_walk i (w\<lparr>w_moved := False\<rparr>) t)
     else do { a \<leftarrow> findpredecessor fuel (w_node w) t; step_walk i w a t } }"

fun unlink_walk :: "addr \<Rightarrow> (addr \<times> Avlwalk) list \<Rightarrow> (addr \<times> Avlwalk) list" where
  "unlink_walk i [] = []"
| "unlink_walk i ((j, w) # ws) = (if j = i then ws else (j, w) # unlink_walk i ws)"

definition endwalk :: "addr \<Rightarrow> Avltree \<Rightarrow> Avltree" where
  "endwalk i t = t\<lparr>t_walks := unlink_walk i (t_walks t)\<rparr>"

end
