(* ===== verification/Avl_Tree.thy ===== *)
theory Avl_Tree
  imports Avl
begin

text \<open>
  Trees as values: what the routines of \<^verbatim>\<open>avl.c\<close> compute when pointers are forgotten, that it keeps balance factors
  right and in range, and what it does to the sequence of the nodes in order.
\<close>

section \<open>Trees as values\<close>

datatype atree = Tip | Bin atree addr int atree

fun height :: "atree \<Rightarrow> nat" where
  "height Tip = 0"
| "height (Bin l a b r) = Suc (max (height l) (height r))"

fun inorder :: "atree \<Rightarrow> addr list" where
  "inorder Tip = []"
| "inorder (Bin l a b r) = inorder l @ a # inorder r"

fun root_bal :: "atree \<Rightarrow> int" where
  "root_bal Tip = 0"
| "root_bal (Bin l a b r) = b"

text \<open>The balance factors are right, and in range.\<close>

fun exact :: "atree \<Rightarrow> bool" where
  "exact Tip = True"
| "exact (Bin l a b r) \<longleftrightarrow> b = int (height r) - int (height l) \<and> exact l \<and> exact r"

fun avl :: "atree \<Rightarrow> bool" where
  "avl Tip = True"
| "avl (Bin l a b r) \<longleftrightarrow> b = int (height r) - int (height l) \<and> \<bar>b\<bar> \<le> 1 \<and> avl l \<and> avl r"

fun rotl :: "atree \<Rightarrow> atree option" where
  "rotl (Bin x a ba (Bin y c bc z)) = (let l = max bc 0 + 1 - ba in Some (Bin (Bin x a (- l) y) c (bc - (max l 0 + 1)) z))"
| "rotl _ = None"

fun rotr :: "atree \<Rightarrow> atree option" where
  "rotr (Bin (Bin x c bc y) a ba z) = (let r = ba + (max (- bc) 0 + 1) in Some (Bin x c (max r 0 + 1 + bc) (Bin y a r z)))"
| "rotr _ = None"

fun rebalance :: "atree \<Rightarrow> atree option" where
  "rebalance Tip = None"
| "rebalance (Bin l a b r) =
    (if b = - 2 then
       if l = Tip then None
       else if root_bal l \<le> 0 then rotr (Bin l a b r)
       else if root_bal l = 1 then rotl l \<bind> (\<lambda>l. rotr (Bin l a b r))
       else None
     else if b = 2 then
       if r = Tip then None
       else if root_bal r \<ge> 0 then rotl (Bin l a b r)
       else if root_bal r = - 1 then rotr r \<bind> (\<lambda>r. rotl (Bin l a b r))
       else None
     else Some (Bin l a b r))"

text \<open>What the change of a subtree's height \<open>d\<close> does to a node, and what its own height then does.\<close>

fun ins :: "(addr \<Rightarrow> addr \<Rightarrow> int) \<Rightarrow> addr \<Rightarrow> atree \<Rightarrow> (int \<times> addr option \<times> atree) option" where
  "ins cmp x Tip = Some (1, None, Bin Tip x 0 Tip)"
| "ins cmp x (Bin l a b r) = (
     if cmp x a < 0 then do {
       (d, old, l) \<leftarrow> ins cmp x l;
       t \<leftarrow> rebalance (Bin l a (b - d) r);
       Some (if b = 0 \<and> root_bal t \<noteq> 0 then 1 else 0, old, t) }
     else if cmp x a > 0 then do {
       (d, old, r) \<leftarrow> ins cmp x r;
       t \<leftarrow> rebalance (Bin l a (b + d) r);
       Some (if b = 0 \<and> root_bal t \<noteq> 0 then 1 else 0, old, t) }
     else Some (0, Some a, Bin l x b r))"

fun split_min :: "atree \<Rightarrow> (int \<times> addr \<times> atree) option" where
  "split_min Tip = None"
| "split_min (Bin l a b r) = (if l = Tip then Some (- 1, a, r)
     else do {
       (d, x, l) \<leftarrow> split_min l;
       t \<leftarrow> rebalance (Bin l a (b - d) r);
       Some (- (if b \<noteq> 0 \<and> root_bal t = 0 then 1 else 0), x, t) })"

fun del :: "(addr \<Rightarrow> addr \<Rightarrow> int) \<Rightarrow> addr \<Rightarrow> atree \<Rightarrow> (int \<times> addr option \<times> atree) option" where
  "del cmp x Tip = Some (0, None, Tip)"
| "del cmp x (Bin l a b r) = (
     if cmp x a < 0 then do {
       (d, old, l) \<leftarrow> del cmp x l;
       t \<leftarrow> rebalance (Bin l a (b - d) r);
       Some (- (if b \<noteq> 0 \<and> root_bal t = 0 then 1 else 0), old, t) }
     else if cmp x a > 0 then do {
       (d, old, r) \<leftarrow> del cmp x r;
       t \<leftarrow> rebalance (Bin l a (b + d) r);
       Some (- (if b \<noteq> 0 \<and> root_bal t = 0 then 1 else 0), old, t) }
     else if l = Tip then Some (- 1, Some a, r)
     else if r = Tip then Some (- 1, Some a, l)
     else do {
       (d, y, r) \<leftarrow> split_min r;
       t \<leftarrow> rebalance (Bin l y (b + d) r);
       Some (- (if b \<noteq> 0 \<and> root_bal t = 0 then 1 else 0), Some a, t) })"

section \<open>Balance\<close>

lemma avl_exact: "avl t \<Longrightarrow> root_bal t = (case t of Tip \<Rightarrow> 0 | Bin l a b r \<Rightarrow> int (height r) - int (height l)) \<and> \<bar>root_bal t\<bar> \<le> 1"
  by (cases t) auto

lemma height_Tip: "height t = 0 \<longleftrightarrow> t = Tip"
  by (cases t) auto

text \<open>
  A node whose subtrees are balanced and whose heights differ by at most two is put right; when they differ by
  two, the tree becomes lower exactly if its root is then even.
\<close>

lemma rebalance_ok:
  assumes "avl l" "avl r" "b = int (height r) - int (height l)" "\<bar>b\<bar> \<le> 2"
  obtains t where "rebalance (Bin l a b r) = Some t" "avl t" "inorder t = inorder l @ a # inorder r"
    and "\<bar>b\<bar> \<le> 1 \<Longrightarrow> t = Bin l a b r"
    and "\<bar>b\<bar> = 2 \<Longrightarrow> int (height t) = int (max (height l) (height r)) + (if root_bal t = 0 then 0 else 1)"
    and "b = 2 \<Longrightarrow> root_bal r \<noteq> 0 \<Longrightarrow> root_bal t = 0" and "b = - 2 \<Longrightarrow> root_bal l \<noteq> 0 \<Longrightarrow> root_bal t = 0"
proof -
  consider "\<bar>b\<bar> \<le> 1" | "b = 2" | "b = - 2" using assms(4) by linarith
  then show ?thesis
  proof cases
    case 1
    then show ?thesis using assms by (intro that [of "Bin l a b r"]) auto
  next
    case 2
    then obtain y c bc z where r: "r = Bin y c bc z" using assms(3) by (cases r) auto
    show ?thesis
    proof (cases "bc = - 1")
      case True
      then obtain y1 e be y2 where y: "y = Bin y1 e be y2" using assms(2) r by (cases y) auto
      show ?thesis
        using 2 assms True
        by (intro that [of "the (rebalance (Bin l a b r))"]) (auto simp: r y Let_def max_def split: if_splits)
    next
      case False
      then show ?thesis
        using 2 assms
        by (intro that [of "the (rebalance (Bin l a b r))"]) (auto simp: r Let_def max_def split: if_splits)
    qed
  next
    case 3
    then obtain x c bc y where l: "l = Bin x c bc y" using assms(3) by (cases l) auto
    show ?thesis
    proof (cases "bc = 1")
      case True
      then obtain y1 e be y2 where y: "y = Bin y1 e be y2" using assms(1) l by (cases y) auto
      show ?thesis
        using 3 assms True
        by (intro that [of "the (rebalance (Bin l a b r))"]) (auto simp: l y Let_def max_def split: if_splits)
    next
      case False
      then show ?thesis
        using 3 assms
        by (intro that [of "the (rebalance (Bin l a b r))"]) (auto simp: l Let_def max_def split: if_splits)
    qed
  qed
qed

section \<open>Order\<close>

definition compares :: "(addr \<Rightarrow> addr \<Rightarrow> int) \<Rightarrow> bool" where
  "compares cmp \<longleftrightarrow> (\<forall>a b. cmp a b < 0 \<longleftrightarrow> 0 < cmp b a) \<and> (\<forall>a b c. cmp a b \<le> 0 \<longrightarrow> cmp b c \<le> 0 \<longrightarrow> cmp a c \<le> 0)"

abbreviation ordered :: "(addr \<Rightarrow> addr \<Rightarrow> int) \<Rightarrow> addr list \<Rightarrow> bool" where
  "ordered cmp \<equiv> sorted_wrt (\<lambda>a b. cmp a b < 0)"

lemma compares_trans:
  assumes "compares cmp"
  shows "cmp a b < 0 \<Longrightarrow> cmp b c \<le> 0 \<Longrightarrow> cmp a c < 0" and "cmp a b \<le> 0 \<Longrightarrow> cmp b c < 0 \<Longrightarrow> cmp a c < 0"
    and "cmp a b > 0 \<Longrightarrow> cmp b c \<ge> 0 \<Longrightarrow> cmp a c > 0" and "cmp a b \<ge> 0 \<Longrightarrow> cmp b c > 0 \<Longrightarrow> cmp a c > 0"
proof -
  have f: "cmp x y < 0 \<longleftrightarrow> 0 < cmp y x" for x y using assms by (simp add: compares_def)
  have t: "cmp x y \<le> 0 \<Longrightarrow> cmp y z \<le> 0 \<Longrightarrow> cmp x z \<le> 0" for x y z using assms unfolding compares_def by blast
  show "cmp a b < 0 \<Longrightarrow> cmp b c \<le> 0 \<Longrightarrow> cmp a c < 0" using t [of b c a] f [of c a] f [of a b] f [of a c] by linarith
  show "cmp a b \<le> 0 \<Longrightarrow> cmp b c < 0 \<Longrightarrow> cmp a c < 0" using t [of c a b] f [of c a] f [of a c] f [of b c] by linarith
  show "cmp a b > 0 \<Longrightarrow> cmp b c \<ge> 0 \<Longrightarrow> cmp a c > 0" using t [of a c b] f [of b a] f [of b c] by linarith
  show "cmp a b \<ge> 0 \<Longrightarrow> cmp b c > 0 \<Longrightarrow> cmp a c > 0" using t [of b a c] f [of a b] f [of c b] f [of b a] by linarith
qed

lemma compares_flip: "compares cmp \<Longrightarrow> cmp a b < 0 \<Longrightarrow> cmp b a > 0"
  by (simp add: compares_def)

lemma cut:
  assumes "compares cmp" "ordered cmp (xs @ a # ys)"
  shows "cmp x a \<le> 0 \<Longrightarrow> y \<in> set ys \<Longrightarrow> cmp x y < 0" and "cmp x a \<ge> 0 \<Longrightarrow> y \<in> set xs \<Longrightarrow> cmp x y > 0"
  using assms compares_trans(2,4) [OF assms(1)] compares_flip [OF assms(1)] by (fastforce simp: sorted_wrt_append)+

text \<open>What is below and above a key.\<close>

abbreviation lower :: "(addr \<Rightarrow> addr \<Rightarrow> int) \<Rightarrow> addr \<Rightarrow> addr list \<Rightarrow> addr list" where
  "lower cmp x \<equiv> filter (\<lambda>a. cmp x a > 0)"

abbreviation upper :: "(addr \<Rightarrow> addr \<Rightarrow> int) \<Rightarrow> addr \<Rightarrow> addr list \<Rightarrow> addr list" where
  "upper cmp x \<equiv> filter (\<lambda>a. cmp x a < 0)"

abbreviation equal_to :: "(addr \<Rightarrow> addr \<Rightarrow> int) \<Rightarrow> addr \<Rightarrow> addr list \<Rightarrow> addr option" where
  "equal_to cmp x \<equiv> find (\<lambda>a. cmp x a = 0)"

lemma parts:
  assumes "compares cmp" "ordered cmp (xs @ a # ys)"
  shows "cmp x a < 0 \<Longrightarrow> lower cmp x (xs @ a # ys) = lower cmp x xs \<and> upper cmp x (xs @ a # ys) = upper cmp x xs @ a # ys \<and>
      equal_to cmp x (xs @ a # ys) = equal_to cmp x xs"
    and "cmp x a > 0 \<Longrightarrow> lower cmp x (xs @ a # ys) = xs @ a # lower cmp x ys \<and> upper cmp x (xs @ a # ys) = upper cmp x ys \<and>
      equal_to cmp x (xs @ a # ys) = equal_to cmp x ys"
    and "cmp x a = 0 \<Longrightarrow> lower cmp x (xs @ a # ys) = xs \<and> upper cmp x (xs @ a # ys) = ys \<and>
      equal_to cmp x (xs @ a # ys) = Some a"
proof -
  have f: "find P (us @ vs) = (case find P us of None \<Rightarrow> find P vs | Some u \<Rightarrow> Some u)" for P and us vs :: "addr list"
    by (induction us) auto
  have hi: "lower cmp x ys = [] \<and> upper cmp x ys = ys \<and> equal_to cmp x ys = None" if "cmp x a \<le> 0"
    using cut(1) [OF assms that] by (force simp: filter_empty_conv filter_id_conv find_None_iff)
  have lo: "lower cmp x xs = xs \<and> upper cmp x xs = [] \<and> equal_to cmp x xs = None" if "cmp x a \<ge> 0"
    using cut(2) [OF assms that] by (force simp: filter_empty_conv filter_id_conv find_None_iff)
  show "cmp x a < 0 \<Longrightarrow> lower cmp x (xs @ a # ys) = lower cmp x xs \<and> upper cmp x (xs @ a # ys) = upper cmp x xs @ a # ys \<and>
      equal_to cmp x (xs @ a # ys) = equal_to cmp x xs"
    using hi by (simp add: f split: option.splits)
  show "cmp x a > 0 \<Longrightarrow> lower cmp x (xs @ a # ys) = xs @ a # lower cmp x ys \<and> upper cmp x (xs @ a # ys) = upper cmp x ys \<and>
      equal_to cmp x (xs @ a # ys) = equal_to cmp x ys"
    using lo by (simp add: f split: option.splits)
  show "cmp x a = 0 \<Longrightarrow> lower cmp x (xs @ a # ys) = xs \<and> upper cmp x (xs @ a # ys) = ys \<and>
      equal_to cmp x (xs @ a # ys) = Some a"
    using lo hi by (simp add: f split: option.splits)
qed

lemma ordered_parts: "ordered cmp (xs @ a # ys) \<Longrightarrow> ordered cmp xs \<and> ordered cmp ys"
  by (simp add: sorted_wrt_append)

section \<open>A subtree changes its height\<close>

definition grown :: "atree \<Rightarrow> int \<Rightarrow> atree \<Rightarrow> bool" where
  "grown t d t' \<longleftrightarrow> avl t' \<and> int (height t') = int (height t) + d \<and> (d = 0 \<or> d = 1 \<and> (t = Tip \<or> root_bal t' \<noteq> 0))"

definition shrunk :: "atree \<Rightarrow> int \<Rightarrow> atree \<Rightarrow> bool" where
  "shrunk t d t' \<longleftrightarrow> avl t' \<and> int (height t') = int (height t) + d \<and> (d = 0 \<or> d = - 1)"

lemma grow_left:
  assumes "avl (Bin l a b r)" and "grown l d l'"
  obtains t where "rebalance (Bin l' a (b - d) r) = Some t" and "inorder t = inorder l' @ a # inorder r"
    and "grown (Bin l a b r) (if b = 0 \<and> root_bal t \<noteq> 0 then 1 else 0) t"
proof -
  have "b - d = int (height r) - int (height l')" "\<bar>b - d\<bar> \<le> 2" using assms by (auto simp: grown_def)
  then obtain t where t: "rebalance (Bin l' a (b - d) r) = Some t" "avl t" "inorder t = inorder l' @ a # inorder r"
    and small: "\<bar>b - d\<bar> \<le> 1 \<Longrightarrow> t = Bin l' a (b - d) r"
    and big: "\<bar>b - d\<bar> = 2 \<Longrightarrow> int (height t) = int (max (height l') (height r)) + (if root_bal t = 0 then 0 else 1)"
    and even: "b - d = - 2 \<Longrightarrow> root_bal l' \<noteq> 0 \<Longrightarrow> root_bal t = 0"
    using rebalance_ok [of l' r "b - d" a] assms by (auto simp: grown_def)
  have "grown (Bin l a b r) (if b = 0 \<and> root_bal t \<noteq> 0 then 1 else 0) t"
  proof (cases "\<bar>b - d\<bar> \<le> 1")
    case True
    then show ?thesis using small assms t by (auto simp: grown_def max_def split: if_splits)
  next
    case False
    then have b: "b = - 1" "d = 1" using assms by (auto simp: grown_def)
    then have "root_bal l' \<noteq> 0" using assms by (auto simp: grown_def)
    then have "root_bal t = 0" using even b by simp
    then show ?thesis using big b assms t by (auto simp: grown_def max_def split: if_splits)
  qed
  then show ?thesis using that t by blast
qed

lemma grow_right:
  assumes "avl (Bin l a b r)" and "grown r d r'"
  obtains t where "rebalance (Bin l a (b + d) r') = Some t" and "inorder t = inorder l @ a # inorder r'"
    and "grown (Bin l a b r) (if b = 0 \<and> root_bal t \<noteq> 0 then 1 else 0) t"
proof -
  have "b + d = int (height r') - int (height l)" "\<bar>b + d\<bar> \<le> 2" using assms by (auto simp: grown_def)
  then obtain t where t: "rebalance (Bin l a (b + d) r') = Some t" "avl t" "inorder t = inorder l @ a # inorder r'"
    and small: "\<bar>b + d\<bar> \<le> 1 \<Longrightarrow> t = Bin l a (b + d) r'"
    and big: "\<bar>b + d\<bar> = 2 \<Longrightarrow> int (height t) = int (max (height l) (height r')) + (if root_bal t = 0 then 0 else 1)"
    and even: "b + d = 2 \<Longrightarrow> root_bal r' \<noteq> 0 \<Longrightarrow> root_bal t = 0"
    using rebalance_ok [of l r' "b + d" a] assms by (auto simp: grown_def)
  have "grown (Bin l a b r) (if b = 0 \<and> root_bal t \<noteq> 0 then 1 else 0) t"
  proof (cases "\<bar>b + d\<bar> \<le> 1")
    case True
    then show ?thesis using small assms t by (auto simp: grown_def max_def split: if_splits)
  next
    case False
    then have b: "b = 1" "d = 1" using assms by (auto simp: grown_def)
    then have "root_bal r' \<noteq> 0" using assms by (auto simp: grown_def)
    then have "root_bal t = 0" using even b by simp
    then show ?thesis using big b assms t by (auto simp: grown_def max_def split: if_splits)
  qed
  then show ?thesis using that t by blast
qed

lemma shrink_left:
  assumes "avl (Bin l a b r)" and "shrunk l d l'"
  obtains t where "rebalance (Bin l' y (b - d) r) = Some t" and "inorder t = inorder l' @ y # inorder r"
    and "shrunk (Bin l a b r) (- (if b \<noteq> 0 \<and> root_bal t = 0 then 1 else 0)) t"
proof -
  have "b - d = int (height r) - int (height l')" "\<bar>b - d\<bar> \<le> 2" using assms by (auto simp: shrunk_def)
  then obtain t where t: "rebalance (Bin l' y (b - d) r) = Some t" "avl t" "inorder t = inorder l' @ y # inorder r"
    and small: "\<bar>b - d\<bar> \<le> 1 \<Longrightarrow> t = Bin l' y (b - d) r"
    and big: "\<bar>b - d\<bar> = 2 \<Longrightarrow> int (height t) = int (max (height l') (height r)) + (if root_bal t = 0 then 0 else 1)"
    using rebalance_ok [of l' r "b - d" y] assms by (auto simp: shrunk_def)
  have "shrunk (Bin l a b r) (- (if b \<noteq> 0 \<and> root_bal t = 0 then 1 else 0)) t"
  proof (cases "\<bar>b - d\<bar> \<le> 1")
    case True
    then show ?thesis using small assms t by (auto simp: shrunk_def max_def split: if_splits)
  next
    case False
    then have "b = 1" "d = - 1" using assms by (auto simp: shrunk_def)
    then show ?thesis using big assms t by (auto simp: shrunk_def max_def split: if_splits)
  qed
  then show ?thesis using that t by blast
qed

lemma shrink_right:
  assumes "avl (Bin l a b r)" and "shrunk r d r'"
  obtains t where "rebalance (Bin l y (b + d) r') = Some t" and "inorder t = inorder l @ y # inorder r'"
    and "shrunk (Bin l a b r) (- (if b \<noteq> 0 \<and> root_bal t = 0 then 1 else 0)) t"
proof -
  have "b + d = int (height r') - int (height l)" "\<bar>b + d\<bar> \<le> 2" using assms by (auto simp: shrunk_def)
  then obtain t where t: "rebalance (Bin l y (b + d) r') = Some t" "avl t" "inorder t = inorder l @ y # inorder r'"
    and small: "\<bar>b + d\<bar> \<le> 1 \<Longrightarrow> t = Bin l y (b + d) r'"
    and big: "\<bar>b + d\<bar> = 2 \<Longrightarrow> int (height t) = int (max (height l) (height r')) + (if root_bal t = 0 then 0 else 1)"
    using rebalance_ok [of l r' "b + d" y] assms by (auto simp: shrunk_def)
  have "shrunk (Bin l a b r) (- (if b \<noteq> 0 \<and> root_bal t = 0 then 1 else 0)) t"
  proof (cases "\<bar>b + d\<bar> \<le> 1")
    case True
    then show ?thesis using small assms t by (auto simp: shrunk_def max_def split: if_splits)
  next
    case False
    then have "b = - 1" "d = - 1" using assms by (auto simp: shrunk_def)
    then show ?thesis using big assms t by (auto simp: shrunk_def max_def split: if_splits)
  qed
  then show ?thesis using that t by blast
qed

section \<open>Insertion and deletion\<close>

lemma ins_ok:
  assumes "compares cmp"
  shows "avl t \<Longrightarrow> ordered cmp (inorder t) \<Longrightarrow> \<exists>d old t'. ins cmp x t = Some (d, old, t') \<and> grown t d t' \<and>
    inorder t' = lower cmp x (inorder t) @ x # upper cmp x (inorder t) \<and> old = equal_to cmp x (inorder t)"
proof (induction t)
  case Tip
  then show ?case by (simp add: grown_def)
next
  case (Bin l a b r)
  have o: "ordered cmp (inorder l)" "ordered cmp (inorder r)" using Bin.prems(2) by (simp_all add: sorted_wrt_append)
  note p = parts [OF assms Bin.prems(2) [unfolded inorder.simps], of x]
  consider "cmp x a < 0" | "cmp x a > 0" | "cmp x a = 0" by linarith
  then show ?case
  proof cases
    case 1
    obtain d old l' where i: "ins cmp x l = Some (d, old, l')" and l': "grown l d l'"
      "inorder l' = lower cmp x (inorder l) @ x # upper cmp x (inorder l)" "old = equal_to cmp x (inorder l)"
      using Bin.IH(1) Bin.prems(1) o(1) by auto
    show ?thesis by (rule grow_left [OF Bin.prems(1) l'(1)]) (use 1 i l' p(1) in auto)
  next
    case 2
    obtain d old r' where i: "ins cmp x r = Some (d, old, r')" and r': "grown r d r'"
      "inorder r' = lower cmp x (inorder r) @ x # upper cmp x (inorder r)" "old = equal_to cmp x (inorder r)"
      using Bin.IH(2) Bin.prems(1) o(2) by auto
    show ?thesis by (rule grow_right [OF Bin.prems(1) r'(1)]) (use 2 i r' p(2) in auto)
  next
    case 3
    then show ?thesis using Bin.prems(1) p(3) by (auto simp: grown_def)
  qed
qed

lemma split_min_ok:
  "avl t \<Longrightarrow> t \<noteq> Tip \<Longrightarrow> \<exists>d x t'. split_min t = Some (d, x, t') \<and> shrunk t d t' \<and> inorder t = x # inorder t'"
proof (induction t)
  case (Bin l a b r)
  show ?case
  proof (cases "l = Tip")
    case True
    then show ?thesis using Bin.prems by (auto simp: shrunk_def)
  next
    case False
    then obtain d x l' where l': "split_min l = Some (d, x, l')" "shrunk l d l'" "inorder l = x # inorder l'"
      using Bin.IH(1) Bin.prems(1) by auto
    show ?thesis by (rule shrink_left [OF Bin.prems(1) l'(2), of a]) (use False l' in auto)
  qed
qed simp

lemma del_ok:
  assumes "compares cmp"
  shows "avl t \<Longrightarrow> ordered cmp (inorder t) \<Longrightarrow> \<exists>d old t'. del cmp x t = Some (d, old, t') \<and> shrunk t d t' \<and>
    inorder t' = lower cmp x (inorder t) @ upper cmp x (inorder t) \<and> old = equal_to cmp x (inorder t)"
proof (induction t)
  case Tip
  then show ?case by (simp add: shrunk_def)
next
  case (Bin l a b r)
  have o: "ordered cmp (inorder l)" "ordered cmp (inorder r)" using Bin.prems(2) by (simp_all add: sorted_wrt_append)
  note p = parts [OF assms Bin.prems(2) [unfolded inorder.simps], of x]
  consider "cmp x a < 0" | "cmp x a > 0" | "cmp x a = 0" by linarith
  then show ?case
  proof cases
    case 1
    obtain d old l' where i: "del cmp x l = Some (d, old, l')" and l': "shrunk l d l'"
      "inorder l' = lower cmp x (inorder l) @ upper cmp x (inorder l)" "old = equal_to cmp x (inorder l)"
      using Bin.IH(1) Bin.prems(1) o(1) by auto
    show ?thesis by (rule shrink_left [OF Bin.prems(1) l'(1), of a]) (use 1 i l' p(1) in auto)
  next
    case 2
    obtain d old r' where i: "del cmp x r = Some (d, old, r')" and r': "shrunk r d r'"
      "inorder r' = lower cmp x (inorder r) @ upper cmp x (inorder r)" "old = equal_to cmp x (inorder r)"
      using Bin.IH(2) Bin.prems(1) o(2) by auto
    show ?thesis by (rule shrink_right [OF Bin.prems(1) r'(1), of a]) (use 2 i r' p(2) in auto)
  next
    case 3
    show ?thesis
    proof (cases "l = Tip \<or> r = Tip")
      case True
      then show ?thesis using 3 Bin.prems(1) p(3) by (auto simp: shrunk_def)
    next
      case False
      obtain d y r' where r': "split_min r = Some (d, y, r')" "shrunk r d r'" "inorder r = y # inorder r'"
        using split_min_ok [of r] False Bin.prems(1) by auto
      show ?thesis by (rule shrink_right [OF Bin.prems(1) r'(2), of y]) (use False 3 r' p(3) in auto)
    qed
  qed
qed

text \<open>The height of a balanced tree is at most twice the logarithm of its size.\<close>

lemma avl_height: "avl t \<Longrightarrow> 2 ^ height t \<le> (length (inorder t) + 1) ^ 2"
proof (induction t)
  case (Bin l a b r)
  define x y where "x = length (inorder l) + 1" and "y = length (inorder r) + 1"
  have ih: "2 ^ height l \<le> x\<^sup>2" "2 ^ height r \<le> y\<^sup>2" using Bin by (auto simp: x_def y_def)
  have b: "height l = height r \<or> height l = height r + 1 \<or> height r = height l + 1" using Bin.prems by auto
  have xy: "(x + y)\<^sup>2 = x\<^sup>2 + 2 * (x * y) + y\<^sup>2" by (simp add: power2_sum)
  have m: "x\<^sup>2 \<le> x * y \<or> y\<^sup>2 \<le> x * y" by (cases "x \<le> y") (simp_all add: power2_eq_square)
  have "2 * 2 ^ max (height l) (height r) \<le> x\<^sup>2 + 2 * (x * y) + y\<^sup>2" using b ih m by (elim disjE) (simp_all add: max_def)
  then have "2 * 2 ^ max (height l) (height r) \<le> (x + y)\<^sup>2" unfolding xy .
  then show ?case by (simp add: x_def y_def add.commute add.left_commute)
qed simp

end
