(* ===== verification/Avl_Heap.thy ===== *)
theory Avl_Heap
  imports Avl_Tree
begin

text \<open>
  The refinement of the routines on trees as values by those on the heap: the nodes in memory, with their parent pointers, make up
  the tree, and nothing outside it changes.
\<close>

section \<open>Trees in the heap\<close>

fun root :: "atree \<Rightarrow> addr option" where
  "root Tip = None"
| "root (Bin l a b r) = Some a"

fun in_heap :: "(addr \<Rightarrow> Avl option) \<Rightarrow> addr option \<Rightarrow> atree \<Rightarrow> bool" where
  "in_heap h p Tip \<longleftrightarrow> True"
| "in_heap h p (Bin l a b r) \<longleftrightarrow> h a = Some \<lparr>av_p = p, av_n0 = root l, av_n1 = root r, av_bal = b\<rparr> \<and>
     in_heap h (Some a) l \<and> in_heap h (Some a) r"

lemma root_None [simp]: "root t = None \<longleftrightarrow> t = Tip" "None = root t \<longleftrightarrow> t = Tip"
  by (cases t; simp)+

lemma in_heap_cong: "(\<And>x. x \<in> set (inorder t) \<Longrightarrow> h' x = h x) \<Longrightarrow> in_heap h' p t = in_heap h p t"
  by (induction t arbitrary: p) auto

lemma in_heap_upd [simp]: "a \<notin> set (inorder t) \<Longrightarrow> in_heap (h(a := v)) p t = in_heap h p t"
  by (rule in_heap_cong) auto

text \<open>A slot outside the tree that is looked at.\<close>

fun avoids :: "slot \<Rightarrow> addr \<Rightarrow> bool" where
  "avoids Root a \<longleftrightarrow> True"
| "avoids (Kid g k) a \<longleftrightarrow> g \<noteq> a"

definition off :: "slot \<Rightarrow> addr set \<Rightarrow> bool" where
  "off tp A \<longleftrightarrow> (\<forall>a\<in>A. avoids tp a)"

lemma off_simps [simp]:
  "off Root A" "off (Kid g k) A \<longleftrightarrow> g \<notin> A" "off tp {}" "off tp (insert a A) \<longleftrightarrow> avoids tp a \<and> off tp A" "off tp (A \<union> B) \<longleftrightarrow> off tp A \<and> off tp B"
  by (auto simp: off_def)

text \<open>All that has changed is the slot and nodes of \<open>A\<close>.\<close>

definition within :: "slot \<Rightarrow> addr set \<Rightarrow> Avltree \<Rightarrow> Avltree \<Rightarrow> bool" where
  "within tp A s s' \<longleftrightarrow> (\<exists>v s0. write_slot tp v s = Some s0 \<and> (\<forall>x. x \<notin> A \<longrightarrow> t_heap s' x = t_heap s0 x) \<and>
     t_root s' = t_root s0 \<and> t_cmp s' = t_cmp s0 \<and> t_walks s' = t_walks s0)"

text \<open>The tree that a slot points to.\<close>

definition holds :: "slot \<Rightarrow> addr option \<Rightarrow> atree \<Rightarrow> Avltree \<Rightarrow> bool" where
  "holds tp p t s \<longleftrightarrow> read_slot tp s = Some (root t) \<and> in_heap (t_heap s) p t \<and> distinct (inorder t) \<and> off tp (set (inorder t))"

lemma kid_simps [simp]: "kid 0 n = av_n0 n" "kid (Suc 0) n = av_n1 n" "set_kid 0 v n = n\<lparr>av_n0 := v\<rparr>" "set_kid (Suc 0) v n = n\<lparr>av_n1 := v\<rparr>"
  by (simp_all add: kid_def set_kid_def)

lemma kid_set [simp]: "kid k (set_kid k v n) = v" "set_kid k v (set_kid k w n) = set_kid k v n" "kid k n = v \<Longrightarrow> set_kid k v n = n"
  by (auto simp: kid_def set_kid_def)

lemma store_Some [simp]: "t_heap t a = Some n \<Longrightarrow> update_node a f t = Some (t\<lparr>t_heap := (t_heap t)(a \<mapsto> f n)\<rparr>)"
  by (simp add: update_node_def)

lemma pos_max: "(if 0 < x then x else 0) = max x (0 :: int)"
  by simp

lemma singleleft_ok:
  assumes "holds tp p (Bin x a ba (Bin y c bc z)) s"
  shows "\<exists>s'. singleleft tp p s = Some s' \<and> holds tp p (the (rotl (Bin x a ba (Bin y c bc z)))) s' \<and>
    within tp (set (inorder (Bin x a ba (Bin y c bc z)))) s s'"
proof (cases tp)
  case Root
  show ?thesis
    using assms unfolding Root
    by (cases y) (auto simp: holds_def singleleft_def set_parent_def within_def Let_def pos_max)
next
  case (Kid g k)
  show ?thesis
    using assms unfolding Kid
    by (cases y) (auto simp: holds_def singleleft_def set_parent_def within_def Let_def pos_max)
qed

lemma singleright_ok:
  assumes "holds tp p (Bin (Bin x c bc y) a ba z) s"
  shows "\<exists>s'. singleright tp p s = Some s' \<and> holds tp p (the (rotr (Bin (Bin x c bc y) a ba z))) s' \<and>
    within tp (set (inorder (Bin (Bin x c bc y) a ba z))) s s'"
proof (cases tp)
  case Root
  show ?thesis
    using assms unfolding Root
    by (cases y) (auto simp: holds_def singleright_def set_parent_def within_def Let_def pos_max)
next
  case (Kid g k)
  show ?thesis
    using assms unfolding Kid
    by (cases y) (auto simp: holds_def singleright_def set_parent_def within_def Let_def pos_max)
qed

lemma within_refl: "read_slot tp s = Some v \<Longrightarrow> within tp A s s"
  by (cases tp) (auto simp: within_def intro!: exI [of _ v])

lemma within_mono: "within tp A s s' \<Longrightarrow> A \<subseteq> B \<Longrightarrow> within tp B s s'"
  unfolding within_def by blast

lemma within_trans:
  assumes "within tp A s s1" and "within tp B s1 s2" and "off tp A"
  shows "within tp (A \<union> B) s s2"
proof (cases tp)
  case Root
  then show ?thesis using assms by (fastforce simp: within_def)
next
  case (Kid g k)
  then show ?thesis using assms by (fastforce simp: within_def update_node_def split: option.splits)
qed

lemma within_kid:
  assumes "within (Kid a k) B s s'" and "read_slot tp s = Some v" and "insert a B \<subseteq> A"
  shows "within tp A s s'"
proof -
  have h: "t_heap s' x = t_heap s x" if "x \<notin> A" for x
    using that assms(1,3) by (auto simp: within_def update_node_def split: option.splits if_splits)
  have "t_root s' = t_root s \<and> t_cmp s' = t_cmp s \<and> t_walks s' = t_walks s"
    using assms(1) by (auto simp: within_def update_node_def split: option.splits)
  then show ?thesis using h assms(2) within_refl [OF assms(2), of A] by (auto simp: within_def)
qed

lemma within_fetch:
  assumes "within (Kid a k) B s s'" and "off tp (insert a B)"
  shows "read_slot tp s' = read_slot tp s"
  using assms by (cases tp) (fastforce simp: within_def update_node_def split: option.splits if_splits)+

lemma within_same: "within tp A s s' \<Longrightarrow> t_cmp s' = t_cmp s \<and> t_walks s' = t_walks s"
  by (cases tp) (auto simp: within_def update_node_def split: option.splits)

lemma assign_heap: "write_slot tp v s = Some s' \<Longrightarrow> avoids tp x \<Longrightarrow> t_heap s' x = t_heap s x"
  by (cases tp) (auto simp: update_node_def split: option.splits)

lemma within_heap: "within tp A s s' \<Longrightarrow> x \<notin> A \<Longrightarrow> avoids tp x \<Longrightarrow> t_heap s' x = t_heap s x"
  unfolding within_def using assign_heap by metis

lemma within_node:
  "within (Kid a k) B s s' \<Longrightarrow> a \<notin> B \<Longrightarrow> t_heap s a = Some n \<Longrightarrow> \<exists>v. t_heap s' a = Some (set_kid k v n)"
  by (auto simp: within_def)

text \<open>Going down to a subtree and back up with what has become of it.\<close>

lemma holds_down:
  assumes "holds tp p (Bin l a b r) s"
  shows "holds (Kid a 0) (Some a) l s" and "holds (Kid a 1) (Some a) r s"
  using assms by (auto simp: holds_def)

lemma holds_up_left:
  assumes "holds tp p (Bin l a b r) s" and "holds (Kid a 0) (Some a) l' s'" and w: "within (Kid a 0) A s s'"
    and "set (inorder l') \<subseteq> A" and "A \<inter> insert a (set (inorder r)) = {}" and "off tp A"
  shows "holds tp p (Bin l' a b r) s'"
proof -
  have a: "t_heap s' a = Some \<lparr>av_p = p, av_n0 = root l', av_n1 = root r, av_bal = b\<rparr>"
    using assms within_node [OF w, of "\<lparr>av_p = p, av_n0 = root l, av_n1 = root r, av_bal = b\<rparr>"] by (auto simp: holds_def)
  have r: "in_heap (t_heap s') (Some a) r"
    using assms(1,5) within_heap [OF w] in_heap_cong [of r "t_heap s'" "t_heap s" "Some a"] by (force simp: holds_def)
  have "off tp (insert a A)" using assms(1,6) by (cases tp) (auto simp: holds_def)
  then have f: "read_slot tp s' = Some (Some a)" using within_fetch [OF w, of tp] assms(1) by (simp add: holds_def)
  have "off tp (set (inorder (Bin l' a b r)))" using assms(1,4,6) by (cases tp) (auto simp: holds_def)
  then show ?thesis using a r f assms by (auto simp: holds_def)
qed

lemma holds_up_right:
  assumes "holds tp p (Bin l a b r) s" and "holds (Kid a 1) (Some a) r' s'" and w: "within (Kid a 1) A s s'"
    and "set (inorder r') \<subseteq> A" and "A \<inter> insert a (set (inorder l)) = {}" and "off tp A"
  shows "holds tp p (Bin l a b r') s'"
proof -
  have a: "t_heap s' a = Some \<lparr>av_p = p, av_n0 = root l, av_n1 = root r', av_bal = b\<rparr>"
    using assms within_node [OF w, of "\<lparr>av_p = p, av_n0 = root l, av_n1 = root r, av_bal = b\<rparr>"] by (auto simp: holds_def)
  have r: "in_heap (t_heap s') (Some a) l"
    using assms(1,5) within_heap [OF w] in_heap_cong [of l "t_heap s'" "t_heap s" "Some a"] by (force simp: holds_def)
  have "off tp (insert a A)" using assms(1,6) by (cases tp) (auto simp: holds_def)
  then have f: "read_slot tp s' = Some (Some a)" using within_fetch [OF w, of tp] assms(1) by (simp add: holds_def)
  have "off tp (set (inorder (Bin l a b r')))" using assms(1,4,6) by (cases tp) (auto simp: holds_def)
  then show ?thesis using a r f assms by (auto simp: holds_def)
qed

lemma holds_fetch: "holds tp p t s \<Longrightarrow> read_slot tp s = Some (root t)"
  by (simp add: holds_def)

lemma rot_inorder: "rotl t = Some t' \<Longrightarrow> inorder t' = inorder t" "rotr t = Some t' \<Longrightarrow> inorder t' = inorder t"
  by (cases t rule: rotl.cases; auto simp: Let_def) (cases t rule: rotr.cases; auto simp: Let_def)

lemma rotl_heap:
  assumes "holds tp p t s" and "rotl t = Some t'"
  shows "\<exists>s'. singleleft tp p s = Some s' \<and> holds tp p t' s' \<and> within tp (set (inorder t)) s s'"
proof -
  obtain x a ba y c bc z where "t = Bin x a ba (Bin y c bc z)" using assms(2) by (cases t rule: rotl.cases) auto
  then show ?thesis using singleleft_ok [of tp p x a ba y c bc z s] assms by simp
qed

lemma rotr_heap:
  assumes "holds tp p t s" and "rotr t = Some t'"
  shows "\<exists>s'. singleright tp p s = Some s' \<and> holds tp p t' s' \<and> within tp (set (inorder t)) s s'"
proof -
  obtain x a ba y c bc z where "t = Bin (Bin x c bc y) a ba z" using assms(2) by (cases t rule: rotr.cases) auto
  then show ?thesis using singleright_ok [of tp p x c bc y a ba z s] assms by simp
qed

lemma rebalance_cases:
  assumes "rebalance (Bin l a b r) = Some t'"
  obtains (same) "b \<noteq> 2" "b \<noteq> - 2" "t' = Bin l a b r"
    | (right) "b = - 2" "l \<noteq> Tip" "root_bal l \<le> 0" "rotr (Bin l a b r) = Some t'"
    | (leftright) l' where "b = - 2" "l \<noteq> Tip" "root_bal l = 1" "rotl l = Some l'" "rotr (Bin l' a b r) = Some t'"
    | (left) "b = 2" "r \<noteq> Tip" "root_bal r \<ge> 0" "rotl (Bin l a b r) = Some t'"
    | (rightleft) r' where "b = 2" "r \<noteq> Tip" "root_bal r = - 1" "rotr r = Some r'" "rotl (Bin l a b r') = Some t'"
proof -
  consider "b = - 2" | "b = 2" | "b \<noteq> 2" "b \<noteq> - 2" by blast
  then show ?thesis
  proof cases
    case 1
    then have "l \<noteq> Tip" using assms by auto
    then show ?thesis
      using assms 1 right leftright by (cases "root_bal l \<le> 0"; cases "root_bal l = 1"; cases "rotl l") auto
  next
    case 2
    then have "r \<noteq> Tip" using assms by auto
    then show ?thesis
      using assms 2 left rightleft by (cases "root_bal r \<ge> 0"; cases "root_bal r = - 1"; cases "rotr r") auto
  next
    case 3
    then show ?thesis using assms same by simp
  qed
qed

lemma doubleleftright_heap:
  assumes h: "holds tp p (Bin l a b r) s" and "rotl l = Some l'" and "rotr (Bin l' a b r) = Some t'"
  shows "\<exists>s'. doubleleftright tp p s = Some s' \<and> holds tp p t' s' \<and> within tp (set (inorder (Bin l a b r))) s s'"
proof -
  note f = holds_fetch [OF h, unfolded root.simps]
  obtain s1 where s1: "singleleft (Kid a 0) (Some a) s = Some s1" "holds (Kid a 0) (Some a) l' s1" "within (Kid a 0) (set (inorder l)) s s1"
    using rotl_heap [OF holds_down(1) [OF h] assms(2)] by auto
  have same: "set (inorder l') = set (inorder l)" using rot_inorder(1) [OF assms(2)] by simp
  have off: "set (inorder l) \<inter> insert a (set (inorder r)) = {}" "off tp (set (inorder l))" "off tp (set (inorder (Bin l a b r)))"
    using h by (auto simp: holds_def)
  have h1: "holds tp p (Bin l' a b r) s1" by (rule holds_up_left [OF h s1(2,3)]) (use same off in auto)
  obtain s2 where s2: "singleright tp p s1 = Some s2" "holds tp p t' s2" "within tp (set (inorder (Bin l' a b r))) s1 s2"
    using rotr_heap [OF h1 assms(3)] by auto
  have "within tp (set (inorder (Bin l a b r))) s s1" by (rule within_kid [OF s1(3) f]) auto
  from within_trans [OF this s2(3) off(3)] have "within tp (set (inorder (Bin l a b r))) s s2" by (simp add: same)
  then show ?thesis using s1(1) s2(1,2) f by (auto simp: doubleleftright_def)
qed

lemma doublerightleft_heap:
  assumes h: "holds tp p (Bin l a b r) s" and "rotr r = Some r'" and "rotl (Bin l a b r') = Some t'"
  shows "\<exists>s'. doublerightleft tp p s = Some s' \<and> holds tp p t' s' \<and> within tp (set (inorder (Bin l a b r))) s s'"
proof -
  note f = holds_fetch [OF h, unfolded root.simps]
  obtain s1 where s1: "singleright (Kid a 1) (Some a) s = Some s1" "holds (Kid a 1) (Some a) r' s1" "within (Kid a 1) (set (inorder r)) s s1"
    using rotr_heap [OF holds_down(2) [OF h] assms(2)] by auto
  have same: "set (inorder r') = set (inorder r)" using rot_inorder(2) [OF assms(2)] by simp
  have off: "set (inorder r) \<inter> insert a (set (inorder l)) = {}" "off tp (set (inorder r))" "off tp (set (inorder (Bin l a b r)))"
    using h by (auto simp: holds_def)
  have h1: "holds tp p (Bin l a b r') s1" by (rule holds_up_right [OF h s1(2,3)]) (use same off in auto)
  obtain s2 where s2: "singleleft tp p s1 = Some s2" "holds tp p t' s2" "within tp (set (inorder (Bin l a b r'))) s1 s2"
    using rotl_heap [OF h1 assms(3)] by auto
  have "within tp (set (inorder (Bin l a b r))) s s1" by (rule within_kid [OF s1(3) f]) auto
  from within_trans [OF this s2(3) off(3)] have "within tp (set (inorder (Bin l a b r))) s s2" by (simp add: same)
  then show ?thesis using s1(1) s2(1,2) f by (auto simp: doublerightleft_def)
qed

lemma deref_root: "holds tp p t s \<Longrightarrow> t \<noteq> Tip \<Longrightarrow> \<exists>n. deref (root t) s = Some n \<and> av_bal n = root_bal t"
  by (cases t) (auto simp: holds_def deref_def)

lemma rebalance_heap:
  assumes h: "holds tp p t s" and "rebalance t = Some t'"
  shows "\<exists>s'. balance tp p s = Some s' \<and> holds tp p t' s' \<and> within tp (set (inorder t)) s s'"
proof -
  obtain l a b r where t: "t = Bin l a b r" using assms(2) by (cases t) auto
  have n: "deref (Some a) s = Some \<lparr>av_p = p, av_n0 = root l, av_n1 = root r, av_bal = b\<rparr>" "read_slot tp s = Some (Some a)"
    using h by (auto simp: t holds_def deref_def)
  note l = deref_root [OF holds_down(1) [OF h [unfolded t]]] and r = deref_root [OF holds_down(2) [OF h [unfolded t]]]
  from assms(2) [unfolded t] show ?thesis
  proof (cases rule: rebalance_cases)
    case same
    then show ?thesis using n h within_refl [OF n(2)] by (auto simp: t balance_def)
  next
    case right
    then have "balance tp p s = singleright tp p s" using n l by (auto simp: balance_def)
    then show ?thesis using rotr_heap [OF h] right(4) by (simp add: t)
  next
    case left
    then have "balance tp p s = singleleft tp p s" using n r by (auto simp: balance_def)
    then show ?thesis using rotl_heap [OF h] left(4) by (simp add: t)
  next
    case leftright
    then have "balance tp p s = doubleleftright tp p s" using n l by (auto simp: balance_def)
    then show ?thesis using doubleleftright_heap [OF h [unfolded t] leftright(4,5)] by (simp add: t)
  next
    case rightleft
    then have "balance tp p s = doublerightleft tp p s" using n r by (auto simp: balance_def)
    then show ?thesis using doublerightleft_heap [OF h [unfolded t] rightleft(4,5)] by (simp add: t)
  qed
qed

section \<open>Insertion and deletion in the heap\<close>

lemma rebalance_inorder: "rebalance t = Some t' \<Longrightarrow> inorder t' = inorder t \<and> t' \<noteq> Tip"
proof (cases t)
  case (Bin l a b r)
  assume "rebalance t = Some t'"
  from this [unfolded Bin] show ?thesis
  proof (cases rule: rebalance_cases)
    case same
    then show ?thesis by (simp add: Bin)
  next
    case right
    then show ?thesis using rot_inorder [of "Bin l a b r" t'] by (cases t') (auto simp: Bin)
  next
    case left
    then show ?thesis using rot_inorder [of "Bin l a b r" t'] by (cases t') (auto simp: Bin)
  next
    case (leftright l')
    then show ?thesis using rot_inorder(1) [of l l'] rot_inorder(2) [of "Bin l' a b r" t'] by (cases t') (auto simp: Bin)
  next
    case (rightleft r')
    then show ?thesis using rot_inorder(2) [of r r'] rot_inorder(1) [of "Bin l a b r'" t'] by (cases t') (auto simp: Bin)
  qed
qed simp

lemma set_bal:
  assumes "holds tp p (Bin l a b r) s"
  shows "\<exists>s'. update_node a (\<lambda>n. n\<lparr>av_bal := f (av_bal n)\<rparr>) s = Some s' \<and> holds tp p (Bin l a (f b) r) s' \<and> within tp {a} s s'"
proof (cases tp)
  case Root
  then show ?thesis using assms by (auto simp: holds_def within_def)
next
  case (Kid g k)
  have "\<exists>v. n = set_kid k v n" for n using kid_set(3) [symmetric] by blast
  then show ?thesis using assms Kid by (auto simp: holds_def within_def)
qed

lemma holds_bal: "holds tp p t s \<Longrightarrow> t \<noteq> Tip \<Longrightarrow> bal_at tp s = Some (root_bal t)"
  using deref_root [of tp p t s] holds_fetch [of tp p t s] by (auto simp: bal_at_def)

lemma holds_off: "holds tp p t s \<Longrightarrow> off tp (set (inorder t))"
  by (simp add: holds_def)

text \<open>A node after the call for one of its subtrees: its balance factor is adjusted and the node is balanced.\<close>

definition settle :: "slot \<Rightarrow> addr option \<Rightarrow> addr \<Rightarrow> (int \<Rightarrow> int) \<Rightarrow> Avltree \<Rightarrow> (int \<times> Avltree) option" where
  "settle tp p a f s = do {
     s \<leftarrow> update_node a (\<lambda>n. n\<lparr>av_bal := f (av_bal n)\<rparr>) s;
     s \<leftarrow> balance tp p s;
     nb \<leftarrow> bal_at tp s;
     Some (nb, s) }"

lemma settle_heap:
  assumes h: "holds tp p (Bin l a b r) s" and "rebalance (Bin l a (f b) r) = Some t"
  shows "\<exists>s'. settle tp p a f s = Some (root_bal t, s') \<and> holds tp p t s' \<and> within tp (set (inorder (Bin l a b r))) s s'"
proof -
  obtain s1 where s1: "update_node a (\<lambda>n. n\<lparr>av_bal := f (av_bal n)\<rparr>) s = Some s1" "holds tp p (Bin l a (f b) r) s1" "within tp {a} s s1"
    using set_bal [OF h, of f] by blast
  obtain s2 where s2: "balance tp p s1 = Some s2" "holds tp p t s2" "within tp (set (inorder (Bin l a (f b) r))) s1 s2"
    using rebalance_heap [OF s1(2) assms(2)] by blast
  have "off tp {a}" using holds_off [OF h] by simp
  from within_trans [OF s1(3) s2(3) this] have w: "within tp (set (inorder (Bin l a b r))) s s2" by simp
  have "bal_at tp s2 = Some (root_bal t)" using holds_bal [OF s2(2)] rebalance_inorder [OF assms(2)] by simp
  then show ?thesis using s1(1) s2(1,2) w by (auto simp: settle_def)
qed

lemma settle_left:
  assumes h: "holds tp p (Bin l a b r) s" and l': "holds (Kid a 0) (Some a) l' s1" and w: "within (Kid a 0) A s s1"
    and "set (inorder l') \<subseteq> A" "A \<inter> insert a (set (inorder r)) = {}" "off tp A" and "rebalance (Bin l' a (f b) r) = Some t"
  shows "\<exists>s'. settle tp p a f s1 = Some (root_bal t, s') \<and> holds tp p t s' \<and> within tp (insert a (A \<union> set (inorder r))) s s'"
proof -
  let ?B = "insert a (A \<union> set (inorder r))"
  have h1: "holds tp p (Bin l' a b r) s1" by (rule holds_up_left [OF h l' w assms(4-6)])
  obtain s2 where s2: "settle tp p a f s1 = Some (root_bal t, s2)" "holds tp p t s2" "within tp (set (inorder (Bin l' a b r))) s1 s2"
    using settle_heap [where f = f, OF h1 assms(7)] by blast
  have "within tp ?B s s1" by (rule within_kid [OF w holds_fetch [OF h]]) auto
  moreover have "within tp ?B s1 s2" by (rule within_mono [OF s2(3)]) (use assms(4) in auto)
  moreover have "off tp ?B" using holds_off [OF h] assms(6) by auto
  ultimately have "within tp ?B s s2" using within_trans [of tp ?B s s1 ?B s2] by simp
  then show ?thesis using s2 by blast
qed

lemma settle_right:
  assumes h: "holds tp p (Bin l a b r) s" and r': "holds (Kid a 1) (Some a) r' s1" and w: "within (Kid a 1) A s s1"
    and "set (inorder r') \<subseteq> A" "A \<inter> insert a (set (inorder l)) = {}" "off tp A" and "rebalance (Bin l a (f b) r') = Some t"
  shows "\<exists>s'. settle tp p a f s1 = Some (root_bal t, s') \<and> holds tp p t s' \<and> within tp (insert a (A \<union> set (inorder l))) s s'"
proof -
  let ?B = "insert a (A \<union> set (inorder l))"
  have h1: "holds tp p (Bin l a b r') s1" by (rule holds_up_right [OF h r' w assms(4-6)])
  obtain s2 where s2: "settle tp p a f s1 = Some (root_bal t, s2)" "holds tp p t s2" "within tp (set (inorder (Bin l a b r'))) s1 s2"
    using settle_heap [where f = f, OF h1 assms(7)] by blast
  have "within tp ?B s s1" by (rule within_kid [OF w holds_fetch [OF h]]) auto
  moreover have "within tp ?B s1 s2" by (rule within_mono [OF s2(3)]) (use assms(4) in auto)
  moreover have "off tp ?B" using holds_off [OF h] assms(6) by auto
  ultimately have "within tp ?B s s2" using within_trans [of tp ?B s s1 ?B s2] by simp
  then show ?thesis using s2 by blast
qed

lemma ins_set: "ins cmp x t = Some (d, old, t') \<Longrightarrow> set (inorder t') \<subseteq> insert x (set (inorder t))"
proof (induction t arbitrary: d old t')
  case (Bin l a b r)
  consider "cmp x a < 0" | "cmp x a > 0" | "cmp x a = 0" by linarith
  then show ?case
  proof cases
    case 1
    then obtain d' l' where "ins cmp x l = Some (d', old, l')" "rebalance (Bin l' a (b - d') r) = Some t'"
      using Bin.prems by (auto split: Option.bind_splits)
    then show ?thesis using Bin.IH(1) rebalance_inorder by fastforce
  next
    case 2
    then obtain d' r' where "ins cmp x r = Some (d', old, r')" "rebalance (Bin l a (b + d') r') = Some t'"
      using Bin.prems by (auto split: Option.bind_splits)
    then show ?thesis using Bin.IH(2) rebalance_inorder by fastforce
  next
    case 3
    then show ?thesis using Bin.prems by auto
  qed
qed auto

lemma insert_Tip:
  assumes "holds tp p Tip s" and "avoids tp x" and "t_heap s x \<noteq> None"
  shows "\<exists>s'. insert_node (Suc fuel) tp p x rfree s = Some (1, rfree, s') \<and> holds tp p (Bin Tip x 0 Tip) s' \<and> within tp {x} s s'"
proof (cases tp)
  case Root
  then show ?thesis using assms by (auto simp: holds_def within_def)
next
  case (Kid g k)
  then show ?thesis using assms by (auto simp: holds_def within_def)
qed

lemma insert_same:
  assumes "holds tp p (Bin l a b r) s" and "avoids tp x" and "t_heap s x \<noteq> None" and "t_cmp s x a = 0"
    and "x \<notin> set (inorder (Bin l a b r))"
  shows "\<exists>s'. insert_node (Suc fuel) tp p x rfree s = Some (0, Some a, s') \<and> holds tp p (Bin l x b r) s' \<and>
    within tp (insert x (set (inorder (Bin l a b r)))) s s'"
proof (cases tp)
  case Root
  then show ?thesis
    using assms by (cases l; cases r) (auto simp: holds_def within_def bal_at_def deref_def canoncmp_def set_parent_def)
next
  case (Kid g k)
  then show ?thesis
    using assms by (cases l; cases r) (auto simp: holds_def within_def bal_at_def deref_def canoncmp_def set_parent_def)
qed

lemma insert_less:
  assumes "holds tp p (Bin l a b r) s" and "t_cmp s x a < 0"
    and "insert_node fuel (Kid a 0) (Some a) x rfree s = Some (d, old, s1)"
    and "settle tp p a (\<lambda>b. b - d) s1 = Some (nb, s2)"
  shows "insert_node (Suc fuel) tp p x rfree s = Some (if b = 0 \<and> nb \<noteq> 0 then 1 else 0, old, s2)"
  using assms(2-4) holds_fetch [OF assms(1)] holds_bal [OF assms(1)]
  by (auto simp: canoncmp_def settle_def split: Option.bind_splits)

lemma insert_greater:
  assumes "holds tp p (Bin l a b r) s" and "t_cmp s x a > 0"
    and "insert_node fuel (Kid a 1) (Some a) x rfree s = Some (d, old, s1)"
    and "settle tp p a (\<lambda>b. b + d) s1 = Some (nb, s2)"
  shows "insert_node (Suc fuel) tp p x rfree s = Some (if b = 0 \<and> nb \<noteq> 0 then 1 else 0, old, s2)"
  using assms(2-4) holds_fetch [OF assms(1)] holds_bal [OF assms(1)]
  by (auto simp: canoncmp_def settle_def split: Option.bind_splits)

lemma insert_heap:
  "holds tp p t s \<Longrightarrow> x \<notin> set (inorder t) \<Longrightarrow> avoids tp x \<Longrightarrow> t_heap s x \<noteq> None \<Longrightarrow> ins (t_cmp s) x t = Some (d, old, t') \<Longrightarrow>
    height t < fuel \<Longrightarrow>
    \<exists>s'. insert_node fuel tp p x rfree s = Some (d, (if old = None then rfree else old), s') \<and> holds tp p t' s' \<and>
      within tp (insert x (set (inorder t))) s s'"
proof (induction t arbitrary: fuel tp p d old t')
  case Tip
  then obtain k where "fuel = Suc k" by (cases fuel) auto
  then show ?case using insert_Tip [of tp p s x k rfree] Tip by auto
next
  case (Bin l a b r)
  then obtain k where k: "fuel = Suc k" by (cases fuel) auto
  note h = Bin.prems(1)
  have dis: "insert x (set (inorder l)) \<inter> insert a (set (inorder r)) = {}" "insert x (set (inorder r)) \<inter> insert a (set (inorder l)) = {}"
    using h Bin.prems(2) by (auto simp: holds_def)
  have off: "off tp (insert x (set (inorder l)))" "off tp (insert x (set (inorder r)))" using holds_off [OF h] Bin.prems(3) by auto
  consider "t_cmp s x a < 0" | "t_cmp s x a > 0" | "t_cmp s x a = 0" by linarith
  then show ?case
  proof cases
    case 1
    then obtain d' l' where i: "ins (t_cmp s) x l = Some (d', old, l')" "rebalance (Bin l' a (b - d') r) = Some t'"
      "d = (if b = 0 \<and> root_bal t' \<noteq> 0 then 1 else 0)"
      using Bin.prems(5) by (auto split: Option.bind_splits)
    obtain s1 where s1: "insert_node k (Kid a 0) (Some a) x rfree s = Some (d', (if old = None then rfree else old), s1)"
      "holds (Kid a 0) (Some a) l' s1" "within (Kid a 0) (insert x (set (inorder l))) s s1"
      using Bin.IH(1) [OF holds_down(1) [OF h] _ _ Bin.prems(4) i(1), of k] Bin.prems(2,6) k by auto
    obtain s2 where s2: "settle tp p a (\<lambda>b. b - d') s1 = Some (root_bal t', s2)" "holds tp p t' s2"
      "within tp (insert a (insert x (set (inorder l)) \<union> set (inorder r))) s s2"
      using settle_left [where f = "\<lambda>b. b - d'", OF h s1(2,3) ins_set [OF i(1)] dis(1) off(1) i(2)] by blast
    then show ?thesis using insert_less [OF h 1 s1(1) s2(1)] k i(3) by (auto simp: insert_commute)
  next
    case 2
    then obtain d' r' where i: "ins (t_cmp s) x r = Some (d', old, r')" "rebalance (Bin l a (b + d') r') = Some t'"
      "d = (if b = 0 \<and> root_bal t' \<noteq> 0 then 1 else 0)"
      using Bin.prems(5) by (auto split: Option.bind_splits)
    obtain s1 where s1: "insert_node k (Kid a 1) (Some a) x rfree s = Some (d', (if old = None then rfree else old), s1)"
      "holds (Kid a 1) (Some a) r' s1" "within (Kid a 1) (insert x (set (inorder r))) s s1"
      using Bin.IH(2) [OF holds_down(2) [OF h] _ _ Bin.prems(4) i(1), of k] Bin.prems(2,6) k by auto
    obtain s2 where s2: "settle tp p a (\<lambda>b. b + d') s1 = Some (root_bal t', s2)" "holds tp p t' s2"
      "within tp (insert a (insert x (set (inorder r)) \<union> set (inorder l))) s s2"
      using settle_right [where f = "\<lambda>b. b + d'", OF h s1(2,3) ins_set [OF i(1)] dis(2) off(2) i(2)] by blast
    then show ?thesis using insert_greater [OF h 2 s1(1) s2(1)] k i(3) by (auto simp: insert_commute Un_commute)
  next
    case 3
    then show ?thesis using insert_same [OF h Bin.prems(3,4) 3 Bin.prems(2), of k rfree] Bin.prems(5) k by auto
  qed
qed

text \<open>No node is allocated or freed.\<close>

definition live :: "Avltree \<Rightarrow> addr \<Rightarrow> bool" where
  "live s = (\<lambda>a. t_heap s a \<noteq> None)"

lemma live_heap [simp]: "t_heap s a = Some n \<Longrightarrow> live (s\<lparr>t_heap := (t_heap s)(a \<mapsto> m)\<rparr>) = live s" "live (s\<lparr>t_root := v\<rparr>) = live s"
  by (auto simp: live_def)

lemma store_live: "update_node a f s = Some s' \<Longrightarrow> live s' = live s"
  by (auto simp: update_node_def simp del: store_Some split: option.splits)

lemma assign_live: "write_slot tp v s = Some s' \<Longrightarrow> live s' = live s"
  by (cases tp) (auto dest: store_live simp del: store_Some)

lemma set_parent_live: "set_parent q v s = Some s' \<Longrightarrow> live s' = live s"
  by (auto simp: set_parent_def split: option.splits dest: store_live simp del: store_Some)

lemmas memory_live = store_live assign_live set_parent_live

lemma singleleft_live: "singleleft tp p s = Some s' \<Longrightarrow> live s' = live s"
  by (auto simp: singleleft_def Let_def dest!: memory_live split: Option.bind_splits simp del: store_Some)

lemma singleright_live: "singleright tp p s = Some s' \<Longrightarrow> live s' = live s"
  by (auto simp: singleright_def Let_def dest!: memory_live split: Option.bind_splits simp del: store_Some)

lemma balance_live: "balance tp p s = Some s' \<Longrightarrow> live s' = live s"
  by (auto simp: balance_def doubleleftright_def doublerightleft_def dest!: singleleft_live singleright_live
    split: Option.bind_splits if_splits)

lemma settle_live: "settle tp p a f s = Some (nb, s') \<Longrightarrow> live s' = live s"
  by (auto simp: settle_def dest!: store_live balance_live split: Option.bind_splits simp del: store_Some)

lemma successor_live: "successor fuel tp p s = Some (d, x, s') \<Longrightarrow> live s' = live s"
proof (induction fuel arbitrary: tp p s d s')
  case (Suc fuel)
  then show ?case
    by (auto simp: Let_def simp del: store_Some dest!: memory_live balance_live split: Option.bind_splits if_splits)
qed simp

text \<open>A subtree takes the place of the node above it.\<close>

lemma unlink_heap:
  assumes "read_slot tp s = Some v" and "in_heap (t_heap s) q t" and "distinct (inorder t)" and "off tp (set (inorder t))"
  shows "\<exists>s1 s'. write_slot tp (root t) s = Some s1 \<and> set_parent (root t) p s1 = Some s' \<and> holds tp p t s' \<and>
    within tp (set (inorder t)) s s'"
proof (cases tp)
  case Root
  then show ?thesis using assms by (cases t) (auto simp: holds_def within_def set_parent_def)
next
  case (Kid g k)
  have e: "\<exists>w. set_kid k v n = set_kid k w n" for v n by blast
  show ?thesis using Kid assms e by (cases t) (auto simp: holds_def within_def set_parent_def)
qed

lemma successor_end:
  assumes "holds tp p (Bin Tip a b r) s"
  shows "\<exists>s'. successor (Suc fuel) tp p s = Some (- 1, a, s') \<and> holds tp p r s' \<and> within tp (set (inorder (Bin Tip a b r))) s s'"
proof -
  have a: "t_heap s a = Some \<lparr>av_p = p, av_n0 = None, av_n1 = root r, av_bal = b\<rparr>" "read_slot tp s = Some (Some a)"
    using assms by (auto simp: holds_def)
  obtain s1 s' where s: "write_slot tp (root r) s = Some s1" "set_parent (root r) p s1 = Some s'" "holds tp p r s'" "within tp (set (inorder r)) s s'"
    using unlink_heap [OF a(2), of "Some a" r p] assms by (auto simp: holds_def)
  have "within tp (set (inorder (Bin Tip a b r))) s s'" by (rule within_mono [OF s(4)]) auto
  then show ?thesis using s a by auto
qed

lemma successor_more:
  assumes "holds tp p (Bin l a b r) s" and "l \<noteq> Tip" and "successor fuel (Kid a 0) (Some a) s = Some (d, x, s1)"
    and "settle tp p a (\<lambda>b. b - d) s1 = Some (nb, s2)"
  shows "successor (Suc fuel) tp p s = Some (- (if b \<noteq> 0 \<and> nb = 0 then 1 else 0), x, s2)"
  using assms by (auto simp: holds_def settle_def Let_def split: Option.bind_splits)

lemma split_min_set: "split_min t = Some (d, x, t') \<Longrightarrow> inorder t = x # inorder t'"
proof (induction t arbitrary: d t')
  case (Bin l a b r)
  show ?case
  proof (cases "l = Tip")
    case False
    then obtain d' l' where "split_min l = Some (d', x, l')" "rebalance (Bin l' a (b - d') r) = Some t'"
      using Bin.prems by (auto split: Option.bind_splits)
    then show ?thesis using Bin.IH(1) rebalance_inorder by fastforce
  qed (use Bin.prems in auto)
qed simp

lemma successor_heap:
  "holds tp p t s \<Longrightarrow> split_min t = Some (d, x, t') \<Longrightarrow> height t \<le> fuel \<Longrightarrow>
    \<exists>s'. successor fuel tp p s = Some (d, x, s') \<and> holds tp p t' s' \<and> within tp (set (inorder t)) s s'"
proof (induction t arbitrary: fuel tp p d t')
  case (Bin l a b r)
  then obtain k where k: "fuel = Suc k" by (cases fuel) auto
  note h = Bin.prems(1)
  show ?case
  proof (cases "l = Tip")
    case True
    then show ?thesis using successor_end [of tp p a b r s k] Bin.prems k by auto
  next
    case False
    then obtain d' l' where i: "split_min l = Some (d', x, l')" "rebalance (Bin l' a (b - d') r) = Some t'"
      "d = - (if b \<noteq> 0 \<and> root_bal t' = 0 then 1 else 0)"
      using Bin.prems(2) by (auto split: Option.bind_splits)
    obtain s1 where s1: "successor k (Kid a 0) (Some a) s = Some (d', x, s1)" "holds (Kid a 0) (Some a) l' s1"
      "within (Kid a 0) (set (inorder l)) s s1"
      using Bin.IH(1) [OF holds_down(1) [OF h] i(1), of k] Bin.prems(3) k by auto
    have sub: "set (inorder l') \<subseteq> set (inorder l)" using split_min_set [OF i(1)] by auto
    have dis: "set (inorder l) \<inter> insert a (set (inorder r)) = {}" and off: "off tp (set (inorder l))" using h by (auto simp: holds_def)
    obtain s2 where s2: "settle tp p a (\<lambda>b. b - d') s1 = Some (root_bal t', s2)" "holds tp p t' s2"
      "within tp (insert a (set (inorder l) \<union> set (inorder r))) s s2"
      using settle_left [where f = "\<lambda>b. b - d'", OF h s1(2,3) sub dis off i(2)] by blast
    then show ?thesis using successor_more [OF h False s1(1) s2(1)] k i(3) by auto
  qed
qed simp

lemma del_set: "del cmp x t = Some (d, old, t') \<Longrightarrow> set (inorder t') \<subseteq> set (inorder t)"
proof (induction t arbitrary: d old t')
  case (Bin l a b r)
  consider "cmp x a < 0" | "cmp x a > 0" | "cmp x a = 0" "l = Tip \<or> r = Tip" | "cmp x a = 0" "l \<noteq> Tip" "r \<noteq> Tip" by linarith
  then show ?case
  proof cases
    case 1
    then obtain d' l' where "del cmp x l = Some (d', old, l')" "rebalance (Bin l' a (b - d') r) = Some t'"
      using Bin.prems by (auto split: Option.bind_splits)
    then show ?thesis using Bin.IH(1) rebalance_inorder by fastforce
  next
    case 2
    then obtain d' r' where "del cmp x r = Some (d', old, r')" "rebalance (Bin l a (b + d') r') = Some t'"
      using Bin.prems by (auto split: Option.bind_splits)
    then show ?thesis using Bin.IH(2) rebalance_inorder by fastforce
  next
    case 3
    then show ?thesis using Bin.prems by (auto split: if_splits)
  next
    case 4
    then obtain d' y r' where "split_min r = Some (d', y, r')" "rebalance (Bin l y (b + d') r') = Some t'"
      using Bin.prems by (auto split: Option.bind_splits)
    then show ?thesis using split_min_set rebalance_inorder by fastforce
  qed
qed auto

text \<open>The successor takes the place of the deleted node.\<close>

definition take_place :: "slot \<Rightarrow> addr option \<Rightarrow> addr \<Rightarrow> addr \<Rightarrow> Avltree \<Rightarrow> Avltree option" where
  "take_place tp p a y s = do {
     n \<leftarrow> t_heap s a;
     s \<leftarrow> update_node y (\<lambda>m. m\<lparr>av_bal := av_bal n, av_n0 := av_n0 n, av_n1 := av_n1 n\<rparr>) s;
     s \<leftarrow> write_slot tp (Some y) s;
     s \<leftarrow> set_parent (Some y) p s;
     s \<leftarrow> set_parent (av_n0 n) (Some y) s;
     set_parent (av_n1 n) (Some y) s }"

lemma take_place_heap:
  assumes "holds tp p (Bin l a b r) s" and "avoids tp y" and "t_heap s y \<noteq> None" and "y \<notin> set (inorder (Bin l a b r))"
  shows "\<exists>s'. take_place tp p a y s = Some s' \<and> holds tp p (Bin l y b r) s' \<and> within tp (insert y (set (inorder (Bin l a b r)))) s s'"
proof (cases tp)
  case Root
  then show ?thesis using assms by (cases l; cases r) (auto simp: holds_def within_def take_place_def set_parent_def)
next
  case (Kid g k)
  then show ?thesis using assms by (cases l; cases r) (auto simp: holds_def within_def take_place_def set_parent_def)
qed

text \<open>The branches of \<^verbatim>\<open>_deleteavl\<close>, for a walk list \<open>W\<close> as \<^verbatim>\<open>walkdel\<close> leaves it.\<close>

lemma delete_less:
  assumes "holds tp p (Bin l a b r) s" and "t_cmp s x a < 0"
    and "delete_node deep fuel (Kid a 0) (Some a) x del0 s = Some (d, old, s1)"
    and "settle tp p a (\<lambda>b. b - d) s1 = Some (nb, s2)"
  shows "delete_node deep (Suc fuel) tp p x del0 s = Some (- (if b \<noteq> 0 \<and> nb = 0 then 1 else 0), old, s2)"
  using assms(2-4) holds_fetch [OF assms(1)] holds_bal [OF assms(1)]
  by (auto simp: canoncmp_def settle_def split: Option.bind_splits)

lemma delete_greater:
  assumes "holds tp p (Bin l a b r) s" and "t_cmp s x a > 0"
    and "delete_node deep fuel (Kid a 1) (Some a) x del0 s = Some (d, old, s1)"
    and "settle tp p a (\<lambda>b. b + d) s1 = Some (nb, s2)"
  shows "delete_node deep (Suc fuel) tp p x del0 s = Some (- (if b \<noteq> 0 \<and> nb = 0 then 1 else 0), old, s2)"
  using assms(2-4) holds_fetch [OF assms(1)] holds_bal [OF assms(1)]
  by (auto simp: canoncmp_def settle_def split: Option.bind_splits)

lemma holds_walks [simp]: "holds tp p t (s\<lparr>t_walks := W\<rparr>) = holds tp p t s"
  by (cases tp) (auto simp: holds_def)

lemma delete_one:
  assumes h: "holds tp p (Bin l a b r) s" and "t_cmp s x a = 0" and "walkdel deep a s = Some (s\<lparr>t_walks := W\<rparr>)"
    and "l = Tip \<and> t = r \<or> l \<noteq> Tip \<and> r = Tip \<and> t = l"
  shows "\<exists>s'. delete_node deep (Suc fuel) tp p x del0 s = Some (- 1, Some a, s') \<and> holds tp p t s' \<and>
    within tp (set (inorder (Bin l a b r))) (s\<lparr>t_walks := W\<rparr>) s'"
proof -
  let ?s = "s\<lparr>t_walks := W\<rparr>"
  have h': "holds tp p (Bin l a b r) ?s" using h by simp
  have a: "t_heap ?s a = Some \<lparr>av_p = p, av_n0 = root l, av_n1 = root r, av_bal = b\<rparr>" "read_slot tp ?s = Some (Some a)"
    using h' by (auto simp: holds_def)
  have t: "in_heap (t_heap ?s) (Some a) t" "distinct (inorder t)" "off tp (set (inorder t))"
    using h' assms(4) by (auto simp: holds_def)
  obtain s1 s' where s: "write_slot tp (root t) ?s = Some s1" "set_parent (root t) p s1 = Some s'" "holds tp p t s'" "within tp (set (inorder t)) ?s s'"
    using unlink_heap [OF a(2) t, of p] by blast
  have "within tp (set (inorder (Bin l a b r))) ?s s'" by (rule within_mono [OF s(4)]) (use assms(4) in auto)
  then show ?thesis
    using assms(2-4) holds_fetch [OF h] holds_bal [OF h] a s by (auto simp: canoncmp_def)
qed

lemma within_step: "within tp A s s1 \<Longrightarrow> within tp B s1 s2 \<Longrightarrow> B \<subseteq> A \<Longrightarrow> off tp A \<Longrightarrow> within tp A s s2"
  using within_trans [of tp A s s1 B s2] by (simp add: sup.absorb1)

lemma in_heap_live: "in_heap h p t \<Longrightarrow> x \<in> set (inorder t) \<Longrightarrow> h x \<noteq> None"
  by (induction t arbitrary: p) auto

lemma delete_two:
  assumes h: "holds tp p (Bin l a b r) s" and "t_cmp s x a = 0" and wd: "walkdel deep a s = Some (s\<lparr>t_walks := W\<rparr>)"
    and ne: "l \<noteq> Tip" "r \<noteq> Tip" and m: "split_min r = Some (d, y, r')" and t: "rebalance (Bin l y (b + d) r') = Some t"
    and fuel: "height r \<le> fuel"
  shows "\<exists>s'. delete_node deep (Suc fuel) tp p x del0 s = Some (- (if b \<noteq> 0 \<and> root_bal t = 0 then 1 else 0), Some a, s') \<and>
    holds tp p t s' \<and> within tp (set (inorder (Bin l a b r))) (s\<lparr>t_walks := W\<rparr>) s'"
proof -
  let ?s = "s\<lparr>t_walks := W\<rparr>" and ?A = "set (inorder (Bin l a b r))"
  have h': "holds tp p (Bin l a b r) ?s" using h by simp
  have a: "t_heap ?s a = Some \<lparr>av_p = p, av_n0 = root l, av_n1 = root r, av_bal = b\<rparr>" "read_slot tp ?s = Some (Some a)"
    using h' by (auto simp: holds_def)
  have off: "off tp ?A" using holds_off [OF h] .
  have in_r: "inorder r = y # inorder r'" using split_min_set [OF m] .
  obtain s1 where s1: "successor fuel (Kid a 1) (Some a) ?s = Some (d, y, s1)" "holds (Kid a 1) (Some a) r' s1"
    "within (Kid a 1) (set (inorder r)) ?s s1"
    using successor_heap [OF holds_down(2) [OF h'] m fuel] by blast
  have h1: "holds tp p (Bin l a b r') s1"
    by (rule holds_up_right [OF h' s1(2,3)]) (use in_r h in \<open>auto simp: holds_def\<close>)
  obtain s2 where s2: "update_node a (\<lambda>n. n\<lparr>av_bal := av_bal n + d\<rparr>) s1 = Some s2" "holds tp p (Bin l a (b + d) r') s2" "within tp {a} s1 s2"
    using set_bal [OF h1, of "\<lambda>b. b + d"] by blast
  have y: "avoids tp y" "y \<notin> set (inorder (Bin l a (b + d) r'))" using in_r h by (auto simp: holds_def)
  have "live s2 = live ?s" using successor_live [OF s1(1)] store_live [OF s2(1)] by simp
  moreover have "live ?s y" using in_heap_live [of "t_heap ?s" "Some a" r y] in_r h' by (simp add: holds_def live_def)
  ultimately have "live s2 y" by simp
  then obtain s3 where s3: "take_place tp p a y s2 = Some s3" "holds tp p (Bin l y (b + d) r') s3"
    "within tp (insert y (set (inorder (Bin l a (b + d) r')))) s2 s3"
    using take_place_heap [OF s2(2) y(1) _ y(2)] unfolding live_def by blast
  obtain s4 where s4: "balance tp p s3 = Some s4" "holds tp p t s4" "within tp (set (inorder (Bin l y (b + d) r'))) s3 s4"
    using rebalance_heap [OF s3(2) t] by blast
  have "within tp ?A ?s s1" by (rule within_kid [OF s1(3) a(2)]) auto
  from within_step [OF this s2(3) _ off] have "within tp ?A ?s s2" by simp
  from within_step [OF this s3(3) _ off] have "within tp ?A ?s s3" using in_r by auto
  from within_step [OF this s4(3) _ off] have w: "within tp ?A ?s s4" using in_r by auto
  have "bal_at tp s4 = Some (root_bal t)" using holds_bal [OF s4(2)] rebalance_inorder [OF t] by simp
  then have "delete_node deep (Suc fuel) tp p x del0 s = Some (- (if b \<noteq> 0 \<and> root_bal t = 0 then 1 else 0), Some a, s4)"
    using assms(2) wd ne holds_fetch [OF h] holds_bal [OF h] a s1(1) s2(1) s3(1) s4(1)
    by (auto simp: canoncmp_def take_place_def simp del: store_Some split: Option.bind_splits)
  then show ?thesis using s4(2) w by blast
qed

lemma delete_heap:
  "holds tp p t s \<Longrightarrow> del (t_cmp s) x t = Some (d, old, t') \<Longrightarrow> height t < fuel \<Longrightarrow>
    (case old of None \<Rightarrow> W = t_walks s | Some a \<Rightarrow> walkdel deep a s = Some (s\<lparr>t_walks := W\<rparr>)) \<Longrightarrow>
    \<exists>s'. delete_node deep fuel tp p x del0 s = Some (d, (if old = None then del0 else old), s') \<and> holds tp p t' s' \<and>
      within tp (set (inorder t)) (s\<lparr>t_walks := W\<rparr>) s'"
proof (induction t arbitrary: fuel tp p d old t')
  case Tip
  then obtain k where "fuel = Suc k" by (cases fuel) auto
  moreover have "s\<lparr>t_walks := W\<rparr> = s" using Tip.prems(2,4) by simp
  ultimately show ?case using Tip holds_fetch [OF Tip.prems(1)] within_refl by auto
next
  case (Bin l a b r)
  then obtain k where k: "fuel = Suc k" by (cases fuel) auto
  let ?s = "s\<lparr>t_walks := W\<rparr>"
  note h = Bin.prems(1)
  then have h': "holds tp p (Bin l a b r) ?s" by simp
  have dis: "set (inorder l) \<inter> insert a (set (inorder r)) = {}" "set (inorder r) \<inter> insert a (set (inorder l)) = {}"
    and off: "off tp (set (inorder l))" "off tp (set (inorder r))" using h by (auto simp: holds_def)
  consider "t_cmp s x a < 0" | "t_cmp s x a > 0" | "t_cmp s x a = 0" "l = Tip \<or> r = Tip" | "t_cmp s x a = 0" "l \<noteq> Tip" "r \<noteq> Tip"
    by linarith
  then show ?case
  proof cases
    case 1
    then obtain d' l' where i: "del (t_cmp s) x l = Some (d', old, l')" "rebalance (Bin l' a (b - d') r) = Some t'"
      "d = - (if b \<noteq> 0 \<and> root_bal t' = 0 then 1 else 0)"
      using Bin.prems(2) by (auto split: Option.bind_splits)
    obtain s1 where s1: "delete_node deep k (Kid a 0) (Some a) x del0 s = Some (d', (if old = None then del0 else old), s1)"
      "holds (Kid a 0) (Some a) l' s1" "within (Kid a 0) (set (inorder l)) ?s s1"
      using Bin.IH(1) [OF holds_down(1) [OF h] i(1), of k] Bin.prems(3,4) k by auto
    obtain s2 where s2: "settle tp p a (\<lambda>b. b - d') s1 = Some (root_bal t', s2)" "holds tp p t' s2"
      "within tp (insert a (set (inorder l) \<union> set (inorder r))) ?s s2"
      using settle_left [where f = "\<lambda>b. b - d'", OF h' s1(2,3) del_set [OF i(1)] dis(1) off(1) i(2)] by blast
    then show ?thesis using delete_less [OF h 1 s1(1) s2(1)] k i(3) by auto
  next
    case 2
    then obtain d' r' where i: "del (t_cmp s) x r = Some (d', old, r')" "rebalance (Bin l a (b + d') r') = Some t'"
      "d = - (if b \<noteq> 0 \<and> root_bal t' = 0 then 1 else 0)"
      using Bin.prems(2) by (auto split: Option.bind_splits)
    obtain s1 where s1: "delete_node deep k (Kid a 1) (Some a) x del0 s = Some (d', (if old = None then del0 else old), s1)"
      "holds (Kid a 1) (Some a) r' s1" "within (Kid a 1) (set (inorder r)) ?s s1"
      using Bin.IH(2) [OF holds_down(2) [OF h] i(1), of k] Bin.prems(3,4) k by auto
    obtain s2 where s2: "settle tp p a (\<lambda>b. b + d') s1 = Some (root_bal t', s2)" "holds tp p t' s2"
      "within tp (insert a (set (inorder r) \<union> set (inorder l))) ?s s2"
      using settle_right [where f = "\<lambda>b. b + d'", OF h' s1(2,3) del_set [OF i(1)] dis(2) off(2) i(2)] by blast
    then show ?thesis using delete_greater [OF h 2 s1(1) s2(1)] k i(3) by (auto simp: Un_commute)
  next
    case 3
    then have o: "d = - 1" "old = Some a" "t' = (if l = Tip then r else l)" using Bin.prems(2) by (auto split: if_splits)
    then show ?thesis using delete_one [OF h 3(1), of deep W t' k del0] 3(2) Bin.prems(4) k by auto
  next
    case 4
    then obtain d' y r' where i: "split_min r = Some (d', y, r')" "rebalance (Bin l y (b + d') r') = Some t'"
      "d = - (if b \<noteq> 0 \<and> root_bal t' = 0 then 1 else 0)" "old = Some a"
      using Bin.prems(2) by (auto split: Option.bind_splits)
    then show ?thesis using delete_two [OF h 4(1) _ 4(2,3) i(1,2), of deep W k del0] Bin.prems(3,4) k by auto
  qed
qed

section \<open>Neighbours, search and walks\<close>

lemma descend_last: "in_heap (t_heap s) p t \<Longrightarrow> root t = Some c \<Longrightarrow> height t \<le> fuel \<Longrightarrow> descend 1 fuel c s = Some (last (inorder t))"
proof (induction t arbitrary: p c fuel)
  case (Bin l a b r)
  then obtain k where "fuel = Suc k" by (cases fuel) auto
  then show ?case using Bin by (cases r) auto
qed simp

lemma descend_first: "in_heap (t_heap s) p t \<Longrightarrow> root t = Some c \<Longrightarrow> height t \<le> fuel \<Longrightarrow> descend 0 fuel c s = Some (hd (inorder t))"
proof (induction t arbitrary: p c fuel)
  case (Bin l a b r)
  then obtain k where "fuel = Suc k" by (cases fuel) auto
  then show ?case using Bin by (cases l) (auto simp: hd_append)
qed simp

lemma ascend_mono: "ascend k m a s = Some q \<Longrightarrow> m \<le> n \<Longrightarrow> ascend k n a s = Some q"
proof (induction m arbitrary: a n)
  case (Suc m)
  then obtain n' where "n = Suc n'" by (cases n) auto
  then show ?case using Suc by (auto split: Option.bind_splits option.splits if_splits)
qed simp

text \<open>
  The neighbours within a subtree; \<open>out\<close> is where the climb from its root leads, in \<open>k\<close> steps.
\<close>

lemma successor_in:
  "in_heap (t_heap s) p t \<Longrightarrow> distinct (inorder t) \<Longrightarrow> root t = Some c \<Longrightarrow> ascend 1 k c s = Some out \<Longrightarrow> height t + k \<le> fuel \<Longrightarrow>
    inorder t = xs @ a # ys \<Longrightarrow> findsuccessor fuel (Some a) s = Some (if ys = [] then out else Some (hd ys))"
proof (induction t arbitrary: p c k out xs ys)
  case (Bin l e b r)
  have e: "t_heap s e = Some \<lparr>av_p = p, av_n0 = root l, av_n1 = root r, av_bal = b\<rparr>" "c = e" using Bin.prems by auto
  have d: "distinct (inorder l)" "distinct (inorder r)" "in_heap (t_heap s) (Some e) l" "in_heap (t_heap s) (Some e) r"
    and n: "height l + Suc k \<le> fuel" "height r + Suc k \<le> fuel" using Bin.prems(1,2,5) by auto
  consider (l) ys' where "inorder l = xs @ a # ys'" "ys = ys' @ e # inorder r" | (e) "a = e" "xs = inorder l" "ys = inorder r"
    | (r) xs' where "inorder r = xs' @ a # ys"
    using Bin.prems(6) by (auto simp: append_eq_append_conv2 append_eq_Cons_conv Cons_eq_append_conv)
  then show ?case
  proof cases
    case l
    then obtain f where f: "root l = Some f" by (cases l) auto
    then have m: "f \<in> set (inorder l)" by (cases l) auto
    have "root r \<noteq> Some f" using m Bin.prems(2) by (cases r) auto
    then have "ascend 1 (Suc 0) f s = Some (Some e)" using Bin.prems(1) e f by (cases l) auto
    from Bin.IH(1) [OF d(3,1) f this _ l(1)] show ?thesis using n l(2) by (auto simp: hd_append)
  next
    case e': e
    show ?thesis
    proof (cases r)
      case Tip
      then show ?thesis using e e' ascend_mono [OF Bin.prems(4), of fuel] Bin.prems(5) by (auto simp: findsuccessor_def)
    next
      case (Bin l' f b' r')
      then show ?thesis
        using e e' descend_first [of s "Some e" r f fuel] Bin.prems(1,5) by (auto simp: findsuccessor_def)
    qed
  next
    case r
    then obtain f where f: "root r = Some f" by (cases r) auto
    then have "ascend 1 (Suc k) f s = Some out" using Bin.prems(1,4) e by (cases r) auto
    from Bin.IH(2) [OF d(4,2) f this n(2) r] show ?thesis .
  qed
qed simp

lemma predecessor_in:
  "in_heap (t_heap s) p t \<Longrightarrow> distinct (inorder t) \<Longrightarrow> root t = Some c \<Longrightarrow> ascend 0 k c s = Some out \<Longrightarrow> height t + k \<le> fuel \<Longrightarrow>
    inorder t = xs @ a # ys \<Longrightarrow> findpredecessor fuel (Some a) s = Some (if xs = [] then out else Some (last xs))"
proof (induction t arbitrary: p c k out xs ys)
  case (Bin l e b r)
  have e: "t_heap s e = Some \<lparr>av_p = p, av_n0 = root l, av_n1 = root r, av_bal = b\<rparr>" "c = e" using Bin.prems by auto
  have d: "distinct (inorder l)" "distinct (inorder r)" "in_heap (t_heap s) (Some e) l" "in_heap (t_heap s) (Some e) r"
    and n: "height l + Suc k \<le> fuel" "height r + Suc k \<le> fuel" using Bin.prems(1,2,5) by auto
  consider (l) ys' where "inorder l = xs @ a # ys'" | (e) "a = e" "xs = inorder l" "ys = inorder r"
    | (r) xs' where "inorder r = xs' @ a # ys" "xs = inorder l @ e # xs'"
    using Bin.prems(6) by (auto simp: append_eq_append_conv2 append_eq_Cons_conv Cons_eq_append_conv)
  then show ?case
  proof cases
    case l
    then obtain f where f: "root l = Some f" by (cases l) auto
    then have "ascend 0 (Suc k) f s = Some out" using Bin.prems(1,4) e by (cases l) auto
    from Bin.IH(1) [OF d(3,1) f this n(1) l] show ?thesis .
  next
    case e': e
    show ?thesis
    proof (cases l)
      case Tip
      then show ?thesis using e e' ascend_mono [OF Bin.prems(4), of fuel] Bin.prems(5) by (auto simp: findpredecessor_def)
    next
      case (Bin l' f b' r')
      then show ?thesis
        using e e' descend_last [of s "Some e" l f fuel] Bin.prems(1,5) by (auto simp: findpredecessor_def)
    qed
  next
    case r
    then obtain f where f: "root r = Some f" by (cases r) auto
    then have m: "f \<in> set (inorder r)" by (cases r) auto
    have "root l \<noteq> Some f" using m Bin.prems(2) by (cases l) auto
    then have "ascend 0 (Suc 0) f s = Some (Some e)" using Bin.prems(1) e f by (cases r) auto
    from Bin.IH(2) [OF d(4,2) f this _ r(1)] show ?thesis using n r(2) by auto
  qed
qed simp

end
