(* ===== verification/Avl_Props.thy ===== *)
theory Avl_Props
  imports Avl_Heap
begin

text \<open>
  What \<^verbatim>\<open>avl.c\<close> promises its clients: insertion, deletion, search and walks on the tree in memory.
\<close>

section \<open>The whole tree\<close>

text \<open>
  \<open>avl_tree t xs\<close>: the memory of \<open>t\<close> holds a search tree of the nodes \<open>xs\<close> in this order, with right parent pointers
  and right balance factors in range.
\<close>

definition avl_tree :: "Avltree \<Rightarrow> addr list \<Rightarrow> bool" where
  "avl_tree t xs \<longleftrightarrow> (\<exists>v. holds Root None v t \<and> avl v \<and> ordered (t_cmp t) (inorder v) \<and> inorder v = xs)"

text \<open>Fuel for trees of as many nodes: twice the logarithm. For less than \<open>2 ^ 64\<close> nodes 128 is enough.\<close>

definition enough :: "nat \<Rightarrow> addr list \<Rightarrow> bool" where
  "enough fuel xs \<longleftrightarrow> (length xs + 1)\<^sup>2 < 2 ^ fuel"

lemma enough_height: "enough fuel (inorder v) \<Longrightarrow> avl v \<Longrightarrow> height v < fuel"
  using avl_height [of v] power_less_imp_less_exp [of "2::nat" "height v" fuel] by (simp add: enough_def order_le_less_trans)

lemma enough_128: "length xs < 2 ^ 64 \<Longrightarrow> enough 129 xs"
proof -
  assume "length xs < 2 ^ 64"
  then have "(length xs + 1)\<^sup>2 \<le> (2 ^ 64)\<^sup>2" by (intro power_mono) auto
  then show ?thesis by (simp add: enough_def)
qed

lemma ordered_insert:
  assumes "compares cmp" and "ordered cmp xs"
  shows "ordered cmp (lower cmp x xs @ x # upper cmp x xs)" and "ordered cmp (lower cmp x xs @ upper cmp x xs)"
proof -
  have "ordered cmp (lower cmp x xs)" "ordered cmp (upper cmp x xs)" using assms(2) by (simp_all add: sorted_wrt_filter)
  moreover have "cmp a x < 0" if "a \<in> set (lower cmp x xs)" for a using that assms(1) by (simp add: compares_def)
  moreover have "cmp a b < 0" if "cmp a x < 0" "cmp x b < 0" for a b
    using that compares_trans(1) [OF assms(1), of a x b] by simp
  ultimately show "ordered cmp (lower cmp x xs @ x # upper cmp x xs)" "ordered cmp (lower cmp x xs @ upper cmp x xs)"
    by (auto simp: sorted_wrt_append)
qed

lemma within_Root:
  "within Root A s s' \<Longrightarrow> t_cmp s' = t_cmp s \<and> t_walks s' = t_walks s \<and> (\<forall>x. x \<notin> A \<longrightarrow> t_heap s' x = t_heap s x)"
  by (auto simp: within_def)

lemma ascend_Root:
  assumes "holds Root None v s" and "root v = Some c"
  shows "ascend k (Suc 0) c s = Some None"
  using assms by (cases v) (auto simp: holds_def)

lemma predecessor_Root:
  assumes "holds Root None v s" and "height v < fuel" and "inorder v = xs @ a # ys"
  shows "findpredecessor fuel (Some a) s = Some (if xs = [] then None else Some (last xs))"
proof -
  obtain c where c: "root v = Some c" using assms(3) by (cases v) auto
  show ?thesis
    using predecessor_in [of s None v c "Suc 0" None fuel xs a ys] ascend_Root [OF assms(1) c] assms c by (simp add: holds_def)
qed

lemma successor_Root:
  assumes "holds Root None v s" and "height v < fuel" and "inorder v = xs @ a # ys"
  shows "findsuccessor fuel (Some a) s = Some (if ys = [] then None else Some (hd ys))"
proof -
  obtain c where c: "root v = Some c" using assms(3) by (cases v) auto
  show ?thesis
    using successor_in [of s None v c "Suc 0" None fuel xs a ys] ascend_Root [OF assms(1) c] assms c by (simp add: holds_def)
qed

lemma equal_to_split:
  assumes "compares cmp" and "ordered cmp xs" and "equal_to cmp x xs = Some a"
  shows "xs = lower cmp x xs @ a # upper cmp x xs"
proof -
  have a: "cmp x a = 0" "a \<in> set xs" using assms(3) by (auto simp: find_Some_iff)
  then obtain us vs where xs: "xs = us @ a # vs" by (meson split_list)
  show ?thesis using parts(3) [OF assms(1) assms(2) [unfolded xs] a(1)] xs by simp
qed

text \<open>The descent of a search that finds nothing ends next to where the key belongs.\<close>

definition ends_at :: "(addr \<Rightarrow> addr \<Rightarrow> int) \<Rightarrow> addr \<Rightarrow> addr list \<Rightarrow> addr \<Rightarrow> int \<Rightarrow> bool" where
  "ends_at cmp x xs q i \<longleftrightarrow>
     i = - 1 \<and> (\<exists>ys. upper cmp x xs = q # ys \<and> xs = lower cmp x xs @ q # ys) \<or>
     i = 1 \<and> (\<exists>ys. lower cmp x xs = ys @ [q] \<and> xs = ys @ q # upper cmp x xs)"

lemma lookup_heap:
  assumes "compares (t_cmp s)"
  shows "in_heap (t_heap s) p v \<Longrightarrow> root v = Some c \<Longrightarrow> height v \<le> fuel \<Longrightarrow> ordered (t_cmp s) (inorder v) \<Longrightarrow>
    (case equal_to (t_cmp s) x (inorder v) of
       Some a \<Rightarrow> lookup_loop fuel c p x s = Some (Inl a)
     | None \<Rightarrow> \<exists>q i. lookup_loop fuel c p x s = Some (Inr (q, i)) \<and> ends_at (t_cmp s) x (inorder v) q i)"
proof (induction v arbitrary: p c fuel)
  case (Bin l a b r)
  then obtain k where k: "fuel = Suc k" by (cases fuel) auto
  have o: "ordered (t_cmp s) (inorder l)" "ordered (t_cmp s) (inorder r)" using Bin.prems(4) by (simp_all add: sorted_wrt_append)
  have a: "t_heap s a = Some \<lparr>av_p = p, av_n0 = root l, av_n1 = root r, av_bal = b\<rparr>" "c = a" using Bin.prems by auto
  note pt = parts [OF assms Bin.prems(4) [unfolded inorder.simps], of x]
  consider "t_cmp s x a < 0" | "t_cmp s x a > 0" | "t_cmp s x a = 0" by linarith
  then show ?case
  proof cases
    case 1
    show ?thesis
    proof (cases l)
      case Tip
      then show ?thesis using 1 a k pt(1) by (auto simp: canoncmp_def ends_at_def)
    next
      case (Bin l' f b' r')
      then have f: "root l = Some f" by simp
      from Bin.IH(1) [of "Some a" f k] Bin.prems f o k have
        "case equal_to (t_cmp s) x (inorder l) of Some e \<Rightarrow> lookup_loop k f (Some a) x s = Some (Inl e)
         | None \<Rightarrow> \<exists>q i. lookup_loop k f (Some a) x s = Some (Inr (q, i)) \<and> ends_at (t_cmp s) x (inorder l) q i" by auto
      moreover have "lookup_loop fuel c p x s = lookup_loop k f (Some a) x s" using 1 a k f by (simp add: canoncmp_def)
      ultimately show ?thesis
        using pt(1) [OF 1] by (auto simp: ends_at_def split: option.splits)
    qed
  next
    case 2
    show ?thesis
    proof (cases r)
      case Tip
      then show ?thesis using 2 a k pt(2) by (auto simp: canoncmp_def ends_at_def)
    next
      case (Bin l' f b' r')
      then have f: "root r = Some f" by simp
      from Bin.IH(2) [of "Some a" f k] Bin.prems f o k have
        "case equal_to (t_cmp s) x (inorder r) of Some e \<Rightarrow> lookup_loop k f (Some a) x s = Some (Inl e)
         | None \<Rightarrow> \<exists>q i. lookup_loop k f (Some a) x s = Some (Inr (q, i)) \<and> ends_at (t_cmp s) x (inorder r) q i" by auto
      moreover have "lookup_loop fuel c p x s = lookup_loop k f (Some a) x s" using 2 a k f by (simp add: canoncmp_def)
      ultimately show ?thesis
        using pt(2) [OF 2] by (auto simp: ends_at_def split: option.splits)
    qed
  next
    case 3
    then show ?thesis using a k pt(3) by (simp add: canoncmp_def)
  qed
qed simp

section \<open>A sample tree\<close>

text \<open>Nodes 10 and 20 with the keys of their addresses, 20 being the right child of 10; node 30, not in the tree, has the key of 20.\<close>

definition sample_cmp :: "addr \<Rightarrow> addr \<Rightarrow> int" where
  "sample_cmp a b = (let key = (\<lambda>a. if a = 30 then 20 else int a) in key a - key b)"

definition sample_tree :: Avltree where
  "sample_tree = \<lparr>t_root = Some 10, t_cmp = sample_cmp, t_walks = [(7, \<lparr>w_started = True, w_moved = False, w_node = Some 20\<rparr>)],
     t_heap = [10 \<mapsto> \<lparr>av_p = None, av_n0 = None, av_n1 = Some 20, av_bal = 1\<rparr>,
       20 \<mapsto> \<lparr>av_p = Some 10, av_n0 = None, av_n1 = None, av_bal = 0\<rparr>,
       30 \<mapsto> \<lparr>av_p = None, av_n0 = None, av_n1 = None, av_bal = 0\<rparr>]\<rparr>"

lemma sample_compares: "compares (t_cmp sample_tree)"
  by (simp add: compares_def sample_tree_def sample_cmp_def Let_def)

lemma sample_avl: "avl_tree sample_tree [10, 20]"
  unfolding avl_tree_def
  by (rule exI [of _ "Bin Tip 10 1 (Bin Tip 20 0 Tip)"]) (simp add: holds_def sample_tree_def sample_cmp_def Let_def)

lemma sample_enough: "enough 4 [10, 20]"
  by (simp add: enough_def power2_eq_square)

lemma sample_parts:
  "equal_to (t_cmp sample_tree) 30 [10, 20] = Some 20" "lower (t_cmp sample_tree) 30 [10, 20] = [10]"
  "upper (t_cmp sample_tree) 30 [10, 20] = []" "t_heap sample_tree 30 \<noteq> None"
  by (simp_all add: sample_tree_def sample_cmp_def Let_def)

section \<open>Properties\<close>

text \<open>
  C17. \<^verbatim>\<open>insertavl\<close> keeps the tree: with enough fuel it returns, the nodes in memory again make up a balanced search tree
  with right parent pointers and balance factors, whose sequence is the old one with the new node at its place, in place
  of the node of equal key, if any, which is returned. No other memory and no walk changes.
\<close>

theorem insertavl_keeps:
  assumes "compares (t_cmp t)" and "avl_tree t xs" and "enough fuel xs" and "x \<notin> set xs" and "t_heap t x \<noteq> None"
  shows "\<exists>t'. insertavl fuel x t = Some (equal_to (t_cmp t) x xs, t') \<and>
    avl_tree t' (lower (t_cmp t) x xs @ x # upper (t_cmp t) x xs) \<and>
    t_cmp t' = t_cmp t \<and> t_walks t' = t_walks t \<and> (\<forall>y. y \<notin> insert x (set xs) \<longrightarrow> t_heap t' y = t_heap t y)"
proof -
  obtain v where v: "holds Root None v t" "avl v" "ordered (t_cmp t) (inorder v)" "inorder v = xs" using assms(2) by (auto simp: avl_tree_def)
  obtain d old v' where i: "ins (t_cmp t) x v = Some (d, old, v')" "grown v d v'"
    "inorder v' = lower (t_cmp t) x xs @ x # upper (t_cmp t) x xs" "old = equal_to (t_cmp t) x xs"
    using ins_ok [OF assms(1) v(2,3), of x] v(4) by auto
  obtain t' where t': "insert_node fuel Root None x None t = Some (d, old, t')" "holds Root None v' t'" "within Root (insert x (set xs)) t t'"
    using insert_heap [OF v(1) _ _ assms(5) i(1), of fuel None] enough_height [of fuel v] v(2,4) assms(3,4) by (auto split: if_splits)
  then show ?thesis
    using within_Root [OF t'(3)] i ordered_insert(1) [OF assms(1), of xs x] v(3,4)
    by (auto simp: insertavl_def avl_tree_def grown_def)
qed

theorem insertavl_keeps_witness:
  "compares (t_cmp sample_tree) \<and> avl_tree sample_tree [10, 20] \<and>
   (\<exists>t'. insertavl 4 30 sample_tree = Some (Some 20, t') \<and> avl_tree t' [10, 30])"
  using insertavl_keeps [OF sample_compares sample_avl sample_enough, of 30, unfolded sample_parts(1-3)] sample_compares sample_avl
    sample_parts(4) by auto

text \<open>
  C18. \<^verbatim>\<open>deleteavl\<close> keeps the tree: the node of equal key, if any, is taken out of the sequence and returned, and every walk
  that stood on it is moved to its predecessor, or put back to the start when there is none.
\<close>

theorem deleteavl_keeps:
  assumes "compares (t_cmp t)" and "avl_tree t xs" and "enough fuel xs"
  shows "\<exists>t'. deleteavl fuel x t = Some (equal_to (t_cmp t) x xs, t') \<and>
    avl_tree t' (lower (t_cmp t) x xs @ upper (t_cmp t) x xs) \<and> t_cmp t' = t_cmp t \<and>
    t_walks t' = (case equal_to (t_cmp t) x xs of None \<Rightarrow> t_walks t
      | Some a \<Rightarrow> moved_back a (if lower (t_cmp t) x xs = [] then None else Some (last (lower (t_cmp t) x xs))) (t_walks t)) \<and>
    (\<forall>y. y \<notin> set xs \<longrightarrow> t_heap t' y = t_heap t y)"
proof -
  let ?q = "if lower (t_cmp t) x xs = [] then None else Some (last (lower (t_cmp t) x xs))"
  define W where "W = (case equal_to (t_cmp t) x xs of None \<Rightarrow> t_walks t | Some a \<Rightarrow> moved_back a ?q (t_walks t))"
  obtain v where v: "holds Root None v t" "avl v" "ordered (t_cmp t) (inorder v)" "inorder v = xs" using assms(2) by (auto simp: avl_tree_def)
  have h: "height v < fuel" using enough_height v(2,4) assms(3) by simp
  obtain d old v' where i: "del (t_cmp t) x v = Some (d, old, v')" "shrunk v d v'"
    "inorder v' = lower (t_cmp t) x xs @ upper (t_cmp t) x xs" "old = equal_to (t_cmp t) x xs"
    using del_ok [OF assms(1) v(2,3), of x] v(4) by auto
  have "walkdel fuel a t = Some (t\<lparr>t_walks := W\<rparr>)" if "old = Some a" for a
  proof -
    have "xs = lower (t_cmp t) x xs @ a # upper (t_cmp t) x xs" using equal_to_split [OF assms(1)] v(3,4) i(4) that by metis
    then have "findpredecessor fuel (Some a) t = Some ?q" using predecessor_Root [OF v(1) h] v(4) by metis
    then show ?thesis using that i(4) by (simp add: walkdel_def W_def)
  qed
  moreover have "W = t_walks t" if "old = None" using that i(4) by (simp add: W_def)
  ultimately have w: "case old of None \<Rightarrow> W = t_walks t | Some a \<Rightarrow> walkdel fuel a t = Some (t\<lparr>t_walks := W\<rparr>)"
    by (cases old) simp_all
  obtain t' where t': "delete_node fuel fuel Root None x None t = Some (d, old, t')" "holds Root None v' t'"
    "within Root (set xs) (t\<lparr>t_walks := W\<rparr>) t'"
    using delete_heap [OF v(1) i(1) h w, of None] v(4) by (auto split: if_splits)
  then show ?thesis
    using within_Root [OF t'(3)] i ordered_insert(2) [OF assms(1), of xs x] v(3,4)
    by (auto simp: deleteavl_def avl_tree_def shrunk_def W_def)
qed

theorem deleteavl_keeps_witness:
  "\<exists>t'. deleteavl 4 30 sample_tree = Some (Some 20, t') \<and> avl_tree t' [10] \<and>
     map_of (t_walks t') 7 = Some \<lparr>w_started = True, w_moved = True, w_node = Some 10\<rparr>"
  using deleteavl_keeps [OF sample_compares sample_avl sample_enough, of 30] sample_parts
  by (auto simp: moved_back_def sample_tree_def)

text \<open>
  \<^verbatim>\<open>searchavl\<close> finds the node of equal key; when there is none, it returns nothing, the greatest node below the
  key or the smallest above it, as \<^verbatim>\<open>neighbor\<close> is zero, negative or positive. \<^verbatim>\<open>lookupavl\<close> is the search without
  neighbour.
\<close>

theorem searchavl_finds:
  assumes "compares (t_cmp t)" and "avl_tree t xs" and "enough fuel xs"
  shows "searchavl fuel x neighbor t = Some (case equal_to (t_cmp t) x xs of Some a \<Rightarrow> Some a | None \<Rightarrow>
      if neighbor = 0 then None
      else if neighbor < 0 then (if lower (t_cmp t) x xs = [] then None else Some (last (lower (t_cmp t) x xs)))
      else (if upper (t_cmp t) x xs = [] then None else Some (hd (upper (t_cmp t) x xs)))) \<and>
    lookupavl fuel x t = Some (equal_to (t_cmp t) x xs)"
proof -
  obtain v where v: "holds Root None v t" "avl v" "ordered (t_cmp t) (inorder v)" "inorder v = xs" using assms(2) by (auto simp: avl_tree_def)
  have h: "height v < fuel" using enough_height v(2,4) assms(3) by simp
  show ?thesis
  proof (cases v)
    case Tip
    then show ?thesis using v by (auto simp: searchavl_def lookupavl_def search_from_def holds_def)
  next
    case (Bin l c b r)
    then have c: "root v = Some c" "t_root t = Some c" using v(1) by (auto simp: holds_def)
    have l: "case equal_to (t_cmp t) x xs of Some a \<Rightarrow> lookup_loop fuel c None x t = Some (Inl a)
       | None \<Rightarrow> \<exists>q i. lookup_loop fuel c None x t = Some (Inr (q, i)) \<and> ends_at (t_cmp t) x xs q i"
      using lookup_heap [OF assms(1), of None v c fuel x] v c h by (auto simp: holds_def)
    show ?thesis
    proof (cases "equal_to (t_cmp t) x xs")
      case (Some a)
      then show ?thesis using l c by (simp add: searchavl_def lookupavl_def search_from_def)
    next
      case None
      then obtain q i where q: "lookup_loop fuel c None x t = Some (Inr (q, i))" "ends_at (t_cmp t) x xs q i" using l by auto
      from q(2) show ?thesis
        unfolding ends_at_def
      proof (elim disjE conjE exE)
        fix ys
        assume e: "i = - 1" "upper (t_cmp t) x xs = q # ys" "xs = lower (t_cmp t) x xs @ q # ys"
        have "findpredecessor fuel (Some q) t = Some (if lower (t_cmp t) x xs = [] then None else Some (last (lower (t_cmp t) x xs)))"
          using predecessor_Root [OF v(1) h] e(3) v(4) by metis
        then show ?thesis using None q(1) c e(1,2) by (simp add: searchavl_def lookupavl_def search_from_def)
      next
        fix ys
        assume e: "i = 1" "lower (t_cmp t) x xs = ys @ [q]" "xs = ys @ q # upper (t_cmp t) x xs"
        have "findsuccessor fuel (Some q) t = Some (if upper (t_cmp t) x xs = [] then None else Some (hd (upper (t_cmp t) x xs)))"
          using successor_Root [OF v(1) h] e(3) v(4) by metis
        then show ?thesis using None q(1) c e(1,2) by (simp add: searchavl_def lookupavl_def search_from_def)
      qed
    qed
  qed
qed

theorem searchavl_finds_witness:
  "searchavl 4 30 0 sample_tree = Some (Some 20) \<and> searchavl 4 15 (- 1) sample_tree = Some (Some 10) \<and>
   searchavl 4 25 1 sample_tree = Some None"
  using searchavl_finds [OF sample_compares sample_avl sample_enough, of 30 0]
    searchavl_finds [OF sample_compares sample_avl sample_enough, of 15 "- 1"]
    searchavl_finds [OF sample_compares sample_avl sample_enough, of 25 1]
  by (simp add: sample_tree_def sample_cmp_def Let_def)

text \<open>A client's calls of \<^verbatim>\<open>avlnext\<close>, one after the other.\<close>

fun visit :: "nat \<Rightarrow> nat \<Rightarrow> addr \<Rightarrow> Avltree \<Rightarrow> (addr option list \<times> Avltree) option" where
  "visit 0 fuel i t = Some ([], t)"
| "visit (Suc n) fuel i t = do {
     (a, t) \<leftarrow> avlnext fuel i t;
     (seen, t) \<leftarrow> visit n fuel i t;
     Some (a # seen, t) }"

lemma visit_step:
  "avlnext fuel i t = Some (a, t1) \<Longrightarrow> visit n fuel i t1 = Some (seen, t2) \<Longrightarrow> visit (Suc n) fuel i t = Some (a # seen, t2)"
  by simp

lemma map_of_set_walk: "map_of (t_walks t) i = Some w \<Longrightarrow> map_of (t_walks (set_walk i w' t)) i = Some w'"
proof -
  have "map_of ws i = Some w \<Longrightarrow> map_of (map (\<lambda>(j, v). (j, if j = i then w' else v)) ws) i = Some w'" for ws
    by (induction ws) auto
  then show "map_of (t_walks t) i = Some w \<Longrightarrow> ?thesis" by (simp add: set_walk_def)
qed

lemma set_walk_same [simp]:
  "t_root (set_walk i w t) = t_root t" "t_heap (set_walk i w t) = t_heap t" "holds Root p v (set_walk i w t) = holds Root p v t"
  by (simp_all add: set_walk_def holds_def)

lemma avlnext_first:
  assumes "holds Root None v t" and "height v < fuel" and "map_of (t_walks t) i = Some w" and "\<not> w_started w"
  shows "avlnext fuel i t = Some (if inorder v = [] then None else Some (hd (inorder v)),
    set_walk i (w\<lparr>w_node := (if inorder v = [] then None else Some (hd (inorder v))), w_started := True\<rparr>) t)"
proof (cases v)
  case Tip
  then show ?thesis using assms by (auto simp: avlnext_def start_walk_def holds_def)
next
  case (Bin l c b r)
  then have "t_root t = Some c" "inorder v \<noteq> []" using assms(1) by (auto simp: holds_def)
  moreover have "descend 0 fuel c t = Some (hd (inorder v))"
    using descend_first [of t None v c fuel] assms(1,2) Bin by (simp add: holds_def)
  ultimately show ?thesis using assms(3,4) by (simp add: avlnext_def start_walk_def)
qed

lemma avlnext_next:
  assumes "holds Root None v t" and "height v < fuel" and "map_of (t_walks t) i = Some w" and "w_started w" and "w_node w = Some a"
    and "inorder v = xs @ a # ys"
  shows "avlnext fuel i t = Some (if ys = [] then None else Some (hd ys), set_walk i (w\<lparr>w_node := (if ys = [] then None else Some (hd ys))\<rparr>) t)"
proof -
  have "distinct (inorder v)" using assms(1) by (simp add: holds_def)
  then have "(if ys = [] then None else Some (hd ys)) \<noteq> Some a" using assms(6) by (cases ys) auto
  then show ?thesis
    using successor_Root [OF assms(1,2,6)] assms(3,4,5) by (simp add: avlnext_def step_walk_def)
qed

lemma visit_rest:
  "holds Root None v t \<Longrightarrow> height v < fuel \<Longrightarrow> map_of (t_walks t) i = Some w \<Longrightarrow> w_started w \<Longrightarrow> w_node w = Some a \<Longrightarrow>
    inorder v = xs @ a # ys \<Longrightarrow>
    \<exists>t'. visit (length ys + 1) fuel i t = Some (map Some ys @ [None], t') \<and>
      (\<exists>w'. map_of (t_walks t') i = Some w' \<and> w_started w' \<and> w_node w' = None)"
proof (induction ys arbitrary: t w a xs)
  case Nil
  let ?w = "w\<lparr>w_node := None\<rparr>"
  have "avlnext fuel i t = Some (None, set_walk i ?w t)" using avlnext_next [OF Nil] by simp
  then show ?case using map_of_set_walk [OF Nil(3), of ?w] Nil(4) by auto
next
  case (Cons y ys)
  let ?w = "w\<lparr>w_node := Some y\<rparr>" and ?t = "set_walk i (w\<lparr>w_node := Some y\<rparr>) t"
  have n: "avlnext fuel i t = Some (Some y, ?t)" using avlnext_next [OF Cons.prems] by simp
  have "inorder v = (xs @ [a]) @ y # ys" using Cons.prems(6) by simp
  then obtain t' w' where t': "visit (length ys + 1) fuel i ?t = Some (map Some ys @ [None], t')" "map_of (t_walks t') i = Some w'"
    "w_started w'" "w_node w' = None"
    using Cons.IH [of ?t ?w y "xs @ [a]"] map_of_set_walk [OF Cons.prems(3), of ?w] Cons.prems(1,2,4) by (auto simp del: visit.simps)
  from visit_step [OF n t'(1)] t'(2-) show ?case by (auto simp del: visit.simps)
qed

text \<open>
  C19. A walk ends: after \<^verbatim>\<open>avlwalk\<close>, as many calls of \<^verbatim>\<open>avlnext\<close> as the tree has nodes return the nodes in order,
  the next call returns nil, and the call after that finds the walk past the end and aborts the program.
\<close>

theorem walk_ends:
  assumes "avl_tree t xs" and "enough fuel xs"
  shows "\<exists>t'. visit (length xs + 1) fuel i (snd (avlwalk True i t)) = Some (map Some xs @ [None], t') \<and> avlnext fuel i t' = None"
proof -
  let ?w = "\<lparr>w_started = False, w_moved = False, w_node = None\<rparr>"
  obtain v where v: "holds Root None v t" "avl v" "inorder v = xs" using assms(1) by (auto simp: avl_tree_def)
  have h: "height v < fuel" using enough_height v(2,3) assms(2) by simp
  define s where "s = snd (avlwalk True i t)"
  have s: "holds Root None v s" "map_of (t_walks s) i = Some ?w" using v(1) by (simp_all add: s_def avlwalk_def)
  have past: "avlnext fuel i t' = None" if "map_of (t_walks t') i = Some w" "w_started w" "w_node w = None" for t' w
    using that by (simp add: avlnext_def findsuccessor_def step_walk_def)
  show ?thesis
  proof (cases xs)
    case Nil
    let ?t = "set_walk i (?w\<lparr>w_node := None, w_started := True\<rparr>) s"
    have "avlnext fuel i s = Some (None, ?t)" using avlnext_first [OF s(1) h s(2)] v(3) Nil by simp
    moreover have "avlnext fuel i ?t = None" by (rule past [OF map_of_set_walk [OF s(2)]]) simp_all
    ultimately show ?thesis by (auto simp: Nil s_def)
  next
    case (Cons y ys)
    let ?w' = "?w\<lparr>w_node := Some y, w_started := True\<rparr>"
    have n: "avlnext fuel i s = Some (Some y, set_walk i ?w' s)" using avlnext_first [OF s(1) h s(2)] v(3) Cons by simp
    obtain t' w' where t': "visit (length ys + 1) fuel i (set_walk i ?w' s) = Some (map Some ys @ [None], t')"
      "map_of (t_walks t') i = Some w'" "w_started w'" "w_node w' = None"
      using visit_rest [of v "set_walk i ?w' s" fuel i ?w' y "[]" ys] s h map_of_set_walk [OF s(2), of ?w'] v(3) Cons
      by (auto simp del: visit.simps)
    from visit_step [OF n t'(1)] past [OF t'(2-)] show ?thesis by (auto simp: Cons s_def simp del: visit.simps)
  qed
qed

theorem walk_ends_witness:
  "\<exists>t'. visit 3 4 9 (snd (avlwalk True 9 sample_tree)) = Some ([Some 10, Some 20, None], t') \<and> avlnext 4 9 t' = None"
  using walk_ends [OF sample_avl sample_enough, of 9] by (simp add: numeral_3_eq_3 del: visit.simps)

text \<open>
  When \<^verbatim>\<open>insertavl\<close> replaces a node it hands the old node back for freeing but leaves the walks that stand on it as they
  are: such a walk then points to a node that is no longer in the tree.
\<close>

theorem insertavl_stale_walk:
  assumes "compares (t_cmp t)" and "avl_tree t xs" and "enough fuel xs" and "x \<notin> set xs" and "t_heap t x \<noteq> None"
    and "equal_to (t_cmp t) x xs = Some a" and "map_of (t_walks t) i = Some w" and "w_node w = Some a"
  shows "\<exists>t' ys. insertavl fuel x t = Some (Some a, t') \<and> avl_tree t' ys \<and> a \<notin> set ys \<and> map_of (t_walks t') i = Some w"
proof -
  obtain v where v: "holds Root None v t" "avl v" "ordered (t_cmp t) (inorder v)" "inorder v = xs" using assms(2) by (auto simp: avl_tree_def)
  obtain d old v' where i: "ins (t_cmp t) x v = Some (d, old, v')" "grown v d v'"
    "inorder v' = lower (t_cmp t) x xs @ x # upper (t_cmp t) x xs" "old = Some a"
    using ins_ok [OF assms(1) v(2,3), of x] v(4) assms(6) by auto
  obtain t' where t': "insert_node fuel Root None x None t = Some (d, old, t')" "holds Root None v' t'" "within Root (insert x (set xs)) t t'"
    using insert_heap [OF v(1) _ _ assms(5) i(1), of fuel None] enough_height [of fuel v] v(2,4) assms(3,4) by (auto split: if_splits)
  have a: "t_cmp t x a = 0" "a \<in> set xs" using assms(6) by (auto simp: find_Some_iff)
  then have "a \<notin> set (inorder v')" using i(3) assms(4) by auto
  then show ?thesis
    using t' within_Root [OF t'(3)] i ordered_insert(1) [OF assms(1), of xs x] v(3,4) assms(7)
    by (auto simp: insertavl_def avl_tree_def grown_def intro!: exI [of _ "inorder v'"])
qed

theorem insertavl_stale_walk_witness:
  "\<exists>t' ys. insertavl 4 30 sample_tree = Some (Some 20, t') \<and> avl_tree t' ys \<and> 20 \<notin> set ys \<and>
     map_of (t_walks t') 7 = Some \<lparr>w_started = True, w_moved = False, w_node = Some 20\<rparr>"
  using insertavl_stale_walk [OF sample_compares sample_avl sample_enough, of 30 20 7 "\<lparr>w_started = True, w_moved = False, w_node = Some 20\<rparr>"]
    sample_parts by (simp add: sample_tree_def)

end
