(* ===== verification/Locks.thy ===== *)
theory Locks
  imports Prelude "HOL-Library.Monad_Syntax"
begin

text \<open>
  The kernel's queueing locks, \<^verbatim>\<open>sys/src/kern/port/qlock.c\<close>, and the interruption of a process that waits for one, from
  \<^verbatim>\<open>proc_interrupt_finalize\<close> in \<^verbatim>\<open>proc.c\<close>. Each operation works on the lock and on the fields of the processes that it
  links into the line of waiting processes, while it holds the spin lock \<^verbatim>\<open>use\<close>: it is one step. What a
  process does after \<^verbatim>\<open>sched()\<close> is a step of its own, as is \<^verbatim>\<open>ready\<close> where it is called after the spin lock is
  released.

  The statistics, the warnings printed and the recorded program counters are left out.
\<close>

section \<open>Processes and locks\<close>

datatype pstate = Running | Ready | Queueing | QueueingR | QueueingW | Otherwise

record Proc =
  p_state :: pstate
  p_qnext :: "nat option"
  p_eql :: "nat option"
  p_notepending :: bool

type_synonym procs = "nat \<Rightarrow> Proc"

record QLock =
  ql_head :: "nat option"
  ql_tail :: "nat option"
  ql_locked :: bool

record RWlock =
  rw_head :: "nat option"
  rw_tail :: "nat option"
  rw_wproc :: "nat option"
  rw_readers :: int
  rw_writer :: int

datatype outcome = Acquired | Queued | Interrupted | Panicked

section \<open>The line of waiting processes\<close>

text \<open>The code that every lock repeats: linking \<^verbatim>\<open>up\<close> at the tail, and unlinking the head.\<close>

definition enqueue :: "nat \<Rightarrow> nat option \<times> nat option \<times> procs \<Rightarrow> nat option \<times> nat option \<times> procs" where
  "enqueue up = (\<lambda>(head, tail, ps).
     let (head, ps) = (case tail of None \<Rightarrow> (Some up, ps) | Some p \<Rightarrow> (head, ps(p := (ps p)\<lparr>p_qnext := Some up\<rparr>)))
     in (head, Some up, ps(up := (ps up)\<lparr>p_qnext := None\<rparr>)))"

definition dequeue :: "nat \<Rightarrow> nat option \<times> procs \<Rightarrow> nat option \<times> nat option" where
  "dequeue p = (\<lambda>(tail, ps). let head = p_qnext (ps p) in (head, if head = None then None else tail))"

definition set_state :: "pstate \<Rightarrow> nat \<Rightarrow> procs \<Rightarrow> procs" where
  "set_state st p ps = ps(p := (ps p)\<lparr>p_state := st\<rparr>)"

abbreviation ready :: "nat \<Rightarrow> procs \<Rightarrow> procs" where
  "ready \<equiv> set_state Ready"

section \<open>Exclusive locks\<close>

text \<open>\<open>q\<close> is the address of the lock, \<open>None\<close> as \<^verbatim>\<open>up\<close> no process.\<close>

definition join_line :: "nat \<Rightarrow> nat option \<Rightarrow> QLock \<times> procs \<Rightarrow> QLock \<times> procs" where
  "join_line p eql = (\<lambda>(l, ps).
     let (head, tail, ps) = enqueue p (ql_head l, ql_tail l, ps)
     in (l\<lparr>ql_head := head, ql_tail := tail\<rparr>, set_state Queueing p (ps(p := (ps p)\<lparr>p_eql := eql\<rparr>))))"

definition eqlock :: "nat \<Rightarrow> nat option \<Rightarrow> QLock \<times> procs \<Rightarrow> outcome \<times> QLock \<times> procs" where
  "eqlock q up = (\<lambda>(l, ps).
     if \<not> ql_locked l then (Acquired, l\<lparr>ql_locked := True\<rparr>, ps)
     else case up of
       None \<Rightarrow> (Panicked, l, ps)
     | Some p \<Rightarrow>
         if p_notepending (ps p) then (Interrupted, l, ps(p := (ps p)\<lparr>p_notepending := False\<rparr>))
         else (Queued, join_line p (Some q) (l, ps)))"

text \<open>The rest of \<^verbatim>\<open>eqlock\<close>, after \<^verbatim>\<open>sched()\<close>.\<close>

definition eqlock_resume :: "nat \<Rightarrow> procs \<Rightarrow> outcome \<times> procs" where
  "eqlock_resume p ps =
     (if p_eql (ps p) = None then (Interrupted, ps(p := (ps p)\<lparr>p_notepending := False\<rparr>))
      else (Acquired, ps(p := (ps p)\<lparr>p_eql := None\<rparr>)))"

definition qlock :: "nat option \<Rightarrow> QLock \<times> procs \<Rightarrow> outcome \<times> QLock \<times> procs" where
  "qlock up = (\<lambda>(l, ps).
     if \<not> ql_locked l then (Acquired, l\<lparr>ql_locked := True\<rparr>, ps)
     else case up of
       None \<Rightarrow> (Panicked, l, ps)
     | Some p \<Rightarrow> (Queued, join_line p None (l, ps)))"

text \<open>\<open>free\<close>: whether \<^verbatim>\<open>canlock\<close> gets the spin lock.\<close>

definition canqlock :: "bool \<Rightarrow> QLock \<Rightarrow> bool \<times> QLock" where
  "canqlock free l = (if \<not> free \<or> ql_locked l then (False, l) else (True, l\<lparr>ql_locked := True\<rparr>))"

text \<open>The process that \<^verbatim>\<open>qunlock\<close> makes ready after it has released the spin lock.\<close>

definition qunlock :: "QLock \<times> procs \<Rightarrow> nat option \<times> QLock" where
  "qunlock = (\<lambda>(l, ps). case ql_head l of
     Some p \<Rightarrow> let (head, tail) = dequeue p (ql_tail l, ps) in (Some p, l\<lparr>ql_head := head, ql_tail := tail\<rparr>)
   | None \<Rightarrow> (None, l\<lparr>ql_locked := False\<rparr>))"

text \<open>
  The loop of \<^verbatim>\<open>proc_interrupt_finalize\<close> that takes \<open>p\<close> out of the line; \<open>None\<close> if it does not end.
\<close>

partial_function (option) pull_out :: "nat \<Rightarrow> nat option \<Rightarrow> nat option \<Rightarrow> QLock \<times> procs \<Rightarrow> (bool \<times> QLock \<times> procs) option" where
  "pull_out p l d s = (case d of
     None \<Rightarrow> Some (False, s)
   | Some d' \<Rightarrow>
       (if d' = p then
          let (q, ps) = s;
              nxt = p_qnext (ps p);
              (q, ps) = (case l of Some l' \<Rightarrow> (q, ps(l' := (ps l')\<lparr>p_qnext := nxt\<rparr>)) | None \<Rightarrow> (q\<lparr>ql_head := nxt\<rparr>, ps));
              q = (if nxt = None then q\<lparr>ql_tail := l\<rparr> else q);
              ps = ps(p := (ps p)\<lparr>p_qnext := None, p_eql := None\<rparr>)
          in Some (True, q, ready p ps)
        else pull_out p d (p_qnext (snd s d')) s))"

declare pull_out.simps [code]

text \<open>
  What \<^verbatim>\<open>proc_interrupt_finalize\<close> does once it has the spin lock of \<open>q\<close>, the lock that \<^verbatim>\<open>p->eql\<close> named when it was read
  without it: \<open>p\<close> may have been given the lock, or have gone elsewhere, since then.
\<close>

definition interrupt_queueing :: "nat \<Rightarrow> nat \<Rightarrow> QLock \<times> procs \<Rightarrow> (bool \<times> QLock \<times> procs) option" where
  "interrupt_queueing q p = (\<lambda>(l, ps).
     if p_state (ps p) = Queueing \<and> p_eql (ps p) = Some q then pull_out p None (ql_head l) (l, ps)
     else Some (False, l, ps))"

section \<open>Locks for readers and writers\<close>

definition join_rw :: "nat \<Rightarrow> pstate \<Rightarrow> RWlock \<times> procs \<Rightarrow> RWlock \<times> procs" where
  "join_rw p st = (\<lambda>(l, ps).
     let (head, tail, ps) = enqueue p (rw_head l, rw_tail l, ps)
     in (l\<lparr>rw_head := head, rw_tail := tail\<rparr>, set_state st p ps))"

definition rlock :: "nat option \<Rightarrow> RWlock \<times> procs \<Rightarrow> outcome \<times> RWlock \<times> procs" where
  "rlock up = (\<lambda>(l, ps).
     if rw_writer l = 0 \<and> rw_head l = None then (Acquired, l\<lparr>rw_readers := rw_readers l + 1\<rparr>, ps)
     else case up of
       None \<Rightarrow> (Panicked, l, ps)
     | Some p \<Rightarrow> (Queued, join_rw p QueueingR (l, ps)))"

text \<open>The result is the process made ready; \<open>None\<close> outside is a panic.\<close>

definition runlock :: "RWlock \<times> procs \<Rightarrow> (nat option \<times> RWlock) option" where
  "runlock = (\<lambda>(l, ps).
     let l = l\<lparr>rw_readers := rw_readers l - 1\<rparr> in
     if rw_readers l > 0 then Some (None, l)
     else case rw_head l of
       None \<Rightarrow> Some (None, l)
     | Some p \<Rightarrow>
         if p_state (ps p) \<noteq> QueueingW then None
         else let (head, tail) = dequeue p (rw_tail l, ps)
           in Some (Some p, l\<lparr>rw_head := head, rw_tail := tail, rw_writer := 1\<rparr>))"

definition wlock :: "nat option \<Rightarrow> RWlock \<times> procs \<Rightarrow> outcome \<times> RWlock \<times> procs" where
  "wlock up = (\<lambda>(l, ps).
     if rw_readers l = 0 \<and> rw_writer l = 0 then (Acquired, l\<lparr>rw_wproc := up, rw_writer := 1\<rparr>, ps)
     else case up of
       None \<Rightarrow> (Panicked, l, ps)
     | Some p \<Rightarrow> (Queued, join_rw p QueueingW (l, ps)))"

text \<open>The loop of \<^verbatim>\<open>wunlock\<close> that wakes the readers at the head of the line, and the processes it woke.\<close>

partial_function (option) wake_readers :: "RWlock \<times> procs \<Rightarrow> (nat list \<times> RWlock \<times> procs) option" where
  "wake_readers s = (case rw_head (fst s) of
     None \<Rightarrow> Some ([], s)
   | Some p \<Rightarrow>
       (if p_state (snd s p) = QueueingR then
          do {
            (woken, s) \<leftarrow> wake_readers ((fst s)\<lparr>rw_head := p_qnext (snd s p), rw_readers := rw_readers (fst s) + 1\<rparr>, ready p (snd s));
            Some (p # woken, s) }
        else Some ([], s)))"

declare wake_readers.simps [code]

datatype wakeup = Nobody | Writer nat | Readers "nat list"

text \<open>A writer is made ready after the spin lock is released, readers before.\<close>

definition wunlock :: "RWlock \<times> procs \<Rightarrow> (wakeup \<times> RWlock \<times> procs) option" where
  "wunlock = (\<lambda>(l, ps). case rw_head l of
     None \<Rightarrow> Some (Nobody, l\<lparr>rw_writer := 0\<rparr>, ps)
   | Some p \<Rightarrow>
       (if p_state (ps p) = QueueingW then
          let (head, tail) = dequeue p (rw_tail l, ps) in Some (Writer p, l\<lparr>rw_head := head, rw_tail := tail\<rparr>, ps)
        else if p_state (ps p) \<noteq> QueueingR then None
        else do {
          (woken, l, ps) \<leftarrow> wake_readers (l, ps);
          Some (Readers woken, (if rw_head l = None then l\<lparr>rw_tail := None\<rparr> else l)\<lparr>rw_writer := 0\<rparr>, ps) }))"

definition canrlock :: "RWlock \<Rightarrow> bool \<times> RWlock" where
  "canrlock l = (if rw_writer l = 0 \<and> rw_head l = None then (True, l\<lparr>rw_readers := rw_readers l + 1\<rparr>) else (False, l))"

end
