(* ===== verification/Lock_Lines.thy ===== *)
theory Lock_Lines
  imports Locks
begin

text \<open>
  Shared by the two kinds of locks: the lines of processes that the code keeps in \<^verbatim>\<open>head\<close>, \<^verbatim>\<open>tail\<close> and
  \<^verbatim>\<open>qnext\<close>, as lists.
\<close>

section \<open>Lines\<close>

fun links :: "procs \<Rightarrow> nat list \<Rightarrow> bool" where
  "links ps [] \<longleftrightarrow> True"
| "links ps [p] \<longleftrightarrow> p_qnext (ps p) = None"
| "links ps (p # q # r) \<longleftrightarrow> p_qnext (ps p) = Some q \<and> links ps (q # r)"

definition first :: "nat list \<Rightarrow> nat option" where
  "first xs = (case xs of [] \<Rightarrow> None | x # _ \<Rightarrow> Some x)"

definition final :: "nat list \<Rightarrow> nat option" where
  "final xs = (if xs = [] then None else Some (last xs))"

definition line :: "nat option \<Rightarrow> nat option \<Rightarrow> procs \<Rightarrow> nat list \<Rightarrow> bool" where
  "line head tail ps W \<longleftrightarrow> head = first W \<and> tail = final W \<and> links ps W \<and> distinct W"

lemma first_simps [simp]: "first [] = None" "first (x # xs) = Some x" "first xs = None \<longleftrightarrow> xs = []" "None = first xs \<longleftrightarrow> xs = []" "final [] = None" "final (xs @ [x]) = Some x"
  "final xs = None \<longleftrightarrow> xs = []" "final (x # y # ys) = final (y # ys)" "final [x] = Some x"
  by (auto simp: first_def final_def split: list.splits)

lemma links_cong: "(\<And>x. x \<in> set W \<Longrightarrow> p_qnext (ps' x) = p_qnext (ps x)) \<Longrightarrow> links ps' W = links ps W"
  by (induction ps W rule: links.induct) auto

lemma line_cong: "(\<And>x. x \<in> set W \<Longrightarrow> p_qnext (ps' x) = p_qnext (ps x)) \<Longrightarrow> line h t ps' W = line h t ps W"
proof -
  assume "\<And>x. x \<in> set W \<Longrightarrow> p_qnext (ps' x) = p_qnext (ps x)"
  then have "links ps' W = links ps W" by (rule links_cong)
  then show ?thesis by (simp add: line_def)
qed

lemma links_next: "links ps (p # W) \<longleftrightarrow> p_qnext (ps p) = first W \<and> links ps W"
  by (cases W) auto

lemma links_snoc: "links ps W \<Longrightarrow> distinct (W @ [p]) \<Longrightarrow> W \<noteq> [] \<Longrightarrow> p_qnext (ps' p) = None \<Longrightarrow> p_qnext (ps' (last W)) = Some p \<Longrightarrow>
    (\<And>x. x \<in> set W \<Longrightarrow> x \<noteq> last W \<Longrightarrow> p_qnext (ps' x) = p_qnext (ps x)) \<Longrightarrow> links ps' (W @ [p])"
proof (induction ps W rule: links.induct)
  case (3 ps a b r)
  have "a \<noteq> last (b # r)" using 3(3) by (metis distinct.simps(2) append_Cons in_set_conv_decomp last_in_set list.distinct(1) Un_iff set_append)
  then show ?case using 3 by auto
qed auto

lemma line_enqueue:
  assumes "line head tail ps W" and "p \<notin> set W"
  obtains h t ps' where "enqueue p (head, tail, ps) = (h, t, ps')" and "line h t ps' (W @ [p])"
    and "\<And>x. \<exists>n. ps' x = (ps x)\<lparr>p_qnext := n\<rparr>" and "\<And>x. x \<notin> set (W @ [p]) \<Longrightarrow> ps' x = ps x"
proof (cases "W = []")
  case True
  then have "enqueue p (head, tail, ps) = (Some p, Some p, ps(p := (ps p)\<lparr>p_qnext := None\<rparr>))"
    using assms by (simp add: enqueue_def line_def)
  moreover have "\<exists>n. (ps(p := (ps p)\<lparr>p_qnext := None\<rparr>)) x = (ps x)\<lparr>p_qnext := n\<rparr>" for x
    by (cases "x = p") (auto intro: exI [of _ "p_qnext (ps x)"])
  ultimately show ?thesis using True that by (auto simp: line_def)
next
  case False
  let ?ps = "(ps(last W := (ps (last W))\<lparr>p_qnext := Some p\<rparr>))(p := (ps p)\<lparr>p_qnext := None\<rparr>)"
  have l: "last W \<noteq> p" "tail = Some (last W)" using assms False last_in_set [OF False] by (auto simp: line_def final_def)
  then have "enqueue p (head, tail, ps) = (head, Some p, ?ps)" by (simp add: enqueue_def)
  moreover have "links ?ps (W @ [p])" by (rule links_snoc [of ps W]) (use assms False l in \<open>auto simp: line_def\<close>)
  moreover have "\<exists>n. ?ps x = (ps x)\<lparr>p_qnext := n\<rparr>" for x
    by (cases "x = p"; cases "x = last W") (auto intro: exI [of _ "p_qnext (ps x)"])
  moreover have "head = first (W @ [p])" "distinct (W @ [p])" using assms False by (cases W; simp add: line_def)+
  moreover have "?ps x = ps x" if "x \<notin> set (W @ [p])" for x using that last_in_set [OF False] by auto
  ultimately show ?thesis by (intro that [of head "Some p" ?ps]) (simp_all add: line_def)
qed

lemma line_dequeue: "line head tail ps (p # W) \<Longrightarrow> \<exists>t. dequeue p (tail, ps) = (first W, t) \<and> line (first W) t ps W"
  by (cases W) (auto simp: dequeue_def line_def Let_def)

text \<open>The search of an interrupted process in the line.\<close>

lemma pull_out_absent: "links ps R \<Longrightarrow> p \<notin> set R \<Longrightarrow> pull_out p prev (first R) (l, ps) = Some (False, l, ps)"
proof (induction R arbitrary: prev)
  case Nil
  then show ?case by (subst pull_out.simps) simp
next
  case (Cons d R)
  then show ?case by (subst pull_out.simps) (simp add: links_next)
qed

lemma links_append: "links ps (A @ B) \<Longrightarrow> links ps B"
  by (induction A) (auto simp: links_next)

lemma pull_out_walk:
  "links ps (A @ p # B) \<Longrightarrow> p \<notin> set A \<Longrightarrow> pull_out p prev (first (A @ p # B)) s = pull_out p (if A = [] then prev else final A) (Some p) s"
  if "s = (l, ps)"
proof (induction A arbitrary: prev)
  case (Cons d A)
  have n: "p_qnext (ps d) = first (A @ p # B)" using Cons.prems(1) by (simp add: links_next)
  have "pull_out p prev (first ((d # A) @ p # B)) s = pull_out p (Some d) (p_qnext (ps d)) s"
    using Cons.prems(2) that by (subst pull_out.simps) simp
  also have "\<dots> = pull_out p (if A = [] then Some d else final A) (Some p) s"
    using Cons.IH [of "Some d"] Cons.prems n by (simp add: links_next)
  finally show ?case by (cases A) auto
qed simp

lemma links_remove:
  "links ps (A @ p # B) \<Longrightarrow> distinct (A @ p # B) \<Longrightarrow> A \<noteq> [] \<Longrightarrow> p_qnext (ps' (last A)) = p_qnext (ps p) \<Longrightarrow>
    (\<And>x. x \<in> set (A @ B) \<Longrightarrow> x \<noteq> last A \<Longrightarrow> p_qnext (ps' x) = p_qnext (ps x)) \<Longrightarrow> links ps' (A @ B)"
proof (induction A)
  case (Cons a A)
  show ?case
  proof (cases A)
    case Nil
    have "links ps' B = links ps B" by (rule links_cong) (use Cons.prems Nil in auto)
    then show ?thesis using Cons.prems Nil by (auto simp: links_next)
  next
    case (Cons b A')
    then have "a \<noteq> last A" using Cons.prems(2) by auto
    then show ?thesis using Cons.IH Cons.prems Cons by (auto simp: links_next)
  qed
qed simp

lemma pull_out_present:
  assumes "line (ql_head l) (ql_tail l) ps (A @ p # B)"
  obtains l' ps' where "pull_out p None (ql_head l) (l, ps) = Some (True, l', ps')" and "line (ql_head l') (ql_tail l') ps' (A @ B)"
    and "ql_locked l' = ql_locked l" and "ps' p = (ps p)\<lparr>p_qnext := None, p_eql := None, p_state := Ready\<rparr>"
    and "\<And>x. x \<noteq> p \<Longrightarrow> \<exists>n. ps' x = (ps x)\<lparr>p_qnext := n\<rparr>" and "\<And>x. x \<notin> set (A @ p # B) \<Longrightarrow> ps' x = ps x"
proof -
  have w: "ql_head l = first (A @ p # B)" "ql_tail l = final (A @ p # B)" "links ps (A @ p # B)" "distinct (A @ p # B)"
    using assms by (simp_all add: line_def)
  have nx: "p_qnext (ps p) = first B" using links_append [OF w(3)] by (simp add: links_next)
  have start: "pull_out p None (ql_head l) (l, ps) = pull_out p (if A = [] then None else final A) (Some p) (l, ps)"
    using pull_out_walk [OF refl w(3), of None] w(1,4) by simp
  have same: "\<exists>n. ps x = (ps x)\<lparr>p_qnext := n\<rparr>" for x by (rule exI [of _ "p_qnext (ps x)"]) simp
  show ?thesis
  proof (cases "A = []")
    case True
    let ?ps = "ready p (ps(p := (ps p)\<lparr>p_qnext := None, p_eql := None\<rparr>))"
    let ?l = "if B = [] then l\<lparr>ql_head := None, ql_tail := None\<rparr> else l\<lparr>ql_head := first B\<rparr>"
    have "pull_out p None (ql_head l) (l, ps) = Some (True, ?l, ?ps)"
      unfolding start using True nx by (subst pull_out.simps) (auto simp: Let_def)
    moreover have "links ?ps B = links ps B" by (rule links_cong) (use w(4) True in \<open>auto simp: set_state_def\<close>)
    then have "line (ql_head ?l) (ql_tail ?l) ?ps (A @ B)"
      using w True by (cases B) (simp_all add: line_def links_next)
    ultimately show ?thesis using that [of ?l ?ps] True same by (auto simp: set_state_def)
  next
    case False
    define a where "a = last A"
    have a: "final A = Some a" "a \<in> set A" "a \<noteq> p" using False w(4) by (auto simp: a_def final_def)
    let ?ps = "ready p ((ps(a := (ps a)\<lparr>p_qnext := first B\<rparr>))(p := (ps p)\<lparr>p_qnext := None, p_eql := None\<rparr>))"
    let ?l = "if B = [] then l\<lparr>ql_tail := Some a\<rparr> else l"
    have "pull_out p None (ql_head l) (l, ps) = Some (True, ?l, ?ps)"
      unfolding start using False nx a by (subst pull_out.simps) (auto simp: Let_def)
    moreover have "links ?ps (A @ B)"
      by (rule links_remove [OF w(3,4) False]) (use w(4) nx a in \<open>auto simp: set_state_def a_def\<close>)
    moreover have "first (A @ B) = ql_head l" using False w(1) by (cases A) auto
    moreover have "final (A @ B) = ql_tail ?l" using False w(2) by (cases B) (auto simp: final_def a_def)
    moreover have "\<exists>n. ?ps x = (ps x)\<lparr>p_qnext := n\<rparr>" if "x \<noteq> p" for x using that same by (cases "x = a") (auto simp: set_state_def)
    moreover have "?ps x = ps x" if "x \<notin> set (A @ p # B)" for x using that a(2) by (auto simp: set_state_def)
    ultimately show ?thesis using w(4) by (intro that [of ?l ?ps]) (simp_all add: line_def set_state_def)
  qed
qed

end
