(* ===== verification/Qlock_Use.thy ===== *)
theory Qlock_Use
  imports Lock_Lines
begin

text \<open>
  An exclusive lock in use by any number of processes: the steps of the system, its invariant, and that every step keeps it.
\<close>

section \<open>A lock in use\<close>

text \<open>
  Any number of processes use the lock at address \<open>q\<close>. Beside the lock and the processes the state has, for the
  statements only, where each process is, which processes own the lock and to which of them \<^verbatim>\<open>qunlock\<close> has handed
  it without having made them ready yet. A process that owns the lock does not lock it again, and only an owner unlocks
  it. Notes may arrive at any time, and what a process outside of these routines does to its own fields is arbitrary, except
  that it waits for other locks there.
\<close>

datatype place = Outside | In_qlock | In_eqlock

record qsys =
  s_lock :: QLock
  s_procs :: procs
  s_at :: "nat \<Rightarrow> place"
  s_owners :: "nat list"
  s_handed :: "nat set"

definition called :: "nat \<Rightarrow> place \<Rightarrow> outcome \<times> QLock \<times> procs \<Rightarrow> qsys \<Rightarrow> qsys" where
  "called p pl = (\<lambda>(r, l, ps) s. s\<lparr>s_lock := l, s_procs := ps,
     s_at := (if r = Queued then (s_at s)(p := pl) else s_at s),
     s_owners := (if r = Acquired then p # s_owners s else s_owners s)\<rparr>)"

inductive qstep :: "nat \<Rightarrow> qsys \<Rightarrow> qsys \<Rightarrow> bool" for q s where
  step_qlock: "s_at s p = Outside \<Longrightarrow> p \<notin> set (s_owners s) \<Longrightarrow> qstep q s (called p In_qlock (qlock (Some p) (s_lock s, s_procs s)) s)"
| step_eqlock: "s_at s p = Outside \<Longrightarrow> p \<notin> set (s_owners s) \<Longrightarrow> qstep q s (called p In_eqlock (eqlock q (Some p) (s_lock s, s_procs s)) s)"
| step_canqlock: "s_at s p = Outside \<Longrightarrow> p \<notin> set (s_owners s) \<Longrightarrow> canqlock free (s_lock s) = (b, l) \<Longrightarrow>
    qstep q s (s\<lparr>s_lock := l, s_owners := (if b then p # s_owners s else s_owners s)\<rparr>)"
| step_qunlock: "s_at s p = Outside \<Longrightarrow> p \<in> set (s_owners s) \<Longrightarrow> qunlock (s_lock s, s_procs s) = (w, l) \<Longrightarrow>
    qstep q s (s\<lparr>s_lock := l, s_owners := (case w of None \<Rightarrow> [] | Some x \<Rightarrow> [x]) @ remove1 p (s_owners s),
      s_handed := s_handed s \<union> set_option w\<rparr>)"
| step_ready: "x \<in> s_handed s \<Longrightarrow> qstep q s (s\<lparr>s_procs := ready x (s_procs s), s_handed := s_handed s - {x}\<rparr>)"
| step_qlock_returns: "s_at s p = In_qlock \<Longrightarrow> p_state (s_procs s p) = Ready \<Longrightarrow>
    qstep q s (s\<lparr>s_procs := set_state Running p (s_procs s), s_at := (s_at s)(p := Outside)\<rparr>)"
| step_eqlock_returns: "s_at s p = In_eqlock \<Longrightarrow> p_state (s_procs s p) = Ready \<Longrightarrow> eqlock_resume p (s_procs s) = (r, ps) \<Longrightarrow>
    qstep q s (s\<lparr>s_procs := set_state Running p ps, s_at := (s_at s)(p := Outside)\<rparr>)"
| step_note: "qstep q s (s\<lparr>s_procs := (s_procs s)(p := (s_procs s p)\<lparr>p_notepending := True\<rparr>)\<rparr>)"
| step_interrupt: "interrupt_queueing q p (s_lock s, s_procs s) = Some (d, l, ps) \<Longrightarrow> qstep q s (s\<lparr>s_lock := l, s_procs := ps\<rparr>)"
| step_elsewhere: "s_at s p = Outside \<Longrightarrow> p_eql n \<noteq> Some q \<Longrightarrow> qstep q s (s\<lparr>s_procs := (s_procs s)(p := n)\<rparr>)"

text \<open>A lock as it is allocated, and what can be reached from it.\<close>

definition fresh :: "nat \<Rightarrow> qsys \<Rightarrow> bool" where
  "fresh q s \<longleftrightarrow> s_lock s = \<lparr>ql_head = None, ql_tail = None, ql_locked = False\<rparr> \<and> (\<forall>p. s_at s p = Outside \<and> p_eql (s_procs s p) \<noteq> Some q) \<and>
     s_owners s = [] \<and> s_handed s = {}"

abbreviation qreach :: "nat \<Rightarrow> qsys \<Rightarrow> bool" where
  "qreach q \<equiv> reach (fresh q) (qstep q)"

section \<open>The invariant\<close>

text \<open>A process in the line, one that has been given the lock, and one that has been interrupted.\<close>

definition in_line :: "nat \<Rightarrow> qsys \<Rightarrow> nat \<Rightarrow> bool" where
  "in_line q s p \<longleftrightarrow> p_state (s_procs s p) = Queueing \<and> p \<notin> set (s_owners s) \<and> p \<notin> s_handed s \<and>
     (s_at s p = In_qlock \<and> p_eql (s_procs s p) = None \<or> s_at s p = In_eqlock \<and> p_eql (s_procs s p) = Some q)"

definition granted :: "nat \<Rightarrow> qsys \<Rightarrow> nat \<Rightarrow> bool" where
  "granted q s p \<longleftrightarrow> p \<in> set (s_owners s) \<and> p_state (s_procs s p) = (if p \<in> s_handed s then Queueing else Ready) \<and>
     (s_at s p = In_qlock \<and> p_eql (s_procs s p) = None \<or> s_at s p = In_eqlock \<and> p_eql (s_procs s p) = Some q)"

definition pulled_out :: "qsys \<Rightarrow> nat \<Rightarrow> bool" where
  "pulled_out s p \<longleftrightarrow> s_at s p = In_eqlock \<and> p \<notin> set (s_owners s) \<and> p \<notin> s_handed s \<and> p_state (s_procs s p) = Ready \<and> p_eql (s_procs s p) = None"

definition placed :: "nat \<Rightarrow> qsys \<Rightarrow> nat list \<Rightarrow> nat \<Rightarrow> bool" where
  "placed q s W p \<longleftrightarrow> (if p \<in> set W then in_line q s p
     else if s_at s p = Outside then p_eql (s_procs s p) \<noteq> Some q \<and> p \<notin> s_handed s
     else granted q s p \<or> pulled_out s p)"

definition qok :: "nat \<Rightarrow> qsys \<Rightarrow> nat list \<Rightarrow> bool" where
  "qok q s W \<longleftrightarrow> line (ql_head (s_lock s)) (ql_tail (s_lock s)) (s_procs s) W \<and>
     length (s_owners s) \<le> 1 \<and> (ql_locked (s_lock s) \<longleftrightarrow> s_owners s \<noteq> []) \<and> (W \<noteq> [] \<longrightarrow> s_owners s \<noteq> []) \<and>
     (\<forall>p. placed q s W p)"

text \<open>
  How a step may change the line: not at all, or a process that calls \<^verbatim>\<open>qlock\<close> or \<^verbatim>\<open>eqlock\<close> joins it at its end, or the
  process at its front is given the lock, or one of its processes is taken out by an interruption. The others keep
  their order.
\<close>

definition line_moves :: "qsys \<Rightarrow> qsys \<Rightarrow> nat list \<Rightarrow> nat list \<Rightarrow> bool" where
  "line_moves s s' W W' \<longleftrightarrow> W' = W \<or> (\<exists>p. s_at s p = Outside \<and> s_at s' p \<noteq> Outside \<and> W' = W @ [p]) \<or>
     (\<exists>p. W = p # W' \<and> p \<in> set (s_owners s')) \<or> (\<exists>A p B. W = A @ p # B \<and> W' = A @ B \<and> pulled_out s' p)"

lemma line_moves_refl [simp]: "line_moves s s' W W"
  by (simp add: line_moves_def)

lemma qok_line: "qok q s W \<Longrightarrow> line (ql_head (s_lock s)) (ql_tail (s_lock s)) (s_procs s) W"
  by (simp add: qok_def)

lemma qok_placed: "qok q s W \<Longrightarrow> placed q s W p"
  by (simp add: qok_def)

lemma qok_fresh: "fresh q s \<Longrightarrow> qok q s []"
  by (auto simp: qok_def fresh_def line_def placed_def)

lemmas places = placed_def in_line_def granted_def pulled_out_def

text \<open>A process is where it was when nothing that concerns it has changed.\<close>

lemma placed_same:
  assumes "placed q s W p" and "p_state (s_procs s' p) = p_state (s_procs s p)" and "p_eql (s_procs s' p) = p_eql (s_procs s p)"
    and "s_at s' p = s_at s p" and "p \<in> set (s_owners s') \<longleftrightarrow> p \<in> set (s_owners s)" and "p \<in> s_handed s' \<longleftrightarrow> p \<in> s_handed s"
    and "p \<in> set W' \<longleftrightarrow> p \<in> set W"
  shows "placed q s' W' p"
  using assms(1) unfolding places assms(2-) .

lemma line_same:
  "line h t ps W \<Longrightarrow> (\<And>x. p_qnext (ps' x) = p_qnext (ps x)) \<Longrightarrow> line h t ps' W"
  using line_cong [of W ps' ps h t] by simp

text \<open>Joining the line.\<close>

lemma join_line_ok:
  assumes ok: "qok q s W" and "s_at s p = Outside" and "p \<notin> set (s_owners s)" and "ql_locked (s_lock s)"
    and "pl = In_qlock \<and> e = None \<or> pl = In_eqlock \<and> e = Some q"
    and "join_line p e (s_lock s, s_procs s) = (l, ps)"
  shows "qok q (s\<lparr>s_lock := l, s_procs := ps, s_at := (s_at s)(p := pl)\<rparr>) (W @ [p])"
proof -
  have p: "p \<notin> set W" "p \<notin> s_handed s" using qok_placed [OF ok, of p] assms(2) by (auto simp: places split: if_splits)
  obtain h t ps0 where e: "enqueue p (ql_head (s_lock s), ql_tail (s_lock s), s_procs s) = (h, t, ps0)" "line h t ps0 (W @ [p])"
    "\<And>x. \<exists>n. ps0 x = (s_procs s x)\<lparr>p_qnext := n\<rparr>"
    by (rule line_enqueue [OF qok_line [OF ok] p(1)]) blast
  have l: "l = (s_lock s)\<lparr>ql_head := h, ql_tail := t\<rparr>" "ps = set_state Queueing p (ps0(p := (ps0 p)\<lparr>p_eql := e\<rparr>))"
    using assms(6) e(1) by (auto simp: join_line_def)
  have same: "p_state (ps0 x) = p_state (s_procs s x)" "p_eql (ps0 x) = p_eql (s_procs s x)" for x using e(3) [of x] by auto
  have "line h t ps (W @ [p])" by (rule line_same [OF e(2)]) (simp add: l set_state_def)
  moreover have "placed q (s\<lparr>s_lock := l, s_procs := ps, s_at := (s_at s)(p := pl)\<rparr>) (W @ [p]) x" for x
  proof (cases "x = p")
    case True
    then show ?thesis using p assms(3,5) by (auto simp: places l(2) set_state_def)
  next
    case False
    then show ?thesis by (intro placed_same [OF qok_placed [OF ok, of x]]) (simp_all add: l(2) set_state_def same)
  qed
  ultimately show ?thesis using ok assms(4) by (auto simp: qok_def l(1))
qed

lemma acquire_ok:
  assumes ok: "qok q s W" and "s_at s p = Outside" and "\<not> ql_locked (s_lock s)"
  shows "qok q (s\<lparr>s_lock := (s_lock s)\<lparr>ql_locked := True\<rparr>, s_owners := p # s_owners s\<rparr>) W"
proof -
  have "placed q (s\<lparr>s_lock := (s_lock s)\<lparr>ql_locked := True\<rparr>, s_owners := p # s_owners s\<rparr>) W x" for x
    using qok_placed [OF ok, of x] assms(2) by (cases "x = p") (auto simp: places)
  then show ?thesis using ok assms(3) by (auto simp: qok_def)
qed

lemma note_ok:
  assumes ok: "qok q s W"
  shows "qok q (s\<lparr>s_procs := (s_procs s)(p := (s_procs s p)\<lparr>p_notepending := b\<rparr>)\<rparr>) W"
proof -
  let ?s = "s\<lparr>s_procs := (s_procs s)(p := (s_procs s p)\<lparr>p_notepending := b\<rparr>)\<rparr>"
  have "placed q ?s W x" for x by (rule placed_same [OF qok_placed [OF ok]]) simp_all
  moreover have "line (ql_head (s_lock s)) (ql_tail (s_lock s)) (s_procs ?s) W" by (rule line_same [OF qok_line [OF ok]]) simp
  ultimately show ?thesis using ok by (simp add: qok_def)
qed

lemma unlock_ok:
  assumes ok: "qok q s W" and "s_at s p = Outside" and p: "p \<in> set (s_owners s)" and u: "qunlock (s_lock s, s_procs s) = (w, l)"
  shows "qok q (s\<lparr>s_lock := l, s_owners := (case w of None \<Rightarrow> [] | Some x \<Rightarrow> [x]) @ remove1 p (s_owners s),
      s_handed := s_handed s \<union> set_option w\<rparr>) (tl W) \<and> w = first W"
proof -
  have o: "s_owners s = [p]" using ok p by (cases "s_owners s") (auto simp: qok_def)
  show ?thesis
  proof (cases W)
    case Nil
    then have "w = None" "l = (s_lock s)\<lparr>ql_locked := False\<rparr>" using u qok_line [OF ok] by (auto simp: qunlock_def line_def)
    moreover have "placed q (s\<lparr>s_lock := l, s_owners := []\<rparr>) [] x" for x
      using qok_placed [OF ok, of x] Nil o assms(2) by (auto simp: places split: if_splits)
    ultimately show ?thesis using Nil o ok by (auto simp: qok_def)
  next
    case (Cons x W')
    then obtain t where t: "dequeue x (ql_tail (s_lock s), s_procs s) = (first W', t)" "line (first W') t (s_procs s) W'"
      using line_dequeue qok_line [OF ok] by blast
    have u': "w = Some x" "l = (s_lock s)\<lparr>ql_head := first W', ql_tail := t\<rparr>"
      using u t(1) qok_line [OF ok] Cons by (auto simp: qunlock_def line_def)
    have x: "x \<noteq> p" "x \<notin> set W'" using qok_placed [OF ok, of x] qok_line [OF ok] Cons p by (auto simp: places line_def)
    have "placed q (s\<lparr>s_lock := l, s_owners := [x], s_handed := s_handed s \<union> {x}\<rparr>) W' y" for y
    proof (cases "y = x")
      case True
      then show ?thesis using qok_placed [OF ok, of x] Cons x by (auto simp: places)
    next
      case False
      then show ?thesis using qok_placed [OF ok, of y] Cons o assms(2) by (auto simp: places split: if_splits)
    qed
    then show ?thesis using u' t(2) o Cons ok by (auto simp: qok_def)
  qed
qed

lemma ready_ok:
  assumes ok: "qok q s W" and x: "x \<in> s_handed s"
  shows "qok q (s\<lparr>s_procs := ready x (s_procs s), s_handed := s_handed s - {x}\<rparr>) W"
proof -
  let ?s = "s\<lparr>s_procs := ready x (s_procs s), s_handed := s_handed s - {x}\<rparr>"
  have "placed q ?s W y" for y
  proof (cases "y = x")
    case True
    then show ?thesis using qok_placed [OF ok, of x] x by (auto simp: places set_state_def split: if_splits)
  next
    case False
    then show ?thesis by (intro placed_same [OF qok_placed [OF ok, of y]]) (simp_all add: set_state_def)
  qed
  moreover have "line (ql_head (s_lock s)) (ql_tail (s_lock s)) (s_procs ?s) W"
    by (rule line_same [OF qok_line [OF ok]]) (simp add: set_state_def)
  ultimately show ?thesis using ok by (simp add: qok_def)
qed

text \<open>Leaving \<^verbatim>\<open>qlock\<close> and \<^verbatim>\<open>eqlock\<close>: the process runs again, outside, and no longer refers to the lock.\<close>

lemma return_ok:
  assumes ok: "qok q s W" and "s_at s p \<noteq> Outside" and "p_state (s_procs s p) = Ready"
    and "p_qnext n = p_qnext (s_procs s p)" and "p_eql n \<noteq> Some q"
  shows "qok q (s\<lparr>s_procs := (s_procs s)(p := n), s_at := (s_at s)(p := Outside)\<rparr>) W"
proof -
  let ?s = "s\<lparr>s_procs := (s_procs s)(p := n), s_at := (s_at s)(p := Outside)\<rparr>"
  have "placed q ?s W y" for y
  proof (cases "y = p")
    case True
    then show ?thesis using qok_placed [OF ok, of p] assms(2-) by (auto simp: places split: if_splits)
  next
    case False
    then show ?thesis by (intro placed_same [OF qok_placed [OF ok, of y]]) simp_all
  qed
  moreover have "line (ql_head (s_lock s)) (ql_tail (s_lock s)) (s_procs ?s) W"
    by (rule line_same [OF qok_line [OF ok]]) (simp add: assms(4))
  ultimately show ?thesis using ok by (simp add: qok_def)
qed

lemma elsewhere_ok:
  assumes ok: "qok q s W" and "s_at s p = Outside" and "p_eql n \<noteq> Some q"
  shows "qok q (s\<lparr>s_procs := (s_procs s)(p := n)\<rparr>) W"
proof -
  let ?s = "s\<lparr>s_procs := (s_procs s)(p := n)\<rparr>"
  have p: "p \<notin> set W" using qok_placed [OF ok, of p] assms(2) by (auto simp: places)
  have "placed q ?s W y" for y
  proof (cases "y = p")
    case True
    then show ?thesis using qok_placed [OF ok, of p] p assms(2,3) by (auto simp: places)
  next
    case False
    then show ?thesis by (intro placed_same [OF qok_placed [OF ok, of y]]) simp_all
  qed
  moreover have "line (ql_head (s_lock s)) (ql_tail (s_lock s)) (s_procs ?s) W"
    using qok_line [OF ok] line_cong [of W "s_procs ?s" "s_procs s"] p by fastforce
  ultimately show ?thesis using ok by (simp add: qok_def)
qed

text \<open>An interruption finds its process in the line, or leaves everything as it is.\<close>

lemma finalize_cases:
  assumes ok: "qok q s W"
  obtains (left_out) "p_state (s_procs s p) = Queueing" "p_eql (s_procs s p) = Some q" "p \<in> set W"
    | (unchanged) "interrupt_queueing q p (s_lock s, s_procs s) = Some (False, s_lock s, s_procs s)"
proof (cases "p_state (s_procs s p) = Queueing \<and> p_eql (s_procs s p) = Some q \<and> p \<in> set W")
  case True
  then show ?thesis using left_out by blast
next
  case False
  have "links (s_procs s) W" "ql_head (s_lock s) = first W" using qok_line [OF ok] by (simp_all add: line_def)
  then show ?thesis
    using False unchanged pull_out_absent [of "s_procs s" W p None "s_lock s"] by (auto simp: interrupt_queueing_def)
qed

lemma interrupt_ok:
  assumes ok: "qok q s W"
  obtains d l ps W' where "interrupt_queueing q p (s_lock s, s_procs s) = Some (d, l, ps)" and "qok q (s\<lparr>s_lock := l, s_procs := ps\<rparr>) W'"
    and "line_moves s (s\<lparr>s_lock := l, s_procs := ps\<rparr>) W W'"
proof (rule finalize_cases [OF ok, of p])
  assume left_out: "p_state (s_procs s p) = Queueing" "p_eql (s_procs s p) = Some q" "p \<in> set W"
  then obtain A B where W: "W = A @ p # B" by (meson split_list)
  obtain l ps where l: "pull_out p None (ql_head (s_lock s)) (s_lock s, s_procs s) = Some (True, l, ps)"
    "line (ql_head l) (ql_tail l) ps (A @ B)" "ql_locked l = ql_locked (s_lock s)"
    "ps p = (s_procs s p)\<lparr>p_qnext := None, p_eql := None, p_state := Ready\<rparr>" "\<And>x. x \<noteq> p \<Longrightarrow> \<exists>n. ps x = (s_procs s x)\<lparr>p_qnext := n\<rparr>"
    by (rule pull_out_present [OF qok_line [OF ok, unfolded W]]) blast
  have same: "p_state (ps x) = p_state (s_procs s x)" "p_eql (ps x) = p_eql (s_procs s x)" if "x \<noteq> p" for x using l(5) [OF that] by auto
  have p: "p \<notin> set (A @ B)" using qok_line [OF ok] W by (auto simp: line_def)
  have "placed q (s\<lparr>s_lock := l, s_procs := ps\<rparr>) (A @ B) x" for x
  proof (cases "x = p")
    case True
    then show ?thesis using qok_placed [OF ok, of p] p left_out l(4) by (auto simp: places)
  next
    case False
    then show ?thesis by (intro placed_same [OF qok_placed [OF ok, of x]]) (simp_all add: same W)
  qed
  then have "qok q (s\<lparr>s_lock := l, s_procs := ps\<rparr>) (A @ B)" using ok l(2,3) W by (auto simp: qok_def)
  moreover from this have "pulled_out (s\<lparr>s_lock := l, s_procs := ps\<rparr>) p"
    using qok_placed [of q _ "A @ B" p] qok_placed [OF ok, of p] p left_out l(4) W by (fastforce simp: places)
  then have "line_moves s (s\<lparr>s_lock := l, s_procs := ps\<rparr>) W (A @ B)" using W by (auto simp: line_moves_def)
  ultimately show ?thesis using that [of True l ps "A @ B"] l(1) left_out by (simp add: interrupt_queueing_def)
next
  assume "interrupt_queueing q p (s_lock s, s_procs s) = Some (False, s_lock s, s_procs s)"
  then show ?thesis using that [of False "s_lock s" "s_procs s" W] ok by simp
qed

lemma qstep_ok:
  assumes ok: "qok q s W" and "qstep q s s'"
  shows "\<exists>W'. qok q s' W' \<and> line_moves s s' W W'"
  using assms(2)
proof cases
  case (step_qlock p)
  show ?thesis
  proof (cases "ql_locked (s_lock s)")
    case True
    then show ?thesis
      using step_qlock join_line_ok [OF ok step_qlock(2,3) True, of In_qlock None]
      by (auto simp: called_def qlock_def line_moves_def intro!: exI [of _ "W @ [p]"] split: prod.splits)
  next
    case False
    then show ?thesis using step_qlock acquire_ok [OF ok step_qlock(2) False] by (auto simp: called_def qlock_def intro!: exI [of _ W])
  qed
next
  case (step_eqlock p)
  show ?thesis
  proof (cases "ql_locked (s_lock s)")
    case True
    show ?thesis
    proof (cases "p_notepending (s_procs s p)")
      case noted: True
      then show ?thesis
        using True step_eqlock note_ok [OF ok, of p False] by (auto simp: called_def eqlock_def intro!: exI [of _ W] split: prod.splits)
    next
      case False
      then show ?thesis
        using True step_eqlock join_line_ok [OF ok step_eqlock(2,3) True, of In_eqlock "Some q"]
        by (auto simp: called_def eqlock_def line_moves_def intro!: exI [of _ "W @ [p]"] split: prod.splits)
    qed
  next
    case False
    then show ?thesis using step_eqlock acquire_ok [OF ok step_eqlock(2) False] by (auto simp: called_def eqlock_def intro!: exI [of _ W])
  qed
next
  case (step_canqlock p free b l)
  then show ?thesis using ok acquire_ok [OF ok step_canqlock(2)] by (auto simp: canqlock_def intro!: exI [of _ W] split: if_splits)
next
  case (step_qunlock p w l)
  from unlock_ok [OF ok step_qunlock(2-)] have u: "qok q s' (tl W)" "w = first W" unfolding step_qunlock(1) by blast+
  have "line_moves s s' W (tl W)" using u(2) by (cases W) (auto simp: step_qunlock(1) line_moves_def)
  then show ?thesis using u(1) by blast
next
  case (step_ready x)
  then show ?thesis using ready_ok [OF ok] line_moves_refl by blast
next
  case (step_qlock_returns p)
  have "p_eql (s_procs s p) \<noteq> Some q" using qok_placed [OF ok, of p] step_qlock_returns by (auto simp: places split: if_splits)
  then show ?thesis
    using return_ok [OF ok, of p "(s_procs s p)\<lparr>p_state := Running\<rparr>"] step_qlock_returns by (auto simp: set_state_def intro!: exI [of _ W])
next
  case (step_eqlock_returns p r ps)
  have "set_state Running p ps = (s_procs s)(p := (ps p)\<lparr>p_state := Running\<rparr>)" "p_qnext (ps p) = p_qnext (s_procs s p)" "p_eql (ps p) = None"
    using step_eqlock_returns(4) by (auto simp: eqlock_resume_def set_state_def split: if_splits)
  then show ?thesis
    using return_ok [OF ok, of p "(ps p)\<lparr>p_state := Running\<rparr>"] step_eqlock_returns by (auto intro!: exI [of _ W])
next
  case (step_note p)
  then show ?thesis using note_ok [OF ok] line_moves_refl by blast
next
  case (step_interrupt p d l ps)
  obtain W' where "qok q s' W'" "line_moves s s' W W'"
    using interrupt_ok [OF ok, of p] step_interrupt by (metis option.inject prod.inject)
  then show ?thesis by blast
next
  case (step_elsewhere p n)
  then show ?thesis using elsewhere_ok [OF ok] line_moves_refl by blast
qed

interpretation qsystem: invariant_system "fresh q" "qstep q" "qok q" for q
  by unfold_locales (use qok_fresh qstep_ok in blast)+

end
