(* ===== verification/Rwlock_Use.thy ===== *)
theory Rwlock_Use
  imports Qlock_Use
begin

text \<open>
  A lock for readers and writers in use by any number of processes: the steps of the system, its invariant, and that every step keeps it.
\<close>

section \<open>A lock for readers and writers in use\<close>

text \<open>As above; \<open>r_readers\<close> and \<open>r_writers\<close> are the processes that hold the lock.\<close>

datatype rplace = Idle | In_rlock | In_wlock

record rsys =
  r_lock :: RWlock
  r_procs :: procs
  r_at :: "nat \<Rightarrow> rplace"
  r_readers :: "nat list"
  r_writers :: "nat list"
  r_handed :: "nat set"

definition rcalled :: "nat \<Rightarrow> rplace \<Rightarrow> outcome \<times> RWlock \<times> procs \<Rightarrow> rsys \<Rightarrow> rsys" where
  "rcalled p pl = (\<lambda>(r, l, ps) s. s\<lparr>r_lock := l, r_procs := ps,
     r_at := (if r = Queued then (r_at s)(p := pl) else r_at s),
     r_readers := (if r = Acquired \<and> pl = In_rlock then p # r_readers s else r_readers s),
     r_writers := (if r = Acquired \<and> pl = In_wlock then p # r_writers s else r_writers s)\<rparr>)"

definition wunlocked :: "nat \<Rightarrow> wakeup \<times> RWlock \<times> procs \<Rightarrow> rsys \<Rightarrow> rsys" where
  "wunlocked p = (\<lambda>(w, l, ps) s. s\<lparr>r_lock := l, r_procs := ps,
     r_readers := (case w of Readers xs \<Rightarrow> xs @ r_readers s | _ \<Rightarrow> r_readers s),
     r_writers := (case w of Writer x \<Rightarrow> x # remove1 p (r_writers s) | _ \<Rightarrow> remove1 p (r_writers s)),
     r_handed := (case w of Writer x \<Rightarrow> insert x (r_handed s) | _ \<Rightarrow> r_handed s)\<rparr>)"

inductive rstep :: "rsys \<Rightarrow> rsys \<Rightarrow> bool" for s where
  step_rlock: "r_at s p = Idle \<Longrightarrow> rstep s (rcalled p In_rlock (rlock (Some p) (r_lock s, r_procs s)) s)"
| step_wlock: "r_at s p = Idle \<Longrightarrow> rstep s (rcalled p In_wlock (wlock (Some p) (r_lock s, r_procs s)) s)"
| step_canrlock: "r_at s p = Idle \<Longrightarrow> canrlock (r_lock s) = (b, l) \<Longrightarrow>
    rstep s (s\<lparr>r_lock := l, r_readers := (if b then p # r_readers s else r_readers s)\<rparr>)"
| step_runlock: "r_at s p = Idle \<Longrightarrow> p \<in> set (r_readers s) \<Longrightarrow> runlock (r_lock s, r_procs s) = Some (w, l) \<Longrightarrow>
    rstep s (s\<lparr>r_lock := l, r_readers := remove1 p (r_readers s), r_writers := (case w of None \<Rightarrow> [] | Some x \<Rightarrow> [x]) @ r_writers s,
      r_handed := r_handed s \<union> set_option w\<rparr>)"
| step_wunlock: "r_at s p = Idle \<Longrightarrow> p \<in> set (r_writers s) \<Longrightarrow> wunlock (r_lock s, r_procs s) = Some w \<Longrightarrow> rstep s (wunlocked p w s)"
| step_made_ready: "x \<in> r_handed s \<Longrightarrow> rstep s (s\<lparr>r_procs := ready x (r_procs s), r_handed := r_handed s - {x}\<rparr>)"
| step_returns: "r_at s p \<noteq> Idle \<Longrightarrow> p_state (r_procs s p) = Ready \<Longrightarrow>
    rstep s (s\<lparr>r_procs := set_state Running p (r_procs s), r_at := (r_at s)(p := Idle)\<rparr>)"
| step_other: "r_at s p = Idle \<Longrightarrow> rstep s (s\<lparr>r_procs := (r_procs s)(p := n)\<rparr>)"

definition rfresh :: "rsys \<Rightarrow> bool" where
  "rfresh s \<longleftrightarrow> r_lock s = \<lparr>rw_head = None, rw_tail = None, rw_wproc = None, rw_readers = 0, rw_writer = 0\<rparr> \<and> (\<forall>p. r_at s p = Idle) \<and>
     r_readers s = [] \<and> r_writers s = [] \<and> r_handed s = {}"

abbreviation rreach :: "rsys \<Rightarrow> bool" where
  "rreach \<equiv> reach rfresh rstep"

definition rplaced :: "rsys \<Rightarrow> nat list \<Rightarrow> nat \<Rightarrow> bool" where
  "rplaced s W p \<longleftrightarrow> (if p \<in> set W then p \<notin> r_handed s \<and>
       (r_at s p = In_rlock \<and> p_state (r_procs s p) = QueueingR \<or> r_at s p = In_wlock \<and> p_state (r_procs s p) = QueueingW)
     else if r_at s p = Idle then p \<notin> r_handed s
     else r_at s p = In_rlock \<and> p \<in> set (r_readers s) \<and> p \<notin> r_handed s \<and> p_state (r_procs s p) = Ready \<or>
       r_at s p = In_wlock \<and> p \<in> set (r_writers s) \<and> p_state (r_procs s p) = (if p \<in> r_handed s then QueueingW else Ready))"

definition rok :: "rsys \<Rightarrow> nat list \<Rightarrow> bool" where
  "rok s W \<longleftrightarrow> line (rw_head (r_lock s)) (rw_tail (r_lock s)) (r_procs s) W \<and>
     rw_readers (r_lock s) = int (length (r_readers s)) \<and> rw_writer (r_lock s) = int (length (r_writers s)) \<and>
     length (r_writers s) \<le> 1 \<and> (r_writers s \<noteq> [] \<longrightarrow> r_readers s = []) \<and>
     (W \<noteq> [] \<longrightarrow> r_writers s \<noteq> [] \<or> r_readers s \<noteq> [] \<and> p_state (r_procs s (hd W)) = QueueingW) \<and>
     (\<forall>p. rplaced s W p)"

lemma rok_line: "rok s W \<Longrightarrow> line (rw_head (r_lock s)) (rw_tail (r_lock s)) (r_procs s) W"
  by (simp add: rok_def)

lemma rok_placed: "rok s W \<Longrightarrow> rplaced s W p"
  by (simp add: rok_def)

lemma rok_fresh: "rfresh s \<Longrightarrow> rok s []"
  by (auto simp: rok_def rfresh_def line_def rplaced_def)

lemma rplaced_same:
  assumes "rplaced s W p" and "p_state (r_procs s' p) = p_state (r_procs s p)"
    and "r_at s' p = r_at s p" and "p \<in> set (r_readers s') \<longleftrightarrow> p \<in> set (r_readers s)" and "p \<in> set (r_writers s') \<longleftrightarrow> p \<in> set (r_writers s)"
    and "p \<in> r_handed s' \<longleftrightarrow> p \<in> r_handed s" and "p \<in> set W' \<longleftrightarrow> p \<in> set W"
  shows "rplaced s' W' p"
  using assms(1) unfolding rplaced_def assms(2-) .

lemma join_rw_ok:
  assumes ok: "rok s W" and "r_at s p = Idle" and "pl = In_rlock \<and> st = QueueingR \<or> pl = In_wlock \<and> st = QueueingW"
    and "W = [] \<Longrightarrow> r_writers s \<noteq> [] \<or> r_readers s \<noteq> [] \<and> st = QueueingW"
    and "join_rw p st (r_lock s, r_procs s) = (l, ps)"
  shows "rok (s\<lparr>r_lock := l, r_procs := ps, r_at := (r_at s)(p := pl)\<rparr>) (W @ [p])"
proof -
  have p: "p \<notin> set W" "p \<notin> r_handed s" using rok_placed [OF ok, of p] assms(2) by (auto simp: rplaced_def split: if_splits)
  obtain h t ps0 where e: "enqueue p (rw_head (r_lock s), rw_tail (r_lock s), r_procs s) = (h, t, ps0)" "line h t ps0 (W @ [p])"
    "\<And>x. \<exists>n. ps0 x = (r_procs s x)\<lparr>p_qnext := n\<rparr>"
    by (rule line_enqueue [OF rok_line [OF ok] p(1)]) blast
  have l: "l = (r_lock s)\<lparr>rw_head := h, rw_tail := t\<rparr>" "ps = set_state st p ps0"
    using assms(5) e(1) by (auto simp: join_rw_def)
  have same: "p_state (ps0 x) = p_state (r_procs s x)" for x using e(3) [of x] by auto
  have ln: "line h t ps (W @ [p])" by (rule line_same [OF e(2)]) (simp add: l set_state_def)
  have pl: "rplaced (s\<lparr>r_lock := l, r_procs := ps, r_at := (r_at s)(p := pl)\<rparr>) (W @ [p]) x" for x
  proof (cases "x = p")
    case True
    then show ?thesis using p assms(3) by (auto simp: rplaced_def l(2) set_state_def)
  next
    case False
    then show ?thesis by (intro rplaced_same [OF rok_placed [OF ok, of x]]) (simp_all add: l(2) set_state_def same)
  qed
  have "r_writers s \<noteq> [] \<or> r_readers s \<noteq> [] \<and> p_state (ps (hd (W @ [p]))) = QueueingW"
    using ok assms(4) p(1) by (cases W) (auto simp: rok_def l(2) set_state_def same)
  then show ?thesis using ok ln pl by (auto simp: rok_def l(1))
qed

lemma take_read_ok:
  assumes ok: "rok s W" and "r_at s p = Idle" and "rw_writer (r_lock s) = 0" and "rw_head (r_lock s) = None"
  shows "rok (s\<lparr>r_lock := (r_lock s)\<lparr>rw_readers := rw_readers (r_lock s) + 1\<rparr>, r_readers := p # r_readers s\<rparr>) W"
proof -
  have "W = []" using rok_line [OF ok] assms(4) by (simp add: line_def)
  moreover have "rplaced (s\<lparr>r_lock := (r_lock s)\<lparr>rw_readers := rw_readers (r_lock s) + 1\<rparr>, r_readers := p # r_readers s\<rparr>) W x" for x
    using rok_placed [OF ok, of x] by (auto simp: rplaced_def split: if_splits)
  ultimately show ?thesis using ok assms(3) by (auto simp: rok_def)
qed

lemma take_write_ok:
  assumes ok: "rok s W" and "r_at s p = Idle" and "rw_readers (r_lock s) = 0" and "rw_writer (r_lock s) = 0"
  shows "rok (s\<lparr>r_lock := (r_lock s)\<lparr>rw_wproc := u, rw_writer := 1\<rparr>, r_writers := p # r_writers s\<rparr>) W"
proof -
  have "rplaced (s\<lparr>r_lock := (r_lock s)\<lparr>rw_wproc := u, rw_writer := 1\<rparr>, r_writers := p # r_writers s\<rparr>) W x" for x
    using rok_placed [OF ok, of x] by (auto simp: rplaced_def split: if_splits)
  then show ?thesis using ok assms(3,4) by (auto simp: rok_def)
qed

lemma runlock_ok:
  assumes ok: "rok s W" and "r_at s p = Idle" and p: "p \<in> set (r_readers s)"
  obtains w l W' where "runlock (r_lock s, r_procs s) = Some (w, l)"
    and "rok (s\<lparr>r_lock := l, r_readers := remove1 p (r_readers s), r_writers := (case w of None \<Rightarrow> [] | Some x \<Rightarrow> [x]) @ r_writers s,
      r_handed := r_handed s \<union> set_option w\<rparr>) W'"
proof -
  have c: "rw_readers (r_lock s) = int (length (r_readers s))" "r_writers s = []" "rw_writer (r_lock s) = 0" using ok p by (auto simp: rok_def)
  have len: "length (remove1 p (r_readers s)) = length (r_readers s) - 1" "length (r_readers s) > 0" using p by (auto simp: length_remove1)
  have less: "int (length (r_readers s) - 1) = int (length (r_readers s)) - 1" using length_pos_if_in_set [OF p] by linarith
  have other: "x \<in> set (remove1 p (r_readers s)) \<longleftrightarrow> x \<in> set (r_readers s)" if "x \<noteq> p" for x using that by simp
  let ?l = "(r_lock s)\<lparr>rw_readers := rw_readers (r_lock s) - 1\<rparr>"
  have keep: "rplaced (s\<lparr>r_lock := l, r_readers := remove1 p (r_readers s), r_writers := []\<rparr>) W x" for x l
    using rok_placed [OF ok, of x] assms(2) other [of x] c(2) by (cases "x = p") (auto simp: rplaced_def split: if_splits)
  show ?thesis
  proof (cases "W = [] \<or> length (r_readers s) > 1")
    case True
    then have "runlock (r_lock s, r_procs s) = Some (None, ?l)"
      using c(1) rok_line [OF ok] len by (auto simp: runlock_def Let_def line_def)
    moreover have "remove1 p (r_readers s) \<noteq> []" if "W \<noteq> []" using True that len by auto
    then have "rok (s\<lparr>r_lock := ?l, r_readers := remove1 p (r_readers s), r_writers := []\<rparr>) W"
      using ok c len less keep by (auto simp: rok_def)
    ultimately show ?thesis using that [of None ?l W] c(2) by simp
  next
    case False
    then obtain x W' where W: "W = x # W'" by (cases W) auto
    have one: "r_readers s = [p]" using False p by (cases "r_readers s") auto
    have x: "p_state (r_procs s x) = QueueingW" "x \<noteq> p" "x \<notin> set W'" "r_at s x = In_wlock"
      using ok c(2) W rok_placed [OF ok, of x] rok_line [OF ok] assms(2) by (auto simp: rok_def rplaced_def line_def)
    obtain t where t: "dequeue x (rw_tail (r_lock s), r_procs s) = (first W', t)" "line (first W') t (r_procs s) W'"
      using line_dequeue rok_line [OF ok] W by blast
    let ?l' = "?l\<lparr>rw_head := first W', rw_tail := t, rw_writer := 1\<rparr>"
    have "runlock (r_lock s, r_procs s) = Some (Some x, ?l')"
      using c(1) one rok_line [OF ok] W x(1) t(1) by (auto simp: runlock_def Let_def line_def)
    moreover have "rplaced (s\<lparr>r_lock := ?l', r_readers := [], r_writers := [x], r_handed := insert x (r_handed s)\<rparr>) W' y" for y
    proof (cases "y = x")
      case True
      then show ?thesis using x by (simp add: rplaced_def)
    next
      case False
      then show ?thesis using rok_placed [OF ok, of y] W one c(2) assms(2) by (auto simp: rplaced_def split: if_splits)
    qed
    then have "rok (s\<lparr>r_lock := ?l', r_readers := [], r_writers := [x], r_handed := insert x (r_handed s)\<rparr>) W'"
      using t(2) c(1) one by (auto simp: rok_def)
    ultimately show ?thesis using that [of "Some x" ?l' W'] one c(2) by simp
  qed
qed


text \<open>The readers at the head of the line are woken together.\<close>

definition next_readers :: "procs \<Rightarrow> nat list \<Rightarrow> nat list" where
  "next_readers ps W = takeWhile (\<lambda>x. p_state (ps x) = QueueingR) W"

definition all_ready :: "nat list \<Rightarrow> procs \<Rightarrow> procs" where
  "all_ready R ps = (\<lambda>x. if x \<in> set R then (ps x)\<lparr>p_state := Ready\<rparr> else ps x)"

lemma next_readers_Cons: "next_readers ps (x # W) = (if p_state (ps x) = QueueingR then x # next_readers ps W else [])"
  by (simp add: next_readers_def)

lemma next_readers_ready: "x \<notin> set W \<Longrightarrow> next_readers (ready x ps) W = next_readers ps W"
  unfolding next_readers_def by (rule takeWhile_cong) (auto simp: set_state_def)

lemma all_ready_Cons: "all_ready R (ready x ps) = all_ready (x # R) ps"
  by (rule ext) (simp add: all_ready_def set_state_def)

lemma wake_readers_line:
  "links ps W \<Longrightarrow> distinct W \<Longrightarrow> rw_head l = first W \<Longrightarrow> wake_readers (l, ps) = Some (next_readers ps W,
     l\<lparr>rw_head := first (drop (length (next_readers ps W)) W), rw_readers := rw_readers l + int (length (next_readers ps W))\<rparr>,
     all_ready (next_readers ps W) ps)"
proof (induction W arbitrary: l ps)
  case Nil
  then show ?case by (subst wake_readers.simps) (simp add: next_readers_def all_ready_def)
next
  case (Cons x W)
  show ?case
  proof (cases "p_state (ps x) = QueueingR")
    case True
    let ?l = "l\<lparr>rw_head := first W, rw_readers := rw_readers l + 1\<rparr>"
    have x: "x \<notin> set W" "p_qnext (ps x) = first W" using Cons.prems by (simp_all add: links_next)
    have "links (ready x ps) W = links ps W" by (rule links_cong) (use x in \<open>auto simp: set_state_def\<close>)
    then have "links (ready x ps) W" "distinct W" "rw_head ?l = first W" using Cons.prems by (simp_all add: links_next)
    note IH = Cons.IH [OF this, unfolded next_readers_ready [OF x(1)] all_ready_Cons]
    show ?thesis using True x Cons.prems(3) IH by (subst wake_readers.simps) (simp add: next_readers_Cons)
  next
    case False
    then show ?thesis using Cons.prems by (subst wake_readers.simps) (simp add: next_readers_Cons all_ready_def)
  qed
qed

lemma next_readers_split: "W = next_readers ps W @ drop (length (next_readers ps W)) W"
  by (simp add: next_readers_def flip: dropWhile_eq_drop)

lemma next_readers_stop: "drop (length (next_readers ps W)) W = y # D \<Longrightarrow> p_state (ps y) \<noteq> QueueingR"
  using hd_dropWhile [of "\<lambda>x. p_state (ps x) = QueueingR" W] by (simp add: next_readers_def flip: dropWhile_eq_drop)

lemma wake_lot_ok:
  assumes ok: "rok s W" and p: "r_at s p = Idle" and o: "r_writers s = [p]" "r_readers s = []" "rw_readers (r_lock s) = 0"
    and W: "W = R @ D" "R \<noteq> []" and R: "\<And>x. x \<in> set R \<Longrightarrow> p_state (r_procs s x) = QueueingR"
    and D: "\<And>y D'. D = y # D' \<Longrightarrow> p_state (r_procs s y) \<noteq> QueueingR"
    and l: "rw_head l = first D" "rw_tail l = (if D = [] then None else rw_tail (r_lock s))" "rw_readers l = int (length R)" "rw_writer l = 0"
  shows "rok (s\<lparr>r_lock := l, r_procs := all_ready R (r_procs s), r_readers := R, r_writers := []\<rparr>) D"
proof -
  let ?s = "s\<lparr>r_lock := l, r_procs := all_ready R (r_procs s), r_readers := R, r_writers := []\<rparr>"
  have w: "rw_tail (r_lock s) = final (R @ D)" "links (r_procs s) (R @ D)" "distinct (R @ D)"
    using rok_line [OF ok] unfolding W(1) by (simp_all add: line_def)
  have "final (R @ D) = final D" if "D \<noteq> []" using that by (simp add: final_def)
  moreover have "links (all_ready R (r_procs s)) D = links (r_procs s) D" by (rule links_cong) (simp add: all_ready_def)
  ultimately have "line (rw_head l) (rw_tail l) (r_procs ?s) D" using w l links_append [OF w(2)] by (auto simp: line_def)
  moreover have "rplaced ?s D x" for x
    using rok_placed [OF ok, of x] w(3) R [of x] p o W(1) by (auto simp: rplaced_def all_ready_def split: if_splits)
  moreover have "p_state (r_procs ?s (hd D)) = QueueingW" if "D \<noteq> []"
  proof -
    obtain y D' where y: "D = y # D'" using \<open>D \<noteq> []\<close> by (cases D) auto
    then show ?thesis using D [OF y] rok_placed [OF ok, of y] w(3) W(1) by (auto simp: rplaced_def all_ready_def)
  qed
  ultimately show ?thesis using l(3,4) W(2) by (simp add: rok_def)
qed

lemma wunlock_ok:
  assumes ok: "rok s W" and p: "r_at s p = Idle" "p \<in> set (r_writers s)"
  obtains w W' where "wunlock (r_lock s, r_procs s) = Some w" and "rok (wunlocked p w s) W'"
proof -
  have o: "r_writers s = [p]" "r_readers s = []" "rw_readers (r_lock s) = 0" "rw_writer (r_lock s) = 1"
    using ok p(2) by (cases "r_writers s"; auto simp: rok_def)+
  have ln: "line (rw_head (r_lock s)) (rw_tail (r_lock s)) (r_procs s) W" by (rule rok_line [OF ok])
  show ?thesis
  proof (cases W)
    case Nil
    then have "wunlock (r_lock s, r_procs s) = Some (Nobody, (r_lock s)\<lparr>rw_writer := 0\<rparr>, r_procs s)"
      using ln by (simp add: wunlock_def line_def)
    moreover have "rplaced (wunlocked p (Nobody, (r_lock s)\<lparr>rw_writer := 0\<rparr>, r_procs s) s) [] x" for x
      using rok_placed [OF ok, of x] Nil o p by (auto simp: rplaced_def wunlocked_def split: if_splits)
    then have "rok (wunlocked p (Nobody, (r_lock s)\<lparr>rw_writer := 0\<rparr>, r_procs s) s) []"
      using ln Nil o by (simp add: rok_def wunlocked_def)
    ultimately show ?thesis by (rule that)
  next
    case (Cons x W')
    then have h: "rw_head (r_lock s) = Some x" "x \<notin> set W'" using ln by (simp_all add: line_def)
    have x: "p_state (r_procs s x) = QueueingR \<or> p_state (r_procs s x) = QueueingW \<and> r_at s x = In_wlock" "x \<noteq> p"
      using rok_placed [OF ok, of x] Cons p by (auto simp: rplaced_def)
    show ?thesis
    proof (cases "p_state (r_procs s x) = QueueingW")
      case True
      obtain t where t: "dequeue x (rw_tail (r_lock s), r_procs s) = (first W', t)" "line (first W') t (r_procs s) W'"
        using line_dequeue ln Cons by blast
      let ?w = "(Writer x, (r_lock s)\<lparr>rw_head := first W', rw_tail := t\<rparr>, r_procs s)"
      have "wunlock (r_lock s, r_procs s) = Some ?w" using h True t(1) by (simp add: wunlock_def)
      moreover have "rplaced (wunlocked p ?w s) W' y" for y
        using rok_placed [OF ok, of y] Cons o p x True h(2) by (auto simp: rplaced_def wunlocked_def split: if_splits)
      then have "rok (wunlocked p ?w s) W'" using t(2) o by (simp add: rok_def wunlocked_def)
      ultimately show ?thesis by (rule that)
    next
      case False
      define R where "R = next_readers (r_procs s) W"
      define D where "D = drop (length R) W"
      let ?l = "(r_lock s)\<lparr>rw_head := first D, rw_readers := int (length R)\<rparr>"
      let ?l' = "(if first D = None then ?l\<lparr>rw_tail := None\<rparr> else ?l)\<lparr>rw_writer := 0\<rparr>"
      let ?w = "(Readers R, ?l', all_ready R (r_procs s))"
      have RD: "W = R @ D" unfolding R_def D_def by (rule next_readers_split)
      have "R \<noteq> []" using False x(1) Cons by (simp add: R_def next_readers_Cons)
      have "wake_readers (r_lock s, r_procs s) = Some (R, ?l, all_ready R (r_procs s))"
        using wake_readers_line [of "r_procs s" W "r_lock s"] ln o(3) by (simp add: line_def R_def D_def)
      then have "wunlock (r_lock s, r_procs s) = Some ?w" using h False x(1) by (simp add: wunlock_def)
      moreover have "rok (s\<lparr>r_lock := ?l', r_procs := all_ready R (r_procs s), r_readers := R, r_writers := []\<rparr>) D"
      proof (rule wake_lot_ok [OF ok p(1) o(1-3) RD \<open>R \<noteq> []\<close>])
        show "p_state (r_procs s y) = QueueingR" if "y \<in> set R" for y using that by (auto simp: R_def next_readers_def dest: set_takeWhileD)
        show "p_state (r_procs s y) \<noteq> QueueingR" if "D = y # D'" for y D' using that next_readers_stop by (simp add: R_def D_def)
      qed auto
      then have "rok (wunlocked p ?w s) D" using o by (simp add: wunlocked_def)
      ultimately show ?thesis by (rule that)
    qed
  qed
qed

lemma made_ready_ok:
  assumes ok: "rok s W" and x: "x \<in> r_handed s"
  shows "rok (s\<lparr>r_procs := ready x (r_procs s), r_handed := r_handed s - {x}\<rparr>) W"
proof -
  let ?s = "s\<lparr>r_procs := ready x (r_procs s), r_handed := r_handed s - {x}\<rparr>"
  have xW: "x \<notin> set W" using rok_placed [OF ok, of x] x by (auto simp: rplaced_def)
  have "rplaced ?s W y" for y
    using rok_placed [OF ok, of y] x by (auto simp: rplaced_def set_state_def split: if_splits)
  moreover have "line (rw_head (r_lock s)) (rw_tail (r_lock s)) (r_procs ?s) W"
    by (rule line_same [OF rok_line [OF ok]]) (simp add: set_state_def)
  moreover have "p_state (r_procs ?s (hd W)) = p_state (r_procs s (hd W))" if "W \<noteq> []"
    using xW that by (cases W) (auto simp: set_state_def)
  ultimately show ?thesis using ok by (simp add: rok_def)
qed

text \<open>A process that is not in the line runs.\<close>

lemma runs_ok:
  assumes ok: "rok s W" and p: "p \<notin> set W" and "p \<notin> r_handed s"
  shows "rok (s\<lparr>r_procs := (r_procs s)(p := n), r_at := (r_at s)(p := Idle)\<rparr>) W"
proof -
  let ?s = "s\<lparr>r_procs := (r_procs s)(p := n), r_at := (r_at s)(p := Idle)\<rparr>"
  have "rplaced ?s W y" for y using rok_placed [OF ok, of y] assms(2,3) by (auto simp: rplaced_def split: if_splits)
  moreover have "line (rw_head (r_lock s)) (rw_tail (r_lock s)) (r_procs ?s) W = line (rw_head (r_lock s)) (rw_tail (r_lock s)) (r_procs s) W"
    by (rule line_cong) (use p in auto)
  moreover have "p_state (r_procs ?s (hd W)) = p_state (r_procs s (hd W))" if "W \<noteq> []" using p that by (cases W) auto
  ultimately show ?thesis using ok by (simp add: rok_def)
qed

lemma rstep_ok:
  assumes ok: "rok s W" and "rstep s s'"
  shows "\<exists>W'. rok s' W'"
  using assms(2)
proof cases
  case (step_rlock p)
  show ?thesis
  proof (cases "rw_writer (r_lock s) = 0 \<and> rw_head (r_lock s) = None")
    case True
    then show ?thesis using step_rlock take_read_ok [OF ok step_rlock(2)] by (auto simp: rcalled_def rlock_def)
  next
    case False
    then have "W = [] \<Longrightarrow> r_writers s \<noteq> [] \<or> r_readers s \<noteq> [] \<and> QueueingR = QueueingW" using ok by (auto simp: rok_def line_def)
    then show ?thesis
      using False step_rlock join_rw_ok [OF ok step_rlock(2), of In_rlock QueueingR] by (auto simp: rcalled_def rlock_def split: prod.splits)
  qed
next
  case (step_wlock p)
  show ?thesis
  proof (cases "rw_readers (r_lock s) = 0 \<and> rw_writer (r_lock s) = 0")
    case True
    then show ?thesis using step_wlock take_write_ok [OF ok step_wlock(2)] by (auto simp: rcalled_def wlock_def)
  next
    case False
    then have "W = [] \<Longrightarrow> r_writers s \<noteq> [] \<or> r_readers s \<noteq> [] \<and> QueueingW = QueueingW" using ok by (auto simp: rok_def)
    then show ?thesis
      using False step_wlock join_rw_ok [OF ok step_wlock(2), of In_wlock QueueingW] by (auto simp: rcalled_def wlock_def split: prod.splits)
  qed
next
  case (step_canrlock p b l)
  then show ?thesis using ok take_read_ok [OF ok step_canrlock(2)] by (auto simp: canrlock_def split: if_splits)
next
  case (step_runlock p w l)
  then show ?thesis using runlock_ok [OF ok step_runlock(2,3)] by (metis option.inject prod.inject)
next
  case (step_wunlock p w)
  then show ?thesis using wunlock_ok [OF ok step_wunlock(2,3)] by (metis option.inject)
next
  case (step_made_ready x)
  then show ?thesis using made_ready_ok [OF ok] by blast
next
  case (step_returns p)
  then have "p \<notin> set W" "p \<notin> r_handed s" using rok_placed [OF ok, of p] by (auto simp: rplaced_def split: if_splits)
  then show ?thesis using step_returns(1) runs_ok [OF ok] by (auto simp: set_state_def)
next
  case (step_other p n)
  then have "p \<notin> set W" "p \<notin> r_handed s" using rok_placed [OF ok, of p] by (auto simp: rplaced_def split: if_splits)
  then have "rok (s\<lparr>r_procs := (r_procs s)(p := n), r_at := (r_at s)(p := Idle)\<rparr>) W" by (rule runs_ok [OF ok])
  moreover have "(r_at s)(p := Idle) = r_at s" using step_other(2) by auto
  ultimately show ?thesis using step_other(1) by auto
qed

interpretation rsystem: invariant_system rfresh rstep rok
  by unfold_locales (use rok_fresh rstep_ok in blast)+

end
