(* ===== verification/Locks_Props.thy ===== *)
theory Locks_Props
  imports Rwlock_Use
begin

text \<open>The properties of the queueing locks.\<close>

section \<open>Exclusive locks\<close>

text \<open>
  C20. At any time at most one process owns the lock, and it is locked exactly when one does. The processes that wait form the line,
  \<^verbatim>\<open>qunlock\<close> hands the lock to the first of it, and nobody waits for a lock that nobody owns. The line is in the order of arrival: whatever
  happens next, the line stays, or is longer by the process that calls \<^verbatim>\<open>qlock\<close> or \<^verbatim>\<open>eqlock\<close>, at its end, or
  shorter by its first process, which now owns the lock, or by one that has been interrupted. A process inside
  \<^verbatim>\<open>qlock\<close> or \<^verbatim>\<open>eqlock\<close> is in the line, owns the lock, or has been taken out of the line by an interruption; when it
  runs again, \<^verbatim>\<open>qlock\<close> returns as the owner, and \<^verbatim>\<open>eqlock\<close> returns as the owner exactly when it does not report
  the interruption. The search for an interrupted process always ends.
\<close>

theorem qlock_exclusive:
  assumes "qreach q s"
  shows "length (s_owners s) \<le> 1 \<and> (ql_locked (s_lock s) \<longleftrightarrow> s_owners s \<noteq> []) \<and>
     (\<exists>W. line (ql_head (s_lock s)) (ql_tail (s_lock s)) (s_procs s) W \<and> (W \<noteq> [] \<longrightarrow> s_owners s \<noteq> []) \<and>
       (s_owners s \<noteq> [] \<longrightarrow> fst (qunlock (s_lock s, s_procs s)) = first W) \<and>
       (\<forall>p. s_at s p \<noteq> Outside \<longrightarrow> p \<in> set W \<or> p \<in> set (s_owners s) \<or> pulled_out s p) \<and>
       (\<forall>s'. qstep q s s' \<longrightarrow> (\<exists>W'. line (ql_head (s_lock s')) (ql_tail (s_lock s')) (s_procs s') W' \<and> line_moves s s' W W'))) \<and>
     (\<forall>p. s_at s p = In_qlock \<longrightarrow> p_state (s_procs s p) = Ready \<longrightarrow> p \<in> set (s_owners s)) \<and>
     (\<forall>p. s_at s p = In_eqlock \<longrightarrow> p_state (s_procs s p) = Ready \<longrightarrow>
       (fst (eqlock_resume p (s_procs s)) = Acquired \<longleftrightarrow> p \<in> set (s_owners s))) \<and>
     (\<forall>p. \<exists>d l ps. interrupt_queueing q p (s_lock s, s_procs s) = Some (d, l, ps))"
proof -
  obtain W where ok: "qok q s W" using qsystem.invariant_holds [OF assms] by blast
  have "fst (qunlock (s_lock s, s_procs s)) = first W"
    using qok_line [OF ok] by (cases W) (auto simp: line_def qunlock_def split: prod.splits)
  moreover have "p \<in> set W \<or> p \<in> set (s_owners s) \<or> pulled_out s p" if "s_at s p \<noteq> Outside" for p
    using qok_placed [OF ok, of p] that by (auto simp: placed_def granted_def)
  moreover have "p \<in> set (s_owners s)" if "s_at s p = In_qlock" "p_state (s_procs s p) = Ready" for p
    using qok_placed [OF ok, of p] that by (auto simp: places split: if_splits)
  moreover have "fst (eqlock_resume p (s_procs s)) = Acquired \<longleftrightarrow> p \<in> set (s_owners s)"
    if "s_at s p = In_eqlock" "p_state (s_procs s p) = Ready" for p
    using qok_placed [OF ok, of p] that by (auto simp: places eqlock_resume_def split: if_splits)
  moreover have "\<exists>d l ps. interrupt_queueing q p (s_lock s, s_procs s) = Some (d, l, ps)" for p
    using interrupt_ok [OF ok, of p] by metis
  moreover have "\<exists>W'. line (ql_head (s_lock s')) (ql_tail (s_lock s')) (s_procs s') W' \<and> line_moves s s' W W'" if "qstep q s s'" for s'
    using qstep_ok [OF ok that] qok_line by blast
  ultimately show ?thesis using ok unfolding qok_def by blast
qed

text \<open>Process 1 holds the lock, 2 waits for it in \<^verbatim>\<open>eqlock\<close> and 3 in \<^verbatim>\<open>qlock\<close>.\<close>

definition idle_procs :: procs where
  "idle_procs = (\<lambda>_. \<lparr>p_state = Running, p_qnext = None, p_eql = None, p_notepending = False\<rparr>)"

definition sample0 :: qsys where
  "sample0 = \<lparr>s_lock = \<lparr>ql_head = None, ql_tail = None, ql_locked = False\<rparr>, s_procs = idle_procs, s_at = (\<lambda>_. Outside), s_owners = [], s_handed = {}\<rparr>"

definition sample1 :: qsys where
  "sample1 = called 1 In_qlock (qlock (Some 1) (s_lock sample0, s_procs sample0)) sample0"

definition sample2 :: qsys where
  "sample2 = called 2 In_eqlock (eqlock 7 (Some 2) (s_lock sample1, s_procs sample1)) sample1"

definition sample3 :: qsys where
  "sample3 = called 3 In_qlock (qlock (Some 3) (s_lock sample2, s_procs sample2)) sample2"

lemmas sample_defs = sample1_def sample2_def sample3_def sample0_def idle_procs_def called_def qlock_def eqlock_def join_line_def enqueue_def set_state_def

lemma sample_fields: "s_at sample3 2 = In_eqlock" "s_at sample3 3 = In_qlock" "s_owners sample3 = [1]"
  "fst (qunlock (s_lock sample3, s_procs sample3)) = Some 2" "s_at sample2 3 = Outside" "s_owners sample2 = [1]" "s_at sample1 2 = Outside" "s_owners sample1 = [1]"
  by (simp_all add: sample_defs qunlock_def dequeue_def Let_def)

lemma sample_reach: "qreach 7 sample3"
proof -
  have "qreach 7 sample0" by (rule reach_init) (simp add: fresh_def sample0_def idle_procs_def)
  then have "qreach 7 sample1" unfolding sample1_def by (rule reach_step) (rule step_qlock; simp add: sample0_def)
  then have "qreach 7 sample2" unfolding sample2_def by (rule reach_step) (rule step_eqlock; simp add: sample_fields)
  then show ?thesis unfolding sample3_def by (rule reach_step) (rule step_qlock; simp add: sample_fields)
qed

lemma qlock_exclusive_witness:
  "qreach 7 sample3 \<and> length (s_owners sample3) \<le> 1 \<and> ql_locked (s_lock sample3) \<and> fst (qunlock (s_lock sample3, s_procs sample3)) = Some 2 \<and>
     s_at sample3 2 = In_eqlock \<and> s_at sample3 3 = In_qlock \<and> s_owners sample3 = [1]"
  using qlock_exclusive [OF sample_reach] sample_reach by (simp add: sample_fields)

section \<open>Locks for readers and writers\<close>

text \<open>
  C21. The counts of a lock for readers and writers are those of the processes that hold it: at most one writer, and no readers beside it.
  Every process inside \<^verbatim>\<open>rlock\<close> or \<^verbatim>\<open>wlock\<close> waits in the line or holds the lock, one that runs again holds it in the way it
  asked for, and whenever there is somebody in the line somebody holds the lock and will release it. An unlock by a holder neither panics
  nor loops.
\<close>

theorem rwlock_exclusive:
  assumes "rreach s"
  shows "rw_readers (r_lock s) = int (length (r_readers s)) \<and> rw_writer (r_lock s) = int (length (r_writers s)) \<and>
     length (r_writers s) \<le> 1 \<and> (r_writers s \<noteq> [] \<longrightarrow> r_readers s = []) \<and>
     (\<exists>W. line (rw_head (r_lock s)) (rw_tail (r_lock s)) (r_procs s) W \<and> (W \<noteq> [] \<longrightarrow> r_writers s \<noteq> [] \<or> r_readers s \<noteq> []) \<and>
       (\<forall>p. r_at s p \<noteq> Idle \<longrightarrow> p \<in> set W \<or> p \<in> set (if r_at s p = In_rlock then r_readers s else r_writers s))) \<and>
     (\<forall>p. r_at s p \<noteq> Idle \<longrightarrow> p_state (r_procs s p) = Ready \<longrightarrow> p \<in> set (if r_at s p = In_rlock then r_readers s else r_writers s)) \<and>
     (\<forall>p. r_at s p = Idle \<longrightarrow> p \<in> set (r_readers s) \<longrightarrow> runlock (r_lock s, r_procs s) \<noteq> None) \<and>
     (\<forall>p. r_at s p = Idle \<longrightarrow> p \<in> set (r_writers s) \<longrightarrow> wunlock (r_lock s, r_procs s) \<noteq> None)"
proof -
  obtain W where ok: "rok s W" using rsystem.invariant_holds [OF assms] by blast
  have "p \<in> set W \<or> p \<in> set (if r_at s p = In_rlock then r_readers s else r_writers s)" if "r_at s p \<noteq> Idle" for p
    using rok_placed [OF ok, of p] that by (auto simp: rplaced_def split: if_splits)
  moreover have "p \<in> set (if r_at s p = In_rlock then r_readers s else r_writers s)"
    if "r_at s p \<noteq> Idle" "p_state (r_procs s p) = Ready" for p
    using rok_placed [OF ok, of p] that by (auto simp: rplaced_def split: if_splits)
  moreover have "runlock (r_lock s, r_procs s) \<noteq> None" if "r_at s p = Idle" "p \<in> set (r_readers s)" for p
    using runlock_ok [OF ok that] by (metis option.distinct(1))
  moreover have "wunlock (r_lock s, r_procs s) \<noteq> None" if "r_at s p = Idle" "p \<in> set (r_writers s)" for p
    using wunlock_ok [OF ok that] by (metis option.distinct(1))
  ultimately show ?thesis using ok unfolding rok_def by blast
qed

text \<open>Process 1 reads, 2 waits to write, 3 waits to read behind it; after 1 has unlocked, 2 writes.\<close>

definition rsample0 :: rsys where
  "rsample0 = \<lparr>r_lock = \<lparr>rw_head = None, rw_tail = None, rw_wproc = None, rw_readers = 0, rw_writer = 0\<rparr>, r_procs = idle_procs,
     r_at = (\<lambda>_. Idle), r_readers = [], r_writers = [], r_handed = {}\<rparr>"

definition rsample1 :: rsys where
  "rsample1 = rcalled 1 In_rlock (rlock (Some 1) (r_lock rsample0, r_procs rsample0)) rsample0"

definition rsample2 :: rsys where
  "rsample2 = rcalled 2 In_wlock (wlock (Some 2) (r_lock rsample1, r_procs rsample1)) rsample1"

definition rsample3 :: rsys where
  "rsample3 = rcalled 3 In_rlock (rlock (Some 3) (r_lock rsample2, r_procs rsample2)) rsample2"

lemmas rsample_defs = rsample1_def rsample2_def rsample3_def rsample0_def idle_procs_def rcalled_def rlock_def wlock_def join_rw_def enqueue_def set_state_def

lemma rsample_fields: "r_at rsample3 1 = Idle" "r_at rsample3 2 = In_wlock" "r_at rsample3 3 = In_rlock" "r_readers rsample3 = [1]" "r_writers rsample3 = []"
  "r_at rsample2 3 = Idle" "r_at rsample1 2 = Idle" "r_at rsample0 p = Idle"
  by (simp_all add: rsample_defs)

lemma rsample_reach: "rreach rsample3"
proof -
  have "rreach rsample0" by (rule reach_init) (simp add: rfresh_def rsample0_def)
  then have "rreach rsample1" unfolding rsample1_def by (rule reach_step) (rule step_rlock; simp add: rsample_fields)
  then have "rreach rsample2" unfolding rsample2_def by (rule reach_step) (rule step_wlock; simp add: rsample_fields)
  then show ?thesis unfolding rsample3_def by (rule reach_step) (rule step_rlock; simp add: rsample_fields)
qed

lemma rwlock_exclusive_witness:
  "rreach rsample3 \<and> rw_readers (r_lock rsample3) = 1 \<and> rw_writer (r_lock rsample3) = 0 \<and> runlock (r_lock rsample3, r_procs rsample3) \<noteq> None \<and>
     r_readers rsample3 = [1] \<and> r_at rsample3 2 = In_wlock \<and> r_at rsample3 3 = In_rlock"
proof -
  note e = rwlock_exclusive [OF rsample_reach]
  have "runlock (r_lock rsample3, r_procs rsample3) \<noteq> None" using e rsample_fields(1,4) by auto
  then show ?thesis using e rsample_reach by (simp add: rsample_fields)
qed

end
