(* ===== verification/Dev.thy ===== *)
theory Dev
  imports Dir Blocks "HOL-Library.Monad_Syntax"
begin

unbundle bit_operations_syntax

text \<open>
  The routines that kernel devices share, \<^verbatim>\<open>sys/src/kern/port/dev.c\<close>: a device describes its files with a table or with a generator
  of its own, and these routines walk, list, describe and open them.

  Channels are values. A channel names its device by the device's character. The table is never nil and has an entry
  for the directory itself first. \<open>None\<close> is an endless loop: a generator that never says that there are no more entries.
\<close>

section \<open>Channels and tables\<close>

abbreviation COPEN :: u16 where "COPEN \<equiv> 1"
abbreviation CMSG :: u16 where "CMSG \<equiv> 2"
abbreviation QTDIR :: u8 where "QTDIR \<equiv> 0x80"
abbreviation QTMOUNT :: u8 where "QTMOUNT \<equiv> 0x10"
abbreviation QTFILE :: u8 where "QTFILE \<equiv> 0"
abbreviation DMDIR :: u32 where "DMDIR \<equiv> 0x80000000"
abbreviation DMMOUNT :: u32 where "DMMOUNT \<equiv> 0x10000000"
abbreviation OREAD :: u64 where "OREAD \<equiv> 1"
abbreviation OWRITE :: u64 where "OWRITE \<equiv> 2"
abbreviation ORDWR :: u64 where "ORDWR \<equiv> 3"
abbreviation OEXEC :: u64 where "OEXEC \<equiv> 4"
abbreviation OKMODE :: u64 where "OKMODE \<equiv> 0xff"

record Chan =
  c_dev :: "int option"
  c_devno :: u32
  c_mode :: u64
  c_flag :: u16
  c_qid :: Qid
  c_offset :: int
  c_iounit :: u32
  c_dri :: nat
  c_path :: "bytes option"
  c_aux :: nat
  c_mqid :: Qid

record Dirtab =
  t_name :: bytes
  t_qid :: Qid
  t_length :: u64
  t_perm :: u32

datatype dev_error = Enotdir | Enonexist | Eperm | Ebadarg | Eshort | Eshortstat | Broken_devgen

text \<open>The owner of the system, the user of the process and whether it is in the owner's group, the clock and the date of the kernel.\<close>

record surroundings =
  eve :: bytes
  user :: bytes
  in_eve :: bool
  seconds :: u32
  kerndate :: u32

definition mkqid :: "u64 \<Rightarrow> u32 \<Rightarrow> u8 \<Rightarrow> Qid" where
  "mkqid path vers type = \<lparr>qpath = path, qvers = vers, qtype = type\<rparr>"

definition is_dir :: "Qid \<Rightarrow> bool" where
  "is_dir q \<longleftrightarrow> qtype q AND QTDIR \<noteq> 0"

text \<open>\<^verbatim>\<open>old\<close> is the mode and qid that a reused channel still has.\<close>

definition newchan :: "u64 \<times> Qid \<Rightarrow> Chan" where
  "newchan old = \<lparr>c_dev = None, c_devno = 0, c_mode = fst old, c_flag = 0, c_qid = snd old, c_offset = 0, c_iounit = 0, c_dri = 0,
     c_path = None, c_aux = 0, c_mqid = mkqid 0 0 0\<rparr>"

section \<open>Generators\<close>

text \<open>What a generator answers: -1, 0, or 1 with an entry. \<open>None\<close> as the index is \<^verbatim>\<open>DEVDOTDOT\<close>.\<close>

datatype generated = Gend | Gskip | Gentry "cstr Dir"

type_synonym Devgen = "Chan \<Rightarrow> bytes option \<Rightarrow> Dirtab list \<Rightarrow> nat option \<Rightarrow> generated"

definition devdir :: "surroundings \<Rightarrow> Chan \<Rightarrow> Qid \<Rightarrow> bytes \<Rightarrow> u64 \<Rightarrow> bytes \<Rightarrow> u32 \<Rightarrow> cstr Dir" where
  "devdir v c qid n len owner perm = (let
     qid = (if c_flag c AND CMSG \<noteq> 0 then qid\<lparr>qtype := qtype qid OR QTMOUNT\<rparr> else qid)
   in \<lparr>dtype = (case c_dev c of Some dc \<Rightarrow> word_of_int dc | None \<Rightarrow> -1), ddev = c_devno c, dqid = qid,
     dmode = perm OR push_bit 24 (ucast (qtype qid)), datime = seconds v, dmtime = kerndate v, dlength = len,
     dname = Some n, duid = Some owner, dgid = Some (eve v), dmuid = Some owner\<rparr>)"

definition tab_entry :: "surroundings \<Rightarrow> Chan \<Rightarrow> Dirtab \<Rightarrow> cstr Dir" where
  "tab_entry v c t = devdir v c (t_qid t) (t_name t) (t_length t) (eve v) (t_perm t)"

definition devgen :: "surroundings \<Rightarrow> Devgen" where
  "devgen v c name tab i = (case i of
     None \<Rightarrow> Gentry (tab_entry v c (tab ! 0))
   | Some i \<Rightarrow> (case name of
       Some n \<Rightarrow> (case find (\<lambda>t. t_name t = n) (tl tab) of None \<Rightarrow> Gend | Some t \<Rightarrow> Gentry (tab_entry v c t))
     | None \<Rightarrow> if i + 1 \<ge> length tab then Gend else Gentry (tab_entry v c (tab ! (i + 1)))))"

text \<open>A device passes \<^verbatim>\<open>devgen\<close> itself (here \<open>None\<close>) or a generator of its own.\<close>

definition gen_of :: "surroundings \<Rightarrow> Devgen option \<Rightarrow> Devgen" where
  "gen_of v g = (case g of None \<Rightarrow> devgen v | Some f \<Rightarrow> f)"

section \<open>Walking\<close>

definition devattach :: "u64 \<times> Qid \<Rightarrow> int \<Rightarrow> (int \<Rightarrow> bytes) \<Rightarrow> bytes option \<Rightarrow> Chan" where
  "devattach old dc utf8 spec = (newchan old)\<lparr>c_qid := mkqid 0 0 QTDIR, c_dev := Some dc,
     c_path := Some ([35] @ utf8 dc @ (case spec of None \<Rightarrow> [] | Some s \<Rightarrow> s))\<rparr>"

text \<open>\<open>None\<close> is a panic.\<close>

definition devclone :: "u64 \<times> Qid \<Rightarrow> Chan \<Rightarrow> Chan option" where
  "devclone old c = (if c_flag c AND COPEN \<noteq> 0 then None
     else Some ((newchan old)\<lparr>c_devno := c_devno c, c_mode := c_mode c, c_qid := c_qid c, c_offset := c_offset c, c_aux := c_aux c, c_mqid := c_mqid c\<rparr>))"

partial_function (option) find_entry :: "(nat \<Rightarrow> generated) \<Rightarrow> bytes \<Rightarrow> nat \<Rightarrow> Qid option option" where
  "find_entry gen n i = (case gen i of
     Gend \<Rightarrow> Some None
   | Gskip \<Rightarrow> find_entry gen n (Suc i)
   | Gentry d \<Rightarrow> if dname d = Some n then Some (Some (dqid d)) else find_entry gen n (Suc i))"

declare find_entry.simps [code]

abbreviation dot :: bytes where "dot \<equiv> [46]"
abbreviation dotdot :: bytes where "dotdot \<equiv> [46, 46]"

text \<open>
  The loop over the names: the channel that walks, the qids so far, and what is left in \<^verbatim>\<open>up->errstr\<close>. As every round that goes on
  adds a qid, \<^verbatim>\<open>j == 0\<close> is that there are none yet.
\<close>

fun walk_loop :: "surroundings \<Rightarrow> Devgen option \<Rightarrow> Dirtab list \<Rightarrow> bytes list \<Rightarrow> Chan \<Rightarrow> Qid list \<Rightarrow>
    (dev_error + Chan \<times> Qid list \<times> dev_error option) option" where
  "walk_loop v g tab [] nc qs = Some (Inr (nc, qs, None))"
| "walk_loop v g tab (n # ns) nc qs =
    (if \<not> is_dir (c_qid nc) then Some (if qs = [] then Inl Enotdir else Inr (nc, qs, None))
     else if n = dot then walk_loop v g tab ns nc (qs @ [c_qid nc])
     else if n = dotdot then (case gen_of v g nc None tab None of
         Gentry d \<Rightarrow> walk_loop v g tab ns (nc\<lparr>c_qid := dqid d\<rparr>) (qs @ [dqid d])
       | _ \<Rightarrow> Some (Inl Broken_devgen))
     else do {
       found \<leftarrow> (if g = None \<and> qpath (c_qid nc) \<noteq> qpath (t_qid (tab ! 0)) then Some None
         else find_entry (\<lambda>i. gen_of v g nc (Some n) tab (Some i)) n 0);
       case found of
         None \<Rightarrow> Some (if qs = [] then Inl Enonexist else Inr (nc, qs, Some Enonexist))
       | Some q \<Rightarrow> walk_loop v g tab ns (nc\<lparr>c_qid := q\<rparr>) (qs @ [q]) })"

text \<open>
  The result of a walk: an error raised, nil with the error in \<^verbatim>\<open>up->errstr\<close>, a panic, or the qids and the channel that has walked
  all the way.
\<close>

datatype walked = Raised dev_error | Nil_walk dev_error | Walk_panic | Walked (w_qids: "Qid list") (w_clone: "Chan option")

definition devwalk :: "surroundings \<Rightarrow> u64 \<times> Qid \<Rightarrow> Devgen option \<Rightarrow> Chan \<Rightarrow> Chan option \<Rightarrow> bytes list \<Rightarrow> Dirtab list \<Rightarrow> walked option" where
  "devwalk v old g c nc names tab =
     (if names \<noteq> [] \<and> \<not> is_dir (c_qid c) then Some (Raised Enotdir)
      else case (case nc of Some nc \<Rightarrow> Some nc | None \<Rightarrow> devclone old c) of
        None \<Rightarrow> Some Walk_panic
      | Some nc \<Rightarrow> do {
          r \<leftarrow> walk_loop v g tab names nc [];
          Some (case r of
            Inl e \<Rightarrow> Nil_walk e
          | Inr (nc, qs, _) \<Rightarrow> Walked qs (if length qs < length names then None else Some (nc\<lparr>c_dev := c_dev c\<rparr>))) })"

section \<open>Directory entries\<close>

text \<open>
  \<^verbatim>\<open>convD2M(&dir, db, n)\<close> as a kernel routine uses it: the count that it returns and the memory it leaves; \<open>None\<close> would be a
  store outside of it.
\<close>

definition conv_dir :: "cstr Dir \<Rightarrow> nat \<Rightarrow> bytes \<Rightarrow> (nat \<times> bytes) option" where
  "conv_dir d n buf = (case convD2M d (at_start (take n buf)) of
     (Inr p, c) \<Rightarrow> Some (p, cbuf c @ drop n buf)
   | (Inl (Return r), c) \<Rightarrow> Some (nat r, cbuf c @ drop n buf)
   | (Inl _, c) \<Rightarrow> None)"

fun last_elem :: "bytes \<Rightarrow> bytes \<Rightarrow> bytes" where
  "last_elem [] elem = elem"
| "last_elem (b # bs) elem = last_elem bs (if b = 47 then bs else elem)"

definition chan_elem :: "Chan \<Rightarrow> bytes" where
  "chan_elem c = (case c_path c of
     None \<Rightarrow> [63, 63, 63]
   | Some s \<Rightarrow> if s = [47] then [47] else last_elem s s)"

definition stat_out :: "cstr Dir \<Rightarrow> nat \<Rightarrow> bytes \<Rightarrow> (dev_error + nat \<times> bytes) option" where
  "stat_out d n db = do { (m, db) \<leftarrow> conv_dir d n db; Some (if m = 0 then Inl Ebadarg else Inr (m, db)) }"

partial_function (option) devstat_loop :: "surroundings \<Rightarrow> Chan \<Rightarrow> nat \<Rightarrow> bytes \<Rightarrow> (nat \<Rightarrow> generated) \<Rightarrow> nat \<Rightarrow> (dev_error + nat \<times> bytes) option" where
  "devstat_loop v c n db gen i = (case gen i of
     Gend \<Rightarrow> if is_dir (c_qid c) then stat_out (devdir v c (c_qid c) (chan_elem c) 0 (eve v) (DMDIR OR 0x16D)) n db
       else Some (Inl Enonexist)
   | Gskip \<Rightarrow> devstat_loop v c n db gen (Suc i)
   | Gentry d \<Rightarrow>
       if qpath (c_qid c) = qpath (dqid d)
       then stat_out (if c_flag c AND CMSG \<noteq> 0 then d\<lparr>dmode := dmode d OR DMMOUNT\<rparr> else d) n db
       else devstat_loop v c n db gen (Suc i))"

declare devstat_loop.simps [code]

definition devstat :: "surroundings \<Rightarrow> Devgen option \<Rightarrow> Chan \<Rightarrow> nat \<Rightarrow> bytes \<Rightarrow> Dirtab list \<Rightarrow> (dev_error + nat \<times> bytes) option" where
  "devstat v g c n db tab = devstat_loop v c n db (\<lambda>i. gen_of v g c None tab (Some i)) 0"

text \<open>
  \<open>m\<close> bytes are read; the rest of the memory at \<^verbatim>\<open>d\<close> is \<open>buf\<close> from \<open>m\<close> on. The channel comes back with its index advanced.
\<close>

partial_function (option) dirread_loop :: "Devgen \<Rightarrow> Dirtab list \<Rightarrow> nat \<Rightarrow> Chan \<Rightarrow> nat \<Rightarrow> bytes \<Rightarrow> ((dev_error + nat) \<times> Chan \<times> bytes) option" where
  "dirread_loop gen tab n c m buf =
     (if \<not> m < n then Some (Inr m, c, buf)
      else case gen c None tab (Some (c_dri c)) of
        Gend \<Rightarrow> Some (Inr m, c, buf)
      | Gskip \<Rightarrow> dirread_loop gen tab n (c\<lparr>c_dri := Suc (c_dri c)\<rparr>) m buf
      | Gentry d \<Rightarrow> do {
          (dsz, rest) \<leftarrow> conv_dir d (n - m) (drop m buf);
          let buf = take m buf @ rest in
          if dsz \<le> 2 then Some (if m = 0 then Inl Eshort else Inr m, c, buf)
          else dirread_loop gen tab n (c\<lparr>c_dri := Suc (c_dri c)\<rparr>) (m + dsz) buf })"

declare dirread_loop.simps [code]

definition devdirread :: "surroundings \<Rightarrow> Devgen option \<Rightarrow> Chan \<Rightarrow> bytes \<Rightarrow> nat \<Rightarrow> Dirtab list \<Rightarrow> ((dev_error + nat) \<times> Chan \<times> bytes) option" where
  "devdirread v g c buf n tab = dirread_loop (gen_of v g) tab n c 0 buf"

section \<open>Opening\<close>

definition access :: "u32 list" where
  "access = [0, 0x100, 0x80, 0x180, 0x40, 0xff, 0xff, 0xff]"

text \<open>\<^verbatim>\<open>error(Eperm)\<close>, or not.\<close>

definition devpermcheck :: "surroundings \<Rightarrow> bytes \<Rightarrow> u32 \<Rightarrow> u64 \<Rightarrow> bool" where
  "devpermcheck v fileuid perm omode = (let
     perm = (if user v = fileuid then perm else if in_eve v then push_bit 3 perm else push_bit 6 perm);
     required = access ! unat (omode AND 7)
   in required AND perm = required)"

definition openmode :: "u64 \<Rightarrow> dev_error + u64" where
  "openmode omode =
     (if omode AND OEXEC \<noteq> 0 \<and> omode AND ORDWR \<noteq> 0 then Inl Ebadarg
      else if omode AND OKMODE = OEXEC then Inr ((omode OR OREAD) AND NOT OEXEC)
      else Inr omode)"

partial_function (option) devopen_loop :: "surroundings \<Rightarrow> Chan \<Rightarrow> u64 \<Rightarrow> (nat \<Rightarrow> generated) \<Rightarrow> nat \<Rightarrow> bool option" where
  "devopen_loop v c omode gen i = (case gen i of
     Gend \<Rightarrow> Some True
   | Gskip \<Rightarrow> devopen_loop v c omode gen (Suc i)
   | Gentry d \<Rightarrow>
       if qpath (c_qid c) = qpath (dqid d) then Some (devpermcheck v (the (duid d)) (dmode d) omode)
       else devopen_loop v c omode gen (Suc i))"

declare devopen_loop.simps [code]

text \<open>The error raised, if any, and the channel; it is rewound once the permission is granted.\<close>

definition devopen :: "surroundings \<Rightarrow> Devgen option \<Rightarrow> Chan \<Rightarrow> u64 \<Rightarrow> Dirtab list \<Rightarrow> (dev_error option \<times> Chan) option" where
  "devopen v g c omode tab = do {
     granted \<leftarrow> devopen_loop v c omode (\<lambda>i. gen_of v g c None tab (Some i)) 0;
     Some (if \<not> granted then (Some Eperm, c)
       else let c = c\<lparr>c_offset := 0\<rparr> in
         if is_dir (c_qid c) \<and> omode \<noteq> OREAD then (Some Eperm, c)
         else case openmode omode of
           Inl e \<Rightarrow> (Some e, c)
         | Inr mode \<Rightarrow> (None, c\<lparr>c_mode := mode, c_flag := c_flag c OR COPEN\<rparr>)) }"

section \<open>Reading and writing blocks\<close>

text \<open>The device's own \<^verbatim>\<open>read\<close> and \<^verbatim>\<open>write\<close> are arguments; \<^verbatim>\<open>read\<close> gives the bytes that it put at \<^verbatim>\<open>bp->wp\<close>.\<close>

definition devbread :: "(Chan \<Rightarrow> int \<Rightarrow> int \<Rightarrow> bytes kern) \<Rightarrow> Chan \<Rightarrow> int \<Rightarrow> int \<Rightarrow> Block kern" where
  "devbread rd c n offset =
     and_then (allocb n) (\<lambda>bp.
     on_Error (and_then (rd c n offset) (\<lambda>x. bput bp x)) (freeb bp))"

definition devbwrite :: "(Chan \<Rightarrow> bytes \<Rightarrow> int \<Rightarrow> int kern) \<Rightarrow> Chan \<Rightarrow> Block \<Rightarrow> int \<Rightarrow> int kern" where
  "devbwrite wr c bp offset =
     and_then (on_Error (and_then (bread bp (b_rp bp) (BLEN bp)) (\<lambda>x. wr c x offset)) (freeb bp)) (\<lambda>n.
     seq (freeb bp)
    (ret n))"

end
