(* ===== verification/Dev_Rules.thy ===== *)
theory Dev_Rules
  imports Dev Dir_Props
begin

unbundle bit_operations_syntax

text \<open>
  Rules for the shared device routines: the contracts that a generator of entries has to keep for walking and for listing, what the routines do under
  them, and that tables keep them.
\<close>

section \<open>Walks\<close>

text \<open>
  What a generator promises to \<^verbatim>\<open>devwalk\<close>: \<open>step nc n\<close> is the file \<open>n\<close> of the directory that \<open>nc\<close> is in, \<open>n\<close> not being \<^verbatim>\<open>.\<close>,
  and the search for it ends.
\<close>

locale walkable =
  fixes v :: surroundings and g :: "Devgen option" and tab :: "Dirtab list" and step :: "Chan \<Rightarrow> bytes \<Rightarrow> Qid option"
  assumes parent: "\<exists>d. gen_of v g nc None tab None = Gentry d \<and> step nc dotdot = Some (dqid d)"
    and child: "n \<noteq> dot \<Longrightarrow> n \<noteq> dotdot \<Longrightarrow>
      (if g = None \<and> qpath (c_qid nc) \<noteq> qpath (t_qid (tab ! 0)) then Some None
       else find_entry (\<lambda>i. gen_of v g nc (Some n) tab (Some i)) n 0) = Some (step nc n)"

text \<open>The qids along a path, as far as it exists.\<close>

definition walk_step :: "(Chan \<Rightarrow> bytes \<Rightarrow> Qid option) \<Rightarrow> Chan \<Rightarrow> bytes \<Rightarrow> Qid option" where
  "walk_step step nc n = (if \<not> is_dir (c_qid nc) then None else if n = dot then Some (c_qid nc) else step nc n)"

fun trail :: "(Chan \<Rightarrow> bytes \<Rightarrow> Qid option) \<Rightarrow> Chan \<Rightarrow> bytes list \<Rightarrow> Qid list" where
  "trail step nc [] = []"
| "trail step nc (n # ns) = (case walk_step step nc n of None \<Rightarrow> [] | Some q \<Rightarrow> q # trail step (nc\<lparr>c_qid := q\<rparr>) ns)"

lemma length_trail: "length (trail step nc ns) \<le> length ns"
  by (induction ns arbitrary: nc) (auto split: option.splits)

context walkable
begin

lemma walk_loop_trail:
  "\<exists>err. walk_loop v g tab ns nc qs = Some (
     if ns \<noteq> [] \<and> qs @ trail step nc ns = [] then Inl (if is_dir (c_qid nc) then Enonexist else Enotdir)
     else Inr (nc\<lparr>c_qid := last (c_qid nc # trail step nc ns)\<rparr>, qs @ trail step nc ns, err))"
proof (induction ns arbitrary: nc qs)
  case (Cons n ns)
  obtain d where d: "gen_of v g nc None tab None = Gentry d" "step nc dotdot = Some (dqid d)" using parent by blast
  show ?case
  proof (cases "walk_step step nc n")
    case None
    then have "n \<noteq> dot \<or> \<not> is_dir (c_qid nc)" "n \<noteq> dotdot \<or> \<not> is_dir (c_qid nc)" using d(2) by (auto simp: walk_step_def)
    then show ?thesis using None child [of n nc] by (auto simp: walk_step_def split: if_splits)
  next
    case (Some q)
    then have go: "walk_loop v g tab (n # ns) nc qs = walk_loop v g tab ns (nc\<lparr>c_qid := q\<rparr>) (qs @ [q])"
      using child [of n nc] d by (cases "n = dot"; cases "n = dotdot") (auto simp: walk_step_def split: if_splits)
    show ?thesis using Cons.IH [of "nc\<lparr>c_qid := q\<rparr>" "qs @ [q]"] Some unfolding go by simp
  qed
qed simp

lemma devwalk_trail:
  assumes "devclone old c = Some nc"
  shows "devwalk v old g c None ns tab = Some (
     if ns \<noteq> [] \<and> \<not> is_dir (c_qid c) then Raised Enotdir
     else if ns \<noteq> [] \<and> trail step nc ns = [] then Nil_walk Enonexist
     else Walked (trail step nc ns) (if length (trail step nc ns) < length ns then None
       else Some (nc\<lparr>c_qid := last (c_qid nc # trail step nc ns), c_dev := c_dev c\<rparr>)))"
proof -
  have "c_qid nc = c_qid c" using assms by (auto simp: devclone_def split: if_splits)
  then show ?thesis
    using walk_loop_trail [of ns nc "[]"] assms by (auto simp: devwalk_def)
qed

end

text \<open>A table: only its directory has children.\<close>

definition table_step :: "Dirtab list \<Rightarrow> Chan \<Rightarrow> bytes \<Rightarrow> Qid option" where
  "table_step tab nc n = map_option (\<lambda>q. if c_flag nc AND CMSG \<noteq> 0 then q\<lparr>qtype := qtype q OR QTMOUNT\<rparr> else q)
     (if n = dotdot then Some (t_qid (tab ! 0))
      else if qpath (c_qid nc) \<noteq> qpath (t_qid (tab ! 0)) then None
      else map_option t_qid (find (\<lambda>t. t_name t = n) (tl tab)))"

lemma dqid_tab_entry: "dqid (tab_entry v c t) = (if c_flag c AND CMSG \<noteq> 0 then (t_qid t)\<lparr>qtype := qtype (t_qid t) OR QTMOUNT\<rparr> else t_qid t)"
  by (simp add: tab_entry_def devdir_def Let_def)

lemma dname_tab_entry [simp]: "dname (tab_entry v c t) = Some (t_name t)"
  by (simp add: tab_entry_def devdir_def Let_def)

lemma find_named: "find (\<lambda>t. t_name t = n) ts = Some t \<Longrightarrow> t_name t = n"
  by (auto simp: find_Some_iff)

interpretation table: walkable v None tab "table_step tab" for v tab
proof
  show "\<exists>d. gen_of v None nc None tab None = Gentry d \<and> table_step tab nc dotdot = Some (dqid d)" for nc
    by (simp add: gen_of_def devgen_def table_step_def dqid_tab_entry)
  show "(if None = None \<and> qpath (c_qid nc) \<noteq> qpath (t_qid (tab ! 0)) then Some None
       else find_entry (\<lambda>i. gen_of v None nc (Some n) tab (Some i)) n 0) = Some (table_step tab nc n)"
    if "n \<noteq> dotdot" for n nc
  proof (cases "find (\<lambda>t. t_name t = n) (tl tab)")
    case None
    then show ?thesis using that by (subst find_entry.simps) (simp add: gen_of_def devgen_def table_step_def)
  next
    case (Some t)
    then show ?thesis using that find_named [OF Some]
      by (subst find_entry.simps) (simp add: gen_of_def devgen_def table_step_def dqid_tab_entry)
  qed
qed

section \<open>Listings\<close>

text \<open>What a generator promises to \<^verbatim>\<open>devdirread\<close>: \<open>entries c\<close> are the entries of the directory \<open>c\<close>, wherever its index is.\<close>

locale listing =
  fixes gen :: Devgen and tab :: "Dirtab list" and entries :: "Chan \<Rightarrow> cstr Dir list"
  assumes lists: "gen c None tab (Some i) = (if i < length (entries c) then Gentry (entries c ! i) else Gend)"
    and entries_dri [simp]: "entries (c\<lparr>c_dri := i\<rparr>) = entries c"

fun fitting :: "nat \<Rightarrow> cstr Dir list \<Rightarrow> cstr Dir list" where
  "fitting n [] = []"
| "fitting n (d # ds) = (if sizeD2M d \<le> n then d # fitting (n - sizeD2M d) ds else [])"

abbreviation wires :: "cstr Dir list \<Rightarrow> bytes" where
  "wires ds \<equiv> concat (map dirwire ds)"

lemma fitting_prefix: "fitting n ds = take (length (fitting n ds)) ds"
  by (induction n ds rule: fitting.induct) auto

lemma length_wires_fitting: "length (wires (fitting n ds)) \<le> n"
  by (induction n ds rule: fitting.induct) (auto simp: length_dirwire)

lemma drop_eq_ConsD:
  assumes "drop i xs = y # ys"
  shows "i < length xs" and "xs ! i = y" and "drop (Suc i) xs = ys"
proof -
  show i: "i < length xs" using assms by (metis drop_eq_Nil leI list.distinct(1))
  show "xs ! i = y" "drop (Suc i) xs = ys" using assms Cons_nth_drop_Suc [OF i] by simp_all
qed

lemma sizeD2M_ge: "49 \<le> sizeD2M d"
  by (simp add: sizeD2M_def)

lemma conv_dir_fits:
  assumes "sizeD2M d \<le> n" and "n \<le> length buf"
  shows "conv_dir d n buf = Some (sizeD2M d, dirwire d @ drop (sizeD2M d) buf)"
proof -
  have "sizeD2M d \<le> length (take n buf)" using assms by simp
  note w = convD2M_writes [OF this]
  have "drop (sizeD2M d) (take n buf) @ drop n buf = drop (sizeD2M d) buf"
    using append_take_drop_id [of "n - sizeD2M d" "drop (sizeD2M d) buf"] assms(1) by (simp add: drop_take)
  then show ?thesis
    unfolding conv_dir_def w using assms by (simp add: wrote_def at_start_def overwrite_def length_dirwire)
qed

lemma conv_dir_short:
  assumes "n < sizeD2M d" and "n \<le> length buf"
  obtains k b where "conv_dir d n buf = Some (k, b)" and "k \<le> 2" and "length b = length buf" and "drop n b = drop n buf"
proof (cases "n < 2")
  case True
  then have "convD2M d (at_start (take n buf)) = (Inl (Return 0), at_start (take n buf))"
    using assms(2) by (simp add: convD2M_def and_then_fetch raise_def at_start_def)
  then show ?thesis using that [of 0 buf] by (simp add: conv_dir_def at_start_def)
next
  case False
  let ?c = "wrote (at_start (take n buf)) (PBIT16 (of_nat (sizeD2M d - 2)))"
  have "convD2M d (at_start (take n buf)) = (Inl (Return 2), ?c)" by (rule convD2M_short) (use False assms in auto)
  moreover have "length (cbuf ?c) = n" using False assms by (simp add: wrote_def at_start_def)
  ultimately show ?thesis using that [of 2 "cbuf ?c @ drop n buf"] assms(2) by (simp add: conv_dir_def)
qed

context listing
begin

lemma dirread_loop_fitting:
  assumes "drop (c_dri c) (entries c) = es" and "m \<le> n" and "n \<le> length buf"
  shows "\<exists>buf'. dirread_loop gen tab n c m buf = Some (
       if m = 0 \<and> 0 < n \<and> es \<noteq> [] \<and> fitting n es = [] then Inl Eshort else Inr (m + length (wires (fitting (n - m) es))),
       c\<lparr>c_dri := c_dri c + length (fitting (n - m) es)\<rparr>, buf') \<and>
     take (m + length (wires (fitting (n - m) es))) buf' = take m buf @ wires (fitting (n - m) es) \<and>
     length buf' = length buf \<and> drop n buf' = drop n buf"
  using assms
proof (induction es arbitrary: c m buf)
  case Nil
  then have "dirread_loop gen tab n c m buf = Some (Inr m, c, buf)" by (subst dirread_loop.simps) (simp add: lists)
  then show ?case by simp
next
  case (Cons d es)
  have i: "c_dri c < length (entries c)" "entries c ! c_dri c = d" "drop (Suc (c_dri c)) (entries c) = es"
    using drop_eq_ConsD [OF Cons.prems(1)] .
  show ?case
  proof (cases "sizeD2M d \<le> n - m")
    case True
    let ?b = "take m buf @ dirwire d @ drop (m + sizeD2M d) buf"
    have sz: "49 \<le> sizeD2M d" "m + sizeD2M d \<le> n" using True Cons.prems(2) sizeD2M_ge [of d] by linarith+
    have "conv_dir d (n - m) (drop m buf) = Some (sizeD2M d, dirwire d @ drop (m + sizeD2M d) buf)"
      using conv_dir_fits [OF True, of "drop m buf"] Cons.prems(3) by (simp add: add.commute)
    then have go: "dirread_loop gen tab n c m buf = dirread_loop gen tab n (c\<lparr>c_dri := Suc (c_dri c)\<rparr>) (m + sizeD2M d) ?b"
      using sz i by (subst dirread_loop.simps) (simp add: lists)
    have b: "length ?b = length buf" "drop n ?b = drop n buf" "take (m + sizeD2M d) ?b = take m buf @ dirwire d"
      using sz Cons.prems(3) by (simp_all add: length_dirwire)
    have "drop (c_dri (c\<lparr>c_dri := Suc (c_dri c)\<rparr>)) (entries (c\<lparr>c_dri := Suc (c_dri c)\<rparr>)) = es" using i(3) by simp
    from Cons.IH [OF this sz(2), of ?b] Cons.prems(3) b sz True
    show ?thesis unfolding go by (simp add: length_dirwire add.assoc)
  next
    case False
    obtain k b where k: "conv_dir d (n - m) (drop m buf) = Some (k, b)" "k \<le> 2" "length b = length buf - m" "drop (n - m) b = drop n buf"
      by (rule conv_dir_short [of "n - m" d "drop m buf"]) (use False Cons.prems in auto)
    show ?thesis
    proof (cases "m < n")
      case True
      then have "dirread_loop gen tab n c m buf = Some (if m = 0 then Inl Eshort else Inr m, c, take m buf @ b)"
        using k(1,2) i by (subst dirread_loop.simps) (simp add: lists)
      then show ?thesis using False k(3,4) True Cons.prems(3) by (cases "m = 0") simp_all
    next
      case False': False
      then have "dirread_loop gen tab n c m buf = Some (Inr m, c, buf)" by (subst dirread_loop.simps) simp
      then show ?thesis using False False' Cons.prems(2,3) by auto
    qed
  qed
qed

end

context listing
begin

text \<open>The other loops find the first entry of the channel's own path.\<close>

lemma devopen_loop_finds:
  "drop i (entries c) = es \<Longrightarrow> devopen_loop v c omode (\<lambda>i. gen c None tab (Some i)) i =
     Some (case find (\<lambda>d. qpath (c_qid c) = qpath (dqid d)) es of None \<Rightarrow> True | Some d \<Rightarrow> devpermcheck v (the (duid d)) (dmode d) omode)"
proof (induction es arbitrary: i)
  case Nil
  then show ?case by (subst devopen_loop.simps) (simp add: lists)
next
  case (Cons d es)
  have i: "i < length (entries c)" "entries c ! i = d" "drop (Suc i) (entries c) = es" using drop_eq_ConsD [OF Cons.prems] .
  have g: "gen c None tab (Some i) = Gentry d" using i by (simp add: lists)
  show ?case by (subst devopen_loop.simps) (simp add: g Cons.IH [OF i(3)])
qed

lemma devstat_loop_finds:
  "drop i (entries c) = es \<Longrightarrow> devstat_loop v c n db (\<lambda>i. gen c None tab (Some i)) i = (case find (\<lambda>d. qpath (c_qid c) = qpath (dqid d)) es of
     None \<Rightarrow> if is_dir (c_qid c) then stat_out (devdir v c (c_qid c) (chan_elem c) 0 (eve v) (DMDIR OR 0x16D)) n db else Some (Inl Enonexist)
   | Some d \<Rightarrow> stat_out (if c_flag c AND CMSG \<noteq> 0 then d\<lparr>dmode := dmode d OR DMMOUNT\<rparr> else d) n db)"
proof (induction es arbitrary: i)
  case Nil
  then show ?case by (subst devstat_loop.simps) (simp add: lists)
next
  case (Cons d es)
  have i: "i < length (entries c)" "entries c ! i = d" "drop (Suc i) (entries c) = es" using drop_eq_ConsD [OF Cons.prems] .
  have g: "gen c None tab (Some i) = Gentry d" using i by (simp add: lists)
  show ?case by (subst devstat_loop.simps) (simp add: g Cons.IH [OF i(3)])
qed

end

text \<open>An encoding never stores outside of its buffer: \<^verbatim>\<open>devstat\<close> returns or raises an error.\<close>

lemma stat_out_returns: "n \<le> length db \<Longrightarrow> \<exists>r. stat_out d n db = Some r"
  using conv_dir_fits [of d n db] conv_dir_short [of n d db] by (cases "sizeD2M d \<le> n") (fastforce simp: stat_out_def)+

definition table_entries :: "surroundings \<Rightarrow> Dirtab list \<Rightarrow> Chan \<Rightarrow> cstr Dir list" where
  "table_entries v tab c = map (tab_entry v c) (tl tab)"

interpretation table_list: listing "devgen v" tab "table_entries v tab" for v tab
proof
  show "devgen v c None tab (Some i) = (if i < length (table_entries v tab c) then Gentry (table_entries v tab c ! i) else Gend)" for c i
    by (cases tab) (auto simp: devgen_def table_entries_def)
  show "table_entries v tab (c\<lparr>c_dri := i\<rparr>) = table_entries v tab c" for c i
    by (simp add: table_entries_def tab_entry_def devdir_def cong: map_cong)
qed

end
