(* ===== verification/Dev_Props.thy ===== *)
theory Dev_Props
  imports Dev_Rules
begin

unbundle bit_operations_syntax

text \<open>The properties of the shared device routines, for devices that describe their files with a table.\<close>

section \<open>Properties\<close>

text \<open>
  C22. \<^verbatim>\<open>devwalk\<close> over a table follows the names as far as they lead: from a directory \<^verbatim>\<open>.\<close> stays, \<^verbatim>\<open>..\<close> goes to the
  table's own directory, and any other name, from that directory only, to the first entry of that name. It returns the qids on the
  way and, if all names were found, a channel to the last; nil if not even the first was found; and it raises an error if
  it does not start in a directory. The walk always ends.
\<close>

theorem devwalk_table:
  assumes "devclone old c = Some nc"
  shows "devwalk v old None c None ns tab = Some (
     if ns \<noteq> [] \<and> \<not> is_dir (c_qid c) then Raised Enotdir
     else if ns \<noteq> [] \<and> trail (table_step tab) nc ns = [] then Nil_walk Enonexist
     else Walked (trail (table_step tab) nc ns) (if length (trail (table_step tab) nc ns) < length ns then None
       else Some (nc\<lparr>c_qid := last (c_qid nc # trail (table_step tab) nc ns), c_dev := c_dev c\<rparr>)))"
  using table.devwalk_trail [OF assms] .

definition sample_tab :: "Dirtab list" where
  "sample_tab =
    [\<lparr>t_name = [46], t_qid = mkqid 0 0 QTDIR, t_length = 0, t_perm = DMDIR OR 0x16D\<rparr>,
     \<lparr>t_name = [97], t_qid = mkqid 1 0 0, t_length = 0, t_perm = 0x180\<rparr>,
     \<lparr>t_name = [98], t_qid = mkqid 2 0 0, t_length = 5, t_perm = 0x180\<rparr>]"

definition sample_root :: Chan where
  "sample_root = (newchan (0, mkqid 0 0 QTDIR))\<lparr>c_dev := Some 99\<rparr>"

definition sample_env :: surroundings where
  "sample_env = \<lparr>eve = [103], user = [103], in_eve = True, seconds = 0, kerndate = 0\<rparr>"

lemma sample_root_clone: "devclone (0, mkqid 0 0 0) sample_root = Some (newchan (0, mkqid 0 0 QTDIR))"
  by (simp add: devclone_def sample_root_def newchan_def)

lemma sample_trail: "trail (table_step sample_tab) (newchan (0, mkqid 0 0 QTDIR)) [[46], [98], [97]] = [mkqid 0 0 QTDIR, mkqid 2 0 0]"
  by (simp add: walk_step_def table_step_def sample_tab_def newchan_def mkqid_def is_dir_def)

theorem devwalk_table_witness:
  "devwalk sample_env (0, mkqid 0 0 0) None sample_root None [[46], [98], [97]] sample_tab = Some (Walked [mkqid 0 0 QTDIR, mkqid 2 0 0] None)"
  using devwalk_table [OF sample_root_clone, of sample_env "[[46], [98], [97]]" sample_tab] sample_trail
  by (simp add: sample_root_def newchan_def mkqid_def is_dir_def)

text \<open>
  C23. \<^verbatim>\<open>devdirread\<close> over a table returns whole entries: as many of those from the channel's index on as fit into the \<open>n\<close> bytes, encoded one after
  the other, and advances the index by their number, so that the next read goes on with the first that is missing. It returns nothing
  at the end of the table, and raises an error if the next entry alone does not fit. It stores nothing outside of the \<open>n\<close> bytes.
\<close>

theorem devdirread_table:
  assumes "n \<le> length buf" and "es = drop (c_dri c) (table_entries v tab c)"
  shows "\<exists>buf'. devdirread v None c buf n tab = Some (
       if 0 < n \<and> es \<noteq> [] \<and> fitting n es = [] then Inl Eshort else Inr (length (wires (fitting n es))),
       c\<lparr>c_dri := c_dri c + length (fitting n es)\<rparr>, buf') \<and>
     take (length (wires (fitting n es))) buf' = wires (fitting n es) \<and> length buf' = length buf \<and> drop n buf' = drop n buf"
  using table_list.dirread_loop_fitting [OF assms(2) [symmetric] le0 assms(1)]
  by (simp only: devdirread_def gen_of_def option.case add_0 diff_zero take_0 append_Nil simp_thms)

lemma sample_fitting: "fitting 60 (table_entries sample_env sample_tab sample_root) = [tab_entry sample_env sample_root (sample_tab ! 1)]"
  by (simp add: table_entries_def sample_tab_def tab_entry_def devdir_def sizeD2M_def dir_strings_def strlen0_def sample_env_def Let_def)

theorem devdirread_table_witness:
  "\<exists>buf'. devdirread sample_env None sample_root (replicate 60 0) 60 sample_tab = Some (Inr 53, sample_root\<lparr>c_dri := 1\<rparr>, buf') \<and>
     take 53 buf' = dirwire (tab_entry sample_env sample_root (sample_tab ! 1))"
proof -
  have d: "c_dri sample_root = 0" by (simp add: sample_root_def newchan_def)
  have "length (dirwire (tab_entry sample_env sample_root (sample_tab ! 1))) = 53"
    by (simp add: length_dirwire sample_tab_def tab_entry_def devdir_def sizeD2M_def dir_strings_def strlen0_def sample_env_def Let_def)
  then show ?thesis
    using devdirread_table [of 60 "replicate 60 0" _ sample_root sample_env sample_tab, OF _ refl] by (simp add: d sample_fitting) blast
qed

end
