(* ===== verification/Pipes.thy ===== *)
theory Pipes
  imports Dev Queues
begin

unbundle bit_operations_syntax

text \<open>
  Pipes, \<^verbatim>\<open>sys/src/kern/port/devpipe.c\<close>: two queues, and the files \<^verbatim>\<open>data\<close> and \<^verbatim>\<open>data1\<close>, what is written to one being read from
  the other. Channels refer to their pipe by \<^verbatim>\<open>aux\<close>. The queue lock of a pipe is a flag: it is held for no longer than
  one operation, none of which sleeps with it.

  Channels are walked with \<^verbatim>\<open>nc\<close> nil, as all of \<^verbatim>\<open>chan.c\<close> does.
\<close>

section \<open>State\<close>

datatype side = Data0 | Data1

fun other :: "side \<Rightarrow> side" where
  "other Data0 = Data1"
| "other Data1 = Data0"

record Pipe =
  pp_locked :: bool
  pp_ref :: int
  pp_path :: u32
  pp_q :: "side \<Rightarrow> nat"
  pp_qref :: "side \<Rightarrow> int"

text \<open>The kernel, the pipes by address, \<^verbatim>\<open>pipealloc.path\<close>, and the notes posted to the running process.\<close>

record pst =
  pw :: world
  pipes :: "nat \<rightharpoonup> Pipe"
  pipepath :: u32
  pnotes :: "string list"

datatype pexc = Kernel kexc | Device dev_error

type_synonym 'a pipeop = "(pst, pexc, 'a) sem"

definition kern_op :: "'a kern \<Rightarrow> 'a pipeop" where
  "kern_op m = (\<lambda>s. case m (pw s) of
     (Inl e, w) \<Rightarrow> (Inl (Kernel e), s\<lparr>pw := w\<rparr>)
   | (Inr x, w) \<Rightarrow> (Inr x, s\<lparr>pw := w\<rparr>))"

definition pf :: "nat \<Rightarrow> (Pipe \<Rightarrow> 'a) \<Rightarrow> 'a pipeop" where
  "pf p f = (\<lambda>s. case pipes s p of None \<Rightarrow> (Inl (Kernel kexc.Fault), s) | Some r \<Rightarrow> (Inr (f r), s))"

definition pset :: "nat \<Rightarrow> (Pipe \<Rightarrow> Pipe) \<Rightarrow> unit pipeop" where
  "pset p f = (\<lambda>s. case pipes s p of None \<Rightarrow> (Inl (Kernel kexc.Fault), s)
     | Some r \<Rightarrow> (Inr (), s\<lparr>pipes := (pipes s)(p \<mapsto> f r)\<rparr>))"

definition plock :: "nat \<Rightarrow> unit pipeop" where
  "plock p = and_then (pf p pp_locked) (\<lambda>l. if l then raise (Kernel Blocked) else pset p (\<lambda>r. r\<lparr>pp_locked := True\<rparr>))"

definition punlock :: "nat \<Rightarrow> unit pipeop" where
  "punlock p = pset p (\<lambda>r. r\<lparr>pp_locked := False\<rparr>)"

definition count :: "side \<Rightarrow> int \<Rightarrow> Pipe \<Rightarrow> Pipe" where
  "count i n r = r\<lparr>pp_qref := (pp_qref r)(i := pp_qref r i + n)\<rparr>"

text \<open>\<^verbatim>\<open>jehanne_free\<close> of a queue or a pipe: the structure is gone, nothing else happens.\<close>

definition free_queue :: "nat \<Rightarrow> unit kern" where
  "free_queue q = modify (\<lambda>w. w\<lparr>kqueues := (kqueues w)(q := None)\<rparr>)"

definition free_pipe :: "nat \<Rightarrow> unit pipeop" where
  "free_pipe p = modify (\<lambda>s. s\<lparr>pipes := (pipes s)(p := None)\<rparr>)"

section \<open>Names\<close>

definition PIPETYPE :: "u64 \<Rightarrow> u32" where "PIPETYPE x = ucast x AND 0x1f"
definition PIPEID :: "u64 \<Rightarrow> u32" where "PIPEID x = drop_bit 5 (ucast x)"
definition PIPEQID :: "u32 \<Rightarrow> u32 \<Rightarrow> u64" where "PIPEQID i t = ucast (push_bit 5 i OR t)"

abbreviation Qdir :: u32 where "Qdir \<equiv> 0"

fun file_type :: "side \<Rightarrow> u32" where
  "file_type Data0 = 1"
| "file_type Data1 = 2"

fun file_name :: "side \<Rightarrow> bytes" where
  "file_name Data0 = [100, 97, 116, 97]"
| "file_name Data1 = [100, 97, 116, 97, 49]"

text \<open>The \<^verbatim>\<open>switch(PIPETYPE(c->qid.path))\<close> of every operation.\<close>

definition side_of :: "Chan \<Rightarrow> side option" where
  "side_of c = (if PIPETYPE (qpath (c_qid c)) = 1 then Some Data0 else if PIPETYPE (qpath (c_qid c)) = 2 then Some Data1 else None)"

definition pipedir :: "Dirtab list" where
  "pipedir =
    [\<lparr>t_name = [46], t_qid = mkqid 0 0 QTDIR, t_length = 0, t_perm = DMDIR OR 0x140\<rparr>,
     \<lparr>t_name = file_name Data0, t_qid = mkqid 1 0 0, t_length = 0, t_perm = 0x180\<rparr>,
     \<lparr>t_name = file_name Data1, t_qid = mkqid 2 0 0, t_length = 0, t_perm = 0x180\<rparr>]"

section \<open>Operations\<close>

abbreviation PIPEQSIZE :: int where "PIPEQSIZE \<equiv> 262144"
abbreviation sizeof_Pipe :: int where "sizeof_Pipe \<equiv> 120"

definition no_memory :: "'a pipeop" where
  "no_memory = raise (Kernel (Error ''no free memory''))"

text \<open>A pipe's address is the number of its allocation, as for queues.\<close>

definition new_pipe :: "nat option pipeop" where
  "new_pipe = and_then (kern_op (fetch kcalls)) (\<lambda>k.
     and_then (kern_op (malloc sizeof_Pipe)) (\<lambda>a. case a of
       None \<Rightarrow> ret None
     | Some _ \<Rightarrow> seq (modify (\<lambda>s. s\<lparr>pipes := (pipes s)(k \<mapsto>
         \<lparr>pp_locked = False, pp_ref = 0, pp_path = 0, pp_q = (\<lambda>_. 0), pp_qref = (\<lambda>_. 0)\<rparr>)\<rparr>)) (ret (Some k))))"

text \<open>The rest of \<^verbatim>\<open>pipeattach\<close> from each allocation on.\<close>

definition name_pipe :: "Chan \<Rightarrow> nat \<Rightarrow> Chan pipeop" where
  "name_pipe c p =
     seq (modify (\<lambda>s. s\<lparr>pipepath := pipepath s + 1\<rparr>))
    (and_then (fetch pipepath) (\<lambda>path.
     seq (pset p (\<lambda>r. r\<lparr>pp_path := path\<rparr>))
    (ret (c\<lparr>c_qid := mkqid (PIPEQID (2 * path) Qdir) 0 QTDIR, c_aux := p, c_devno := 0\<rparr>))))"

definition second_queue :: "Chan \<Rightarrow> nat \<Rightarrow> nat \<Rightarrow> Chan pipeop" where
  "second_queue c p q0 = and_then (kern_op (qopen PIPEQSIZE 0 False)) (\<lambda>nq. case nq of
     None \<Rightarrow> seq (kern_op (free_queue q0)) (seq (free_pipe p) no_memory)
   | Some q1 \<Rightarrow> seq (pset p (\<lambda>r. r\<lparr>pp_q := (pp_q r)(Data1 := q1)\<rparr>)) (name_pipe c p))"

definition first_queue :: "Chan \<Rightarrow> nat \<Rightarrow> Chan pipeop" where
  "first_queue c p = and_then (kern_op (qopen PIPEQSIZE 0 False)) (\<lambda>nq. case nq of
     None \<Rightarrow> seq (free_pipe p) no_memory
   | Some q0 \<Rightarrow> seq (pset p (\<lambda>r. r\<lparr>pp_q := (pp_q r)(Data0 := q0)\<rparr>)) (second_queue c p q0))"

definition pipeattach :: "u64 \<times> Qid \<Rightarrow> bytes option \<Rightarrow> Chan pipeop" where
  "pipeattach old spec = (let c = devattach old 124 (\<lambda>dc. [word_of_int dc]) spec in
     and_then new_pipe (\<lambda>np. case np of
       None \<Rightarrow> no_memory
     | Some p \<Rightarrow> seq (pset p (\<lambda>r. r\<lparr>pp_ref := 1\<rparr>)) (first_queue c p)))"

text \<open>The generator, given the lengths of the queues.\<close>

definition pipegen :: "surroundings \<Rightarrow> (side \<Rightarrow> int) \<Rightarrow> Devgen" where
  "pipegen v lens c name tab i = (case i of
     None \<Rightarrow> Gentry (devdir v c (c_qid c) [35, 124] 0 (eve v) (DMDIR OR 0x16D))
   | Some i \<Rightarrow>
     if i + 1 \<ge> length tab then Gend
     else let t = tab ! (i + 1);
         len = (if ucast (qpath (t_qid t)) = (1 :: u32) then word_of_int (lens Data0)
           else if ucast (qpath (t_qid t)) = (2 :: u32) then word_of_int (lens Data1) else t_length t);
         q = mkqid (PIPEQID (PIPEID (qpath (c_qid c))) (ucast (qpath (t_qid t)))) 0 QTFILE
       in Gentry (devdir v c q (t_name t) len (eve v) (t_perm t)))"

definition pipe_lens :: "nat \<Rightarrow> (side \<Rightarrow> int) pipeop" where
  "pipe_lens p =
     and_then (pf p pp_q) (\<lambda>qs.
     and_then (kern_op (qlen (qs Data0))) (\<lambda>l0.
     and_then (kern_op (qlen (qs Data1))) (\<lambda>l1.
     ret (\<lambda>i. if i = Data0 then l0 else l1))))"

text \<open>The new channel of a walk is counted; the result is as of \<^verbatim>\<open>devwalk\<close>, and an error raised there is raised here.\<close>

definition count_clone :: "Chan \<Rightarrow> unit pipeop" where
  "count_clone c =
     seq (plock (c_aux c))
    (seq (pset (c_aux c) (\<lambda>r. r\<lparr>pp_ref := pp_ref r + 1\<rparr>))
    (seq (if c_flag c AND COPEN \<noteq> 0 then (case side_of c of None \<Rightarrow> ret () | Some i \<Rightarrow> pset (c_aux c) (count i 1)) else ret ())
    (punlock (c_aux c))))"

definition pipewalk :: "surroundings \<Rightarrow> u64 \<times> Qid \<Rightarrow> Chan \<Rightarrow> bytes list \<Rightarrow> walked pipeop" where
  "pipewalk v old c name =
     and_then (pipe_lens (c_aux c)) (\<lambda>lens. case devwalk v old (Some (pipegen v lens)) c None name pipedir of
       None \<Rightarrow> raise (Kernel Blocked)
     | Some (Raised e) \<Rightarrow> raise (Device e)
     | Some Walk_panic \<Rightarrow> raise (Kernel Panic)
     | Some (Nil_walk e) \<Rightarrow> ret (Nil_walk e)
     | Some (Walked qs None) \<Rightarrow> ret (Walked qs None)
     | Some (Walked qs (Some nc)) \<Rightarrow> seq (count_clone c) (ret (Walked qs (Some nc))))"

definition pipestat :: "surroundings \<Rightarrow> Chan \<Rightarrow> nat \<Rightarrow> bytes \<Rightarrow> (nat \<times> bytes) pipeop" where
  "pipestat v c n db =
     and_then (if PIPETYPE (qpath (c_qid c)) = Qdir then ret (devdir v c (c_qid c) [46] 0 (eve v) (DMDIR OR 0x16D))
       else case side_of c of
         Some i \<Rightarrow> and_then (pf (c_aux c) (\<lambda>r. pp_q r i)) (\<lambda>q. and_then (kern_op (qlen q)) (\<lambda>len.
           ret (devdir v c (c_qid c) (file_name i) (word_of_int len) (eve v) 0x180)))
       | None \<Rightarrow> raise (Kernel Panic)) (\<lambda>dir.
     case conv_dir dir n db of
       None \<Rightarrow> raise (Kernel kexc.Fault)
     | Some (m, db) \<Rightarrow> if m < 2 then raise (Device Eshortstat) else ret (m, db))"

definition pipeopen :: "Chan \<Rightarrow> u64 \<Rightarrow> Chan pipeop" where
  "pipeopen c omode =
     (if qtype (c_qid c) AND QTDIR \<noteq> 0 then
        (if omode \<noteq> OREAD then raise (Device Ebadarg)
         else ret (c\<lparr>c_mode := omode, c_flag := c_flag c OR COPEN, c_offset := 0\<rparr>))
      else let p = c_aux c in
        seq (plock p)
       (seq (case side_of c of None \<Rightarrow> ret () | Some i \<Rightarrow> pset p (count i 1))
       (seq (punlock p)
       (case openmode omode of
          Inl e \<Rightarrow> raise (Device e)
        | Inr mode \<Rightarrow> ret (c\<lparr>c_mode := mode, c_flag := c_flag c OR COPEN, c_offset := 0, c_iounit := of_nat Maxatomic\<rparr>)))))"

text \<open>The last close of one side: the other may read what is left, and no more is written to this one.\<close>

definition hang_up :: "nat \<Rightarrow> side \<Rightarrow> unit pipeop" where
  "hang_up p i =
     seq (pset p (count i (-1)))
    (and_then (pf p (\<lambda>r. pp_qref r i)) (\<lambda>n.
     if n = 0 then
       and_then (pf p pp_q) (\<lambda>qs.
       seq (kern_op (qhangup (qs (other i)) []))
      (kern_op (qclose (qs i))))
     else ret ()))"

definition pipeclose :: "Chan \<Rightarrow> unit pipeop" where
  "pipeclose c = (let p = c_aux c in
     seq (plock p)
    (seq (if c_flag c AND COPEN \<noteq> 0 then (case side_of c of None \<Rightarrow> ret () | Some i \<Rightarrow> hang_up p i) else ret ())
    (and_then (pf p (\<lambda>r. (pp_qref r Data0 = 0 \<and> pp_qref r Data1 = 0, pp_q r))) (\<lambda>(both, qs).
     seq (if both then seq (kern_op (qreopen (qs Data0))) (kern_op (qreopen (qs Data1))) else ret ())
    (seq (pset p (\<lambda>r. r\<lparr>pp_ref := pp_ref r - 1\<rparr>))
    (and_then (pf p pp_ref) (\<lambda>n.
     if n = 0 then
       seq (punlock p)
      (seq (kern_op (free_queue (qs Data0)))
      (seq (kern_op (free_queue (qs Data1)))
      (free_pipe p)))
     else punlock p)))))))"

text \<open>
  The \<^verbatim>\<open>n\<close> bytes at \<^verbatim>\<open>va\<close> are given by the memory there; the result is what was read into it, and the channel, whose
  index in the directory may have moved.
\<close>

definition piperead :: "surroundings \<Rightarrow> Chan \<Rightarrow> bytes \<Rightarrow> (bytes \<times> Chan) pipeop" where
  "piperead v c va =
     (if PIPETYPE (qpath (c_qid c)) = Qdir then
        and_then (pipe_lens (c_aux c)) (\<lambda>lens. case devdirread v (Some (pipegen v lens)) c va (length va) pipedir of
          None \<Rightarrow> raise (Kernel Blocked)
        | Some (Inl e, c, va) \<Rightarrow> raise (Device e)
        | Some (Inr m, c, va) \<Rightarrow> ret (take m va, c))
      else case side_of c of
        Some i \<Rightarrow> and_then (pf (c_aux c) (\<lambda>r. pp_q r i)) (\<lambda>q. and_then (kern_op (qread q (int (length va)))) (\<lambda>x. ret (x, c)))
      | None \<Rightarrow> raise (Kernel Panic))"

text \<open>The default of \<^verbatim>\<open>pipebread\<close> is \<^verbatim>\<open>devbread\<close>, whose \<^verbatim>\<open>c->dev->read\<close> is \<^verbatim>\<open>piperead\<close>.\<close>

definition on_PError :: "'a pipeop \<Rightarrow> unit pipeop \<Rightarrow> 'a pipeop" where
  "on_PError m h = (\<lambda>s. case m s of
     (Inl (Kernel (Error e)), s') \<Rightarrow> seq h (raise (Kernel (Error e))) s'
   | (Inl (Device e), s') \<Rightarrow> seq h (raise (Device e)) s'
   | r \<Rightarrow> r)"

definition pipebread :: "surroundings \<Rightarrow> Chan \<Rightarrow> nat \<Rightarrow> Block list pipeop" where
  "pipebread v c n = (case side_of c of
     Some i \<Rightarrow> and_then (pf (c_aux c) (\<lambda>r. pp_q r i)) (\<lambda>q. and_then (kern_op (qbread q (int n))) (\<lambda>b. ret (case b of None \<Rightarrow> [] | Some b \<Rightarrow> [b])))
   | None \<Rightarrow>
       and_then (kern_op (allocb (int n))) (\<lambda>b.
       and_then (on_PError (and_then (piperead v c (take n (drop (nat (b_wp b)) (b_mem b)))) (\<lambda>(x, _). kern_op (bput b x))) (kern_op (freeb b))) (\<lambda>b.
       ret [b])))"

definition closed_pipe_note :: "Chan \<Rightarrow> nat \<Rightarrow> string \<Rightarrow> unit pipeop" where
  "closed_pipe_note c q e = and_then (kern_op (qf q (q_has Qclosed))) (\<lambda>closed.
     if c_flag c AND CMSG = 0 \<and> closed \<and> e = Ehungup
     then modify (\<lambda>s. s\<lparr>pnotes := pnotes s @ [''sys: write on closed pipe'']\<rparr>) else ret ())"

definition write_queue :: "Chan \<Rightarrow> nat \<Rightarrow> int kern \<Rightarrow> int pipeop" where
  "write_queue c q m = (\<lambda>s. case kern_op m s of
     (Inl (Kernel (Error e)), s') \<Rightarrow> seq (closed_pipe_note c q e) (raise (Kernel (Error e))) s'
   | r \<Rightarrow> r)"

definition pipewrite :: "Chan \<Rightarrow> bytes \<Rightarrow> int pipeop" where
  "pipewrite c va = (case side_of c of
     Some i \<Rightarrow> and_then (pf (c_aux c) (\<lambda>r. pp_q r (other i))) (\<lambda>q. write_queue c q (qwrite q va))
   | None \<Rightarrow> raise (Kernel Panic))"

definition pipebwrite :: "Chan \<Rightarrow> Block list \<Rightarrow> int pipeop" where
  "pipebwrite c bs = (case side_of c of
     Some i \<Rightarrow> and_then (pf (c_aux c) (\<lambda>r. pp_q r (other i))) (\<lambda>q. write_queue c q (qbwrite q bs))
   | None \<Rightarrow> raise (Kernel Panic))"

end
