(* ===== verification/Pipe_Rules.thy ===== *)
theory Pipe_Rules
  imports Pipes Queues_Props
begin

unbundle bit_operations_syntax

text \<open>
  Weakest-precondition rules for pipes: the queues of a pipe, and what closing a channel does to the pipe and to them.
\<close>

section \<open>Weakest preconditions\<close>

lemma wp_kern_op: "wp (kern_op m) Q E s = wp m (\<lambda>x w. Q x (s\<lparr>pw := w\<rparr>)) (\<lambda>e w. E (Kernel e) (s\<lparr>pw := w\<rparr>)) (pw s)"
  by (auto simp: wp_def kern_op_def split: prod.splits sum.splits)

lemma wp_pf: "pipes s p = Some r \<Longrightarrow> wp (pf p f) Q E s = Q (f r) s"
  by (simp add: wp_def pf_def)

lemma wp_pset: "pipes s p = Some r \<Longrightarrow> wp (pset p f) Q E s = Q () (s\<lparr>pipes := (pipes s)(p \<mapsto> f r)\<rparr>)"
  by (simp add: wp_def pset_def)

lemma wp_plock: "pipes s p = Some r \<Longrightarrow> \<not> pp_locked r \<Longrightarrow>
    wp (plock p) Q E s = Q () (s\<lparr>pipes := (pipes s)(p \<mapsto> r\<lparr>pp_locked := True\<rparr>)\<rparr>)"
  by (simp add: plock_def wp_flow wp_pf wp_pset)

lemma wp_punlock: "pipes s p = Some r \<Longrightarrow> wp (punlock p) Q E s = Q () (s\<lparr>pipes := (pipes s)(p \<mapsto> r\<lparr>pp_locked := False\<rparr>)\<rparr>)"
  by (simp add: punlock_def wp_pset)

lemma update_order [simp]: "s\<lparr>pipes := x, pw := w\<rparr> = s\<lparr>pw := w, pipes := x\<rparr>"
  "r\<lparr>pp_ref := n, pp_locked := b\<rparr> = r\<lparr>pp_locked := b, pp_ref := n\<rparr>"
  by simp_all

lemmas wp_pipe = wp_kern_op wp_pf wp_pset wp_plock wp_punlock wp_flow

section \<open>The queues of a pipe\<close>

definition has_queues :: "nat set \<Rightarrow> world \<Rightarrow> Pipe \<Rightarrow> (side \<Rightarrow> Queue) \<Rightarrow> bool" where
  "has_queues M w r qs \<longleftrightarrow> ok M w \<and> kilocks w = [] \<and> pp_q r Data0 \<noteq> pp_q r Data1 \<and> (\<forall>i. kqueues w (pp_q r i) = Some (qs i))"

lemma has_queues_apart: "has_queues M w r qs \<Longrightarrow> i \<noteq> j \<Longrightarrow> pp_q r i \<noteq> pp_q r j"
  by (cases i; cases j) (auto simp: has_queues_def)

lemma other_neq [simp]: "other i \<noteq> i" "i \<noteq> other i" "other (other i) = i"
  by (cases i; simp)+

lemma has_queues_changed:
  assumes "has_queues M w r qs" and "changed M (pp_q r i) x w w'"
  shows "has_queues M w' r (qs(i := x))"
  using assms has_queues_apart [OF assms(1), of _ i] by (auto simp: has_queues_def changed_def ctx_def)

lemma has_queues_cong: "pp_q r' = pp_q r \<Longrightarrow> has_queues M w r' qs = has_queues M w r qs"
  by (simp add: has_queues_def)

lemma has_queues_at: "has_queues M w r qs \<Longrightarrow> kqueues w (pp_q r i) = Some (qs i)"
  by (simp add: has_queues_def)

text \<open>A queue operation with a rule of the form of \<open>qclose_wp\<close>, on a queue of the pipe.\<close>

lemma queue_op_wp:
  assumes "has_queues M w r qs"
    and "ok M w \<Longrightarrow> kqueues w (pp_q r i) = Some (qs i) \<Longrightarrow> pp_q r i \<notin> set (kilocks w) \<Longrightarrow>
      (\<And>w'. changed M (pp_q r i) x w w' \<Longrightarrow> Q () w') \<Longrightarrow> wp m Q E w"
    and "\<And>w'. has_queues M w' r (qs(i := x)) \<Longrightarrow> ctx w' = ctx w \<and> kenv w' = kenv w \<Longrightarrow> Q () w'"
  shows "wp m Q E w"
  using assms has_queues_changed [OF assms(1)] by (auto simp: has_queues_def changed_def)

section \<open>Closing\<close>

text \<open>What closing does to a pipe and its queues.\<close>

definition after_hangup :: "side \<Rightarrow> Pipe \<times> (side \<Rightarrow> Queue) \<Rightarrow> Pipe \<times> (side \<Rightarrow> Queue)" where
  "after_hangup i = (\<lambda>(r, qs). let r = count i (-1) r in
     (r, if pp_qref r i = 0 then qs(other i := hungup_queue [] (qs (other i)), i := closed_queue (qs i)) else qs))"

definition after_reopen :: "Pipe \<times> (side \<Rightarrow> Queue) \<Rightarrow> Pipe \<times> (side \<Rightarrow> Queue)" where
  "after_reopen = (\<lambda>(r, qs). (r, if pp_qref r Data0 = 0 \<and> pp_qref r Data1 = 0 then (\<lambda>i. reopened_queue (qs i)) else qs))"

definition open_side :: "Chan \<Rightarrow> side option" where
  "open_side c = (if c_flag c AND COPEN \<noteq> 0 then side_of c else None)"

definition after_close :: "Chan \<Rightarrow> Pipe \<times> (side \<Rightarrow> Queue) \<Rightarrow> Pipe \<times> (side \<Rightarrow> Queue)" where
  "after_close c rq = after_reopen (case open_side c of None \<Rightarrow> rq | Some i \<Rightarrow> after_hangup i rq)"

lemma count_simps [simp]: "pp_q (count i n r) = pp_q r" "pp_ref (count i n r) = pp_ref r" "pp_locked (count i n r) = pp_locked r"
  "pp_qref (count i n r) j = (if i = j then pp_qref r j + n else pp_qref r j)"
  by (simp_all add: count_def)

lemma after_close_pipe: "fst (after_close c (r, qs)) = (case open_side c of None \<Rightarrow> r | Some i \<Rightarrow> count i (-1) r)"
  by (simp add: after_close_def after_reopen_def after_hangup_def Let_def split: option.splits prod.splits)

lemma hang_up_wp:
  assumes "pipes s p = Some r" and "has_queues M (pw s) r qs" and "after_hangup i (r, qs) = (r', qs')"
    and "\<And>w'. has_queues M w' r qs' \<Longrightarrow> ctx w' = ctx (pw s) \<and> kenv w' = kenv (pw s) \<Longrightarrow> Q () (s\<lparr>pw := w', pipes := (pipes s)(p \<mapsto> r')\<rparr>)"
  shows "wp (hang_up p i) Q E s"
proof (cases "pp_qref (count i (-1) r) i = 0")
  case True
  then have a: "r' = count i (-1) r" "qs' = qs(other i := hungup_queue [] (qs (other i)), i := closed_queue (qs i))"
    using assms(3) by (simp_all add: after_hangup_def Let_def)
  have "wp (qhangup (pp_q r (other i)) []) (\<lambda>_. wp (qclose (pp_q r i)) (\<lambda>_ w'. Q () (s\<lparr>pw := w', pipes := (pipes s)(p \<mapsto> r')\<rparr>)) F) F (pw s)" for F
  proof (rule queue_op_wp [OF assms(2), of "other i" "hungup_queue [] (qs (other i))"])
    show "wp (qhangup (pp_q r (other i)) []) Q' F (pw s)"
      if "ok M (pw s)" "kqueues (pw s) (pp_q r (other i)) = Some (qs (other i))" "pp_q r (other i) \<notin> set (kilocks (pw s))"
        "\<And>w'. changed M (pp_q r (other i)) (hungup_queue [] (qs (other i))) (pw s) w' \<Longrightarrow> Q' () w'" for Q' using that by (rule qhangup_wp)
  next
    fix w assume w: "has_queues M w r (qs(other i := hungup_queue [] (qs (other i))))" "ctx w = ctx (pw s) \<and> kenv w = kenv (pw s)"
    show "wp (qclose (pp_q r i)) (\<lambda>_ w'. Q () (s\<lparr>pw := w', pipes := (pipes s)(p \<mapsto> r')\<rparr>)) F w"
    proof (rule queue_op_wp [OF w(1), of i "closed_queue (qs i)"])
      show "wp (qclose (pp_q r i)) Q' F w"
        if "ok M w" "kqueues w (pp_q r i) = Some ((qs(other i := hungup_queue [] (qs (other i)))) i)" "pp_q r i \<notin> set (kilocks w)"
          "\<And>w'. changed M (pp_q r i) (closed_queue (qs i)) w w' \<Longrightarrow> Q' () w'" for Q'
        using that by (intro qclose_wp [of M w _ "qs i"]) auto
    next
      fix w' assume "has_queues M w' r (qs(other i := hungup_queue [] (qs (other i)), i := closed_queue (qs i)))" "ctx w' = ctx w \<and> kenv w' = kenv w"
      then show "Q () (s\<lparr>pw := w', pipes := (pipes s)(p \<mapsto> r')\<rparr>)" using w(2) a(2) by (intro assms(4)) auto
    qed
  qed
  then show ?thesis using True assms(1) a(1) by (simp add: hang_up_def wp_pipe)
next
  case False
  then have "r' = count i (-1) r" "qs' = qs" using assms(3) by (simp_all add: after_hangup_def Let_def)
  then show ?thesis using False assms(1) assms(4) [of "pw s"] assms(2) by (simp add: hang_up_def wp_pipe)
qed

lemma reopen_both_wp:
  assumes "has_queues M w r qs"
    and "\<And>w'. has_queues M w' r (\<lambda>i. reopened_queue (qs i)) \<Longrightarrow> ctx w' = ctx w \<and> kenv w' = kenv w \<Longrightarrow> Q () w'"
  shows "wp (seq (qreopen (pp_q r Data0)) (qreopen (pp_q r Data1))) Q E w"
  unfolding wp_seq
proof (rule queue_op_wp [OF assms(1), of Data0 "reopened_queue (qs Data0)"])
  show "wp (qreopen (pp_q r Data0)) Q' E w"
    if "ok M w" "kqueues w (pp_q r Data0) = Some (qs Data0)" "pp_q r Data0 \<notin> set (kilocks w)"
      "\<And>w'. changed M (pp_q r Data0) (reopened_queue (qs Data0)) w w' \<Longrightarrow> Q' () w'" for Q' using that by (rule qreopen_wp)
next
  fix w1 assume w1: "has_queues M w1 r (qs(Data0 := reopened_queue (qs Data0)))" "ctx w1 = ctx w \<and> kenv w1 = kenv w"
  show "wp (qreopen (pp_q r Data1)) Q E w1"
  proof (rule queue_op_wp [OF w1(1), of Data1 "reopened_queue (qs Data1)"])
    show "wp (qreopen (pp_q r Data1)) Q' E w1"
      if "ok M w1" "kqueues w1 (pp_q r Data1) = Some ((qs(Data0 := reopened_queue (qs Data0))) Data1)" "pp_q r Data1 \<notin> set (kilocks w1)"
        "\<And>w'. changed M (pp_q r Data1) (reopened_queue (qs Data1)) w1 w' \<Longrightarrow> Q' () w'" for Q'
      using that by (intro qreopen_wp [of M w1 _ "qs Data1"]) auto
  next
    fix w' assume w': "has_queues M w' r ((qs(Data0 := reopened_queue (qs Data0)))(Data1 := reopened_queue (qs Data1)))" "ctx w' = ctx w1 \<and> kenv w' = kenv w1"
    have "(qs(Data0 := reopened_queue (qs Data0)))(Data1 := reopened_queue (qs Data1)) = (\<lambda>i. reopened_queue (qs i))"
    proof
      show "((qs(Data0 := reopened_queue (qs Data0)))(Data1 := reopened_queue (qs Data1))) i = reopened_queue (qs i)" for i by (cases i) auto
    qed
    then show "Q () w'" using w' w1(2) by (intro assms(2)) auto
  qed
qed

text \<open>The pipe is freed with its last channel.\<close>

definition without_queues :: "Pipe \<Rightarrow> world \<Rightarrow> world" where
  "without_queues r w = w\<lparr>kqueues := (kqueues w)(pp_q r Data0 := None, pp_q r Data1 := None)\<rparr>"

lemma pipeclose_wp:
  assumes "pipes s (c_aux c) = Some r" and "\<not> pp_locked r" and "has_queues M (pw s) r qs" and "after_close c (r, qs) = (r', qs')"
    and "\<And>w'. has_queues M w' r qs' \<Longrightarrow> ctx w' = ctx (pw s) \<and> kenv w' = kenv (pw s) \<Longrightarrow>
      Q () (if pp_ref r = 1 then s\<lparr>pw := without_queues r w', pipes := (pipes s)(c_aux c := None)\<rparr>
        else s\<lparr>pw := w', pipes := (pipes s)(c_aux c \<mapsto> r'\<lparr>pp_ref := pp_ref r - 1\<rparr>)\<rparr>)"
  shows "wp (pipeclose c) Q E s"
proof -
  let ?p = "c_aux c" and ?rl = "r\<lparr>pp_locked := True\<rparr>"
  define r1 qs1 where "r1 = fst (case open_side c of None \<Rightarrow> (?rl, qs) | Some i \<Rightarrow> after_hangup i (?rl, qs))"
    and "qs1 = snd (case open_side c of None \<Rightarrow> (?rl, qs) | Some i \<Rightarrow> after_hangup i (?rl, qs))"
  have r1: "pp_q r1 = pp_q r" "pp_ref r1 = pp_ref r" "r1\<lparr>pp_locked := False\<rparr> = r'" "pp_qref r1 = pp_qref r'"
    "qs' = (if pp_qref r1 Data0 = 0 \<and> pp_qref r1 Data1 = 0 then (\<lambda>i. reopened_queue (qs1 i)) else qs1)"
    using assms(2,4) by (auto simp: r1_def qs1_def after_close_def after_reopen_def after_hangup_def Let_def count_def split: option.splits)
  have upd: "s\<lparr>pipes := (pipes s)(?p \<mapsto> ?rl), pw := w', pipes := (pipes (s\<lparr>pipes := (pipes s)(?p \<mapsto> ?rl)\<rparr>))(?p \<mapsto> r1)\<rparr> =
    s\<lparr>pw := w', pipes := (pipes s)(?p \<mapsto> r1)\<rparr>" for w' by simp
  let ?tail = "and_then (pf ?p (\<lambda>r. (pp_qref r Data0 = 0 \<and> pp_qref r Data1 = 0, pp_q r))) (\<lambda>(both, qs).
     seq (if both then seq (kern_op (qreopen (qs Data0))) (kern_op (qreopen (qs Data1))) else ret ())
    (seq (pset ?p (\<lambda>r. r\<lparr>pp_ref := pp_ref r - 1\<rparr>))
    (and_then (pf ?p pp_ref) (\<lambda>n.
     if n = 0 then seq (punlock ?p) (seq (kern_op (free_queue (qs Data0))) (seq (kern_op (free_queue (qs Data1))) (free_pipe ?p)))
     else punlock ?p))))"
  have fin: "wp (seq (pset ?p (\<lambda>r. r\<lparr>pp_ref := pp_ref r - 1\<rparr>))
    (and_then (pf ?p pp_ref) (\<lambda>n.
     if n = 0 then seq (punlock ?p) (seq (kern_op (free_queue (pp_q r Data0))) (seq (kern_op (free_queue (pp_q r Data1))) (free_pipe ?p)))
     else punlock ?p))) Q E (s\<lparr>pw := w', pipes := (pipes s)(?p \<mapsto> r1)\<rparr>)"
    if "has_queues M w' r qs'" "ctx w' = ctx (pw s) \<and> kenv w' = kenv (pw s)" for w'
    using assms(5) [OF that] r1(2) unfolding r1(3) [symmetric] by (simp add: wp_pipe free_queue_def free_pipe_def without_queues_def split: if_splits)
  have tail: "wp ?tail Q E (s\<lparr>pw := w', pipes := (pipes s)(?p \<mapsto> r1)\<rparr>)"
    if "has_queues M w' r qs1" "ctx w' = ctx (pw s) \<and> kenv w' = kenv (pw s)" for w'
  proof (cases "pp_qref r1 Data0 = 0 \<and> pp_qref r1 Data1 = 0")
    case True
    then have "wp (seq (qreopen (pp_q r Data0)) (qreopen (pp_q r Data1))) (\<lambda>_ w'. has_queues M w' r qs' \<and> ctx w' = ctx (pw s) \<and> kenv w' = kenv (pw s)) (\<lambda>_ _. False) w'"
      using that r1(5) by (intro reopen_both_wp) auto
    then have "wp (seq (qreopen (pp_q r Data0)) (qreopen (pp_q r Data1)))
      (\<lambda>_ w'. wp (seq (pset ?p (\<lambda>r. r\<lparr>pp_ref := pp_ref r - 1\<rparr>))
        (and_then (pf ?p pp_ref) (\<lambda>n.
         if n = 0 then seq (punlock ?p) (seq (kern_op (free_queue (pp_q r Data0))) (seq (kern_op (free_queue (pp_q r Data1))) (free_pipe ?p)))
         else punlock ?p))) Q E (s\<lparr>pw := w', pipes := (pipes s)(?p \<mapsto> r1)\<rparr>)) F w'" for F
      by (rule wp_conseq) (use fin in auto)
    then show ?thesis using True r1(1) by (simp add: wp_and_then wp_pf wp_seq wp_kern_op)
  next
    case False
    then have b: "(pp_qref r1 Data0 = 0 \<and> pp_qref r1 Data1 = 0) = False" by blast
    have "qs' = qs1" unfolding r1(5) b by simp
    then show ?thesis using fin [of w'] that r1(1) by (simp add: wp_and_then wp_pf wp_seq wp_ret b del: de_Morgan_conj)
  qed
  have "wp (if c_flag c AND COPEN \<noteq> 0 then (case side_of c of None \<Rightarrow> ret () | Some i \<Rightarrow> hang_up ?p i) else ret ()) (\<lambda>_. wp ?tail Q E) E
      (s\<lparr>pipes := (pipes s)(?p \<mapsto> ?rl)\<rparr>)"
  proof (cases "open_side c")
    case None
    then have "r1 = ?rl" "qs1 = qs" by (simp_all add: r1_def qs1_def)
    then show ?thesis using tail [of "pw s"] None assms(3) by (auto simp: open_side_def wp_flow split: if_splits option.splits)
  next
    case (Some i)
    then have h: "after_hangup i (?rl, qs) = (r1, qs1)" "c_flag c AND COPEN \<noteq> 0" "side_of c = Some i"
      by (auto simp: r1_def qs1_def open_side_def split: if_splits)
    have "wp (hang_up ?p i) (\<lambda>_. wp ?tail Q E) E (s\<lparr>pipes := (pipes s)(?p \<mapsto> ?rl)\<rparr>)"
    proof (rule hang_up_wp [where M = M, OF _ _ h(1)])
      show "pipes (s\<lparr>pipes := (pipes s)(?p \<mapsto> ?rl)\<rparr>) ?p = Some ?rl" by simp
      show "has_queues M (pw (s\<lparr>pipes := (pipes s)(?p \<mapsto> ?rl)\<rparr>)) ?rl qs" using assms(3) by (simp add: has_queues_def)
      fix w' assume "has_queues M w' ?rl qs1" and c: "ctx w' = ctx (pw (s\<lparr>pipes := (pipes s)(?p \<mapsto> ?rl)\<rparr>)) \<and> kenv w' = kenv (pw (s\<lparr>pipes := (pipes s)(?p \<mapsto> ?rl)\<rparr>))"
      then have "has_queues M w' r qs1" by (simp add: has_queues_def)
      moreover have "ctx w' = ctx (pw s) \<and> kenv w' = kenv (pw s)" using c by simp
      ultimately have "wp ?tail Q E (s\<lparr>pw := w', pipes := (pipes s)(?p \<mapsto> r1)\<rparr>)" by (rule tail)
      then show "wp ?tail Q E (s\<lparr>pipes := (pipes s)(?p \<mapsto> ?rl), pw := w', pipes := (pipes (s\<lparr>pipes := (pipes s)(?p \<mapsto> ?rl)\<rparr>))(?p \<mapsto> r1)\<rparr>)"
        by (simp only: upd)
    qed
    then show ?thesis using h(2,3) by simp
  qed
  then show ?thesis using assms(1,2) by (simp add: pipeclose_def Let_def wp_seq [of "plock _"] wp_plock wp_seq [of "if _ then _ else _"])
qed

end
