(* ===== verification/Pipe_Use.thy ===== *)
theory Pipe_Use
  imports Pipe_Rules Dev_Rules
begin

unbundle bit_operations_syntax

text \<open>
  A pipe in use: walking in it, the steps of the channels that refer to it, and the invariant of its reference counts.
\<close>

section \<open>Walking in a pipe\<close>

definition mounted :: "Chan \<Rightarrow> Qid \<Rightarrow> Qid" where
  "mounted c q = (if c_flag c AND CMSG \<noteq> 0 then q\<lparr>qtype := qtype q OR QTMOUNT\<rparr> else q)"

definition pipe_file :: "Chan \<Rightarrow> side \<Rightarrow> Qid" where
  "pipe_file c i = mkqid (PIPEQID (PIPEID (qpath (c_qid c))) (file_type i)) 0 QTFILE"

definition pipe_step :: "Chan \<Rightarrow> bytes \<Rightarrow> Qid option" where
  "pipe_step c n = map_option (mounted c)
     (if n = dotdot then Some (c_qid c)
      else if n = file_name Data0 then Some (pipe_file c Data0)
      else if n = file_name Data1 then Some (pipe_file c Data1)
      else None)"

lemma devdir_qid: "dqid (devdir v c q n len owner perm) = mounted c q" "dname (devdir v c q n len owner perm) = Some n"
  by (simp_all add: devdir_def mounted_def Let_def)

lemma pipegen_entries:
  "pipegen v lens c name pipedir (Some 0) = Gentry (devdir v c (pipe_file c Data0) (file_name Data0) (word_of_int (lens Data0)) (eve v) 0x180)"
  "pipegen v lens c name pipedir (Some (Suc 0)) = Gentry (devdir v c (pipe_file c Data1) (file_name Data1) (word_of_int (lens Data1)) (eve v) 0x180)"
  "2 \<le> i \<Longrightarrow> pipegen v lens c name pipedir (Some i) = Gend"
  by (simp_all add: pipegen_def pipedir_def mkqid_def pipe_file_def)

interpretation pipe_walk: walkable v "Some (pipegen v lens)" pipedir pipe_step for v lens
proof
  show "\<exists>d. gen_of v (Some (pipegen v lens)) nc None pipedir None = Gentry d \<and> pipe_step nc dotdot = Some (dqid d)" for nc
    by (simp add: gen_of_def pipegen_def pipe_step_def devdir_qid)
  show "(if Some (pipegen v lens) = None \<and> qpath (c_qid nc) \<noteq> qpath (t_qid (pipedir ! 0)) then Some None
       else find_entry (\<lambda>i. gen_of v (Some (pipegen v lens)) nc (Some n) pipedir (Some i)) n 0) = Some (pipe_step nc n)"
    if "n \<noteq> dotdot" for n nc
  proof -
    let ?g = "\<lambda>i. pipegen v lens nc (Some n) pipedir (Some i)"
    have 2: "find_entry ?g n 2 = Some None" by (subst find_entry.simps) (simp add: pipegen_entries)
    have 1: "find_entry ?g n (Suc 0) = Some (if n = file_name Data1 then Some (mounted nc (pipe_file nc Data1)) else None)"
      using 2 by (subst find_entry.simps) (simp add: pipegen_entries devdir_qid numeral_2_eq_2)
    have "find_entry ?g n 0 = Some (pipe_step nc n)"
      using 1 that by (subst find_entry.simps) (simp add: pipegen_entries devdir_qid pipe_step_def)
    then show ?thesis by (simp add: gen_of_def)
  qed
qed

definition pipe_entries :: "surroundings \<Rightarrow> (side \<Rightarrow> int) \<Rightarrow> Chan \<Rightarrow> cstr Dir list" where
  "pipe_entries v lens c = map (\<lambda>i. devdir v c (pipe_file c i) (file_name i) (word_of_int (lens i)) (eve v) 0x180) [Data0, Data1]"

interpretation pipe_list: listing "pipegen v lens" pipedir "pipe_entries v lens" for v lens
proof
  show "pipegen v lens c None pipedir (Some i) = (if i < length (pipe_entries v lens c) then Gentry (pipe_entries v lens c ! i) else Gend)" for c i
    by (cases i; cases "i - 1") (auto simp: pipegen_entries pipe_entries_def)
  show "pipe_entries v lens (c\<lparr>c_dri := i\<rparr>) = pipe_entries v lens c" for c i
    by (simp add: pipe_entries_def devdir_def pipe_file_def)
qed

section \<open>Channels of a pipe\<close>

text \<open>The type of a file is in its path and in its type byte.\<close>

definition good_qid :: "Qid \<Rightarrow> bool" where
  "good_qid q \<longleftrightarrow> (is_dir q \<longleftrightarrow> PIPETYPE (qpath q) \<noteq> 1 \<and> PIPETYPE (qpath q) \<noteq> 2)"

lemma PIPETYPE_PIPEQID: "t AND 0x1f = t \<Longrightarrow> PIPETYPE (PIPEQID x t) = t"
proof -
  assume t: "t AND 0x1f = t"
  have "push_bit 5 x AND mask 5 = (0 :: u32)"
    by (rule bit_word_eqI) (auto simp: bit_and_iff bit_push_bit_iff bit_mask_iff)
  then have "push_bit 5 x AND 0x1f = (0 :: u32)" by (simp add: mask_eq_exp_minus_1)
  then have "(push_bit 5 x OR t) AND 0x1f = t" using t by (simp add: word_ao_dist)
  moreover have "ucast (ucast y :: u64) = y" for y :: u32 by (rule bit_word_eqI) (simp add: bit_unsigned_iff)
  ultimately show ?thesis by (simp add: PIPETYPE_def PIPEQID_def)
qed

lemma good_file: "good_qid (pipe_file c i)"
  by (cases i) (simp_all add: good_qid_def pipe_file_def mkqid_def is_dir_def PIPETYPE_PIPEQID)

lemma good_qid_step: "pipe_step c n = Some q \<Longrightarrow> good_qid (c_qid c) \<Longrightarrow> c_flag c AND CMSG = 0 \<Longrightarrow> good_qid q"
  by (auto simp: pipe_step_def mounted_def good_file split: if_splits)

lemma good_trail: "good_qid (c_qid c) \<Longrightarrow> c_flag c AND CMSG = 0 \<Longrightarrow> \<forall>q\<in>set (c_qid c # trail pipe_step c ns). good_qid q"
proof (induction ns arbitrary: c)
  case (Cons n ns)
  show ?case
  proof (cases "walk_step pipe_step c n")
    case (Some q)
    then have "good_qid q" using good_qid_step Cons.prems by (auto simp: walk_step_def split: if_splits)
    then show ?thesis using Cons.IH [of "c\<lparr>c_qid := q\<rparr>"] Cons.prems Some by simp
  qed (use Cons.prems in simp)
qed simp


section \<open>The invariant\<close>

text \<open>
  The channels of the pipe at address \<open>p\<close>. Reading, writing and whatever else happens in the kernel leave the pipe's queues where they are,
  and do not hang them up. The mode of an open has been checked by the system call.
\<close>

record psys =
  y_st :: pst
  y_chans :: "Chan list"

definition keeps_queues :: "nat \<Rightarrow> pst \<Rightarrow> pst \<Rightarrow> bool" where
  "keeps_queues p s s' \<longleftrightarrow> pipes s' p = pipes s p \<and> (\<forall>r M qs. pipes s p = Some r \<longrightarrow> has_queues M (pw s) r qs \<longrightarrow>
     (\<exists>M' qs'. has_queues M' (pw s') r qs' \<and> (\<forall>i. q_has Qclosed (qs' i) = q_has Qclosed (qs i))))"

inductive pipestep :: "nat \<Rightarrow> psys \<Rightarrow> psys \<Rightarrow> bool" for p y where
  step_pipewalk: "c \<in> set (y_chans y) \<Longrightarrow> pipewalk v old c ns (y_st y) = (Inr res, s') \<Longrightarrow>
    pipestep p y \<lparr>y_st = s', y_chans = (case res of Walked _ (Some nc) \<Rightarrow> nc # y_chans y | _ \<Rightarrow> y_chans y)\<rparr>"
| step_pipeopen: "y_chans y = cs1 @ c # cs2 \<Longrightarrow> c_flag c AND COPEN = 0 \<Longrightarrow> openmode omode = Inr m \<Longrightarrow>
    pipeopen c omode (y_st y) = (Inr c', s') \<Longrightarrow> pipestep p y \<lparr>y_st = s', y_chans = cs1 @ c' # cs2\<rparr>"
| step_pipeclose: "y_chans y = cs1 @ c # cs2 \<Longrightarrow> pipeclose c (y_st y) = (Inr (), s') \<Longrightarrow> pipestep p y \<lparr>y_st = s', y_chans = cs1 @ cs2\<rparr>"
| step_io: "keeps_queues p (y_st y) s' \<Longrightarrow> pipestep p y \<lparr>y_st = s', y_chans = y_chans y\<rparr>"

definition attached :: "nat \<Rightarrow> psys \<Rightarrow> bool" where
  "attached p y \<longleftrightarrow> (\<exists>old spec s c M. ok M (pw s) \<and> kilocks (pw s) = [] \<and> pipeattach old spec s = (Inr c, y_st y) \<and> c_aux c = p \<and> y_chans y = [c])"

abbreviation preach :: "nat \<Rightarrow> psys \<Rightarrow> bool" where
  "preach p \<equiv> reach (attached p) (pipestep p)"

definition open_on :: "side \<Rightarrow> Chan list \<Rightarrow> int" where
  "open_on i cs = int (length (filter (\<lambda>c. open_side c = Some i) cs))"

definition counted :: "Chan list \<Rightarrow> Pipe \<Rightarrow> bool" where
  "counted cs r \<longleftrightarrow> \<not> pp_locked r \<and> pp_ref r = int (length cs) \<and> (\<forall>i. pp_qref r i = open_on i cs)"

definition reusable :: "Pipe \<Rightarrow> (side \<Rightarrow> Queue) \<Rightarrow> bool" where
  "reusable r qs \<longleftrightarrow> (pp_qref r Data0 = 0 \<and> pp_qref r Data1 = 0 \<longrightarrow> (\<forall>i. \<not> q_has Qclosed (qs i)))"

definition pipe_ok :: "nat \<Rightarrow> psys \<Rightarrow> nat set \<times> (side \<Rightarrow> Queue) \<Rightarrow> bool" where
  "pipe_ok p y W \<longleftrightarrow> (\<forall>c\<in>set (y_chans y). c_aux c = p \<and> good_qid (c_qid c)) \<and>
     (if y_chans y = [] then pipes (y_st y) p = None
      else \<exists>r. pipes (y_st y) p = Some r \<and> counted (y_chans y) r \<and> has_queues (fst W) (pw (y_st y)) r (snd W) \<and> reusable r (snd W))"

lemma open_on_simps [simp]: "open_on i [] = 0" "open_on i (c # cs) = (if open_side c = Some i then 1 else 0) + open_on i cs"
  "open_on i (cs1 @ cs2) = open_on i cs1 + open_on i cs2"
  by (simp_all add: open_on_def)

lemma pipe_okE:
  assumes "pipe_ok p y W" and "c \<in> set (y_chans y)"
  obtains r M qs where "W = (M, qs)" and "pipes (y_st y) p = Some r" and "counted (y_chans y) r" and "has_queues M (pw (y_st y)) r qs"
    and "reusable r qs" and "c_aux c = p" and "good_qid (c_qid c)"
  using assms by (cases W) (auto simp: pipe_ok_def split: if_splits)

lemma unlocked: "\<not> pp_locked r \<Longrightarrow> r\<lparr>pp_locked := False\<rparr> = r"
  by (cases r) simp

lemma devclone_Some: "devclone old c = Some nc \<Longrightarrow> c_aux nc = c_aux c \<and> c_flag nc = 0 \<and> c_qid nc = c_qid c"
  by (auto simp: devclone_def newchan_def split: if_splits)

lemma pipe_lens_run:
  assumes "pipes s p = Some r" and "has_queues M (pw s) r qs"
  obtains lens where "pipe_lens p s = (Inr lens, s)"
  using assms by (auto simp: pipe_lens_def and_then_def pf_def kern_op_def qlen_def qf_def ret_def has_queues_def)

text \<open>A walk either leaves the pipe alone or adds the channel that it returns.\<close>

lemma pipewalk_run:
  assumes "pipes s (c_aux c) = Some r" and "\<not> pp_locked r" and "has_queues M (pw s) r qs" and "good_qid (c_qid c)"
    and "pipewalk v old c ns s = (Inr res, s')"
  shows "s' = s \<and> (\<forall>qs nc. res \<noteq> Walked qs (Some nc)) \<or>
    (\<exists>qids nc. res = Walked qids (Some nc) \<and> c_aux nc = c_aux c \<and> c_flag nc = 0 \<and> good_qid (c_qid nc) \<and>
       s' = s\<lparr>pipes := (pipes s)(c_aux c \<mapsto> r\<lparr>pp_ref := pp_ref r + 1\<rparr>)\<rparr>)"
proof -
  obtain lens where l: "pipe_lens (c_aux c) s = (Inr lens, s)" using pipe_lens_run [OF assms(1,3)] .
  let ?w = "devwalk v old (Some (pipegen v lens)) c None ns pipedir"
  have run: "pipewalk v old c ns s = (case ?w of
       None \<Rightarrow> raise (Kernel Blocked)
     | Some (Raised e) \<Rightarrow> raise (Device e)
     | Some Walk_panic \<Rightarrow> raise (Kernel Panic)
     | Some (Nil_walk e) \<Rightarrow> ret (Nil_walk e)
     | Some (Walked qs None) \<Rightarrow> ret (Walked qs None)
     | Some (Walked qs (Some nc)) \<Rightarrow> seq (count_clone c) (ret (Walked qs (Some nc)))) s"
    by (simp add: pipewalk_def and_then_def [of "pipe_lens _"] l)
  show ?thesis
  proof (cases "\<exists>qids nc. ?w = Some (Walked qids (Some nc))")
    case False
    then show ?thesis
      using assms(5) unfolding run by (auto simp: raise_def ret_def split: option.splits walked.splits)
  next
    case True
    then obtain qids nc where w: "?w = Some (Walked qids (Some nc))" by blast
    obtain nc0 where nc0: "devclone old c = Some nc0" using w by (auto simp: devwalk_def split: if_splits option.splits)
    have c: "c_flag c AND COPEN = 0" using nc0 by (simp add: devclone_def split: if_splits)
    note d = devclone_Some [OF nc0]
    have n: "nc = nc0\<lparr>c_qid := last (c_qid nc0 # trail pipe_step nc0 ns), c_dev := c_dev c\<rparr>"
      using w pipe_walk.devwalk_trail [OF nc0, of v lens ns] by (auto split: if_splits)
    have "\<forall>q\<in>set (c_qid nc0 # trail pipe_step nc0 ns). good_qid q" using good_trail [of nc0 ns] d assms(4) by simp
    moreover have "last (c_qid nc0 # trail pipe_step nc0 ns) \<in> set (c_qid nc0 # trail pipe_step nc0 ns)" by (rule last_in_set) simp
    ultimately have g: "good_qid (c_qid nc)" unfolding n by simp
    have "wp (seq (count_clone c) (ret (Walked qids (Some nc))))
      (\<lambda>x s'. x = Walked qids (Some nc) \<and> s' = s\<lparr>pipes := (pipes s)(c_aux c \<mapsto> r\<lparr>pp_ref := pp_ref r + 1\<rparr>)\<rparr>) (\<lambda>_ _. False) s"
      using assms(1,2) c by (simp add: count_clone_def wp_pipe unlocked)
    moreover have "seq (count_clone c) (ret (Walked qids (Some nc))) s = (Inr res, s')" using assms(5) unfolding run w by simp
    ultimately have "res = Walked qids (Some nc) \<and> s' = s\<lparr>pipes := (pipes s)(c_aux c \<mapsto> r\<lparr>pp_ref := pp_ref r + 1\<rparr>)\<rparr>" by (rule wpD_Inr)
    then show ?thesis using g n d by auto
  qed
qed


lemma pipe_okI:
  assumes "\<And>c. c \<in> set (y_chans y) \<Longrightarrow> c_aux c = p \<and> good_qid (c_qid c)" and "pipes (y_st y) p = Some r" and "counted (y_chans y) r"
    and "has_queues M (pw (y_st y)) r qs" and "reusable r qs" and "y_chans y \<noteq> []"
  shows "\<exists>W. pipe_ok p y W"
  using assms by (intro exI [of _ "(M, qs)"]) (simp add: pipe_ok_def)

lemma pipe_ok_chans: "pipe_ok p y W \<Longrightarrow> c \<in> set (y_chans y) \<Longrightarrow> c_aux c = p \<and> good_qid (c_qid c)"
  by (simp add: pipe_ok_def)

lemma pipewalk_ok:
  assumes ok: "pipe_ok p y W" and c: "c \<in> set (y_chans y)" and run: "pipewalk v old c ns (y_st y) = (Inr res, s')"
  shows "\<exists>W. pipe_ok p \<lparr>y_st = s', y_chans = (case res of Walked _ (Some nc) \<Rightarrow> nc # y_chans y | _ \<Rightarrow> y_chans y)\<rparr> W"
proof -
  obtain r M qs where r: "W = (M, qs)" "pipes (y_st y) p = Some r" "counted (y_chans y) r" "has_queues M (pw (y_st y)) r qs" "reusable r qs"
    "c_aux c = p" "good_qid (c_qid c)" using pipe_okE [OF ok c] .
  from pipewalk_run [of "y_st y" c r M qs v old ns res s'] r run
  consider "s' = y_st y" "\<forall>qs nc. res \<noteq> Walked qs (Some nc)"
    | qids nc where "res = Walked qids (Some nc)" "c_aux nc = p" "c_flag nc = 0" "good_qid (c_qid nc)"
        "s' = (y_st y)\<lparr>pipes := (pipes (y_st y))(p \<mapsto> r\<lparr>pp_ref := pp_ref r + 1\<rparr>)\<rparr>"
    by (auto simp: counted_def)
  then show ?thesis
  proof cases
    case 1
    then have "\<lparr>y_st = s', y_chans = (case res of Walked _ (Some nc) \<Rightarrow> nc # y_chans y | _ \<Rightarrow> y_chans y)\<rparr> = y"
      by (cases y) (auto split: walked.splits option.splits)
    then show ?thesis using ok by metis
  next
    case 2
    then show ?thesis
      using r pipe_ok_chans [OF ok]
      by (intro pipe_okI [where r = "r\<lparr>pp_ref := pp_ref r + 1\<rparr>" and M = M and qs = qs])
        (auto simp: counted_def open_side_def reusable_def has_queues_def)
  qed
qed

lemma open_on_nonneg: "0 \<le> open_on i cs"
  by (simp add: open_on_def)

lemma or_COPEN: "(x OR COPEN) AND COPEN \<noteq> 0"
proof -
  have "bit ((x OR COPEN) AND COPEN) 0" by (simp add: bit_and_iff bit_or_iff)
  then show ?thesis by (metis bit_0_eq bot_fun_def bot_bool_def)
qed

lemma pipeopen_ok:
  assumes ok: "pipe_ok p y W" and cs: "y_chans y = cs1 @ c # cs2" and "c_flag c AND COPEN = 0" and m: "openmode omode = Inr m"
    and run: "pipeopen c omode (y_st y) = (Inr c', s')"
  shows "\<exists>W. pipe_ok p \<lparr>y_st = s', y_chans = cs1 @ c' # cs2\<rparr> W"
proof -
  have mem: "c \<in> set (y_chans y)" using cs by simp
  obtain r M qs where r: "W = (M, qs)" "pipes (y_st y) p = Some r" "counted (y_chans y) r" "has_queues M (pw (y_st y)) r qs" "reusable r qs"
    "c_aux c = p" "good_qid (c_qid c)" using pipe_okE [OF ok mem] .
  have no: "open_side c = None" using assms(3) by (simp add: open_side_def)
  have chans: "c_aux x = p \<and> good_qid (c_qid x)" if "x \<in> set cs1 \<union> set cs2" for x using pipe_ok_chans [OF ok, of x] that cs by auto
  show ?thesis
  proof (cases "is_dir (c_qid c)")
    case True
    then have d: "s' = y_st y" "c' = c\<lparr>c_mode := omode, c_flag := c_flag c OR COPEN, c_offset := 0\<rparr>"
      using run by (auto simp: pipeopen_def is_dir_def raise_def ret_def split: if_splits)
    have "side_of c = None" using True r(7) by (simp add: good_qid_def side_of_def)
    moreover have "side_of c' = side_of c" by (simp add: d(2) side_of_def)
    ultimately have "open_side c' = None" by (simp add: open_side_def)
    then have "counted (cs1 @ c' # cs2) r" using r(3) no by (simp add: counted_def cs)
    then show ?thesis using r d chans by (intro pipe_okI [where r = r and M = M and qs = qs]) auto
  next
    case False
    then obtain i where i: "side_of c = Some i" using r(7) by (auto simp: good_qid_def side_of_def)
    let ?c = "c\<lparr>c_mode := m, c_flag := c_flag c OR COPEN, c_offset := 0, c_iounit := of_nat Maxatomic\<rparr>"
    have lk: "\<not> pp_locked r" using r(3) by (simp add: counted_def)
    have "wp (pipeopen c omode) (\<lambda>x s'. x = ?c \<and> s' = (y_st y)\<lparr>pipes := (pipes (y_st y))(p \<mapsto> (count i 1 r)\<lparr>pp_locked := False\<rparr>)\<rparr>) (\<lambda>_ _. False) (y_st y)"
      using False i r(2,6) lk m by (simp add: pipeopen_def is_dir_def Let_def wp_pipe count_def)
    from wpD_Inr [OF this run] have d: "c' = ?c" "s' = (y_st y)\<lparr>pipes := (pipes (y_st y))(p \<mapsto> count i 1 r)\<rparr>"
      using unlocked [of "count i 1 r"] lk by simp_all
    have "side_of c' = side_of c" by (simp add: d(1) side_of_def)
    then have "open_side c' = Some i" using i or_COPEN [of "c_flag c"] by (simp add: d(1) open_side_def)
    then have cnt: "counted (cs1 @ c' # cs2) (count i 1 r)" using r(3) no by (auto simp: counted_def cs)
    have "pp_qref (count i 1 r) i = open_on i (cs1 @ c' # cs2)" using cnt unfolding counted_def by blast
    then have "pp_qref (count i 1 r) i > 0" using open_on_nonneg [of i cs1] open_on_nonneg [of i cs2] \<open>open_side c' = Some i\<close> by simp
    then have "reusable (count i 1 r) qs" by (cases i) (auto simp: reusable_def)
    moreover have "has_queues M (pw (y_st y)) (count i 1 r) qs" using r(4) by (simp add: has_queues_cong [of "count i 1 r" r])
    ultimately show ?thesis using r d chans cnt by (intro pipe_okI [where r = "count i 1 r" and M = M and qs = qs]) auto
  qed
qed

lemma reopened_open: "\<not> q_has Qclosed (reopened_queue r)"
  by (simp add: reopened_queue_def q_has_def q_raise_def q_clear_def flag_numbers bit_simps)

lemma pipeclose_ok:
  assumes ok: "pipe_ok p y W" and cs: "y_chans y = cs1 @ c # cs2"
  shows "\<exists>s'. pipeclose c (y_st y) = (Inr (), s') \<and> (\<exists>W. pipe_ok p \<lparr>y_st = s', y_chans = cs1 @ cs2\<rparr> W)"
proof -
  have mem: "c \<in> set (y_chans y)" using cs by simp
  obtain r M qs where r: "W = (M, qs)" "pipes (y_st y) p = Some r" "counted (y_chans y) r" "has_queues M (pw (y_st y)) r qs" "reusable r qs"
    "c_aux c = p" "good_qid (c_qid c)" using pipe_okE [OF ok mem] .
  have lk: "\<not> pp_locked r" and ref: "pp_ref r = int (length cs1 + length cs2) + 1" using r(3) by (simp_all add: counted_def cs)
  obtain r' qs' where a: "after_close c (r, qs) = (r', qs')" by (cases "after_close c (r, qs)")
  have r': "r' = (case open_side c of None \<Rightarrow> r | Some i \<Rightarrow> count i (-1) r)" using after_close_pipe [of c r qs] a by simp
  have q': "pp_q r' = pp_q r" "pp_locked r' = pp_locked r" by (simp_all add: r' split: option.splits)
  have "pp_qref r' i = open_on i (cs1 @ cs2)" for i using r(3) by (auto simp: r' counted_def cs split: option.splits)
  then have cnt: "counted (cs1 @ cs2) (r'\<lparr>pp_ref := pp_ref r - 1\<rparr>)" using lk ref q' by (simp add: counted_def)
  have re: "reusable (r'\<lparr>pp_ref := pp_ref r - 1\<rparr>) qs'"
    using a reopened_open by (auto simp: reusable_def after_close_def after_reopen_def split: prod.splits)
  have chans: "c_aux x = p \<and> good_qid (c_qid x)" if "x \<in> set (cs1 @ cs2)" for x using pipe_ok_chans [OF ok, of x] that cs by auto
  have "wp (pipeclose c) (\<lambda>_ s'. \<exists>W. pipe_ok p \<lparr>y_st = s', y_chans = cs1 @ cs2\<rparr> W) (\<lambda>_ _. False) (y_st y)"
  proof (rule pipeclose_wp [OF _ lk r(4) a])
    show "pipes (y_st y) (c_aux c) = Some r" using r by simp
    fix w' assume w': "has_queues M w' r qs'"
    then have h: "has_queues M w' (r'\<lparr>pp_ref := pp_ref r - 1\<rparr>) qs'" using q'(1) by (simp add: has_queues_def)
    show "\<exists>W. pipe_ok p \<lparr>y_st = if pp_ref r = 1 then (y_st y)\<lparr>pw := without_queues r w', pipes := (pipes (y_st y))(c_aux c := None)\<rparr>
        else (y_st y)\<lparr>pw := w', pipes := (pipes (y_st y))(c_aux c \<mapsto> r'\<lparr>pp_ref := pp_ref r - 1\<rparr>)\<rparr>, y_chans = cs1 @ cs2\<rparr> W"
    proof (cases "cs1 @ cs2 = []")
      case True
      then show ?thesis using ref r(6) by (simp add: pipe_ok_def)
    next
      case False
      then have "length cs1 + length cs2 \<noteq> 0" by auto
      then have "pp_ref r \<noteq> 1" using ref by linarith
      then show ?thesis
        using False h cnt re chans r(6) by (intro pipe_okI [where r = "r'\<lparr>pp_ref := pp_ref r - 1\<rparr>" and M = M and qs = qs']) auto
    qed
  qed
  then show ?thesis by (auto simp: wp_total_iff)
qed

lemma pipe_io_ok:
  assumes ok: "pipe_ok p y W" and k: "keeps_queues p (y_st y) s'"
  shows "\<exists>W. pipe_ok p \<lparr>y_st = s', y_chans = y_chans y\<rparr> W"
proof (cases "y_chans y")
  case Nil
  then show ?thesis using ok k by (simp add: pipe_ok_def keeps_queues_def)
next
  case (Cons c cs)
  then have mem: "c \<in> set (y_chans y)" by simp
  obtain r M qs where r: "W = (M, qs)" "pipes (y_st y) p = Some r" "counted (y_chans y) r" "has_queues M (pw (y_st y)) r qs" "reusable r qs"
    "c_aux c = p" "good_qid (c_qid c)" using pipe_okE [OF ok mem] .
  then obtain M' qs' where q: "has_queues M' (pw s') r qs'" "\<forall>i. q_has Qclosed (qs' i) = q_has Qclosed (qs i)" and p: "pipes s' p = Some r"
    using k unfolding keeps_queues_def by metis
  then have "reusable r qs'" using r(5) by (simp add: reusable_def)
  then show ?thesis using r q p pipe_ok_chans [OF ok] Cons by (intro pipe_okI [where r = r and M = M' and qs = qs']) auto
qed


section \<open>Attaching\<close>

lemma new_pipe_wp:
  assumes "ok M (pw s)" and "\<And>w'. ok M w' \<Longrightarrow> ctx w' = ctx (pw s) \<Longrightarrow>
      Q (Some (kcalls (pw s))) (s\<lparr>pw := w', pipes := (pipes s)(kcalls (pw s) \<mapsto>
        \<lparr>pp_locked = False, pp_ref = 0, pp_path = 0, pp_q = (\<lambda>_. 0), pp_qref = (\<lambda>_. 0)\<rparr>)\<rparr>)"
    and "\<And>w'. Q None (s\<lparr>pw := w'\<rparr>)"
  shows "wp new_pipe Q E s"
proof -
  have "ok M ((pw s)\<lparr>kcalls := Suc (kcalls (pw s))\<rparr>)" using assms(1) kinv_calls [of "pw s" M] by (auto simp: ok_def)
  then show ?thesis using assms(2) [of "(pw s)\<lparr>kcalls := Suc (kcalls (pw s))\<rparr>"] assms(3)
    by (auto simp: new_pipe_def malloc_def wp_pipe ctx_def split: option.splits)
qed

definition pipe_queue :: Queue where
  "pipe_queue = blank_queue\<lparr>q_limit := PIPEQSIZE, q_inilim := PIPEQSIZE, q_kick := False, q_state := set_bit Qstarve 0, q_eof := 0, q_noblock := 0\<rparr>"

lemma pipe_queue_ok: "bfirst pipe_queue = []" "qinv pipe_queue" "\<not> q_has Qclosed pipe_queue"
  by (simp_all add: pipe_queue_def blank_queue_def qinv_def q_has_def flag_numbers bit_simps)

lemma pipe_qopen_wp:
  assumes w: "ok M (pw s)" and S: "\<And>w' q. ok M w' \<Longrightarrow> kqueues w' = (kqueues (pw s))(q \<mapsto> pipe_queue) \<Longrightarrow> kqueues (pw s) q = None \<Longrightarrow> ctx w' = ctx (pw s) \<Longrightarrow>
      Q (Some q) (s\<lparr>pw := w'\<rparr>)"
    and N: "\<And>w'. Q None (s\<lparr>pw := w'\<rparr>)"
  shows "wp (kern_op (qopen PIPEQSIZE 0 False)) Q E s"
  unfolding wp_kern_op qopen_def pipe_queue_def [symmetric]
  by (rule new_queue_wp [OF w pipe_queue_ok(1,2)]) (use S N in auto)

lemma no_memory_wp: "wp no_memory Q (\<lambda>_ _. True) s" "wp (seq (free_pipe p) no_memory) Q (\<lambda>_ _. True) s"
  "wp (seq (kern_op (free_queue q)) (seq (free_pipe p) no_memory)) Q (\<lambda>_ _. True) s"
  by (simp_all add: no_memory_def free_pipe_def free_queue_def wp_pipe)

text \<open>A pipe that has just been attached.\<close>

definition newborn :: "nat set \<Rightarrow> nat \<Rightarrow> Chan \<Rightarrow> pst \<Rightarrow> bool" where
  "newborn M p c s \<longleftrightarrow> c_aux c = p \<and> good_qid (c_qid c) \<and> open_side c = None \<and> (\<exists>r. pipes s p = Some r \<and>
    \<not> pp_locked r \<and> pp_ref r = 1 \<and> (\<forall>i. pp_qref r i = 0) \<and> has_queues M (pw s) r (\<lambda>_. pipe_queue))"

definition growing :: "nat set \<Rightarrow> nat \<Rightarrow> (side \<Rightarrow> nat option) \<Rightarrow> pst \<Rightarrow> bool" where
  "growing M p qs s \<longleftrightarrow> ok M (pw s) \<and> kilocks (pw s) = [] \<and> (\<exists>r. pipes s p = Some r \<and> \<not> pp_locked r \<and> pp_ref r = 1 \<and> (\<forall>i. pp_qref r i = 0) \<and>
     (\<forall>i q. qs i = Some q \<longrightarrow> pp_q r i = q \<and> kqueues (pw s) q = Some pipe_queue))"

lemma all_side: "(\<forall>i. P i) \<longleftrightarrow> P Data0 \<and> P Data1"
  by (metis side.exhaust)

lemma name_pipe_wp:
  assumes "growing M p (\<lambda>i. Some (if i = Data0 then q0 else q1)) s" and "q0 \<noteq> q1" and "c_flag c = 0"
  shows "wp (name_pipe c p) (newborn M p) (\<lambda>_ _. True) s"
proof -
  have "good_qid (mkqid (PIPEQID x Qdir) 0 QTDIR)" for x by (simp add: good_qid_def mkqid_def is_dir_def PIPETYPE_PIPEQID)
  then show ?thesis
    using assms by (auto simp: growing_def newborn_def name_pipe_def wp_pipe has_queues_def all_side open_side_def)
qed

lemma second_queue_wp:
  assumes g: "growing M p [Data0 \<mapsto> q0] s" and "c_flag c = 0"
  shows "wp (second_queue c p q0) (newborn M p) (\<lambda>_ _. True) s"
  unfolding second_queue_def wp_and_then [of "kern_op _"]
proof (rule pipe_qopen_wp [of M s])
  show "ok M (pw s)" using g by (simp add: growing_def)
  fix w q assume w: "ok M w" "kqueues w = (kqueues (pw s))(q \<mapsto> pipe_queue)" "kqueues (pw s) q = None" "ctx w = ctx (pw s)"
  obtain r where r: "pipes s p = Some r" using g by (auto simp: growing_def)
  let ?s = "s\<lparr>pw := w, pipes := (pipes s)(p \<mapsto> r\<lparr>pp_q := (pp_q r)(Data1 := q)\<rparr>)\<rparr>"
  have "q0 \<noteq> q" using g w(3) by (auto simp: growing_def)
  moreover have "growing M p (\<lambda>i. Some (if i = Data0 then q0 else q)) ?s" using g w r calculation by (auto simp: growing_def ctx_def all_side)
  ultimately have "wp (name_pipe c p) (newborn M p) (\<lambda>_ _. True) ?s" using assms(2) by (intro name_pipe_wp)
  then show "wp (case Some q of None \<Rightarrow> seq (kern_op (free_queue q0)) (seq (free_pipe p) no_memory)
      | Some q1 \<Rightarrow> seq (pset p (\<lambda>r. r\<lparr>pp_q := (pp_q r)(Data1 := q1)\<rparr>)) (name_pipe c p)) (newborn M p) (\<lambda>_ _. True) (s\<lparr>pw := w\<rparr>)"
    using r by (simp add: wp_seq wp_pset)
qed (simp add: no_memory_wp)

lemma first_queue_wp:
  assumes g: "growing M p Map.empty s" and "c_flag c = 0"
  shows "wp (first_queue c p) (newborn M p) (\<lambda>_ _. True) s"
  unfolding first_queue_def wp_and_then [of "kern_op _"]
proof (rule pipe_qopen_wp [of M s])
  show "ok M (pw s)" using g by (simp add: growing_def)
  fix w q assume w: "ok M w" "kqueues w = (kqueues (pw s))(q \<mapsto> pipe_queue)" "kqueues (pw s) q = None" "ctx w = ctx (pw s)"
  obtain r where r: "pipes s p = Some r" using g by (auto simp: growing_def)
  let ?s = "s\<lparr>pw := w, pipes := (pipes s)(p \<mapsto> r\<lparr>pp_q := (pp_q r)(Data0 := q)\<rparr>)\<rparr>"
  have "growing M p [Data0 \<mapsto> q] ?s" using g w r by (auto simp: growing_def ctx_def)
  then have "wp (second_queue c p q) (newborn M p) (\<lambda>_ _. True) ?s" using assms(2) by (intro second_queue_wp)
  then show "wp (case Some q of None \<Rightarrow> seq (free_pipe p) no_memory
      | Some q0 \<Rightarrow> seq (pset p (\<lambda>r. r\<lparr>pp_q := (pp_q r)(Data0 := q0)\<rparr>)) (second_queue c p q0)) (newborn M p) (\<lambda>_ _. True) (s\<lparr>pw := w\<rparr>)"
    using r by (simp add: wp_seq wp_pset)
qed (simp add: no_memory_wp)

lemma pipeattach_wp:
  assumes "ok M (pw s)" and "kilocks (pw s) = []"
  shows "wp (pipeattach old spec) (newborn M (kcalls (pw s))) (\<lambda>_ _. True) s"
  unfolding pipeattach_def Let_def wp_and_then [of new_pipe]
proof (rule new_pipe_wp [OF assms(1)])
  fix w assume w: "ok M w" "ctx w = ctx (pw s)"
  let ?p = "kcalls (pw s)" and ?c = "devattach old 124 (\<lambda>dc. [word_of_int dc]) spec"
  let ?s = "s\<lparr>pw := w, pipes := (pipes s)(?p \<mapsto> \<lparr>pp_locked = False, pp_ref = 1, pp_path = 0, pp_q = (\<lambda>_. 0), pp_qref = (\<lambda>_. 0)\<rparr>)\<rparr>"
  have "growing M ?p Map.empty ?s" using w assms by (auto simp: growing_def ctx_def)
  then have "wp (first_queue ?c ?p) (newborn M ?p) (\<lambda>_ _. True) ?s" by (rule first_queue_wp) (simp add: devattach_def newchan_def)
  then show "wp (case Some ?p of None \<Rightarrow> no_memory | Some p \<Rightarrow> seq (pset p (\<lambda>r. r\<lparr>pp_ref := 1\<rparr>)) (first_queue ?c p)) (newborn M ?p) (\<lambda>_ _. True)
      (s\<lparr>pw := w, pipes := (pipes s)(?p \<mapsto> \<lparr>pp_locked = False, pp_ref = 0, pp_path = 0, pp_q = (\<lambda>_. 0), pp_qref = (\<lambda>_. 0)\<rparr>)\<rparr>)"
    by (simp add: wp_seq wp_pset)
qed (simp add: no_memory_wp)

lemma attached_ok:
  assumes "attached p y"
  shows "\<exists>W. pipe_ok p y W"
proof -
  obtain old spec s c M where a: "ok M (pw s)" "kilocks (pw s) = []" "pipeattach old spec s = (Inr c, y_st y)" "c_aux c = p" "y_chans y = [c]"
    using assms by (auto simp: attached_def)
  have "newborn M (kcalls (pw s)) c (y_st y)" by (rule wpD_Inr [OF pipeattach_wp [OF a(1,2)] a(3)])
  then obtain r where "good_qid (c_qid c)" "open_side c = None" "pipes (y_st y) p = Some r" "\<not> pp_locked r" "pp_ref r = 1" "\<forall>i. pp_qref r i = 0"
    "has_queues M (pw (y_st y)) r (\<lambda>_. pipe_queue)" using a(4) by (auto simp: newborn_def)
  then show ?thesis
    using a(4,5) pipe_queue_ok(3) by (intro pipe_okI [where r = r and M = M and qs = "\<lambda>_. pipe_queue"]) (auto simp: counted_def reusable_def)
qed

lemma pipestep_ok:
  assumes ok: "pipe_ok p y W" and "pipestep p y y'"
  shows "\<exists>W'. pipe_ok p y' W'"
  using assms(2)
proof cases
  case (step_pipewalk c v old ns res s')
  then show ?thesis using pipewalk_ok [OF ok step_pipewalk(2,3)] by simp
next
  case (step_pipeopen cs1 c cs2 omode m c' s')
  then show ?thesis using pipeopen_ok [OF ok step_pipeopen(2-5)] by simp
next
  case (step_pipeclose cs1 c cs2 s')
  then show ?thesis using pipeclose_ok [OF ok step_pipeclose(2)] by auto
next
  case (step_io s')
  then show ?thesis using pipe_io_ok [OF ok step_io(2)] by simp
qed

interpretation pipe_system: invariant_system "attached p" "pipestep p" "pipe_ok p" for p
  by unfold_locales (use attached_ok pipestep_ok in blast)+

end
