(* ===== verification/Pipe_Data.thy ===== *)
theory Pipe_Data
  imports Pipe_Use
begin

unbundle bit_operations_syntax

text \<open>
  The bytes that go through a pipe: each direction interprets the contract of a byte queue. Reads and writes as steps of the system of
  channels, and the refusal of writes to a closed queue.
\<close>

section \<open>Bytes through a pipe\<close>

text \<open>
  What channels of side \<open>i\<close> write, and what those of side \<open>j\<close> read. A writer asleep in flow control has written its bytes.
\<close>

inductive pput :: "nat \<Rightarrow> side \<Rightarrow> bytes \<Rightarrow> nat set \<times> pst \<Rightarrow> nat set \<times> pst \<Rightarrow> bool" for p i where
  put_pipewrite: "c_aux c = p \<Longrightarrow> side_of c = Some i \<Longrightarrow> pipewrite c x s = (Inr n, s') \<Longrightarrow> pput p i x (M, s) (M, s')"
| put_asleep: "c_aux c = p \<Longrightarrow> side_of c = Some i \<Longrightarrow> pipewrite c x s = (Inl (Kernel Blocked), s') \<Longrightarrow> length x \<le> Maxatomic \<Longrightarrow>
    pipes s p = Some r \<Longrightarrow> kqueues (pw s) (pp_q r (other i)) = Some qr \<Longrightarrow> q_len qr sdiv 2 < q_limit qr \<Longrightarrow>
    pput p i x (M, s) (M, s'\<lparr>pw := (pw s')\<lparr>kqlocks := kqlocks (pw s)\<rparr>\<rparr>)"
| put_pipebwrite: "c_aux c = p \<Longrightarrow> side_of c = Some i \<Longrightarrow> pipebwrite c bs s = (Inr n, s') \<Longrightarrow> chain bs \<Longrightarrow> bs \<noteq> [] \<Longrightarrow> ids bs \<subseteq> M \<Longrightarrow>
    pput p i (data bs) (M, s) (M - ids bs, s')"

inductive pget :: "nat \<Rightarrow> side \<Rightarrow> bytes \<Rightarrow> nat set \<times> pst \<Rightarrow> nat set \<times> pst \<Rightarrow> bool" for p j where
  get_piperead: "c_aux c = p \<Longrightarrow> side_of c = Some j \<Longrightarrow> piperead v c va s = (Inr (x, c'), s') \<Longrightarrow> pget p j x (M, s) (M, s')"
| get_pipebread: "c_aux c = p \<Longrightarrow> side_of c = Some j \<Longrightarrow> pipebread v c n s = (Inr [b], s') \<Longrightarrow> pget p j (bytes_of b) (M, s) (insert (b_id b) M, s')"

text \<open>The direction from side \<open>i\<close> to the other.\<close>

definition pipe_stream :: "nat \<Rightarrow> side \<Rightarrow> nat set \<times> pst \<Rightarrow> bool" where
  "pipe_stream p i s \<longleftrightarrow> (\<exists>r. pipes (snd s) p = Some r \<and> stream_queue (pp_q r (other i)) (fst s, pw (snd s)))"

definition pipe_contents :: "nat \<Rightarrow> side \<Rightarrow> nat set \<times> pst \<Rightarrow> bytes" where
  "pipe_contents p i s = (case pipes (snd s) p of None \<Rightarrow> [] | Some r \<Rightarrow> contents (pp_q r (other i)) (fst s, pw (snd s)))"

lemma pf_run: "pipes s p = Some r \<Longrightarrow> and_then (pf p f) k s = k (f r) s"
  by (simp add: and_then_def pf_def)

lemma side_of_type: "side_of c = Some i \<Longrightarrow> PIPETYPE (qpath (c_qid c)) \<noteq> Qdir"
  by (auto simp: side_of_def split: if_splits)

lemma write_queue_run:
  assumes "write_queue c q m s = (res, s')"
  shows "res = Inr n \<Longrightarrow> \<exists>w'. m (pw s) = (Inr n, w') \<and> s' = s\<lparr>pw := w'\<rparr>"
    and "res = Inl (Kernel Blocked) \<Longrightarrow> \<exists>w'. m (pw s) = (Inl Blocked, w') \<and> s' = s\<lparr>pw := w'\<rparr>"
  using assms
  by (auto simp: write_queue_def kern_op_def seq_def and_then_def raise_def split: prod.splits sum.splits kexc.splits pexc.splits)
    (auto simp: closed_pipe_note_def seq_def and_then_def raise_def kern_op_def qf_def modify_def ret_def split: prod.splits sum.splits option.splits if_splits)

lemma pput_enq:
  assumes "pput p i x (M, s) (M', s')" and "pipes s p = Some r"
  shows "pipes s' = pipes s \<and> enq (pp_q r (other i)) x (M, pw s) (M', pw s')"
  using assms(1)
proof cases
  case (put_pipewrite c n)
  then have "write_queue c (pp_q r (other i)) (qwrite (pp_q r (other i)) x) s = (Inr n, s')"
    using assms(2) by (simp add: pipewrite_def pf_run)
  from write_queue_run(1) [OF this refl] show ?thesis using enq_qwrite put_pipewrite(1) by auto
next
  case (put_asleep c s1 r' qr)
  then have "write_queue c (pp_q r (other i)) (qwrite (pp_q r (other i)) x) s = (Inl (Kernel Blocked), s1)"
    using assms(2) by (simp add: pipewrite_def pf_run)
  from write_queue_run(2) [OF this refl] obtain w' where w': "qwrite (pp_q r (other i)) x (pw s) = (Inl Blocked, w')" "s1 = s\<lparr>pw := w'\<rparr>" by blast
  have "r' = r" using put_asleep assms(2) by simp
  then show ?thesis using enq_qwrite_asleep [OF w'(1), of qr M] put_asleep w'(2) by simp
next
  case (put_pipebwrite c bs n)
  then have "write_queue c (pp_q r (other i)) (qbwrite (pp_q r (other i)) bs) s = (Inr n, s')"
    using assms(2) by (simp add: pipebwrite_def pf_run)
  from write_queue_run(1) [OF this refl] show ?thesis using enq_qbwrite put_pipebwrite by auto
qed

lemma pget_deq:
  assumes "pget p j x (M, s) (M', s')" and "pipes s p = Some r"
  shows "pipes s' = pipes s \<and> deq (pp_q r j) x (M, pw s) (M', pw s')"
  using assms(1)
proof cases
  case (get_piperead c v va c')
  then have "and_then (kern_op (qread (pp_q r j) (int (length va)))) (\<lambda>x. ret (x, c)) s = (Inr (x, c'), s')"
    using assms(2) side_of_type [OF get_piperead(3)] by (simp add: piperead_def pf_run)
  then obtain w' where "qread (pp_q r j) (int (length va)) (pw s) = (Inr x, w')" "s' = s\<lparr>pw := w'\<rparr>"
    by (auto simp: and_then_def kern_op_def ret_def split: prod.splits sum.splits)
  then show ?thesis using deq_qread [of _ "int (length va)"] get_piperead(1) by auto
next
  case (get_pipebread c v n b)
  then have "and_then (kern_op (qbread (pp_q r j) (int n))) (\<lambda>b. ret (case b of None \<Rightarrow> [] | Some b \<Rightarrow> [b])) s = (Inr [b], s')"
    using assms(2) by (simp add: pipebread_def pf_run)
  then obtain w' where "qbread (pp_q r j) (int n) (pw s) = (Inr (Some b), w')" "s' = s\<lparr>pw := w'\<rparr>"
    by (auto simp: and_then_def kern_op_def ret_def split: prod.splits sum.splits option.splits)
  then show ?thesis using deq_qbread [of _ "int n"] get_pipebread by auto
qed

interpretation pipe_direction: byte_queue "pipe_stream p i" "pipe_contents p i" "pput p i" "pget p (other i)" for p i
proof
  fix s s' x assume a: "pipe_stream p i s" "pput p i x s s'"
  then obtain r where r: "pipes (snd s) p = Some r" "stream_queue (pp_q r (other i)) (fst s, pw (snd s))" by (auto simp: pipe_stream_def)
  have e: "pipes (snd s') = pipes (snd s)" "enq (pp_q r (other i)) x (fst s, pw (snd s)) (fst s', pw (snd s'))"
    using pput_enq [of p i x "fst s" "snd s" "fst s'" "snd s'" r] a(2) r(1) by auto
  show "pipe_stream p i s'" "pipe_contents p i s' = pipe_contents p i s @ x"
    using kqueue.put_inv [OF r(2) e(2)] kqueue.put_contents [OF r(2) e(2)] r(1) e(1) by (auto simp: pipe_stream_def pipe_contents_def)
next
  fix s s' x assume a: "pipe_stream p i s" "pget p (other i) x s s'"
  then obtain r where r: "pipes (snd s) p = Some r" "stream_queue (pp_q r (other i)) (fst s, pw (snd s))" by (auto simp: pipe_stream_def)
  have e: "pipes (snd s') = pipes (snd s)" "deq (pp_q r (other i)) x (fst s, pw (snd s)) (fst s', pw (snd s'))"
    using pget_deq [of p "other i" x "fst s" "snd s" "fst s'" "snd s'" r] a(2) r(1) by auto
  show "pipe_stream p i s'" "pipe_contents p i s = x @ pipe_contents p i s'"
    using kqueue.get_inv [OF r(2) e(2)] kqueue.get_contents [OF r(2) e(2)] r(1) e(1) by (auto simp: pipe_stream_def pipe_contents_def)
qed

section \<open>Reading and writing as steps\<close>

text \<open>In a kernel where nothing else happens, reads and writes of a pipe keep its queues as the steps of the system ask for.\<close>

lemma keeps_queuesI:
  assumes "pipes s p = Some r" and "pipes s' = pipes s" and "kqueues (pw s) (pp_q r i) = Some q"
    and "\<And>M. ok M (pw s) \<Longrightarrow> kilocks (pw s) = [] \<Longrightarrow> ok M (pw s') \<and> after (pw s) (pw s') \<and>
      (\<exists>q'. q_has Qclosed q' = q_has Qclosed q \<and> kqueues (pw s') = (kqueues (pw s))(pp_q r i \<mapsto> q'))"
  shows "keeps_queues p s s'"
  unfolding keeps_queues_def
proof (intro conjI allI impI)
  fix r1 M qs assume r1: "pipes s p = Some r1" and h: "has_queues M (pw s) r1 qs"
  have e: "r1 = r" "qs i = q" using r1 h assms(1,3) by (auto simp: has_queues_def)
  obtain q' where q': "ok M (pw s')" "after (pw s) (pw s')" "q_has Qclosed q' = q_has Qclosed q" "kqueues (pw s') = (kqueues (pw s))(pp_q r i \<mapsto> q')"
    using assms(4) [of M] h by (auto simp: has_queues_def)
  have "kqueues (pw s') (pp_q r j) = Some ((qs(i := q')) j)" for j
    using q'(4) has_queues_apart [OF h, of i j] h e(1) by (auto simp: has_queues_def)
  then have "has_queues M (pw s') r1 (qs(i := q'))"
    using h q'(1) after_locks [OF q'(2)] e(1) by (auto simp: has_queues_def)
  then show "\<exists>M' qs'. has_queues M' (pw s') r1 qs' \<and> (\<forall>i. q_has Qclosed (qs' i) = q_has Qclosed (qs i))"
    using q'(3) e(2) by (intro exI [of _ M] exI [of _ "qs(i := q')"]) simp
qed (use assms(2) in simp)

lemma piperead_keeps:
  assumes "pipes s (c_aux c) = Some r" and i: "side_of c = Some i" and q: "kqueues (pw s) (pp_q r i) = Some q" "prompt q (pw s)" "\<not> q_kick q"
    and lk: "(pp_q r i, True) \<notin> set (kqlocks (pw s))" and run: "piperead v c va s = (Inr res, s')"
  shows "keeps_queues (c_aux c) s s'"
proof -
  have "and_then (kern_op (qread (pp_q r i) (int (length va)))) (\<lambda>x. ret (x, c)) s = (Inr res, s')"
    using run assms(1) i side_of_type [OF i] by (simp add: piperead_def pf_run)
  then obtain x w' where w': "qread (pp_q r i) (int (length va)) (pw s) = (Inr x, w')" "s' = s\<lparr>pw := w'\<rparr>"
    by (auto simp: and_then_def kern_op_def ret_def split: prod.splits sum.splits)
  show ?thesis
  proof (rule keeps_queuesI [OF assms(1) _ q(1)])
    fix M assume m: "ok M (pw s)" "kilocks (pw s) = []"
    let ?Q = "\<lambda>w'. ok M w' \<and> after (pw s) w' \<and> (\<exists>q'. q_has Qclosed q' = q_has Qclosed q \<and> kqueues w' = (kqueues (pw s))(pp_q r i \<mapsto> q'))"
    have "wp (qread (pp_q r i) (int (length va))) (\<lambda>_. ?Q) (\<lambda>_ _. True) (pw s)"
    proof (rule qread_wp [OF m(1) q(1) m(2) lk])
      fix x w' assume "got M (pp_q r i) (int (length va)) q (pw s) x w'"
      then obtain r1 r2 where "ok M w'" "after (pw s) w'" "reads (int (length va)) r1 x r2" "same q r1" "kqueues w' = (kqueues (pw s))(pp_q r i \<mapsto> r2)"
        using q(2,3) by (auto simp: got_def)
      moreover from this have "q_has Qclosed r2 = q_has Qclosed q" using alike_has(1) [of q r1] alike_has(1) [of r1 r2] by (simp add: same_def reads_def)
      ultimately show "?Q w'" by blast
    next
      fix e w' assume "eof_seen M (pp_q r i) q (pw s) 0 e w'"
      then show "?Q w'" using q(2) unfolding eof_seen_def by blast
    qed simp_all
    then show "ok M (pw s') \<and> after (pw s) (pw s') \<and> (\<exists>q'. q_has Qclosed q' = q_has Qclosed q \<and> kqueues (pw s') = (kqueues (pw s))(pp_q r i \<mapsto> q'))"
      using w' by (simp add: wp_def)
  qed (use w'(2) in simp)
qed

lemma pipewrite_keeps:
  assumes "pipes s (c_aux c) = Some r" and i: "side_of c = Some i" and q: "kqueues (pw s) (pp_q r (other i)) = Some q" "quiet q (pw s)"
    and lk: "(pp_q r (other i), False) \<notin> set (kqlocks (pw s))" and run: "pipewrite c x s = (Inr n, s')"
  shows "keeps_queues (c_aux c) s s'"
proof -
  have "write_queue c (pp_q r (other i)) (qwrite (pp_q r (other i)) x) s = (Inr n, s')"
    using run assms(1) i by (simp add: pipewrite_def pf_run)
  from write_queue_run(1) [OF this refl] obtain w' where w': "qwrite (pp_q r (other i)) x (pw s) = (Inr n, w')" "s' = s\<lparr>pw := w'\<rparr>" by blast
  show ?thesis
  proof (rule keeps_queuesI [OF assms(1) _ q(1)])
    fix M assume m: "ok M (pw s)" "kilocks (pw s) = []"
    let ?Q = "\<lambda>w'. ok M w' \<and> after (pw s) w' \<and> (\<exists>q'. q_has Qclosed q' = q_has Qclosed q \<and> kqueues w' = (kqueues (pw s))(pp_q r (other i) \<mapsto> q'))"
    have "wp (qwrite (pp_q r (other i)) x) (\<lambda>_. ?Q) (\<lambda>_ _. True) (pw s)"
    proof (rule qwrite_wp [OF m(1) q(1) m(2) lk])
      fix k w' assume "wrote M (pp_q r (other i)) (take k x) q (pw s) (pw s) w'"
      then show "?Q w'" using q(2) alike_has(1) [of q] unfolding wrote_def by blast
    qed simp_all
    then show "ok M (pw s') \<and> after (pw s) (pw s') \<and> (\<exists>q'. q_has Qclosed q' = q_has Qclosed q \<and> kqueues (pw s') = (kqueues (pw s))(pp_q r (other i) \<mapsto> q'))"
      using w' by (simp add: wp_def)
  qed (use w'(2) in simp)
qed

section \<open>Hanging up\<close>

lemma qwrite_refused:
  assumes w: "ok M w" "kqueues w q = Some r" "kilocks w = []" "(q, False) \<notin> set (kqlocks w)" "plenty w"
    and r: "quiet r w" "q_has Qclosed r" "q_len r sdiv 2 < q_limit r"
  shows "\<exists>w'. qwrite q p w = (Inl (Error (q_err r)), w') \<and> ok M w' \<and> kqueues w' = kqueues w \<and> ctx w' = ctx w"
proof -
  define n where "n = min (length p) Maxatomic"
  have n: "min (int (length p) - 0) (int Maxatomic) = int n" "length (take n p) = n" "n < 2147483648" by (auto simp: n_def)
  let ?E = "\<lambda>e w'. e = Error (q_err r) \<and> ok M w' \<and> kqueues w' = kqueues w \<and> ctx w' = ctx w"
  have b: "wp (qbwrite q [grown b (take n p)]) F ?E w1"
    if a: "ok (insert (b_id b) M) w1" "b_id b \<notin> M" "fresh_block b (int n)" "later w w1" for b w1 F
  proof -
    have q: "kqueues w1 = kqueues w" "kenv w1 = []" using later_queues [OF a(4)] r(1) by (auto simp: quiet_def)
    have lk: "kilocks w1 = []" "(q, False) \<notin> set (kqlocks w1)" "ctx w1 = ctx w" using later_after [OF a(4)] w(3,4) by (auto simp: after_def ctx_def)
    have g: "wfB (grown b (take n p))" using fresh_put [of b "take n p"] a(3) n(2,3) by auto
    show ?thesis
      by (rule qbwrite_wp [where M = M and r = r]) (use a q lk g w(2) r in \<open>auto simp: quiet_def sent_def changed_def map_upd_triv\<close>)
  qed
  have "wp (qwrite_loop (length p) q p 0) F ?E w" for F
    unfolding qwrite_loop.simps [of "length p"] n(1) Let_def
    using w(1,5) b n by (auto simp: wp_flow wp_on_Error fresh_put n_def intro!: allocb_wp)
  then have "wp (qwrite q p) (\<lambda>_ _. False) ?E w"
    using w(2) r by (simp add: qwrite_def wp_flow wp_qf only_if_def)
  then show ?thesis by (cases "qwrite q p w") (auto simp: wp_def split: sum.splits)
qed

end
