(* ===== verification/Pipes_Props.thy ===== *)
theory Pipes_Props
  imports Pipe_Data
begin

unbundle bit_operations_syntax

text \<open>The properties of pipes.\<close>

section \<open>Reference counts\<close>

text \<open>
  C24. A pipe exists exactly as long as there are channels to it. As long as it exists its reference count is their number, the count of each
  side is the number of open channels of that side, it has two different queues, its lock is free between operations, and
  while neither side is open no queue is hung up. Every channel can be closed.
\<close>

theorem pipe_refs:
  assumes "preach p y"
  shows "(y_chans y = [] \<longleftrightarrow> pipes (y_st y) p = None) \<and>
     (\<forall>r. pipes (y_st y) p = Some r \<longrightarrow> \<not> pp_locked r \<and> pp_ref r = int (length (y_chans y)) \<and> (\<forall>i. pp_qref r i = open_on i (y_chans y)) \<and>
       pp_q r Data0 \<noteq> pp_q r Data1 \<and> (\<forall>i. \<exists>q. kqueues (pw (y_st y)) (pp_q r i) = Some q \<and>
         (open_on Data0 (y_chans y) = 0 \<and> open_on Data1 (y_chans y) = 0 \<longrightarrow> \<not> q_has Qclosed q))) \<and>
     (\<forall>c\<in>set (y_chans y). \<exists>s'. pipeclose c (y_st y) = (Inr (), s'))"
proof -
  obtain W where ok: "pipe_ok p y W" using pipe_system.invariant_holds [OF assms] by blast
  have "\<exists>s'. pipeclose c (y_st y) = (Inr (), s')" if c: "c \<in> set (y_chans y)" for c
  proof -
    obtain cs1 cs2 where "y_chans y = cs1 @ c # cs2" using split_list [OF c] by blast
    then show ?thesis using pipeclose_ok [OF ok] by blast
  qed
  then show ?thesis
    using ok by (auto simp: pipe_ok_def counted_def has_queues_def reusable_def split: if_splits)
qed

definition pipe_start :: pst where
  "pipe_start = \<lparr>pw = calm 100 {} Map.empty, pipes = Map.empty, pipepath = 0, pnotes = []\<rparr>"

lemma pipe_start_ok: "ok {} (pw pipe_start)" "kilocks (pw pipe_start) = []" "kcalls (pw pipe_start) = 100"
proof -
  have "kinv (calm 100 {} Map.empty) {}" by (intro kinvI) (auto simp: calm_def good_malloc_def queued_def)
  then show "ok {} (pw pipe_start)" by (simp add: pipe_start_def ok_def)
qed (simp_all add: pipe_start_def calm_def)

lemma pipe_start_attach: "\<exists>c s. pipeattach (0, mkqid 0 0 0) None pipe_start = (Inr c, s)"
  by (simp add: pipeattach_def new_pipe_def first_queue_def second_queue_def name_pipe_def kern_op_def malloc_def qopen_def new_queue_def pset_def
      and_then_def seq_def fetch_def modify_def ret_def pipe_start_def calm_def)

lemma pipe_refs_witness:
  "\<exists>y c. preach 100 y \<and> y_chans y = [c] \<and> pipes (y_st y) 100 \<noteq> None \<and> (\<exists>s'. pipeclose c (y_st y) = (Inr (), s'))"
proof -
  obtain c s where run: "pipeattach (0, mkqid 0 0 0) None pipe_start = (Inr c, s)" using pipe_start_attach by blast
  have "c_aux c = 100" using wpD_Inr [OF pipeattach_wp [OF pipe_start_ok(1,2)] run] by (simp add: newborn_def pipe_start_ok(3))
  then have "attached 100 \<lparr>y_st = s, y_chans = [c]\<rparr>"
    unfolding attached_def using pipe_start_ok(1,2) run by (intro exI conjI) (auto simp only: psys.simps)
  then have "preach 100 \<lparr>y_st = s, y_chans = [c]\<rparr>" by (rule reach_init)
  from this pipe_refs [OF this] show ?thesis by (intro exI [of _ "\<lparr>y_st = s, y_chans = [c]\<rparr>"] exI [of _ c]) auto
qed

section \<open>Data\<close>

text \<open>
  C25. Each direction of a pipe is a byte queue: whatever is written to one side with \<^verbatim>\<open>pipewrite\<close> and \<^verbatim>\<open>pipebwrite\<close> comes out of the other
  side through \<^verbatim>\<open>piperead\<close> and \<^verbatim>\<open>pipebread\<close>, once and in order, and what is not read yet is in the pipe.
\<close>

theorem pipe_fifo:
  assumes "history (pput p i) (pget p (other i)) s ins outs s'" and "pipe_stream p i s"
  shows "pipe_stream p i s' \<and> pipe_contents p i s @ ins = outs @ pipe_contents p i s'"
  using pipe_direction.fifo [OF assms] .

definition sample_pipe :: "int \<Rightarrow> int \<Rightarrow> Block list \<Rightarrow> Block list \<Rightarrow> pst" where
  "sample_pipe n0 n1 bs0 bs1 = \<lparr>pw = calm 100 (ids bs0 \<union> ids bs1) [50 \<mapsto> sample_queue 0 1000 bs0, 51 \<mapsto> sample_queue 0 1000 bs1],
     pipes = [7 \<mapsto> \<lparr>pp_locked = False, pp_ref = n0 + n1, pp_path = 1, pp_q = case_side 50 51, pp_qref = case_side n0 n1\<rparr>], pipepath = 1, pnotes = []\<rparr>"

definition sample_chan :: "side \<Rightarrow> Chan" where
  "sample_chan i = (newchan (0, mkqid (64 + ucast (file_type i)) 0 0))\<lparr>c_flag := COPEN, c_aux := 7\<rparr>"

lemma sample_chan_simps [simp]: "side_of (sample_chan i) = Some i" "c_aux (sample_chan i) = 7" "open_side (sample_chan i) = Some i" "c_flag (sample_chan i) = 1"
  by (cases i; simp add: sample_chan_def newchan_def side_of_def open_side_def PIPETYPE_def mkqid_def)+

lemma sample_pipe_ok:
  assumes "chain bs0" and "chain bs1" and "\<And>j. j \<in> ids bs0 \<union> ids bs1 \<Longrightarrow> j < 100" and "ids bs0 \<inter> ids bs1 = {}"
  shows "ok {} (pw (sample_pipe n0 n1 bs0 bs1))"
proof -
  have "qinv (sample_queue 0 1000 bs0)" "qinv (sample_queue 0 1000 bs1)" using assms(1,2) by (simp_all add: qinv_def sample_queue_def)
  moreover have "queued (pw (sample_pipe n0 n1 bs0 bs1)) = ids bs0 \<union> ids bs1"
    by (auto simp: queued_def sample_pipe_def calm_def sample_queue_def split: if_splits)
  ultimately have "kinv (pw (sample_pipe n0 n1 bs0 bs1)) {}"
    using assms(3,4) by (intro kinvI) (auto simp: sample_pipe_def calm_def good_malloc_def sample_queue_def split: if_splits)
  then show ?thesis by (simp add: ok_def sample_pipe_def)
qed

lemma sample_pipe_simps [simp]: "kqueues (pw (sample_pipe n0 n1 bs0 bs1)) = [50 \<mapsto> sample_queue 0 1000 bs0, 51 \<mapsto> sample_queue 0 1000 bs1]"
  "kilocks (pw (sample_pipe n0 n1 bs0 bs1)) = []" "kqlocks (pw (sample_pipe n0 n1 bs0 bs1)) = []" "kenv (pw (sample_pipe n0 n1 bs0 bs1)) = []"
  "plenty (pw (sample_pipe n0 n1 bs0 bs1))" "klive (pw (sample_pipe n0 n1 bs0 bs1)) = ids bs0 \<union> ids bs1"
  "pipes (sample_pipe n0 n1 bs0 bs1) 7 = Some \<lparr>pp_locked = False, pp_ref = n0 + n1, pp_path = 1, pp_q = case_side 50 51, pp_qref = case_side n0 n1\<rparr>"
  "pnotes (sample_pipe n0 n1 bs0 bs1) = []"
  by (simp_all add: sample_pipe_def plenty_def) (simp_all add: calm_def)

lemma sample_pipe_queues:
  assumes "ok {} (pw (sample_pipe n0 n1 bs0 bs1))"
  shows "has_queues {} (pw (sample_pipe n0 n1 bs0 bs1)) \<lparr>pp_locked = False, pp_ref = n0 + n1, pp_path = 1, pp_q = case_side 50 51, pp_qref = case_side n0 n1\<rparr>
    (case_side (sample_queue 0 1000 bs0) (sample_queue 0 1000 bs1))"
  using assms by (auto simp: has_queues_def split: side.splits)

lemma piperead_run: "side_of c = Some i \<Longrightarrow> pipes s (c_aux c) = Some r \<Longrightarrow> qread (pp_q r i) (int (length va)) (pw s) = (res, w') \<Longrightarrow>
    piperead v c va s = (case res of Inl e \<Rightarrow> Inl (Kernel e) | Inr x \<Rightarrow> Inr (x, c), s\<lparr>pw := w'\<rparr>)"
  using side_of_type [of c i] by (simp add: piperead_def pf_run) (auto simp: and_then_def kern_op_def ret_def split: sum.splits)

theorem pipe_fifo_witness:
  "\<exists>x s'. history (pput 7 Data0) (pget 7 Data1) ({}, sample_pipe 1 1 [] [blk 1 [1, 2]]) [] x s' \<and> x @ pipe_contents 7 Data0 s' = [1, 2]"
proof -
  let ?s = "sample_pipe 1 1 [] [blk 1 [1, 2]]"
  have ok: "ok {} (pw ?s)" by (rule sample_pipe_ok) auto
  have "stream_queue 51 ({}, pw ?s)" using ok by (auto simp: stream_queue_def quiet_def flag_numbers)
  then have s: "pipe_stream 7 Data0 ({}, ?s)" by (auto simp: pipe_stream_def)
  have c: "pipe_contents 7 Data0 ({}, ?s) = [1, 2]" by (simp add: pipe_contents_def contents_def)
  have "wp (qread 51 2) (\<lambda>x w'. got {} 51 2 (sample_queue 0 1000 [blk 1 [1, 2]]) (pw ?s) x w') (\<lambda>_ _. False) (pw ?s)"
    by (rule qread_wp [OF ok]) (auto simp: ready_def prompt_def eof_seen_def interrupted_def hungry_def)
  then obtain x w' where run: "qread 51 2 (pw ?s) = (Inr x, w')" by (auto simp: wp_total_iff)
  have "piperead undefined (sample_chan Data1) [0, 0] ?s = (Inr (x, sample_chan Data1), ?s\<lparr>pw := w'\<rparr>)"
    using run by (subst piperead_run [where res = "Inr x" and i = Data1 and w' = w']) auto
  then have "pget 7 Data1 x ({}, ?s) ({}, ?s\<lparr>pw := w'\<rparr>)" by (intro get_piperead [of "sample_chan Data1"]) auto
  from history_get [OF history_start [of "pput 7 Data0" "pget 7 Data1" "({}, ?s)"] this] have h: "history (pput 7 Data0) (pget 7 Data1) ({}, ?s) [] x ({}, ?s\<lparr>pw := w'\<rparr>)" by simp
  note f = pipe_fifo [where i = Data0, unfolded other.simps, OF h s]
  have "x @ pipe_contents 7 Data0 ({}, ?s\<lparr>pw := w'\<rparr>) = [1, 2]" using conjunct2 [OF f] unfolding c by simp
  then show ?thesis using h by blast
qed

section \<open>Closing one side\<close>

text \<open>Reads from a queue that has been hung up take what is left, a block or a part of one at a time.\<close>

abbreviation no_empty :: "Queue \<Rightarrow> bool" where
  "no_empty q \<equiv> \<forall>b\<in>set (bfirst q). bytes_of b \<noteq> []"

abbreviation left_over :: "Queue \<Rightarrow> nat" where
  "left_over q \<equiv> length (data (bfirst q)) + length (bfirst q)"

lemma reads_block:
  assumes r: "reads len r x r'" "\<not> q_has Qmsg r" "\<not> q_has Qcoalesce r" "bfirst r \<noteq> []" and len: "0 < len"
  shows "data (bfirst r) = x @ data (bfirst r')" and "left_over r' < left_over r" and "no_empty r \<longrightarrow> x \<noteq> [] \<and> no_empty r'"
proof -
  obtain b nxt where b: "bfirst r = b # nxt" using r(4) by (cases "bfirst r") auto
  have c: "cut len r = [b]" using r(3) b by (simp add: cut_def)
  show s: "data (bfirst r) = x @ data (bfirst r')" by (rule reads_split [OF r(1,2)])
  have x: "x = take (nat len) (bytes_of b)" and d: "data (bfirst r') = drop (nat len) (bytes_of b) @ data nxt"
    and o: "bfirst r' = nxt \<or> nat len < length (bytes_of b) \<and> (\<exists>t. bfirst r' = t # nxt)"
    using r(1,2) b c by (auto simp: reads_def)
  show "left_over r' < left_over r" using o x d b len by (auto simp: s)
  show "no_empty r \<longrightarrow> x \<noteq> [] \<and> no_empty r'" using o x d b len by auto
qed

lemma qread_hungup:
  assumes w: "ok M w" "kqueues w q = Some r" "kilocks w = []" "kqlocks w = []" "plenty w"
    and r: "q_has Qclosed r" "\<not> q_has Qmsg r" "\<not> q_has Qcoalesce r" "\<not> q_kick r" "bfirst r \<noteq> []" and len: "0 < len"
  shows "\<exists>x w' r'. qread q len w = (Inr x, w') \<and> kqueues w' q = Some r' \<and> alike r r' \<and> ok M w' \<and> ctx w' = ctx w \<and>
    data (bfirst r) = x @ data (bfirst r') \<and> left_over r' < left_over r \<and> (no_empty r \<longrightarrow> x \<noteq> [] \<and> no_empty r')"
proof -
  have p: "ready r" "prompt r w" using r by (auto simp: ready_def prompt_def)
  have "wp (qread q len) (got M q len r w) (\<lambda>_ _. False) w"
    by (rule qread_wp [OF w(1-3)]) (use w(4,5) len p r in \<open>auto simp: eof_seen_def interrupted_def hungry_def\<close>)
  then obtain x w' where run: "qread q len w = (Inr x, w')" and g: "got M q len r w x w'" by (auto simp: wp_total_iff)
  from g p(2) r(4) obtain r1 r2 where g': "reads len r1 x r2" "same r r1" "kqueues w' = (kqueues w)(q \<mapsto> r2)" "ok M w'" "after w w'"
    by (auto simp: got_def)
  have r1: "bfirst r1 = bfirst r" "alike r r1" "\<not> q_has Qmsg r1" "\<not> q_has Qcoalesce r1" "alike r r2"
    using g'(1,2) r(2,3) alike_has [of r r1] alike_trans [of r r1 r2] by (auto simp: same_def reads_def)
  note b = reads_block [OF g'(1) r1(3,4) _ len, unfolded r1(1)]
  show ?thesis using run g' r1(5) b r(5) by (auto simp: after_def)
qed

fun pipereads :: "surroundings \<Rightarrow> Chan \<Rightarrow> bytes list \<Rightarrow> bytes list pipeop" where
  "pipereads v c [] = ret []"
| "pipereads v c (va # vas) = and_then (piperead v c va) (\<lambda>(x, c). and_then (pipereads v c vas) (\<lambda>xs. ret (x # xs)))"

lemma pipe_eof:
  assumes "pipes s (c_aux d) = Some p" and d: "side_of d = Some i"
    and "ok M (pw s)" "kqueues (pw s) (pp_q p i) = Some r" "kilocks (pw s) = []" "kqlocks (pw s) = []" "plenty (pw s)"
    and "q_has Qclosed r" "\<not> q_has Qmsg r" "\<not> q_has Qcoalesce r" "\<not> q_kick r" "q_eof r = 0" "q_err r = Ehungup" and "bfirst r = []"
  shows "\<exists>s''. piperead v d va s = (Inr ([], d), s'')"
proof -
  obtain w'' where "qread (pp_q p i) (int (length va)) (pw s) = (Inr [], w'')"
    using qread_closed [OF assms(3,4,5), of "int (length va)"] assms(6-) by auto
  then show ?thesis using piperead_run [OF d assms(1), of va "Inr []" w''] by simp
qed

lemma pipereads_drain:
  assumes "pipes s (c_aux d) = Some p" and d: "side_of d = Some i"
    and "ok M (pw s)" "kqueues (pw s) (pp_q p i) = Some r" "kilocks (pw s) = []" "kqlocks (pw s) = []" "plenty (pw s)"
    and "q_has Qclosed r" "\<not> q_has Qmsg r" "\<not> q_has Qcoalesce r" "\<not> q_kick r" "q_eof r = 0" "q_err r = Ehungup"
    and "[] \<notin> set vas" and "left_over r \<le> length vas"
  shows "\<exists>k xs s'. k \<le> length vas \<and> pipereads v d (take k vas) s = (Inr xs, s') \<and> concat xs = data (bfirst r) \<and>
    (no_empty r \<longrightarrow> [] \<notin> set xs) \<and> (\<forall>va. \<exists>s''. piperead v d va s' = (Inr ([], d), s''))"
  using assms
proof (induction vas arbitrary: s r)
  case Nil
  then have e: "bfirst r = []" by simp
  show ?case using pipe_eof [OF Nil(1-13) e] e by (auto simp: ret_def)
next
  case (Cons va vas)
  show ?case
  proof (cases "bfirst r = []")
    case True
    then show ?thesis using pipe_eof [OF Cons.prems(1-13)] by (auto simp: ret_def intro!: exI [of _ 0])
  next
    case False
    have "0 < int (length va)" using Cons.prems(14) by auto
    from qread_hungup [OF Cons.prems(3-11) False this] obtain x w' r' where q: "qread (pp_q p i) (int (length va)) (pw s) = (Inr x, w')"
      "kqueues w' (pp_q p i) = Some r'" "alike r r'" "ok M w'" "ctx w' = ctx (pw s)" "data (bfirst r) = x @ data (bfirst r')"
      "left_over r' < left_over r" "no_empty r \<longrightarrow> x \<noteq> [] \<and> no_empty r'" by blast
    let ?s = "s\<lparr>pw := w'\<rparr>"
    have pr: "piperead v d va s = (Inr (x, d), ?s)" using piperead_run [OF d Cons.prems(1) q(1)] by simp
    have fl: "q_has Qclosed r'" "\<not> q_has Qmsg r'" "\<not> q_has Qcoalesce r'" "\<not> q_kick r'" "q_eof r' = 0" "q_err r' = Ehungup"
      using Cons.prems(8-13) alike_has [OF q(3)] q(3) by (auto simp: alike_def)
    have cx: "kilocks (pw ?s) = []" "kqlocks (pw ?s) = []" "plenty (pw ?s)"
      using Cons.prems(5-7) q(5) plenty_ctx [OF q(5)] by (auto simp: ctx_def)
    obtain k xs s' where IH: "k \<le> length vas" "pipereads v d (take k vas) ?s = (Inr xs, s')" "concat xs = data (bfirst r')"
      "no_empty r' \<longrightarrow> [] \<notin> set xs" "\<forall>va. \<exists>s''. piperead v d va s' = (Inr ([], d), s'')"
      using Cons.IH [of ?s r', OF _ d _ _ cx fl] Cons.prems(1,14,15) q(2,4,7) by auto
    have "pipereads v d (take (Suc k) (va # vas)) s = (Inr (x # xs), s')" using pr IH(2) by (simp add: and_then_def ret_def)
    then show ?thesis using IH q(6,8) by (intro exI [of _ "Suc k"] exI [of _ "x # xs"] exI [of _ s']) auto
  qed
qed

text \<open>
  C26. When the last open channel of one side is closed while the other side is open, what this side wrote can still be read there: reads into
  non-empty buffers of any sizes return exactly the bytes that were left, in their order and with no empty answer in between (unless an empty write is queued),
  after at most as many reads as there are bytes and blocks, and then the
  reader sees the end of the file. What the other side wrote is freed, and its further writes raise \<^verbatim>\<open>i/o on hungup channel\<close> and post a
  note, unless the pipe carries the messages of a mount.
\<close>

theorem pipe_hangup:
  assumes "pipes s (c_aux c) = Some r" and "\<not> pp_locked r" and "has_queues M (pw s) r qs" and "open_side c = Some i"
    and "pp_qref r i = 1" and "pp_qref r (other i) > 0" and "pp_ref r > 1" and "plenty (pw s)" and "kqlocks (pw s) = []"
    and "quiet (qs i) (pw s)" and "q_limit (qs i) > 0" and "q_eof (qs (other i)) = 0"
    and "c_aux d = c_aux c" and "side_of d = Some (other i)"
    and "\<not> q_has Qmsg (qs (other i))" and "\<not> q_has Qcoalesce (qs (other i))" and "\<not> q_kick (qs (other i))"
  shows "\<exists>s' q. pipeclose c s = (Inr (), s') \<and> ok M (pw s') \<and> kqueues (pw s') (pp_q r (other i)) = Some q \<and> bfirst q = bfirst (qs (other i)) \<and>
     q_has Qclosed q \<and> (bfirst q = [] \<longrightarrow> (\<forall>va. \<exists>s''. piperead v d va s' = (Inr ([], d), s''))) \<and>
     (\<forall>vas. [] \<notin> set vas \<longrightarrow> left_over q \<le> length vas \<longrightarrow>
       (\<exists>k xs s''. k \<le> length vas \<and> pipereads v d (take k vas) s' = (Inr xs, s'') \<and> concat xs = data (bfirst q) \<and>
         (no_empty q \<longrightarrow> [] \<notin> set xs) \<and> (\<forall>va. \<exists>s3. piperead v d va s'' = (Inr ([], d), s3)))) \<and>
     (\<forall>va. \<exists>s''. pipewrite d va s' = (Inl (Kernel (Error Ehungup)), s'') \<and>
       pnotes s'' = (if c_flag d AND CMSG = 0 then pnotes s @ [''sys: write on closed pipe''] else pnotes s))"
proof -
  let ?o = "other i"
  obtain r' qs' where a: "after_close c (r, qs) = (r', qs')" by (cases "after_close c (r, qs)")
  have r': "r' = count i (-1) r" "qs' i = closed_queue (qs i)" "qs' ?o = hungup_queue [] (qs ?o)"
    using a assms(4-6) by (cases i; auto simp: after_close_def after_reopen_def after_hangup_def Let_def)+
  have "wp (pipeclose c) (\<lambda>_ s'. \<exists>w'. has_queues M w' r qs' \<and> ctx w' = ctx (pw s) \<and> kenv w' = kenv (pw s) \<and>
      s' = s\<lparr>pw := w', pipes := (pipes s)(c_aux c \<mapsto> r'\<lparr>pp_ref := pp_ref r - 1\<rparr>)\<rparr>) (\<lambda>_ _. False) s"
    by (rule pipeclose_wp [OF assms(1-3) a]) (use assms(7) in auto)
  then obtain w' where w': "pipeclose c s = (Inr (), s\<lparr>pw := w', pipes := (pipes s)(c_aux c \<mapsto> r'\<lparr>pp_ref := pp_ref r - 1\<rparr>)\<rparr>)"
    "has_queues M w' r qs'" "ctx w' = ctx (pw s)" "kenv w' = kenv (pw s)" by (auto simp: wp_total_iff)
  let ?s = "s\<lparr>pw := w', pipes := (pipes s)(c_aux c \<mapsto> r'\<lparr>pp_ref := pp_ref r - 1\<rparr>)\<rparr>"
  have k: "ok M w'" "kilocks w' = []" "kqlocks w' = []" "plenty w'" "kqueues w' (pp_q r i) = Some (closed_queue (qs i))" "kqueues w' (pp_q r ?o) = Some (hungup_queue [] (qs ?o))"
    using w'(2,3) r' assms(8,9) plenty_ctx [OF w'(3)] by (auto simp: has_queues_def ctx_def)
  have h: "q_has Qclosed (hungup_queue [] (qs ?o))" "bfirst (hungup_queue [] (qs ?o)) = bfirst (qs ?o)" "q_err (hungup_queue [] (qs ?o)) = Ehungup"
    "q_eof (hungup_queue [] (qs ?o)) = 0" using assms(12) by (simp_all add: hungup_queue_def q_has_def q_raise_def flag_numbers bit_simps)
  have cl: "q_has Qclosed (closed_queue (qs i))" "quiet (closed_queue (qs i)) w'" "q_err (closed_queue (qs i)) = Ehungup" "q_len (closed_queue (qs i)) = 0" "q_limit (closed_queue (qs i)) > 0"
    using assms(10,11) flag_distinct w'(4) by (auto simp: closed_queue_def quiet_def)
  have p: "pipes ?s (c_aux d) = Some (r'\<lparr>pp_ref := pp_ref r - 1\<rparr>)" "pp_q (r'\<lparr>pp_ref := pp_ref r - 1\<rparr>) = pp_q r" using assms(13) r'(1) by simp_all
  let ?p = "r'\<lparr>pp_ref := pp_ref r - 1\<rparr>" and ?q = "hungup_queue [] (qs ?o)"
  have hf: "\<not> q_has Qmsg ?q" "\<not> q_has Qcoalesce ?q" "\<not> q_kick ?q"
    using assms(15-17) by (simp_all add: hungup_queue_def q_has_def q_raise_def flag_numbers bit_simps)
  have kq: "kqueues (pw ?s) (pp_q ?p ?o) = Some ?q" using k(6) p(2) by simp
  have kp: "ok M (pw ?s)" "kilocks (pw ?s) = []" "kqlocks (pw ?s) = []" "plenty (pw ?s)" using k by simp_all
  note rd = p(1) assms(14) kp(1) kq kp(2-4) h(1) hf h(4,3)
  have "\<exists>s''. piperead v d va ?s = (Inr ([], d), s'')" if "bfirst ?q = []" for va
    using pipe_eof [OF rd that] .
  moreover have "\<exists>k xs s''. k \<le> length vas \<and> pipereads v d (take k vas) ?s = (Inr xs, s'') \<and> concat xs = data (bfirst ?q) \<and>
      (no_empty ?q \<longrightarrow> [] \<notin> set xs) \<and> (\<forall>va. \<exists>s3. piperead v d va s'' = (Inr ([], d), s3))"
    if "[] \<notin> set vas" "left_over ?q \<le> length vas" for vas
    using pipereads_drain [OF rd that] .
  moreover have "\<exists>s''. pipewrite d va ?s = (Inl (Kernel (Error Ehungup)), s'') \<and>
      pnotes s'' = (if c_flag d AND CMSG = 0 then pnotes s @ [''sys: write on closed pipe''] else pnotes s)" for va
  proof -
    obtain w'' where w'': "qwrite (pp_q r i) va w' = (Inl (Error Ehungup), w'')" "kqueues w'' = kqueues w'"
      using qwrite_refused [OF k(1,5,2) _ k(4) cl(2,1), of va] k(3) cl(3-5) by (auto simp: signed_divide_int_def)
    have "pipewrite d va ?s = write_queue d (pp_q r i) (qwrite (pp_q r i) va) ?s"
      by (simp add: pipewrite_def assms(14) pf_run [OF p(1)] p(2) del: Pipe.select_convs(3))
    also have "\<dots> = seq (closed_pipe_note d (pp_q r i) Ehungup) (raise (Kernel (Error Ehungup))) (?s\<lparr>pw := w''\<rparr>)"
      using w''(1) by (simp add: write_queue_def kern_op_def)
    finally show ?thesis
      using w''(2) k(5) cl(1) by (simp add: closed_pipe_note_def seq_def and_then_def kern_op_def qf_def modify_def ret_def raise_def)
  qed
  ultimately show ?thesis using w'(1) k(1,6) h(1,2) by (intro exI [of _ ?s] exI [of _ ?q]) simp
qed

theorem pipe_hangup_witness:
  "\<exists>s' s'' k xs s3 s4. pipeclose (sample_chan Data0) (sample_pipe 1 1 [] [blk 1 [1, 2]]) = (Inr (), s') \<and>
     pipewrite (sample_chan Data1) [9] s' = (Inl (Kernel (Error Ehungup)), s'') \<and> pnotes s'' = [''sys: write on closed pipe''] \<and>
     pipereads undefined (sample_chan Data1) (take k [[0], [0], [0]]) s' = (Inr xs, s3) \<and> concat xs = [1, 2] \<and> [] \<notin> set xs \<and>
     piperead undefined (sample_chan Data1) [0] s3 = (Inr ([], sample_chan Data1), s4)"
proof -
  let ?s = "sample_pipe 1 1 [] [blk 1 [1, 2]]"
  have "ok {} (pw ?s)" by (rule sample_pipe_ok) auto
  note q = sample_pipe_queues [OF this]
  have "quiet (sample_queue 0 1000 []) (pw ?s)" by (simp add: quiet_def)
  then obtain s' q where h: "pipeclose (sample_chan Data0) ?s = (Inr (), s')" "bfirst q = [blk 1 [1, 2]]"
    "\<forall>vas. [] \<notin> set vas \<longrightarrow> left_over q \<le> length vas \<longrightarrow> (\<exists>k xs s''. k \<le> length vas \<and>
       pipereads undefined (sample_chan Data1) (take k vas) s' = (Inr xs, s'') \<and> concat xs = data (bfirst q) \<and>
       (no_empty q \<longrightarrow> [] \<notin> set xs) \<and> (\<forall>va. \<exists>s3. piperead undefined (sample_chan Data1) va s'' = (Inr ([], sample_chan Data1), s3)))"
    "\<forall>va. \<exists>s''. pipewrite (sample_chan Data1) va s' = (Inl (Kernel (Error Ehungup)), s'') \<and> pnotes s'' = [''sys: write on closed pipe'']"
    using pipe_hangup [where s = ?s and c = "sample_chan Data0" and d = "sample_chan Data1" and i = Data0 and v = undefined, OF _ _ q]
    by (force simp: flag_numbers)
  have "\<exists>k xs s3. pipereads undefined (sample_chan Data1) (take k [[0], [0], [0]]) s' = (Inr xs, s3) \<and> concat xs = [1, 2] \<and> [] \<notin> set xs \<and>
      (\<forall>va. \<exists>s4. piperead undefined (sample_chan Data1) va s3 = (Inr ([], sample_chan Data1), s4))"
    using spec [OF h(3), of "[[0], [0], [0]]"] h(2) by auto
  then show ?thesis using h(1,4) by meson
qed

section \<open>Closing the last channel\<close>

text \<open>
  When a channel of one side is the last one of the pipe and the other side was never opened, closing it frees the queues but not the blocks that
  it had written: they stay allocated, and no queue and no code refers to them any more.
\<close>

theorem pipe_leak:
  assumes "pipes s (c_aux c) = Some r" and "\<not> pp_locked r" and "has_queues M (pw s) r qs" and "open_side c = Some i"
    and "pp_qref r i = 1" and "pp_qref r (other i) = 0" and "pp_ref r = 1"
  shows "\<exists>s'. pipeclose c s = (Inr (), s') \<and> pipes s' (c_aux c) = None \<and> ids (bfirst (qs (other i))) \<subseteq> klive (pw s') \<and>
     ids (bfirst (qs (other i))) \<inter> (M \<union> queued (pw s')) = {}"
proof -
  let ?o = "other i"
  obtain r' qs' where a: "after_close c (r, qs) = (r', qs')" by (cases "after_close c (r, qs)")
  have b: "bfirst (qs' ?o) = bfirst (qs ?o)"
    using a assms(4-6) by (cases i) (auto simp: after_close_def after_reopen_def after_hangup_def Let_def reopened_queue_def hungup_queue_def q_raise_def q_clear_def)
  have "wp (pipeclose c) (\<lambda>_ s'. \<exists>w'. has_queues M w' r qs' \<and> s' = s\<lparr>pw := without_queues r w', pipes := (pipes s)(c_aux c := None)\<rparr>) (\<lambda>_ _. False) s"
    by (rule pipeclose_wp [OF assms(1-3) a]) (use assms(7) in auto)
  then obtain w' where w': "pipeclose c s = (Inr (), s\<lparr>pw := without_queues r w', pipes := (pipes s)(c_aux c := None)\<rparr>)" "has_queues M w' r qs'"
    by (auto simp: wp_total_iff)
  have q: "kqueues w' (pp_q r j) = Some (qs' j)" for j using w'(2) by (simp add: has_queues_def)
  have k: "kinv w' M" using w'(2) by (simp add: has_queues_def ok_def)
  have live: "ids (bfirst (qs' ?o)) \<subseteq> queued w'" using kinvD(6) [OF k q] .
  have "ids (bfirst (qs' ?o)) \<inter> ids (bfirst x) = {}" if x: "kqueues (without_queues r w') j = Some x" for j x
  proof -
    have "kqueues w' j = Some x" "j \<noteq> pp_q r ?o" using x by (cases i; auto simp: without_queues_def split: if_splits)+
    then show ?thesis using kinvD(7) [OF k q [of ?o], of j x] by blast
  qed
  then have "ids (bfirst (qs' ?o)) \<inter> queued (without_queues r w') = {}" unfolding queued_def ran_def by blast
  then show ?thesis using w'(1) live kinvD(3,4) [OF k] b by (auto simp: without_queues_def)
qed

theorem pipe_leak_witness:
  "\<exists>s'. pipeclose (sample_chan Data0) (sample_pipe 1 0 [] [blk 1 [1, 2]]) = (Inr (), s') \<and> 1 \<in> klive (pw s') \<and> 1 \<notin> queued (pw s')"
proof -
  let ?s = "sample_pipe 1 0 [] [blk 1 [1, 2]]"
  have "ok {} (pw ?s)" by (rule sample_pipe_ok) auto
  note q = sample_pipe_queues [OF this]
  show ?thesis using pipe_leak [where s = ?s and c = "sample_chan Data0" and i = Data0, OF _ _ q] by force
qed

end
