(* ===== verification/Cleanname.thy ===== *)
theory Cleanname
  imports Utf "HOL-Library.Monad_Syntax"
begin

text \<open>
  Clean file names, \<^verbatim>\<open>sys/src/lib/c/port/cleanname.c\<close>: the name is rewritten in place. The memory at \<^verbatim>\<open>name\<close> is a list of
  bytes, as far as the caller owns it, and the pointers \<^verbatim>\<open>s\<close>, \<^verbatim>\<open>d\<close> and \<^verbatim>\<open>d0\<close> are offsets into it. \<open>None\<close> is an access outside of
  the memory, or an assertion that fails.
\<close>

section \<open>Access\<close>

definition SEP :: "byte \<Rightarrow> bool" where
  "SEP x \<longleftrightarrow> x = 47 \<or> x = 0"

definition rd :: "bytes \<Rightarrow> nat \<Rightarrow> byte option" where
  "rd m i = (if i < length m then Some (m ! i) else None)"

definition wr :: "bytes \<Rightarrow> nat \<Rightarrow> byte \<Rightarrow> bytes option" where
  "wr m i b = (if i < length m then Some (m[i := b]) else None)"

lemma rd_bound: "rd m i = Some b \<Longrightarrow> i < length m"
  by (simp add: rd_def split: if_splits)

lemma wr_length: "wr m i b = Some m' \<Longrightarrow> length m' = length m"
  by (auto simp: wr_def split: if_splits)

text \<open>\<^verbatim>\<open>strcpy(name, ".")\<close>\<close>

definition put_dot :: "bytes \<Rightarrow> bytes option" where
  "put_dot m = do { m \<leftarrow> wr m 0 46; wr m 1 0 }"

section \<open>The root of the name\<close>

text \<open>\<^verbatim>\<open>while(!SEP(*d0)) d0 += chartorune(&r, d0);\<close>\<close>

function past_word :: "bytes \<Rightarrow> nat \<Rightarrow> nat option" where
  "past_word m p = do {
     b \<leftarrow> rd m p;
     if SEP b then Some p
     else do { (r, n) \<leftarrow> chartorune (drop p m); past_word m (p + n) } }"
  by pat_completeness auto
termination
  by (relation "measure (\<lambda>(m, p). length m - p)") (auto dest!: rd_bound chartorune_progress)

declare past_word.simps [simp del]

text \<open>Where the path after the root name starts, and whether there is a root name. An inner \<open>None\<close> is a name that is returned as it is.\<close>

definition root_name :: "bytes \<Rightarrow> (nat \<times> bool) option option" where
  "root_name m = do {
     b \<leftarrow> rd m 0;
     if b = 35 then do {
       b \<leftarrow> rd m 1;
       if b = 0 then Some None
       else do {
         (r, n) \<leftarrow> chartorune (drop 1 m);
         d0 \<leftarrow> past_word m (1 + n);
         b \<leftarrow> rd m d0;
         Some (if b = 0 then None else Some (d0 + 1, True)) } }
     else Some (Some (if b = 47 then (1, True) else (0, False))) }"

section \<open>Compressing slashes\<close>

text \<open>\<^verbatim>\<open>for(; *s == '/'; s++);\<close> which is also \<^verbatim>\<open>while(s[1] == '/') s++;\<close> for the pointer one further.\<close>

function skip_slashes :: "bytes \<Rightarrow> nat \<Rightarrow> nat option" where
  "skip_slashes m s = do { b \<leftarrow> rd m s; if b = 47 then skip_slashes m (s + 1) else Some s }"
  by pat_completeness auto
termination by (relation "measure (\<lambda>(m, s). length m - s)") (auto dest!: rd_bound)

declare skip_slashes.simps [simp del]

lemma skip_slashes_ge: "skip_slashes m s = Some s' \<Longrightarrow> s \<le> s'"
  by (induction m s rule: skip_slashes.induct)
    (subst (asm) (2) skip_slashes.simps, force split: if_splits Option.bind_splits)

text \<open>The loop that removes duplicate slashes, with the \<^verbatim>\<open>*d = 0\<close> after it.\<close>

function squeeze :: "bytes \<Rightarrow> nat \<Rightarrow> nat \<Rightarrow> bytes option" where
  "squeeze m s d = do {
     b \<leftarrow> rd m s;
     if b = 0 then wr m d 0
     else do {
       m \<leftarrow> wr m d b;
       b \<leftarrow> rd m s;
       s \<leftarrow> (if b = 47 then skip_slashes m (s + 1) else Some (s + 1));
       squeeze m s (d + 1) } }"
  by pat_completeness auto
termination
  by (relation "measure (\<lambda>(m, s, d). length m - s)")
    (auto dest!: rd_bound wr_length skip_slashes_ge split: if_splits)

declare squeeze.simps [simp del]

section \<open>Elements\<close>

text \<open>\<^verbatim>\<open>for(d -= 2; d > d0 && d[-1] != '/'; d--);\<close> after the first decrement.\<close>

function back_up :: "bytes \<Rightarrow> nat \<Rightarrow> nat \<Rightarrow> nat option" where
  "back_up m d0 d = (if d > d0 then do { b \<leftarrow> rd m (d - 1); if b \<noteq> 47 then back_up m d0 (d - 1) else Some d } else Some d)"
  by pat_completeness auto
termination by (relation "measure (\<lambda>(m, d0, d). d)") auto

declare back_up.simps [simp del]

text \<open>\<^verbatim>\<open>while(!SEP(*s)) *d++ = *s++;\<close>\<close>

function copy_elem :: "bytes \<Rightarrow> nat \<Rightarrow> nat \<Rightarrow> (bytes \<times> nat \<times> nat) option" where
  "copy_elem m s d = do {
     b \<leftarrow> rd m s;
     if SEP b then Some (m, s, d)
     else do { m \<leftarrow> wr m d b; copy_elem m (s + 1) (d + 1) } }"
  by pat_completeness auto
termination by (relation "measure (\<lambda>(m, s, d). length m - s)") (auto dest!: rd_bound wr_length)

declare copy_elem.simps [simp del]

lemma copy_elem_ge: "copy_elem m s d = Some (m', s', d') \<Longrightarrow> s \<le> s' \<and> length m' = length m \<and> s' < length m"
proof (induction m s d rule: copy_elem.induct)
  case (1 m s d)
  note step = 1(1) [unfolded Suc_eq_plus1 [symmetric]]
  from 1(2) show ?case
    by (subst (asm) copy_elem.simps) (auto dest!: step dest: wr_length rd_bound split: if_splits Option.bind_splits)
qed

text \<open>The elements \<^verbatim>\<open>.\<close> and \<^verbatim>\<open>..\<close> at \<^verbatim>\<open>s\<close>: the byte that ends them. The reads stop at the first that does not match, as those of the code do.\<close>

definition dot_at :: "bytes \<Rightarrow> nat \<Rightarrow> byte option option" where
  "dot_at m s = do {
     b \<leftarrow> rd m s;
     if b \<noteq> 46 then Some None
     else do { b \<leftarrow> rd m (s + 1); Some (if SEP b then Some b else None) } }"

definition dotdot_at :: "bytes \<Rightarrow> nat \<Rightarrow> byte option option" where
  "dotdot_at m s = do {
     b \<leftarrow> rd m s;
     if b \<noteq> 46 then Some None
     else do {
       b \<leftarrow> rd m (s + 1);
       if b \<noteq> 46 then Some None
       else do { b \<leftarrow> rd m (s + 2); Some (if SEP b then Some b else None) } } }"

text \<open>The loop over the elements; it ends with the memory and \<^verbatim>\<open>d\<close>.\<close>

function elements :: "bool \<Rightarrow> bytes \<Rightarrow> nat \<Rightarrow> nat \<Rightarrow> nat \<Rightarrow> (bytes \<times> nat) option" where
  "elements rooted m s d d0 = do {
     b \<leftarrow> rd m s;
     if b = 0 then Some (m, d)
     else do {
       one \<leftarrow> dot_at m s;
       two \<leftarrow> dotdot_at m s;
       case one of
         Some e \<Rightarrow> if e = 0 then Some (m, d) else elements rooted m (s + 2) d d0
       | None \<Rightarrow>
           if two \<noteq> None \<and> d = d0 \<and> rooted then
             (if two = Some 0 then Some (m, d) else elements rooted m (s + 3) d d0)
           else let d0 = (if two \<noteq> None \<and> d = d0 then d0 + 3 else d0) in
             if two \<noteq> None \<and> d > d0 then do {
               b \<leftarrow> rd m (d - 1);
               if \<not> (d0 + 2 \<le> d \<and> b = 47) then None
               else do {
                 d \<leftarrow> back_up m d0 (d - 2);
                 if two = Some 0 then Some (m, d) else elements rooted m (s + 3) d d0 } }
             else do {
               (m, s, d) \<leftarrow> copy_elem m s d;
               b \<leftarrow> rd m s;
               if b = 0 then Some (m, d)
               else do { m \<leftarrow> wr m d b; elements rooted m (s + 1) (d + 1) d0 } } } }"
  by pat_completeness auto
termination
  by (relation "measure (\<lambda>(rooted, m, s, d, d0). length m - s)") (auto dest!: rd_bound wr_length copy_elem_ge)

declare elements.simps [simp del]

text \<open>\<^verbatim>\<open>cleanname\<close>; it always returns \<^verbatim>\<open>name\<close>, so the result is the memory that it leaves there.\<close>

definition cleanname :: "bytes \<Rightarrow> bytes option" where
  "cleanname m = do {
     b \<leftarrow> rd m 0;
     if b = 0 then put_dot m
     else do {
       root \<leftarrow> root_name m;
       case root of
         None \<Rightarrow> Some m
       | Some (d0, rooted) \<Rightarrow> do {
           s \<leftarrow> (if rooted then skip_slashes m d0 else Some d0);
           m \<leftarrow> squeeze m s d0;
           (m, d) \<leftarrow> elements rooted m d0 d0 d0;
           m \<leftarrow> wr m d 0;
           m \<leftarrow> (if d > 1 then do { b \<leftarrow> rd m (d - 1); if b = 47 then wr m (d - 1) 0 else Some m } else Some m);
           b \<leftarrow> rd m 0;
           if b = 0 then put_dot m else Some m } } }"

end
