(* ===== verification/Cleanname_Rules.thy ===== *)
theory Cleanname_Rules
  imports Cleanname Utf_Props
begin

text \<open>
  What the loops of \<^verbatim>\<open>cleanname\<close> do to a name given by its elements, against the reference definition \<open>clean\<close>.
\<close>

section \<open>Reference definition\<close>

abbreviation dot_elem :: bytes where "dot_elem \<equiv> [46]"
abbreviation dotdot_elem :: bytes where "dotdot_elem \<equiv> [46, 46]"

fun elems :: "bytes \<Rightarrow> bytes list" where
  "elems [] = [[]]"
| "elems (c # z) = (if c = 47 then [] # elems z else (c # hd (elems z)) # tl (elems z))"

fun join :: "bytes list \<Rightarrow> bytes" where
  "join [] = []"
| "join [e] = e"
| "join (e # es) = e @ 47 # join es"

definition enter :: "bool \<Rightarrow> bytes list \<Rightarrow> bytes \<Rightarrow> bytes list" where
  "enter rooted st e =
     (if e = [] \<or> e = dot_elem then st
      else if e = dotdot_elem then
        (if st = [] \<or> last st = dotdot_elem then (if rooted then st else st @ [dotdot_elem]) else butlast st)
      else st @ [e])"

definition resolve :: "bool \<Rightarrow> bytes list \<Rightarrow> bytes list" where
  "resolve rooted = foldl (enter rooted) []"

definition hash_word :: "bytes \<Rightarrow> bytes" where
  "hash_word name = take 2 name @ takeWhile (\<lambda>b. b \<noteq> 47) (drop 2 name)"

definition clean :: "bytes \<Rightarrow> bytes" where
  "clean name =
     (if name = [] then dot_elem
      else if hd name = 35 then
        let w = hash_word name; rest = drop (length w) name in
        if rest = [] then name
        else let es = resolve True (elems (tl rest)) in if es = [] then w else w @ 47 # join es
      else if hd name = 47 then 47 # join (resolve True (elems (tl name)))
      else let es = resolve False (elems name) in if es = [] then dot_elem else join es)"

section \<open>Reads and writes\<close>

lemma rd_drop: "drop s m = b # r \<Longrightarrow> rd m s = Some b"
  by (metis drop_eq_Nil2 hd_drop_conv_nth leI list.distinct(1) list.sel(1) rd_def)

lemma drop_next: "drop s m = b # r \<Longrightarrow> drop (Suc s) m = r"
  by (metis drop_Suc list.sel(3) tl_drop)

lemma wr_ok: "d < length m \<Longrightarrow> wr m d b = Some (m[d := b])"
  by (simp add: wr_def)

lemma keep_drop: "d < s \<Longrightarrow> drop s (m[d := b]) = drop s m"
  by simp

lemma keep_drop_same: "d \<le> s \<Longrightarrow> drop s m = b # r \<Longrightarrow> drop s (m[d := b]) = drop s m"
  by (cases "d = s") (metis list_update_id drop_eq_Nil2 hd_drop_conv_nth leI list.distinct(1) list.sel(1), simp)

lemma take_put: "d < length m \<Longrightarrow> take (Suc d) (m[d := b]) = take d m @ [b]"
  by (simp add: take_Suc_conv_app_nth)

lemma put_split: "d < length m \<Longrightarrow> m[d := b] = take d m @ b # drop (Suc d) m"
  by (rule upd_conv_take_nth_drop)

lemma drop_bound: "drop s m = b # r \<Longrightarrow> s < length m"
  by (metis drop_eq_Nil2 leI list.distinct(1))

section \<open>Compressing slashes\<close>

function sq :: "bytes \<Rightarrow> bytes" where
  "sq [] = []"
| "sq (c # z) = c # sq (if c = 47 then dropWhile (\<lambda>b. b = 47) z else z)"
  by pat_completeness auto
termination by (relation "measure length") (auto simp: le_imp_less_Suc length_dropWhile_le)

lemma skip_slashes_drop:
  "drop s m = z @ 0 # t \<Longrightarrow> skip_slashes m s = Some (s + length (takeWhile (\<lambda>b. b = 47) z))"
proof (induction z arbitrary: s)
  case Nil
  then show ?case by (subst skip_slashes.simps) (simp add: rd_drop)
next
  case (Cons c z)
  then have "rd m s = Some c" "drop (Suc s) m = z @ 0 # t" by (auto intro: rd_drop drop_next)
  then show ?case using Cons.IH [of "Suc s"] by (subst skip_slashes.simps) simp
qed

lemma drop_skipped: "drop s m = z @ r \<Longrightarrow> drop (s + length (takeWhile P z)) m = dropWhile P z @ r"
  by (rule drop_append_length [of _ _ "takeWhile P z"]) simp

lemma squeeze_is_sq:
  "drop s m = z @ 0 # t \<Longrightarrow> 0 \<notin> set z \<Longrightarrow> d \<le> s \<Longrightarrow>
    squeeze m s d = Some (take d m @ sq z @ 0 # drop (Suc (d + length (sq z))) m)"
proof (induction "length z" arbitrary: z m s d rule: less_induct)
  case less
  show ?case
  proof (cases z)
    case Nil
    with less.prems have "rd m s = Some 0" "d < length m" by (auto dest: rd_drop drop_bound)
    then show ?thesis using Nil by (subst squeeze.simps) (simp add: wr_ok put_split)
  next
    case (Cons c y)
    let ?m = "m[d := c]" and ?w = "if c = 47 then dropWhile (\<lambda>b. b = 47) y else y"
    let ?s = "Suc s + (if c = 47 then length (takeWhile (\<lambda>b. b = 47) y) else 0)"
    have c: "c \<noteq> 0" "rd m s = Some c" "d < length m" and same: "drop s ?m = drop s m"
      using less.prems Cons keep_drop_same [of d s m c] by (auto dest: rd_drop drop_bound)
    then have c': "rd ?m s = Some c" and y: "drop (Suc s) ?m = y @ 0 # t"
      using less.prems(1) Cons by (auto simp: rd_drop intro: drop_next)
    have s: "(if c = 47 then skip_slashes ?m (s + 1) else Some (s + 1)) = Some ?s"
      using skip_slashes_drop [OF y] by auto
    have "squeeze ?m ?s (Suc d) = Some (take (Suc d) ?m @ sq ?w @ 0 # drop (Suc (Suc d + length (sq ?w))) ?m)"
    proof (rule less.hyps)
      show "length ?w < length z" using Cons length_dropWhile_le [of "\<lambda>b. b = 47" y] by simp
      show "drop ?s ?m = ?w @ 0 # t" using y drop_skipped [OF y, of "\<lambda>b. b = 47"] by auto
      show "0 \<notin> set ?w" using less.prems(2) Cons by (auto dest: set_dropWhileD)
      show "Suc d \<le> ?s" using less.prems(3) by simp
    qed
    moreover have "squeeze m s d = squeeze ?m ?s (Suc d)"
      using c c' s by (subst squeeze.simps) (simp add: wr_ok)
    ultimately show ?thesis
      using Cons c(3) by (simp add: take_put split del: if_split)
  qed
qed

section \<open>Elements of a name\<close>

definition slashless :: "bytes \<Rightarrow> bool" where
  "slashless e \<longleftrightarrow> 0 \<notin> set e \<and> 47 \<notin> set e"

fun out :: "bytes list \<Rightarrow> bytes" where
  "out [] = []"
| "out (e # es) = e @ 47 # out es"

lemma out_append [simp]: "out (xs @ ys) = out xs @ out ys"
  by (induction xs) auto

lemma elems_nonempty [simp]: "elems z \<noteq> []"
  by (cases z) auto

lemma elems_hd_tl [simp]: "hd (elems z) # tl (elems z) = elems z"
  by simp

lemma elems_slashless: "0 \<notin> set z \<Longrightarrow> e \<in> set (elems z) \<Longrightarrow> slashless e"
proof (induction z arbitrary: e)
  case Nil
  then show ?case by (simp add: slashless_def)
next
  case (Cons c z)
  have h: "slashless (hd (elems z))" using Cons by simp
  from Cons h show ?case
    by (auto simp: slashless_def split: if_splits dest: list.set_sel(2) [rotated])
qed

lemma out_elems: "out (butlast (elems z)) @ last (elems z) = z"
proof (induction z)
  case (Cons c z)
  obtain e es where "elems z = e # es" by (cases "elems z") (use elems_nonempty in auto)
  with Cons show ?case by (cases es) auto
qed simp

lemma filter_hd_tl: "filter P (elems z) = (if P (hd (elems z)) then [hd (elems z)] else []) @ filter P (tl (elems z))"
  by (cases "elems z") (use elems_nonempty in auto)

lemma elems_dropWhile: "filter (\<lambda>e. e \<noteq> []) (elems (dropWhile (\<lambda>b. b = 47) z)) = filter (\<lambda>e. e \<noteq> []) (elems z)"
  by (induction z) auto

lemma sq_parts:
  "hd (elems (sq z)) = hd (elems z) \<and> filter (\<lambda>e. e \<noteq> []) (tl (elems (sq z))) = filter (\<lambda>e. e \<noteq> []) (tl (elems z))"
proof (induction z rule: sq.induct)
  case (2 c z)
  then have "filter (\<lambda>e. e \<noteq> []) (elems (sq (if c = 47 then dropWhile (\<lambda>b. b = 47) z else z))) = filter (\<lambda>e. e \<noteq> []) (elems z)"
    using elems_dropWhile [of z] by (simp add: filter_hd_tl split: if_splits)
  then show ?case using 2 by (auto split: if_splits)
qed simp

lemma sq_elems: "filter (\<lambda>e. e \<noteq> []) (elems (sq z)) = filter (\<lambda>e. e \<noteq> []) (elems z)"
  using sq_parts [of z] by (simp add: filter_hd_tl)

lemma sq_set: "set (sq z) \<subseteq> set z"
  by (induction z rule: sq.induct) (auto split: if_splits dest: set_dropWhileD)

lemma sq_nonempty_elems:
  "e \<in> set (butlast (tl (elems (sq z)))) \<Longrightarrow> e \<noteq> []"
proof (induction z rule: sq.induct)
  case (2 c z)
  let ?w = "if c = 47 then dropWhile (\<lambda>b. b = 47) z else z"
  show ?case
  proof (cases "c = 47")
    case True
    show ?thesis
    proof (cases ?w)
      case Nil
      have "e \<in> set (butlast (elems (sq ?w)))" using 2(2) True by simp
      then show ?thesis unfolding Nil by simp
    next
      case (Cons a v)
      then have "a \<noteq> 47" using True by (metis (mono_tags, lifting) hd_dropWhile list.distinct(1) list.sel(1))
      obtain x xs where x: "elems (sq ?w) = (a # x) # xs" using Cons True \<open>a \<noteq> 47\<close> by auto
      have "e \<in> set (butlast ((a # x) # xs))" using 2(2) True x by auto
      then show ?thesis using 2(1) x by (cases xs) auto
    qed
  qed (use 2 in simp)
qed simp

section \<open>The loop over the elements\<close>

lemma SEP_slash [simp]: "SEP 47" "SEP 0" "\<not> SEP 46"
  by (simp_all add: SEP_def)

lemma slashless_Cons [simp]: "slashless (c # e) \<longleftrightarrow> \<not> SEP c \<and> slashless e" "slashless []"
  by (auto simp: slashless_def SEP_def)

lemma rd_at: "drop s m = xs @ b # r \<Longrightarrow> rd m (s + length xs) = Some b"
  by (rule rd_drop) (rule drop_append_length)

lemma dot_at_elem:
  assumes "drop s m = e @ b # r" and "slashless e" and "SEP b"
  shows "dot_at m s = Some (if e = dot_elem then Some b else None)"
proof (cases e)
  case Nil
  then show ?thesis using assms rd_drop [of s m b r] by (auto simp: dot_at_def)
next
  case (Cons c f)
  have c: "rd m s = Some c" using assms(1) Cons by (simp add: rd_drop)
  show ?thesis
  proof (cases f)
    case Nil
    then show ?thesis using c Cons assms rd_at [of s m "[c]" b r] by (auto simp: dot_at_def)
  next
    case (Cons c' g)
    then show ?thesis using c assms \<open>e = c # f\<close> rd_at [of s m "[c]" c' "g @ b # r"] by (auto simp: dot_at_def)
  qed
qed

lemma dotdot_at_elem:
  assumes "drop s m = e @ b # r" and "slashless e" and "SEP b"
  shows "dotdot_at m s = Some (if e = dotdot_elem then Some b else None)"
proof -
  consider "e = []" | c where "e = [c]" | c c' where "e = [c, c']" | c c' c'' g where "e = c # c' # c'' # g"
    by (metis neq_Nil_conv)
  then show ?thesis
  proof cases
    case 1
    then show ?thesis using assms rd_drop [of s m b r] by (auto simp: dotdot_at_def)
  next
    case 2
    then show ?thesis using assms rd_drop [of s m c "b # r"] rd_at [of s m "[c]" b r] by (auto simp: dotdot_at_def)
  next
    case 3
    then show ?thesis using assms rd_drop [of s m c "c' # b # r"] rd_at [of s m "[c]" c' "b # r"] rd_at [of s m "[c, c']" b r]
      by (auto simp: dotdot_at_def)
  next
    case 4
    then show ?thesis using assms rd_drop [of s m c "c' # c'' # g @ b # r"] rd_at [of s m "[c]" c' "c'' # g @ b # r"]
        rd_at [of s m "[c, c']" c'' "g @ b # r"] by (auto simp: dotdot_at_def)
  qed
qed

lemma copy_elem_copies:
  assumes "drop s m = e @ b # r" and "slashless e" and "SEP b" and "d \<le> s"
  obtains m' where "copy_elem m s d = Some (m', s + length e, d + length e)" and "take (d + length e) m' = take d m @ e"
    and "drop (s + length e) m' = b # r" and "length m' = length m"
proof -
  have "\<exists>m'. copy_elem m s d = Some (m', s + length e, d + length e) \<and> take (d + length e) m' = take d m @ e \<and>
      drop (s + length e) m' = b # r \<and> length m' = length m"
    using assms
  proof (induction e arbitrary: s d m)
    case Nil
    then show ?case by (subst copy_elem.simps) (simp add: rd_drop)
  next
    case (Cons c e)
    have c: "rd m s = Some c" "d < length m" "\<not> SEP c" using Cons.prems by (auto simp: rd_drop dest: drop_bound)
    have "drop s (m[d := c]) = drop s m" using Cons.prems keep_drop_same [of d s m c] by simp
    then have "drop (Suc s) (m[d := c]) = e @ b # r" using Cons.prems(1) by (simp add: drop_next)
    from Cons.IH [OF this, of "Suc d"] Cons.prems c(2) show ?case
      using c by (subst copy_elem.simps) (auto simp: wr_ok take_put)
  qed
  then show ?thesis using that by blast
qed

lemma back_up_elem:
  assumes "take p m = Y @ e" and "p = length Y + length e" and "p \<le> length m" and "slashless e"
    and "d0 \<le> length Y" and "length Y = d0 \<or> Y \<noteq> [] \<and> last Y = 47"
  shows "back_up m d0 p = Some (length Y)"
  using assms
proof (induction e arbitrary: p rule: rev_induct)
  case Nil
  show ?case
  proof (cases "length Y = d0")
    case False
    then have Y: "Y \<noteq> []" "last Y = 47" "d0 < length Y" using Nil by auto
    have "m ! (length Y - 1) = Y ! (length Y - 1)" using Nil Y by (metis append_Nil2 diff_less length_greater_0_conv nth_take zero_less_one add.right_neutral list.size(3))
    then have "rd m (length Y - 1) = Some 47" using Y Nil by (simp add: rd_def last_conv_nth)
    then show ?thesis using Y Nil by (subst back_up.simps) simp
  qed (use Nil in \<open>subst back_up.simps, simp\<close>)
next
  case (snoc c e)
  have p: "p > d0" "p - 1 < length m" using snoc.prems by auto
  have "m ! (p - 1) = (take p m) ! (p - 1)" using p by simp
  also have "\<dots> = c" using snoc.prems(1,2) by (simp add: nth_append)
  finally have c: "rd m (p - 1) = Some c" using p by (simp add: rd_def)
  have ne: "c \<noteq> 47" and e: "slashless e" using snoc.prems(4) by (auto simp: slashless_def)
  have "take (p - 1) m = take (p - 1) (take p m)" by (simp add: min_def)
  also have "\<dots> = Y @ e" using snoc.prems(1,2) by simp
  finally have "back_up m d0 (p - 1) = Some (length Y)" using snoc.prems e by (intro snoc.IH) auto
  then show ?case using p c ne by (subst back_up.simps) simp
qed

text \<open>
  What has been written: the root name, leading \<^verbatim>\<open>..\<close> elements that \<^verbatim>\<open>d0\<close> is kept after, and elements that a \<^verbatim>\<open>..\<close> may still remove.
\<close>

definition built :: "bytes \<Rightarrow> bool \<Rightarrow> bytes \<Rightarrow> nat \<Rightarrow> nat \<Rightarrow> bytes list \<Rightarrow> bool" where
  "built pre rooted m d d0 S \<longleftrightarrow> (\<exists>n st. S = replicate n dotdot_elem @ st \<and> (\<forall>e\<in>set st. slashless e \<and> e \<noteq> [] \<and> e \<noteq> dotdot_elem) \<and>
     (rooted \<longrightarrow> n = 0) \<and> d0 = length pre + 3 * n \<and> take d m = pre @ out S \<and> d = length pre + length (out S))"

lemma length_out_replicate [simp]: "length (out (replicate n dotdot_elem)) = 3 * n"
  by (induction n) auto

lemma out_last: "S \<noteq> [] \<Longrightarrow> out S \<noteq> [] \<and> last (out S) = 47"
  by (induction S) (auto, metis out.simps(1))

lemma elements_other:
  assumes "drop s m = e @ b # r" and "slashless e" and "e \<noteq> []" and "SEP b" and "d \<le> s" and "e \<noteq> dot_elem"
    and "e = dotdot_elem \<Longrightarrow> d = d0 \<and> \<not> rooted"
  obtains m' where "length m' = length m" and "take (d + length e) m' = take d m @ e" and "drop (s + length e) m' = b # r"
    and "elements rooted m s d d0 = (if b = 0 then Some (m', d + length e)
      else elements rooted (m'[d + length e := b]) (s + length e + 1) (d + length e + 1) (if e = dotdot_elem then d0 + 3 else d0))"
proof -
  obtain m' where m': "copy_elem m s d = Some (m', s + length e, d + length e)" "take (d + length e) m' = take d m @ e"
    "drop (s + length e) m' = b # r" "length m' = length m"
    using copy_elem_copies [OF assms(1,2,4,5)] .
  have b: "rd m' (s + length e) = Some b" "d + length e < length m'"
    using m'(3) assms(5) by (auto simp: rd_drop dest: drop_bound)
  obtain c where c: "rd m s = Some c" "c \<noteq> 0" using assms by (cases e) (auto simp: rd_drop SEP_def)
  show ?thesis
  proof (rule that [OF m'(4,2,3)])
    show "elements rooted m s d d0 = (if b = 0 then Some (m', d + length e)
      else elements rooted (m'[d + length e := b]) (s + length e + 1) (d + length e + 1) (if e = dotdot_elem then d0 + 3 else d0))"
      using assms(6,7) c dot_at_elem [OF assms(1,2,4)] dotdot_at_elem [OF assms(1,2,4)] m'(1) b
      by (subst elements.simps) (cases "e = dotdot_elem", simp_all add: wr_ok Let_def)
  qed
qed

lemma elements_pop:
  assumes "drop s m = dotdot_elem @ b # r" and "SEP b" and "d \<le> s"
    and "take d m = Y @ e @ [47]" and "d = length Y + length e + 1" and "slashless e" and "e \<noteq> []"
    and "d0 \<le> length Y" and "length Y = d0 \<or> Y \<noteq> [] \<and> last Y = 47"
  shows "elements rooted m s d d0 = (if b = 0 then Some (m, length Y) else elements rooted m (s + 3) (length Y) d0)"
proof -
  obtain f c where e: "e = f @ [c]" using assms(7) by (cases e rule: rev_cases) auto
  have len: "d \<le> length m" using assms(1,3) by (auto dest: drop_bound)
  have "m ! (d - 1) = take d m ! (d - 1)" using assms(5) by simp
  also have "\<dots> = 47" using assms(4,5) by (simp add: nth_append)
  finally have b': "rd m (d - 1) = Some 47" using len assms(5) by (simp add: rd_def)
  have "take (d - 2) m = take (d - 2) (take d m)" by (simp add: min_def)
  also have "\<dots> = Y @ f" using assms(4,5) e by simp
  finally have "back_up m d0 (d - 2) = Some (length Y)"
    using assms(5-) len e by (intro back_up_elem [of _ _ _ f]) (auto simp: slashless_def)
  then show ?thesis
    using b' assms(5,8) e rd_drop [of s m 46 "46 # b # r"] assms(1,2) dot_at_elem [OF assms(1) _ assms(2)] dotdot_at_elem [OF assms(1) _ assms(2)]
    by (subst elements.simps) (auto simp: Let_def)
qed

lemma elements_ignore:
  assumes "drop s m = e @ b # r" and "SEP b" and "e = dot_elem \<or> e = dotdot_elem \<and> d = d0 \<and> rooted"
  shows "elements rooted m s d d0 = (if b = 0 then Some (m, d) else elements rooted m (s + length e + 1) d d0)"
  using assms rd_drop [of s m 46] dot_at_elem [OF assms(1) _ assms(2)] dotdot_at_elem [OF assms(1) _ assms(2)]
  by (subst elements.simps) (auto simp: Let_def numeral_3_eq_3)

text \<open>One element, ended by \<open>b\<close>: it changes what is kept at most to less, or it is copied.\<close>

lemma elements_step:
  assumes at: "drop s m = e @ b # r" and e: "slashless e" "e \<noteq> []" and b: "SEP b" and d: "d \<le> s"
    and S: "built pre rooted m d d0 S"
  obtains (less) d' where "d' \<le> d" and "built pre rooted m d' d0 (enter rooted S e)"
      and "elements rooted m s d d0 = (if b = 0 then Some (m, d') else elements rooted m (s + length e + 1) d' d0)"
    | (more) m' d0' where "length m' = length m" and "drop (s + length e) m' = b # r" and "take (d + length e) m' = pre @ out S @ e"
      and "enter rooted S e = S @ [e]" and "built pre rooted (m'[d + length e := 47]) (d + length e + 1) d0' (S @ [e])"
      and "elements rooted m s d d0 = (if b = 0 then Some (m', d + length e)
        else elements rooted (m'[d + length e := b]) (s + length e + 1) (d + length e + 1) d0')"
proof -
  obtain n st where S': "S = replicate n dotdot_elem @ st" and st: "\<forall>e\<in>set st. slashless e \<and> e \<noteq> [] \<and> e \<noteq> dotdot_elem"
    and n: "rooted \<longrightarrow> n = 0" and d0: "d0 = length pre + 3 * n" and tk: "take d m = pre @ out S" and dl: "d = length pre + length (out S)"
    using S by (auto simp: built_def)
  consider (skip) "e = dot_elem \<or> e = dotdot_elem \<and> d = d0 \<and> rooted" | (pop) x st' where "e = dotdot_elem" "st = st' @ [x]"
    | (copy) "e \<noteq> dot_elem" "e = dotdot_elem \<Longrightarrow> st = [] \<and> \<not> rooted"
    using S' d0 dl by (cases st rule: rev_cases) auto
  then show ?thesis
  proof cases
    case skip
    moreover have "d = d0 \<Longrightarrow> st = []" using S' d0 dl out_last [of st] by auto
    ultimately have "enter rooted S e = S" using S' n by (auto simp: enter_def)
    then show ?thesis using skip S elements_ignore [OF at b skip] by (intro less [of d]) simp_all
  next
    case pop
    let ?Y = "pre @ out (replicate n dotdot_elem @ st')"
    have x: "slashless x" "x \<noteq> []" "x \<noteq> dotdot_elem" using st pop by auto
    have Y: "take d m = ?Y @ x @ [47]" "d = length ?Y + length x + 1" using tk dl S' pop by auto
    have en: "enter rooted S e = replicate n dotdot_elem @ st'" using S' pop x by (auto simp: enter_def butlast_append)
    have "length ?Y = d0 \<or> ?Y \<noteq> [] \<and> last ?Y = 47" using d0 out_last [of st'] by (cases "st' = []") auto
    from elements_pop [OF at [unfolded pop(1)] b d Y x(1,2) _ this] d0 pop(1)
    have el: "elements rooted m s d d0 = (if b = 0 then Some (m, length ?Y) else elements rooted m (s + length e + 1) (length ?Y) d0)"
      by (simp add: numeral_3_eq_3)
    have "take (length ?Y) m = take (length ?Y) (take d m)" using Y(2) by (simp add: min_def)
    also have "\<dots> = ?Y" unfolding Y(1) by simp
    finally have "built pre rooted m (length ?Y) d0 (enter rooted S e)"
      using st n d0 pop unfolding en built_def by (intro exI [of _ n] exI [of _ st']) auto
    then show ?thesis using el Y(2) by (intro less [of "length ?Y"]) simp_all
  next
    case copy
    have dd: "e = dotdot_elem \<Longrightarrow> d = d0 \<and> \<not> rooted" using copy S' d0 dl by auto
    obtain m' where m': "length m' = length m" "take (d + length e) m' = take d m @ e" "drop (s + length e) m' = b # r"
      "elements rooted m s d d0 = (if b = 0 then Some (m', d + length e)
      else elements rooted (m'[d + length e := b]) (s + length e + 1) (d + length e + 1) (if e = dotdot_elem then d0 + 3 else d0))"
      using elements_other [OF at e b d copy(1) dd] by blast
    have en: "enter rooted S e = S @ [e]" using copy e S' by (cases n) (auto simp: enter_def)
    have lt: "d + length e < length m'" using m'(3) d drop_bound by fastforce
    have "take (d + length e + 1) (m'[d + length e := 47]) = pre @ out (S @ [e])"
      using take_put [OF lt, of 47] m'(2) tk by simp
    then have "built pre rooted (m'[d + length e := 47]) (d + length e + 1) (if e = dotdot_elem then d0 + 3 else d0) (S @ [e])"
      using st n d0 dl copy e S' unfolding built_def
      by (intro exI [of _ "if e = dotdot_elem then Suc n else n"] exI [of _ "if e = dotdot_elem then [] else st @ [e]"])
        (auto simp: replicate_append_same)
    then show ?thesis using m' en tk by (intro more [of m']) simp_all
  qed
qed

definition ended :: "bytes list \<Rightarrow> bytes \<Rightarrow> bool" where
  "ended F X \<longleftrightarrow> (\<forall>e\<in>set F. slashless e \<and> e \<noteq> []) \<and> (X = out F \<or> X \<noteq> [] \<and> last X \<noteq> 47 \<and> X @ [47] = out F)"

lemma built_ended:
  assumes "built pre rooted m d d0 S"
  shows "ended S (out S)"
proof -
  obtain n st where "S = replicate n dotdot_elem @ st" "\<forall>e\<in>set st. slashless e \<and> e \<noteq> []"
    using assms unfolding built_def by blast
  then show ?thesis by (auto simp: ended_def)
qed

lemma elements_all:
  assumes "drop s m = out es @ l @ 0 # t" and "\<forall>e\<in>set es. slashless e \<and> e \<noteq> []" and "slashless l" and "d \<le> s"
    and "built pre rooted m d d0 S"
  shows "\<exists>m' d' X. elements rooted m s d d0 = Some (m', d') \<and> length m' = length m \<and> d' \<le> s + length (out es @ l) \<and>
    drop (s + length (out es @ l)) m' = 0 # t \<and> take d' m' = pre @ X \<and> d' = length (pre @ X) \<and>
    ended (foldl (enter rooted) S (es @ [l])) X"
  using assms
proof (induction es arbitrary: s m d d0 S)
  case Nil
  have bl: "take d m = pre @ out S" "d = length (pre @ out S)" using Nil.prems(5) by (auto simp: built_def)
  show ?case
  proof (cases "l = []")
    case True
    then have "rd m s = Some 0" using Nil.prems(1) by (simp add: rd_drop)
    then have "elements rooted m s d d0 = Some (m, d)" by (subst elements.simps) simp
    then show ?thesis using Nil.prems True bl built_ended [OF Nil.prems(5)] by (auto simp: enter_def)
  next
    case False
    have at: "drop s m = l @ 0 # t" using Nil.prems(1) by simp
    have end_at: "drop (s + length l) m = 0 # t" using drop_append_length [OF at] .
    show ?thesis
    proof (rule elements_step [OF at Nil.prems(3) False _ Nil.prems(4,5)])
      fix d' assume "d' \<le> d" "built pre rooted m d' d0 (enter rooted S l)"
        "elements rooted m s d d0 = (if (0::byte) = 0 then Some (m, d') else elements rooted m (s + length l + 1) d' d0)"
      then show ?thesis using Nil.prems(4) end_at built_ended
        by (intro exI [of _ m] exI [of _ d'] exI [of _ "out (enter rooted S l)"]) (auto simp: built_def)
    next
      fix m' d0'
      assume m': "length m' = length m" "drop (s + length l) m' = 0 # t" "take (d + length l) m' = pre @ out S @ l" "enter rooted S l = S @ [l]"
        "elements rooted m s d d0 = (if (0::byte) = 0 then Some (m', d + length l)
        else elements rooted (m'[d + length l := 0]) (s + length l + 1) (d + length l + 1) d0')"
        and bt: "built pre rooted (m'[d + length l := 47]) (d + length l + 1) d0' (S @ [l])"
      have "last l \<noteq> 47" using last_in_set [OF False] Nil.prems(3) by (auto simp: slashless_def)
      then have "ended (S @ [l]) (out S @ l)"
        using built_ended [OF bt] False by (simp add: ended_def)
      then show ?thesis using m' bl Nil.prems(4)
        by (intro exI [of _ m'] exI [of _ "d + length l"] exI [of _ "out S @ l"]) auto
    qed simp
  qed
next
  case (Cons e es)
  have at: "drop s m = e @ 47 # (out es @ l @ 0 # t)" using Cons.prems(1) by simp
  have e: "slashless e" "e \<noteq> []" and es: "\<forall>e\<in>set es. slashless e \<and> e \<noteq> []" using Cons.prems(2) by auto
  have at': "drop (s + length e + 1) m = out es @ l @ 0 # t" using drop_append_length [OF at] by (simp add: drop_next)
  show ?case
  proof (rule elements_step [OF at e _ Cons.prems(4,5)])
    fix d' assume "d' \<le> d" "built pre rooted m d' d0 (enter rooted S e)"
      "elements rooted m s d d0 = (if (47::byte) = 0 then Some (m, d') else elements rooted m (s + length e + 1) d' d0)"
    moreover from this(3) have "elements rooted m s d d0 = elements rooted m (s + length e + 1) d' d0" by simp
    ultimately show ?thesis using Cons.IH [OF at' es Cons.prems(3), of d' d0 "enter rooted S e"] Cons.prems(4)
      by (simp add: ac_simps)
  next
    fix m' d0'
    assume m': "length m' = length m" "drop (s + length e) m' = 47 # (out es @ l @ 0 # t)" "take (d + length e) m' = pre @ out S @ e" "enter rooted S e = S @ [e]"
      "elements rooted m s d d0 = (if (47::byte) = 0 then Some (m', d + length e)
      else elements rooted (m'[d + length e := 47]) (s + length e + 1) (d + length e + 1) d0')"
      and bt: "built pre rooted (m'[d + length e := 47]) (d + length e + 1) d0' (S @ [e])"
    have at2: "drop (s + length e + 1) (m'[d + length e := 47]) = out es @ l @ 0 # t"
      using drop_next [OF m'(2)] Cons.prems(4) by simp
    from m'(5) have "elements rooted m s d d0 = elements rooted (m'[d + length e := 47]) (s + length e + 1) (d + length e + 1) d0'"
      by simp
    then show ?thesis using Cons.IH [OF at2 es Cons.prems(3) _ bt] m'(1,4) Cons.prems(4) by (simp add: ac_simps)
  qed simp
qed

section \<open>The root of a name\<close>

lemma takeWhile_prefix: "\<forall>b\<in>set (take k (z @ r)). P b \<Longrightarrow> r \<noteq> [] \<Longrightarrow> \<not> P (hd r) \<Longrightarrow> k \<le> length (takeWhile P z)"
proof (induction z arbitrary: k)
  case Nil
  then show ?case by (cases r; cases k) auto
next
  case (Cons a z)
  then show ?case by (cases k) auto
qed

lemma take_in_takeWhile: "n \<le> length (takeWhile P y) \<Longrightarrow> \<forall>b\<in>set (take n y). P b"
proof (induction y arbitrary: n)
  case (Cons a y)
  then show ?case by (cases n) (auto split: if_splits)
qed simp

lemma takeWhile_from:
  assumes "n \<le> length (takeWhile P y)"
  shows "n \<le> length y" and "length (takeWhile P y) = n + length (takeWhile P (drop n y))"
proof -
  show n: "n \<le> length y" using assms length_takeWhile_le [of P y] by linarith
  have "takeWhile P (take n y @ drop n y) = take n y @ takeWhile P (drop n y)"
    using take_in_takeWhile [OF assms] by (intro takeWhile_append2) auto
  then show "length (takeWhile P y) = n + length (takeWhile P (drop n y))" using n by simp
qed

lemma word_ge: "0x80 \<le> b \<Longrightarrow> b \<noteq> (47::byte)" "0x80 \<le> b \<Longrightarrow> b \<noteq> (0::byte)"
  by auto

lemma chartorune_in_word:
  assumes "u = c # z @ 0 # t" and "0 \<notin> set z"
  obtains r n where "chartorune u = Some (r, Suc n)" and "n \<le> length (takeWhile (\<lambda>b. b \<noteq> 47) z)"
proof -
  have "chartorune u \<noteq> None" by (rule chartorune_total) (simp add: assms(1))
  then obtain r k where k: "chartorune u = Some (r, k)" by auto
  obtain n where n: "k = Suc n" using chartorune_progress [OF k] by (cases k) auto
  have "\<forall>b\<in>set (take n (z @ 0 # t)). b \<noteq> 47 \<and> b \<noteq> 0"
  proof (cases "(r, k) = (Runeerror, 1)")
    case False
    have v: "valid_rune r" "runetochar r = c # take n (z @ 0 # t)" using chartorune_accepted [OF k False] assms(1) n by auto
    show ?thesis by (rule next_rune [OF v(1)]) (use v(2) in \<open>auto dest: word_ge\<close>)
  qed (use n in simp)
  then have "n \<le> length (takeWhile (\<lambda>b. b \<noteq> 47 \<and> b \<noteq> 0) z)" by (intro takeWhile_prefix) auto
  also have "takeWhile (\<lambda>b. b \<noteq> 47 \<and> b \<noteq> 0) z = takeWhile (\<lambda>b. b \<noteq> 47) z"
    using assms(2) by (intro takeWhile_cong) auto
  finally show ?thesis using that k n by blast
qed

lemma past_word_end:
  "drop p m = z @ 0 # t \<Longrightarrow> 0 \<notin> set z \<Longrightarrow> past_word m p = Some (p + length (takeWhile (\<lambda>b. b \<noteq> 47) z))"
proof (induction "length z" arbitrary: z p rule: less_induct)
  case less
  show ?case
  proof (cases z)
    case Nil
    then show ?thesis using less.prems by (subst past_word.simps) (simp add: rd_drop)
  next
    case (Cons c y)
    have c: "rd m p = Some c" "c \<noteq> 0" using less.prems Cons by (auto simp: rd_drop)
    show ?thesis
    proof (cases "c = 47")
      case True
      then show ?thesis using c Cons by (subst past_word.simps) simp
    next
      case False
      obtain r n where n: "chartorune (drop p m) = Some (r, Suc n)" "n \<le> length (takeWhile (\<lambda>b. b \<noteq> 47) y)"
        by (rule chartorune_in_word [of _ c y t]) (use less.prems Cons in auto)
      note le = takeWhile_from(1) [OF n(2)]
      have at: "drop (p + Suc n) m = drop n y @ 0 # t"
        using drop_append_length [of p m "c # take n y" "drop n y @ 0 # t"] less.prems(1) Cons le by simp
      have "past_word m (p + Suc n) = Some (p + Suc n + length (takeWhile (\<lambda>b. b \<noteq> 47) (drop n y)))"
        using less.prems(2) Cons at by (intro less.hyps) (auto dest: in_set_dropD)
      then show ?thesis using c False n Cons takeWhile_from(2) [OF n(2)] by (subst past_word.simps) (simp add: SEP_def)
    qed
  qed
qed

lemma root_name_hash:
  assumes "m = name @ 0 # t" and "0 \<notin> set name" and "name \<noteq> []" and "hd name = 35"
  shows "root_name m = Some (if hash_word name = name then None else Some (length (hash_word name) + 1, True))"
proof -
  obtain y where y: "name = 35 # y" using assms by (cases name) auto
  show ?thesis
  proof (cases y)
    case Nil
    then show ?thesis using y assms by (simp add: root_name_def rd_def hash_word_def)
  next
    case (Cons c z)
    let ?w = "takeWhile (\<lambda>b. b \<noteq> 47) z"
    have c: "rd m 0 = Some 35" "rd m 1 = Some c" "c \<noteq> 0" using assms y Cons by (auto simp: rd_def)
    obtain r n where n: "chartorune (drop 1 m) = Some (r, Suc n)" "n \<le> length ?w"
      by (rule chartorune_in_word [of _ c z t]) (use assms y Cons in auto)
    note le = takeWhile_from(1) [OF n(2)] and w = takeWhile_from(2) [OF n(2)]
    have at: "drop (1 + Suc n) m = drop n z @ 0 # t" using assms(1) y Cons le by simp
    have pw: "past_word m (1 + Suc n) = Some (2 + length ?w)"
      using past_word_end [OF at] assms(2) y Cons w by (auto dest: in_set_dropD)
    have h: "hash_word name = 35 # c # ?w" using y Cons by (simp add: hash_word_def)
    have "drop (2 + length ?w) m = dropWhile (\<lambda>b. b \<noteq> 47) z @ 0 # t"
      using assms(1) y Cons length_takeWhile_le [of "\<lambda>b. b \<noteq> 47" z] by (simp add: dropWhile_eq_drop)
    then have "rd m (2 + length ?w) = Some (if ?w = z then 0 else 47)"
      by (cases "dropWhile (\<lambda>b. b \<noteq> 47) z")
        (simp_all add: rd_drop dropWhile_eq_Cons_conv, (metis in_set_conv_decomp set_takeWhileD)+)
    then show ?thesis using c n pw h y Cons by (simp add: root_name_def) auto
  qed
qed

section \<open>The whole function\<close>

lemma resolve_filter: "foldl (enter rooted) S (filter (\<lambda>e. e \<noteq> []) es) = foldl (enter rooted) S es"
  by (induction es arbitrary: S) (auto simp: enter_def)

lemma out_join: "F \<noteq> [] \<Longrightarrow> out F = join F @ [47]"
  by (induction F rule: join.induct) auto

text \<open>After the root name: \<open>pre\<close> is the root name with its slash, \<open>z\<close> the rest of the name without leading slashes.\<close>

lemma squeezed_elements:
  assumes m: "drop s m = z @ 0 # t" and z: "0 \<notin> set z" "z = [] \<or> hd z \<noteq> 47" and d0: "d0 \<le> s" "take d0 m = pre" "length pre = d0"
  obtains m1 m' X where "squeeze m s d0 = Some m1" and "elements rooted m1 d0 d0 d0 = Some (m', length (pre @ X))" and "length m' = length m"
    and "take (length (pre @ X)) m' = pre @ X" and "length (pre @ X) \<le> s + length z" and "drop (Suc (s + length z)) m' = t"
    and "ended (resolve rooted (elems z)) X"
proof -
  let ?es = "butlast (elems (sq z))" and ?l = "last (elems (sq z))" and ?v = "drop (Suc (d0 + length (sq z))) m"
  define m1 where "m1 = take d0 m @ sq z @ 0 # ?v"
  have sqz: "out ?es @ ?l = sq z" by (rule out_elems)
  have len: "length (sq z) \<le> length z" by (induction z rule: sq.induct) (auto intro: order_trans simp: length_dropWhile_le split: if_splits)
  have no0: "0 \<notin> set (sq z)" using z(1) sq_set by blast
  have sq1: "squeeze m s d0 = Some m1" unfolding m1_def by (rule squeeze_is_sq [OF m z(1) d0(1)])
  have l1: "length m1 = length m" using arg_cong [OF m, of length] len d0 unfolding m1_def by simp
  have pl: "\<forall>e\<in>set ?es. slashless e \<and> e \<noteq> []" "slashless ?l"
  proof -
    show "slashless ?l" by (rule elems_slashless [OF no0]) simp
    show "\<forall>e\<in>set ?es. slashless e \<and> e \<noteq> []"
    proof
      fix e assume e: "e \<in> set ?es"
      have "e \<noteq> []"
      proof (cases "tl (elems (sq z)) = []")
        case True
        then show ?thesis using e by (cases "elems (sq z)") auto
      next
        case False
        then have "e = hd (elems (sq z)) \<or> e \<in> set (butlast (tl (elems (sq z))))" using e by (cases "elems (sq z)") auto
        moreover have "hd (elems (sq z)) \<noteq> []" using z(2) False by (cases z) auto
        ultimately show ?thesis using sq_nonempty_elems [of e z] by auto
      qed
      then show "slashless e \<and> e \<noteq> []" using elems_slashless [OF no0] e by (auto dest: in_set_butlastD)
    qed
  qed
  have at: "drop d0 m1 = out ?es @ ?l @ 0 # ?v" using d0 sqz l1 unfolding m1_def by (simp flip: append_assoc)
  have b: "built pre rooted m1 d0 d0 []" unfolding built_def using d0 by (intro exI [of _ 0] exI [of _ "[]"]) (simp add: m1_def)
  obtain m' X where m': "elements rooted m1 d0 d0 d0 = Some (m', length (pre @ X))" "length m' = length m1" "length (pre @ X) \<le> d0 + length (sq z)"
    "drop (d0 + length (sq z)) m' = 0 # ?v" "take (length (pre @ X)) m' = pre @ X" "ended (foldl (enter rooted) [] (?es @ [?l])) X"
    using elements_all [OF at pl le_refl b] unfolding length_append [symmetric] sqz by blast
  have F: "foldl (enter rooted) [] (?es @ [?l]) = resolve rooted (elems z)"
    using sq_elems [of z] resolve_filter [of rooted "[]"] unfolding resolve_def by (metis append_butlast_last_id elems_nonempty)
  have "drop (Suc (s + length z)) m' = drop (s + length z - (d0 + length (sq z))) (drop (Suc (d0 + length (sq z))) m')"
    using len d0 by simp
  also have "drop (Suc (d0 + length (sq z))) m' = ?v" using m'(4) by (rule drop_next)
  also have "drop (s + length z - (d0 + length (sq z))) ?v = drop (Suc (s + length z)) m" using len d0 by simp
  also have "\<dots> = t" using drop_append_length [OF m] by (simp add: drop_next)
  finally show ?thesis using that [OF sq1 m'(1)] m' l1 len d0 F by simp
qed

definition finish :: "bytes \<Rightarrow> nat \<Rightarrow> bytes option" where
  "finish m d = do {
     m \<leftarrow> wr m d 0;
     m \<leftarrow> (if d > 1 then do { b \<leftarrow> rd m (d - 1); if b = 47 then wr m (d - 1) 0 else Some m } else Some m);
     b \<leftarrow> rd m 0;
     if b = 0 then put_dot m else Some m }"

lemma cleanname_root:
  assumes "rd m 0 = Some b" and "b \<noteq> 0" and "root_name m = Some (Some (d0, rooted))"
    and "(if rooted then skip_slashes m d0 else Some d0) = Some s"
    and "squeeze m s d0 = Some m1" and "elements rooted m1 d0 d0 d0 = Some (m2, d)"
  shows "cleanname m = finish m2 d"
  using assms unfolding cleanname_def finish_def by (auto cong: if_cong)

text \<open>The ending of the function, on what the elements have left.\<close>

lemma finish_string:
  assumes "take d m = c" and "length c = d" and "d < length m" and "0 \<notin> set c"
    and k: "k = (if d > 1 \<and> last c = 47 then butlast c else c)" and "k \<noteq> []"
  shows "finish m d = Some (k @ 0 # drop (Suc (length k)) (c @ 0 # drop (Suc d) m))"
proof -
  have m0: "m[d := 0] = c @ 0 # drop (Suc d) m" using assms by (simp add: put_split)
  have "set k \<subseteq> set c" using k by (auto dest: in_set_butlastD)
  then have r0: "rd (k @ 0 # v) 0 = Some (hd k)" "hd k \<noteq> 0" for v
    using assms(4) \<open>k \<noteq> []\<close> by (cases k; auto simp: rd_def)+
  show ?thesis
  proof (cases "d > 1 \<and> last c = 47")
    case True
    then have c: "c = k @ [47]" and d: "d = Suc (length k)" using k assms(2) by (cases c rule: rev_cases; simp)+
    have "rd (m[d := 0]) (d - 1) = Some 47" unfolding m0 by (simp add: c d rd_def nth_append)
    moreover have "wr (m[d := 0]) (d - 1) 0 = Some (k @ 0 # 0 # drop (Suc d) m)"
      unfolding m0 by (simp add: c d wr_def list_update_append)
    ultimately show ?thesis using True r0 assms(3) unfolding finish_def by (simp add: wr_ok m0 c d)
  next
    case False
    then have c: "k = c" using k by auto
    have "d > 1 \<Longrightarrow> rd (m[d := 0]) (d - 1) = Some (last c)"
      unfolding m0 using assms(2) by (cases c rule: rev_cases) (auto simp: rd_def nth_append)
    then show ?thesis using False r0 assms(2,3) unfolding finish_def by (auto simp: wr_ok m0 c)
  qed
qed

lemma finish_empty:
  assumes "1 < length m"
  shows "finish m 0 = Some (46 # 0 # drop 2 m)"
  using assms by (cases m; cases "tl m") (auto simp: finish_def put_dot_def rd_def wr_def)

lemma ended_join:
  assumes "ended F X" and "F \<noteq> []"
  shows "(if 1 < length (pre @ X) \<and> last (pre @ X) = 47 then butlast (pre @ X) else pre @ X) = pre @ join F" and "X \<noteq> []" and "join F \<noteq> []"
proof -
  have "hd F \<noteq> []" using assms by (cases F) (auto simp: ended_def)
  then show j: "join F \<noteq> []" using assms(2) by (cases F rule: join.cases) auto
  then have l: "1 < length (join F @ [47])" by (cases "join F") auto
  show "(if 1 < length (pre @ X) \<and> last (pre @ X) = 47 then butlast (pre @ X) else pre @ X) = pre @ join F"
    using assms l out_join [OF assms(2)] by (auto simp: ended_def butlast_append)
  show "X \<noteq> []" using assms out_join [OF assms(2)] by (auto simp: ended_def)
qed

lemma drop_after: "length c \<le> n \<Longrightarrow> drop (Suc n) (c @ 0 # drop (Suc (length c)) v) = drop (Suc n) v"
  by (simp add: Suc_diff_le)

lemma ended_nil: "ended [] X \<Longrightarrow> X = []"
  by (auto simp: ended_def)

lemma ended_no_zero:
  assumes "ended F X"
  shows "0 \<notin> set X"
proof -
  have "\<forall>e\<in>set F. slashless e \<Longrightarrow> 0 \<notin> set (out F)" by (induction F) (auto simp: slashless_def)
  then have "0 \<notin> set (out F)" using assms by (auto simp: ended_def)
  then show ?thesis using assms by (auto simp: ended_def) (metis UnI1 set_append)
qed

text \<open>The name after its root: what is left is the root name, or the root name and the elements.\<close>

lemma cleanname_rooted:
  assumes m: "m = name @ 0 # t" and name: "0 \<notin> set name" "name \<noteq> []"
    and root: "root_name m = Some (Some (d0, rooted))" and d0: "take d0 name = pre" "length pre = d0" "rooted \<or> d0 = 0 \<and> hd name \<noteq> 47"
    and F: "F = resolve rooted (elems (drop d0 name))"
    and c: "c = (if F \<noteq> [] then pre @ join F else if 1 < d0 \<and> last pre = 47 then butlast pre else if pre = [] then dot_elem else pre)"
  shows "\<exists>u. cleanname m = Some (c @ 0 # u) \<and> length (c @ 0 # u) = length m \<and> drop (Suc (length name)) (c @ 0 # u) = t"
proof -
  let ?k = "if rooted then length (takeWhile (\<lambda>b. b = 47) (drop d0 name)) else 0"
  define z where "z = (if rooted then dropWhile (\<lambda>b. b = 47) (drop d0 name) else drop d0 name)"
  have le: "d0 \<le> length name" using d0(1,2) by (metis length_take min.cobounded1)
  have rest: "drop d0 m = drop d0 name @ 0 # t" using m le by simp
  have sk: "(if rooted then skip_slashes m d0 else Some d0) = Some (d0 + ?k)" using skip_slashes_drop [OF rest] by simp
  have z: "drop (d0 + ?k) m = z @ 0 # t" unfolding z_def using rest drop_skipped [OF rest, of "\<lambda>b. b = 47"] by auto
  have len: "d0 + ?k + length z = length name"
    using le length_append [of "takeWhile (\<lambda>b. b = 47) (drop d0 name)" "dropWhile (\<lambda>b. b = 47) (drop d0 name)"] by (auto simp: z_def)
  have "0 \<notin> set z" using name(1) by (auto simp: z_def dest: set_dropWhileD in_set_dropD)
  moreover have "z = [] \<or> hd z \<noteq> 47" using d0(3) hd_dropWhile [of "\<lambda>b. b = 47" "drop d0 name"] by (auto simp: z_def)
  moreover have "take d0 m = pre" using m le d0(1) by simp
  ultimately obtain m1 m' X where *: "squeeze m (d0 + ?k) d0 = Some m1" "elements rooted m1 d0 d0 d0 = Some (m', length (pre @ X))"
    "length m' = length m" "take (length (pre @ X)) m' = pre @ X" "length (pre @ X) \<le> d0 + ?k + length z"
    "drop (Suc (d0 + ?k + length z)) m' = t" "ended (resolve rooted (elems z)) X"
    by (rule squeezed_elements [OF z _ _ le_add1 _ d0(2), where rooted = rooted])
  have "foldl (enter rooted) [] (elems (dropWhile (\<lambda>b. b = 47) v)) = foldl (enter rooted) [] (elems v)" for v
    using elems_dropWhile [of v] resolve_filter [of rooted "[]"] by metis
  then have "resolve rooted (elems z) = F" unfolding F z_def resolve_def by auto
  then have X: "ended F X" using *(7) by simp
  have rd0: "rd m 0 = Some (hd name)" "hd name \<noteq> 0" using m name by (cases name; auto simp: rd_def)+
  let ?d = "length (pre @ X)"
  have fin: "cleanname m = finish m' ?d" by (rule cleanname_root [OF rd0 root sk *(1,2)])
  have lt: "?d < length m'" "?d \<le> length name" and t: "drop (Suc (length name)) m' = t" using *(3,5,6) len m by auto
  have no0: "0 \<notin> set (pre @ X)" using ended_no_zero [OF X] name(1) d0(1) by (auto dest: in_set_takeD)
  show ?thesis
  proof (cases "c = dot_elem \<and> pre = [] \<and> F = []")
    case True
    then have "X = []" "1 < length m'" using X ended_nil *(3) m name by (auto simp: neq_Nil_conv)
    then show ?thesis using True fin finish_empty [of m'] t *(3) name(2)
      by (intro exI [of _ "drop 2 m'"]) (auto simp: neq_Nil_conv numeral_2_eq_2)
  next
    case False
    let ?c = "pre @ X"
    have k: "c = (if ?d > 1 \<and> last ?c = 47 then butlast ?c else ?c)" and ne: "c \<noteq> []"
    proof -
      show "c = (if ?d > 1 \<and> last ?c = 47 then butlast ?c else ?c)"
      proof (cases "F = []")
        case True
        then have "X = []" using X ended_nil by simp
        then show ?thesis using True False c d0(2) by auto
      next
        case no: False
        then show ?thesis using ended_join(1) [OF X no, of pre] c by simp
      qed
      show "c \<noteq> []" using c False ended_join(3) [OF X] d0(2) by (auto simp: neq_Nil_conv)
    qed
    have "finish m' ?d = Some (c @ 0 # drop (Suc (length c)) (?c @ 0 # drop (Suc ?d) m'))"
      by (rule finish_string [OF *(4) refl lt(1) no0 k ne])
    moreover have cl: "length c \<le> ?d" using k by (auto split: if_splits)
    moreover have "drop (Suc (length name)) (c @ 0 # drop (Suc (length c)) (?c @ 0 # drop (Suc ?d) m')) = t"
      by (simp only: drop_after [OF order_trans [OF cl lt(2)]] drop_after [OF lt(2)] t)
    ultimately show ?thesis using fin lt(1) *(3) by (intro exI) auto
  qed
qed

lemma hash_word_split: "name = hash_word name @ drop (length (hash_word name)) name"
proof -
  have "name = take 2 name @ takeWhile (\<lambda>b. b \<noteq> 47) (drop 2 name) @ dropWhile (\<lambda>b. b \<noteq> 47) (drop 2 name)" by simp
  then show ?thesis unfolding hash_word_def by (metis append_assoc append_eq_conv_conj)
qed

lemma hash_word_rest:
  "drop (length (hash_word name)) name = [] \<or> hd (drop (length (hash_word name)) name) = 47 \<and> 2 \<le> length (hash_word name)"
proof -
  have "drop (length (hash_word name)) name = dropWhile (\<lambda>b. b \<noteq> 47) (drop 2 name)"
    unfolding hash_word_def by (cases "2 \<le> length name") (simp_all add: dropWhile_eq_drop add.commute)
  moreover have "dropWhile (\<lambda>b. b \<noteq> 47) (drop 2 name) = [] \<or> hd (dropWhile (\<lambda>b. b \<noteq> 47) (drop 2 name)) = 47"
    using hd_dropWhile [of "\<lambda>b. b \<noteq> 47" "drop 2 name"] by blast
  moreover have "2 \<le> length (hash_word name)" if "dropWhile (\<lambda>b. b \<noteq> 47) (drop 2 name) \<noteq> []"
    using that unfolding hash_word_def by (cases "2 \<le> length name") auto
  ultimately show ?thesis by auto
qed

lemma cleanname_hash:
  assumes m: "m = name @ 0 # t" and name: "0 \<notin> set name" "name \<noteq> []" "hd name = 35"
  shows "\<exists>u. cleanname m = Some (clean name @ 0 # u) \<and> length (clean name @ 0 # u) = length m \<and> drop (Suc (length name)) (clean name @ 0 # u) = t"
proof (cases "hash_word name = name")
  case True
  then have "cleanname m = Some m" using root_name_hash [OF m name] name m by (cases name) (auto simp: cleanname_def rd_def)
  moreover have "clean name = name" using True name by (simp add: clean_def)
  ultimately show ?thesis using m by auto
next
  case False
  let ?w = "hash_word name"
  obtain rest where rest: "drop (length ?w) name = 47 # rest" and w2: "2 \<le> length ?w"
    using hash_word_rest [of name] False hash_word_split [of name] by (cases "drop (length ?w) name") auto
  have split: "name = ?w @ 47 # rest" using hash_word_split [of name] rest by simp
  define es where "es = resolve True (elems rest)"
  have "clean name = (if es = [] then ?w else ?w @ 47 # join es)" using name rest drop_bound [OF rest] unfolding clean_def es_def by (simp add: Let_def)
  moreover have "root_name m = Some (Some (Suc (length ?w), True))" using root_name_hash [OF m name] False by simp
  moreover have "take (Suc (length ?w)) name = ?w @ [47]" by (subst split) simp
  moreover have "drop (Suc (length ?w)) name = rest" by (subst split) simp
  ultimately show ?thesis
    using w2 by (intro cleanname_rooted [OF m name(1,2), of "Suc (length ?w)" True "?w @ [47]" es]) (auto simp: es_def)
qed

end
