(* ===== verification/Cleanname_Props.thy ===== *)
theory Cleanname_Props
  imports Cleanname_Rules
begin

text \<open>
  The rewriting of \<^verbatim>\<open>cleanname\<close> is a function of the elements of the name: it leaves the name that the reference definition
  \<open>clean\<close> gives, a clean name stays as it is, and no name grows.
\<close>

section \<open>Clean names\<close>

definition canonical :: "bool \<Rightarrow> bytes list \<Rightarrow> bool" where
  "canonical rooted F \<longleftrightarrow> (\<exists>n st. F = replicate n dotdot_elem @ st \<and> (rooted \<longrightarrow> n = 0) \<and>
     (\<forall>e\<in>set st. e \<noteq> [] \<and> e \<noteq> dot_elem \<and> e \<noteq> dotdot_elem \<and> 47 \<notin> set e))"

lemma canonical_enter:
  assumes "canonical rooted F" and "47 \<notin> set e"
  shows "canonical rooted (enter rooted F e)"
proof -
  obtain n st where F: "F = replicate n dotdot_elem @ st" "rooted \<longrightarrow> n = 0"
    and st: "\<forall>e\<in>set st. e \<noteq> [] \<and> e \<noteq> dot_elem \<and> e \<noteq> dotdot_elem \<and> 47 \<notin> set e"
    using assms(1) unfolding canonical_def by blast
  consider "e = [] \<or> e = dot_elem" | "e = dotdot_elem" "st = []" | "e = dotdot_elem" "st \<noteq> []" | "e \<noteq> []" "e \<noteq> dot_elem" "e \<noteq> dotdot_elem"
    by blast
  then show ?thesis
  proof cases
    case 1
    then show ?thesis using assms(1) by (auto simp: enter_def)
  next
    case 2
    then have "F = [] \<or> last F = dotdot_elem" using F(1) by (cases n) simp_all
    then have "enter rooted F e = (if rooted then F else F @ [dotdot_elem])" using 2(1) by (simp add: enter_def)
    also have "\<dots> = replicate (if rooted then 0 else Suc n) dotdot_elem @ []"
      using F 2(2) by (cases rooted) (simp_all add: replicate_append_same)
    finally show ?thesis unfolding canonical_def
      by (intro exI [of _ "if rooted then 0 else Suc n"] exI [of _ "[]"] conjI) simp_all
  next
    case 3
    then have "last st \<noteq> dotdot_elem" using st last_in_set by blast
    then have "enter rooted F e = replicate n dotdot_elem @ butlast st" using 3 F by (simp add: enter_def butlast_append)
    then show ?thesis using F(2) st unfolding canonical_def
      by (intro exI [of _ n] exI [of _ "butlast st"] conjI) (auto dest: in_set_butlastD)
  next
    case 4
    then have "enter rooted F e = replicate n dotdot_elem @ (st @ [e])" using F by (simp add: enter_def)
    then show ?thesis using F(2) st 4 assms(2) unfolding canonical_def by (intro exI [of _ n] exI [of _ "st @ [e]"]) auto
  qed
qed

lemma elems_no_slash: "e \<in> set (elems z) \<Longrightarrow> 47 \<notin> set e"
proof (induction z arbitrary: e)
  case (Cons c z)
  have "47 \<notin> set (hd (elems z))" using Cons.IH by simp
  then show ?case using Cons by (auto split: if_splits dest: list.set_sel(2) [rotated])
qed simp

lemma canonical_fold: "canonical rooted S \<Longrightarrow> \<forall>e\<in>set es. 47 \<notin> set e \<Longrightarrow> canonical rooted (foldl (enter rooted) S es)"
  by (induction es arbitrary: S) (auto simp: canonical_enter)

lemma resolve_canonical: "canonical rooted (resolve rooted (elems z))"
  unfolding resolve_def by (rule canonical_fold) (auto simp: canonical_def dest: elems_no_slash)

lemma resolve_fixed: "canonical rooted F \<Longrightarrow> resolve rooted F = F"
proof (induction F rule: rev_induct)
  case (snoc x F)
  obtain n st where F: "F @ [x] = replicate n dotdot_elem @ st" "rooted \<longrightarrow> n = 0"
    and st: "\<forall>e\<in>set st. e \<noteq> [] \<and> e \<noteq> dot_elem \<and> e \<noteq> dotdot_elem \<and> 47 \<notin> set e"
    using snoc.prems unfolding canonical_def by blast
  have "canonical rooted F \<and> enter rooted F x = F @ [x]"
  proof (cases st rule: rev_cases)
    case Nil
    then obtain k where n: "n = Suc k" "F = replicate k dotdot_elem" "x = dotdot_elem"
      using F(1) by (cases n) (auto simp: replicate_append_same [symmetric])
    then have "canonical rooted F" using F(2) unfolding canonical_def by (intro exI [of _ k] exI [of _ "[]"]) auto
    then show ?thesis using n F(2) by (cases k) (auto simp: enter_def)
  next
    case (snoc ys y)
    then have "F = replicate n dotdot_elem @ ys" "x = y" using F(1) by auto
    then show ?thesis using F(2) st snoc unfolding canonical_def by (auto simp: enter_def)
  qed
  then show ?case using snoc.IH by (simp add: resolve_def)
qed (simp add: resolve_def)

lemma elems_prefix: "47 \<notin> set e \<Longrightarrow> elems (e @ 47 # z) = e # elems z"
  by (induction e) auto

lemma elems_append: "elems (a @ 47 # z) = elems a @ elems z"
  by (induction a) auto

lemma elems_word: "47 \<notin> set e \<Longrightarrow> elems e = [e]"
  by (induction e) auto

lemma elems_join: "F \<noteq> [] \<Longrightarrow> \<forall>e\<in>set F. 47 \<notin> set e \<Longrightarrow> elems (join F) = F"
  by (induction F rule: join.induct) (auto simp: elems_prefix elems_word)

lemma canonical_elems:
  assumes "canonical rooted F" and "e \<in> set F"
  shows "47 \<notin> set e" and "e \<noteq> []"
proof -
  obtain n st where "F = replicate n dotdot_elem @ st" "\<forall>e\<in>set st. e \<noteq> [] \<and> e \<noteq> dot_elem \<and> e \<noteq> dotdot_elem \<and> 47 \<notin> set e"
    using assms(1) unfolding canonical_def by blast
  then have "e = dotdot_elem \<or> e \<noteq> [] \<and> 47 \<notin> set e" using assms(2) by (metis UnE in_set_replicate set_append)
  then show "47 \<notin> set e" "e \<noteq> []" by auto
qed

lemma resolve_join: "canonical rooted F \<Longrightarrow> resolve rooted (elems (join F)) = F"
  using elems_join [of F] canonical_elems(1) resolve_fixed [of rooted F]
  by (cases "F = []") (auto simp: resolve_def enter_def)

lemma length_join: "F \<noteq> [] \<Longrightarrow> length (join F) + 1 = length (out F)"
  by (simp add: out_join)

lemma length_enter: "length (out (enter rooted S e)) \<le> length (out S) + length e + 1"
proof -
  have "length (out (butlast S)) \<le> length (out S)" by (cases S rule: rev_cases) auto
  then show ?thesis by (auto simp: enter_def)
qed

lemma length_fold: "length (out (foldl (enter rooted) S es)) \<le> length (out S) + length (out es)"
proof (induction es arbitrary: S)
  case (Cons e es)
  show ?case using length_enter [of rooted S e] Cons.IH [of "enter rooted S e"] by simp
qed simp

lemma out_of_elems: "out (elems z) = z @ [47]"
proof -
  have "out (elems z) = out (butlast (elems z) @ [last (elems z)])" by simp
  also have "\<dots> = z @ [47]" unfolding out_append using out_elems [of z] by simp
  finally show ?thesis .
qed

lemma length_resolve: "resolve rooted (elems z) \<noteq> [] \<Longrightarrow> length (join (resolve rooted (elems z))) \<le> length z"
proof -
  have "length (out (elems z)) = length z + 1" by (simp add: out_of_elems)
  then show "resolve rooted (elems z) \<noteq> [] \<Longrightarrow> length (join (resolve rooted (elems z))) \<le> length z"
    using length_fold [of rooted "[]" "elems z"] length_join [of "resolve rooted (elems z)"] by (simp add: resolve_def)
qed

lemma clean_length: "length (clean name) \<le> max 1 (length name)"
proof -
  consider "name = []" | z where "name = 47 # z" | z where "name = 35 # z" | "name \<noteq> []" "hd name \<noteq> 35" "hd name \<noteq> 47"
    by (cases name) auto
  then show ?thesis
  proof cases
    case 2
    then show ?thesis using length_resolve [of True z] by (cases "resolve True (elems z) = []") (auto simp: clean_def)
  next
    case 3
    let ?w = "hash_word name"
    have "length name = length ?w + length (drop (length ?w) name)"
      using hash_word_split [of name] by (metis length_append)
    then show ?thesis using length_resolve [of True "tl (drop (length ?w) name)"] 3
      by (auto simp: clean_def Let_def max_def)
  next
    case 4
    then show ?thesis using length_resolve [of False name] by (auto simp: clean_def Let_def max_def)
  qed (simp add: clean_def)
qed

lemma hash_word_again:
  assumes "hd name = 35" and "2 \<le> length (hash_word name)"
  shows "hash_word (hash_word name) = hash_word name" and "hash_word (hash_word name @ 47 # v) = hash_word name"
proof -
  obtain a b where w: "hash_word name = a # b # takeWhile (\<lambda>b. b \<noteq> 47) (drop 2 name)"
    using assms(2) unfolding hash_word_def by (cases name; cases "tl name") auto
  show "hash_word (hash_word name) = hash_word name" "hash_word (hash_word name @ 47 # v) = hash_word name"
    unfolding w hash_word_def [of "_ # _"] by (simp_all add: hash_word_def takeWhile_tail takeWhile_idem)
qed

lemma clean_hash:
  assumes "name \<noteq> []" and "hd name = 35"
  shows "clean (clean name) = clean name"
proof (cases "drop (length (hash_word name)) name = []")
  case True
  then have "clean name = name" using assms by (simp add: clean_def)
  then show ?thesis by simp
next
  case False
  let ?w = "hash_word name" and ?es = "resolve True (elems (tl (drop (length (hash_word name)) name)))"
  have w2: "2 \<le> length ?w" using hash_word_rest [of name] False by blast
  then have w: "hd ?w = 35" "?w \<noteq> []" using assms by (auto simp: hash_word_def)
  have cl: "clean name = (if ?es = [] then ?w else ?w @ 47 # join ?es)" using assms False by (simp add: clean_def Let_def)
  show ?thesis
  proof (cases "?es = []")
    case True
    then show ?thesis using cl w hash_word_again(1) [OF assms(2) w2] by (simp add: clean_def)
  next
    case es: False
    have "clean (?w @ 47 # join ?es) = ?w @ 47 # join ?es"
      using w es hash_word_again(2) [OF assms(2) w2] resolve_join [OF resolve_canonical]
      unfolding clean_def [of "_ @ _"] by (simp add: Let_def)
    then show ?thesis using cl es by simp
  qed
qed

text \<open>A relative name may become one that starts with \<^verbatim>\<open>#\<close>; it is clean all the same.\<close>

lemma clean_hash_word:
  assumes "canonical False F" and "F \<noteq> []" and "hd (join F) = 35" and "join F \<noteq> []"
  shows "clean (join F) = join F"
proof -
  obtain e es where F: "F = e # es" using assms(2) by (cases F) auto
  have n: "\<forall>e\<in>set F. e \<noteq> [] \<and> e \<noteq> dot_elem \<and> e \<noteq> dotdot_elem \<and> 47 \<notin> set e"
  proof -
    obtain n st where st: "F = replicate n dotdot_elem @ st" "\<forall>e\<in>set st. e \<noteq> [] \<and> e \<noteq> dot_elem \<and> e \<noteq> dotdot_elem \<and> 47 \<notin> set e"
      using assms(1) unfolding canonical_def by blast
    have "e \<noteq> []" using canonical_elems(2) [OF assms(1)] F by auto
    then have "hd e = 35" using assms(3) F by (cases es) auto
    then have "n = 0" using F st(1) by (cases n) auto
    then show ?thesis using st by simp
  qed
  show ?thesis
  proof (cases "drop (length (hash_word (join F))) (join F) = []")
    case True
    then show ?thesis using assms(3,4) by (simp add: clean_def)
  next
    case False
    then obtain rest where rest: "drop (length (hash_word (join F))) (join F) = 47 # rest"
      using hash_word_rest [of "join F"] by (cases "drop (length (hash_word (join F))) (join F)") auto
    then have name: "join F = hash_word (join F) @ 47 # rest" using hash_word_split [of "join F"] by simp
    have "elems (join F) = elems (hash_word (join F)) @ elems rest" by (subst name) (rule elems_append)
    then have "F = elems (hash_word (join F)) @ elems rest" using elems_join [OF assms(2)] n by simp
    then have "\<forall>e\<in>set (elems rest). e \<noteq> [] \<and> e \<noteq> dot_elem \<and> e \<noteq> dotdot_elem \<and> 47 \<notin> set e" using n by (metis UnI2 set_append)
    then have "canonical True (elems rest)" unfolding canonical_def by (intro exI [of _ 0] exI [of _ "elems rest"]) simp
    then have "resolve True (elems rest) = elems rest" by (rule resolve_fixed)
    moreover have "join (elems rest) = rest" using out_join [of "elems rest"] out_of_elems [of rest] by simp
    ultimately show ?thesis using assms(3,4) rest name drop_bound [OF rest] unfolding clean_def by (simp add: Let_def)
  qed
qed

lemma clean_idem: "clean (clean name) = clean name"
proof -
  consider "name = []" | "name \<noteq> []" "hd name = 35" | z where "name = 47 # z" | "name \<noteq> []" "hd name \<noteq> 35" "hd name \<noteq> 47"
    by (cases name) auto
  then show ?thesis
  proof cases
    case 2
    then show ?thesis by (rule clean_hash)
  next
    case 3
    then show ?thesis using resolve_join [OF resolve_canonical [of True z]] by (simp add: clean_def)
  next
    case 4
    define F where "F = resolve False (elems name)"
    have F: "canonical False F" unfolding F_def by (rule resolve_canonical)
    have cl: "clean name = (if F = [] then dot_elem else join F)" using 4 by (simp add: clean_def F_def Let_def)
    show ?thesis
    proof (cases "F = []")
      case True
      then show ?thesis using cl by (simp add: clean_def resolve_def enter_def)
    next
      case False
      obtain e es where e: "F = e # es" "47 \<notin> set e" "e \<noteq> []" using False canonical_elems [OF F] by (cases F) auto
      then have j: "join F \<noteq> []" "hd (join F) \<noteq> 47" by (cases es; cases e; auto)+
      show ?thesis
      proof (cases "hd (join F) = 35")
        case True
        then show ?thesis using cl False clean_hash_word [OF F False True j(1)] by simp
      next
        case no: False
        then show ?thesis using cl False j resolve_join [OF F] by (simp add: clean_def [of "join F"] Let_def)
      qed
    qed
  qed (simp add: clean_def resolve_def enter_def)
qed

section \<open>Properties\<close>

lemma cleanname_string:
  assumes "0 \<notin> set name" and "name \<noteq> [] \<or> t \<noteq> []"
  shows "\<exists>u. cleanname (name @ 0 # t) = Some (clean name @ 0 # u) \<and> length (clean name @ 0 # u) = length (name @ 0 # t) \<and>
    drop (max 2 (Suc (length name))) (clean name @ 0 # u) = drop (max 2 (Suc (length name))) (name @ 0 # t)"
proof (cases "name = []")
  case True
  then show ?thesis using assms(2) by (cases t) (auto simp: cleanname_def put_dot_def rd_def wr_def clean_def)
next
  case False
  define m where "m = name @ 0 # t"
  have "\<exists>u. cleanname m = Some (clean name @ 0 # u) \<and> length (clean name @ 0 # u) = length m \<and> drop (Suc (length name)) (clean name @ 0 # u) = t"
  proof -
    consider "hd name = 35" | "hd name = 47" | "hd name \<noteq> 35" "hd name \<noteq> 47" by blast
    then show ?thesis
    proof cases
      case 1
      then show ?thesis by (rule cleanname_hash [OF m_def assms(1) False])
    next
      case 2
      then have "root_name m = Some (Some (1, True))" "take 1 name = [47]" "drop 1 name = tl name"
        using False by (cases name; simp add: root_name_def rd_def m_def)+
      then show ?thesis using 2 False
        by (intro cleanname_rooted [OF m_def assms(1) False, of 1 True "[47]" "resolve True (elems (tl name))"]) (auto simp: clean_def)
    next
      case 3
      then have "root_name m = Some (Some (0, False))" using False by (cases name) (simp_all add: root_name_def rd_def m_def)
      then show ?thesis using 3 False
        by (intro cleanname_rooted [OF m_def assms(1) False, of 0 False "[]" "resolve False (elems name)"]) (auto simp: clean_def Let_def)
    qed
  qed
  moreover have "max 2 (Suc (length name)) = Suc (length name)" using False by (cases name) auto
  ultimately show ?thesis unfolding m_def by simp
qed

lemma clean_nonempty: "clean name \<noteq> []"
proof -
  have "join F \<noteq> []" if "F \<noteq> []" and "canonical r F" for r F
    using that canonical_elems(2) [OF that(2)] by (cases F rule: join.cases) auto
  then show ?thesis using resolve_canonical [of False name] by (auto simp: clean_def Let_def hash_word_def)
qed

lemma join_set: "set (join F) \<subseteq> insert 47 (\<Union>e\<in>set F. set e)"
  by (induction F rule: join.induct) auto

lemma enter_set: "set (enter rooted S e) \<subseteq> set S \<union> {e}"
  by (auto simp: enter_def dest: in_set_butlastD)

lemma fold_set: "set (foldl (enter rooted) S es) \<subseteq> set S \<union> set es"
proof (induction es arbitrary: S)
  case (Cons e es)
  then show ?case using enter_set [of rooted S e] by fastforce
qed simp

lemma resolve_no_zero: "0 \<notin> set z \<Longrightarrow> 0 \<notin> set (join (resolve rooted (elems z)))"
  using join_set [of "resolve rooted (elems z)"] fold_set [of rooted "[]" "elems z"] elems_slashless [of z]
  by (fastforce simp: resolve_def slashless_def)

lemma clean_no_zero: "0 \<notin> set name \<Longrightarrow> 0 \<notin> set (clean name)"
proof -
  assume n: "0 \<notin> set name"
  then have "0 \<notin> set (tl name)" "0 \<notin> set (tl (drop (length (hash_word name)) name))" "0 \<notin> set (hash_word name)"
    by (auto simp: hash_word_def dest: list.set_sel(2) [rotated] in_set_dropD in_set_takeD set_takeWhileD)
       (metis in_set_dropD list.set_sel(2) list.sel(2))+
  then show ?thesis using n resolve_no_zero by (auto simp: clean_def Let_def)
qed

text \<open>
  C27. \<^verbatim>\<open>cleanname\<close> on a string leaves the name that the reference definition gives: the elements of the name with empty ones and \<^verbatim>\<open>.\<close>
  removed and each \<^verbatim>\<open>..\<close> cancelled with the element before it, behind the root name. No assertion fails, no byte outside of the
  memory is touched, and none after the string; only an empty name needs a byte more than it has.
\<close>

theorem cleanname_correct:
  assumes "0 \<notin> set name" and "name \<noteq> [] \<or> t \<noteq> []"
  shows "\<exists>u. cleanname (name @ 0 # t) = Some (clean name @ 0 # u) \<and> length (clean name @ 0 # u) = length (name @ 0 # t) \<and>
    drop (max 2 (Suc (length name))) (clean name @ 0 # u) = drop (max 2 (Suc (length name))) (name @ 0 # t)"
  by (rule cleanname_string [OF assms])

lemma cleanname_correct_witness:
  "\<exists>u. cleanname [47, 97, 47, 46, 46, 47, 47, 98, 47, 0, 7] = Some ([47, 98] @ 0 # u)"
proof -
  have "clean [47, 97, 47, 46, 46, 47, 47, 98, 47] = [47, 98]" by code_simp
  then show ?thesis using cleanname_correct [of "[47, 97, 47, 46, 46, 47, 47, 98, 47]" "[7]"] by auto
qed

text \<open>
  C28. Cleaning a name twice is cleaning it once: the second call leaves the same name, which is never longer than the one given, but
  for the one byte that an empty name becomes.
\<close>

theorem cleanname_stable:
  assumes "0 \<notin> set name" and "name \<noteq> [] \<or> t \<noteq> []"
  shows "\<exists>c u v. cleanname (name @ 0 # t) = Some (c @ 0 # u) \<and> cleanname (c @ 0 # u) = Some (c @ 0 # v) \<and> 0 \<notin> set c \<and>
    length c \<le> max 1 (length name)"
proof -
  obtain u where u: "cleanname (name @ 0 # t) = Some (clean name @ 0 # u)" using cleanname_string [OF assms] by blast
  have "clean name \<noteq> []" by (rule clean_nonempty)
  then obtain v where "cleanname (clean name @ 0 # u) = Some (clean name @ 0 # v)"
    using cleanname_string [of "clean name" u] clean_no_zero [OF assms(1)] clean_idem [of name] by auto
  then show ?thesis using u clean_no_zero [OF assms(1)] clean_length by blast
qed

lemma cleanname_stable_witness:
  "\<exists>c u v. cleanname [46, 47, 97, 47, 47, 0] = Some (c @ 0 # u) \<and> cleanname (c @ 0 # u) = Some (c @ 0 # v) \<and> length c \<le> 5"
proof -
  obtain c u v where "cleanname [46, 47, 97, 47, 47, 0] = Some (c @ 0 # u)" "cleanname (c @ 0 # u) = Some (c @ 0 # v)" "length c \<le> 5"
    using cleanname_stable [of "[46, 47, 97, 47, 47]" "[]"] by auto
  then show ?thesis by blast
qed

text \<open>
  The rewriting does not keep a relative name relative: a file of the current directory whose name starts with \<^verbatim>\<open>#\<close>, written
  \<^verbatim>\<open>./#x\<close>, becomes \<^verbatim>\<open>#x\<close>, the name of a kernel device.
\<close>

theorem cleanname_device:
  assumes "0 \<notin> set x" and "47 \<notin> set x"
  shows "\<exists>u. cleanname ([46, 47, 35] @ x @ 0 # t) = Some ((35 # x) @ 0 # u)"
proof -
  have "elems (35 # x) = [35 # x]" by (rule elems_word) (use assms(2) in auto)
  then have "clean ([46, 47, 35] @ x) = 35 # x" by (simp add: clean_def resolve_def enter_def)
  then show ?thesis using cleanname_string [of "[46, 47, 35] @ x" t] assms(1) by auto
qed

lemma cleanname_device_witness: "\<exists>u. cleanname ([46, 47, 35] @ [115] @ 0 # []) = Some ((35 # [115]) @ 0 # u)"
  by (rule cleanname_device) simp_all

end
