(* ===== verification/Chans.thy ===== *)
theory Chans
  imports Dev Cleanname
begin

unbundle bit_operations_syntax

text \<open>
  Channels and what holds them: \<^verbatim>\<open>ref.c\<close> and the first part of \<^verbatim>\<open>chan.c\<close> of \<^verbatim>\<open>sys/src/kern/port\<close>. Objects live in lists and are named by their
  place there; a freed object is \<open>None\<close>, a freed channel stays and is on the free list of \<^verbatim>\<open>chanalloc\<close>. Chains linked through their
  objects (the free list, \<^verbatim>\<open>clunkq\<close>, the mounts of a mount head, the mount heads of a hash bucket) are lists.

  A call of a device's \<^verbatim>\<open>close\<close> is recorded in \<open>devcloses\<close>: what it does to the state of the device is not part of this model, and it is
  taken not to touch channels. The code under the locks is one step; a lock of this state is never held across one.
\<close>

section \<open>Data\<close>

abbreviation CCEXEC :: u16 where "CCEXEC \<equiv> 8"
abbreviation CFREE :: u16 where "CFREE \<equiv> 16"
abbreviation PATHSLOP :: nat where "PATHSLOP \<equiv> 20"
abbreviation PATHMSLOP :: nat where "PATHMSLOP \<equiv> 20"

record Kchan =
  k_ref :: int
  k_fid :: int
  k_dev :: "int option"
  k_devno :: u32
  k_mode :: u64
  k_flag :: u16
  k_qid :: Qid
  k_offset :: int
  k_devoffset :: int
  k_iounit :: u32
  k_umh :: "nat option"
  k_umc :: "nat option"
  k_uri :: nat
  k_dri :: nat
  k_dirrock :: "bytes option"
  k_nrock :: nat
  k_mrock :: nat
  k_ismtpt :: bool
  k_mux :: "nat option"
  k_aux :: nat
  k_mchan :: "nat option"
  k_mqid :: Qid
  k_path :: "nat option"

text \<open>\<^verbatim>\<open>p_s\<close> and \<^verbatim>\<open>p_mtpt\<close> are the allocated arrays, so that their lengths are \<^verbatim>\<open>alen\<close> and \<^verbatim>\<open>malen\<close>.\<close>

record Path =
  p_ref :: int
  p_s :: bytes
  p_len :: nat
  p_mtpt :: "nat option list"
  p_mlen :: nat

record Mount =
  m_id :: u32
  m_to :: nat
  m_flag :: u32
  m_spec :: "bytes option"

record Mhead =
  mh_ref :: int
  mh_from :: nat
  mh_mount :: "Mount list"

record Fgrp =
  f_ref :: int
  f_fd :: "nat option list"
  f_nfd :: nat
  f_maxfd :: nat
  f_exceed :: nat

record Pgrp =
  g_ref :: int
  g_noattach :: bool
  g_id :: int
  g_hash :: "nat list list"

record ns =
  chans :: "Kchan list"
  freelist :: "nat list"
  lastfid :: int
  paths :: "Path option list"
  npath :: int
  mheads :: "Mhead option list"
  clunkq :: "nat list"
  clunkactive :: int
  closeprocs :: "int list"
  devcloses :: "nat list"
  fgrps :: "Fgrp option list"
  pgrps :: "Pgrp option list"
  pgrpids :: int
  mountid :: u32
  clunkrunning :: int

type_synonym 'a kns = "(ns, kexc, 'a) sem"

section \<open>References\<close>

text \<open>What has a reference count: a channel, a path, a mount head, a table of file descriptors, a process group; and \<^verbatim>\<open>npath\<close>, the number of paths.\<close>

datatype obj = C nat | P nat | M nat | F nat | G nat | Npath

definition live :: "'a option list \<Rightarrow> nat \<Rightarrow> 'a option" where
  "live xs i = (if i < length xs then xs ! i else None)"

fun get_ref :: "obj \<Rightarrow> ns \<Rightarrow> int option" where
  "get_ref (C c) k = (if c < length (chans k) then Some (k_ref (chans k ! c)) else None)"
| "get_ref (P p) k = map_option p_ref (live (paths k) p)"
| "get_ref (M m) k = map_option mh_ref (live (mheads k) m)"
| "get_ref (F f) k = map_option f_ref (live (fgrps k) f)"
| "get_ref (G g) k = map_option g_ref (live (pgrps k) g)"
| "get_ref Npath k = Some (npath k)"

definition upd :: "nat \<Rightarrow> ('a \<Rightarrow> 'a) \<Rightarrow> 'a option list \<Rightarrow> 'a option list" where
  "upd i f xs = xs[i := map_option f (xs ! i)]"

fun put_ref :: "obj \<Rightarrow> int \<Rightarrow> ns \<Rightarrow> ns" where
  "put_ref (C c) x k = k\<lparr>chans := (chans k)[c := (chans k ! c)\<lparr>k_ref := x\<rparr>]\<rparr>"
| "put_ref (P p) x k = k\<lparr>paths := upd p (\<lambda>r. r\<lparr>p_ref := x\<rparr>) (paths k)\<rparr>"
| "put_ref (M m) x k = k\<lparr>mheads := upd m (\<lambda>r. r\<lparr>mh_ref := x\<rparr>) (mheads k)\<rparr>"
| "put_ref (F f) x k = k\<lparr>fgrps := upd f (\<lambda>r. r\<lparr>f_ref := x\<rparr>) (fgrps k)\<rparr>"
| "put_ref (G g) x k = k\<lparr>pgrps := upd g (\<lambda>r. r\<lparr>g_ref := x\<rparr>) (pgrps k)\<rparr>"
| "put_ref Npath x k = k\<lparr>npath := x\<rparr>"

text \<open>\<^verbatim>\<open>ainc\<close> and \<^verbatim>\<open>adec\<close> on a 32-bit \<^verbatim>\<open>int\<close>.\<close>

definition ainc :: "int \<Rightarrow> int" where
  "ainc x = (if x = 2 ^ 31 - 1 then - (2 ^ 31) else x + 1)"

definition adec :: "int \<Rightarrow> int" where
  "adec x = (if x = - (2 ^ 31) then 2 ^ 31 - 1 else x - 1)"

definition incref :: "obj \<Rightarrow> int kns" where
  "incref r = (\<lambda>k. case get_ref r k of
     None \<Rightarrow> (Inl Fault, k)
   | Some n \<Rightarrow> (if ainc n \<le> 0 then Inl Panic else Inr (ainc n), put_ref r (ainc n) k))"

definition decref :: "obj \<Rightarrow> int kns" where
  "decref r = (\<lambda>k. case get_ref r k of
     None \<Rightarrow> (Inl Fault, k)
   | Some n \<Rightarrow> (if adec n < 0 then Inl Panic else Inr (adec n), put_ref r (adec n) k))"

text \<open>Following a pointer; \<open>Fault\<close> when the object does not exist.\<close>

definition chan :: "nat \<Rightarrow> Kchan kns" where
  "chan c = (\<lambda>k. if c < length (chans k) then (Inr (chans k ! c), k) else (Inl Fault, k))"

definition obj_at :: "(ns \<Rightarrow> 'a option list) \<Rightarrow> nat \<Rightarrow> 'a kns" where
  "obj_at xs i = (\<lambda>k. case live (xs k) i of None \<Rightarrow> (Inl Fault, k) | Some x \<Rightarrow> (Inr x, k))"

abbreviation path_at :: "nat \<Rightarrow> Path kns" where "path_at \<equiv> obj_at paths"
abbreviation mhead_at :: "nat \<Rightarrow> Mhead kns" where "mhead_at \<equiv> obj_at mheads"
abbreviation fgrp_at :: "nat \<Rightarrow> Fgrp kns" where "fgrp_at \<equiv> obj_at fgrps"
abbreviation pgrp_at :: "nat \<Rightarrow> Pgrp kns" where "pgrp_at \<equiv> obj_at pgrps"

definition set_chan :: "nat \<Rightarrow> (Kchan \<Rightarrow> Kchan) \<Rightarrow> unit kns" where
  "set_chan c f = modify (\<lambda>k. k\<lparr>chans := (chans k)[c := f (chans k ! c)]\<rparr>)"

definition set_path :: "nat \<Rightarrow> (Path \<Rightarrow> Path) \<Rightarrow> unit kns" where
  "set_path p f = modify (\<lambda>k. k\<lparr>paths := upd p f (paths k)\<rparr>)"

definition set_mhead :: "nat \<Rightarrow> (Mhead \<Rightarrow> Mhead) \<Rightarrow> unit kns" where
  "set_mhead m f = modify (\<lambda>k. k\<lparr>mheads := upd m f (mheads k)\<rparr>)"

definition set_fgrp :: "nat \<Rightarrow> (Fgrp \<Rightarrow> Fgrp) \<Rightarrow> unit kns" where
  "set_fgrp f g = modify (\<lambda>k. k\<lparr>fgrps := upd f g (fgrps k)\<rparr>)"

definition set_pgrp :: "nat \<Rightarrow> (Pgrp \<Rightarrow> Pgrp) \<Rightarrow> unit kns" where
  "set_pgrp g f = modify (\<lambda>k. k\<lparr>pgrps := upd g f (pgrps k)\<rparr>)"

section \<open>Allocating channels and paths\<close>

definition zero_qid :: Qid where
  "zero_qid = \<lparr>qpath = 0, qvers = 0, qtype = 0\<rparr>"

text \<open>A channel as \<^verbatim>\<open>smalloc\<close> gives it.\<close>

definition zero_chan :: Kchan where
  "zero_chan = \<lparr>k_ref = 0, k_fid = 0, k_dev = None, k_devno = 0, k_mode = 0, k_flag = 0, k_qid = zero_qid, k_offset = 0, k_devoffset = 0,
     k_iounit = 0, k_umh = None, k_umc = None, k_uri = 0, k_dri = 0, k_dirrock = None, k_nrock = 0, k_mrock = 0, k_ismtpt = False,
     k_mux = None, k_aux = 0, k_mchan = None, k_mqid = zero_qid, k_path = None\<rparr>"

definition chan_init :: "Kchan \<Rightarrow> Kchan" where
  "chan_init c = c\<lparr>k_dev := None, k_flag := 0, k_ref := 1, k_devno := 0, k_offset := 0, k_devoffset := 0, k_iounit := 0, k_umh := None,
     k_uri := 0, k_dri := 0, k_aux := 0, k_mchan := None, k_mux := None, k_mqid := zero_qid, k_path := None, k_ismtpt := False\<rparr>"

definition newchan :: "nat kns" where
  "newchan = and_then (fetch freelist) (\<lambda>fl. case fl of
       c # cs \<Rightarrow> seq (modify (freelist_update (\<lambda>_. cs))) (seq (set_chan c chan_init) (ret c))
     | [] \<Rightarrow> and_then (fetch (\<lambda>k. length (chans k))) (\<lambda>c.
         seq (modify (\<lambda>k. k\<lparr>lastfid := ainc (lastfid k), chans := chans k @ [zero_chan\<lparr>k_fid := ainc (lastfid k)\<rparr>]\<rparr>))
        (seq (set_chan c chan_init)
        (ret c))))"

text \<open>A new object at the end of a list of objects.\<close>

definition new_path :: "Path \<Rightarrow> nat kns" where
  "new_path p = and_then (fetch (\<lambda>k. length (paths k))) (\<lambda>i.
     seq (modify (\<lambda>k. k\<lparr>paths := paths k @ [Some p]\<rparr>))
    (and_then (incref Npath) (\<lambda>_. ret i)))"

definition newpath :: "bytes \<Rightarrow> nat kns" where
  "newpath s = new_path \<lparr>p_ref = 1, p_s = s @ replicate PATHSLOP 0, p_len = length s,
     p_mtpt = replicate PATHMSLOP None, p_mlen = 1\<rparr>"

text \<open>\<^verbatim>\<open>copypath\<close>: the references of the copy are counted one by one.\<close>

definition incref_opt :: "nat option \<Rightarrow> unit kns" where
  "incref_opt c = (case c of None \<Rightarrow> ret () | Some c \<Rightarrow> and_then (incref (C c)) (\<lambda>_. ret ()))"

definition copypath :: "nat \<Rightarrow> nat kns" where
  "copypath p = and_then (path_at p) (\<lambda>r.
     and_then (new_path \<lparr>p_ref = 1, p_s = take (p_len r + 1) (p_s r) @ replicate (length (p_s r) - (p_len r + 1)) 0, p_len = p_len r,
       p_mtpt = take (p_mlen r) (p_mtpt r) @ replicate (length (p_mtpt r) - p_mlen r) None, p_mlen = p_mlen r\<rparr>) (\<lambda>pp.
     seq (for_each incref_opt (take (p_mlen r) (p_mtpt r)))
    (ret pp)))"

section \<open>Closing channels\<close>

definition putmhead :: "nat option \<Rightarrow> unit kns" where
  "putmhead mh = (case mh of
     None \<Rightarrow> ret ()
   | Some m \<Rightarrow> and_then (decref (M m)) (\<lambda>x.
       if x = 0 then modify (\<lambda>k. k\<lparr>mheads := (mheads k)[m := None]\<rparr>) else ret ()))"

text \<open>
  \<^verbatim>\<open>cclose\<close>, \<^verbatim>\<open>chanfree\<close> and \<^verbatim>\<open>pathclose\<close> call each other: closing a channel closes the channels it holds. The calls still to be made are a
  stack, and each of the functions below does its work up to its first call and leaves the rest on the stack. The pointers of a channel
  that is freed are cleared before what they point to is closed and not one by one after each: nothing looks at a channel marked \<^verbatim>\<open>CFREE\<close>.
\<close>

datatype work = Cclose nat | Chanfree nat | Pathclose nat | Tofree nat

definition close_opt :: "nat option \<Rightarrow> work list" where
  "close_opt c = (case c of None \<Rightarrow> [] | Some c \<Rightarrow> [Cclose c])"

text \<open>The device is told of the last close.\<close>

definition devclose :: "nat \<Rightarrow> unit kns" where
  "devclose c = modify (\<lambda>k. k\<lparr>devcloses := devcloses k @ (if k_dev (chans k ! c) \<noteq> None then [c] else [])\<rparr>)"

definition cclose_start :: "nat \<Rightarrow> work list kns" where
  "cclose_start c = and_then (chan c) (\<lambda>r.
     if k_ref r < 1 \<or> k_flag r AND CFREE \<noteq> 0 then raise Panic
     else and_then (decref (C c)) (\<lambda>x.
       if x \<noteq> 0 then ret [] else seq (devclose c) (ret [Chanfree c])))"

text \<open>The connection to a server that \<^verbatim>\<open>muxclose\<close> ends is state of the mount driver.\<close>

definition chanfree_start :: "nat \<Rightarrow> work list kns" where
  "chanfree_start c = and_then (chan c) (\<lambda>r.
     seq (set_chan c (\<lambda>r. (if k_dirrock r \<noteq> None then r\<lparr>k_dirrock := None, k_nrock := 0, k_mrock := 0\<rparr> else r)
       \<lparr>k_flag := CFREE, k_umh := None, k_umc := None, k_mux := None, k_mchan := None, k_dev := None, k_path := None\<rparr>))
    (seq (putmhead (k_umh r))
    (ret (close_opt (k_umc r) @ close_opt (k_mchan r) @ (case k_path r of None \<Rightarrow> [] | Some p \<Rightarrow> [Pathclose p]) @ [Tofree c]))))"

definition pathclose_start :: "nat \<Rightarrow> work list kns" where
  "pathclose_start p = and_then (decref (P p)) (\<lambda>x.
     if x \<noteq> 0 then ret []
     else and_then (path_at p) (\<lambda>r.
       and_then (decref Npath) (\<lambda>_.
       seq (modify (\<lambda>k. k\<lparr>paths := (paths k)[p := None]\<rparr>))
      (ret (concat (map close_opt (take (p_mlen r) (p_mtpt r))))))))"

definition work_step :: "work \<Rightarrow> work list kns" where
  "work_step w = (case w of
     Cclose c \<Rightarrow> cclose_start c
   | Chanfree c \<Rightarrow> chanfree_start c
   | Pathclose p \<Rightarrow> pathclose_start p
   | Tofree c \<Rightarrow> seq (modify (\<lambda>k. k\<lparr>freelist := c # freelist k\<rparr>)) (ret []))"

text \<open>Each step does away with a reference, or with an entry of the stack.\<close>

definition chan_weight :: "ns \<Rightarrow> nat" where
  "chan_weight k = sum_list (map (\<lambda>c. nat \<bar>k_ref c\<bar>) (chans k))"

definition path_weight :: "ns \<Rightarrow> nat" where
  "path_weight k = sum_list (map (case_option 0 (\<lambda>p. nat \<bar>p_ref p\<bar>)) (paths k))"

fun work_weight :: "work \<Rightarrow> nat" where
  "work_weight (Chanfree c) = 10"
| "work_weight w = 1"

lemma sum_list_update_map:
  "i < length xs \<Longrightarrow> sum_list (map f (xs[i := y])) + f (xs ! i) = sum_list (map f xs) + (f y :: 'a :: comm_monoid_add)"
proof (induction xs arbitrary: i)
  case (Cons x xs)
  then show ?case by (cases i) (auto simp: ac_simps)
qed simp

lemma wp_chan [wp_simps]: "wp (chan c) Q E k = (if c < length (chans k) then Q (chans k ! c) k else E Fault k)"
  by (simp add: wp_def chan_def)

lemma wp_obj_at [wp_simps]: "wp (obj_at xs i) Q E k = (case live (xs k) i of None \<Rightarrow> E Fault k | Some x \<Rightarrow> Q x k)"
  by (simp add: wp_def obj_at_def split: option.splits)

lemma wp_incref [wp_simps]:
  "wp (incref r) Q E k = (case get_ref r k of None \<Rightarrow> E Fault k
     | Some n \<Rightarrow> if ainc n \<le> 0 then E Panic (put_ref r (ainc n) k) else Q (ainc n) (put_ref r (ainc n) k))"
  by (simp add: wp_def incref_def split: option.splits)

lemma wp_decref [wp_simps]:
  "wp (decref r) Q E k = (case get_ref r k of None \<Rightarrow> E Fault k
     | Some n \<Rightarrow> if adec n < 0 then E Panic (put_ref r (adec n) k) else Q (adec n) (put_ref r (adec n) k))"
  by (simp add: wp_def decref_def split: option.splits)

lemma wp_set [wp_simps]:
  "wp (set_chan c f) Q E k = Q () (k\<lparr>chans := (chans k)[c := f (chans k ! c)]\<rparr>)"
  "wp (set_path i g) Q E k = Q () (k\<lparr>paths := upd i g (paths k)\<rparr>)"
  "wp (set_mhead j h) Q E k = Q () (k\<lparr>mheads := upd j h (mheads k)\<rparr>)"
  "wp (set_fgrp l u) Q E k = Q () (k\<lparr>fgrps := upd l u (fgrps k)\<rparr>)"
  "wp (set_pgrp n v) Q E k = Q () (k\<lparr>pgrps := upd n v (pgrps k)\<rparr>)"
  by (simp_all add: wp_def set_chan_def set_path_def set_mhead_def set_fgrp_def set_pgrp_def modify_def)

lemmas wp_ns = wp_flow wp_chan wp_obj_at wp_incref wp_decref wp_set

lemma wpI_result: "(\<And>x k'. m k = (Inr x, k') \<Longrightarrow> Q x k') \<Longrightarrow> wp m Q (\<lambda>_ _. True) k"
  by (auto simp: wp_def split: prod.splits sum.splits)

lemma map_same: "f x = f (xs ! i) \<Longrightarrow> map f (xs[i := x]) = map f xs"
  by (metis list_update_id map_update)

lemma chan_weight_cong: "map k_ref (chans k') = map k_ref (chans k) \<Longrightarrow> chan_weight k' = chan_weight k"
proof -
  assume a: "map k_ref (chans k') = map k_ref (chans k)"
  have "chan_weight l = sum_list (map (\<lambda>n. nat \<bar>n\<bar>) (map k_ref (chans l)))" for l by (simp add: chan_weight_def comp_def)
  then show ?thesis by (simp only: a)
qed

lemma putmhead_wp:
  assumes "Q () k" and "\<And>ms. Q () (k\<lparr>mheads := ms\<rparr>)"
  shows "wp (putmhead mh) Q (\<lambda>_ _. True) k"
proof (cases mh)
  case None
  then show ?thesis using assms(1) by (simp add: putmhead_def wp_ret)
next
  case (Some m)
  then show ?thesis
    by (cases "live (mheads k) m") (simp_all add: putmhead_def wp_and_then wp_decref wp_if wp_modify wp_ret assms(2))
qed

lemma cclose_lighter: "wp (cclose_start c) (\<lambda>ws k'. chan_weight k' < chan_weight k) (\<lambda>_ _. True) k"
proof -
  have "chan_weight (k\<lparr>chans := (chans k)[c := (chans k ! c)\<lparr>k_ref := x\<rparr>], devcloses := d\<rparr>) < chan_weight k"
    if "c < length (chans k)" "\<not> k_ref (chans k ! c) < 1" "x = adec (k_ref (chans k ! c))" for x d
  proof -
    have "nat \<bar>x\<bar> < nat \<bar>k_ref (chans k ! c)\<bar>" using that by (simp add: adec_def)
    then show ?thesis using sum_list_update_map [OF that(1), of "\<lambda>c. nat \<bar>k_ref c\<bar>" "(chans k ! c)\<lparr>k_ref := x\<rparr>"]
      unfolding chan_weight_def by simp linarith
  qed
  note this this [of _ "devcloses k"]
  then show ?thesis by (auto simp: cclose_start_def wp_ns devclose_def)
qed

lemma chanfree_lighter:
  "wp (chanfree_start c) (\<lambda>ws k'. chan_weight k' = chan_weight k \<and> path_weight k' = path_weight k \<and> sum_list (map work_weight ws) < 10)
     (\<lambda>_ _. True) k"
  by (auto simp: chanfree_start_def wp_ns close_opt_def path_weight_def intro!: putmhead_wp chan_weight_cong map_same split: option.splits)

lemma live_upd [simp]: "live (upd i f xs) j = (if i = j then map_option f (live xs i) else live xs j)"
  by (auto simp: live_def upd_def)

lemma live_update: "live (xs[i := v]) j = (if i = j \<and> i < length xs then v else live xs j)"
  by (auto simp: live_def)

lemma live_Some: "live xs i = Some x \<longleftrightarrow> i < length xs \<and> xs ! i = Some x"
  by (auto simp: live_def)

lemma upd_live: "live xs i = Some x \<Longrightarrow> upd i f xs = xs[i := Some (f x)]"
  by (simp add: upd_def live_Some)

lemma path_lighter:
  assumes "live (paths k) p = Some r" and "\<not> adec (p_ref r) < 0"
    and "r' = Some (r\<lparr>p_ref := adec (p_ref r)\<rparr>) \<or> adec (p_ref r) = 0 \<and> r' = None"
  shows "path_weight (k\<lparr>paths := (paths k)[p := r']\<rparr>) < path_weight k"
proof -
  have p: "p < length (paths k)" "paths k ! p = Some r" using assms(1) by (auto simp: live_def split: if_splits)
  have "case_option 0 (\<lambda>p. nat \<bar>p_ref p\<bar>) r' < nat \<bar>p_ref r\<bar>" using assms(2,3) by (auto simp: adec_def split: if_splits)
  then show ?thesis using sum_list_update_map [OF p(1), of "case_option 0 (\<lambda>p. nat \<bar>p_ref p\<bar>)" r'] p(2)
    unfolding path_weight_def by simp
qed

lemma weight_other [simp]: "path_weight (k\<lparr>npath := n\<rparr>) = path_weight k" "chan_weight (k\<lparr>npath := n\<rparr>) = chan_weight k"
  "chan_weight (k\<lparr>paths := ps\<rparr>) = chan_weight k"
  by (simp_all add: path_weight_def chan_weight_def)

lemma pathclose_lighter:
  "wp (pathclose_start p) (\<lambda>ws k'. chan_weight k' = chan_weight k \<and> path_weight k' < path_weight k) (\<lambda>_ _. True) k"
proof (cases "live (paths k) p")
  case None
  then show ?thesis by (simp add: pathclose_start_def wp_ns)
next
  case (Some r)
  have p: "p < length (paths k)" using Some by (simp add: live_Some)
  have "path_weight (k\<lparr>paths := (paths k)[p := None], npath := n\<rparr>) < path_weight k" if "adec (p_ref r) = 0" for n
    using path_lighter [OF Some, of None] that by (simp add: path_weight_def)
  then show ?thesis using path_lighter [OF Some _ disjI1 [OF refl]] Some
    by (simp add: pathclose_start_def wp_ns upd_live live_update p chan_weight_def path_weight_def)
qed

definition work_order :: "((work list \<times> ns) \<times> (work list \<times> ns)) set" where
  "work_order = measures [\<lambda>(w, k). chan_weight k, \<lambda>(w, k). path_weight k, \<lambda>(w, k). sum_list (map work_weight w)]"

lemma work_lighter: "work_step w k = (Inr ws, k') \<Longrightarrow> ((ws @ rest, k'), (w # rest, k)) \<in> work_order"
  using wpD_Inr [OF cclose_lighter] wpD_Inr [OF chanfree_lighter] wpD_Inr [OF pathclose_lighter]
  by (cases w) (fastforce simp: work_step_def work_order_def seq_def and_then_def modify_def ret_def chan_weight_def path_weight_def)+

function run_work :: "work list \<Rightarrow> unit kns" where
  "run_work [] k = (Inr (), k)"
| "run_work (w # rest) k = (case work_step w k of (Inl e, k') \<Rightarrow> (Inl e, k') | (Inr ws, k') \<Rightarrow> run_work (ws @ rest) k')"
  by pat_completeness auto
termination by (relation work_order) (auto simp: work_order_def [THEN arg_cong [of _ _ wf]] intro: work_lighter)

declare run_work.simps [simp del]

definition cclose :: "nat \<Rightarrow> unit kns" where
  "cclose c = run_work [Cclose c]"

definition chanfree :: "nat \<Rightarrow> unit kns" where
  "chanfree c = run_work [Chanfree c]"

definition pathclose :: "nat option \<Rightarrow> unit kns" where
  "pathclose p = (case p of None \<Rightarrow> ret () | Some p \<Rightarrow> run_work [Pathclose p])"

section \<open>Closing in the background\<close>

text \<open>
  \<^verbatim>\<open>ccloseq\<close> hands the last reference to the processes that run \<^verbatim>\<open>closeproc\<close>. Whether one of them was asleep is the answer \<open>woken\<close> of
  \<^verbatim>\<open>wakeup\<close>; \<open>closeprocs\<close> are the numbers of those that have been started.
\<close>

definition ccloseq :: "bool \<Rightarrow> nat \<Rightarrow> unit kns" where
  "ccloseq woken c = and_then (chan c) (\<lambda>r.
     if k_ref r < 1 \<or> k_flag r AND CFREE \<noteq> 0 then raise Panic
     else and_then (decref (C c)) (\<lambda>x.
       if x \<noteq> 0 then ret ()
       else seq (modify (\<lambda>k. k\<lparr>clunkq := clunkq k @ [c]\<rparr>))
         (if woken then ret ()
          else seq (modify (\<lambda>k. k\<lparr>clunkactive := ainc (clunkactive k)\<rparr>))
            (and_then (fetch clunkactive) (\<lambda>n.
             if n < 10 then modify (\<lambda>k. k\<lparr>closeprocs := closeprocs k @ [n]\<rparr>)
             else modify (\<lambda>k. k\<lparr>clunkactive := adec (clunkactive k)\<rparr>))))))"

text \<open>
  A process that runs \<^verbatim>\<open>closeproc\<close> counts itself in \<^verbatim>\<open>running\<close> and waits for a channel to close. One round is from there to the next wait; its
  result is whether the process ends instead. A round that finds the queue empty goes on waiting.
\<close>

definition closeproc_wait :: "unit kns" where
  "closeproc_wait = modify (\<lambda>k. k\<lparr>clunkrunning := ainc (clunkrunning k)\<rparr>)"

definition closeproc :: "int \<Rightarrow> bool kns" where
  "closeproc n = and_then (fetch clunkq) (\<lambda>q. case q of
     [] \<Rightarrow> ret False
   | c # q \<Rightarrow>
       seq (modify (\<lambda>k. k\<lparr>clunkq := q\<rparr>))
      (seq (devclose c)
      (seq (chanfree c)
      (seq (modify (\<lambda>k. k\<lparr>clunkrunning := adec (clunkrunning k)\<rparr>))
      (and_then (fetch clunkrunning) (\<lambda>running.
       if running \<ge> 5 \<and> n > 5
       then seq (modify (\<lambda>k. k\<lparr>clunkactive := adec (clunkactive k), closeprocs := remove1 n (closeprocs k)\<rparr>)) (ret True)
       else seq closeproc_wait (ret False)))))))"

section \<open>Names of channels\<close>

definition isdotdot :: "bytes \<Rightarrow> bool" where
  "isdotdot s \<longleftrightarrow> s = [46, 46]"

text \<open>\<^verbatim>\<open>strcmp(r, "/") == 0\<close> for the string at \<open>r\<close>.\<close>

definition is_slash :: "bytes \<Rightarrow> nat \<Rightarrow> bool option" where
  "is_slash s r = do { a \<leftarrow> rd s r; if a \<noteq> 47 then Some False else do { b \<leftarrow> rd s (r + 1); Some (b = 0) } }"

text \<open>\<^verbatim>\<open>fixdotdotname\<close> on the memory of a path: the memory it leaves, and the new length.\<close>

definition fixdotdotname :: "bytes \<Rightarrow> nat \<Rightarrow> (bytes \<times> nat) option" where
  "fixdotdotname s len = do {
     b \<leftarrow> rd s 0;
     if b = 35 then do {
       r \<leftarrow> strchr s 47;
       case r of
         None \<Rightarrow> Some (s, len)
       | Some r \<Rightarrow> do {
           v \<leftarrow> cleanname (drop r s);
           let s = take r s @ v;
           root \<leftarrow> is_slash s r;
           b \<leftarrow> rd s 1;
           s \<leftarrow> (if root \<and> b \<noteq> 47 then wr s r 0 else Some s);
           n \<leftarrow> strend s 0;
           Some (s, n) } }
     else do { s \<leftarrow> cleanname s; n \<leftarrow> strend s 0; Some (s, n) } }"

definition uniquepath :: "nat \<Rightarrow> nat kns" where
  "uniquepath p = and_then (path_at p) (\<lambda>r.
     if p_ref r > 1 then and_then (copypath p) (\<lambda>new. seq (pathclose (Some p)) (ret new)) else ret p)"

text \<open>The string of \<^verbatim>\<open>addelem\<close>: more memory when the element does not fit, a slash when one is needed, the element. \<open>None\<close> is a store outside of the memory.\<close>

definition add_name :: "bytes \<Rightarrow> bytes \<Rightarrow> nat \<Rightarrow> (bytes \<times> nat) option" where
  "add_name s buf len = do {
     let a = len + 1 + length s + 1;
     let buf = (if a > length buf then take (len + 1) buf @ replicate (a + PATHSLOP - (len + 1)) 0 else buf);
     c \<leftarrow> (if len > 0 then rd buf (len - 1) else Some 47);
     (buf, len) \<leftarrow> (if len > 0 \<and> c \<noteq> 47 \<and> (s = [] \<or> hd s \<noteq> 47) then do { buf \<leftarrow> wr buf len 47; Some (buf, len + 1) } else Some (buf, len));
     if len + length s + 1 \<le> length buf then Some (overwrite buf len (s @ [0]), len + length s) else None }"

definition mem :: "'a option \<Rightarrow> 'a kns" where
  "mem x = (case x of None \<Rightarrow> raise Fault | Some x \<Rightarrow> ret x)"

definition pop_mtpt :: "nat \<Rightarrow> unit kns" where
  "pop_mtpt p = and_then (path_at p) (\<lambda>r.
     if p_mlen r > length (p_mtpt r) then raise Fault
     else if p_mlen r > 1 then
       seq (set_path p (\<lambda>r. r\<lparr>p_mlen := p_mlen r - 1\<rparr>))
      (case p_mtpt r ! (p_mlen r - 1) of
         None \<Rightarrow> ret ()
       | Some c \<Rightarrow> seq (set_path p (\<lambda>r. r\<lparr>p_mtpt := (p_mtpt r)[p_mlen r := None]\<rparr>)) (cclose c))
     else ret ())"

definition push_mtpt :: "nat \<Rightarrow> nat option \<Rightarrow> unit kns" where
  "push_mtpt p from =
     seq (set_path p (\<lambda>r. if p_mlen r \<ge> length (p_mtpt r) then r\<lparr>p_mtpt := take (p_mlen r) (p_mtpt r) @ replicate (1 + PATHMSLOP) None\<rparr> else r))
    (seq (set_path p (\<lambda>r. r\<lparr>p_mtpt := (p_mtpt r)[p_mlen r := from], p_mlen := p_mlen r + 1\<rparr>))
    (incref_opt from))"

definition addelem :: "nat \<Rightarrow> bytes \<Rightarrow> nat option \<Rightarrow> nat kns" where
  "addelem p s from = (if s = [46] then ret p else
     and_then (uniquepath p) (\<lambda>p.
     and_then (path_at p) (\<lambda>r.
     and_then (mem (add_name s (p_s r) (p_len r))) (\<lambda>(buf, len).
     seq (set_path p (\<lambda>r. r\<lparr>p_s := buf, p_len := len\<rparr>))
    (if isdotdot s then
       and_then (mem (fixdotdotname buf len)) (\<lambda>(buf, len).
       seq (set_path p (\<lambda>r. r\<lparr>p_s := buf, p_len := len\<rparr>))
      (seq (pop_mtpt p) (ret p)))
     else seq (push_mtpt p from) (ret p))))))"

end
