(* ===== verification/Fds.thy ===== *)
theory Fds
  imports Chans
begin

unbundle bit_operations_syntax

text \<open>
  Tables of file descriptors: the first part of \<^verbatim>\<open>sysfile.c\<close>, the \<^verbatim>\<open>Fgrp\<close> part of \<^verbatim>\<open>pgrp.c\<close>, and their uses in \<^verbatim>\<open>sysproc.c\<close>, \<^verbatim>\<open>devself.c\<close> and
  \<^verbatim>\<open>devproc.c\<close> of \<^verbatim>\<open>sys/src/kern/port\<close>. The table of the process is an argument, as is \<open>room\<close>, whether \<^verbatim>\<open>jehanne_malloc\<close> finds memory; it
  clears what it gives. An index outside of the table is a \<open>Fault\<close>. File descriptors that callers pass are \<open>int\<close>; \<open>None\<close> is -1 as a result.
\<close>

abbreviation DELTAFD :: nat where "DELTAFD \<equiv> 20"

definition Ebadfd :: string where "Ebadfd = ''fd out of range or not open''"
definition Ebadusefd :: string where "Ebadusefd = ''inappropriate use of fd''"
definition Enofd :: string where "Enofd = ''no free file descriptors''"
definition Enofgrp :: string where "Enofgrp = ''no memory for fgrp''"

section \<open>Finding a slot\<close>

definition growfd :: "bool \<Rightarrow> Fgrp \<Rightarrow> nat \<Rightarrow> int \<times> Fgrp" where
  "growfd room f fd =
     (if fd < f_nfd f then (0, f)
      else if fd \<ge> f_nfd f + DELTAFD then (-1, f)
      else if f_nfd f \<ge> 5000 then (-1, f)
      else if \<not> room then (-1, f)
      else let f = f\<lparr>f_fd := take (f_nfd f) (f_fd f) @ replicate DELTAFD None, f_nfd := f_nfd f + DELTAFD\<rparr> in
        (1, if fd > f_maxfd f
            then f\<lparr>f_exceed := (if fd div 100 > f_maxfd f div 100 then fd div 100 * 100 else f_exceed f), f_maxfd := fd\<rparr>
            else f))"

function first_free :: "Fgrp \<Rightarrow> nat \<Rightarrow> nat" where
  "first_free f fd = (if fd < f_nfd f then if f_fd f ! fd = None then fd else first_free f (fd + 1) else fd)"
  by pat_completeness auto
termination by (relation "measure (\<lambda>(f, fd). f_nfd f - fd)") auto

declare first_free.simps [simp del]

definition findfreefd :: "bool \<Rightarrow> Fgrp \<Rightarrow> nat \<Rightarrow> nat option \<times> Fgrp" where
  "findfreefd room f start = (let fd = first_free f start in
     if fd \<ge> f_nfd f then case growfd room f fd of (r, f) \<Rightarrow> (if r < 0 then None else Some fd, f)
     else (Some fd, f))"

definition unlockfgrp :: "Fgrp \<Rightarrow> Fgrp" where
  "unlockfgrp f = f\<lparr>f_exceed := 0\<rparr>"

definition raise_max :: "nat \<Rightarrow> Fgrp \<Rightarrow> Fgrp" where
  "raise_max fd f = (if fd > f_maxfd f then f\<lparr>f_maxfd := fd\<rparr> else f)"

definition newfd :: "bool \<Rightarrow> nat \<Rightarrow> nat \<Rightarrow> nat option kns" where
  "newfd room fg c = and_then (fgrp_at fg) (\<lambda>f. case findfreefd room f 0 of
       (None, f) \<Rightarrow> seq (set_fgrp fg (\<lambda>_. unlockfgrp f)) (ret None)
     | (Some fd, f) \<Rightarrow> let f = raise_max fd f in
         seq (set_fgrp fg (\<lambda>_. unlockfgrp (f\<lparr>f_fd := (f_fd f)[fd := Some c]\<rparr>)))
        (ret (Some fd)))"

text \<open>Two slots at once, for the two ends of a pipe.\<close>

definition newfd2 :: "bool \<Rightarrow> bool \<Rightarrow> nat \<Rightarrow> nat \<Rightarrow> nat \<Rightarrow> (nat \<times> nat) option kns" where
  "newfd2 room room' fg c0 c1 = and_then (fgrp_at fg) (\<lambda>f. case findfreefd room f 0 of
       (None, f) \<Rightarrow> seq (set_fgrp fg (\<lambda>_. unlockfgrp f)) (ret None)
     | (Some fd0, f) \<Rightarrow> (case findfreefd room' f (fd0 + 1) of
         (None, f) \<Rightarrow> seq (set_fgrp fg (\<lambda>_. unlockfgrp f)) (ret None)
       | (Some fd1, f) \<Rightarrow> let f = raise_max fd1 f in
           seq (set_fgrp fg (\<lambda>_. unlockfgrp (f\<lparr>f_fd := (f_fd f)[fd0 := Some c0, fd1 := Some c1]\<rparr>)))
          (ret (Some (fd0, fd1)))))"

section \<open>Using a descriptor\<close>

definition slot :: "Fgrp \<Rightarrow> int \<Rightarrow> nat option" where
  "slot f fd = (if fd < 0 \<or> int (f_nfd f) \<le> fd then None else f_fd f ! nat fd)"

definition fdtochan :: "nat \<Rightarrow> int \<Rightarrow> u64 \<Rightarrow> bool \<Rightarrow> bool \<Rightarrow> nat kns" where
  "fdtochan fg fd mode chkmnt iref = and_then (fgrp_at fg) (\<lambda>f. case slot f fd of
       None \<Rightarrow> raise (Error Ebadfd)
     | Some c \<Rightarrow>
         seq (if iref then and_then (incref (C c)) (\<lambda>_. ret ()) else ret ())
        (and_then (chan c) (\<lambda>r.
           if chkmnt \<and> k_flag r AND CMSG \<noteq> 0 then seq (if iref then cclose c else ret ()) (raise (Error Ebadusefd))
           else if mode = -1 \<or> k_mode r = ORDWR then ret c
           else if mode AND k_mode r \<noteq> mode then seq (if iref then cclose c else ret ()) (raise (Error Ebadusefd))
           else ret c)))"

text \<open>Duplicating onto a given descriptor.\<close>

definition dup_onto :: "bool \<Rightarrow> nat \<Rightarrow> nat \<Rightarrow> int \<Rightarrow> int kns" where
  "dup_onto room fg oc nfd = and_then (fgrp_at fg) (\<lambda>f.
     let (r, f) = (if nfd < 0 then (-1, f) else growfd room f (nat nfd)) in
     if r < 0 then
       seq (set_fgrp fg (\<lambda>_. unlockfgrp f)) (seq (cclose oc) (raise (Error Ebadfd)))
     else let f = raise_max (nat nfd) f; nc = f_fd f ! nat nfd in
       seq (set_fgrp fg (\<lambda>_. unlockfgrp (f\<lparr>f_fd := (f_fd f)[nat nfd := Some oc]\<rparr>)))
      (seq (case nc of None \<Rightarrow> ret () | Some c \<Rightarrow> cclose c)
      (ret nfd)))"

definition sysdup :: "bool \<Rightarrow> nat \<Rightarrow> int \<Rightarrow> int \<Rightarrow> int kns" where
  "sysdup room fg ofd nfd = and_then (fdtochan fg ofd (-1) False True) (\<lambda>oc.
     if nfd \<noteq> -1 then dup_onto room fg oc nfd
     else and_then (newfd room fg oc) (\<lambda>r. case r of
         None \<Rightarrow> seq (cclose oc) (raise (Error Enofd))
       | Some fd \<Rightarrow> ret (int fd)))"

section \<open>Closing descriptors\<close>

text \<open>\<^verbatim>\<open>for(i = fd; --i >= 0 && f->fd[i] == 0; ) f->maxfd = i;\<close>\<close>

fun lower_max :: "nat option list \<Rightarrow> nat \<Rightarrow> nat \<Rightarrow> nat" where
  "lower_max fds 0 m = m"
| "lower_max fds (Suc i) m = (if fds ! i = None then lower_max fds i i else m)"

definition clear_slot :: "nat \<Rightarrow> Fgrp \<Rightarrow> Fgrp" where
  "clear_slot fd f = (let f = f\<lparr>f_fd := (f_fd f)[fd := None]\<rparr> in
     if fd = f_maxfd f then f\<lparr>f_maxfd := lower_max (f_fd f) fd (f_maxfd f)\<rparr> else f)"

definition fdclose :: "nat \<Rightarrow> int \<Rightarrow> u16 \<Rightarrow> unit kns" where
  "fdclose fg fd flag = and_then (fgrp_at fg) (\<lambda>f.
     if fd < 0 \<or> int (length (f_fd f)) \<le> fd then raise Fault
     else case f_fd f ! nat fd of
       None \<Rightarrow> ret ()
     | Some c \<Rightarrow> and_then (chan c) (\<lambda>r.
         if flag \<noteq> 0 \<and> k_flag r AND flag = 0 then ret ()
         else seq (set_fgrp fg (clear_slot (nat fd))) (cclose c)))"

definition sysclose :: "nat \<Rightarrow> int \<Rightarrow> int kns" where
  "sysclose fg fd = and_then (fdtochan fg fd (-1) False False) (\<lambda>_. seq (fdclose fg fd 0) (ret 0))"

text \<open>The loop of \<^verbatim>\<open>sysexec\<close> over the descriptors; its bound is read again in every round. The number of slots is fuel enough, as the bound never grows.\<close>

fun exec_close :: "nat \<Rightarrow> nat \<Rightarrow> nat \<Rightarrow> unit kns" where
  "exec_close fg i 0 = ret ()"
| "exec_close fg i (Suc n) = and_then (fgrp_at fg) (\<lambda>f.
     if i \<le> f_maxfd f then seq (fdclose fg (int i) CCEXEC) (exec_close fg (i + 1) n) else ret ())"

definition close_on_exec :: "nat \<Rightarrow> unit kns" where
  "close_on_exec fg = and_then (fgrp_at fg) (\<lambda>f. exec_close fg 0 (f_nfd f))"

section \<open>Tables\<close>

definition new_fgrp :: "Fgrp \<Rightarrow> nat kns" where
  "new_fgrp f = and_then (fetch (\<lambda>k. length (fgrps k))) (\<lambda>i. seq (modify (\<lambda>k. k\<lparr>fgrps := fgrps k @ [Some f]\<rparr>)) (ret i))"

definition quantized :: "nat \<Rightarrow> nat" where
  "quantized n = (if n mod DELTAFD \<noteq> 0 then n + (DELTAFD - n mod DELTAFD) else n)"

definition dupfgrp :: "bool \<Rightarrow> nat option \<Rightarrow> nat kns" where
  "dupfgrp room fg = (case fg of
     None \<Rightarrow> new_fgrp \<lparr>f_ref = 1, f_fd = replicate DELTAFD None, f_nfd = DELTAFD, f_maxfd = 0, f_exceed = 0\<rparr>
   | Some fg \<Rightarrow> and_then (fgrp_at fg) (\<lambda>f.
       if \<not> room then raise (Error Enofgrp)
       else let nfd = quantized (f_maxfd f + 1); shared = take (f_maxfd f + 1) (f_fd f) in
         seq (for_each incref_opt shared)
        (new_fgrp \<lparr>f_ref = 1, f_fd = shared @ replicate (nfd - length shared) None, f_nfd = nfd, f_maxfd = f_maxfd f, f_exceed = 0\<rparr>)))"

definition drop_slot :: "nat \<Rightarrow> (nat \<Rightarrow> unit kns) \<Rightarrow> nat \<Rightarrow> unit kns" where
  "drop_slot fg close i = and_then (fgrp_at fg) (\<lambda>f.
     if i \<ge> length (f_fd f) then raise Fault
     else case f_fd f ! i of
       None \<Rightarrow> ret ()
     | Some c \<Rightarrow> seq (set_fgrp fg (\<lambda>f. f\<lparr>f_fd := (f_fd f)[i := None]\<rparr>)) (close c))"

definition closefgrp :: "nat option \<Rightarrow> unit kns" where
  "closefgrp fg = (case fg of
     None \<Rightarrow> ret ()
   | Some fg \<Rightarrow> and_then (decref (F fg)) (\<lambda>x.
       if x \<noteq> 0 then ret ()
       else and_then (fgrp_at fg) (\<lambda>f.
         seq (for_each (drop_slot fg cclose) [0..<f_maxfd f + 1])
        (modify (\<lambda>k. k\<lparr>fgrps := (fgrps k)[fg := None]\<rparr>)))))"

text \<open>
  \<^verbatim>\<open>forceclosefgrp\<close> for a process that is told to exit (\<open>exitme\<close>) in the middle of closing the table \<open>closing\<close>; \<open>woken\<close> as for
  \<^verbatim>\<open>ccloseq\<close>. In any other case it only prints a complaint.
\<close>

definition forceclosefgrp :: "bool \<Rightarrow> bool \<Rightarrow> nat option \<Rightarrow> unit kns" where
  "forceclosefgrp woken exitme closing = (if \<not> exitme then ret () else case closing of
     None \<Rightarrow> ret ()
   | Some fg \<Rightarrow> and_then (fgrp_at fg) (\<lambda>f. for_each (drop_slot fg (ccloseq woken)) [0..<f_maxfd f + 1]))"

text \<open>\<^verbatim>\<open>close\<close> and \<^verbatim>\<open>closefiles\<close> written to \<^verbatim>\<open>/proc/n/ctl\<close>.\<close>

definition procctlcloseone :: "nat \<Rightarrow> int \<Rightarrow> unit kns" where
  "procctlcloseone fg fd = (if fd < 0 then raise Fault else drop_slot fg cclose (nat fd))"

definition procctlclosefiles :: "nat \<Rightarrow> bool \<Rightarrow> int \<Rightarrow> unit kns" where
  "procctlclosefiles fg all_files fd =
     and_then (incref (F fg)) (\<lambda>_.
     and_then (fgrp_at fg) (\<lambda>f.
     seq (if all_files then for_each (\<lambda>i. procctlcloseone fg (int i)) [0..<f_maxfd f] else procctlcloseone fg fd)
    (closefgrp (Some fg))))"

end
