(* ===== verification/Chan_Rules.thy ===== *)
theory Chan_Rules
  imports Chans "HOL-Library.Multiset"
begin

text \<open>
  Reference counts. \<open>refs k\<close> is the multiset of all references in the state, and \<open>consistent k H A B\<close> that every count is the number of references in
  the state and in \<open>H\<close>, those that running code holds; \<open>A\<close> and \<open>B\<close> are channels that code is about to free. Closing keeps it,
  panics never, and ends.
\<close>

section \<open>References in a state\<close>

abbreviation opt_refs :: "(nat \<Rightarrow> obj) \<Rightarrow> nat option \<Rightarrow> obj multiset" where
  "opt_refs f x \<equiv> (case x of None \<Rightarrow> {#} | Some i \<Rightarrow> {#f i#})"

definition chan_refs :: "Kchan \<Rightarrow> obj multiset" where
  "chan_refs r = opt_refs M (k_umh r) + opt_refs C (k_umc r) + opt_refs C (k_mchan r) + opt_refs P (k_path r)"

definition opts_refs :: "nat option list \<Rightarrow> obj multiset" where
  "opts_refs xs = sum_list (map (opt_refs C) xs)"

definition path_refs :: "Path option \<Rightarrow> obj multiset" where
  "path_refs p = (case p of None \<Rightarrow> {#} | Some r \<Rightarrow> {#Npath#} + opts_refs (p_mtpt r))"

definition mhead_refs :: "Mhead option \<Rightarrow> obj multiset" where
  "mhead_refs m = (case m of None \<Rightarrow> {#} | Some h \<Rightarrow> mset (map (C \<circ> m_to) (mh_mount h)))"

definition fgrp_refs :: "Fgrp option \<Rightarrow> obj multiset" where
  "fgrp_refs f = (case f of None \<Rightarrow> {#} | Some g \<Rightarrow> opts_refs (f_fd g))"

text \<open>A mount head in a name space holds the channel it is for.\<close>

definition from_of :: "ns \<Rightarrow> nat \<Rightarrow> obj multiset" where
  "from_of k m = (case live (mheads k) m of None \<Rightarrow> {#} | Some h \<Rightarrow> {#C (mh_from h)#})"

definition pgrp_heads :: "Pgrp option \<Rightarrow> nat list" where
  "pgrp_heads g = (case g of None \<Rightarrow> [] | Some g \<Rightarrow> concat (g_hash g))"

definition heads :: "ns \<Rightarrow> nat list" where
  "heads k = concat (map pgrp_heads (pgrps k))"

definition refs :: "ns \<Rightarrow> obj multiset" where
  "refs k = sum_list (map chan_refs (chans k)) + sum_list (map path_refs (paths k)) + sum_list (map mhead_refs (mheads k)) +
     sum_list (map fgrp_refs (fgrps k)) + mset (map M (heads k)) + sum_list (map (from_of k) (heads k))"

definition rc :: "ns \<Rightarrow> obj \<Rightarrow> int" where
  "rc k x = (case get_ref x k of None \<Rightarrow> 0 | Some n \<Rightarrow> n)"

definition counted :: "ns \<Rightarrow> obj multiset \<Rightarrow> bool" where
  "counted k H \<longleftrightarrow> (\<forall>x. rc k x = int (count (refs k + H) x))"

definition path_ok :: "Path \<Rightarrow> bool" where
  "path_ok r \<longleftrightarrow> p_mlen r \<le> length (p_mtpt r) \<and> (\<forall>i. p_mlen r \<le> i \<longrightarrow> i < length (p_mtpt r) \<longrightarrow> p_mtpt r ! i = None) \<and>
     (\<exists>name rest. p_s r = name @ 0 # rest \<and> 0 \<notin> set name \<and> p_len r = length name)"

definition consistent :: "ns \<Rightarrow> obj multiset \<Rightarrow> nat list \<Rightarrow> nat list \<Rightarrow> bool" where
  "consistent k H A B \<longleftrightarrow> counted k H \<and>
     distinct (freelist k @ clunkq k @ A @ B) \<and>
     set (freelist k @ clunkq k @ A @ B) = {c. c < length (chans k) \<and> k_ref (chans k ! c) = 0} \<and>
     (\<forall>c < length (chans k). (k_flag (chans k ! c) AND CFREE \<noteq> 0) = (c \<in> set (freelist k @ B))) \<and>
     (\<forall>c \<in> set (freelist k @ B). chan_refs (chans k ! c) = {#}) \<and>
     (\<forall>m h. live (mheads k) m = Some h \<longrightarrow> m \<notin> set (heads k) \<longrightarrow> mh_mount h = []) \<and>
     (\<forall>p r. live (paths k) p = Some r \<longrightarrow> path_ok r)"

section \<open>Changing a count\<close>

lemma map_upd_same: "(\<And>x. xs ! i = Some x \<Longrightarrow> f (Some (g x)) = f (Some x)) \<Longrightarrow> map f (upd i g xs) = map f xs"
  unfolding upd_def by (rule map_same) (cases "xs ! i"; simp)

lemma heads_cong: "map pgrp_heads (pgrps k') = map pgrp_heads (pgrps k) \<Longrightarrow> heads k' = heads k"
  by (simp add: heads_def)

lemma from_of_cong: "map_option mh_from (live (mheads k') m) = map_option mh_from (live (mheads k) m) \<Longrightarrow> from_of k' m = from_of k m"
  by (cases "live (mheads k) m"; cases "live (mheads k') m") (auto simp: from_of_def)

lemma refs_put_ref [simp]: "refs (put_ref x n k) = refs k"
proof (cases x)
  case (M m)
  have "from_of (put_ref x n k) = from_of k" by (rule ext, rule from_of_cong) (auto simp: M option.map_comp comp_def)
  then show ?thesis using M by (simp add: refs_def heads_def map_upd_same mhead_refs_def)
next
  case (G g)
  have "heads (put_ref x n k) = heads k" by (rule heads_cong) (simp add: G map_upd_same pgrp_heads_def)
  moreover have "from_of (put_ref x n k) = from_of k" by (rule ext) (simp add: G from_of_def)
  ultimately show ?thesis using G by (simp add: refs_def)
qed (simp_all add: refs_def heads_def from_of_def [abs_def] map_upd_same map_same chan_refs_def path_refs_def fgrp_refs_def)

lemma get_put_ref: "get_ref x (put_ref y n k) = (if x = y then map_option (\<lambda>_. n) (get_ref x k) else get_ref x k)"
  by (cases x; cases y) (auto simp: option.map_comp comp_def nth_list_update)

lemma rc_put_ref: "get_ref y k = Some m \<Longrightarrow> rc (put_ref y n k) x = (if x = y then n else rc k x)"
  by (auto simp: rc_def get_put_ref)

lemma counted_at: "counted k H \<Longrightarrow> get_ref x k = Some n \<Longrightarrow> n = int (count (refs k + H) x)"
  unfolding counted_def rc_def by (drule spec [of _ x]) simp

lemma counted_none: "counted k H \<Longrightarrow> get_ref x k = None \<Longrightarrow> count (refs k + H) x = 0"
  unfolding counted_def rc_def by (drule spec [of _ x]) simp

lemma counted_held:
  assumes "counted k H" and "x \<in># refs k + H"
  obtains n where "get_ref x k = Some n" and "n \<ge> 1" and "adec n = n - 1"
proof -
  have pos: "count (refs k + H) x > 0" using assms(2) by (metis count_greater_zero_iff)
  then obtain n where n: "get_ref x k = Some n" using counted_none [OF assms(1), of x] by (metis less_numeral_extra(3) option.exhaust)
  have "n \<ge> 1" using counted_at [OF assms(1) n] pos by linarith
  then show ?thesis using that [OF n] by (simp add: adec_def)
qed

lemma counted_drop:
  assumes "counted k (H + {#x#})" and "get_ref x k = Some n"
  shows "counted (put_ref x (n - 1) k) H"
  using assms(1) counted_at [OF assms] rc_put_ref [OF assms(2)] unfolding counted_def by simp

lemma counted_add:
  assumes "counted k H" and "get_ref x k = Some n"
  shows "counted (put_ref x (n + 1) k) (H + {#x#})"
  using assms(1) counted_at [OF assms] rc_put_ref [OF assms(2)] unfolding counted_def by simp

text \<open>References move from the state to the code that holds them, and back.\<close>

lemma counted_move: "counted k H \<Longrightarrow> refs k' + H' = refs k + H \<Longrightarrow> (\<And>x. rc k' x = rc k x) \<Longrightarrow> counted k' H'"
  by (simp add: counted_def)

text \<open>What closing leaves alone: the tables, and all but the counts of what is still there.\<close>

definition calm :: "ns \<Rightarrow> ns \<Rightarrow> bool" where
  "calm k k' \<longleftrightarrow> fgrps k' = fgrps k \<and> pgrps k' = pgrps k \<and> mountid k' = mountid k \<and> length (chans k') = length (chans k) \<and>
     (\<forall>c < length (chans k). k_ref (chans k' ! c) > 0 \<longrightarrow> chans k' ! c = (chans k ! c)\<lparr>k_ref := k_ref (chans k' ! c)\<rparr> \<and> k_ref (chans k ! c) > 0) \<and>
     (\<forall>m h'. live (mheads k') m = Some h' \<longrightarrow> (\<exists>h. live (mheads k) m = Some h \<and> h' = h\<lparr>mh_ref := mh_ref h'\<rparr>)) \<and>
     (\<forall>p r'. live (paths k') p = Some r' \<longrightarrow> (\<exists>r. live (paths k) p = Some r \<and> r' = r\<lparr>p_ref := p_ref r'\<rparr>))"

lemma calm_refl [simp]: "calm k k"
  by (auto simp: calm_def)

lemma calm_trans:
  assumes "calm k k'" and "calm k' k''"
  shows "calm k k''"
proof -
  have "chans k'' ! c = (chans k ! c)\<lparr>k_ref := k_ref (chans k'' ! c)\<rparr> \<and> k_ref (chans k ! c) > 0"
    if "c < length (chans k)" "k_ref (chans k'' ! c) > 0" for c
  proof -
    have "chans k'' ! c = (chans k' ! c)\<lparr>k_ref := k_ref (chans k'' ! c)\<rparr>" "k_ref (chans k' ! c) > 0"
      using assms that unfolding calm_def by metis+
    moreover have "chans k' ! c = (chans k ! c)\<lparr>k_ref := k_ref (chans k' ! c)\<rparr>" "k_ref (chans k ! c) > 0"
      using assms(1) that calculation(2) unfolding calm_def by metis+
    ultimately show ?thesis by (metis Kchan.update_convs(1) Kchan.surjective)
  qed
  moreover have "\<exists>h. live (mheads k) m = Some h \<and> h'' = h\<lparr>mh_ref := mh_ref h''\<rparr>" if a: "live (mheads k'') m = Some h''" for m h''
  proof -
    obtain h' where h': "live (mheads k') m = Some h'" "h'' = h'\<lparr>mh_ref := mh_ref h''\<rparr>" using assms(2) a unfolding calm_def by blast
    obtain h where "live (mheads k) m = Some h" "h' = h\<lparr>mh_ref := mh_ref h'\<rparr>" using assms(1) h'(1) unfolding calm_def by blast
    then show ?thesis using h' by (intro exI [of _ h]) (metis (no_types, lifting) Mhead.surjective Mhead.update_convs(1))
  qed
  moreover have "\<exists>r. live (paths k) p = Some r \<and> r'' = r\<lparr>p_ref := p_ref r''\<rparr>" if a: "live (paths k'') p = Some r''" for p r''
  proof -
    obtain r' where r': "live (paths k') p = Some r'" "r'' = r'\<lparr>p_ref := p_ref r''\<rparr>" using assms(2) a unfolding calm_def by blast
    obtain r where "live (paths k) p = Some r" "r' = r\<lparr>p_ref := p_ref r'\<rparr>" using assms(1) r'(1) unfolding calm_def by blast
    then show ?thesis using r' by (intro exI [of _ r]) (metis (no_types, lifting) Path.surjective Path.update_convs(1))
  qed
  ultimately show ?thesis using assms unfolding calm_def by simp
qed

section \<open>Closing a channel\<close>

lemmas ref_simps = get_ref.simps put_ref.simps

declare ref_simps [simp del]

lemma consistentD:
  assumes "consistent k H A B"
  shows "counted k H" and "distinct (freelist k @ clunkq k @ A @ B)"
    and "set (freelist k @ clunkq k @ A @ B) = {c. c < length (chans k) \<and> k_ref (chans k ! c) = 0}"
    and "\<And>c. c < length (chans k) \<Longrightarrow> (k_flag (chans k ! c) AND CFREE \<noteq> 0) = (c \<in> set (freelist k @ B))"
    and "\<And>c. c \<in> set (freelist k @ B) \<Longrightarrow> chan_refs (chans k ! c) = {#}"
    and "\<And>m h. live (mheads k) m = Some h \<Longrightarrow> m \<notin> set (heads k) \<Longrightarrow> mh_mount h = []"
    and "\<And>p r. live (paths k) p = Some r \<Longrightarrow> path_ok r"
  using assms unfolding consistent_def by blast+

lemma held_chan:
  assumes "consistent k H A B" and "C c \<in># refs k + H"
  shows "c < length (chans k)" and "k_ref (chans k ! c) \<ge> 1" and "k_flag (chans k ! c) AND CFREE = 0"
    and "k_ref (chans k ! c) = int (count (refs k + H) (C c))"
proof -
  obtain n where n: "get_ref (C c) k = Some n" "n \<ge> 1" using counted_held [OF consistentD(1) [OF assms(1)] assms(2)] by metis
  then show c: "c < length (chans k)" and r: "k_ref (chans k ! c) \<ge> 1" by (auto simp: ref_simps split: if_splits)
  have "c \<notin> set (freelist k @ clunkq k @ A @ B)" using consistentD(3) [OF assms(1)] r by simp
  then show "k_flag (chans k ! c) AND CFREE = 0" using consistentD(4) [OF assms(1) c] by simp
  show "k_ref (chans k ! c) = int (count (refs k + H) (C c))" using counted_at [OF consistentD(1) [OF assms(1)], of "C c"] c by (simp add: ref_simps)
qed

lemma counted_devcloses [simp]:
  "refs (k\<lparr>devcloses := d\<rparr>) = refs k" "rc (k\<lparr>devcloses := d\<rparr>) x = rc k x" "heads (k\<lparr>devcloses := d\<rparr>) = heads k"
  by (simp_all add: refs_def heads_def from_of_def [abs_def], cases x) (simp_all add: rc_def ref_simps)

lemma heads_put_ref [simp]: "heads (put_ref x n k) = heads k"
  by (cases x) (simp_all add: ref_simps heads_def map_upd_same pgrp_heads_def)

lemma consistent_devcloses [simp]: "consistent (k\<lparr>devcloses := d\<rparr>) H A B = consistent k H A B"
  by (simp add: consistent_def counted_def)

lemma consistent_chan_ref:
  assumes "consistent k (H + {#C c#}) A B" and x: "k_ref (chans k ! c) = x + 1" "x \<ge> 0"
  shows "consistent (put_ref (C c) x k) H (if x = 0 then c # A else A) B"
proof -
  have c: "c < length (chans k)" using held_chan(1) [OF assms(1), of c] by simp
  have live: "c \<notin> set (freelist k @ clunkq k @ A @ B)" using consistentD(3) [OF assms(1)] x by simp
  have cnt: "counted (put_ref (C c) x k) H" using counted_drop [OF consistentD(1) [OF assms(1)], of "x + 1"] c x(1) by (simp add: get_ref.simps)
  have dead: "{d. d < length (chans k) \<and> k_ref ((chans k)[c := (chans k ! c)\<lparr>k_ref := x\<rparr>] ! d) = 0} =
      (if x = 0 then insert c {d. d < length (chans k) \<and> k_ref (chans k ! d) = 0} else {d. d < length (chans k) \<and> k_ref (chans k ! d) = 0})"
    using c x by (auto simp: nth_list_update)
  have fl: "k_flag ((chans k)[c := (chans k ! c)\<lparr>k_ref := x\<rparr>] ! d) = k_flag (chans k ! d)"
    "chan_refs ((chans k)[c := (chans k ! c)\<lparr>k_ref := x\<rparr>] ! d) = chan_refs (chans k ! d)" for d
    by (cases "d = c"; simp add: c chan_refs_def)+
  show ?thesis
    using cnt live consistentD(2-) [OF assms(1)] dead unfolding consistent_def heads_put_ref by (auto simp: fl put_ref.simps)
qed

lemma cclose_start_ok:
  assumes "consistent k (H + {#C c#}) A B"
  shows "wp (cclose_start c) (\<lambda>ws k'. (ws = [] \<and> consistent k' H A B \<or> ws = [Chanfree c] \<and> consistent k' H (c # A) B) \<and> calm k k') (\<lambda>_ _. False) k"
proof -
  note c = held_chan [OF assms, of c, simplified]
  define x where "x = k_ref (chans k ! c) - 1"
  have x: "k_ref (chans k ! c) = x + 1" "x \<ge> 0" "adec (x + 1) = x" using c(2) by (auto simp: x_def adec_def)
  have ok: "consistent (put_ref (C c) x k) H (if x = 0 then c # A else A) B" by (rule consistent_chan_ref [OF assms x(1,2)])
  have "calm k (put_ref (C c) x k)" using c(1,2) x by (auto simp: calm_def put_ref.simps nth_list_update)
  moreover have "calm k ((put_ref (C c) x k)\<lparr>devcloses := d\<rparr>)" for d using c(1,2) x by (auto simp: calm_def put_ref.simps nth_list_update)
  ultimately show ?thesis using c(1,3) x ok by (auto simp: cclose_start_def wp_ns devclose_def get_ref.simps split del: if_split split: if_splits)
qed

lemma rc_other_fields:
  "rc (k\<lparr>chans := cs\<rparr>) (P i) = rc k (P i)" "rc (k\<lparr>chans := cs\<rparr>) (M i) = rc k (M i)" "rc (k\<lparr>chans := cs\<rparr>) (F i) = rc k (F i)"
  "rc (k\<lparr>chans := cs\<rparr>) (G i) = rc k (G i)" "rc (k\<lparr>chans := cs\<rparr>) Npath = rc k Npath"
  by (simp_all add: rc_def get_ref.simps)

lemma rc_chan_same:
  assumes "k_ref r' = k_ref (chans k ! c)"
  shows "rc (k\<lparr>chans := (chans k)[c := r']\<rparr>) x = rc k x"
  using assms by (cases x) (auto simp: rc_def get_ref.simps, metis nth_list_update_eq nth_list_update_neq)

lemma refs_chan:
  assumes "c < length (chans k)"
  shows "refs (k\<lparr>chans := (chans k)[c := r']\<rparr>) + chan_refs (chans k ! c) = refs k + chan_refs r'"
  using sum_list_update_map [OF assms, of chan_refs r'] by (simp add: refs_def heads_def from_of_def [abs_def] ac_simps)

lemma consistent_free_start:
  assumes ok: "consistent k H (c # A) B" and r: "k_ref r' = 0" "k_flag r' AND CFREE \<noteq> 0" "chan_refs r' = {#}"
  shows "consistent (k\<lparr>chans := (chans k)[c := r']\<rparr>) (H + chan_refs (chans k ! c)) A (c # B)"
    and "calm k (k\<lparr>chans := (chans k)[c := r']\<rparr>)"
proof -
  let ?k = "k\<lparr>chans := (chans k)[c := r']\<rparr>"
  have c: "c < length (chans k)" "k_ref (chans k ! c) = 0" using consistentD(3) [OF ok] by auto
  have e: "refs k = refs ?k + chan_refs (chans k ! c)" using refs_chan [OF c(1), of r'] r(3) by simp
  have "counted ?k (H + chan_refs (chans k ! c))"
  proof (rule counted_move [OF consistentD(1) [OF ok]])
    show "refs ?k + (H + chan_refs (chans k ! c)) = refs k + H" unfolding e by (simp only: ac_simps)
    show "rc ?k x = rc k x" for x by (rule rc_chan_same) (simp add: r c)
  qed
  moreover have "{d. d < length (chans k) \<and> k_ref ((chans k)[c := r'] ! d) = 0} = {d. d < length (chans k) \<and> k_ref (chans k ! d) = 0}"
    using c r by (auto simp: nth_list_update)
  moreover have "(k_flag ((chans k)[c := r'] ! d) AND CFREE \<noteq> 0) = (d \<in> set (freelist k @ c # B))" if "d < length (chans k)" for d
    using consistentD(4) [OF ok that] r(2) c(1) by (cases "d = c") auto
  moreover have "chan_refs ((chans k)[c := r'] ! d) = {#}" if "d \<in> set (freelist k @ c # B)" for d
    using consistentD(5) [OF ok, of d] that r(3) c(1) by (cases "d = c") auto
  moreover have "heads ?k = heads k" by (simp add: heads_def)
  moreover have "distinct (freelist k @ clunkq k @ A @ c # B)" "set (freelist k @ clunkq k @ A @ c # B) = set (freelist k @ clunkq k @ (c # A) @ B)"
    using consistentD(2) [OF ok] by auto
  ultimately show "consistent ?k (H + chan_refs (chans k ! c)) A (c # B)"
    using consistentD(3,6,7) [OF ok] unfolding consistent_def by simp
  show "calm k ?k" using c r by (auto simp: calm_def put_ref.simps nth_list_update)
qed

text \<open>A mount head with no reference left is in no name space, and has no mounts.\<close>

lemma refs_free_mhead:
  assumes "live (mheads k) m = Some h" and "mh_mount h = []" and "m \<notin> set (heads k)"
  shows "refs (k\<lparr>mheads := (mheads k)[m := None]\<rparr>) = refs k"
proof -
  have "sum_list (map (from_of (k\<lparr>mheads := (mheads k)[m := None]\<rparr>)) (heads k)) = sum_list (map (from_of k) (heads k))"
    using assms(3) by (intro arg_cong [of _ _ sum_list] map_cong refl from_of_cong) (auto simp: live_update)
  moreover have "map mhead_refs ((mheads k)[m := None]) = map mhead_refs (mheads k)"
    using assms by (intro map_same) (auto simp: mhead_refs_def live_Some)
  moreover have "heads (k\<lparr>mheads := (mheads k)[m := None]\<rparr>) = heads k" by (simp add: heads_def)
  ultimately show ?thesis by (simp add: refs_def)
qed

lemma consistent_put_other:
  assumes "consistent k H' A B" and "counted (put_ref x n k) H" and "\<And>c. x \<noteq> C c"
  shows "consistent (put_ref x n k) H A B" and "calm k (put_ref x n k) \<or> (\<exists>f. x = F f) \<or> (\<exists>g. x = G g)"
proof -
  have same: "chans (put_ref x n k) = chans k" "freelist (put_ref x n k) = freelist k" "clunkq (put_ref x n k) = clunkq k"
    using assms(3) by (cases x; simp add: put_ref.simps)+
  have "mh_mount h = []" if "live (mheads (put_ref x n k)) m = Some h" "m \<notin> set (heads k)" for m h
    using that consistentD(6) [OF assms(1)] by (cases x) (auto simp: put_ref.simps split: if_splits)
  moreover have "path_ok r" if "live (paths (put_ref x n k)) p = Some r" for p r
    using that consistentD(7) [OF assms(1)] by (cases x) (auto simp: put_ref.simps path_ok_def split: if_splits)
  ultimately show "consistent (put_ref x n k) H A B"
    using assms(2) consistentD(2-5) [OF assms(1)] unfolding consistent_def same heads_put_ref by auto
  show "calm k (put_ref x n k) \<or> (\<exists>f. x = F f) \<or> (\<exists>g. x = G g)"
    using assms(3) by (cases x) (auto simp: calm_def put_ref.simps split: if_splits)
qed

lemma putmhead_ok:
  assumes "consistent k (H + opt_refs M mh) A B"
  shows "wp (putmhead mh) (\<lambda>_ k'. consistent k' H A B \<and> calm k k') (\<lambda>_ _. False) k"
proof (cases mh)
  case None
  then show ?thesis using assms by (simp add: putmhead_def wp_ret)
next
  case (Some m)
  then have ok: "consistent k (H + {#M m#}) A B" using assms by simp
  obtain n where n: "get_ref (M m) k = Some n" "n \<ge> 1" "adec n = n - 1" using counted_held [OF consistentD(1) [OF ok], of "M m"] by auto
  let ?k = "put_ref (M m) (n - 1) k"
  have cnt: "counted ?k H" by (rule counted_drop [OF consistentD(1) [OF ok] n(1)])
  have k1: "consistent ?k H A B" and cl: "calm k ?k" using consistent_put_other [OF ok cnt] by auto
  obtain h where h: "live (mheads k) m = Some h" "mh_ref h = n" using n(1) by (auto simp: get_ref.simps)
  have free: "consistent (?k\<lparr>mheads := (mheads ?k)[m := None]\<rparr>) H A B" (is "consistent ?f _ _ _") if "n - 1 = 0"
  proof -
    have h1: "live (mheads ?k) m = Some (h\<lparr>mh_ref := 0\<rparr>)" using h that by (simp add: put_ref.simps)
    have "get_ref (M m) ?k = Some 0" using h that by (simp add: ref_simps)
    then have "int (count (refs k) (M m)) + int (count H (M m)) = 0" using counted_at [OF cnt, of "M m" 0] by (simp)
    then have "count (refs k) (M m) = 0" by linarith
    then have "M m \<notin># refs k" by (simp add: not_in_iff)
    then have nh: "m \<notin> set (heads k)" by (auto simp: refs_def)
    have mt: "mh_mount (h\<lparr>mh_ref := 0\<rparr>) = []" using consistentD(6) [OF k1 h1] nh by simp
    have rf: "refs ?f = refs ?k" using refs_free_mhead [OF h1 mt] nh by simp
    have "rc ?f x = rc ?k x" for x using h1 h that by (cases x) (auto simp: rc_def ref_simps live_update upd_live)
    then have "counted ?f H" using cnt rf by (simp add: counted_def)
    then show ?thesis using k1 unfolding consistent_def by (simp add: heads_def live_update)
  qed
  have "calm k (?k\<lparr>mheads := (mheads ?k)[m := None]\<rparr>)" using cl by (auto simp: calm_def live_update split: if_splits)
  then show ?thesis using Some n k1 cl free by (auto simp: putmhead_def wp_ns)
qed

fun work_refs :: "work \<Rightarrow> obj multiset" where
  "work_refs (Cclose c) = {#C c#}"
| "work_refs (Pathclose p) = {#P p#}"
| "work_refs w = {#}"

definition works_refs :: "work list \<Rightarrow> obj multiset" where
  "works_refs ws = sum_list (map work_refs ws)"

lemma works_refs_simps [simp]: "works_refs [] = {#}" "works_refs (w # ws) = work_refs w + works_refs ws" "works_refs (xs @ ys) = works_refs xs + works_refs ys"
  by (simp_all add: works_refs_def)

lemma works_refs_close [simp]: "works_refs (close_opt x) = opt_refs C x"
  by (simp add: close_opt_def works_refs_def split: option.splits)

lemma chanfree_start_ok:
  assumes "consistent k H (c # A) B"
  shows "wp (chanfree_start c) (\<lambda>ws k'. consistent k' (H + works_refs ws) A (c # B) \<and> calm k k' \<and>
      (\<exists>ws'. ws = ws' @ [Tofree c] \<and> (\<forall>w\<in>set ws'. \<exists>d. w = Cclose d \<or> w = Pathclose d))) (\<lambda>_ _. False) k"
proof -
  have c: "c < length (chans k)" "k_ref (chans k ! c) = 0" using consistentD(3) [OF assms] by auto
  define r where "r = chans k ! c"
  define r' where "r' = (if k_dirrock r \<noteq> None then r\<lparr>k_dirrock := None, k_nrock := 0, k_mrock := 0\<rparr> else r)
       \<lparr>k_flag := CFREE, k_umh := None, k_umc := None, k_mux := None, k_mchan := None, k_dev := None, k_path := None\<rparr>"
  define ws where "ws = close_opt (k_umc r) @ close_opt (k_mchan r) @ (case k_path r of None \<Rightarrow> [] | Some p \<Rightarrow> [Pathclose p]) @ [Tofree c]"
  have r': "k_ref r' = 0" "k_flag r' AND CFREE \<noteq> 0" "chan_refs r' = {#}" using c by (simp_all add: r'_def r_def chan_refs_def)
  let ?k = "k\<lparr>chans := (chans k)[c := r']\<rparr>"
  note k1 = consistent_free_start [OF assms r']
  have "H + chan_refs (chans k ! c) = (H + works_refs ws) + opt_refs M (k_umh r)"
    by (simp add: chan_refs_def ws_def r_def split: option.splits)
  then have "consistent ?k ((H + works_refs ws) + opt_refs M (k_umh r)) A (c # B)" using k1(1) by (simp only:)
  then have "wp (putmhead (k_umh r)) (\<lambda>_ k'. consistent k' (H + works_refs ws) A (c # B) \<and> calm ?k k') (\<lambda>_ _. False) ?k"
    by (rule putmhead_ok)
  then have "wp (putmhead (k_umh r)) (\<lambda>_ k'. consistent k' (H + works_refs ws) A (c # B) \<and> calm k k') (\<lambda>_ _. False) ?k"
    by (rule wp_conseq) (use calm_trans [OF k1(2)] in auto)
  moreover have "\<exists>ws'. ws = ws' @ [Tofree c] \<and> (\<forall>w\<in>set ws'. \<exists>d. w = Cclose d \<or> w = Pathclose d)"
    by (intro exI [of _ "butlast ws"]) (auto simp: ws_def close_opt_def butlast_append split: option.splits)
  moreover have "chanfree_start c k = seq (putmhead (k_umh r)) (ret ws) ?k"
    using c(1) by (simp add: chanfree_start_def and_then_def seq_def chan_def set_chan_def modify_def r_def r'_def ws_def)
  ultimately show ?thesis unfolding wp_def [of "chanfree_start c"] by (simp add: wp_def seq_def and_then_def ret_def split: prod.splits sum.splits)
qed

lemma opts_refs_take: "(\<And>i. n \<le> i \<Longrightarrow> i < length xs \<Longrightarrow> xs ! i = None) \<Longrightarrow> opts_refs (take n xs) = opts_refs xs"
proof (induction xs arbitrary: n)
  case (Cons x xs)
  show ?case
  proof (cases n)
    case 0
    have "\<And>i. i < length xs \<Longrightarrow> xs ! i = None" using Cons.prems [of "Suc _"] 0 by auto
    then show ?thesis using Cons.IH [of 0] Cons.prems [of 0] 0 by (simp add: opts_refs_def)
  next
    case (Suc j)
    have "\<And>i. j \<le> i \<Longrightarrow> i < length xs \<Longrightarrow> xs ! i = None" using Cons.prems [of "Suc _"] Suc by auto
    then show ?thesis using Cons.IH [of j] Suc by (simp add: opts_refs_def)
  qed
qed (simp add: opts_refs_def)

lemma works_refs_closes: "works_refs (concat (map close_opt xs)) = opts_refs xs"
  by (induction xs) (simp_all add: opts_refs_def)

lemma refs_path:
  assumes "p < length (paths k)"
  shows "refs (k\<lparr>paths := (paths k)[p := r']\<rparr>) + path_refs (paths k ! p) = refs k + path_refs r'"
  using sum_list_update_map [OF assms, of path_refs r'] by (simp add: refs_def heads_def from_of_def [abs_def] ac_simps)

lemma pathclose_start_ok:
  assumes ok: "consistent k (H + {#P p#}) A B"
  shows "wp (pathclose_start p) (\<lambda>ws k'. consistent k' (H + works_refs ws) A B \<and> calm k k' \<and> (\<forall>w\<in>set ws. \<exists>d. w = Cclose d)) (\<lambda>_ _. False) k"
proof -
  obtain n where n: "get_ref (P p) k = Some n" "n \<ge> 1" "adec n = n - 1" using counted_held [OF consistentD(1) [OF ok], of "P p"] by auto
  let ?k = "put_ref (P p) (n - 1) k"
  have cnt: "counted ?k H" by (rule counted_drop [OF consistentD(1) [OF ok] n(1)])
  have k1: "consistent ?k H A B" and cl: "calm k ?k" using consistent_put_other [OF ok cnt] by auto
  obtain r where r: "live (paths k) p = Some r" "p_ref r = n" using n(1) by (auto simp: get_ref.simps)
  show ?thesis
  proof (cases "n - 1 = 0")
    case False
    then show ?thesis using n k1 cl by (simp add: pathclose_start_def wp_ns)
  next
    case True
    let ?r = "r\<lparr>p_ref := 0\<rparr>" and ?ws = "concat (map close_opt (take (p_mlen r) (p_mtpt r)))"
    have r1: "live (paths ?k) p = Some ?r" using r True by (simp add: put_ref.simps)
    have pl: "p < length (paths ?k)" "paths ?k ! p = Some ?r" using r1 by (simp_all add: live_Some)
    have pr: "path_refs (Some ?r) = {#Npath#} + works_refs ?ws"
      using consistentD(7) [OF ok r(1)] by (simp add: path_refs_def works_refs_closes opts_refs_take path_ok_def)
    let ?k2 = "?k\<lparr>paths := (paths ?k)[p := None]\<rparr>"
    have e: "refs ?k = refs ?k2 + path_refs (Some ?r)" using refs_path [OF pl(1), of None] pl(2) by (simp add: path_refs_def)
    have "counted ?k2 ((H + works_refs ?ws) + {#Npath#})"
    proof (rule counted_move [OF cnt])
      show "refs ?k2 + (H + works_refs ?ws + {#Npath#}) = refs ?k + H" unfolding e pr by (simp only: ac_simps)
      show "rc ?k2 x = rc ?k x" for x using r1 by (cases x) (auto simp: rc_def ref_simps live_update)
    qed
    moreover obtain m where m: "get_ref Npath ?k = Some m" "m \<ge> 1" "adec m = m - 1"
      using counted_held [OF cnt, of Npath] e pr by auto
    ultimately have "counted (put_ref Npath (m - 1) ?k2) (H + works_refs ?ws)" by (intro counted_drop) (auto simp: ref_simps)
    moreover have k3: "put_ref Npath (m - 1) ?k2 = (put_ref Npath (m - 1) ?k)\<lparr>paths := (paths ?k)[p := None]\<rparr>" (is "_ = ?k3") by (simp add: put_ref.simps)
    ultimately have "counted ?k3 (H + works_refs ?ws)" by simp
    then have "consistent ?k3 (H + works_refs ?ws) A B"
      using consistentD(2-) [OF k1] unfolding consistent_def by (auto simp: heads_def live_update put_ref.simps split: if_splits)
    moreover have "calm k ?k3" using cl by (auto simp: calm_def live_update put_ref.simps split: if_splits)
    moreover have "\<forall>w\<in>set ?ws. \<exists>d. w = Cclose d" by (auto simp: close_opt_def split: option.splits)
    moreover have "pathclose_start p k = (Inr ?ws, ?k3)"
      using n m r1 True by (simp add: pathclose_start_def and_then_def seq_def decref_def obj_at_def modify_def ret_def put_ref.simps(6))
    ultimately show ?thesis by (simp add: wp_def)
  qed
qed

definition frees :: "work list \<Rightarrow> nat list" where
  "frees ws = concat (map (\<lambda>w. case w of Chanfree c \<Rightarrow> [c] | _ \<Rightarrow> []) ws)"

definition tofrees :: "work list \<Rightarrow> nat list" where
  "tofrees ws = concat (map (\<lambda>w. case w of Tofree c \<Rightarrow> [c] | _ \<Rightarrow> []) ws)"

lemma frees_simps [simp]:
  "frees [] = []" "frees (Chanfree c # ws) = c # frees ws" "frees (Cclose c # ws) = frees ws" "frees (Pathclose p # ws) = frees ws"
  "frees (Tofree c # ws) = frees ws" "tofrees [] = []" "tofrees (Tofree c # ws) = c # tofrees ws" "tofrees (Cclose c # ws) = tofrees ws"
  "tofrees (Pathclose p # ws) = tofrees ws" "tofrees (Chanfree c # ws) = tofrees ws"
  "frees (ws @ vs) = frees ws @ frees vs" "tofrees (ws @ vs) = tofrees ws @ tofrees vs"
  by (simp_all add: frees_def tofrees_def)

lemma frees_closes: "\<forall>w\<in>set ws. \<exists>d. w = Cclose d \<or> w = Pathclose d \<Longrightarrow> frees ws = [] \<and> tofrees ws = []"
  by (induction ws) auto

lemma tofree_ok:
  assumes "consistent k H A (c # B)"
  shows "consistent (k\<lparr>freelist := c # freelist k\<rparr>) H A B" and "calm k (k\<lparr>freelist := c # freelist k\<rparr>)"
proof -
  have "rc (k\<lparr>freelist := f\<rparr>) x = rc k x" for f x by (cases x) (simp_all add: rc_def get_ref.simps)
  then have "counted (k\<lparr>freelist := c # freelist k\<rparr>) H"
    using consistentD(1) [OF assms] by (simp add: counted_def refs_def heads_def from_of_def [abs_def])
  then show "consistent (k\<lparr>freelist := c # freelist k\<rparr>) H A B"
    using consistentD(2-) [OF assms] unfolding consistent_def by (auto simp: heads_def)
  show "calm k (k\<lparr>freelist := c # freelist k\<rparr>)" by (auto simp: calm_def)
qed

lemma work_step_ok:
  assumes "consistent k (H + works_refs (w # rest)) (frees (w # rest)) (tofrees (w # rest))"
  shows "wp (work_step w) (\<lambda>ws k'. consistent k' (H + works_refs (ws @ rest)) (frees (ws @ rest)) (tofrees (ws @ rest)) \<and> calm k k') (\<lambda>_ _. False) k"
proof (cases w)
  case (Cclose c)
  then have "consistent k ((H + works_refs rest) + {#C c#}) (frees rest) (tofrees rest)" using assms by (simp add: ac_simps)
  from cclose_start_ok [OF this] show ?thesis
    unfolding Cclose work_step_def work.case by (rule wp_conseq) (auto simp: ac_simps)
next
  case (Chanfree c)
  then have "consistent k (H + works_refs rest) (c # frees rest) (tofrees rest)" using assms by simp
  from chanfree_start_ok [OF this] show ?thesis
    unfolding Chanfree work_step_def work.case by (rule wp_conseq) (auto simp: ac_simps dest: frees_closes)
next
  case (Pathclose p)
  then have "consistent k ((H + works_refs rest) + {#P p#}) (frees rest) (tofrees rest)" using assms by (simp add: ac_simps)
  from pathclose_start_ok [OF this] show ?thesis
    unfolding Pathclose work_step_def work.case
  proof (rule wp_conseq)
    fix ws k' assume *: "consistent k' (H + works_refs rest + works_refs ws) (frees rest) (tofrees rest) \<and> calm k k' \<and> (\<forall>w\<in>set ws. \<exists>d. w = Cclose d)"
    then have "frees ws = [] \<and> tofrees ws = []" by (intro frees_closes) auto
    then show "consistent k' (H + works_refs (ws @ rest)) (frees (ws @ rest)) (tofrees (ws @ rest)) \<and> calm k k'" using * by (simp add: ac_simps)
  qed simp
next
  case (Tofree c)
  then show ?thesis using assms tofree_ok [of k "H + works_refs rest" "frees rest" c "tofrees rest"]
    by (simp add: work_step_def wp_flow)
qed

lemma run_work_ok:
  "consistent k (H + works_refs ws) (frees ws) (tofrees ws) \<Longrightarrow> wp (run_work ws) (\<lambda>_ k'. consistent k' H [] [] \<and> calm k k') (\<lambda>_ _. False) k"
proof (induction ws k rule: run_work.induct)
  case (1 k)
  then show ?case by (simp add: wp_def run_work.simps)
next
  case (2 w rest k)
  from work_step_ok [OF 2(2)] obtain ws k' where step: "work_step w k = (Inr ws, k')"
    and ok: "consistent k' (H + works_refs (ws @ rest)) (frees (ws @ rest)) (tofrees (ws @ rest))" and cl: "calm k k'"
    unfolding wp_total_iff by blast
  have "wp (run_work (ws @ rest)) (\<lambda>_ k''. consistent k'' H [] [] \<and> calm k' k'') (\<lambda>_ _. False) k'"
    using 2(1) [OF step [symmetric] refl ok] .
  then have "wp (run_work (ws @ rest)) (\<lambda>_ k''. consistent k'' H [] [] \<and> calm k k'') (\<lambda>_ _. False) k'"
    by (rule wp_conseq) (use calm_trans [OF cl] in auto)
  then show ?case using step by (simp add: wp_def run_work.simps)
qed

lemma cclose_ok:
  "consistent k (H + {#C c#}) [] [] \<Longrightarrow> wp (cclose c) (\<lambda>_ k'. consistent k' H [] [] \<and> calm k k') (\<lambda>_ _. False) k"
  unfolding cclose_def by (rule run_work_ok) simp

lemma pathclose_ok:
  "consistent k (H + opt_refs P p) [] [] \<Longrightarrow> wp (pathclose p) (\<lambda>_ k'. consistent k' H [] [] \<and> calm k k') (\<lambda>_ _. False) k"
  unfolding pathclose_def by (cases p) (auto simp: wp_ret intro!: run_work_ok)

end
