(* ===== verification/Fd_Rules.thy ===== *)
theory Fd_Rules
  imports Fds Chan_Rules
begin

text \<open>
  What the operations on a table of file descriptors do: to the table, seen as a map from descriptors to channels, to its shape, and to
  the reference counts.
\<close>

section \<open>The shape of a table\<close>

definition fd_ok :: "Fgrp \<Rightarrow> bool" where
  "fd_ok f \<longleftrightarrow> f_nfd f = length (f_fd f) \<and> DELTAFD dvd f_nfd f \<and> 0 < f_nfd f \<and> f_nfd f \<le> 5000 \<and> f_maxfd f < f_nfd f \<and>
     (\<forall>i < f_nfd f. f_fd f ! i \<noteq> None \<longrightarrow> i \<le> f_maxfd f)"

text \<open>The channel at a descriptor.\<close>

abbreviation at_fd :: "Fgrp \<Rightarrow> nat \<Rightarrow> nat option" where
  "at_fd f \<equiv> live (f_fd f)"

lemma live_append_None: "live (xs @ replicate n None) = live xs"
  by (rule ext) (auto simp: live_def nth_append)

lemma opts_refs_simps [simp]: "opts_refs [] = {#}" "opts_refs (x # xs) = opt_refs C x + opts_refs xs" "opts_refs (xs @ ys) = opts_refs xs + opts_refs ys"
  by (simp_all add: opts_refs_def)

lemma opts_refs_None [simp]: "opts_refs (replicate n None) = {#}"
  by (induction n) simp_all

lemma opts_refs_update: "i < length xs \<Longrightarrow> opts_refs (xs[i := y]) + opt_refs C (xs ! i) = opts_refs xs + opt_refs C y"
  unfolding opts_refs_def by (rule sum_list_update_map)

lemma growfd_ok:
  assumes "fd_ok f" and "growfd room f fd = (r, f')"
  shows "fd_ok f'" and "at_fd f' = at_fd f" and "f_ref f' = f_ref f" and "opts_refs (f_fd f') = opts_refs (f_fd f)"
    and "r < 0 \<Longrightarrow> f' = f \<and> f_nfd f \<le> fd \<and> (fd \<ge> f_nfd f + DELTAFD \<or> f_nfd f = 5000 \<or> \<not> room)" and "0 \<le> r \<Longrightarrow> fd < f_nfd f'"
    and "f_maxfd f \<le> f_maxfd f'" and "f_nfd f \<le> f_nfd f'"
proof -
  have g: "f_nfd f + DELTAFD \<le> 5000" "DELTAFD dvd f_nfd f + DELTAFD" if "f_nfd f < 5000"
  proof -
    obtain j where "f_nfd f = DELTAFD * j" using assms(1) unfolding fd_ok_def by (elim conjE dvdE)
    then show "f_nfd f + DELTAFD \<le> 5000" "DELTAFD dvd f_nfd f + DELTAFD" using that by auto
  qed
  have new: "(take (f_nfd f) (f_fd f) @ replicate DELTAFD None) ! i = (if i < f_nfd f then f_fd f ! i else None)" if "i < f_nfd f + DELTAFD" for i
    using assms(1) that by (auto simp: fd_ok_def nth_append)
  show "fd_ok f'" using assms g new by (auto simp: growfd_def Let_def fd_ok_def split: if_splits)
  show "at_fd f' = at_fd f" "f_ref f' = f_ref f" "opts_refs (f_fd f') = opts_refs (f_fd f)"
    using assms by (auto simp: growfd_def Let_def fd_ok_def live_append_None split: if_splits)
  show "r < 0 \<Longrightarrow> f' = f \<and> f_nfd f \<le> fd \<and> (fd \<ge> f_nfd f + DELTAFD \<or> f_nfd f = 5000 \<or> \<not> room)"
    using assms by (auto simp: growfd_def Let_def fd_ok_def split: if_splits)
  show "0 \<le> r \<Longrightarrow> fd < f_nfd f'" "f_maxfd f \<le> f_maxfd f'" "f_nfd f \<le> f_nfd f'"
    using assms by (auto simp: growfd_def Let_def fd_ok_def split: if_splits)
qed

lemma first_free_ok:
  "s \<le> f_nfd f \<Longrightarrow> s \<le> first_free f s \<and> first_free f s \<le> f_nfd f \<and> (first_free f s < f_nfd f \<longrightarrow> f_fd f ! first_free f s = None) \<and>
    (\<forall>i. s \<le> i \<longrightarrow> i < first_free f s \<longrightarrow> f_fd f ! i \<noteq> None)"
proof (induction f s rule: first_free.induct)
  case (1 f s)
  show ?case
  proof (cases "s < f_nfd f \<and> f_fd f ! s \<noteq> None")
    case True
    then have "first_free f s = first_free f (s + 1)" by (subst first_free.simps) auto
    then show ?thesis using 1 True by (metis Suc_eq_plus1 Suc_le_eq le_eq_less_or_eq Suc_leD)
  next
    case False
    then have "first_free f s = s" by (subst first_free.simps) auto
    then show ?thesis using 1(2) False by auto
  qed
qed

lemma findfreefd_ok:
  assumes "fd_ok f" and "start \<le> f_nfd f" and "findfreefd room f start = (r, f')"
  shows "fd_ok f'" and "at_fd f' = at_fd f" and "f_ref f' = f_ref f" and "opts_refs (f_fd f') = opts_refs (f_fd f)" and "f_nfd f \<le> f_nfd f'"
    and "\<And>fd. r = Some fd \<Longrightarrow> start \<le> fd \<and> fd < f_nfd f' \<and> at_fd f fd = None \<and> (\<forall>i. start \<le> i \<longrightarrow> i < fd \<longrightarrow> at_fd f i \<noteq> None)"
    and "r = None \<Longrightarrow> f' = f \<and> (f_nfd f = 5000 \<or> \<not> room) \<and> (\<forall>i. start \<le> i \<longrightarrow> i < f_nfd f \<longrightarrow> at_fd f i \<noteq> None)"
proof -
  define d where "d = first_free f start"
  note d = first_free_ok [OF assms(2), folded d_def]
  have len: "f_nfd f = length (f_fd f)" using assms(1) by (simp add: fd_ok_def)
  have live: "i < f_nfd f \<Longrightarrow> at_fd f i = f_fd f ! i" "\<not> i < f_nfd f \<Longrightarrow> at_fd f i = None" for i by (auto simp: live_def len)
  obtain q g where g: "growfd room f d = (q, g)" by fastforce
  have r: "(r, f') = (if d \<ge> f_nfd f then (if q < 0 then None else Some d, g) else (Some d, f))"
    using assms(3) g by (auto simp: findfreefd_def d_def Let_def split: if_splits)
  note gk = growfd_ok [OF assms(1) g]
  show "fd_ok f'" "at_fd f' = at_fd f" "f_ref f' = f_ref f" "opts_refs (f_fd f') = opts_refs (f_fd f)" "f_nfd f \<le> f_nfd f'"
    using r gk assms(1) by (auto split: if_splits)
  show "start \<le> fd \<and> fd < f_nfd f' \<and> at_fd f fd = None \<and> (\<forall>i. start \<le> i \<longrightarrow> i < fd \<longrightarrow> at_fd f i \<noteq> None)" if "r = Some fd" for fd
    using that r gk(6) d live by (fastforce split: if_splits)
  show "f' = f \<and> (f_nfd f = 5000 \<or> \<not> room) \<and> (\<forall>i. start \<le> i \<longrightarrow> i < f_nfd f \<longrightarrow> at_fd f i \<noteq> None)" if "r = None"
  proof -
    have "d = f_nfd f" "q < 0" "f' = g" using that r d by (auto split: if_splits)
    then show ?thesis using gk(5) d live by auto
  qed
qed

section \<open>Tables in a state\<close>

definition tables_ok :: "ns \<Rightarrow> bool" where
  "tables_ok k \<longleftrightarrow> (\<forall>fg f. live (fgrps k) fg = Some f \<longrightarrow> fd_ok f)"

definition sound :: "ns \<Rightarrow> obj multiset \<Rightarrow> bool" where
  "sound k H \<longleftrightarrow> consistent k H [] [] \<and> tables_ok k"

lemma refs_fgrp:
  assumes "fg < length (fgrps k)"
  shows "refs (k\<lparr>fgrps := (fgrps k)[fg := f']\<rparr>) + fgrp_refs (fgrps k ! fg) = refs k + fgrp_refs f'"
  using sum_list_update_map [OF assms, of fgrp_refs f'] by (simp add: refs_def heads_def from_of_def [abs_def] ac_simps)

lemma consistent_fgrps:
  assumes "consistent k H A B" and "counted (k\<lparr>fgrps := fs\<rparr>) H'"
  shows "consistent (k\<lparr>fgrps := fs\<rparr>) H' A B"
  using assms unfolding consistent_def by (auto simp: heads_def)

lemma sound_set_fgrp:
  assumes "sound k H" and f: "live (fgrps k) fg = Some f" and "f_ref f' = f_ref f" and "fd_ok f'"
    and move: "opts_refs (f_fd f') + H' = opts_refs (f_fd f) + H"
  shows "sound (k\<lparr>fgrps := upd fg (\<lambda>_. f') (fgrps k)\<rparr>) H'"
proof -
  let ?k = "k\<lparr>fgrps := (fgrps k)[fg := Some f']\<rparr>"
  have l: "fg < length (fgrps k)" "fgrps k ! fg = Some f" using f by (simp_all add: live_Some)
  have e: "refs ?k + opts_refs (f_fd f) = refs k + opts_refs (f_fd f')" using refs_fgrp [OF l(1), of "Some f'"] l(2) by (simp add: fgrp_refs_def)
  have "refs ?k + H' + (opts_refs (f_fd f) + opts_refs (f_fd f')) = refs k + H + (opts_refs (f_fd f) + opts_refs (f_fd f'))"
    using e move by (metis (no_types, lifting) add.assoc add.commute)
  then have "refs ?k + H' = refs k + H" by simp
  moreover have "rc ?k x = rc k x" for x using l f assms(3) by (cases x) (auto simp: rc_def get_ref.simps live_update)
  ultimately have "counted ?k H'" using assms(1) unfolding sound_def consistent_def counted_def by simp
  then have "consistent ?k H' [] []" using assms(1) consistent_fgrps unfolding sound_def by blast
  moreover have "tables_ok ?k" using assms(1,4) by (auto simp: sound_def tables_ok_def live_update)
  ultimately show ?thesis using f by (simp add: sound_def upd_live)
qed

lemma sound_calm: "consistent k' H [] [] \<Longrightarrow> calm k k' \<Longrightarrow> sound k H' \<Longrightarrow> sound k' H"
  by (auto simp: sound_def tables_ok_def calm_def)

lemma cclose_sound:
  assumes "sound k (H + {#C c#})"
  shows "wp (cclose c) (\<lambda>_ k'. sound k' H \<and> calm k k') (\<lambda>_ _. False) k"
proof -
  have "consistent k (H + {#C c#}) [] []" using assms by (simp add: sound_def)
  from cclose_ok [OF this] show ?thesis by (rule wp_conseq) (use sound_calm assms in auto)
qed

lemma fd_ok_unlock [simp]: "fd_ok (unlockfgrp f) = fd_ok f" "f_fd (unlockfgrp f) = f_fd f" "f_ref (unlockfgrp f) = f_ref f"
  "f_maxfd (unlockfgrp f) = f_maxfd f" "f_nfd (unlockfgrp f) = f_nfd f"
  by (simp_all add: fd_ok_def unlockfgrp_def)

lemma raise_max_simps [simp]: "f_fd (raise_max fd f) = f_fd f" "f_ref (raise_max fd f) = f_ref f" "f_nfd (raise_max fd f) = f_nfd f"
  by (simp_all add: raise_max_def)

lemma fd_ok_fill:
  assumes "fd_ok f" and "fd < f_nfd f"
  shows "fd_ok ((raise_max fd f)\<lparr>f_fd := (f_fd f)[fd := x]\<rparr>)"
  using assms by (auto simp: fd_ok_def raise_max_def nth_list_update)

lemma live_fill: "i < length xs \<Longrightarrow> live (xs[i := x]) = (live xs)(i := x)"
  by (rule ext) (simp add: live_update)

text \<open>The table of the process after an operation, in an otherwise unchanged state.\<close>

abbreviation with_table :: "ns \<Rightarrow> nat \<Rightarrow> Fgrp \<Rightarrow> ns" where
  "with_table k fg f \<equiv> k\<lparr>fgrps := upd fg (\<lambda>_. f) (fgrps k)\<rparr>"

lemmas sem_simps = and_then_def seq_def obj_at_def chan_def fetch_def set_fgrp_def modify_def ret_def raise_def Let_def

lemma newfd_ok:
  assumes "sound k (H + {#C c#})" and f: "live (fgrps k) fg = Some f"
  shows "wp (newfd room fg c) (\<lambda>r k'. \<exists>f'. k' = with_table k fg f' \<and> fd_ok f' \<and> f_ref f' = f_ref f \<and> (case r of
      None \<Rightarrow> sound k' (H + {#C c#}) \<and> at_fd f' = at_fd f \<and> (f_nfd f = 5000 \<or> \<not> room) \<and> (\<forall>i < f_nfd f. at_fd f i \<noteq> None)
    | Some fd \<Rightarrow> sound k' H \<and> at_fd f' = (at_fd f)(fd := Some c) \<and> at_fd f fd = None \<and> (\<forall>i < fd. at_fd f i \<noteq> None))) (\<lambda>_ _. False) k"
proof -
  have fok: "fd_ok f" using assms by (auto simp: sound_def tables_ok_def)
  obtain r g where g: "findfreefd room f 0 = (r, g)" by fastforce
  note ff = findfreefd_ok [OF fok le0 g]
  show ?thesis
  proof (cases r)
    case None
    have "sound (with_table k fg (unlockfgrp g)) (H + {#C c#})"
      using ff(1,3,4) by (intro sound_set_fgrp [OF assms(1) f]) simp_all
    moreover have ex: "newfd room fg c k = (Inr None, with_table k fg (unlockfgrp g))"
      using None g f by (simp add: newfd_def sem_simps)
    ultimately show ?thesis unfolding wp_def ex using ff(1-3) ff(7) [OF None]
      by (simp only: prod.case sum.case option.case) (intro exI [of _ "unlockfgrp g"], simp)
  next
    case (Some fd)
    have fd: "fd < length (f_fd g)" "f_fd g ! fd = None" and nf: "at_fd f fd = None" "\<forall>i < fd. at_fd f i \<noteq> None"
      using ff(6) [OF Some] ff(1,2) by (auto simp: fd_ok_def live_def fun_eq_iff split: if_splits)
    let ?f = "unlockfgrp ((raise_max fd g)\<lparr>f_fd := (f_fd g)[fd := Some c]\<rparr>)"
    have ok: "fd_ok ?f" using fd_ok_fill [OF ff(1), of fd "Some c"] ff(6) [OF Some] by simp
    have "opts_refs ((f_fd g)[fd := Some c]) = opts_refs (f_fd g) + {#C c#}" using opts_refs_update [OF fd(1), of "Some c"] fd(2) by simp
    then have "sound (with_table k fg ?f) H" using ok ff(3,4) by (intro sound_set_fgrp [OF assms(1) f]) simp_all
    moreover have "at_fd ?f = (at_fd f)(fd := Some c)" using live_fill [OF fd(1)] ff(2) by simp
    moreover have ex: "newfd room fg c k = (Inr (Some fd), with_table k fg ?f)"
      using Some g f by (simp add: newfd_def sem_simps)
    ultimately show ?thesis unfolding wp_def ex using ok nf ff(3) by (simp only: prod.case sum.case option.case) (intro exI [of _ ?f], simp)
  qed
qed

end
