(* ===== verification/Fd_Use.thy ===== *)
theory Fd_Use
  imports Fd_Rules
begin

text \<open>
  The system calls on file descriptors: what each does to the table and to the counts, on every path. The counts are taken to stay below
  the limit of a 32-bit integer, at which \<^verbatim>\<open>incref\<close> panics.
\<close>

lemma and_then_run: "m k = (Inr x, k') \<Longrightarrow> and_then m g k = g x k'"
  by (simp add: and_then_def)

lemma seq_run: "m k = (Inr x, k') \<Longrightarrow> seq m n k = n k'"
  by (simp add: seq_def and_then_def)

lemma wp_same_run: "m k = n k' \<Longrightarrow> wp m Q E k = wp n Q E k'"
  by (simp add: wp_def)

section \<open>Taking a reference\<close>

definition below_limit :: "ns \<Rightarrow> nat \<Rightarrow> nat \<Rightarrow> bool" where
  "below_limit k n c \<longleftrightarrow> c < length (chans k) \<longrightarrow> k_ref (chans k ! c) + int n < 2 ^ 31"

lemma consistent_incref:
  assumes ok: "consistent k H A B" and c: "C c \<in># refs k + H"
  shows "consistent (put_ref (C c) (k_ref (chans k ! c) + 1) k) (H + {#C c#}) A B"
proof -
  note h = held_chan [OF ok c]
  let ?r = "(chans k ! c)\<lparr>k_ref := k_ref (chans k ! c) + 1\<rparr>"
  have cnt: "counted (put_ref (C c) (k_ref (chans k ! c) + 1) k) (H + {#C c#})"
    by (rule counted_add [OF consistentD(1) [OF ok]]) (simp add: get_ref.simps h)
  have "{d. d < length (chans k) \<and> k_ref ((chans k)[c := ?r] ! d) = 0} = {d. d < length (chans k) \<and> k_ref (chans k ! d) = 0}"
    using h by (auto simp: nth_list_update)
  moreover have "k_flag ((chans k)[c := ?r] ! d) = k_flag (chans k ! d)" "chan_refs ((chans k)[c := ?r] ! d) = chan_refs (chans k ! d)" for d
    by (cases "d = c"; simp add: h chan_refs_def)+
  ultimately show ?thesis
    using cnt consistentD(2-) [OF ok] unfolding consistent_def heads_put_ref by (simp add: put_ref.simps)
qed

lemma incref_sound:
  assumes "sound k H" and "C c \<in># refs k + H" and "below_limit k 1 c"
  shows "incref (C c) k = (Inr (k_ref (chans k ! c) + 1), put_ref (C c) (k_ref (chans k ! c) + 1) k)"
    and "sound (put_ref (C c) (k_ref (chans k ! c) + 1) k) (H + {#C c#})"
proof -
  have ok: "consistent k H [] []" using assms(1) by (simp add: sound_def)
  note h = held_chan [OF ok assms(2)]
  show "incref (C c) k = (Inr (k_ref (chans k ! c) + 1), put_ref (C c) (k_ref (chans k ! c) + 1) k)"
    using h assms(3) by (simp add: incref_def get_ref.simps ainc_def below_limit_def)
  show "sound (put_ref (C c) (k_ref (chans k ! c) + 1) k) (H + {#C c#})"
    using consistent_incref [OF ok assms(2)] assms(1) by (simp add: sound_def tables_ok_def put_ref.simps)
qed

lemma in_opts_refs: "live xs i = Some c \<Longrightarrow> C c \<in># opts_refs xs"
proof -
  assume "live xs i = Some c"
  then have "Some c \<in> set xs" by (metis live_Some nth_mem)
  then show ?thesis by (induction xs) auto
qed

lemma table_in_refs:
  assumes "live (fgrps k) fg = Some f" and "at_fd f i = Some c"
  shows "C c \<in># refs k"
proof -
  have "fgrps k ! fg = Some f" "fg < length (fgrps k)" using assms(1) by (simp_all add: live_Some)
  then have "Some f \<in> set (fgrps k)" by (metis nth_mem)
  then have "fgrp_refs (Some f) \<subseteq># sum_list (map fgrp_refs (fgrps k))"
    by (induction "fgrps k" rule: list.induct; simp) (metis add.commute image_eqI list.set_map mset_subset_eq_add_left sum_list_map_remove1)
  moreover have "C c \<in># fgrp_refs (Some f)" using in_opts_refs [OF assms(2)] by (simp add: fgrp_refs_def)
  ultimately show ?thesis by (auto simp: refs_def dest: mset_subset_eqD)
qed

section \<open>Looking up a descriptor\<close>

definition usable :: "bool \<Rightarrow> u64 \<Rightarrow> Kchan \<Rightarrow> bool" where
  "usable chkmnt mode r \<longleftrightarrow> \<not> (chkmnt \<and> k_flag r AND CMSG \<noteq> 0) \<and> (mode = -1 \<or> k_mode r = ORDWR \<or> mode AND k_mode r = mode)"

lemma slot_at_fd: "fd_ok f \<Longrightarrow> slot f fd = (if fd < 0 then None else at_fd f (nat fd))"
  by (auto simp: slot_def live_def fd_ok_def)

lemma fdtochan_ok:
  assumes k: "sound k H" and f: "live (fgrps k) fg = Some f"
    and lim: "\<And>c. iref \<Longrightarrow> 0 \<le> fd \<Longrightarrow> at_fd f (nat fd) = Some c \<Longrightarrow> below_limit k 1 c"
  shows "wp (fdtochan fg fd mode chkmnt iref)
    (\<lambda>c k'. 0 \<le> fd \<and> at_fd f (nat fd) = Some c \<and> usable chkmnt mode (chans k ! c) \<and> fgrps k' = fgrps k \<and>
      (if iref then sound k' (H + {#C c#}) else k' = k))
    (\<lambda>e k'. sound k' H \<and> fgrps k' = fgrps k \<and>
      (e = Error Ebadfd \<and> (fd < 0 \<or> at_fd f (nat fd) = None) \<or>
       e = Error Ebadusefd \<and> (\<exists>c. 0 \<le> fd \<and> at_fd f (nat fd) = Some c \<and> \<not> usable chkmnt mode (chans k ! c)))) k"
proof -
  have fok: "fd_ok f" using k f by (auto simp: sound_def tables_ok_def)
  show ?thesis
  proof (cases "slot f fd")
    case None
    then have ex: "fdtochan fg fd mode chkmnt iref k = (Inl (Error Ebadfd), k)" using f by (simp add: fdtochan_def sem_simps)
    then show ?thesis using None slot_at_fd [OF fok, of fd] k by (auto simp: wp_def split: if_splits)
  next
    case (Some c)
    then have fd: "0 \<le> fd" "at_fd f (nat fd) = Some c" using slot_at_fd [OF fok, of fd] by (auto split: if_splits)
    have inr: "C c \<in># refs k + H" using table_in_refs [OF f fd(2)] by simp
    have ok: "consistent k H [] []" using k by (simp add: sound_def)
    note c = held_chan [OF ok inr]
    let ?r = "chans k ! c"
    show ?thesis
    proof (cases iref)
      case False
      then show ?thesis using Some f fd c(1) k by (auto simp: fdtochan_def wp_ns usable_def)
    next
      case True
      define k1 where "k1 = put_ref (C c) (k_ref ?r + 1) k"
      note i = incref_sound [OF k inr lim [OF True fd], folded k1_def]
      have same: "k_flag (chans k1 ! c) = k_flag ?r" "k_mode (chans k1 ! c) = k_mode ?r" "c < length (chans k1)" "fgrps k1 = fgrps k"
        using c(1) by (simp_all add: k1_def put_ref.simps)
      have cl: "wp (cclose c) (\<lambda>_ k'. sound k' H \<and> fgrps k' = fgrps k) (\<lambda>_ _. False) k1"
        using cclose_sound [OF i(2)] by (rule wp_conseq) (auto simp: calm_def same)
      let ?check = "and_then (chan c) (\<lambda>r.
           if chkmnt \<and> k_flag r AND CMSG \<noteq> 0 then seq (cclose c) (raise (Error Ebadusefd))
           else if mode = -1 \<or> k_mode r = ORDWR then ret c
           else if mode AND k_mode r \<noteq> mode then seq (cclose c) (raise (Error Ebadusefd))
           else ret c)"
      have ex: "fdtochan fg fd mode chkmnt iref k = ?check k1"
      proof -
        have "and_then (incref (C c)) (\<lambda>_. ret ()) k = (Inr (), k1)" using i(1) by (simp add: and_then_run ret_def)
        then show ?thesis using True Some f unfolding fdtochan_def
          by (subst and_then_run [of _ _ f k]) (simp_all add: obj_at_def seq_run)
      qed
      have bad: "wp (seq (cclose c) (raise (Error Ebadusefd))) Q (\<lambda>e k'. sound k' H \<and> fgrps k' = fgrps k \<and> e = Error Ebadusefd) k1" for Q
        unfolding wp_flow by (rule wp_conseq [OF cl]) auto
      have "wp ?check (\<lambda>d k'. d = c \<and> usable chkmnt mode ?r \<and> k' = k1) (\<lambda>e k'. sound k' H \<and> fgrps k' = fgrps k \<and> e = Error Ebadusefd \<and> \<not> usable chkmnt mode ?r) k1"
        using same by (auto simp: wp_and_then wp_chan wp_if wp_ret usable_def intro!: wp_conseq [OF bad])
      then have "wp ?check
          (\<lambda>c k'. 0 \<le> fd \<and> at_fd f (nat fd) = Some c \<and> usable chkmnt mode (chans k ! c) \<and> fgrps k' = fgrps k \<and> sound k' (H + {#C c#}))
          (\<lambda>e k'. sound k' H \<and> fgrps k' = fgrps k \<and>
            (e = Error Ebadfd \<and> (fd < 0 \<or> at_fd f (nat fd) = None) \<or>
             e = Error Ebadusefd \<and> (\<exists>c. 0 \<le> fd \<and> at_fd f (nat fd) = Some c \<and> \<not> usable chkmnt mode (chans k ! c)))) k1"
        by (rule wp_conseq) (use fd same(4) i(2) in auto)
      then show ?thesis unfolding wp_same_run [where m = "fdtochan fg fd mode chkmnt iref" and n = ?check, OF ex] by (rule wp_conseq) (use True in auto)
    qed
  qed
qed

section \<open>Duplicating a descriptor\<close>

text \<open>The other tables are left alone; this one becomes \<open>t\<close>, as a map from descriptors to channels.\<close>

definition table_becomes :: "nat \<Rightarrow> ns \<Rightarrow> (nat \<Rightarrow> nat option) \<Rightarrow> ns \<Rightarrow> bool" where
  "table_becomes fg k t k' \<longleftrightarrow> (\<exists>f'. fgrps k' = upd fg (\<lambda>_. f') (fgrps k) \<and> at_fd f' = t \<and> (\<exists>f. live (fgrps k) fg = Some f \<and> f_ref f' = f_ref f))"

lemma table_becomes_same: "live (fgrps k) fg = Some f \<Longrightarrow> fgrps k' = fgrps k \<Longrightarrow> table_becomes fg k (at_fd f) k'"
  unfolding table_becomes_def by (intro exI [of _ f]) (simp add: upd_def live_Some, metis list_update_id)

lemma table_becomes_set: "live (fgrps k) fg = Some f \<Longrightarrow> f_ref f' = f_ref f \<Longrightarrow> fgrps k' = upd fg (\<lambda>_. f') (fgrps k) \<Longrightarrow> table_becomes fg k (at_fd f') k'"
  unfolding table_becomes_def by blast

lemma sysdup_newfd:
  assumes "sound k (H + {#C c#})" and "live (fgrps k) fg = Some f"
  shows "wp (and_then (newfd room fg c) (\<lambda>r. case r of None \<Rightarrow> seq (cclose c) (raise (Error Enofd)) | Some fd \<Rightarrow> ret (int fd)))
    (\<lambda>r k'. \<exists>fd. r = int fd \<and> at_fd f fd = None \<and> (\<forall>i < fd. at_fd f i \<noteq> None) \<and> sound k' H \<and> table_becomes fg k ((at_fd f)(fd := Some c)) k')
    (\<lambda>e k'. e = Error Enofd \<and> (f_nfd f = 5000 \<or> \<not> room) \<and> (\<forall>i < f_nfd f. at_fd f i \<noteq> None) \<and> sound k' H \<and> table_becomes fg k (at_fd f) k') k"
  unfolding wp_and_then
proof (rule wp_conseq [OF newfd_ok [OF assms]])
  fix r k'
  assume "\<exists>f'. k' = with_table k fg f' \<and> fd_ok f' \<and> f_ref f' = f_ref f \<and> (case r of
      None \<Rightarrow> sound k' (H + {#C c#}) \<and> at_fd f' = at_fd f \<and> (f_nfd f = 5000 \<or> \<not> room) \<and> (\<forall>i < f_nfd f. at_fd f i \<noteq> None)
    | Some fd \<Rightarrow> sound k' H \<and> at_fd f' = (at_fd f)(fd := Some c) \<and> at_fd f fd = None \<and> (\<forall>i < fd. at_fd f i \<noteq> None))"
  then obtain f' where k': "k' = with_table k fg f'" "f_ref f' = f_ref f" and r: "case r of
      None \<Rightarrow> sound k' (H + {#C c#}) \<and> at_fd f' = at_fd f \<and> (f_nfd f = 5000 \<or> \<not> room) \<and> (\<forall>i < f_nfd f. at_fd f i \<noteq> None)
    | Some fd \<Rightarrow> sound k' H \<and> at_fd f' = (at_fd f)(fd := Some c) \<and> at_fd f fd = None \<and> (\<forall>i < fd. at_fd f i \<noteq> None)" by blast
  have tb: "table_becomes fg k (at_fd f') k'" using k' by (intro table_becomes_set [OF assms(2)]) simp_all
  show "wp (case r of None \<Rightarrow> seq (cclose c) (raise (Error Enofd)) | Some fd \<Rightarrow> ret (int fd))
    (\<lambda>r k'. \<exists>fd. r = int fd \<and> at_fd f fd = None \<and> (\<forall>i < fd. at_fd f i \<noteq> None) \<and> sound k' H \<and> table_becomes fg k ((at_fd f)(fd := Some c)) k')
    (\<lambda>e k'. e = Error Enofd \<and> (f_nfd f = 5000 \<or> \<not> room) \<and> (\<forall>i < f_nfd f. at_fd f i \<noteq> None) \<and> sound k' H \<and> table_becomes fg k (at_fd f) k') k'"
  proof (cases r)
    case None
    then have n: "sound k' (H + {#C c#})" "at_fd f' = at_fd f" "f_nfd f = 5000 \<or> \<not> room" "\<forall>i < f_nfd f. at_fd f i \<noteq> None" using r by auto
    have "wp (cclose c) (\<lambda>_ k''. sound k'' H \<and> table_becomes fg k (at_fd f) k'') (\<lambda>_ _. False) k'"
      using cclose_sound [OF n(1)] by (rule wp_conseq) (use tb n(2) in \<open>auto simp: calm_def table_becomes_def\<close>)
    then show ?thesis using None n(3,4) by (simp add: wp_flow) (erule wp_conseq, auto)
  next
    case (Some fd)
    then show ?thesis using r tb by (simp add: wp_ret)
  qed
qed simp

lemma table_becomes_calm: "table_becomes fg k t k1 \<Longrightarrow> calm k1 k' \<Longrightarrow> table_becomes fg k t k'"
  by (simp add: table_becomes_def calm_def)

lemma close_old:
  assumes "sound k (H + opt_refs C x)" and "table_becomes fg k0 t k"
  shows "wp (case x of None \<Rightarrow> ret () | Some c \<Rightarrow> cclose c) (\<lambda>_ k'. sound k' H \<and> table_becomes fg k0 t k') (\<lambda>_ _. False) k"
proof (cases x)
  case None
  then show ?thesis using assms by (simp add: wp_ret)
next
  case (Some c)
  then have "wp (cclose c) (\<lambda>_ k'. sound k' H \<and> calm k k') (\<lambda>_ _. False) k" using assms(1) by (intro cclose_sound) simp
  then show ?thesis unfolding Some option.case by (rule wp_conseq) (use table_becomes_calm [OF assms(2)] in auto)
qed

lemma dup_onto_ok:
  assumes k: "sound k (H + {#C oc#})" and f: "live (fgrps k) fg = Some f"
  shows "wp (dup_onto room fg oc nfd)
    (\<lambda>r k'. r = nfd \<and> 0 \<le> nfd \<and> sound k' H \<and> table_becomes fg k ((at_fd f)(nat nfd := Some oc)) k')
    (\<lambda>e k'. e = Error Ebadfd \<and> (nfd < 0 \<or> int (f_nfd f) \<le> nfd) \<and> sound k' H \<and> table_becomes fg k (at_fd f) k') k"
proof -
  have fok: "fd_ok f" using k f by (auto simp: sound_def tables_ok_def)
  obtain r g where g: "(if nfd < 0 then (-1, f) else growfd room f (nat nfd)) = (r, g)" by fastforce
  have gk: "fd_ok g" "at_fd g = at_fd f" "f_ref g = f_ref f" "opts_refs (f_fd g) = opts_refs (f_fd f)" "r < 0 \<Longrightarrow> nfd < 0 \<or> int (f_nfd f) \<le> nfd"
    "\<not> r < 0 \<Longrightarrow> 0 \<le> nfd \<and> nat nfd < f_nfd g"
    using g growfd_ok [OF fok, of room "nat nfd" r g] fok by (auto split: if_splits)
  show ?thesis
  proof (cases "r < 0")
    case True
    let ?k = "with_table k fg (unlockfgrp g)"
    have s: "sound ?k (H + {#C oc#})" using gk by (intro sound_set_fgrp [OF k f]) simp_all
    have tb: "table_becomes fg k (at_fd f) ?k" using table_becomes_set [OF f, of "unlockfgrp g" ?k] gk(2,3) by simp
    have ex: "dup_onto room fg oc nfd k = seq (cclose oc) (raise (Error Ebadfd)) ?k"
      using True g f by (simp add: dup_onto_def and_then_run obj_at_def seq_run set_fgrp_def modify_def Let_def del: if_split split del: if_split)
    have "wp (cclose oc) (\<lambda>_ k'. sound k' H \<and> table_becomes fg k (at_fd f) k') (\<lambda>_ _. False) ?k"
      using cclose_sound [OF s] by (rule wp_conseq) (use table_becomes_calm [OF tb] in auto)
    then have "wp (seq (cclose oc) (raise (Error Ebadfd))) Q (\<lambda>e k'. e = Error Ebadfd \<and> (nfd < 0 \<or> int (f_nfd f) \<le> nfd) \<and> sound k' H \<and> table_becomes fg k (at_fd f) k') ?k" for Q
      unfolding wp_flow by (rule wp_conseq) (use gk(5) True in auto)
    then show ?thesis unfolding wp_def ex .
  next
    case False
    let ?n = "nat nfd"
    let ?f = "unlockfgrp ((raise_max ?n g)\<lparr>f_fd := (f_fd g)[?n := Some oc]\<rparr>)"
    let ?k = "with_table k fg ?f"
    have n: "?n < length (f_fd g)" "0 \<le> nfd" using gk(1,6) False by (auto simp: fd_ok_def)
    have ok: "fd_ok ?f" using fd_ok_fill [OF gk(1), of ?n "Some oc"] gk(6) False by simp
    have mv: "opts_refs ((f_fd g)[?n := Some oc]) + (H + opt_refs C (f_fd g ! ?n)) = opts_refs (f_fd f) + (H + {#C oc#})"
      using opts_refs_update [OF n(1), of "Some oc"] gk(4) by (metis (no_types, lifting) add.assoc add.commute option.case(2))
    have s: "sound ?k (H + opt_refs C (f_fd g ! ?n))" using ok gk(3) mv by (intro sound_set_fgrp [OF k f]) simp_all
    have tb: "table_becomes fg k ((at_fd f)(?n := Some oc)) ?k"
      using table_becomes_set [OF f, of ?f ?k] gk(2,3) live_fill [OF n(1), of "Some oc"] by simp
    have ex: "dup_onto room fg oc nfd k = seq (case f_fd g ! ?n of None \<Rightarrow> ret () | Some c \<Rightarrow> cclose c) (ret nfd) ?k"
      using False g f by (simp add: dup_onto_def and_then_run obj_at_def seq_run set_fgrp_def modify_def Let_def split del: if_split)
    have "wp (seq (case f_fd g ! ?n of None \<Rightarrow> ret () | Some c \<Rightarrow> cclose c) (ret nfd))
       (\<lambda>r k'. r = nfd \<and> 0 \<le> nfd \<and> sound k' H \<and> table_becomes fg k ((at_fd f)(?n := Some oc)) k')
       (\<lambda>e k'. e = Error Ebadfd \<and> (nfd < 0 \<or> int (f_nfd f) \<le> nfd) \<and> sound k' H \<and> table_becomes fg k (at_fd f) k') ?k"
      unfolding wp_flow by (rule wp_conseq [OF close_old [OF s tb]]) (use n in auto)
    then show ?thesis unfolding wp_def ex .
  qed
qed

lemma table_becomes_from: "table_becomes fg k1 t k' \<Longrightarrow> fgrps k1 = fgrps k \<Longrightarrow> table_becomes fg k t k'"
  by (simp add: table_becomes_def)

lemma table_of_becomes: "table_becomes fg k t k' \<Longrightarrow> \<exists>f'. live (fgrps k') fg = Some f' \<and> at_fd f' = t"
  by (auto simp: table_becomes_def)

lemma sysdup_ok:
  assumes k: "sound k H" and f: "live (fgrps k) fg = Some f"
    and lim: "\<And>c. 0 \<le> ofd \<Longrightarrow> at_fd f (nat ofd) = Some c \<Longrightarrow> below_limit k 1 c"
  shows "wp (sysdup room fg ofd nfd)
    (\<lambda>r k'. \<exists>fd c. r = int fd \<and> 0 \<le> ofd \<and> at_fd f (nat ofd) = Some c \<and>
      (if nfd = -1 then at_fd f fd = None \<and> (\<forall>i < fd. at_fd f i \<noteq> None) else r = nfd) \<and>
      sound k' H \<and> table_becomes fg k ((at_fd f)(fd := Some c)) k')
    (\<lambda>e k'. (e = Error Ebadfd \<and> (ofd < 0 \<or> at_fd f (nat ofd) = None \<or> nfd < -1 \<or> int (f_nfd f) \<le> nfd) \<or>
        e = Error Enofd \<and> nfd = -1 \<and> (f_nfd f = 5000 \<or> \<not> room) \<and> (\<forall>i < f_nfd f. at_fd f i \<noteq> None)) \<and>
      sound k' H \<and> table_becomes fg k (at_fd f) k') k"
  unfolding sysdup_def wp_and_then
proof (rule wp_conseq [OF fdtochan_ok [OF k f lim]])
  fix c k1
  assume a: "0 \<le> ofd \<and> at_fd f (nat ofd) = Some c \<and> usable False (-1) (chans k ! c) \<and> fgrps k1 = fgrps k \<and>
      (if True then sound k1 (H + {#C c#}) else k1 = k)"
  then have k1: "sound k1 (H + {#C c#})" "live (fgrps k1) fg = Some f" "fgrps k1 = fgrps k" using f by auto
  show "wp (if nfd \<noteq> -1 then dup_onto room fg c nfd
     else and_then (newfd room fg c) (\<lambda>r. case r of None \<Rightarrow> seq (cclose c) (raise (Error Enofd)) | Some fd \<Rightarrow> ret (int fd)))
    (\<lambda>r k'. \<exists>fd c. r = int fd \<and> 0 \<le> ofd \<and> at_fd f (nat ofd) = Some c \<and>
      (if nfd = -1 then at_fd f fd = None \<and> (\<forall>i < fd. at_fd f i \<noteq> None) else r = nfd) \<and>
      sound k' H \<and> table_becomes fg k ((at_fd f)(fd := Some c)) k')
    (\<lambda>e k'. (e = Error Ebadfd \<and> (ofd < 0 \<or> at_fd f (nat ofd) = None \<or> nfd < -1 \<or> int (f_nfd f) \<le> nfd) \<or>
        e = Error Enofd \<and> nfd = -1 \<and> (f_nfd f = 5000 \<or> \<not> room) \<and> (\<forall>i < f_nfd f. at_fd f i \<noteq> None)) \<and>
      sound k' H \<and> table_becomes fg k (at_fd f) k') k1"
  proof (cases "nfd = -1")
    case True
    show ?thesis unfolding True by (simp only: if_False simp_thms, rule wp_conseq [OF sysdup_newfd [OF k1(1,2)]])
        (use a table_becomes_from [OF _ k1(3)] in auto)
  next
    case False
    then show ?thesis
      by (simp only: if_True simp_thms, intro wp_conseq [OF dup_onto_ok [OF k1(1,2)]])
        (use a table_becomes_from [OF _ k1(3)] in \<open>force+\<close>)
  qed
next
  fix e k1
  assume "sound k1 H \<and> fgrps k1 = fgrps k \<and> (e = Error Ebadfd \<and> (ofd < 0 \<or> at_fd f (nat ofd) = None) \<or>
       e = Error Ebadusefd \<and> (\<exists>c. 0 \<le> ofd \<and> at_fd f (nat ofd) = Some c \<and> \<not> usable False (-1) (chans k ! c)))"
  then show "(e = Error Ebadfd \<and> (ofd < 0 \<or> at_fd f (nat ofd) = None \<or> nfd < -1 \<or> int (f_nfd f) \<le> nfd) \<or>
        e = Error Enofd \<and> nfd = -1 \<and> (f_nfd f = 5000 \<or> \<not> room) \<and> (\<forall>i < f_nfd f. at_fd f i \<noteq> None)) \<and>
      sound k1 H \<and> table_becomes fg k (at_fd f) k1"
    using table_becomes_same [OF f] by (auto simp: usable_def)
qed simp_all

end
