(* ===== verification/Fd_Close.thy ===== *)
theory Fd_Close
  imports Fd_Use
begin

text \<open>Closing descriptors, and making and closing whole tables.\<close>

section \<open>One descriptor\<close>

lemma lower_max_ok: "i \<le> m \<Longrightarrow> lower_max fds i m \<le> m \<and> (\<forall>j < i. fds ! j \<noteq> None \<longrightarrow> j \<le> lower_max fds i m)"
proof (induction fds i m rule: lower_max.induct)
  case (2 fds i m)
  show ?case
  proof (cases "fds ! i = None")
    case True
    then have *: "lower_max fds i i \<le> i" "\<forall>j < i. fds ! j \<noteq> None \<longrightarrow> j \<le> lower_max fds i i" using 2(1) by auto
    have "j \<le> lower_max fds i i" if "j < Suc i" "fds ! j \<noteq> None" for j using that * True by (cases "j = i") auto
    then show ?thesis using True * 2(2) by auto
  qed (use 2 in auto)
qed simp

lemma clear_slot_simps [simp]: "f_fd (clear_slot i f) = (f_fd f)[i := None]" "f_nfd (clear_slot i f) = f_nfd f" "f_ref (clear_slot i f) = f_ref f"
  by (simp_all add: clear_slot_def Let_def)

lemma fd_ok_clear:
  assumes "fd_ok f" and "i < f_nfd f"
  shows "fd_ok (clear_slot i f)" and "f_maxfd (clear_slot i f) \<le> f_maxfd f"
proof -
  have m: "f_maxfd (clear_slot i f) \<le> f_maxfd f \<and> (\<forall>j < f_nfd f. (f_fd f)[i := None] ! j \<noteq> None \<longrightarrow> j \<le> f_maxfd (clear_slot i f))"
  proof (cases "i = f_maxfd f")
    case True
    have lt: "j < i" if "j < f_nfd f" "(f_fd f)[i := None] ! j \<noteq> None" for j
      using that assms True by (cases "j = i") (auto simp: fd_ok_def order_less_le)
    have eq: "f_maxfd (clear_slot i f) = lower_max ((f_fd f)[i := None]) i i" using True by (simp add: clear_slot_def Let_def)
    show ?thesis using lt lower_max_ok [of i i "(f_fd f)[i := None]", OF order_refl] unfolding eq True [symmetric] by blast
  next
    case False
    then show ?thesis using assms by (auto simp: clear_slot_def Let_def fd_ok_def nth_list_update)
  qed
  then show "fd_ok (clear_slot i f)" "f_maxfd (clear_slot i f) \<le> f_maxfd f" using assms by (auto simp: fd_ok_def)
qed

text \<open>The channels that are left keep their flags.\<close>

definition flags_kept :: "ns \<Rightarrow> ns \<Rightarrow> bool" where
  "flags_kept k k' \<longleftrightarrow> length (chans k') = length (chans k) \<and>
     (\<forall>c < length (chans k). k_ref (chans k' ! c) > 0 \<longrightarrow> k_ref (chans k ! c) > 0 \<and> k_flag (chans k' ! c) = k_flag (chans k ! c))"

lemma flags_kept_calm: "calm (k\<lparr>fgrps := fs\<rparr>) k' \<Longrightarrow> flags_kept k k'"
  unfolding calm_def flags_kept_def by (metis (no_types, lifting) Kchan.select_convs(6) Kchan.surjective Kchan.update_convs(1) ns.select_convs(1) ns.surjective ns.update_convs(11))

lemma flags_kept_refl [simp]: "flags_kept k k"
  by (auto simp: flags_kept_def)

lemma flags_kept_trans: "flags_kept k k' \<Longrightarrow> flags_kept k' k'' \<Longrightarrow> flags_kept k k''"
  by (auto simp: flags_kept_def)

lemma upd_upd [simp]: "upd i (\<lambda>_. a) (upd i (\<lambda>_. b) xs) = upd i (\<lambda>_. a) xs"
  by (cases "i < length xs"; cases "xs ! i") (simp_all add: upd_def list_update_beyond)

lemma table_becomes_trans: "table_becomes fg k t1 k1 \<Longrightarrow> table_becomes fg k1 t2 k2 \<Longrightarrow> table_becomes fg k t2 k2"
  unfolding table_becomes_def by (elim exE conjE) (auto simp: live_Some)

lemma fdclose_ok:
  assumes k: "sound k H" and f: "live (fgrps k) fg = Some f" and fd: "i < f_nfd f"
  shows "wp (fdclose fg (int i) flag) (\<lambda>_ k'. sound k' H \<and> flags_kept k k' \<and>
      (case at_fd f i of
         None \<Rightarrow> k' = k
       | Some c \<Rightarrow> if flag \<noteq> 0 \<and> k_flag (chans k ! c) AND flag = 0 then k' = k else fgrps k' = upd fg (\<lambda>_. clear_slot i f) (fgrps k)))
    (\<lambda>_ _. False) k"
proof -
  have fok: "fd_ok f" using k f by (auto simp: sound_def tables_ok_def)
  have len: "i < length (f_fd f)" "at_fd f i = f_fd f ! i" using fd fok by (auto simp: fd_ok_def live_def)
  show ?thesis
  proof (cases "f_fd f ! i")
    case None
    then show ?thesis using k f len by (simp add: fdclose_def wp_ns)
  next
    case (Some c)
    have at: "at_fd f i = Some c" using Some len by simp
    have "C c \<in># refs k + H" using table_in_refs [OF f at] by simp
    then have c: "c < length (chans k)" using held_chan k unfolding sound_def by blast
    show ?thesis
    proof (cases "flag \<noteq> 0 \<and> k_flag (chans k ! c) AND flag = 0")
      case True
      then show ?thesis using k f len Some c by (auto simp: fdclose_def wp_ns)
    next
      case False
      let ?k = "with_table k fg (clear_slot i f)"
      have mv: "opts_refs ((f_fd f)[i := None]) + (H + {#C c#}) = opts_refs (f_fd f) + H"
        using opts_refs_update [OF len(1), of None] Some by simp
      have s: "sound ?k (H + {#C c#})" using fd_ok_clear(1) [OF fok fd] mv by (intro sound_set_fgrp [OF k f]) simp_all
      have "wp (cclose c) (\<lambda>_ k'. sound k' H \<and> flags_kept k k' \<and> fgrps k' = upd fg (\<lambda>_. clear_slot i f) (fgrps k)) (\<lambda>_ _. False) ?k"
        using cclose_sound [OF s]
      proof (rule wp_conseq)
        fix u k' assume a: "sound k' H \<and> calm ?k k'"
        then show "sound k' H \<and> flags_kept k k' \<and> fgrps k' = upd fg (\<lambda>_. clear_slot i f) (fgrps k)"
          using flags_kept_calm [of _ k k'] by (auto simp: calm_def)
      qed simp
      moreover have "fdclose fg (int i) flag k = cclose c ?k"
        using f len Some c False by (auto simp: fdclose_def and_then_run obj_at_def chan_def seq_run set_fgrp_def modify_def upd_live)
      ultimately show ?thesis using Some len False by (auto simp: wp_def split: prod.splits sum.splits)
    qed
  qed
qed

lemma becomes_cleared:
  "live (fgrps k) fg = Some f \<Longrightarrow> i < length (f_fd f) \<Longrightarrow> fgrps k' = upd fg (\<lambda>_. clear_slot i f) (fgrps k) \<Longrightarrow> table_becomes fg k ((at_fd f)(i := None)) k'"
  using table_becomes_set [of k fg f "clear_slot i f" k'] live_fill [of i "f_fd f" None] by simp

lemma sysclose_ok:
  assumes k: "sound k H" and f: "live (fgrps k) fg = Some f"
  shows "wp (sysclose fg fd)
    (\<lambda>r k'. r = 0 \<and> 0 \<le> fd \<and> at_fd f (nat fd) \<noteq> None \<and> sound k' H \<and> table_becomes fg k ((at_fd f)(nat fd := None)) k')
    (\<lambda>e k'. e = Error Ebadfd \<and> (fd < 0 \<or> at_fd f (nat fd) = None) \<and> k' = k) k"
proof -
  have fok: "fd_ok f" using k f by (auto simp: sound_def tables_ok_def)
  show ?thesis
  proof (cases "slot f fd")
    case None
    then have "sysclose fg fd k = (Inl (Error Ebadfd), k)" using f by (simp add: sysclose_def fdtochan_def sem_simps)
    then show ?thesis using None slot_at_fd [OF fok, of fd] by (auto simp: wp_def split: if_splits)
  next
    case (Some c)
    then have fd: "0 \<le> fd" "at_fd f (nat fd) = Some c" "nat fd < f_nfd f" using slot_at_fd [OF fok, of fd] by (auto simp: slot_def split: if_splits)
    have inr: "C c \<in># refs k + H" using table_in_refs [OF f fd(2)] by simp
    have c: "c < length (chans k)" using held_chan(1) [OF _ inr] k unfolding sound_def by blast
    have "fdtochan fg fd (-1) False False k = (Inr c, k)" using Some f c by (simp add: fdtochan_def sem_simps)
    then have ex: "sysclose fg fd k = seq (fdclose fg (int (nat fd)) 0) (ret 0) k" using fd(1) by (simp add: sysclose_def and_then_run)
    have "wp (seq (fdclose fg (int (nat fd)) 0) (ret 0))
      (\<lambda>r k'. r = 0 \<and> 0 \<le> fd \<and> at_fd f (nat fd) \<noteq> None \<and> sound k' H \<and> table_becomes fg k ((at_fd f)(nat fd := None)) k')
      (\<lambda>e k'. e = Error Ebadfd \<and> (fd < 0 \<or> at_fd f (nat fd) = None) \<and> k' = k) k"
      unfolding wp_flow by (rule wp_conseq [OF fdclose_ok [OF k f fd(3)]])
        (use fd becomes_cleared [OF f] fok in \<open>auto simp: fd_ok_def\<close>)
    then show ?thesis unfolding wp_def ex .
  qed
qed

section \<open>Closing on exec\<close>

definition exec_keeps :: "ns \<Rightarrow> nat option \<Rightarrow> nat option" where
  "exec_keeps k x = (case x of None \<Rightarrow> None | Some c \<Rightarrow> if k_flag (chans k ! c) AND CCEXEC \<noteq> 0 then None else Some c)"

lemma exec_keeps_same:
  assumes "flags_kept k k'" and "sound k' H" and "live (fgrps k') fg = Some f" and "at_fd f j = x"
  shows "exec_keeps k' x = exec_keeps k x"
proof (cases x)
  case (Some c)
  have inr: "C c \<in># refs k' + H" using table_in_refs [OF assms(3)] assms(4) Some by auto
  have ok: "consistent k' H [] []" using assms(2) by (simp add: sound_def)
  have "c < length (chans k')" "k_ref (chans k' ! c) > 0" using held_chan(1,2) [OF ok inr] by auto
  then show ?thesis using Some assms(1) by (auto simp: exec_keeps_def flags_kept_def)
qed (simp add: exec_keeps_def)

lemma exec_close_ok:
  assumes "sound k H" and "live (fgrps k) fg = Some f" and "f_nfd f \<le> i + n"
  shows "wp (exec_close fg i n)
    (\<lambda>_ k'. sound k' H \<and> table_becomes fg k (\<lambda>j. if j < i then at_fd f j else exec_keeps k (at_fd f j)) k') (\<lambda>_ _. False) k"
  using assms
proof (induction n arbitrary: i k f)
  case 0
  have fok: "fd_ok f" using 0 by (auto simp: sound_def tables_ok_def)
  have "(\<lambda>j. if j < i then at_fd f j else exec_keeps k (at_fd f j)) = at_fd f"
    using 0(3) fok by (auto simp: fun_eq_iff live_def exec_keeps_def fd_ok_def)
  then show ?case using 0(1) table_becomes_same [OF 0(2) refl] by (simp add: wp_ret)
next
  case (Suc n)
  have fok: "fd_ok f" using Suc.prems by (auto simp: sound_def tables_ok_def)
  let ?t = "\<lambda>j. if j < i then at_fd f j else exec_keeps k (at_fd f j)"
  show ?case
  proof (cases "i \<le> f_maxfd f")
    case False
    then have "at_fd f j = None" if "\<not> j < i" for j using that fok by (auto simp: fd_ok_def live_def)
    then have "?t = at_fd f" by (auto simp: fun_eq_iff exec_keeps_def)
    then show ?thesis using False Suc.prems(1,2) table_becomes_same [OF Suc.prems(2) refl] by (simp add: wp_ns)
  next
    case True
    then have i: "i < f_nfd f" "i < length (f_fd f)" using fok by (auto simp: fd_ok_def)
    have step: "wp (exec_close fg (i + 1) n) (\<lambda>_ k'. sound k' H \<and> table_becomes fg k ?t k') (\<lambda>_ _. False) k1"
      if k1: "sound k1 H" "flags_kept k k1" "case at_fd f i of None \<Rightarrow> k1 = k
        | Some c \<Rightarrow> if CCEXEC \<noteq> 0 \<and> k_flag (chans k ! c) AND CCEXEC = 0 then k1 = k else fgrps k1 = upd fg (\<lambda>_. clear_slot i f) (fgrps k)" for k1
    proof -
      obtain f1 where f1: "fgrps k1 = upd fg (\<lambda>_. f1) (fgrps k)" "f_nfd f1 = f_nfd f" "f_ref f1 = f_ref f" "at_fd f1 = (at_fd f)(i := exec_keeps k (at_fd f i))"
      proof (cases "exec_keeps k (at_fd f i) = at_fd f i")
        case True
        then have "fgrps k1 = fgrps k" using k1(3) by (auto simp: exec_keeps_def split: option.splits if_splits)
        then show ?thesis using that [of f] True Suc.prems(2) by (simp add: upd_def live_Some) (metis list_update_id)
      next
        case False
        then have "fgrps k1 = upd fg (\<lambda>_. clear_slot i f) (fgrps k)" "exec_keeps k (at_fd f i) = None"
          using k1(3) by (auto simp: exec_keeps_def split: option.splits if_splits)
        then show ?thesis using that [of "clear_slot i f"] live_fill [OF i(2), of None] by simp
      qed
      have l1: "live (fgrps k1) fg = Some f1" using f1(1) Suc.prems(2) by simp
      have ek: "exec_keeps k1 (at_fd f1 j) = exec_keeps k (at_fd f1 j)" for j by (rule exec_keeps_same [OF k1(2,1) l1 refl])
      have "(if j < i + 1 then at_fd f1 j else exec_keeps k1 (at_fd f1 j)) = ?t j" for j
        using ek [of j] f1(4) by (cases "j = i") auto
      then have "(\<lambda>j. if j < i + 1 then at_fd f1 j else exec_keeps k1 (at_fd f1 j)) = ?t" by (rule ext)
      then have "wp (exec_close fg (i + 1) n) (\<lambda>_ k'. sound k' H \<and> table_becomes fg k1 ?t k') (\<lambda>_ _. False) k1"
        using Suc.IH [OF k1(1) l1, of "i + 1"] f1(2) Suc.prems(3) by simp
      then show ?thesis
        by (rule wp_conseq) (use table_becomes_trans [OF table_becomes_set [OF Suc.prems(2) f1(3,1)]] in auto)
    qed
    have "wp (seq (fdclose fg (int i) CCEXEC) (exec_close fg (i + 1) n)) (\<lambda>_ k'. sound k' H \<and> table_becomes fg k ?t k') (\<lambda>_ _. False) k"
      unfolding wp_flow by (rule wp_conseq [OF fdclose_ok [OF Suc.prems(1,2) i(1)]]) (use step in auto)
    then show ?thesis using True Suc.prems(2) by (simp add: wp_and_then wp_obj_at)
  qed
qed

lemma close_on_exec_ok:
  assumes k: "sound k H" and f: "live (fgrps k) fg = Some f"
  shows "wp (close_on_exec fg) (\<lambda>_ k'. sound k' H \<and> table_becomes fg k (\<lambda>j. exec_keeps k (at_fd f j)) k') (\<lambda>_ _. False) k"
  using exec_close_ok [OF assms, of 0 "f_nfd f"] f by (simp add: close_on_exec_def wp_and_then wp_obj_at)

end
