(* ===== verification/Fd_Tables.thy ===== *)
theory Fd_Tables
  imports Fd_Close
begin

unbundle bit_operations_syntax

text \<open>Whole tables: copying one for a new process, and closing one.\<close>

section \<open>Copying a table\<close>

text \<open>Channels that \<^verbatim>\<open>incref\<close> counts once more, each below the limit.\<close>

lemma incref_opts_ok:
  assumes "sound k H" and "\<forall>c. Some c \<in> set xs \<longrightarrow> C c \<in># refs k" and "\<forall>c. below_limit k (length xs) c"
  shows "wp (for_each incref_opt xs) (\<lambda>_ k'. sound k' (H + opts_refs xs) \<and> refs k' = refs k \<and> fgrps k' = fgrps k) (\<lambda>_ _. False) k"
  using assms
proof (induction xs arbitrary: k H)
  case Nil
  then show ?case by (simp add: wp_flow)
next
  case (Cons x xs)
  show ?case
  proof (cases x)
    case None
    have "below_limit k (length xs) c" for c using Cons.prems(3) by (fastforce simp: below_limit_def)
    then have "wp (for_each incref_opt xs) (\<lambda>_ k'. sound k' (H + opts_refs xs) \<and> refs k' = refs k \<and> fgrps k' = fgrps k) (\<lambda>_ _. False) k"
      using Cons.prems by (intro Cons.IH) auto
    moreover have "for_each incref_opt (x # xs) k = for_each incref_opt xs k" using None by (simp add: seq_run incref_opt_def ret_def)
    ultimately show ?thesis using None by (simp add: wp_def)
  next
    case (Some c)
    have c: "C c \<in># refs k + H" "below_limit k 1 c" using Cons.prems Some by (fastforce simp: below_limit_def)+
    define k1 where "k1 = put_ref (C c) (k_ref (chans k ! c) + 1) k"
    note i = incref_sound [OF Cons.prems(1) c, folded k1_def]
    have same: "refs k1 = refs k" "fgrps k1 = fgrps k" unfolding k1_def by (rule refs_put_ref) (simp add: put_ref.simps)
    have lim: "below_limit k1 (length xs) d" for d
      using Cons.prems(3) [rule_format, of d] by (cases "d = c") (auto simp: below_limit_def k1_def put_ref.simps)
    have "wp (for_each incref_opt xs) (\<lambda>_ k'. sound k' ((H + {#C c#}) + opts_refs xs) \<and> refs k' = refs k1 \<and> fgrps k' = fgrps k1) (\<lambda>_ _. False) k1"
      using Cons.prems(2) lim same by (intro Cons.IH [OF i(2)]) auto
    moreover have "incref_opt x k = (Inr (), k1)" using i(1) Some by (simp add: incref_opt_def and_then_run ret_def)
    then have "for_each incref_opt (x # xs) k = for_each incref_opt xs k1" by (simp add: seq_run)
    ultimately show ?thesis using Some unfolding wp_def by (simp add: same ac_simps split: prod.splits sum.splits)
  qed
qed

lemma live_append: "live (xs @ [x]) i = (if i = length xs then x else live xs i)"
  by (auto simp: live_def nth_append)

lemma live_beyond: "live xs (length xs) = None"
  by (simp add: live_def)

lemma sound_new_fgrp:
  assumes "sound k (H + opts_refs (f_fd f))" and "fd_ok f" and "f_ref f = 1"
  shows "sound (k\<lparr>fgrps := fgrps k @ [Some f]\<rparr>) (H + {#F (length (fgrps k))#})"
proof -
  let ?k = "k\<lparr>fgrps := fgrps k @ [Some f]\<rparr>" and ?n = "length (fgrps k)"
  have ok: "consistent k (H + opts_refs (f_fd f)) [] []" using assms(1) by (simp add: sound_def)
  have rf: "refs ?k = refs k + opts_refs (f_fd f)" by (simp add: refs_def fgrp_refs_def heads_def from_of_def [abs_def] ac_simps)
  have "get_ref (F ?n) k = None" by (simp add: get_ref.simps live_def)
  then have z: "count (refs k + (H + opts_refs (f_fd f))) (F ?n) = 0" by (rule counted_none [OF consistentD(1) [OF ok]])
  have "rc ?k x = rc k x + (if x = F ?n then 1 else 0)" for x
    using assms(3) by (cases x) (auto simp: rc_def get_ref.simps live_append live_beyond)
  then have "counted ?k (H + {#F ?n#})"
    using consistentD(1) [OF ok] unfolding counted_def rf by (simp add: ac_simps)
  then have "consistent ?k (H + {#F ?n#}) [] []" by (rule consistent_fgrps [OF ok])
  moreover have "tables_ok ?k" using assms(1,2) by (auto simp: sound_def tables_ok_def live_append split: if_splits)
  ultimately show ?thesis by (simp add: sound_def)
qed

lemma quantized_ok: "n \<le> quantized n" "DELTAFD dvd quantized n" "n \<le> m \<Longrightarrow> DELTAFD dvd m \<Longrightarrow> quantized n \<le> m"
proof -
  define q r where "q = n div DELTAFD" and "r = n mod DELTAFD"
  have n: "n = DELTAFD * q + r" "r < DELTAFD" unfolding q_def r_def by simp_all
  have z: "quantized n = (if r = 0 then DELTAFD * q else DELTAFD * (q + 1))" using n unfolding quantized_def r_def [symmetric] by auto
  show "n \<le> quantized n" using n z by auto
  show "DELTAFD dvd quantized n" unfolding z by (cases "r = 0") (simp_all only: if_True if_False dvd_triv_left simp_thms)
  assume "n \<le> m" "DELTAFD dvd m"
  then obtain j where j: "m = DELTAFD * j" by (elim dvdE)
  have "q + 1 \<le> j" if "r \<noteq> 0" using that n j \<open>n \<le> m\<close> by auto
  then have "DELTAFD * (q + 1) \<le> DELTAFD * j" if "r \<noteq> 0" using that by (intro mult_le_mono2) simp
  then show "quantized n \<le> m" using n z j \<open>n \<le> m\<close> by auto
qed

definition empty_table :: Fgrp where
  "empty_table = \<lparr>f_ref = 1, f_fd = replicate DELTAFD None, f_nfd = DELTAFD, f_maxfd = 0, f_exceed = 0\<rparr>"

definition copied_table :: "Fgrp \<Rightarrow> Fgrp" where
  "copied_table f = (let nfd = quantized (f_maxfd f + 1); shared = take (f_maxfd f + 1) (f_fd f) in
     \<lparr>f_ref = 1, f_fd = shared @ replicate (nfd - length shared) None, f_nfd = nfd, f_maxfd = f_maxfd f, f_exceed = 0\<rparr>)"

lemma live_take: "(\<And>i. n \<le> i \<Longrightarrow> i < length xs \<Longrightarrow> xs ! i = None) \<Longrightarrow> live (take n xs) = live xs"
  by (rule ext) (auto simp: live_def)

lemma copied_table_ok:
  assumes "fd_ok f"
  shows "fd_ok (copied_table f)" and "at_fd (copied_table f) = at_fd f" and "f_nfd (copied_table f) \<le> f_nfd f"
    and "opts_refs (f_fd (copied_table f)) = opts_refs (take (f_maxfd f + 1) (f_fd f))"
    and "DELTAFD dvd f_nfd (copied_table f)" and "f_maxfd f < f_nfd (copied_table f)" and "f_nfd (copied_table f) < f_maxfd f + 1 + DELTAFD"
    and "length (f_fd (copied_table f)) = f_nfd (copied_table f)"
proof -
  have m: "f_maxfd f + 1 \<le> f_nfd f" "f_nfd f = length (f_fd f)" "DELTAFD dvd f_nfd f" using assms by (auto simp: fd_ok_def)
  note q = quantized_ok(1,2) [of "f_maxfd f + 1"] quantized_ok(3) [OF m(1,3)]
  show "f_nfd (copied_table f) \<le> f_nfd f" using q by (simp add: copied_table_def Let_def)
  show "fd_ok (copied_table f)" using assms q m by (auto simp: fd_ok_def copied_table_def Let_def nth_append)
  show "at_fd (copied_table f) = at_fd f"
    using assms by (auto simp: copied_table_def Let_def live_append_None fd_ok_def intro!: live_take)
  show "opts_refs (f_fd (copied_table f)) = opts_refs (take (f_maxfd f + 1) (f_fd f))" by (simp add: copied_table_def Let_def)
  have n: "f_nfd (copied_table f) = quantized (f_maxfd f + 1)" by (simp add: copied_table_def Let_def)
  show "DELTAFD dvd f_nfd (copied_table f)" "f_maxfd f < f_nfd (copied_table f)" using q(1,2) unfolding n by simp_all
  show "f_nfd (copied_table f) < f_maxfd f + 1 + DELTAFD" unfolding n quantized_def by auto
  show "length (f_fd (copied_table f)) = f_nfd (copied_table f)" using q(1) m by (simp add: copied_table_def Let_def)
qed

text \<open>The new table, at the end of the list of tables, has the same channels.\<close>

lemma dupfgrp_ok:
  assumes k: "sound k H" and f: "live (fgrps k) fg = Some f" and lim: "\<forall>c. below_limit k (f_maxfd f + 1) c"
  shows "wp (dupfgrp room (Some fg))
    (\<lambda>i k'. room \<and> i = length (fgrps k) \<and> sound k' (H + {#F i#}) \<and> (\<exists>f'. fgrps k' = fgrps k @ [Some f'] \<and> at_fd f' = at_fd f \<and> f_ref f' = 1 \<and> f_nfd f' \<le> f_nfd f \<and>
       DELTAFD dvd f_nfd f' \<and> f_maxfd f < f_nfd f' \<and> f_nfd f' < f_maxfd f + 1 + DELTAFD \<and> length (f_fd f') = f_nfd f'))
    (\<lambda>e k'. \<not> room \<and> e = Error Enofgrp \<and> k' = k) k"
proof (cases room)
  case False
  then show ?thesis using f by (simp add: dupfgrp_def wp_ns)
next
  case True
  have fok: "fd_ok f" using k f by (auto simp: sound_def tables_ok_def)
  note ct = copied_table_ok [OF fok]
  let ?xs = "take (f_maxfd f + 1) (f_fd f)"
  have len: "length ?xs = f_maxfd f + 1" using fok by (simp add: fd_ok_def)
  have inr: "\<forall>c. Some c \<in> set ?xs \<longrightarrow> C c \<in># refs k"
  proof (intro allI impI)
    fix c assume "Some c \<in> set ?xs"
    then have "Some c \<in> set (f_fd f)" by (rule in_set_takeD)
    then obtain i where "i < length (f_fd f)" "f_fd f ! i = Some c" by (auto simp: in_set_conv_nth)
    then show "C c \<in># refs k" by (intro table_in_refs [OF f, of i]) (simp add: live_Some)
  qed
  have "wp (for_each incref_opt ?xs) (\<lambda>_ k'. sound k' (H + opts_refs ?xs) \<and> refs k' = refs k \<and> fgrps k' = fgrps k) (\<lambda>_ _. False) k"
    using lim len by (intro incref_opts_ok [OF k inr]) simp
  then obtain k1 where k1: "for_each incref_opt ?xs k = (Inr (), k1)" "sound k1 (H + opts_refs ?xs)" "fgrps k1 = fgrps k"
    unfolding wp_total_iff by auto
  let ?k = "k1\<lparr>fgrps := fgrps k1 @ [Some (copied_table f)]\<rparr>"
  have ex: "dupfgrp room (Some fg) k = (Inr (length (fgrps k)), ?k)"
    using True f k1(1,3)
    by (simp add: dupfgrp_def and_then_run obj_at_def seq_run Let_def new_fgrp_def fetch_def modify_def ret_def copied_table_def)
  have "sound k1 (H + opts_refs (f_fd (copied_table f)))" using k1(2) ct(4) by simp
  moreover have r1: "f_ref (copied_table f) = 1" by (simp add: copied_table_def Let_def)
  ultimately have "sound ?k (H + {#F (length (fgrps k))#})"
    using sound_new_fgrp [of k1 H "copied_table f"] ct(1) k1(3) by simp
  then show ?thesis unfolding wp_def ex using True k1(3) ct(2,3,5-8) r1 by simp
qed

lemma dupfgrp_none_ok:
  assumes "sound k H"
  shows "wp (dupfgrp room None)
    (\<lambda>i k'. i = length (fgrps k) \<and> sound k' (H + {#F i#}) \<and> fgrps k' = fgrps k @ [Some empty_table]) (\<lambda>_ _. False) k"
  using sound_new_fgrp [of k H empty_table] assms by (simp add: dupfgrp_def new_fgrp_def wp_flow wp_ns empty_table_def fd_ok_def)

section \<open>Closing in the background\<close>

lemma rc_clunk: "rc (k\<lparr>clunkactive := n\<rparr>) x = rc k x" "rc (k\<lparr>closeprocs := ps\<rparr>) x = rc k x" "rc (k\<lparr>clunkq := q\<rparr>) x = rc k x"
  "rc (k\<lparr>clunkrunning := n\<rparr>) x = rc k x"
  by (cases x; simp add: rc_def get_ref.simps)+

lemma consistent_clunk: "consistent (k\<lparr>clunkactive := n\<rparr>) H A B = consistent k H A B" "consistent (k\<lparr>closeprocs := ps\<rparr>) H A B = consistent k H A B"
  "consistent (k\<lparr>clunkrunning := n\<rparr>) H A B = consistent k H A B"
  by (simp_all add: consistent_def counted_def heads_def refs_def from_of_def [abs_def] rc_clunk)

text \<open>The last reference of a channel goes from its holder to the queue.\<close>

lemma consistent_queue: "consistent k H [c] B \<Longrightarrow> consistent (k\<lparr>clunkq := clunkq k @ [c]\<rparr>) H [] B"
proof -
  assume ok: "consistent k H [c] B"
  have "counted (k\<lparr>clunkq := clunkq k @ [c]\<rparr>) H"
    using consistentD(1) [OF ok] by (simp add: counted_def rc_clunk refs_def heads_def from_of_def [abs_def])
  then show ?thesis using consistentD(2-) [OF ok] unfolding consistent_def by (simp add: heads_def)
qed

lemma calm_clunk: "calm k k' \<Longrightarrow> calm k (k'\<lparr>clunkq := q\<rparr>)" "calm k k' \<Longrightarrow> calm k (k'\<lparr>clunkactive := n\<rparr>)" "calm k k' \<Longrightarrow> calm k (k'\<lparr>closeprocs := ps\<rparr>)"
  by (simp_all add: calm_def)

lemma ccloseq_ok:
  assumes "consistent k (H + {#C c#}) [] []"
  shows "wp (ccloseq woken c) (\<lambda>_ k'. consistent k' H [] [] \<and> calm k k') (\<lambda>_ _. False) k"
proof -
  note c = held_chan [OF assms, of c, simplified]
  define x where "x = k_ref (chans k ! c) - 1"
  have x: "k_ref (chans k ! c) = x + 1" "x \<ge> 0" "adec (x + 1) = x" using c(2) by (auto simp: x_def adec_def)
  define k1 where "k1 = put_ref (C c) x k"
  have ok: "consistent k1 H (if x = 0 then [c] else []) []" unfolding k1_def by (rule consistent_chan_ref [OF assms x(1,2)])
  have cl: "calm k k1" unfolding k1_def using c(1,2) x by (auto simp: calm_def put_ref.simps nth_list_update)
  have dec: "decref (C c) k = (Inr x, k1)" using c x by (simp add: decref_def get_ref.simps k1_def)
  let ?rest = "if x \<noteq> 0 then ret ()
       else seq (modify (\<lambda>k. k\<lparr>clunkq := clunkq k @ [c]\<rparr>))
         (if woken then ret ()
          else seq (modify (\<lambda>k. k\<lparr>clunkactive := ainc (clunkactive k)\<rparr>))
            (and_then (fetch clunkactive) (\<lambda>n.
             if n < 10 then modify (\<lambda>k. k\<lparr>closeprocs := closeprocs k @ [n]\<rparr>)
             else modify (\<lambda>k. k\<lparr>clunkactive := adec (clunkactive k)\<rparr>))))"
  have ex: "ccloseq woken c k = ?rest k1"
    using c x dec by (simp add: ccloseq_def and_then_run chan_def)
  have "wp ?rest (\<lambda>_ k'. consistent k' H [] [] \<and> calm k k') (\<lambda>_ _. False) k1"
    using ok cl consistent_queue [of k1 H c "[]"] by (auto simp: wp_flow consistent_clunk calm_clunk)
  then show ?thesis unfolding wp_def ex .
qed

text \<open>
  Closing in the background runs no code of a device and frees nothing: exactly the channels whose last reference went are in the queue, behind those that
  were there.
\<close>

definition handed_over :: "ns \<Rightarrow> ns \<Rightarrow> bool" where
  "handed_over k k' \<longleftrightarrow> devcloses k' = devcloses k \<and> freelist k' = freelist k \<and>
     (\<forall>c. k_ref (chans k ! c) = 0 \<longrightarrow> k_ref (chans k' ! c) = 0) \<and>
     (\<exists>cs. clunkq k' = clunkq k @ cs \<and> (\<forall>c. c \<in> set cs \<longleftrightarrow> k_ref (chans k ! c) \<noteq> 0 \<and> k_ref (chans k' ! c) = 0))"

lemma handed_over_refl: "clunkq k' = clunkq k \<Longrightarrow> chans k' = chans k \<Longrightarrow> devcloses k' = devcloses k \<Longrightarrow> freelist k' = freelist k \<Longrightarrow> handed_over k k'"
  by (auto simp: handed_over_def intro!: exI [of _ "[]"])

lemma handed_over_trans:
  assumes "handed_over k k1" and "handed_over k1 k2"
  shows "handed_over k k2"
proof -
  obtain cs ds where "clunkq k1 = clunkq k @ cs" "\<forall>c. c \<in> set cs \<longleftrightarrow> k_ref (chans k ! c) \<noteq> 0 \<and> k_ref (chans k1 ! c) = 0"
    "clunkq k2 = clunkq k1 @ ds" "\<forall>c. c \<in> set ds \<longleftrightarrow> k_ref (chans k1 ! c) \<noteq> 0 \<and> k_ref (chans k2 ! c) = 0"
    using assms by (auto simp: handed_over_def)
  then show ?thesis using assms by (auto simp: handed_over_def intro!: exI [of _ "cs @ ds"])
qed

lemma handed_over_table: "handed_over (k\<lparr>fgrps := x\<rparr>) k' = handed_over k k'"
  by (simp add: handed_over_def)

lemma nth_upd: "(xs[i := x]) ! j = (if j = i \<and> i < length xs then x else xs ! j)"
  by (cases "i < length xs") (auto simp: nth_list_update list_update_beyond)

lemma ccloseq_hands: "ccloseq woken c k = (Inr (), k') \<Longrightarrow> handed_over k k'"
  by (auto simp: ccloseq_def chan_def decref_def get_ref.simps put_ref.simps and_then_def seq_def modify_def fetch_def ret_def raise_def
      handed_over_def adec_def nth_upd split: if_splits prod.splits)

lemma drop_slot_hands: "drop_slot fg (ccloseq woken) i k = (Inr (), k') \<Longrightarrow> handed_over k k'"
  by (auto simp: drop_slot_def obj_at_def and_then_def seq_def set_fgrp_def modify_def ret_def raise_def split: if_splits option.splits
      dest!: ccloseq_hands simp: handed_over_table) (auto intro: handed_over_refl)

lemma drop_slots_hand: "for_each (drop_slot fg (ccloseq woken)) is k = (Inr (), k') \<Longrightarrow> handed_over k k'"
proof (induction "is" arbitrary: k)
  case (Cons i js)
  then obtain k1 where "drop_slot fg (ccloseq woken) i k = (Inr (), k1)" "for_each (drop_slot fg (ccloseq woken)) js k1 = (Inr (), k')"
    by (auto simp: seq_def and_then_def split: prod.splits sum.splits)
  then show ?case using drop_slot_hands Cons.IH handed_over_trans by blast
qed (simp add: ret_def handed_over_refl)

text \<open>What a routine that gives up a reference to a channel promises, and what closing slots of a table with it does.\<close>

locale closer =
  fixes close :: "nat \<Rightarrow> unit kns"
  assumes close_ok: "sound k (H + {#C c#}) \<Longrightarrow> wp (close c) (\<lambda>_ k'. sound k' H \<and> calm k k') (\<lambda>_ _. False) k"
begin

lemma drop_slot_ok:
  assumes k: "sound k H" and f: "live (fgrps k) fg = Some f" and i: "i < f_nfd f"
  shows "wp (drop_slot fg close i) (\<lambda>_ k'. sound k' H \<and> fgrps k' = upd fg (\<lambda>f. f\<lparr>f_fd := (f_fd f)[i := None]\<rparr>) (fgrps k)) (\<lambda>_ _. False) k"
proof -
  have fok: "fd_ok f" using k f by (auto simp: sound_def tables_ok_def)
  have len: "i < length (f_fd f)" using i fok by (auto simp: fd_ok_def)
  show ?thesis
  proof (cases "f_fd f ! i")
    case None
    then have "f_fd f = (f_fd f)[i := None]" by (metis list_update_id)
    then have "upd fg (\<lambda>f. f\<lparr>f_fd := (f_fd f)[i := None]\<rparr>) (fgrps k) = fgrps k" using f by (simp add: upd_def live_Some) (metis list_update_id)
    then show ?thesis using None k f len by (simp add: drop_slot_def wp_ns)
  next
    case (Some c)
    let ?f = "f\<lparr>f_fd := (f_fd f)[i := None]\<rparr>" and ?k = "k\<lparr>fgrps := upd fg (\<lambda>f. f\<lparr>f_fd := (f_fd f)[i := None]\<rparr>) (fgrps k)\<rparr>"
    have e: "?k = with_table k fg ?f" using f by (simp add: upd_live)
    have "opts_refs ((f_fd f)[i := None]) + (H + {#C c#}) = opts_refs (f_fd f) + H" using opts_refs_update [OF len, of None] Some by simp
    moreover have "fd_ok ?f" using fok len by (auto simp: fd_ok_def nth_list_update split: if_splits)
    ultimately have s: "sound ?k (H + {#C c#})" unfolding e by (intro sound_set_fgrp [OF k f]) simp_all
    have "drop_slot fg close i k = close c ?k" using Some f len by (simp add: drop_slot_def and_then_run obj_at_def seq_run set_fgrp_def modify_def)
    then have "wp (drop_slot fg close i) Q E k = wp (close c) Q E ?k" for Q E by (rule wp_same_run)
    then show ?thesis using wp_conseq [OF close_ok [OF s]] by (simp add: calm_def)
  qed
qed

lemma drop_slots_ok:
  assumes "sound k H" and "live (fgrps k) fg = Some f" and "\<forall>i\<in>set is. i < f_nfd f"
  shows "wp (for_each (drop_slot fg close) is) (\<lambda>_ k'. sound k' H \<and> (\<exists>f'. fgrps k' = upd fg (\<lambda>_. f') (fgrps k) \<and>
      at_fd f' = (\<lambda>j. if j \<in> set is then None else at_fd f j) \<and> f_ref f' = f_ref f \<and> f_nfd f' = f_nfd f)) (\<lambda>_ _. False) k"
  using assms
proof (induction "is" arbitrary: k f)
  case Nil
  then show ?case by (simp add: wp_flow) (intro exI [of _ f], simp add: upd_def live_Some, metis list_update_id)
next
  case (Cons i js)
  have fok: "fd_ok f" using Cons.prems by (auto simp: sound_def tables_ok_def)
  let ?f = "f\<lparr>f_fd := (f_fd f)[i := None]\<rparr>"
  have "wp (drop_slot fg close i) (\<lambda>_ k'. sound k' H \<and> fgrps k' = upd fg (\<lambda>_. ?f) (fgrps k)) (\<lambda>_ _. False) k"
    using drop_slot_ok [OF Cons.prems(1,2), of i] Cons.prems(2,3) by (simp add: upd_live)
  then obtain k1 where k1: "drop_slot fg close i k = (Inr (), k1)" "sound k1 H" "fgrps k1 = upd fg (\<lambda>_. ?f) (fgrps k)"
    unfolding wp_total_iff by auto
  have l1: "live (fgrps k1) fg = Some ?f" using k1(3) Cons.prems(2) by simp
  have at: "at_fd ?f = (at_fd f)(i := None)" using Cons.prems(3) fok by (simp add: live_fill fd_ok_def)
  have "wp (for_each (drop_slot fg close) js) (\<lambda>_ k'. sound k' H \<and> (\<exists>f'. fgrps k' = upd fg (\<lambda>_. f') (fgrps k1) \<and>
      at_fd f' = (\<lambda>j. if j \<in> set js then None else at_fd ?f j) \<and> f_ref f' = f_ref ?f \<and> f_nfd f' = f_nfd ?f)) (\<lambda>_ _. False) k1"
    using Cons.prems(3) by (intro Cons.IH [OF k1(2) l1]) simp
  moreover have "(\<lambda>j. if j \<in> set js then None else at_fd ?f j) = (\<lambda>j. if j \<in> set (i # js) then None else at_fd f j)" unfolding at by auto
  ultimately have "wp (for_each (drop_slot fg close) js) (\<lambda>_ k'. sound k' H \<and> (\<exists>f'. fgrps k' = upd fg (\<lambda>_. f') (fgrps k) \<and>
      at_fd f' = (\<lambda>j. if j \<in> set (i # js) then None else at_fd f j) \<and> f_ref f' = f_ref f \<and> f_nfd f' = f_nfd f)) (\<lambda>_ _. False) k1"
    by (simp add: k1(3))
  moreover have "for_each (drop_slot fg close) (i # js) k = for_each (drop_slot fg close) js k1" using k1(1) by (simp add: seq_run)
  ultimately show ?case by (simp add: wp_def)
qed

end

lemma sound_ccloseq: "sound k (H + {#C c#}) \<Longrightarrow> wp (ccloseq woken c) (\<lambda>_ k'. sound k' H \<and> calm k k') (\<lambda>_ _. False) k"
  using ccloseq_ok [of k H c woken] sound_calm unfolding sound_def [of k "H + {#C c#}"] by (auto elim!: wp_conseq simp: sound_def)

interpretation now: closer cclose
  by unfold_locales (rule cclose_sound)

interpretation later: closer "ccloseq woken" for woken
  by unfold_locales (rule sound_ccloseq)

section \<open>Closing a table\<close>

lemma sound_put_F:
  assumes "sound k H'" and "counted (put_ref (F fg) n k) H"
  shows "sound (put_ref (F fg) n k) H"
proof -
  have "consistent k H' [] []" using assms(1) by (simp add: sound_def)
  moreover have "fd_ok (f\<lparr>f_ref := n\<rparr>) = fd_ok f" for f by (simp add: fd_ok_def)
  ultimately show ?thesis using consistent_put_other(1) [OF _ assms(2), of H'] assms(1)
    by (auto simp: sound_def tables_ok_def put_ref.simps split: if_splits)
qed

lemma decref_F_ok:
  assumes "sound k (H + {#F fg#})"
  obtains f where "live (fgrps k) fg = Some f" and "f_ref f \<ge> 1" and "decref (F fg) k = (Inr (f_ref f - 1), put_ref (F fg) (f_ref f - 1) k)"
    and "sound (put_ref (F fg) (f_ref f - 1) k) H"
proof -
  have ok: "counted k (H + {#F fg#})" using assms by (simp add: sound_def consistent_def)
  obtain n where n: "get_ref (F fg) k = Some n" "n \<ge> 1" "adec n = n - 1" using counted_held [OF ok, of "F fg"] by auto
  obtain f where f: "live (fgrps k) fg = Some f" "f_ref f = n" using n(1) by (auto simp: get_ref.simps)
  have "decref (F fg) k = (Inr (f_ref f - 1), put_ref (F fg) (f_ref f - 1) k)" using n f by (simp add: decref_def)
  moreover have "sound (put_ref (F fg) (f_ref f - 1) k) H" using sound_put_F [OF assms counted_drop [OF ok n(1)]] f(2) by simp
  ultimately show ?thesis using that f n(2) by simp
qed

lemma opts_refs_empty: "live xs = (\<lambda>_. None) \<Longrightarrow> opts_refs xs = {#}"
proof (induction xs)
  case (Cons x xs)
  have "x = None" using fun_cong [OF Cons.prems, of 0] by (simp add: live_def)
  moreover have "live xs = (\<lambda>_. None)"
  proof
    fix i show "live xs i = None" using fun_cong [OF Cons.prems, of "Suc i"] by (simp add: live_def split: if_splits)
  qed
  ultimately show ?case using Cons.IH by simp
qed simp

lemma sound_free_table:
  assumes "sound k H" and f: "live (fgrps k) fg = Some f" and "f_ref f = 0" and "at_fd f = (\<lambda>_. None)"
  shows "sound (k\<lparr>fgrps := (fgrps k)[fg := None]\<rparr>) H"
proof -
  let ?k = "k\<lparr>fgrps := (fgrps k)[fg := None]\<rparr>"
  have ok: "consistent k H [] []" using assms(1) by (simp add: sound_def)
  have l: "fg < length (fgrps k)" "fgrps k ! fg = Some f" using f by (simp_all add: live_Some)
  have "refs ?k = refs k" using refs_fgrp [OF l(1), of None] l(2) opts_refs_empty [OF assms(4)] by (simp add: fgrp_refs_def)
  moreover have "rc ?k x = rc k x" for x using l f assms(3) by (cases x) (auto simp: rc_def get_ref.simps live_update)
  ultimately have "counted ?k H" using consistentD(1) [OF ok] by (simp add: counted_def)
  then have "consistent ?k H [] []" by (rule consistent_fgrps [OF ok])
  moreover have "tables_ok ?k" using assms(1) by (auto simp: sound_def tables_ok_def live_update split: if_splits)
  ultimately show ?thesis by (simp add: sound_def)
qed

lemma all_slots:
  assumes "fd_ok f"
  shows "(\<lambda>j. if j \<in> set [0..<f_maxfd f + 1] then None else at_fd f j) = (\<lambda>_. None)"
  using assms by (auto simp: fun_eq_iff fd_ok_def live_def)

text \<open>The last process that shares a table closes it; the others only leave it.\<close>

lemma closefgrp_ok:
  assumes k: "sound k (H + {#F fg#})" and f: "live (fgrps k) fg = Some f"
  shows "wp (closefgrp (Some fg)) (\<lambda>_ k'. sound k' H \<and>
      fgrps k' = (if f_ref f = 1 then (fgrps k)[fg := None] else upd fg (\<lambda>f. f\<lparr>f_ref := f_ref f - 1\<rparr>) (fgrps k))) (\<lambda>_ _. False) k"
proof -
  obtain g where "live (fgrps k) fg = Some g" and d: "g = f \<Longrightarrow> f_ref f \<ge> 1"
    "g = f \<Longrightarrow> decref (F fg) k = (Inr (f_ref f - 1), put_ref (F fg) (f_ref f - 1) k)" "g = f \<Longrightarrow> sound (put_ref (F fg) (f_ref f - 1) k) H"
    using decref_F_ok [OF k] by metis
  then have g: "g = f" using f by simp
  let ?f = "f\<lparr>f_ref := f_ref f - 1\<rparr>"
  define k1 where "k1 = put_ref (F fg) (f_ref f - 1) k"
  have d: "decref (F fg) k = (Inr (f_ref f - 1), k1)" and k1: "sound k1 H" using d(2,3) g unfolding k1_def by auto
  have fg1: "fgrps k1 = upd fg (\<lambda>_. ?f) (fgrps k)" using f by (simp add: k1_def put_ref.simps upd_live)
  have l1: "live (fgrps k1) fg = Some ?f" using fg1 f by simp
  have fok: "fd_ok ?f" using k1 l1 unfolding sound_def tables_ok_def by blast
  show ?thesis
  proof (cases "f_ref f = 1")
    case False
    then have "closefgrp (Some fg) k = (Inr (), k1)" using d by (simp add: closefgrp_def and_then_run ret_def)
    then show ?thesis using False k1 fg1 f by (simp add: wp_def upd_live)
  next
    case True
    have "wp (for_each (drop_slot fg cclose) [0..<f_maxfd ?f + 1]) (\<lambda>_ k'. sound k' H \<and> (\<exists>f'. fgrps k' = upd fg (\<lambda>_. f') (fgrps k1) \<and>
      at_fd f' = (\<lambda>j. if j \<in> set [0..<f_maxfd ?f + 1] then None else at_fd ?f j) \<and> f_ref f' = f_ref ?f \<and> f_nfd f' = f_nfd ?f)) (\<lambda>_ _. False) k1"
      using fok by (intro now.drop_slots_ok [OF k1 l1]) (auto simp: fd_ok_def)
    then obtain k2 f2 where k2: "for_each (drop_slot fg cclose) [0..<f_maxfd ?f + 1] k1 = (Inr (), k2)" "sound k2 H"
      "fgrps k2 = upd fg (\<lambda>_. f2) (fgrps k1)" "at_fd f2 = (\<lambda>_. None)" "f_ref f2 = 0"
      unfolding wp_total_iff all_slots [OF fok] using True by auto
    have l2: "live (fgrps k2) fg = Some f2" using k2(3) l1 by simp
    have "closefgrp (Some fg) k = (Inr (), k2\<lparr>fgrps := (fgrps k2)[fg := None]\<rparr>)"
      using d True l1 k2(1) by (simp add: closefgrp_def and_then_run obj_at_def seq_run modify_def)
    moreover have "(fgrps k2)[fg := None] = (fgrps k)[fg := None]" using k2(3) fg1 by (simp add: upd_def)
    ultimately show ?thesis using sound_free_table [OF k2(2) l2 k2(5,4)] True by (simp add: wp_def)
  qed
qed

lemma forceclosefgrp_ok:
  assumes k: "sound k H" and f: "live (fgrps k) fg = Some f"
  shows "\<exists>k'. forceclosefgrp woken True (Some fg) k = (Inr (), k') \<and> sound k' H \<and> table_becomes fg k (\<lambda>_. None) k' \<and> handed_over k k'"
proof -
  have fok: "fd_ok f" using k f by (auto simp: sound_def tables_ok_def)
  then have "\<forall>i\<in>set [0..<f_maxfd f + 1]. i < f_nfd f" by (auto simp: fd_ok_def)
  from later.drop_slots_ok [OF k f this, of woken]
  have "wp (for_each (drop_slot fg (ccloseq woken)) [0..<f_maxfd f + 1]) (\<lambda>_ k'. sound k' H \<and> table_becomes fg k (\<lambda>_. None) k') (\<lambda>_ _. False) k"
    unfolding all_slots [OF fok] by (rule wp_conseq) (use f in \<open>auto simp: table_becomes_def\<close>)
  then show ?thesis using f drop_slots_hand unfolding wp_total_iff by (fastforce simp: forceclosefgrp_def and_then_run obj_at_def)
qed

section \<open>Closing from outside\<close>

text \<open>The descriptors that \<^verbatim>\<open>procctlclosefiles\<close> closes: all but the highest when it is to close all of them.\<close>

definition ctl_closes :: "Fgrp \<Rightarrow> bool \<Rightarrow> int \<Rightarrow> nat list" where
  "ctl_closes f all_files fd = (if all_files then [0..<f_maxfd f] else [nat fd])"

lemma procctlclosefiles_ok:
  assumes k: "sound k H" and h: "F fg \<in># H" and f: "live (fgrps k) fg = Some f" and lim: "f_ref f < 2 ^ 31 - 1"
    and fd: "\<not> all_files \<Longrightarrow> 0 \<le> fd \<and> fd < int (f_nfd f)"
  shows "wp (procctlclosefiles fg all_files fd)
    (\<lambda>_ k'. sound k' H \<and> table_becomes fg k (\<lambda>j. if j \<in> set (ctl_closes f all_files fd) then None else at_fd f j) k') (\<lambda>_ _. False) k"
proof -
  have ok: "counted k H" using k by (simp add: sound_def consistent_def)
  have g: "get_ref (F fg) k = Some (f_ref f)" using f by (simp add: get_ref.simps)
  have pos: "f_ref f \<ge> 1" using counted_held [OF ok, of "F fg"] g h by (metis option.inject union_iff)
  let ?f = "f\<lparr>f_ref := f_ref f + 1\<rparr>" and ?is = "ctl_closes f all_files fd"
  define k1 where "k1 = put_ref (F fg) (f_ref f + 1) k"
  have inc: "incref (F fg) k = (Inr (f_ref f + 1), k1)" using f lim pos by (simp add: incref_def ainc_def k1_def get_ref.simps)
  have k1: "sound k1 (H + {#F fg#})" unfolding k1_def by (rule sound_put_F [OF k counted_add [OF ok g]])
  have fg1: "fgrps k1 = upd fg (\<lambda>_. ?f) (fgrps k)" using f by (simp add: k1_def put_ref.simps upd_live)
  have l1: "live (fgrps k1) fg = Some ?f" using fg1 f by simp
  have fok: "fd_ok f" using k f unfolding sound_def tables_ok_def by blast
  have "\<forall>i\<in>set ?is. i < f_nfd ?f" using fok fd by (auto simp: fd_ok_def ctl_closes_def split: if_splits)
  from now.drop_slots_ok [OF k1 l1 this] obtain u k2 f2 where k2: "for_each (drop_slot fg cclose) ?is k1 = (Inr u, k2)" "sound k2 (H + {#F fg#})"
      "fgrps k2 = upd fg (\<lambda>_. f2) (fgrps k1)" "at_fd f2 = (\<lambda>j. if j \<in> set ?is then None else at_fd ?f j)" "f_ref f2 = f_ref ?f"
    unfolding wp_total_iff by blast
  have l2: "live (fgrps k2) fg = Some f2" using k2(3) l1 by simp
  have "procctlcloseone fg (int i) = drop_slot fg cclose i" for i by (simp add: procctlcloseone_def)
  then have loop: "(if all_files then for_each (\<lambda>i. procctlcloseone fg (int i)) [0..<f_maxfd ?f] else procctlcloseone fg fd) k1 = (Inr (), k2)"
    using k2(1) fd by (auto simp: ctl_closes_def procctlcloseone_def seq_def and_then_def ret_def split: if_splits prod.splits sum.splits)
  have ex: "procctlclosefiles fg all_files fd k = closefgrp (Some fg) k2"
    using inc l1 loop by (simp add: procctlclosefiles_def and_then_run obj_at_def seq_run split del: if_split)
  have "wp (closefgrp (Some fg)) (\<lambda>_ k'. sound k' H \<and> fgrps k' = upd fg (\<lambda>f. f\<lparr>f_ref := f_ref f - 1\<rparr>) (fgrps k2)) (\<lambda>_ _. False) k2"
    using closefgrp_ok [OF k2(2) l2] k2(5) pos by simp
  moreover have "table_becomes fg k (\<lambda>j. if j \<in> set ?is then None else at_fd f j) k'"
    if "fgrps k' = upd fg (\<lambda>f. f\<lparr>f_ref := f_ref f - 1\<rparr>) (fgrps k2)" for k'
  proof -
    have "fgrps k' = upd fg (\<lambda>_. f2\<lparr>f_ref := f_ref f2 - 1\<rparr>) (fgrps k)" using that k2(3) fg1 f by (simp add: upd_def live_Some)
    then show ?thesis using table_becomes_set [OF f, of "f2\<lparr>f_ref := f_ref f2 - 1\<rparr>" k'] k2(4,5) by (simp cong: if_cong)
  qed
  ultimately have "wp (closefgrp (Some fg)) (\<lambda>_ k'. sound k' H \<and> table_becomes fg k (\<lambda>j. if j \<in> set ?is then None else at_fd f j) k') (\<lambda>_ _. False) k2"
    by (auto elim: wp_conseq)
  then show ?thesis unfolding wp_def ex .
qed

end
