(* ===== verification/Fd_New.thy ===== *)
theory Fd_New
  imports Fd_Tables
begin

unbundle bit_operations_syntax

text \<open>New channels, the processes that close channels in the background, and two descriptors at once.\<close>

section \<open>New channels\<close>

lemma chan_refs_init [simp]: "chan_refs (chan_init r) = opt_refs C (k_umc r)"
  by (simp add: chan_refs_def chan_init_def)

lemma chan_init_simps [simp]: "k_ref (chan_init r) = 1" "k_flag (chan_init r) = 0"
  by (simp_all add: chan_init_def)

lemma no_refs_umc: "chan_refs r = {#} \<Longrightarrow> k_umc r = None"
  by (auto simp: chan_refs_def split: option.splits)

lemma recycle_ok:
  assumes ok: "consistent k H [] []" and fl: "freelist k = c # cs"
  shows "consistent (k\<lparr>freelist := cs, chans := (chans k)[c := chan_init (chans k ! c)]\<rparr>) (H + {#C c#}) [] []" (is "consistent ?k _ _ _")
proof -
  have c: "c < length (chans k)" "k_ref (chans k ! c) = 0" using consistentD(3) [OF ok] fl by auto
  have r: "chan_refs (chans k ! c) = {#}" using consistentD(5) [OF ok, of c] fl by simp
  have "refs (k\<lparr>chans := (chans k)[c := chan_init (chans k ! c)]\<rparr>) = refs k" using refs_chan [OF c(1), of "chan_init (chans k ! c)"] r no_refs_umc [OF r] by simp
  then have rf: "refs ?k = refs k" by (simp add: refs_def heads_def from_of_def [abs_def])
  have "rc ?k x = rc k x + (if x = C c then 1 else 0)" for x using c by (cases x) (auto simp: rc_def get_ref.simps)
  then have cnt: "counted ?k (H + {#C c#})" using consistentD(1) [OF ok] rf by (simp add: counted_def)
  have d: "distinct (c # cs @ clunkq k)" using consistentD(2) [OF ok] fl by simp
  have "{d. d < length (chans k) \<and> k_ref ((chans k)[c := chan_init (chans k ! c)] ! d) = 0} = {d. d < length (chans k) \<and> k_ref (chans k ! d) = 0} - {c}"
    using c by (auto simp: nth_list_update)
  then have "set (cs @ clunkq k) = {d. d < length (chans k) \<and> k_ref ((chans k)[c := chan_init (chans k ! c)] ! d) = 0}"
    using consistentD(3) [OF ok] fl d by auto
  moreover have "(k_flag ((chans k)[c := chan_init (chans k ! c)] ! d) AND CFREE \<noteq> 0) = (d \<in> set cs)" if "d < length (chans k)" for d
    using consistentD(4) [OF ok that] fl d c by (cases "d = c") auto
  moreover have "chan_refs ((chans k)[c := chan_init (chans k ! c)] ! d) = {#}" if "d \<in> set cs" for d
    using consistentD(5) [OF ok, of d] fl that d by (cases "d = c") auto
  ultimately show ?thesis using cnt d consistentD(6,7) [OF ok] unfolding consistent_def by (simp add: heads_def)
qed

lemma fresh_ok:
  assumes ok: "consistent k H [] []" and fl: "freelist k = []" and r: "k_ref r = 1" "k_flag r = 0" "chan_refs r = {#}"
  shows "consistent (k\<lparr>lastfid := i, chans := chans k @ [r]\<rparr>) (H + {#C (length (chans k))#}) [] []" (is "consistent ?k _ _ _")
proof -
  let ?n = "length (chans k)"
  have rf: "refs ?k = refs k" using r(3) by (simp add: refs_def heads_def from_of_def [abs_def])
  have "get_ref (C ?n) k = None" by (simp add: get_ref.simps)
  then have "count (refs k + H) (C ?n) = 0" by (rule counted_none [OF consistentD(1) [OF ok]])
  moreover have "rc ?k x = (if x = C ?n then 1 else rc k x)" for x using r(1) by (cases x) (auto simp: rc_def get_ref.simps nth_append)
  ultimately have cnt: "counted ?k (H + {#C ?n#})" using consistentD(1) [OF ok] rf by (simp add: counted_def)
  have "{d. d < Suc ?n \<and> k_ref ((chans k @ [r]) ! d) = 0} = {d. d < ?n \<and> k_ref (chans k ! d) = 0}"
    using r(1) by (auto simp: nth_append less_Suc_eq)
  moreover have "k_flag ((chans k @ [r]) ! d) AND CFREE = 0" if "d < Suc ?n" for d
    using consistentD(4) [OF ok, of d] fl that r(2) by (cases "d = ?n") (auto simp: nth_append)
  ultimately show ?thesis using cnt consistentD(2,3,6,7) [OF ok] fl unfolding consistent_def by (simp add: heads_def)
qed

lemma newchan_ok:
  assumes "sound k H"
  shows "wp newchan (\<lambda>c k'. sound k' (H + {#C c#}) \<and> C c \<notin># refs k + H \<and> fgrps k' = fgrps k \<and>
      k_ref (chans k' ! c) = 1 \<and> (\<forall>d. d < length (chans k) \<longrightarrow> d \<noteq> c \<longrightarrow> chans k' ! d = chans k ! d)) (\<lambda>_ _. False) k"
proof -
  have ok: "consistent k H [] []" using assms by (simp add: sound_def)
  show ?thesis
  proof (cases "freelist k")
    case (Cons c cs)
    let ?k = "k\<lparr>freelist := cs, chans := (chans k)[c := chan_init (chans k ! c)]\<rparr>"
    have c: "c < length (chans k)" "k_ref (chans k ! c) = 0" using consistentD(3) [OF ok] Cons by auto
    have nc: "C c \<notin># refs k + H" using held_chan(2) [OF ok, of c] c(2) by fastforce
    have ex: "newchan k = (Inr c, ?k)" using Cons by (simp add: newchan_def sem_simps set_chan_def)
    have "sound ?k (H + {#C c#})" using recycle_ok [OF ok Cons] assms by (simp add: sound_def tables_ok_def)
    then show ?thesis unfolding wp_def ex using c nc by simp
  next
    case Nil
    let ?n = "length (chans k)" and ?r = "chan_init (zero_chan\<lparr>k_fid := ainc (lastfid k)\<rparr>)"
    let ?k = "k\<lparr>lastfid := ainc (lastfid k), chans := chans k @ [?r]\<rparr>"
    have nc: "C ?n \<notin># refs k + H" using held_chan(1) [OF ok, of ?n] by fastforce
    have ex: "newchan k = (Inr ?n, ?k)" using Nil by (simp add: newchan_def sem_simps set_chan_def)
    have "chan_refs ?r = {#}" by (simp add: zero_chan_def)
    then have "sound ?k (H + {#C ?n#})" using fresh_ok [OF ok Nil, of ?r] assms by (simp add: sound_def tables_ok_def)
    then show ?thesis unfolding wp_def ex using nc by (simp add: nth_append)
  qed
qed

section \<open>The processes that close channels\<close>

lemma consistent_take: "consistent k H [] [] \<Longrightarrow> clunkq k = c # q \<Longrightarrow> consistent (k\<lparr>clunkq := q\<rparr>) H [c] []"
proof -
  assume ok: "consistent k H [] []" and q: "clunkq k = c # q"
  have "counted (k\<lparr>clunkq := q\<rparr>) H" using consistentD(1) [OF ok] by (simp add: counted_def rc_clunk refs_def heads_def from_of_def [abs_def])
  then show ?thesis using consistentD(2-) [OF ok] q unfolding consistent_def by (auto simp: heads_def)
qed

lemma sound_clunk: "sound (k\<lparr>clunkactive := n\<rparr>) H = sound k H" "sound (k\<lparr>closeprocs := ps\<rparr>) H = sound k H" "sound (k\<lparr>clunkrunning := i\<rparr>) H = sound k H"
  by (simp_all add: sound_def tables_ok_def consistent_clunk)

lemma closeproc_ok:
  assumes "sound k H"
  shows "wp (closeproc n) (\<lambda>_ k'. sound k' H \<and> fgrps k' = fgrps k) (\<lambda>_ _. False) k"
proof (cases "clunkq k")
  case Nil
  then show ?thesis using assms by (simp add: closeproc_def wp_flow)
next
  case (Cons c q)
  have ok: "consistent k H [] []" using assms by (simp add: sound_def)
  define k1 where "k1 = k\<lparr>clunkq := q, devcloses := devcloses k @ (if k_dev (chans k ! c) \<noteq> None then [c] else [])\<rparr>"
  have k1: "consistent k1 H [c] []" unfolding k1_def using consistent_take [OF ok Cons] by simp
  have "wp (chanfree c) (\<lambda>_ k'. consistent k' H [] [] \<and> calm k1 k') (\<lambda>_ _. False) k1"
    unfolding chanfree_def using k1 by (intro run_work_ok) simp
  then have "wp (chanfree c) (\<lambda>_ k'. sound k' H \<and> fgrps k' = fgrps k) (\<lambda>_ _. False) k1"
    by (rule wp_conseq) (use assms in \<open>auto simp: sound_def tables_ok_def calm_def k1_def\<close>)
  moreover have "wp (closeproc n) Q E k = wp (chanfree c) (\<lambda>_. wp (seq (modify (\<lambda>k. k\<lparr>clunkrunning := adec (clunkrunning k)\<rparr>))
      (and_then (fetch clunkrunning) (\<lambda>running.
       if running \<ge> 5 \<and> n > 5
       then seq (modify (\<lambda>k. k\<lparr>clunkactive := adec (clunkactive k), closeprocs := remove1 n (closeprocs k)\<rparr>)) (ret True)
       else seq closeproc_wait (ret False)))) Q E) E k1" for Q E
    using Cons by (simp add: closeproc_def wp_flow devclose_def k1_def split: prod.splits)
  ultimately show ?thesis by (simp only:) (erule wp_conseq; simp add: wp_flow closeproc_wait_def sound_clunk)
qed

section \<open>Two descriptors at once\<close>

lemma newfd2_ok:
  assumes k: "sound k (H + {#C c0, C c1#})" and f: "live (fgrps k) fg = Some f"
  shows "wp (newfd2 room room' fg c0 c1) (\<lambda>r k'. case r of
      None \<Rightarrow> sound k' (H + {#C c0, C c1#}) \<and> table_becomes fg k (at_fd f) k'
    | Some (fd0, fd1) \<Rightarrow> sound k' H \<and> table_becomes fg k ((at_fd f)(fd0 := Some c0, fd1 := Some c1)) k' \<and> fd0 < fd1 \<and>
        (\<forall>i. i < fd1 \<longrightarrow> i \<noteq> fd0 \<longrightarrow> at_fd f i \<noteq> None) \<and> at_fd f fd0 = None \<and> at_fd f fd1 = None) (\<lambda>_ _. False) k"
proof -
  have fok: "fd_ok f" using k f by (auto simp: sound_def tables_ok_def)
  obtain r g where g: "findfreefd room f 0 = (r, g)" by fastforce
  note gk = findfreefd_ok [OF fok le0 g]
  have same: "sound (with_table k fg (unlockfgrp h)) (H + {#C c0, C c1#})" "table_becomes fg k (at_fd f) (with_table k fg (unlockfgrp h))"
    if "fd_ok h" "at_fd h = at_fd f" "f_ref h = f_ref f" "opts_refs (f_fd h) = opts_refs (f_fd f)" for h
    using that sound_set_fgrp [OF k f, of "unlockfgrp h" "H + {#C c0, C c1#}"] table_becomes_set [OF f, of "unlockfgrp h" "with_table k fg (unlockfgrp h)"] by simp_all
  show ?thesis
  proof (cases r)
    case None
    then have "newfd2 room room' fg c0 c1 k = (Inr None, with_table k fg (unlockfgrp g))" using g f by (simp add: newfd2_def sem_simps)
    then show ?thesis using same [OF gk(1-4)] by (simp add: wp_def)
  next
    case (Some fd0)
    note fd0 = gk(6) [OF Some]
    obtain r' h where h: "findfreefd room' g (fd0 + 1) = (r', h)" by fastforce
    have "fd0 + 1 \<le> f_nfd g" using fd0 by simp
    note hk = findfreefd_ok [OF gk(1) this h]
    note hs = hk(1) trans [OF hk(2) gk(2)] trans [OF hk(3) gk(3)] trans [OF hk(4) gk(4)]
    show ?thesis
    proof (cases r')
      case None
      then have "newfd2 room room' fg c0 c1 k = (Inr None, with_table k fg (unlockfgrp h))" using Some g h f by (simp add: newfd2_def sem_simps)
      then show ?thesis using same [OF hs] by (simp add: wp_def)
    next
      case S': (Some fd1)
      note fd1 = hk(6) [OF S']
      let ?fds = "(f_fd h)[fd0 := Some c0, fd1 := Some c1]"
      let ?f = "unlockfgrp ((raise_max fd1 h)\<lparr>f_fd := ?fds\<rparr>)"
      have len: "fd0 < length (f_fd h)" "fd1 < length (f_fd h)" "fd0 < fd1" "f_nfd h = length (f_fd h)" using fd0 fd1 hk(1,5) by (auto simp: fd_ok_def)
      have at: "at_fd h fd0 = None" "at_fd h fd1 = None" using fd0 fd1 hs(2) gk(2) by simp_all
      have nn: "f_fd h ! fd0 = None" "f_fd h ! fd1 = None" using at len by (simp_all add: live_def)
      have "fd_ok ((raise_max fd0 h)\<lparr>f_fd := (f_fd h)[fd0 := Some c0]\<rparr>)" using fd_ok_fill [OF hk(1)] len by simp
      then have ok: "fd_ok ?f" using len hk(1) by (auto simp: fd_ok_def raise_max_def nth_list_update split: if_splits)
      have "opts_refs ?fds = opts_refs (f_fd h) + {#C c0, C c1#}"
        using opts_refs_update [OF len(1), of "Some c0"] opts_refs_update [of fd1 "(f_fd h)[fd0 := Some c0]" "Some c1"] nn len by simp
      then have s: "sound (with_table k fg ?f) H" using ok hs(3,4) by (intro sound_set_fgrp [OF k f]) simp_all
      have "at_fd ?f = (at_fd f)(fd0 := Some c0, fd1 := Some c1)" using len hs(2) by (simp add: live_fill)
      then have "table_becomes fg k ((at_fd f)(fd0 := Some c0, fd1 := Some c1)) (with_table k fg ?f)"
        using table_becomes_set [OF f, of ?f "with_table k fg ?f"] hs(3) by simp
      moreover have "newfd2 room room' fg c0 c1 k = (Inr (Some (fd0, fd1)), with_table k fg ?f)"
        using Some S' g h f by (simp add: newfd2_def sem_simps)
      moreover have "\<forall>i. i < fd1 \<longrightarrow> i \<noteq> fd0 \<longrightarrow> at_fd f i \<noteq> None" using fd0 fd1 gk(2) by (metis Suc_eq_plus1 Suc_leI le0 linorder_neqE_nat)
      ultimately show ?thesis using s len(3) fd0 fd1 gk(2) by (simp add: wp_def)
    qed
  qed
qed

end
