(* ===== verification/Fd_System.thy ===== *)
theory Fd_System
  imports Fd_New
begin

unbundle bit_operations_syntax

text \<open>
  Kernel code at work on channels and tables of file descriptors: a call is made with references that the calling code holds, and gives it
  others back. The state of the system is the kernel's and the multiset of all references that running code holds; calls of different
  processes follow each other in any order.
\<close>

datatype fdcall = New | First bool | Hold nat int u64 bool | Install bool nat nat | Pair bool bool nat nat nat | Drop nat | Dropq bool nat
  | Dup bool nat int int | Close nat int | Exec nat | Fork bool nat | Share nat | Leave nat | Ctl nat bool int | Background int

fun needs :: "fdcall \<Rightarrow> obj multiset" where
  "needs New = {#}"
| "needs (First room) = {#}"
| "needs (Hold fg fd mode chkmnt) = {#F fg#}"
| "needs (Install room fg c) = {#F fg, C c#}"
| "needs (Pair room room' fg c0 c1) = {#F fg, C c0, C c1#}"
| "needs (Drop c) = {#C c#}"
| "needs (Dropq woken c) = {#C c#}"
| "needs (Dup room fg ofd nfd) = {#F fg#}"
| "needs (Close fg fd) = {#F fg#}"
| "needs (Exec fg) = {#F fg#}"
| "needs (Fork room fg) = {#F fg#}"
| "needs (Share fg) = {#F fg#}"
| "needs (Leave fg) = {#F fg#}"
| "needs (Ctl fg all_files fd) = {#F fg#}"
| "needs (Background n) = {#}"

text \<open>The references the calling code has after the call.\<close>

fun fdrun :: "fdcall \<Rightarrow> obj multiset kns" where
  "fdrun New = and_then newchan (\<lambda>c. ret {#C c#})"
| "fdrun (First room) = and_then (dupfgrp room None) (\<lambda>i. ret {#F i#})"
| "fdrun (Hold fg fd mode chkmnt) = and_then (fdtochan fg fd mode chkmnt True) (\<lambda>c. ret {#F fg, C c#})"
| "fdrun (Install room fg c) = and_then (newfd room fg c) (\<lambda>r. ret (if r = None then {#F fg, C c#} else {#F fg#}))"
| "fdrun (Pair room room' fg c0 c1) = and_then (newfd2 room room' fg c0 c1) (\<lambda>r. ret (if r = None then {#F fg, C c0, C c1#} else {#F fg#}))"
| "fdrun (Drop c) = seq (cclose c) (ret {#})"
| "fdrun (Dropq woken c) = seq (ccloseq woken c) (ret {#})"
| "fdrun (Dup room fg ofd nfd) = and_then (sysdup room fg ofd nfd) (\<lambda>_. ret {#F fg#})"
| "fdrun (Close fg fd) = and_then (sysclose fg fd) (\<lambda>_. ret {#F fg#})"
| "fdrun (Exec fg) = seq (close_on_exec fg) (ret {#F fg#})"
| "fdrun (Fork room fg) = and_then (dupfgrp room (Some fg)) (\<lambda>i. ret {#F fg, F i#})"
| "fdrun (Share fg) = and_then (incref (F fg)) (\<lambda>_. ret {#F fg, F fg#})"
| "fdrun (Leave fg) = seq (closefgrp (Some fg)) (ret {#})"
| "fdrun (Ctl fg all_files fd) = seq (procctlclosefiles fg all_files fd) (ret {#F fg#})"
| "fdrun (Background n) = and_then (closeproc n) (\<lambda>_. ret {#})"

text \<open>
  No count is near the limit of a 32-bit integer, where \<^verbatim>\<open>incref\<close> panics; and the number that \<^verbatim>\<open>close n\<close> in \<^verbatim>\<open>/proc/n/ctl\<close> gives is that of
  a slot, which the code does not look after.
\<close>

definition within_limits :: "ns \<Rightarrow> bool" where
  "within_limits k \<longleftrightarrow> (\<forall>r \<in> set (chans k). k_ref r + 5000 < 2 ^ 31) \<and> (\<forall>f. Some f \<in> set (fgrps k) \<longrightarrow> f_ref f + 1 < 2 ^ 31)"

fun legal :: "fdcall \<Rightarrow> ns \<Rightarrow> bool" where
  "legal (Ctl fg all_files fd) k = (within_limits k \<and> (all_files \<or> 0 \<le> fd \<and> (case live (fgrps k) fg of None \<Rightarrow> True | Some f \<Rightarrow> fd < int (f_nfd f))))"
| "legal op k = within_limits k"

lemma limits_below: "within_limits k \<Longrightarrow> n \<le> 5000 \<Longrightarrow> below_limit k n c"
  by (auto simp: within_limits_def below_limit_def dest!: bspec [OF _ nth_mem])

lemma limits_table: "within_limits k \<Longrightarrow> live (fgrps k) fg = Some f \<Longrightarrow> f_ref f < 2 ^ 31 - 1"
  unfolding within_limits_def live_Some by (metis add.commute less_diff_eq nth_mem)

lemma legal_limits: "legal op k \<Longrightarrow> within_limits k"
  by (cases op) simp_all

lemma held_table:
  assumes "sound k (R + {#F fg#})"
  obtains f where "live (fgrps k) fg = Some f" and "f_ref f \<ge> 1" and "fd_ok f" and "get_ref (F fg) k = Some (f_ref f)"
proof -
  have "counted k (R + {#F fg#})" using assms by (simp add: sound_def consistent_def)
  then obtain n where n: "get_ref (F fg) k = Some n" "n \<ge> 1" using counted_held [of k _ "F fg"] by (metis union_iff union_single_eq_member)
  then obtain f where f: "live (fgrps k) fg = Some f" "f_ref f = n" by (auto simp: get_ref.simps)
  moreover have "fd_ok f" using assms f unfolding sound_def tables_ok_def by blast
  ultimately show ?thesis using that n by blast
qed

text \<open>A call that keeps its references.\<close>

definition keeps_held :: "fdcall \<Rightarrow> ns \<Rightarrow> obj multiset \<Rightarrow> bool" where
  "keeps_held op k R \<longleftrightarrow> wp (fdrun op) (\<lambda>G k'. sound k' (R + G)) (\<lambda>e k'. (\<exists>s. e = Error s) \<and> sound k' (R + needs op)) k"

lemma keeps_heldI:
  assumes "wp m Q E k" and "fdrun op = and_then m (\<lambda>x. ret (g x))" and "\<And>x k'. Q x k' \<Longrightarrow> sound k' (R + g x)"
    and "\<And>e k'. E e k' \<Longrightarrow> (\<exists>s. e = Error s) \<and> sound k' (R + needs op)"
  shows "keeps_held op k R"
  unfolding keeps_held_def assms(2) wp_and_then wp_ret by (rule wp_conseq [OF assms(1)]) (use assms(3,4) in blast)+

lemma share_ok:
  assumes k: "sound k (R + {#F fg#})" and "within_limits k"
  shows "keeps_held (Share fg) k R"
proof -
  obtain f where f: "live (fgrps k) fg = Some f" "f_ref f \<ge> 1" "get_ref (F fg) k = Some (f_ref f)" using held_table [OF k] by metis
  have ok: "counted k (R + {#F fg#})" using k by (simp add: sound_def consistent_def)
  have "sound (put_ref (F fg) (f_ref f + 1) k) (R + {#F fg#} + {#F fg#})" by (rule sound_put_F [OF k counted_add [OF ok f(3)]])
  moreover have "incref (F fg) k = (Inr (f_ref f + 1), put_ref (F fg) (f_ref f + 1) k)"
    using f limits_table [OF assms(2) f(1)] by (simp add: incref_def ainc_def get_ref.simps)
  ultimately show ?thesis by (simp add: keeps_held_def wp_def and_then_def ret_def)
qed

lemma on_table_ok:
  assumes k: "sound k (R + {#F fg#})" and lim: "within_limits k"
  shows "keeps_held (Hold fg fd mode chkmnt) k R" and "keeps_held (Dup room fg ofd nfd) k R" and "keeps_held (Close fg fd) k R"
    and "keeps_held (Exec fg) k R" and "keeps_held (Fork room fg) k R" and "keeps_held (Leave fg) k R"
proof -
  obtain f where f: "live (fgrps k) fg = Some f" "fd_ok f" using held_table [OF k] by metis
  have b: "below_limit k n c" if "n \<le> 5000" for n c using limits_below [OF lim that] .
  show "keeps_held (Hold fg fd mode chkmnt) k R"
    by (rule keeps_heldI [OF fdtochan_ok [OF k f(1), of True fd mode chkmnt]]) (use b [of 1] in \<open>auto simp: ac_simps\<close>)
  show "keeps_held (Dup room fg ofd nfd) k R"
    by (rule keeps_heldI [OF sysdup_ok [OF k f(1), of ofd room nfd]]) (use b [of 1] in auto)
  show "keeps_held (Close fg fd) k R"
    by (rule keeps_heldI [OF sysclose_ok [OF k f(1), of fd]]) (use k in auto)
  show "keeps_held (Exec fg) k R"
    by (rule keeps_heldI [OF close_on_exec_ok [OF k f(1)]]) (auto simp: seq_def)
  show "keeps_held (Fork room fg) k R"
    by (rule keeps_heldI [OF dupfgrp_ok [OF k f(1), of room]]) (use k f(2) b in \<open>auto simp: fd_ok_def ac_simps\<close>)
  show "keeps_held (Leave fg) k R"
    by (rule keeps_heldI [OF closefgrp_ok [OF k f(1)]]) (auto simp: seq_def)
qed

lemma install_ok: "sound k (R + {#F fg, C c#}) \<Longrightarrow> keeps_held (Install room fg c) k R"
proof -
  assume "sound k (R + {#F fg, C c#})"
  then have k: "sound k (R + {#F fg#} + {#C c#})" "sound k (R + {#C c#} + {#F fg#})" by (simp_all add: ac_simps)
  obtain f where f: "live (fgrps k) fg = Some f" using held_table [OF k(2)] by metis
  show ?thesis by (rule keeps_heldI [OF newfd_ok [OF k(1) f, of room]]) (auto simp: ac_simps split: option.splits)
qed

lemma pair_ok: "sound k (R + {#F fg, C c0, C c1#}) \<Longrightarrow> keeps_held (Pair room room' fg c0 c1) k R"
proof -
  assume a: "sound k (R + {#F fg, C c0, C c1#})"
  have "R + {#F fg, C c0, C c1#} = R + {#F fg#} + {#C c0, C c1#}" "R + {#F fg, C c0, C c1#} = R + {#C c0, C c1#} + {#F fg#}" by simp_all
  then have k: "sound k (R + {#F fg#} + {#C c0, C c1#})" "sound k (R + {#C c0, C c1#} + {#F fg#})" using a by (simp_all only:)
  obtain f where f: "live (fgrps k) fg = Some f" using held_table [OF k(2)] by metis
  show ?thesis by (rule keeps_heldI [OF newfd2_ok [OF k(1) f, of room room']]) (auto simp: add_mset_commute split: option.splits)
qed

lemma ctl_ok:
  assumes k: "sound k (R + {#F fg#})" and "legal (Ctl fg all_files fd) k"
  shows "keeps_held (Ctl fg all_files fd) k R"
proof -
  obtain f where f: "live (fgrps k) fg = Some f" using held_table [OF k] by metis
  have "f_ref f < 2 ^ 31 - 1" using limits_table [OF _ f] assms(2) by simp
  then have "wp (procctlclosefiles fg all_files fd) (\<lambda>_ k'. sound k' (R + {#F fg#})) (\<lambda>_ _. False) k"
    by (intro wp_conseq [OF procctlclosefiles_ok [OF k _ f, of all_files fd]]) (use assms(2) f in auto)
  then show ?thesis by (rule keeps_heldI) (auto simp: seq_def)
qed

lemma call_ok:
  assumes k: "sound k (R + needs op)" and l: "legal op k"
  shows "keeps_held op k R"
proof (cases op)
  case New
  then show ?thesis using k by (intro keeps_heldI [OF newchan_ok]) auto
next
  case (First room)
  then show ?thesis using k by (intro keeps_heldI [OF dupfgrp_none_ok]) auto
next
  case (Drop c)
  then show ?thesis using k by (intro keeps_heldI [OF cclose_sound]) (auto simp: seq_def)
next
  case (Dropq woken c)
  then show ?thesis using k by (intro keeps_heldI [OF sound_ccloseq]) (auto simp: seq_def)
next
  case (Background n)
  then show ?thesis using k by (intro keeps_heldI [OF closeproc_ok]) auto
qed (use k l legal_limits [OF l] on_table_ok share_ok install_ok pair_ok ctl_ok in auto)

text \<open>A step of the system: a call that returns, or one that ends with an error and leaves its caller what it had.\<close>

inductive fdstep :: "ns \<times> obj multiset \<Rightarrow> ns \<times> obj multiset \<Rightarrow> bool" where
  returns: "legal op k \<Longrightarrow> fdrun op k = (Inr got, k') \<Longrightarrow> fdstep (k, R + needs op) (k', R + got)"
| fails: "legal op k \<Longrightarrow> fdrun op k = (Inl (Error e), k') \<Longrightarrow> fdstep (k, R + needs op) (k', R + needs op)"

inductive_cases fdstep_cases: "fdstep s s'"

definition ns0 :: ns where
  "ns0 = \<lparr>chans = [], freelist = [], lastfid = 0, paths = [], npath = 0, mheads = [], clunkq = [], clunkactive = 0, closeprocs = [],
     devcloses = [], fgrps = [], pgrps = [], pgrpids = 0, mountid = 0, clunkrunning = 0\<rparr>"

definition at_boot :: "ns \<times> obj multiset \<Rightarrow> bool" where
  "at_boot s \<longleftrightarrow> s = (ns0, {#})"

lemma sound_ns0: "sound ns0 {#}"
proof -
  have "rc ns0 x = 0" for x by (cases x) (simp_all add: rc_def get_ref.simps live_def ns0_def)
  then show ?thesis by (simp add: sound_def consistent_def counted_def tables_ok_def live_def refs_def heads_def ns0_def)
qed

lemma fdstep_sound: "sound (fst s) (snd s) \<Longrightarrow> fdstep s s' \<Longrightarrow> sound (fst s') (snd s')"
  by (erule fdstep_cases) (auto simp: keeps_held_def wp_def dest: call_ok)

interpretation fdsystem: invariant_system at_boot fdstep "\<lambda>s (W :: unit). sound (fst s) (snd s)"
  by unfold_locales (use fdstep_sound sound_ns0 in \<open>auto simp: at_boot_def\<close>)

lemma reach_sound: "reach at_boot fdstep (k, H) \<Longrightarrow> sound k H"
  using fdsystem.invariant_holds [of "(k, H)"] by simp

end
