(* ===== verification/Fds_Props.thy ===== *)
theory Fds_Props
  imports Fd_System
begin

unbundle bit_operations_syntax

text \<open>What makes channels and tables of file descriptors correct, stated over the code's own operations.\<close>

section \<open>A small state\<close>

lemma sound_simple:
  assumes "\<forall>r \<in> set cs. k_ref r > 0 \<and> k_flag r AND CFREE = 0 \<and> chan_refs r = {#}" and "\<forall>f \<in> set fs. fd_ok f"
    and c: "\<And>c. (if c < length cs then k_ref (cs ! c) else 0) = int (count (sum_list (map (\<lambda>f. opts_refs (f_fd f)) fs) + H) (C c))"
    and t: "\<And>i. (if i < length fs then f_ref (fs ! i) else 0) = int (count (sum_list (map (\<lambda>f. opts_refs (f_fd f)) fs) + H) (F i))"
    and o: "\<And>i. count (sum_list (map (\<lambda>f. opts_refs (f_fd f)) fs) + H) (P i) = 0" "\<And>i. count (sum_list (map (\<lambda>f. opts_refs (f_fd f)) fs) + H) (M i) = 0"
      "\<And>i. count (sum_list (map (\<lambda>f. opts_refs (f_fd f)) fs) + H) (G i) = 0" "count (sum_list (map (\<lambda>f. opts_refs (f_fd f)) fs) + H) Npath = 0"
  shows "sound (ns0\<lparr>chans := cs, fgrps := map Some fs\<rparr>) H" (is "sound ?k H")
proof -
  have "\<forall>r \<in> set cs. chan_refs r = {#}" using assms(1) by blast
  then have "sum_list (map chan_refs cs) = {#}" by (induction cs) simp_all
  then have rf: "refs ?k = sum_list (map (\<lambda>f. opts_refs (f_fd f)) fs)" by (simp add: refs_def heads_def fgrp_refs_def ns0_def comp_def)
  have "rc ?k x = int (count (refs ?k + H) x)" for x unfolding rf
  proof (cases x)
    case (C i)
    then show "rc ?k x = int (count (sum_list (map (\<lambda>f. opts_refs (f_fd f)) fs) + H) x)"
      unfolding C c [symmetric] by (simp add: rc_def get_ref.simps)
  next
    case (F i)
    then show "rc ?k x = int (count (sum_list (map (\<lambda>f. opts_refs (f_fd f)) fs) + H) x)"
      unfolding F t [symmetric] by (simp add: rc_def get_ref.simps live_def)
  qed (use o in \<open>simp_all add: rc_def get_ref.simps live_def ns0_def\<close>)
  moreover have "{d. d < length cs \<and> k_ref (cs ! d) = 0} = {}" using assms(1) by (force simp: in_set_conv_nth)
  ultimately have "consistent ?k H [] []" using assms(1) unfolding consistent_def counted_def by (auto simp: ns0_def live_def)
  moreover have "tables_ok ?k" using assms(2) by (auto simp: tables_ok_def live_def split: if_splits)
  ultimately show ?thesis by (simp add: sound_def)
qed

text \<open>A process with two files: the first at descriptors 0 and 2, the second, to be closed on exec, at 1.\<close>

definition demo_table :: Fgrp where
  "demo_table = \<lparr>f_ref = 1, f_fd = [Some 0, Some 1, Some 0] @ replicate 17 None, f_nfd = 20, f_maxfd = 2, f_exceed = 0\<rparr>"

definition demo :: ns where
  "demo = ns0\<lparr>chans := [zero_chan\<lparr>k_ref := 2\<rparr>, zero_chan\<lparr>k_ref := 1, k_flag := CCEXEC\<rparr>], fgrps := map Some [demo_table]\<rparr>"

lemma demo_fd_ok: "fd_ok demo_table"
proof -
  have "i \<le> 2" if "i < 20" "([Some 0, Some 1, Some 0] @ replicate 17 None) ! i \<noteq> (None :: nat option)" for i
    using that by (cases "i < 3") (auto simp: nth_append)
  then show ?thesis unfolding fd_ok_def demo_table_def by simp
qed

lemma demo_sound: "sound demo {#F 0#}"
proof -
  have n: "opts_refs (f_fd demo_table) = {#C 0, C 1, C 0#}" by (simp add: demo_table_def)
  show ?thesis unfolding demo_def
    by (rule sound_simple) (simp_all add: n demo_fd_ok, simp_all add: zero_chan_def chan_refs_def demo_table_def nth_Cons split: nat.splits)
qed

lemma demo_live: "live (fgrps demo) 0 = Some demo_table"
  by (simp add: demo_def live_def)

lemma demo_nfd: "f_nfd demo_table = 20" "f_maxfd demo_table = 2" "f_ref demo_table = 1"
  by (simp_all add: demo_table_def)

lemma demo_at: "at_fd demo_table = [0 \<mapsto> 0, 1 \<mapsto> 1, 2 \<mapsto> 0]"
proof (rule ext)
  fix i show "at_fd demo_table i = [0 \<mapsto> 0, 1 \<mapsto> 1, 2 \<mapsto> 0] i"
    by (cases "i < 3") (auto simp: demo_table_def live_def nth_append nth_Cons less_Suc_eq numeral_3_eq_3 split: nat.splits)
qed

section \<open>Closing channels\<close>

text \<open>
  C32. Closing a channel that the caller holds returns, never panics and never follows a dangling pointer, however many channels, paths and
  mount points it frees on its way; after it every count is the number of references again, without the caller's, and what is still in
  use is as it was.
\<close>

theorem cclose_exact:
  assumes "sound k (H + {#C c#})"
  shows "\<exists>k'. cclose c k = (Inr (), k') \<and> sound k' H \<and> calm k k'"
  using cclose_sound [OF assms] unfolding wp_total_iff by auto

theorem cclose_exact_witness:
  "\<exists>k'. cclose 0 (ns0\<lparr>chans := [zero_chan\<lparr>k_ref := 3\<rparr>, zero_chan\<lparr>k_ref := 1, k_flag := CCEXEC\<rparr>], fgrps := [Some demo_table]\<rparr>) = (Inr (), k') \<and> sound k' {#F 0#}"
proof -
  have n: "opts_refs (f_fd demo_table) = {#C 0, C 1, C 0#}" by (simp add: demo_table_def)
  have "sound (ns0\<lparr>chans := [zero_chan\<lparr>k_ref := 3\<rparr>, zero_chan\<lparr>k_ref := 1, k_flag := CCEXEC\<rparr>], fgrps := map Some [demo_table]\<rparr>) ({#F 0#} + {#C 0#})"
    by (rule sound_simple) (simp_all add: n demo_fd_ok, simp_all add: zero_chan_def chan_refs_def demo_table_def nth_Cons split: nat.splits)
  then show ?thesis using cclose_exact [of _ "{#F 0#}" 0] by (simp only: list.map) blast
qed

section \<open>The system\<close>

text \<open>
  C31. In every state that calls of any processes can reach, every table of file descriptors is well formed: its array has as many slots as
  it claims, a multiple of \<^verbatim>\<open>DELTAFD\<close> and at most 5000, and no slot above \<^verbatim>\<open>maxfd\<close> is in use.
\<close>

theorem tables_well_formed:
  assumes "reach at_boot fdstep (k, H)" and "live (fgrps k) fg = Some f"
  shows "fd_ok f"
  using reach_sound [OF assms(1)] assms(2) by (auto simp: sound_def tables_ok_def)

lemma boot_reach: "reach at_boot fdstep (ns0\<lparr>fgrps := [Some empty_table]\<rparr>, {#F 0#})"
proof -
  have "fdstep (ns0, {#} + needs (First True)) (ns0\<lparr>fgrps := [Some empty_table]\<rparr>, {#} + {#F 0#})"
    by (rule fdstep.returns) (simp_all add: within_limits_def ns0_def dupfgrp_def new_fgrp_def sem_simps empty_table_def)
  then show ?thesis using reach_step [OF reach_init, of at_boot "(ns0, {#})" fdstep] by (simp add: at_boot_def)
qed

theorem tables_well_formed_witness: "fd_ok empty_table"
  using tables_well_formed [OF boot_reach, of 0 empty_table] by (simp add: live_def)

text \<open>
  C29. In every such state each reference count is the number of references to the object, in the state and in the hands of running code;
  the free list and the queue of channels to be closed hold each channel without references once, and a channel is marked free exactly when it is on the
  free list, with nothing left that it refers to.
\<close>

theorem counts_exact:
  assumes "reach at_boot fdstep (k, H)"
  shows "(\<forall>x. rc k x = int (count (refs k + H) x)) \<and> distinct (freelist k @ clunkq k) \<and>
    set (freelist k @ clunkq k) = {c. c < length (chans k) \<and> k_ref (chans k ! c) = 0} \<and>
    set (freelist k) = {c. c < length (chans k) \<and> k_flag (chans k ! c) AND CFREE \<noteq> 0} \<and>
    (\<forall>c \<in> set (freelist k). chan_refs (chans k ! c) = {#})"
proof -
  have ok: "consistent k H [] []" using reach_sound [OF assms] by (simp add: sound_def)
  have "c < length (chans k)" if "c \<in> set (freelist k)" for c using consistentD(3) [OF ok] that by auto
  then have "set (freelist k) = {c. c < length (chans k) \<and> k_flag (chans k ! c) AND CFREE \<noteq> 0}" using consistentD(4) [OF ok] by auto
  then show ?thesis using consistentD(1,2,3,5) [OF ok] by (simp add: counted_def)
qed

theorem counts_exact_witness: "rc (ns0\<lparr>fgrps := [Some empty_table]\<rparr>) (F 0) = 1 \<and> distinct (freelist (ns0\<lparr>fgrps := [Some empty_table]\<rparr>))"
proof -
  have "refs (ns0\<lparr>fgrps := [Some empty_table]\<rparr>) = {#}" by (simp add: refs_def heads_def fgrp_refs_def empty_table_def ns0_def)
  then show ?thesis using counts_exact [OF boot_reach] by simp
qed

text \<open>
  C30. No call made with references that its caller holds panics or faults in a state that can be reached, unless a count has come near the limit of a
  32-bit integer or a process control message names a descriptor outside of the table.
\<close>

theorem calls_safe:
  assumes "reach at_boot fdstep (k, H)" and "needs op \<subseteq># H" and "legal op k"
  shows "(\<exists>got. fst (fdrun op k) = Inr got) \<or> (\<exists>e. fst (fdrun op k) = Inl (Error e))"
proof -
  have "H = (H - needs op) + needs op" using assms(2) by simp
  then have "sound k ((H - needs op) + needs op)" using reach_sound [OF assms(1)] by simp
  then have "keeps_held op k (H - needs op)" using call_ok assms(3) by blast
  then show ?thesis by (auto simp: keeps_held_def wp_def split: prod.splits sum.splits)
qed

theorem calls_safe_witness:
  "(\<exists>got. fst (fdrun (Close 0 5) (ns0\<lparr>fgrps := [Some empty_table]\<rparr>)) = Inr got) \<or>
   (\<exists>e. fst (fdrun (Close 0 5) (ns0\<lparr>fgrps := [Some empty_table]\<rparr>)) = Inl (Error e))"
  by (rule calls_safe [OF boot_reach]) (simp_all add: within_limits_def ns0_def empty_table_def)

section \<open>File descriptors\<close>

text \<open>
  C33. \<^verbatim>\<open>newfd\<close> puts the channel at the lowest free descriptor, growing the table when all are taken; the reference passes from the caller
  to the table. It fails only with all slots of the table in use, and then only when there are 5000 or no memory is left.
\<close>

theorem newfd_lowest:
  assumes "sound k (H + {#C c#})" and "live (fgrps k) fg = Some f"
  shows "\<exists>r k'. newfd room fg c k = (Inr r, k') \<and> (case r of
      Some fd \<Rightarrow> sound k' H \<and> table_becomes fg k ((at_fd f)(fd := Some c)) k' \<and> at_fd f fd = None \<and> (\<forall>i < fd. at_fd f i \<noteq> None)
    | None \<Rightarrow> sound k' (H + {#C c#}) \<and> table_becomes fg k (at_fd f) k' \<and> (f_nfd f = 5000 \<or> \<not> room) \<and> (\<forall>i < f_nfd f. at_fd f i \<noteq> None))"
proof -
  obtain r k' f' where r: "newfd room fg c k = (Inr r, k')" "k' = with_table k fg f'" "f_ref f' = f_ref f" and post: "case r of
      None \<Rightarrow> sound k' (H + {#C c#}) \<and> at_fd f' = at_fd f \<and> (f_nfd f = 5000 \<or> \<not> room) \<and> (\<forall>i < f_nfd f. at_fd f i \<noteq> None)
    | Some fd \<Rightarrow> sound k' H \<and> at_fd f' = (at_fd f)(fd := Some c) \<and> at_fd f fd = None \<and> (\<forall>i < fd. at_fd f i \<noteq> None)"
    using newfd_ok [OF assms, of room] unfolding wp_total_iff by blast
  have "table_becomes fg k (at_fd f') k'" using table_becomes_set [OF assms(2) r(3)] r(2) by simp
  then show ?thesis using r(1) post by (cases r) auto
qed

definition demo_held :: ns where
  "demo_held = ns0\<lparr>chans := [zero_chan\<lparr>k_ref := 3\<rparr>, zero_chan\<lparr>k_ref := 1, k_flag := CCEXEC\<rparr>], fgrps := map Some [demo_table]\<rparr>"

lemma demo_held_sound: "sound demo_held ({#F 0#} + {#C 0#})"
proof -
  have n: "opts_refs (f_fd demo_table) = {#C 0, C 1, C 0#}" by (simp add: demo_table_def)
  show ?thesis unfolding demo_held_def
    by (rule sound_simple) (simp_all add: n demo_fd_ok, simp_all add: zero_chan_def chan_refs_def demo_table_def nth_Cons split: nat.splits)
qed

theorem newfd_lowest_witness: "\<exists>r k'. newfd False 0 0 demo_held = (Inr r, k') \<and> r = Some 3 \<and> table_becomes 0 demo_held [0 \<mapsto> 0, 1 \<mapsto> 1, 2 \<mapsto> 0, 3 \<mapsto> 0] k'"
proof -
  have l: "live (fgrps demo_held) 0 = Some demo_table" by (simp add: demo_held_def live_def)
  obtain r k' where r: "newfd False 0 0 demo_held = (Inr r, k')" "case r of
      Some fd \<Rightarrow> sound k' {#F 0#} \<and> table_becomes 0 demo_held ((at_fd demo_table)(fd := Some 0)) k' \<and> at_fd demo_table fd = None \<and> (\<forall>i < fd. at_fd demo_table i \<noteq> None)
    | None \<Rightarrow> sound k' ({#F 0#} + {#C 0#}) \<and> table_becomes 0 demo_held (at_fd demo_table) k' \<and> (f_nfd demo_table = 5000 \<or> \<not> False) \<and> (\<forall>i < f_nfd demo_table. at_fd demo_table i \<noteq> None)"
    using newfd_lowest [OF demo_held_sound l, of False] by blast
  have "\<not> (\<forall>i < f_nfd demo_table. at_fd demo_table i \<noteq> None)" unfolding demo_at demo_nfd by (simp add: exI [of _ 5])
  then obtain fd where fd: "r = Some fd" "at_fd demo_table fd = None" "\<forall>i < fd. at_fd demo_table i \<noteq> None"
    "table_becomes 0 demo_held ((at_fd demo_table)(fd := Some 0)) k'" using r(2) by (cases r) auto
  have "\<not> 3 < fd" using fd(3) by (auto simp: demo_at dest!: spec [of _ 3])
  moreover have "fd \<noteq> 0" "fd \<noteq> 1" "fd \<noteq> 2" using fd(2) by (auto simp: demo_at split: if_splits)
  ultimately have "fd = 3" by linarith
  then show ?thesis using r(1) fd(1,4) by (simp add: demo_at)
qed

text \<open>
  C34. \<^verbatim>\<open>dup\<close> makes the new descriptor, the lowest free one if it is -1, stand for the channel of the old one; a channel that was there is closed, and no
  other descriptor changes. A descriptor that is not open, or a new one too far away, is an error that leaves the descriptors as they were.
\<close>

theorem sysdup_correct:
  assumes "sound k H" and "live (fgrps k) fg = Some f" and "\<forall>c. below_limit k 1 c"
  shows "(\<exists>fd k' c. sysdup room fg ofd nfd k = (Inr (int fd), k') \<and> 0 \<le> ofd \<and> at_fd f (nat ofd) = Some c \<and>
        (if nfd = -1 then at_fd f fd = None \<and> (\<forall>i < fd. at_fd f i \<noteq> None) else int fd = nfd) \<and>
        sound k' H \<and> table_becomes fg k ((at_fd f)(fd := Some c)) k') \<or>
    (\<exists>e k'. sysdup room fg ofd nfd k = (Inl (Error e), k') \<and>
       (e = Ebadfd \<and> (ofd < 0 \<or> at_fd f (nat ofd) = None \<or> nfd < -1 \<or> int (f_nfd f) \<le> nfd) \<or>
        e = Enofd \<and> nfd = -1 \<and> (f_nfd f = 5000 \<or> \<not> room) \<and> (\<forall>i < f_nfd f. at_fd f i \<noteq> None)) \<and>
       sound k' H \<and> table_becomes fg k (at_fd f) k')"
proof -
  have lim: "below_limit k 1 c" for c using assms(3) by simp
  obtain r k' where r: "sysdup room fg ofd nfd k = (r, k')" by fastforce
  show ?thesis using sysdup_ok [OF assms(1,2) lim, where ofd = ofd and room = room and nfd = nfd] unfolding wp_def r by (cases r) auto
qed

theorem sysdup_correct_witness: "\<exists>k'. sysdup False 0 1 0 demo = (Inr 0, k') \<and> table_becomes 0 demo [0 \<mapsto> 1, 1 \<mapsto> 1, 2 \<mapsto> 0] k'"
proof -
  have lim: "\<forall>c. below_limit demo 1 c" by (auto simp: below_limit_def demo_def zero_chan_def nth_Cons split: nat.splits)
  have t: "[0 \<mapsto> 0, 1 \<mapsto> 1, 2 \<mapsto> 0, 0 \<mapsto> 1] = ([0 \<mapsto> 1, 1 \<mapsto> 1, 2 \<mapsto> 0] :: nat \<Rightarrow> nat option)" by (simp add: fun_eq_iff)
  show ?thesis using sysdup_correct [OF demo_sound demo_live lim, of False 1 0] t by (auto simp: demo_at demo_nfd)
qed

text \<open>
  C35. \<^verbatim>\<open>close\<close> takes one descriptor out of the table and gives up its reference; on a descriptor that is not open, negative or beyond the table it raises
  \<^verbatim>\<open>Ebadfd\<close> and changes nothing.
\<close>

theorem sysclose_correct:
  assumes "sound k H" and "live (fgrps k) fg = Some f"
  shows "if 0 \<le> fd \<and> at_fd f (nat fd) \<noteq> None
    then \<exists>k'. sysclose fg fd k = (Inr 0, k') \<and> sound k' H \<and> table_becomes fg k ((at_fd f)(nat fd := None)) k'
    else sysclose fg fd k = (Inl (Error Ebadfd), k)"
proof -
  obtain r k' where r: "sysclose fg fd k = (r, k')" by fastforce
  show ?thesis using sysclose_ok [OF assms, of fd] unfolding wp_def r by (cases r) auto
qed

theorem sysclose_correct_witness:
  "(\<exists>k'. sysclose 0 2 demo = (Inr 0, k') \<and> sound k' {#F 0#} \<and> table_becomes 0 demo [0 \<mapsto> 0, 1 \<mapsto> 1] k') \<and> sysclose 0 3 demo = (Inl (Error Ebadfd), demo)"
proof -
  have t: "([0 \<mapsto> 0, 1 \<mapsto> 1, 2 \<mapsto> 0])(2 := None) = ([0 \<mapsto> 0, 1 \<mapsto> 1] :: nat \<Rightarrow> nat option)" by (simp add: fun_eq_iff)
  show ?thesis using sysclose_correct [OF demo_sound demo_live, of 2] sysclose_correct [OF demo_sound demo_live, of 3] t by (simp add: demo_at)
qed

text \<open>
  C36. On exec exactly the descriptors whose channels have \<^verbatim>\<open>CCEXEC\<close> set are closed, the highest included, although the bound of the loop sinks
  while it runs; the loop ends within the number of slots.
\<close>

theorem exec_closes:
  assumes "sound k H" and "live (fgrps k) fg = Some f"
  shows "\<exists>k'. close_on_exec fg k = (Inr (), k') \<and> sound k' H \<and>
    table_becomes fg k (\<lambda>fd. case at_fd f fd of None \<Rightarrow> None | Some c \<Rightarrow> if k_flag (chans k ! c) AND CCEXEC \<noteq> 0 then None else Some c) k'"
  using close_on_exec_ok [OF assms] unfolding wp_total_iff by (auto simp: exec_keeps_def [abs_def])

theorem exec_closes_witness: "\<exists>k'. close_on_exec 0 demo = (Inr (), k') \<and> table_becomes 0 demo [0 \<mapsto> 0, 2 \<mapsto> 0] k'"
proof -
  have "(\<lambda>fd. case at_fd demo_table fd of None \<Rightarrow> None | Some c \<Rightarrow> if k_flag (chans demo ! c) AND CCEXEC \<noteq> 0 then None else Some c) = [0 \<mapsto> 0, 2 \<mapsto> 0]"
    unfolding demo_at by (auto simp: fun_eq_iff demo_def zero_chan_def)
  then show ?thesis using exec_closes [OF demo_sound demo_live] by auto
qed

text \<open>
  C37. A process that forks with a copy of its descriptors gets a new table, of as few groups of \<open>DELTAFD\<close> slots as reach beyond the highest descriptor, with the same channels at the same descriptors; each
  of them is counted once more. Without memory it gets an error, and nothing has changed.
\<close>

theorem dupfgrp_copies:
  assumes "sound k H" and "live (fgrps k) fg = Some f" and "\<forall>c. below_limit k (f_maxfd f + 1) c"
  shows "if room
    then \<exists>k' f'. dupfgrp room (Some fg) k = (Inr (length (fgrps k)), k') \<and> sound k' (H + {#F (length (fgrps k))#}) \<and>
      fgrps k' = fgrps k @ [Some f'] \<and> at_fd f' = at_fd f \<and> f_ref f' = 1 \<and> f_nfd f' \<le> f_nfd f \<and>
      DELTAFD dvd f_nfd f' \<and> f_maxfd f < f_nfd f' \<and> f_nfd f' < f_maxfd f + 1 + DELTAFD \<and> length (f_fd f') = f_nfd f'
    else dupfgrp room (Some fg) k = (Inl (Error Enofgrp), k)"
proof -
  obtain r k' where r: "dupfgrp room (Some fg) k = (r, k')" by fastforce
  show ?thesis using dupfgrp_ok [OF assms, of room] unfolding wp_def r by (cases r) auto
qed

theorem dupfgrp_copies_witness:
  "\<exists>k' f'. dupfgrp True (Some 0) demo = (Inr 1, k') \<and> sound k' {#F 1, F 0#} \<and> fgrps k' = [Some demo_table, Some f'] \<and> at_fd f' = [0 \<mapsto> 0, 1 \<mapsto> 1, 2 \<mapsto> 0] \<and>
     DELTAFD dvd f_nfd f' \<and> f_nfd f' < 3 + DELTAFD"
proof -
  have lim: "\<forall>c. below_limit demo (f_maxfd demo_table + 1) c" by (auto simp: below_limit_def demo_def demo_nfd zero_chan_def nth_Cons split: nat.splits)
  have e: "fgrps demo = [Some demo_table]" by (simp add: demo_def)
  show ?thesis using dupfgrp_copies [OF demo_sound demo_live lim, of True] e by (auto simp: demo_at demo_nfd)
qed

text \<open>
  C38. A process that gives up its table leaves it to the others that share it; the last one closes every descriptor and frees it. The counts of the
  channels are exact after it.
\<close>

theorem closefgrp_last:
  assumes "sound k (H + {#F fg#})" and "live (fgrps k) fg = Some f"
  shows "\<exists>k'. closefgrp (Some fg) k = (Inr (), k') \<and> sound k' H \<and>
    fgrps k' = (if f_ref f = 1 then (fgrps k)[fg := None] else (fgrps k)[fg := Some (f\<lparr>f_ref := f_ref f - 1\<rparr>)])"
  using closefgrp_ok [OF assms] assms(2) unfolding wp_total_iff by (auto simp: upd_live)

theorem closefgrp_last_witness: "\<exists>k'. closefgrp (Some 0) demo = (Inr (), k') \<and> sound k' {#} \<and> fgrps k' = [None]"
  using closefgrp_last [of demo "{#}" 0 demo_table] demo_sound demo_live by (simp add: demo_nfd) (simp add: demo_def)



text \<open>
  C40. \<^verbatim>\<open>closefiles\<close> written to \<^verbatim>\<open>/proc/n/ctl\<close>, which is to close all descriptors of a process, stops before \<^verbatim>\<open>maxfd\<close>, which is the highest
  descriptor and not their number: a file there stays open.
\<close>

theorem closefiles_leaves_last:
  assumes "sound k H" and "F fg \<in># H" and "live (fgrps k) fg = Some f" and "f_ref f < 2 ^ 31 - 1"
  shows "\<exists>k'. procctlclosefiles fg True fd k = (Inr (), k') \<and> sound k' H \<and>
    table_becomes fg k (\<lambda>i. if i < f_maxfd f then None else at_fd f i) k'"
  using procctlclosefiles_ok [OF assms, of True fd] unfolding wp_total_iff by (auto simp: ctl_closes_def)

theorem closefiles_leaves_last_witness: "\<exists>k'. procctlclosefiles 0 True 0 demo = (Inr (), k') \<and> table_becomes 0 demo [2 \<mapsto> 0] k'"
proof -
  have "(\<lambda>i. if i < f_maxfd demo_table then None else at_fd demo_table i) = [2 \<mapsto> 0]" by (auto simp: fun_eq_iff demo_at demo_nfd)
  then show ?thesis using closefiles_leaves_last [OF demo_sound _ demo_live, of 0] by (auto simp: demo_nfd)
qed

text \<open>
  \<^verbatim>\<open>close n\<close> written to \<^verbatim>\<open>/proc/n/ctl\<close> takes any number: one that is negative or beyond the table makes the kernel read, and perhaps write, outside of the
  array of descriptors.
\<close>

theorem ctl_close_unchecked:
  assumes "live (fgrps k) fg = Some f" and "1 \<le> f_ref f" and "f_ref f < 2 ^ 31 - 1" and "fd < 0 \<or> int (length (f_fd f)) \<le> fd"
  shows "\<exists>k'. procctlclosefiles fg False fd k = (Inl Fault, k')"
  using assms by (auto simp: procctlclosefiles_def procctlcloseone_def drop_slot_def incref_def ainc_def get_ref.simps put_ref.simps sem_simps)

theorem ctl_close_unchecked_witness: "(\<exists>k'. procctlclosefiles 0 False (-1) demo = (Inl Fault, k')) \<and> (\<exists>k'. procctlclosefiles 0 False 4000 demo = (Inl Fault, k'))"
  using ctl_close_unchecked [OF demo_live, of "-1"] ctl_close_unchecked [OF demo_live, of 4000] by (simp add: demo_table_def)

end
