(* ===== verification/Spec2Isabelle.thy ===== *)
theory Spec2Isabelle
  imports Fcall_Props Dir_Props Queues_Props Utf_Props Avl_Props Locks_Props Dev_Props Pipes_Props Cleanname_Props
    Fds_Props
begin

text \<open>
  A verification of core parts of Jehanne, a Plan 9 derived operating system written in C. Paths are relative to the repository.

  \<^bold>\<open>The program.\<close> Jehanne is a kernel (\<^verbatim>\<open>sys/src/kern\<close>), libraries (\<^verbatim>\<open>sys/src/lib\<close>) and commands
  (\<^verbatim>\<open>sys/src/cmd\<close>). Processes, kernel devices and file servers talk to each other in messages of the protocol 9P2000; the
  messages are packed and unpacked by \<^verbatim>\<open>lib9p2000\<close>, the directory entries in them by \<^verbatim>\<open>convD2M.c\<close> and
  \<^verbatim>\<open>convM2D.c\<close> of libc. Inside the kernel, pipes, the network stack and serial lines pass bytes in
  blocks (\<^verbatim>\<open>allocb.c\<close>) through queues (\<^verbatim>\<open>qio.c\<close>), whose read and write sides are guarded by queueing locks
  (\<^verbatim>\<open>qlock.c\<close>). All names and texts are UTF-8 (\<^verbatim>\<open>rune.c\<close>), and servers keep their tables in balanced trees
  (\<^verbatim>\<open>libavl\<close>).

  \<^bold>\<open>How C is modelled.\<close> Integers whose width matters are words (\<open>u8\<close> to \<open>u64\<close>), whose arithmetic wraps; the C \<^verbatim>\<open>int\<close> and
  \<^verbatim>\<open>long\<close> of the kernel queues, which stay far from their bounds, are integers; sizes that a caller gives to \<^verbatim>\<open>allocb\<close>, \<^verbatim>\<open>padblock\<close> and \<^verbatim>\<open>trimblock\<close> wrap
  at 32 bits (\<open>int32\<close> of \<open>Blocks\<close>), and properties that depend on it say for which sizes they hold. A statement of the codecs and of the
  queues is a function of the state that returns a value, or stops with a value of an exit type: an early return, an error raised with
  \<^verbatim>\<open>error()\<close>, a panic, a memory fault, or a process that sleeps for ever. \<open>wp\<close> of \<open>Prelude\<close> is its weakest
  precondition, and the rules \<open>wp_flow\<close> take programs apart. Pointers into a caller's buffer are offsets, and an access
  outside the buffer is a fault of the model, so that memory safety is a property and not an assumption.

  \<^bold>\<open>The theories.\<close>

  \<^item> \<open>Prelude\<close>: types, statements, weakest preconditions, reachable states and their invariants, lemmas on stores into lists.

  \<^item> \<open>Wire\<close>, \<open>Fcall\<close>, \<open>Fcall_Props\<close>: the macros of \<^verbatim>\<open>sys/include/9P2000.h\<close> and \<^verbatim>\<open>lib9p2000\<close>
  (\<^verbatim>\<open>convS2M.c\<close>, \<^verbatim>\<open>convM2S.c\<close>). The locale \<open>wire_field\<close> is the contract of one field of a message: what was put is
  got back, from the same place, and remains readable there although the decoder shifts strings inside its buffer. Every kind of field
  interprets it. On top of it: round trip of every message, the decoder accepts nothing but messages and stays in its buffer, the
  encoder refines the format \<open>wire\<close>, and the two ways in which the encoder fails on extreme structures.

  \<^item> \<open>Dir\<close>, \<open>Dir_Props\<close>: directory entries, with the decoder's second memory for strings; \<^verbatim>\<open>statcheck\<close> accepts
  exactly the entry format.

  \<^item> \<open>Kern\<close>: the state and the primitives that block and queue code uses: spin locks, queue locks, \<^verbatim>\<open>sleep\<close> and
  \<^verbatim>\<open>wakeup\<close>, error stacks. What runs while a process sleeps is a parameter, restricted only by the invariant that all kernel code
  keeps (\<open>rely\<close> of \<open>Own\<close>); \<^verbatim>\<open>sleep\<close> may return at once, return a note, or never return.

  \<^item> \<open>Blocks\<close>, \<open>Own\<close>, \<open>Blocks_Props\<close>: \<^verbatim>\<open>allocb.c\<close> and the chain routines of \<^verbatim>\<open>qio.c\<close>.
  \<open>kinv s M\<close> states that every live block is in one queue or in the set \<open>M\<close> of those held by running code, so leaks and uses after
  release show. Each chain routine gives the right bytes, frees what it drops, and fails only for lack of memory.

  \<^item> \<open>Queues\<close>, \<open>Queue_Rules\<close>, \<open>Queue_Sleep\<close>, \<open>Queue_Write\<close>, \<open>Queues_Props\<close>: all of the
  queue operations, the rules for those that do not sleep, that read and that write, and the properties. The locale \<open>byte_queue\<close> is
  what clients rely on, first in first out for any mix of operations, and the kernel's queues interpret it. Beside it: what \<^verbatim>\<open>qread\<close>
  and \<^verbatim>\<open>qwrite\<close> do in both queue modes, safety in any surroundings, no lost wakeup, closing, and three defects.

  \<^item> \<open>Utf\<close>, \<open>Utf_Props\<close>: the UTF-8 codec and the string routines \<^verbatim>\<open>utf*.c\<close> and \<^verbatim>\<open>strchr.c\<close>; round trip for every
  32-bit value, exactly the canonical encodings are accepted, copying keeps runes whole.

  \<^item> \<open>Avl\<close>, \<open>Avl_Tree\<close>, \<open>Avl_Heap\<close>, \<open>Avl_Props\<close>: \<^verbatim>\<open>libavl\<close> on a heap of nodes with parent pointers;
  the same routines on trees as values and their balance; the refinement between them; insertion, deletion, search and walks.

  \<^item> \<open>Locks\<close>, \<open>Lock_Lines\<close>, \<open>Qlock_Use\<close>, \<open>Rwlock_Use\<close>, \<open>Locks_Props\<close>: \<^verbatim>\<open>qlock.c\<close> and the
  interruption of a process that waits in \<^verbatim>\<open>eqlock\<close>, from \<^verbatim>\<open>proc.c\<close>. The linked lines of processes are lists; a system
  of any number of processes that use one lock is a step relation, whose invariant holds in every reachable state by the locale
  \<open>invariant_system\<close> of \<open>Prelude\<close>: mutual exclusion, order, no lost wakeups, no panic. In \<open>Kern\<close> these locks are only a list of those held.

  \<^item> \<open>Dev\<close>, \<open>Dev_Rules\<close>, \<open>Dev_Props\<close>: \<^verbatim>\<open>dev.c\<close>, the routines with which devices walk, list, describe and open their files. A
  device gives a table or a generator; the locales \<open>walkable\<close> and \<open>listing\<close> are what \<^verbatim>\<open>devwalk\<close> and \<^verbatim>\<open>devdirread\<close> rely on, and both tables
  and the generator of pipes interpret them. Walks follow the longest existing path; reads of a directory return whole entries of the
  format of \<open>Dir\<close> and lose none.

  \<^item> \<open>Pipes\<close>, \<open>Pipe_Rules\<close>, \<open>Pipe_Use\<close>, \<open>Pipe_Data\<close>, \<open>Pipes_Props\<close>: \<^verbatim>\<open>devpipe.c\<close> on top of \<open>Queues\<close> and \<open>Dev\<close>. The reference counts
  are an invariant of a step relation over the channels of a pipe (again \<open>invariant_system\<close>), each direction of a pipe interprets
  \<open>byte_queue\<close>, and closing hangs up the other side, which reads what is left and then the end of the file; one leak. What goes on in the queues between
  walks, opens and closes is a condition on the steps (\<open>keeps_queues\<close>), which reads and writes in a quiet kernel meet (\<open>Pipe_Data\<close>).

  \<^item> \<open>Cleanname\<close>, \<open>Cleanname_Rules\<close>, \<open>Cleanname_Props\<close>: \<^verbatim>\<open>cleanname.c\<close> on the bytes of the caller's memory; it leaves what a reference definition
  on the elements of the name gives, and cleaning twice is cleaning once.

  \<^item> \<open>Chans\<close>, \<open>Chan_Rules\<close>: \<^verbatim>\<open>ref.c\<close> and the channels and paths of \<^verbatim>\<open>chan.c\<close>. The state \<open>ns\<close> holds channels, paths, mount heads, tables of file descriptors
  and process groups; \<open>refs\<close> is the multiset of all references in it, and \<open>consistent\<close> that every count is the number of references in the state and
  in the hands of running code. \<^verbatim>\<open>cclose\<close>, \<^verbatim>\<open>chanfree\<close> and \<^verbatim>\<open>pathclose\<close>, which call each other, are one loop over a stack of calls; it ends, and keeps the
  counts. \<^verbatim>\<open>chanfree\<close> clears the pointers of its channel before it closes what they point to, where the C clears each after its own close; nothing in between can
  reach a channel without references.

  \<^item> \<open>Fds\<close>, \<open>Fd_Rules\<close>, \<open>Fd_Use\<close>, \<open>Fd_Close\<close>, \<open>Fd_Tables\<close>, \<open>Fd_New\<close>, \<open>Fd_System\<close>, \<open>Fds_Props\<close>: file descriptors, of \<^verbatim>\<open>sysfile.c\<close>, \<^verbatim>\<open>pgrp.c\<close>, \<^verbatim>\<open>sysproc.c\<close>, \<^verbatim>\<open>devself.c\<close> and
  \<^verbatim>\<open>devproc.c\<close>. A table is a map from descriptors to channels, and each call changes the map as it promises. The locale \<open>closer\<close> is what the loops that
  close whole tables rely on; \<^verbatim>\<open>cclose\<close> and \<^verbatim>\<open>ccloseq\<close> interpret it, the second without calling a device or freeing anything. In \<open>Fd_System\<close> calls of any processes follow each other, each with references that its caller
  holds (\<open>invariant_system\<close> again): counts stay exact, tables well formed, and nothing panics.

  \<^bold>\<open>Bounds and fuel.\<close> The loops of the codecs and of the chain routines are recursions that end. The waiting loops of the queues
  may run for ever in the C. In the model what happens during the sleeps of a process is a finite list of events, and every round uses one
  up, so that the length of the list bounds the rounds; a process that sleeps when the list is empty sleeps for ever, and the
  properties say in what state it leaves its queue. The length of the list is arbitrary. The loops and recursions of \<open>Avl\<close> have fuel
  as an argument; the properties hold, and the routines return, for any fuel above the height or the number of nodes of the tree. The loops of
  \<open>Locks\<close> and \<open>Dev\<close> are partial functions in which \<open>None\<close> is an endless loop; they are shown to return in every reachable state, and for every generator that
  keeps its contract. The loop of \<^verbatim>\<open>exec\<close> over the descriptors reads its bound again in every round; its fuel is the number of slots, which the bound stays below. Counts of
  references are 32-bit integers at which \<^verbatim>\<open>incref\<close> panics: the properties ask that no count is within 5000 of the limit.

  \<^bold>\<open>Not modelled.\<close> Statistics counters, debugging output and the \<^verbatim>\<open>QDEBUG\<close> checks of the modelled files, with them the panic of \<^verbatim>\<open>qlock\<close> and
  \<^verbatim>\<open>eqlock\<close> on a lock whose memory has been filled with a debugging pattern; strings of a structure to encode that lie in the output buffer;
  channels of devices as shared objects in \<open>Dev\<close>, where they are values; the scheduler
  (\<^verbatim>\<open>ready\<close> only changes the state of the process); the pool allocator under \<^verbatim>\<open>allocb\<close>, which may
  fail at any time. What a device does on the last close of a channel is recorded and not modelled, and taken not to touch channels; \<^verbatim>\<open>muxclose\<close> belongs to the mount driver. The steps of
  \<open>Fd_System\<close> make channels without paths and mount points, which the properties of \<^verbatim>\<open>cclose\<close> have in general. Of the program: the mount tables and
  the resolution of names in \<^verbatim>\<open>chan.c\<close>, which need the mount driver \<^verbatim>\<open>dev9p.c\<close> and its conversations with servers; processes and memory management, which rest on
  the machine; the other devices and drivers, the network stack, cryptography, graphics, the file servers and the commands, for their size. The fmt library's printing of
  messages and the Unicode tables are left out as well.
\<close>

end
